(* ===== verification/Rust_Prelude.thy ===== *)
theory Rust_Prelude
  imports Main "HOL-Library.Word" "HOL-Library.Monad_Syntax" "HOL-Library.Char_ord"
    "HOL-Library.List_Lexorder" "HOL-Library.Product_Lexorder"
begin

unbundle bit_operations_syntax

text \<open>
  What the components of the store share: machine integers and byte strings, the parts of
  Rust's standard library the source calls on slices and vectors (indexing, insertion,
  splitting, chunks, binary search), strictly sorted lists, and finite maps kept as strictly
  sorted association lists, which is how \<open>BTreeMap\<close> is modelled.

  A call that can panic returns an \<open>option\<close>: \<open>None\<close> is the panic. A call whose Rust type is
  an \<open>Option\<close> and that can panic as well has the panic outermost.
\<close>

named_theorems strict_simps "facts about strictly sorted lists"
named_theorems omap_simps "lookup and key facts of ordered maps"
named_theorems byte_simps "little-endian byte encodings"


section \<open>Machine integers and byte strings\<close>

type_synonym u8 = "8 word"
type_synonym u16 = "16 word"
type_synonym u32 = "32 word"
type_synonym u64 = "64 word"
type_synonym bytes = "u8 list"

text \<open>\<open>i32::try_from\<close> and \<open>i64::try_from\<close> of a wider signed integer.\<close>

definition try_i32 :: "int \<Rightarrow> int option" where
  "try_i32 n = (if - (2 ^ 31) \<le> n \<and> n < 2 ^ 31 then Some n else None)"

definition try_i64 :: "int \<Rightarrow> int option" where
  "try_i64 n = (if - (2 ^ 63) \<le> n \<and> n < 2 ^ 63 then Some n else None)"


section \<open>Slices and vectors\<close>

text \<open>\<open>slice::get\<close>: an element, or \<open>None\<close> out of range.\<close>

definition nth_opt :: "'a list \<Rightarrow> nat \<Rightarrow> 'a option" where
  "nth_opt xs i = (if i < length xs then Some (xs ! i) else None)"

lemma nth_opt_Nil [simp]: "nth_opt [] i = None"
  by (simp add: nth_opt_def)

lemma nth_opt_in [simp]: "i < length xs \<Longrightarrow> nth_opt xs i = Some (xs ! i)"
  by (simp add: nth_opt_def)

lemma nth_opt_out [simp]: "length xs \<le> i \<Longrightarrow> nth_opt xs i = None"
  by (simp add: nth_opt_def)

lemma nth_opt_Some_iff: "nth_opt xs i = Some x \<longleftrightarrow> i < length xs \<and> xs ! i = x"
  by (auto simp: nth_opt_def)

lemma nth_opt_append:
  "nth_opt (xs @ ys) i = (if i < length xs then nth_opt xs i else nth_opt ys (i - length xs))"
  by (auto simp: nth_opt_def nth_append)

lemma nth_opt_update:
  "i < length xs \<Longrightarrow> nth_opt (xs[i := x]) j = (if j = i then Some x else nth_opt xs j)"
  by (auto simp: nth_opt_def)

lemma nth_opt_snoc: "nth_opt (xs @ [x]) i = (if i = length xs then Some x else nth_opt xs i)"
  by (auto simp: nth_opt_def nth_append)

text \<open>\<open>Vec::insert\<close> panics past the end, \<open>Vec::remove\<close> and \<open>Vec::split_off\<close> likewise.\<close>

definition vec_insert :: "nat \<Rightarrow> 'a \<Rightarrow> 'a list \<Rightarrow> 'a list option" where
  "vec_insert i x xs = (if i \<le> length xs then Some (take i xs @ x # drop i xs) else None)"

definition vec_remove :: "nat \<Rightarrow> 'a list \<Rightarrow> ('a \<times> 'a list) option" where
  "vec_remove i xs =
     (if i < length xs then Some (xs ! i, take i xs @ drop (Suc i) xs) else None)"

definition split_off :: "nat \<Rightarrow> 'a list \<Rightarrow> ('a list \<times> 'a list) option" where
  "split_off n xs = (if n \<le> length xs then Some (take n xs, drop n xs) else None)"

text \<open>\<open>Vec::swap_remove\<close>: the last element takes the removed one's place.\<close>

definition swap_remove :: "nat \<Rightarrow> 'a list \<Rightarrow> 'a list option" where
  "swap_remove i xs =
     (if i < length xs then Some (butlast (xs[i := last xs])) else None)"

text \<open>\<open>slice::chunks\<close>: pieces of \<open>n\<close> elements, the last one possibly shorter.\<close>

function chunks_of :: "nat \<Rightarrow> 'a list \<Rightarrow> 'a list list" where
  "chunks_of n xs =
     (if xs = [] \<or> n = 0 then [] else take n xs # chunks_of n (drop n xs))"
  by pat_completeness auto
termination
  by (relation "measure (\<lambda>(n, xs). length xs)") auto

declare chunks_of.simps [simp del]

lemma chunks_of_Nil [simp]: "chunks_of n [] = []"
  by (simp add: chunks_of.simps)

lemma chunks_of_step:
  "xs \<noteq> [] \<Longrightarrow> 0 < n \<Longrightarrow> chunks_of n xs = take n xs # chunks_of n (drop n xs)"
  by (subst chunks_of.simps) simp

lemma concat_chunks_of: "0 < n \<Longrightarrow> concat (chunks_of n xs) = xs"
proof (induction n xs rule: chunks_of.induct)
  case (1 n xs)
  then show ?case by (cases "xs = []") (simp_all add: chunks_of_step)
qed

lemma chunks_of_exact_append:
  assumes "length xs = n" and "0 < n"
  shows "chunks_of n (xs @ ys) = xs # chunks_of n ys"
proof -
  have "xs @ ys \<noteq> []" using assms by auto
  then show ?thesis using assms by (simp add: chunks_of_step)
qed

text \<open>Splitting a list at a position, as every index-driven update of the source does.\<close>

lemma take_nth_drop: "i < length xs \<Longrightarrow> take i xs @ xs ! i # drop (Suc i) xs = xs"
  by (rule id_take_nth_drop [symmetric])

lemma set_concat_nth: "x \<in> set (concat xss) \<longleftrightarrow> (\<exists>j<length xss. x \<in> set (xss ! j))"
  by (auto simp: set_conv_nth [of xss])

lemma list_update_split: "i < length xs \<Longrightarrow> xs[i := x] = take i xs @ x # drop (Suc i) xs"
  by (simp add: upd_conv_take_nth_drop)


section \<open>Strictly sorted lists\<close>

abbreviation strict :: "'a::linorder list \<Rightarrow> bool" where
  "strict xs \<equiv> sorted_wrt (<) xs"

lemma strict_Cons [strict_simps]: "strict (x # xs) \<longleftrightarrow> (\<forall>y\<in>set xs. x < y) \<and> strict xs"
  by simp

lemma strict_append [strict_simps]:
  "strict (xs @ ys) \<longleftrightarrow> strict xs \<and> strict ys \<and> (\<forall>x\<in>set xs. \<forall>y\<in>set ys. x < y)"
  by (auto simp: sorted_wrt_append)

lemma strict_nth_less: "strict xs \<Longrightarrow> i < j \<Longrightarrow> j < length xs \<Longrightarrow> xs ! i < xs ! j"
  by (simp add: sorted_wrt_nth_less)

lemma strict_distinct: "strict xs \<Longrightarrow> distinct xs"
  by (simp add: strict_sorted_iff)

lemma strict_sorted: "strict xs \<Longrightarrow> sorted xs"
  by (simp add: strict_sorted_iff)

lemma strict_remdups_sort: "strict (remdups (sort xs))"
  by (simp add: strict_sorted_iff)

text \<open>A strictly sorted list is determined by its elements.\<close>

lemma strict_set_eqI: "strict xs \<Longrightarrow> strict ys \<Longrightarrow> set xs = set ys \<Longrightarrow> xs = ys"
  by (metis sorted_distinct_set_unique strict_sorted_iff)

text \<open>\<open>sort_unstable\<close> followed by \<open>dedup\<close> (which drops repeats of adjacent elements).\<close>

fun dedup :: "'a list \<Rightarrow> 'a list" where
  "dedup [] = []"
| "dedup [x] = [x]"
| "dedup (x # y # xs) = (if x = y then dedup (y # xs) else x # dedup (y # xs))"

definition sort_dedup :: "'a::linorder list \<Rightarrow> 'a list" where
  "sort_dedup xs = dedup (sort xs)"

lemma set_dedup [simp]: "set (dedup xs) = set xs"
  by (induction xs rule: dedup.induct) auto

lemma strict_dedup: "sorted xs \<Longrightarrow> strict (dedup xs)"
  by (induction xs rule: dedup.induct) (auto simp: order.strict_iff_order)

lemma set_sort_dedup [simp]: "set (sort_dedup xs) = set xs"
  by (simp add: sort_dedup_def)

lemma strict_sort_dedup [simp]: "strict (sort_dedup xs)"
  by (simp add: sort_dedup_def strict_dedup)

lemma sort_dedup_strict: "strict xs \<Longrightarrow> sort_dedup xs = xs"
  by (rule strict_set_eqI) simp_all


section \<open>Binary search\<close>

text \<open>
  \<open>slice::binary_search\<close> and \<open>slice::partition_point\<close>, with the probing order of the
  standard library: the loop halves the window from the left and looks at the element at
  its start only once, at the end. The order matters to \<open>CowMap\<close>, which calls
  \<open>partition_point\<close> on a slice whose first element may be out of order.
\<close>

function probe :: "('a \<Rightarrow> bool) \<Rightarrow> 'a list \<Rightarrow> nat \<Rightarrow> nat \<Rightarrow> nat" where
  "probe p xs base n =
     (if n \<le> 1 then base
      else let half = n div 2; mid = base + half
           in probe p xs (if p (xs ! mid) then mid else base) (n - half))"
  by pat_completeness auto
termination
  by (relation "measure (\<lambda>(p, xs, base, n). n)") auto

declare probe.simps [simp del]

definition partition_point :: "('a \<Rightarrow> bool) \<Rightarrow> 'a list \<Rightarrow> nat" where
  "partition_point p xs =
     (if xs = [] then 0
      else let b = probe p xs 0 (length xs) in if p (xs ! b) then Suc b else b)"

datatype search = Found nat | Missing nat

definition binary_search :: "'a::linorder list \<Rightarrow> 'a \<Rightarrow> search" where
  "binary_search xs k =
     (if xs = [] then Missing 0
      else let b = probe (\<lambda>x. x \<le> k) xs 0 (length xs)
           in if xs ! b = k then Found b
              else if xs ! b < k then Missing (Suc b) else Missing b)"

text \<open>
  The loop's result when the predicate is downward closed on every position but the first:
  it holds at the result unless that is position 0, and at no later position.
\<close>

definition prefix_closed :: "('a \<Rightarrow> bool) \<Rightarrow> 'a list \<Rightarrow> bool" where
  "prefix_closed p xs \<longleftrightarrow>
     (\<forall>i j. 1 \<le> i \<longrightarrow> i \<le> j \<longrightarrow> j < length xs \<longrightarrow> p (xs ! j) \<longrightarrow> p (xs ! i))"

lemma probe_correct:
  assumes "prefix_closed p xs" and "base + n \<le> length xs" and "0 < n"
    and "base = 0 \<or> p (xs ! base)" and "\<And>j. base + n \<le> j \<Longrightarrow> j < length xs \<Longrightarrow> \<not> p (xs ! j)"
  shows "probe p xs base n < length xs
    \<and> (probe p xs base n = 0 \<or> p (xs ! probe p xs base n))
    \<and> (\<forall>j. probe p xs base n < j \<longrightarrow> j < length xs \<longrightarrow> \<not> p (xs ! j))"
  using assms
proof (induction p xs base n rule: probe.induct)
  case (1 p xs base n)
  show ?case
  proof (cases "n \<le> 1")
    case True
    with "1.prems" have "n = 1" by simp
    moreover have "probe p xs base n = base" using True by (simp add: probe.simps)
    ultimately show ?thesis using "1.prems" by auto
  next
    case False
    define half where "half = n div 2"
    define mid where "mid = base + half"
    have half: "1 \<le> half" "half < n" using False by (auto simp: half_def)
    have step: "probe p xs base n = probe p xs (if p (xs ! mid) then mid else base) (n - half)"
      using False by (simp add: probe.simps [of p xs base n] half_def mid_def Let_def)
    have no_later: "\<not> p (xs ! j)" if "\<not> p (xs ! mid)" "mid \<le> j" "j < length xs" for j
      using that "1.prems"(1) half unfolding prefix_closed_def mid_def by force
    have mid_le: "mid \<le> base + (n - half)" unfolding mid_def half_def by linarith
    have later: "\<not> p (xs ! j)"
      if "(if p (xs ! mid) then mid else base) + (n - half) \<le> j" "j < length xs" for j
    proof (cases "p (xs ! mid)")
      case True
      with that half have "base + n \<le> j" by (simp add: mid_def)
      then show ?thesis using that(2) by (rule "1.prems"(5))
    next
      case False
      with that mid_le have "mid \<le> j" by simp
      from False this that(2) show ?thesis by (rule no_later)
    qed
    have win: "(if p (xs ! mid) then mid else base) + (n - half) \<le> length xs"
      using "1.prems"(2) half unfolding mid_def by (simp; linarith)
    have at: "(if p (xs ! mid) then mid else base) = 0
        \<or> p (xs ! (if p (xs ! mid) then mid else base))"
      using "1.prems"(4) by simp
    have "0 < n - half" using half(2) by simp
    from "1.IH" [OF False half_def mid_def "1.prems"(1) win this at later]
    show ?thesis unfolding step .
  qed
qed

lemma probe_slice:
  assumes "prefix_closed p xs" and "xs \<noteq> []"
  shows "probe p xs 0 (length xs) < length xs"
    and "probe p xs 0 (length xs) = 0 \<or> p (xs ! probe p xs 0 (length xs))"
    and "\<And>j. probe p xs 0 (length xs) < j \<Longrightarrow> j < length xs \<Longrightarrow> \<not> p (xs ! j)"
  using probe_correct [OF assms(1), of 0 "length xs"] assms(2) by auto

lemma prefix_closed_sorted: "sorted xs \<Longrightarrow> prefix_closed (\<lambda>x. x \<le> k) xs"
  unfolding prefix_closed_def by (meson order_trans sorted_nth_mono)

lemma partition_point_le: "prefix_closed p xs \<Longrightarrow> partition_point p xs \<le> length xs"
  using probe_slice(1) [of p xs] by (auto simp: partition_point_def Let_def intro: Suc_leI)

text \<open>On a slice that really is partitioned, the answer is the length of the true prefix.\<close>

lemma partition_point_takeWhile:
  assumes "\<And>i j. i \<le> j \<Longrightarrow> j < length xs \<Longrightarrow> p (xs ! j) \<Longrightarrow> p (xs ! i)"
  shows "partition_point p xs = length (takeWhile p xs)"
proof (cases "xs = []")
  case False
  have pc: "prefix_closed p xs" using assms unfolding prefix_closed_def by blast
  let ?b = "probe p xs 0 (length xs)"
  note b = probe_slice [OF pc False]
  show ?thesis
  proof (cases "p (xs ! ?b)")
    case True
    have "length (takeWhile p xs) = Suc ?b"
    proof (rule antisym)
      show "length (takeWhile p xs) \<le> Suc ?b"
      proof (rule ccontr)
        assume "\<not> length (takeWhile p xs) \<le> Suc ?b"
        then have "Suc ?b < length (takeWhile p xs)" by simp
        moreover from this have "Suc ?b < length xs" using length_takeWhile_le less_le_trans by blast
        ultimately show False using b(3) [of "Suc ?b"] nth_length_takeWhile set_takeWhileD
          by (metis lessI nth_mem takeWhile_nth)
      qed
      show "Suc ?b \<le> length (takeWhile p xs)"
        by (rule Suc_leI, rule ccontr)
          (use True assms b(1) nth_length_takeWhile [of p xs] in \<open>auto simp: not_less\<close>)
    qed
    with True False show ?thesis by (simp add: partition_point_def Let_def)
  next
    case False': False
    with b(2) have "?b = 0" by blast
    with False' False have "takeWhile p xs = []" by (cases xs) auto
    with \<open>?b = 0\<close> False' False show ?thesis by (simp add: partition_point_def Let_def)
  qed
qed (simp add: partition_point_def)

lemma binary_search_Found:
  "binary_search xs k = Found i \<Longrightarrow> sorted xs \<Longrightarrow> i < length xs \<and> xs ! i = k"
  using probe_slice(1) [OF prefix_closed_sorted, of xs k]
  by (auto simp: binary_search_def Let_def split: if_splits)

lemma binary_search_Missing:
  assumes "binary_search xs k = Missing i" and "strict xs"
  shows "i \<le> length xs" and "\<And>j. j < i \<Longrightarrow> xs ! j < k" and "\<And>j. i \<le> j \<Longrightarrow> j < length xs \<Longrightarrow> k < xs ! j"
proof -
  have *: "i \<le> length xs \<and> (\<forall>j<i. xs ! j < k) \<and> (\<forall>j. i \<le> j \<longrightarrow> j < length xs \<longrightarrow> k < xs ! j)"
  proof (cases "xs = []")
    case True
    with assms show ?thesis by (simp add: binary_search_def)
  next
    case False
    let ?b = "probe (\<lambda>x. x \<le> k) xs 0 (length xs)"
    have s: "sorted xs" using assms(2) by (rule strict_sorted)
    note b = probe_slice [OF prefix_closed_sorted [OF s] False, of k]
    from assms(1) False have ne: "xs ! ?b \<noteq> k"
      and i: "i = (if xs ! ?b < k then Suc ?b else ?b)"
      by (auto simp: binary_search_def Let_def split: if_splits)
    have lower: "xs ! j < k" if "j < i" for j
      using that i b(1) ne s sorted_nth_mono [OF s, of j ?b] b(2)
      by (cases "xs ! ?b < k") (auto simp: less_Suc_eq_le)
    have upper: "k < xs ! j" if "i \<le> j" "j < length xs" for j
      using that i ne b(3) [of j] by (cases "j = ?b") (auto split: if_splits)
    have "i \<le> length xs" using b(1) i by simp
    with lower upper show ?thesis by blast
  qed
  from * show "i \<le> length xs" by (rule conjunct1)
  show "xs ! j < k" if "j < i" for j using * that by simp
  show "k < xs ! j" if "i \<le> j" "j < length xs" for j using * that by simp
qed

lemma binary_search_Found_iff:
  assumes "strict xs"
  shows "(\<exists>i. binary_search xs k = Found i) \<longleftrightarrow> k \<in> set xs"
proof
  assume "\<exists>i. binary_search xs k = Found i"
  then show "k \<in> set xs" using binary_search_Found [OF _ strict_sorted [OF assms]] nth_mem by blast
next
  assume "k \<in> set xs"
  then obtain j where j: "j < length xs" "xs ! j = k" by (auto simp: in_set_conv_nth)
  show "\<exists>i. binary_search xs k = Found i"
  proof (cases "binary_search xs k")
    case (Missing i)
    with j binary_search_Missing [OF Missing assms] show ?thesis
      by (cases "j < i") (auto simp: not_less)
  qed blast
qed


section \<open>Finite maps as strictly sorted association lists\<close>

text \<open>
  \<open>BTreeMap\<close>: entries in strictly ascending key order. \<open>HashMap\<close> is modelled the same way
  wherever the source iterates it only after sorting its keys, so that the order of the list
  is never observed. Lookup is \<open>map_of\<close>.
\<close>

type_synonym ('k, 'v) omap = "('k \<times> 'v) list"

abbreviation om_keys :: "('k, 'v) omap \<Rightarrow> 'k list" where
  "om_keys m \<equiv> map fst m"

abbreviation om_wf :: "('k::linorder, 'v) omap \<Rightarrow> bool" where
  "om_wf m \<equiv> strict (om_keys m)"

fun om_insert :: "'k::linorder \<Rightarrow> 'v \<Rightarrow> ('k, 'v) omap \<Rightarrow> ('k, 'v) omap" where
  "om_insert k v [] = [(k, v)]"
| "om_insert k v (e # m) =
     (if fst e < k then e # om_insert k v m
      else if fst e = k then (k, v) # m else (k, v) # e # m)"

definition om_remove :: "'k \<Rightarrow> ('k, 'v) omap \<Rightarrow> ('k, 'v) omap" where
  "om_remove k m = filter (\<lambda>e. fst e \<noteq> k) m"

lemma set_keys_insert [omap_simps]: "fst ` set (om_insert k v m) = insert k (fst ` set m)"
  by (induction m) auto

lemma om_wf_insert [simp]: "om_wf m \<Longrightarrow> om_wf (om_insert k v m)"
proof (induction m)
  case (Cons e m)
  have "set (om_keys (om_insert k v m)) = insert k (set (om_keys m))"
    by (simp add: set_keys_insert)
  with Cons show ?case by auto
qed simp

lemma om_wf_remove [simp]: "om_wf m \<Longrightarrow> om_wf (om_remove k m)"
  unfolding om_remove_def by (induction m) (auto simp: strict_simps)

lemma om_get_insert [simp]: "map_of (om_insert k v m) = (map_of m)(k \<mapsto> v)"
  by (induction m) (auto simp: fun_eq_iff)

lemma om_get_remove [simp]: "map_of (om_remove k m) = (map_of m)(k := None)"
  unfolding om_remove_def by (induction m) (auto simp: fun_eq_iff)

lemma set_keys_remove [omap_simps]: "fst ` set (om_remove k m) = fst ` set m - {k}"
  by (auto simp: om_remove_def)

lemma om_remove_absent: "k \<notin> fst ` set m \<Longrightarrow> om_remove k m = m"
  unfolding om_remove_def by (rule filter_True) auto

lemma om_distinct: "om_wf m \<Longrightarrow> distinct (om_keys m)"
  by (rule strict_distinct)

lemma om_get_None_iff: "map_of m k = None \<longleftrightarrow> k \<notin> fst ` set m"
  by (rule map_of_eq_None_iff)

lemma om_get_Some_iff: "om_wf m \<Longrightarrow> map_of m k = Some v \<longleftrightarrow> (k, v) \<in> set m"
  by (simp add: om_distinct)

text \<open>A well-formed ordered map is determined by its lookups.\<close>

lemma om_ext:
  assumes "om_wf m" "om_wf m'" "map_of m = map_of m'"
  shows "m = m'"
proof -
  have s: "set m = set m'" using assms om_get_Some_iff by (metis (no_types, lifting) subset_antisym subset_iff surj_pair)
  have k: "om_keys m = om_keys m'" by (rule strict_set_eqI) (use assms s in auto)
  have "map_of m (fst e) = Some (snd e)" if "e \<in> set m" for e
    using that assms(1) by (simp add: om_distinct)
  with k s assms show ?thesis
    by (metis distinct_map inj_on_map_eq_map om_distinct sup.idem)
qed

lemma om_insert_right_of:
  "(\<And>e. e \<in> set xs \<Longrightarrow> fst e < k) \<Longrightarrow> om_insert k v (xs @ ys) = xs @ om_insert k v ys"
  by (induction xs) auto

lemma om_insert_left_of:
  "(\<And>e. e \<in> set zs \<Longrightarrow> k < fst e) \<Longrightarrow> om_insert k v (ys @ zs) = om_insert k v ys @ zs"
proof (induction ys)
  case Nil
  show ?case
  proof (cases zs)
    case (Cons e es)
    with Nil have "k < fst e" by simp
    with Cons show ?thesis by auto
  qed simp
qed auto

lemma om_insert_mid:
  assumes "\<And>e. e \<in> set xs \<Longrightarrow> fst e < k" and "\<And>e. e \<in> set zs \<Longrightarrow> k < fst e"
  shows "om_insert k v (xs @ ys @ zs) = xs @ om_insert k v ys @ zs"
  using assms by (simp add: om_insert_right_of om_insert_left_of)

lemma om_remove_append: "om_remove k (xs @ ys) = om_remove k xs @ om_remove k ys"
  by (simp add: om_remove_def)

lemma om_remove_mid:
  assumes "\<And>e. e \<in> set xs \<Longrightarrow> fst e \<noteq> k" and "\<And>e. e \<in> set zs \<Longrightarrow> fst e \<noteq> k"
  shows "om_remove k (xs @ ys @ zs) = xs @ om_remove k ys @ zs"
proof -
  have "om_remove k xs = xs" and "om_remove k zs = zs"
    using assms by (auto intro!: om_remove_absent)
  then show ?thesis by (simp add: om_remove_append)
qed

lemma length_om_insert:
  "length (om_insert k v m) = (if k \<in> fst ` set m then length m else Suc (length m))"
  if "om_wf m"
  using that by (induction m) (auto simp: strict_simps)

lemma length_om_remove:
  assumes "om_wf m"
  shows "length (om_remove k m) = (if k \<in> fst ` set m then length m - 1 else length m)"
proof -
  have "map fst (om_remove k m) = removeAll k (map fst m)"
    unfolding om_remove_def by (induction m) auto
  also have "\<dots> = remove1 k (map fst m)"
    using om_distinct [OF assms] by (simp add: distinct_remove1_removeAll)
  finally have "length (map fst (om_remove k m)) = length (remove1 k (map fst m))" by simp
  then show ?thesis by (simp add: length_remove1)
qed

text \<open>Inserting at the position a binary search of the keys reports as missing.\<close>

lemma zip_vec_insert:
  "length ks = length vs \<Longrightarrow> i \<le> length ks \<Longrightarrow>
   zip (take i ks @ k # drop i ks) (take i vs @ v # drop i vs)
     = take i (zip ks vs) @ (k, v) # drop i (zip ks vs)"
  by (simp add: take_zip drop_zip)

lemma om_insert_at:
  assumes "i \<le> length m" and "\<And>j. j < i \<Longrightarrow> fst (m ! j) < k"
    and "\<And>j. i \<le> j \<Longrightarrow> j < length m \<Longrightarrow> k < fst (m ! j)"
  shows "take i m @ (k, v) # drop i m = om_insert k v m"
proof -
  have "om_insert k v (take i m @ [] @ drop i m) = take i m @ om_insert k v [] @ drop i m"
  proof (rule om_insert_mid)
    show "fst e < k" if "e \<in> set (take i m)" for e
      using that assms(2) by (auto simp: in_set_conv_nth)
    show "k < fst e" if "e \<in> set (drop i m)" for e
      using that assms(3) by (auto simp: in_set_conv_nth)
  qed
  then show ?thesis by simp
qed

lemma om_update_at:
  assumes "om_wf m" and "i < length m" and "fst (m ! i) = k"
  shows "m[i := (k, v)] = om_insert k v m"
  using assms
proof (induction m arbitrary: i)
  case (Cons e m)
  show ?case
  proof (cases i)
    case (Suc j)
    with Cons.prems have "fst e < k" by auto
    with Suc Cons show ?thesis by auto
  qed (use Cons.prems in auto)
qed simp

lemma om_remove_at:
  assumes "om_wf m" and "i < length m" and "fst (m ! i) = k"
  shows "take i m @ drop (Suc i) m = om_remove k m"
proof -
  have d: "distinct (om_keys m)" using assms(1) by (rule om_distinct)
  have "om_remove k (take i m @ [m ! i] @ drop (Suc i) m) = take i m @ om_remove k [m ! i] @ drop (Suc i) m"
  proof (rule om_remove_mid)
    show "fst e \<noteq> k" if "e \<in> set (take i m)" for e
      using that d assms(2,3) by (auto simp: in_set_conv_nth distinct_conv_nth)
    show "fst e \<noteq> k" if "e \<in> set (drop (Suc i) m)" for e
      using that d assms(2,3) by (auto simp: in_set_conv_nth distinct_conv_nth)
  qed
  then show ?thesis using take_nth_drop [OF assms(2)] assms(3) by (simp add: om_remove_def)
qed


section \<open>Little-endian bytes\<close>

text \<open>\<open>to_le_bytes\<close> and \<open>from_le_bytes\<close> of the unsigned integers, through base-256 digits.\<close>

fun le_nat :: "bytes \<Rightarrow> nat" where
  "le_nat [] = 0"
| "le_nat (b # bs) = unat b + 256 * le_nat bs"

fun nat_le :: "nat \<Rightarrow> nat \<Rightarrow> bytes" where
  "nat_le 0 n = []"
| "nat_le (Suc k) n = of_nat (n mod 256) # nat_le k (n div 256)"

lemma length_nat_le [simp]: "length (nat_le k n) = k"
  by (induction k arbitrary: n) auto

lemma le_nat_nat_le [simp]: "le_nat (nat_le k n) = n mod 256 ^ k"
  by (induction k arbitrary: n) (simp_all add: unat_of_nat mod_mult2_eq)

lemma nat_le_le_nat [simp]: "nat_le (length bs) (le_nat bs) = bs"
proof (induction bs)
  case (Cons b bs)
  have "unat b < 256" using unsigned_less [of b] by simp
  with Cons show ?case by simp
qed simp

lemma le_nat_less: "le_nat bs < 256 ^ length bs"
proof (induction bs)
  case (Cons b bs)
  have "unat b < 256" using unsigned_less [of b] by simp
  with Cons show ?case by simp
qed simp

definition u16_le :: "u16 \<Rightarrow> bytes" where "u16_le w = nat_le 2 (unat w)"
definition u32_le :: "u32 \<Rightarrow> bytes" where "u32_le w = nat_le 4 (unat w)"
definition u64_le :: "u64 \<Rightarrow> bytes" where "u64_le w = nat_le 8 (unat w)"
definition le_u16 :: "bytes \<Rightarrow> u16" where "le_u16 bs = of_nat (le_nat bs)"
definition le_u32 :: "bytes \<Rightarrow> u32" where "le_u32 bs = of_nat (le_nat bs)"
definition le_u64 :: "bytes \<Rightarrow> u64" where "le_u64 bs = of_nat (le_nat bs)"

lemma length_u16_le [byte_simps]: "length (u16_le w) = 2" by (simp add: u16_le_def)
lemma length_u32_le [byte_simps]: "length (u32_le w) = 4" by (simp add: u32_le_def)
lemma length_u64_le [byte_simps]: "length (u64_le w) = 8" by (simp add: u64_le_def)

lemma le_u16_inverse [byte_simps]: "le_u16 (u16_le w) = w"
  using unsigned_less [of w, where ?'a = nat] by (simp add: le_u16_def u16_le_def)

lemma le_u32_inverse [byte_simps]: "le_u32 (u32_le w) = w"
  using unsigned_less [of w, where ?'a = nat] by (simp add: le_u32_def u32_le_def)

lemma le_u64_inverse [byte_simps]: "le_u64 (u64_le w) = w"
  using unsigned_less [of w, where ?'a = nat] by (simp add: le_u64_def u64_le_def)

lemma u32_le_inverse: "length bs = 4 \<Longrightarrow> u32_le (le_u32 bs) = bs"
  using le_nat_less [of bs] nat_le_le_nat [of bs] by (simp add: le_u32_def u32_le_def unat_of_nat)

lemma u64_le_inverse: "length bs = 8 \<Longrightarrow> u64_le (le_u64 bs) = bs"
  using le_nat_less [of bs] nat_le_le_nat [of bs] by (simp add: le_u64_def u64_le_def unat_of_nat)

end
