(* ===== verification/Cow_Vec.thy ===== *)
theory Cow_Vec
  imports Rust_Prelude
begin

text \<open>
  \<open>CowVec\<close> (\<open>crates/core-storage/src/cow.rs\<close>): a vector kept in chunks of 128 elements behind
  \<open>Arc\<close>s, so that a clone shares every chunk. \<open>Arc::make_mut\<close> copies a shared chunk before it
  writes, so a chunk behaves as a value; the model keeps the chunks as lists. The invariant is
  that every chunk but the last is full and none is empty; every operation is then the
  corresponding operation on the list the chunks spell.
\<close>

definition CHUNK_BITS :: nat where "CHUNK_BITS = 7"
definition CHUNK :: nat where "CHUNK = push_bit CHUNK_BITS 1"
definition CHUNK_MASK :: nat where "CHUNK_MASK = CHUNK - 1"

record 'a cow_vec =
  cv_chunks :: "'a list list"
  cv_len :: nat

definition cv_new :: "'a cow_vec" where
  "cv_new = \<lparr>cv_chunks = [], cv_len = 0\<rparr>"

definition cv_is_empty :: "'a cow_vec \<Rightarrow> bool" where
  "cv_is_empty v \<longleftrightarrow> cv_len v = 0"

definition cv_get :: "'a cow_vec \<Rightarrow> nat \<Rightarrow> 'a option" where
  "cv_get v i = do {
     c \<leftarrow> nth_opt (cv_chunks v) (drop_bit CHUNK_BITS i);
     nth_opt c (i AND CHUNK_MASK) }"

text \<open>
  \<open>get_mut\<close> hands out a place; the model takes the value written to it. \<open>None\<close> is its
  \<open>None\<close>, which \<open>set\<close> and \<open>replace\<close> turn into a panic.
\<close>

definition cv_get_mut :: "'a cow_vec \<Rightarrow> nat \<Rightarrow> 'a \<Rightarrow> 'a cow_vec option" where
  "cv_get_mut v i x = do {
     c \<leftarrow> nth_opt (cv_chunks v) (drop_bit CHUNK_BITS i);
     if length c \<le> i AND CHUNK_MASK then None
     else Some (v\<lparr>cv_chunks :=
       (cv_chunks v)[drop_bit CHUNK_BITS i := c[i AND CHUNK_MASK := x]]\<rparr>) }"

definition cv_set :: "'a cow_vec \<Rightarrow> nat \<Rightarrow> 'a \<Rightarrow> 'a cow_vec option" where
  "cv_set v i x = cv_get_mut v i x"

definition cv_replace :: "'a cow_vec \<Rightarrow> nat \<Rightarrow> 'a \<Rightarrow> ('a \<times> 'a cow_vec) option" where
  "cv_replace v i x = do { old \<leftarrow> cv_get v i; w \<leftarrow> cv_get_mut v i x; Some (old, w) }"

definition cv_push :: "'a cow_vec \<Rightarrow> 'a \<Rightarrow> 'a cow_vec" where
  "cv_push v x =
     (if cv_chunks v \<noteq> [] \<and> length (last (cv_chunks v)) < CHUNK
      then \<lparr>cv_chunks = butlast (cv_chunks v) @ [last (cv_chunks v) @ [x]],
            cv_len = cv_len v + 1\<rparr>
      else \<lparr>cv_chunks = cv_chunks v @ [[x]], cv_len = cv_len v + 1\<rparr>)"

text \<open>
  One round of the loop of \<open>grow_to\<close>: make sure the last chunk has room, then fill it up to
  the target.
\<close>

definition cv_grow_step :: "nat \<Rightarrow> 'a \<Rightarrow> 'a cow_vec \<Rightarrow> 'a cow_vec" where
  "cv_grow_step n fill v =
     (let cs = (if cv_chunks v \<noteq> [] \<and> length (last (cv_chunks v)) < CHUNK
                then cv_chunks v else cv_chunks v @ [[]]);
          room = CHUNK - length (last cs);
          add = min room (n - cv_len v)
      in \<lparr>cv_chunks = butlast cs @ [last cs @ replicate add fill], cv_len = cv_len v + add\<rparr>)"

lemma CHUNK_eq [simp]: "CHUNK = 128"
  by (simp add: CHUNK_def CHUNK_BITS_def)

lemma cv_grow_step_len: "cv_len v < n \<Longrightarrow> cv_len v < cv_len (cv_grow_step n fill v)"
  by (auto simp: cv_grow_step_def Let_def)

function cv_grow_to :: "nat \<Rightarrow> 'a \<Rightarrow> 'a cow_vec \<Rightarrow> 'a cow_vec" where
  "cv_grow_to n fill v =
     (if cv_len v < n then cv_grow_to n fill (cv_grow_step n fill v) else v)"
  by pat_completeness auto
termination
  by (relation "measure (\<lambda>(n, fill, v). n - cv_len v)")
    (auto dest: cv_grow_step_len intro!: diff_less_mono2)

declare cv_grow_to.simps [simp del]

definition cv_iter :: "'a cow_vec \<Rightarrow> 'a list" where
  "cv_iter v = concat (cv_chunks v)"

definition cv_from_vec :: "'a list \<Rightarrow> 'a cow_vec" where
  "cv_from_vec xs =
     (if length xs \<le> CHUNK
      then \<lparr>cv_chunks = (if length xs = 0 then [] else [xs]), cv_len = length xs\<rparr>
      else \<lparr>cv_chunks = chunks_of CHUNK xs, cv_len = length xs\<rparr>)"

definition cv_from_iter :: "'a list \<Rightarrow> 'a cow_vec" where
  "cv_from_iter xs = foldl cv_push cv_new xs"

definition cv_eq :: "'a cow_vec \<Rightarrow> 'a cow_vec \<Rightarrow> bool" where
  "cv_eq v w \<longleftrightarrow> cv_len v = cv_len w \<and> cv_iter v = cv_iter w"


section \<open>The invariant\<close>

fun chunked :: "'a list list \<Rightarrow> bool" where
  "chunked [] \<longleftrightarrow> True"
| "chunked [c] \<longleftrightarrow> c \<noteq> [] \<and> length c \<le> CHUNK"
| "chunked (c # d # cs) \<longleftrightarrow> length c = CHUNK \<and> chunked (d # cs)"

definition cv_inv :: "'a cow_vec \<Rightarrow> bool" where
  "cv_inv v \<longleftrightarrow> chunked (cv_chunks v) \<and> cv_len v = length (concat (cv_chunks v))"

lemma chunked_tl: "chunked (c # cs) \<Longrightarrow> chunked cs"
  by (cases cs) auto

lemma chunked_snoc:
  "chunked (cs @ [c]) \<longleftrightarrow> (\<forall>d\<in>set cs. length d = CHUNK) \<and> c \<noteq> [] \<and> length c \<le> CHUNK"
proof (induction cs)
  case (Cons d cs)
  then show ?case by (cases cs) auto
qed simp

lemma chunked_nth:
  "chunked cs \<Longrightarrow> nth_opt (concat cs) i =
     (case nth_opt cs (i div 128) of None \<Rightarrow> None | Some c \<Rightarrow> nth_opt c (i mod 128))"
proof (induction cs arbitrary: i rule: chunked.induct)
  case (2 c)
  then show ?case by (cases "i < 128") (auto simp: nth_opt_def div_eq_0_iff)
next
  case (3 c d cs)
  show ?case
  proof (cases "i < 128")
    case True
    with 3 show ?thesis by (simp add: nth_opt_append)
  next
    case False
    then have "i div 128 = Suc ((i - 128) div 128)" and "i mod 128 = (i - 128) mod 128"
      by (simp_all add: le_div_geq le_mod_geq not_less)
    with False 3 show ?thesis by (simp add: nth_opt_append) (simp add: nth_opt_def)
  qed
qed simp


lemma chunk_index [simp]: "drop_bit CHUNK_BITS i = i div 128" "i AND CHUNK_MASK = i mod 128"
proof -
  show "drop_bit CHUNK_BITS i = i div 128" by (simp add: CHUNK_BITS_def drop_bit_eq_div)
  have "i AND CHUNK_MASK = i AND mask 7" by (simp add: CHUNK_MASK_def mask_eq_exp_minus_1)
  also have "\<dots> = take_bit 7 i" by (simp add: take_bit_eq_mask)
  finally show "i AND CHUNK_MASK = i mod 128" by (simp add: take_bit_eq_mod)
qed

lemma chunked_locate:
  assumes "chunked cs" and "i < length (concat cs)"
  shows "i div 128 < length cs" and "i mod 128 < length (cs ! (i div 128))"
proof -
  have "nth_opt (concat cs) i \<noteq> None" using assms(2) by simp
  then have "(case nth_opt cs (i div 128) of None \<Rightarrow> None | Some c \<Rightarrow> nth_opt c (i mod 128)) \<noteq> None"
    by (simp only: chunked_nth [OF assms(1)] not_False_eq_True)
  then show "i div 128 < length cs" and "i mod 128 < length (cs ! (i div 128))"
    by (auto simp: nth_opt_def split: if_splits)
qed

lemma chunked_outside:
  assumes "chunked cs" and "length (concat cs) \<le> i" and "i div 128 < length cs"
  shows "length (cs ! (i div 128)) \<le> i mod 128"
  using chunked_nth [OF assms(1), of i] assms(2,3) by (auto simp: nth_opt_def split: if_splits)

lemma chunked_update:
  "chunked cs \<Longrightarrow> length c = length (cs ! q) \<Longrightarrow> q < length cs \<Longrightarrow> chunked (cs[q := c])"
proof (induction cs arbitrary: q rule: chunked.induct)
  case (3 d e cs)
  show ?case
  proof (cases q)
    case (Suc j)
    have "chunked ((e # cs)[j := c])" using 3 Suc by simp
    then show ?thesis using 3 Suc by (cases j) auto
  qed (use 3 in simp)
qed auto

lemma concat_chunked_update:
  "chunked cs \<Longrightarrow> i < length (concat cs) \<Longrightarrow>
   concat (cs[i div 128 := (cs ! (i div 128))[i mod 128 := x]]) = (concat cs)[i := x]"
proof (induction cs arbitrary: i rule: chunked.induct)
  case (2 c)
  then show ?case by auto
next
  case (3 c d cs)
  show ?case
  proof (cases "i < 128")
    case True
    with 3 show ?thesis by (simp add: list_update_append)
  next
    case False
    then have "i div 128 = Suc ((i - 128) div 128)" and "i mod 128 = (i - 128) mod 128"
      by (simp_all add: le_div_geq le_mod_geq not_less)
    with False 3 show ?thesis by (simp add: list_update_append)
  qed
qed simp


section \<open>Every operation is the list operation\<close>

lemma cv_new_inv [simp]: "cv_inv cv_new" "cv_iter cv_new = []"
  by (simp_all add: cv_inv_def cv_new_def cv_iter_def)

lemma cv_len_iter: "cv_inv v \<Longrightarrow> cv_len v = length (cv_iter v)"
  by (simp add: cv_inv_def cv_iter_def)

lemma cv_get_iter: "cv_inv v \<Longrightarrow> cv_get v i = nth_opt (cv_iter v) i"
  by (auto simp: cv_inv_def cv_get_def cv_iter_def chunked_nth split: option.split)

lemma cv_get_mut_in:
  assumes "cv_inv v" and "i < cv_len v"
  obtains w where "cv_get_mut v i x = Some w" and "cv_inv w" and "cv_iter w = (cv_iter v)[i := x]"
proof
  let ?cs = "cv_chunks v" and ?q = "i div 128" and ?r = "i mod 128"
  let ?w = "v\<lparr>cv_chunks := ?cs[?q := (?cs ! ?q)[?r := x]]\<rparr>"
  have c: "chunked ?cs" and i: "i < length (concat ?cs)" using assms by (auto simp: cv_inv_def)
  note loc = chunked_locate [OF c i]
  show "cv_get_mut v i x = Some ?w" using loc by (simp add: cv_get_mut_def)
  show it: "cv_iter ?w = (cv_iter v)[i := x]"
    using concat_chunked_update [OF c i, of x] by (simp add: cv_iter_def)
  have "chunked (cv_chunks ?w)" using chunked_update [OF c _ loc(1)] by simp
  moreover have "cv_len ?w = length (cv_iter ?w)"
    using assms(1) it by (simp add: cv_inv_def cv_iter_def del: length_concat)
  ultimately show "cv_inv ?w" by (simp add: cv_inv_def cv_iter_def)
qed

lemma cv_get_mut_out: "cv_inv v \<Longrightarrow> cv_len v \<le> i \<Longrightarrow> cv_get_mut v i x = None"
  using chunked_outside [of "cv_chunks v" i]
  by (cases "i div 128 < length (cv_chunks v)") (auto simp: cv_get_mut_def cv_inv_def)

lemma cv_push_iter:
  assumes "cv_inv v"
  shows "cv_inv (cv_push v x)" and "cv_iter (cv_push v x) = cv_iter v @ [x]"
proof -
  have "cv_inv (cv_push v x) \<and> cv_iter (cv_push v x) = cv_iter v @ [x]"
  proof (cases "cv_chunks v" rule: rev_cases)
    case Nil
    with assms show ?thesis by (simp add: cv_push_def cv_inv_def cv_iter_def)
  next
    case (snoc cs c)
    have "chunked (cs @ [c] @ [[x]])" if "length c = 128"
      using assms that chunked_snoc [of "cs @ [c]" "[x]"] by (simp add: snoc cv_inv_def chunked_snoc)
    with assms snoc show ?thesis by (auto simp: cv_push_def cv_inv_def cv_iter_def chunked_snoc)
  qed
  then show "cv_inv (cv_push v x)" and "cv_iter (cv_push v x) = cv_iter v @ [x]" by auto
qed

text \<open>The interface the key table of \<open>IdMap\<close> relies on.\<close>

locale list_store =
  fixes get :: "'s \<Rightarrow> nat \<Rightarrow> 'a option"
    and put :: "'s \<Rightarrow> nat \<Rightarrow> 'a \<Rightarrow> 's option"
    and push :: "'s \<Rightarrow> 'a \<Rightarrow> 's"
    and size_of :: "'s \<Rightarrow> nat"
    and items :: "'s \<Rightarrow> 'a list"
    and ok :: "'s \<Rightarrow> bool"
  assumes get_items: "ok s \<Longrightarrow> get s i = nth_opt (items s) i"
    and size_items: "ok s \<Longrightarrow> size_of s = length (items s)"
    and put_out: "ok s \<Longrightarrow> size_of s \<le> i \<Longrightarrow> put s i x = None"
    and put_in: "ok s \<Longrightarrow> i < size_of s \<Longrightarrow>
      \<exists>t. put s i x = Some t \<and> ok t \<and> items t = (items s)[i := x]"
    and push_ok: "ok s \<Longrightarrow> ok (push s x)"
    and push_items: "ok s \<Longrightarrow> items (push s x) = items s @ [x]"
begin

lemma put_Some_iff:
  "ok s \<Longrightarrow> put s i x = Some t \<Longrightarrow> i < length (items s) \<and> ok t \<and> items t = (items s)[i := x]"
  using put_out [of s i x] put_in [of s i x] size_items [of s] by (cases "i < size_of s") auto

lemma put_defined: "ok s \<Longrightarrow> put s i x \<noteq> None \<longleftrightarrow> i < length (items s)"
  using put_out [of s i x] put_in [of s i x] size_items [of s] by (cases "i < size_of s") auto

lemma get_put: "ok s \<Longrightarrow> put s i x = Some t \<Longrightarrow> get t j = (if j = i then Some x else get s j)"
  using put_Some_iff [of s i x t] by (auto simp: get_items nth_opt_update)

lemma get_push: "ok s \<Longrightarrow> get (push s x) j = (if j = size_of s then Some x else get s j)"
  by (simp add: get_items push_ok push_items size_items nth_opt_snoc)

lemma size_put: "ok s \<Longrightarrow> put s i x = Some t \<Longrightarrow> size_of t = size_of s"
  using put_Some_iff [of s i x t] by (auto simp: size_items)

lemma size_push: "ok s \<Longrightarrow> size_of (push s x) = Suc (size_of s)"
  by (simp add: push_ok size_items push_items)

lemma foldl_push: "ok s \<Longrightarrow> ok (foldl push s xs) \<and> items (foldl push s xs) = items s @ xs"
  by (induction xs arbitrary: s) (auto simp: push_ok push_items)

end

interpretation cv: list_store cv_get cv_set cv_push cv_len cv_iter cv_inv
proof unfold_locales
  fix s :: "'a cow_vec" and i x assume "cv_inv s" "i < cv_len s"
  then show "\<exists>t. cv_set s i x = Some t \<and> cv_inv t \<and> cv_iter t = (cv_iter s)[i := x]"
    by (rule cv_get_mut_in) (auto simp: cv_set_def)
qed (simp_all add: cv_get_iter cv_len_iter cv_set_def cv_get_mut_out cv_push_iter)


lemma cv_grow_step_iter:
  assumes "cv_inv v" and "cv_len v < n"
  shows "cv_inv (cv_grow_step n fill v)"
    and "cv_len v < cv_len (cv_grow_step n fill v)" and "cv_len (cv_grow_step n fill v) \<le> n"
    and "cv_iter (cv_grow_step n fill v)
      = cv_iter v @ replicate (cv_len (cv_grow_step n fill v) - cv_len v) fill"
proof -
  let ?room = "cv_chunks v \<noteq> [] \<and> length (last (cv_chunks v)) < 128"
  define cs where "cs = (if ?room then cv_chunks v else cv_chunks v @ [[]])"
  define add where "add = min (128 - length (last cs)) (n - cv_len v)"
  have w: "cv_grow_step n fill v
      = \<lparr>cv_chunks = butlast cs @ [last cs @ replicate add fill], cv_len = cv_len v + add\<rparr>"
    by (simp add: cv_grow_step_def cs_def add_def Let_def)
  have add: "0 < add" "cv_len v + add \<le> n" using assms(2) by (auto simp: add_def cs_def)
  have full: "\<forall>d\<in>set (butlast cs). length d = 128" and fits: "length (last cs) + add \<le> 128"
  proof -
    show "\<forall>d\<in>set (butlast cs). length d = 128"
    proof (cases "cv_chunks v" rule: rev_cases)
      case Nil
      then show ?thesis by (simp add: cs_def)
    next
      case (snoc ds d)
      with assms(1) have "(\<forall>e\<in>set ds. length e = 128) \<and> length d \<le> 128"
        by (simp add: cv_inv_def chunked_snoc)
      with snoc show ?thesis by (auto simp: cs_def butlast_append)
    qed
    have "length (last cs) \<le> 128" by (auto simp: cs_def)
    then show "length (last cs) + add \<le> 128" by (simp add: add_def)
  qed
  have cat: "concat (butlast cs) @ last cs = cv_iter v"
  proof -
    have "cs \<noteq> []" by (simp add: cs_def)
    then have "concat (butlast cs) @ last cs = concat cs"
      by (metis append_butlast_last_id append_Nil2 concat.simps concat_append)
    also have "\<dots> = cv_iter v" by (simp add: cs_def cv_iter_def)
    finally show ?thesis .
  qed
  show "cv_len v < cv_len (cv_grow_step n fill v)" "cv_len (cv_grow_step n fill v) \<le> n"
    using add by (simp_all add: w)
  show it: "cv_iter (cv_grow_step n fill v)
      = cv_iter v @ replicate (cv_len (cv_grow_step n fill v) - cv_len v) fill"
    using cat by (simp add: w cv_iter_def flip: append_assoc)
  have "chunked (cv_chunks (cv_grow_step n fill v))"
    using full fits add(1) by (simp add: w chunked_snoc)
  moreover have "cv_len (cv_grow_step n fill v) = length (cv_iter (cv_grow_step n fill v))"
    using it cv_len_iter [OF assms(1)] by (simp add: w)
  ultimately show "cv_inv (cv_grow_step n fill v)" by (simp add: cv_inv_def cv_iter_def)
qed

lemma cv_grow_to_iter:
  "cv_inv v \<Longrightarrow> cv_inv (cv_grow_to n fill v)
    \<and> cv_iter (cv_grow_to n fill v) = cv_iter v @ replicate (n - cv_len v) fill"
proof (induction n fill v rule: cv_grow_to.induct)
  case (1 n fill v)
  show ?case
  proof (cases "cv_len v < n")
    case True
    let ?w = "cv_grow_step n fill v"
    note st = cv_grow_step_iter [OF "1.prems" True, of fill]
    have "replicate (cv_len ?w - cv_len v) fill @ replicate (n - cv_len ?w) fill
        = replicate (n - cv_len v) fill"
      using st(2,3) by (simp flip: replicate_add)
    with "1.IH" [OF True st(1)] True st(4) show ?thesis
      by (simp add: cv_grow_to.simps [of n fill v])
  next
    case False
    with "1.prems" show ?thesis by (simp add: cv_grow_to.simps [of n fill v])
  qed
qed

lemma chunked_chunks_of: "chunked (chunks_of 128 xs)"
proof (induction "128 :: nat" xs rule: chunks_of.induct)
  case (1 xs)
  show ?case
  proof (cases "length xs \<le> 128")
    case True
    then show ?thesis by (cases "xs = []") (simp_all add: chunks_of_step)
  next
    case False
    have st: "chunks_of 128 xs = take 128 xs # chunks_of 128 (drop 128 xs)"
      by (rule chunks_of_step) (use False in auto)
    have "chunks_of 128 (drop 128 xs) \<noteq> []"
      using False by (subst chunks_of_step) auto
    then obtain d ds where "chunks_of 128 (drop 128 xs) = d # ds" by (auto simp: neq_Nil_conv)
    moreover from False have "xs \<noteq> []" by auto
    then have "chunked (chunks_of 128 (drop 128 xs))" using 1 by simp
    ultimately show ?thesis using False by (simp add: st)
  qed
qed

lemma cv_from_vec_iter: "cv_inv (cv_from_vec xs)" "cv_iter (cv_from_vec xs) = xs"
proof -
  have "concat (chunks_of 128 xs) = xs" by (simp add: concat_chunks_of)
  then show "cv_inv (cv_from_vec xs)" "cv_iter (cv_from_vec xs) = xs"
    using chunked_chunks_of [of xs]
    by (auto simp: cv_from_vec_def cv_inv_def cv_iter_def simp del: length_concat)
qed

text \<open>
  \<open>CowVec\<close> is a vector. Reading, overwriting, replacing, pushing and growing a chunked
  vector are the same operations on the list of its elements, an index out of bounds is a
  panic of \<open>set\<close> and \<open>replace\<close> and nothing else is, and building one from a vector or from an
  iterator keeps every element in order.
\<close>

theorem cow_vec_is_a_vector:
  assumes "cv_inv v"
  shows "cv_len v = length (cv_iter v) \<and> cv_get v i = nth_opt (cv_iter v) i
    \<and> map_option cv_iter (cv_set v i x)
      = (if i < length (cv_iter v) then Some ((cv_iter v)[i := x]) else None)
    \<and> map_option (\<lambda>(old, w). (old, cv_iter w)) (cv_replace v i x)
      = (if i < length (cv_iter v) then Some (cv_iter v ! i, (cv_iter v)[i := x]) else None)
    \<and> cv_iter (cv_push v x) = cv_iter v @ [x]
    \<and> cv_iter (cv_grow_to n x v) = cv_iter v @ replicate (n - length (cv_iter v)) x
    \<and> cv_iter (cv_from_vec xs) = xs \<and> cv_iter (cv_from_iter xs) = xs"
proof (intro conjI)
  note len = cv_len_iter [OF assms]
  show "cv_len v = length (cv_iter v)" by (fact len)
  show get: "cv_get v i = nth_opt (cv_iter v) i" by (rule cv_get_iter [OF assms])
  show set: "map_option cv_iter (cv_set v i x)
      = (if i < length (cv_iter v) then Some ((cv_iter v)[i := x]) else None)"
    using cv.put_in [OF assms, of i x] cv.put_out [OF assms, of i x] len by auto
  show "map_option (\<lambda>(old, w). (old, cv_iter w)) (cv_replace v i x)
      = (if i < length (cv_iter v) then Some (cv_iter v ! i, (cv_iter v)[i := x]) else None)"
    using set get by (auto simp: cv_replace_def cv_set_def nth_opt_def split: if_splits)
  show "cv_iter (cv_push v x) = cv_iter v @ [x]" by (rule cv_push_iter(2) [OF assms])
  show "cv_iter (cv_grow_to n x v) = cv_iter v @ replicate (n - length (cv_iter v)) x"
    using cv_grow_to_iter [OF assms] by (simp add: len)
  show "cv_iter (cv_from_vec xs) = xs" by (rule cv_from_vec_iter)
  show "cv_iter (cv_from_iter xs) = xs"
    using cv.foldl_push [of cv_new xs] by (simp add: cv_from_iter_def)
qed

theorem cow_vec_is_a_vector_witness:
  "cv_inv (cv_push cv_new (7 :: nat)) \<and> cv_get (cv_push cv_new (7 :: nat)) 0 = Some 7
    \<and> cv_set (cv_push cv_new (7 :: nat)) 1 9 = None
    \<and> cv_iter (cv_grow_to 3 0 (cv_push cv_new (7 :: nat))) = [7, 0, 0]"
proof -
  have inv: "cv_inv (cv_push cv_new (7 :: nat))" by (simp add: cv_push_iter)
  have "cv_iter (cv_push cv_new (7 :: nat)) = [7]" by (simp add: cv_push_iter)
  then show ?thesis
    using inv cow_vec_is_a_vector [OF inv, where i = 0 and x = 0 and n = 3 and xs = "[]"]
      cow_vec_is_a_vector [OF inv, where i = 1 and x = 9 and n = 0 and xs = "[]"]
    by (auto simp: numeral_2_eq_2)
qed

text \<open>
  the chunk invariant (every chunk but the last full, none empty, the recorded length the
  number of elements) holds of a new vector and of every vector the operations return.
\<close>

theorem cow_vec_invariant:
  "cv_inv cv_new \<and> cv_inv (cv_from_vec xs) \<and> cv_inv (cv_from_iter xs)
    \<and> (cv_inv v \<longrightarrow> cv_inv (cv_push v x) \<and> cv_inv (cv_grow_to n x v)
        \<and> (\<forall>w. cv_set v i x = Some w \<longrightarrow> cv_inv w))"
  using cv.put_Some_iff [of v i x] cv.foldl_push [of cv_new xs]
  by (simp add: cv_push_iter cv_grow_to_iter cv_from_vec_iter cv_from_iter_def)

theorem cow_vec_invariant_witness:
  "cv_inv (cv_new :: nat cow_vec) \<and> cv_inv (cv_grow_to 300 (1 :: nat) cv_new)
    \<and> cv_set (cv_push cv_new (7 :: nat)) 0 9 = Some \<lparr>cv_chunks = [[9]], cv_len = 1\<rparr>
    \<and> cv_inv \<lparr>cv_chunks = [[9 :: nat]], cv_len = 1\<rparr>"
proof -
  have "cv_set (cv_push cv_new (7 :: nat)) 0 9 = Some \<lparr>cv_chunks = [[9]], cv_len = 1\<rparr>"
    by (simp add: cv_push_def cv_new_def cv_set_def cv_get_mut_def)
  then show ?thesis
    using cow_vec_invariant [of "[]" "cv_push cv_new (7 :: nat)" 9 0 0]
      cow_vec_invariant [of "[]" cv_new "1 :: nat" 300 0]
    by (auto simp: cv_push_iter)
qed

end
