(* ===== verification/Ordered_Map.thy ===== *)
theory Ordered_Map
  imports Rust_Prelude
begin

text \<open>
  The contract of an ordered map, as the storage crate's containers use one: a lookup, an insert
  that reports the value it replaced and a removal that reports the value it took, each of which
  may panic (\<open>None\<close>). \<open>ents\<close> reads the entries in key order; \<open>inv\<close> is the representation invariant,
  and \<open>room\<close> what a removal needs besides it. The laws say that no operation panics and that each
  acts on the entries as it would on a sorted association list, the model of \<open>BTreeMap\<close>.
\<close>

locale ordered_map =
  fixes empty :: 'm
    and get :: "'m \<Rightarrow> 'k::linorder \<Rightarrow> 'v option option"
    and ins :: "'m \<Rightarrow> 'k \<Rightarrow> 'v \<Rightarrow> ('v option \<times> 'm) option"
    and del :: "'m \<Rightarrow> 'k \<Rightarrow> ('v option \<times> 'm) option"
    and ents :: "'m \<Rightarrow> ('k, 'v) omap"
    and inv :: "'m \<Rightarrow> bool"
    and room :: "'m \<Rightarrow> bool"
  assumes empty_law: "inv empty" "ents empty = []"
    and wf_law: "inv m \<Longrightarrow> om_wf (ents m)"
    and get_law: "inv m \<Longrightarrow> get m k = Some (map_of (ents m) k)"
    and ins_law: "inv m \<Longrightarrow> \<exists>m'. ins m k v = Some (map_of (ents m) k, m')
      \<and> inv m' \<and> ents m' = om_insert k v (ents m)"
    and del_law: "inv m \<Longrightarrow> room m \<Longrightarrow> \<exists>m'. del m k = Some (map_of (ents m) k, m')
      \<and> inv m' \<and> ents m' = om_remove k (ents m)"
begin

text \<open>What a client sees of an insert and of a removal, at every key.\<close>

lemma get_after_ins:
  assumes "inv m" and "ins m k v = Some (old, m')"
  shows "get m' k' = Some (if k' = k then Some v else map_of (ents m) k')"
  using ins_law [OF assms(1), of k v] get_law [of m' k'] assms(2) by auto

lemma get_after_del:
  assumes "inv m" and "room m" and "del m k = Some (old, m')"
  shows "get m' k' = Some (if k' = k then None else map_of (ents m) k')"
  using del_law [OF assms(1,2), of k] get_law [of m' k'] assms(3) by auto

text \<open>Inserting a sequence of entries, the last value of a key winning.\<close>

lemma ins_all:
  assumes "inv m"
  shows "\<exists>m'. foldl (\<lambda>r (k, v). r \<bind> (\<lambda>m. map_option snd (ins m k v))) (Some m) es = Some m'
    \<and> inv m' \<and> ents m' = foldl (\<lambda>l (k, v). om_insert k v l) (ents m) es"
  using assms
proof (induction es arbitrary: m)
  case (Cons e es)
  obtain k v where e: "e = (k, v)" by (cases e)
  obtain m' where m': "ins m k v = Some (map_of (ents m) k, m')" "inv m'"
    "ents m' = om_insert k v (ents m)"
    using ins_law [OF Cons.prems, of k v] by blast
  then show ?case using Cons.IH [OF m'(2)] by (simp add: e)
qed auto

text \<open>Two maps with the same lookups hold the same entries in the same order.\<close>

lemma ents_eqI:
  assumes "inv m" and "inv m'" and "\<And>k. get m k = get m' k"
  shows "ents m = ents m'"
  using assms get_law wf_law by (intro om_ext) (auto simp: fun_eq_iff)

end

text \<open>The sorted association list itself keeps the contract.\<close>

lemma foldl_om_insert_lookup:
  "map_of (foldl (\<lambda>l (k, v). om_insert k v l) l es) k = (case map_of (rev es) k of None \<Rightarrow> map_of l k | Some v \<Rightarrow> Some v)"
  by (induction es arbitrary: l) (auto simp: map_add_def split: option.splits)

lemma foldl_om_insert_wf: "om_wf l \<Longrightarrow> om_wf (foldl (\<lambda>l (k, v). om_insert k v l) l es)"
  by (induction es arbitrary: l) auto

interpretation om: ordered_map "[]" "\<lambda>m k. Some (map_of m k)"
  "\<lambda>m k v. Some (map_of m k, om_insert k v m)" "\<lambda>m k. Some (map_of m k, om_remove k m)"
  "\<lambda>m. m" om_wf "\<lambda>_. True"
  by unfold_locales auto

end
