(* ===== verification/Cow_Map.thy ===== *)
theory Cow_Map
  imports Ordered_Map
begin

text \<open>
  \<open>CowMap\<close> (\<open>crates/core-storage/src/cow.rs\<close>): the ordered map behind the id sets, the postings of
  the property index and the retired ids. It is a B+tree whose nodes sit behind \<open>Arc\<close>s; an
  \<open>Arc::make_mut\<close> copies a shared node before writing it, so a node behaves as a value. Nodes
  split above 32 entries, are dropped when empty and are never merged.

  Every operation is translated with its index expressions, so that an index out of bounds is
  a panic (\<open>None\<close>); the theorems show there is none, and that the tree refines the strictly
  sorted association list of its entries.
\<close>

definition NODE_MAX :: nat where "NODE_MAX = 32"
definition MAX_DEPTH :: nat where "MAX_DEPTH = 32"

datatype ('k, 'v) node =
    Leaf "'k list" "'v list"
  | Internal "'k list" "('k, 'v) node list"

record ('k, 'v) cow_map =
  cm_root :: "('k, 'v) node option"
  cm_len :: nat

lemma size_nth_kid [termination_simp]:
  "i < length kids \<Longrightarrow> size (kids ! i) < Suc (n + size_list size kids)"
  using nth_mem [of i kids] size_list_estimation' [of "kids ! i" kids "size (kids ! i)" size]
  by simp

fun node_is_empty :: "('k, 'v) node \<Rightarrow> bool" where
  "node_is_empty (Leaf keys vals) \<longleftrightarrow> keys = []"
| "node_is_empty (Internal bounds kids) \<longleftrightarrow> kids = []"

fun first_key :: "('k, 'v) node \<Rightarrow> 'k option" where
  "first_key (Leaf keys vals) = nth_opt keys 0"
| "first_key (Internal bounds kids) = nth_opt bounds 0"

text \<open>The child that \<open>k\<close> belongs in.\<close>

definition route :: "'k::linorder list \<Rightarrow> 'k \<Rightarrow> nat" where
  "route bounds k = partition_point (\<lambda>b. b \<le> k) bounds - 1"

definition cm_new :: "('k, 'v) cow_map" where
  "cm_new = \<lparr>cm_root = None, cm_len = 0\<rparr>"

definition cm_is_empty :: "('k, 'v) cow_map \<Rightarrow> bool" where
  "cm_is_empty m \<longleftrightarrow> cm_len m = 0"


section \<open>Lookup\<close>

fun node_get :: "('k::linorder, 'v) node \<Rightarrow> 'k \<Rightarrow> 'v option option" where
  "node_get (Leaf keys vals) k =
     (case binary_search keys k of
        Found i \<Rightarrow> map_option Some (nth_opt vals i)
      | Missing _ \<Rightarrow> Some None)"
| "node_get (Internal bounds kids) k =
     (let i = route bounds k in if i < length kids then node_get (kids ! i) k else None)"

definition cm_get :: "('k::linorder, 'v) cow_map \<Rightarrow> 'k \<Rightarrow> 'v option option" where
  "cm_get m k = (case cm_root m of None \<Rightarrow> Some None | Some root \<Rightarrow> node_get root k)"

definition cm_contains_key :: "('k::linorder, 'v) cow_map \<Rightarrow> 'k \<Rightarrow> bool option" where
  "cm_contains_key m k = map_option (\<lambda>r. r \<noteq> None) (cm_get m k)"

text \<open>
  The path to a key: the child taken at each level, as stored in a fixed array of 32 bytes (a
  33rd level would be an index out of bounds), and the position in the leaf.
\<close>

fun find_path :: "nat \<Rightarrow> ('k::linorder, 'v) node \<Rightarrow> 'k \<Rightarrow> (nat list \<times> nat) option option" where
  "find_path depth (Leaf keys vals) k =
     Some (case binary_search keys k of Found i \<Rightarrow> Some ([], i) | Missing _ \<Rightarrow> None)"
| "find_path depth (Internal bounds kids) k =
     (let i = route bounds k
      in if depth < MAX_DEPTH \<and> i < length kids
         then map_option (map_option (\<lambda>(path, at). (i mod 256 # path, at)))
                (find_path (Suc depth) (kids ! i) k)
         else None)"

definition cm_find :: "('k::linorder, 'v) cow_map \<Rightarrow> 'k \<Rightarrow> (nat list \<times> nat) option option" where
  "cm_find m k = (case cm_root m of None \<Rightarrow> Some None | Some root \<Rightarrow> find_path 0 root k)"


section \<open>Insertion\<close>

text \<open>
  The value replaced, the node that split off on the right with its lower bound, and the node
  after the insertion.
\<close>

fun insert_into :: "('k::linorder, 'v) node \<Rightarrow> 'k \<Rightarrow> 'v
    \<Rightarrow> ('v option \<times> ('k \<times> ('k, 'v) node) option \<times> ('k, 'v) node) option" where
  "insert_into (Leaf keys vals) k v =
     (case binary_search keys k of
        Found i \<Rightarrow> do { old \<leftarrow> nth_opt vals i; Some (Some old, None, Leaf keys (vals[i := v])) }
      | Missing i \<Rightarrow> do {
          ks \<leftarrow> vec_insert i k keys;
          vs \<leftarrow> vec_insert i v vals;
          if length ks \<le> NODE_MAX then Some (None, None, Leaf ks vs)
          else do {
            (lk, rk) \<leftarrow> split_off (length ks div 2) ks;
            (lv, rv) \<leftarrow> split_off (length ks div 2) vs;
            bound \<leftarrow> nth_opt rk 0;
            Some (None, Some (bound, Leaf rk rv), Leaf lk lv) } })"
| "insert_into (Internal bounds kids) k v =
     (let i = route bounds k
      in if i < length kids
         then do {
           (old, split, kid) \<leftarrow> insert_into (kids ! i) k v;
           (bs, ks) \<leftarrow> (case split of
              None \<Rightarrow> Some (bounds, kids[i := kid])
            | Some (bound, right) \<Rightarrow> do {
                bs \<leftarrow> vec_insert (i + 1) bound bounds;
                ks \<leftarrow> vec_insert (i + 1) right (kids[i := kid]);
                Some (bs, ks) });
           if length ks \<le> NODE_MAX then Some (old, None, Internal bs ks)
           else do {
             (lb, rb) \<leftarrow> split_off (length ks div 2) bs;
             (lk, rk) \<leftarrow> split_off (length ks div 2) ks;
             bound \<leftarrow> nth_opt rb 0;
             Some (old, Some (bound, Internal rb rk), Internal lb lk) } }
         else None)"

definition cm_insert :: "('k::linorder, 'v) cow_map \<Rightarrow> 'k \<Rightarrow> 'v
    \<Rightarrow> ('v option \<times> ('k, 'v) cow_map) option" where
  "cm_insert m k v =
     (case cm_root m of
        None \<Rightarrow> Some (None, \<lparr>cm_root = Some (Leaf [k] [v]), cm_len = 1\<rparr>)
      | Some root \<Rightarrow> do {
          (old, split, left) \<leftarrow> insert_into root k v;
          new_root \<leftarrow> (case split of
             None \<Rightarrow> Some left
           | Some (bound, right) \<Rightarrow> do {
               first \<leftarrow> first_key left;
               Some (Internal [first, bound] [left, right]) });
          Some (old, \<lparr>cm_root = Some new_root,
                      cm_len = (if old = None then cm_len m + 1 else cm_len m)\<rparr>) })"


section \<open>Modification in place and removal\<close>

text \<open>
  \<open>get_mut\<close> hands out the place of a value; the model applies the change the caller makes to it.
  A missing key leaves the map alone.
\<close>

fun node_modify :: "('k, 'v) node \<Rightarrow> nat list \<Rightarrow> nat \<Rightarrow> ('v \<Rightarrow> 'v) \<Rightarrow> ('k, 'v) node option" where
  "node_modify (Leaf keys vals) path at f =
     (if path = [] \<and> at < length vals then Some (Leaf keys (vals[at := f (vals ! at)])) else None)"
| "node_modify (Internal bounds kids) path at f =
     (case path of
        [] \<Rightarrow> None
      | i # rest \<Rightarrow>
          if i < length kids
          then do { kid \<leftarrow> node_modify (kids ! i) rest at f; Some (Internal bounds (kids[i := kid])) }
          else None)"

definition cm_modify :: "('k::linorder, 'v) cow_map \<Rightarrow> 'k \<Rightarrow> ('v \<Rightarrow> 'v)
    \<Rightarrow> ('k, 'v) cow_map option option" where
  "cm_modify m k f = do {
     found \<leftarrow> cm_find m k;
     case (found, cm_root m) of
       (Some (path, at), Some root) \<Rightarrow> do {
         root' \<leftarrow> node_modify root path at f;
         Some (Some (m\<lparr>cm_root := Some root'\<rparr>)) }
     | _ \<Rightarrow> Some None }"

definition cm_get_or_insert_with :: "('k::linorder, 'v) cow_map \<Rightarrow> 'k \<Rightarrow> 'v \<Rightarrow> ('v \<Rightarrow> 'v)
    \<Rightarrow> ('k, 'v) cow_map option" where
  "cm_get_or_insert_with m k d f = do {
     there \<leftarrow> cm_contains_key m k;
     m' \<leftarrow> (if there then Some m else map_option snd (cm_insert m k d));
     r \<leftarrow> cm_modify m' k f;
     r }"

fun remove_at :: "('k, 'v) node \<Rightarrow> nat list \<Rightarrow> nat \<Rightarrow> ('v \<times> ('k, 'v) node) option" where
  "remove_at (Leaf keys vals) path at = do {
     (_, ks) \<leftarrow> vec_remove at keys;
     (old, vs) \<leftarrow> vec_remove at vals;
     Some (old, Leaf ks vs) }"
| "remove_at (Internal bounds kids) path at =
     (case path of
        [] \<Rightarrow> None
      | i # rest \<Rightarrow>
          if i < length kids
          then do {
            (old, kid) \<leftarrow> remove_at (kids ! i) rest at;
            if node_is_empty kid
            then do {
              (_, ks) \<leftarrow> vec_remove i (kids[i := kid]);
              (_, bs) \<leftarrow> vec_remove i bounds;
              Some (old, Internal bs ks) }
            else Some (old, Internal bounds (kids[i := kid])) }
          else None)"

text \<open>An emptied root goes, and a root with one child hands over to it.\<close>

fun collapse :: "('k, 'v) node \<Rightarrow> ('k, 'v) node option" where
  "collapse (Leaf keys vals) = (if keys = [] then None else Some (Leaf keys vals))"
| "collapse (Internal bounds []) = None"
| "collapse (Internal bounds [kid]) = collapse kid"
| "collapse (Internal bounds (kid # kid' # kids)) = Some (Internal bounds (kid # kid' # kids))"

definition cm_remove :: "('k::linorder, 'v) cow_map \<Rightarrow> 'k
    \<Rightarrow> ('v option \<times> ('k, 'v) cow_map) option" where
  "cm_remove m k = do {
     found \<leftarrow> cm_find m k;
     case (found, cm_root m) of
       (Some (path, at), Some root) \<Rightarrow> do {
         (old, root') \<leftarrow> remove_at root path at;
         Some (Some old, \<lparr>cm_root = collapse root', cm_len = cm_len m - 1\<rparr>) }
     | _ \<Rightarrow> Some (None, m) }"

definition cm_from_iter :: "('k::linorder \<times> 'v) list \<Rightarrow> ('k, 'v) cow_map option" where
  "cm_from_iter es = foldl (\<lambda>m (k, v). m \<bind> (\<lambda>m. map_option snd (cm_insert m k v))) (Some cm_new) es"


section \<open>The invariant and the entries\<close>

definition within :: "'k::linorder option \<Rightarrow> 'k option \<Rightarrow> 'k \<Rightarrow> bool" where
  "within lo hi k \<longleftrightarrow>
     (case lo of None \<Rightarrow> True | Some l \<Rightarrow> l \<le> k) \<and> (case hi of None \<Rightarrow> True | Some h \<Rightarrow> k < h)"

definition kid_lo :: "'k option \<Rightarrow> 'k list \<Rightarrow> nat \<Rightarrow> 'k option" where
  "kid_lo lo bounds i = (if i = 0 then lo else Some (bounds ! i))"

definition kid_hi :: "'k option \<Rightarrow> 'k list \<Rightarrow> nat \<Rightarrow> 'k option" where
  "kid_hi hi bounds i = (if Suc i < length bounds then Some (bounds ! Suc i) else hi)"

text \<open>
  What the source's own \<open>check\<close> asserts of a node between two bounds: no node is empty or wider
  than 32, keys ascend strictly, and every key lies within its child's bounds. The first bound
  of an internal node is not constrained.
\<close>

fun node_ok :: "'k::linorder option \<Rightarrow> 'k option \<Rightarrow> ('k, 'v) node \<Rightarrow> bool" where
  "node_ok lo hi (Leaf keys vals) \<longleftrightarrow>
     keys \<noteq> [] \<and> length keys \<le> NODE_MAX \<and> length keys = length vals \<and> strict keys
     \<and> (\<forall>k\<in>set keys. within lo hi k)"
| "node_ok lo hi (Internal bounds kids) \<longleftrightarrow>
     kids \<noteq> [] \<and> length kids \<le> NODE_MAX \<and> length kids = length bounds
     \<and> (\<forall>i<length kids. node_ok (kid_lo lo bounds i) (kid_hi hi bounds i) (kids ! i))"

fun entries :: "('k, 'v) node \<Rightarrow> ('k, 'v) omap" where
  "entries (Leaf keys vals) = zip keys vals"
| "entries (Internal bounds kids) = concat (map entries kids)"

definition cm_entries :: "('k, 'v) cow_map \<Rightarrow> ('k, 'v) omap" where
  "cm_entries m = (case cm_root m of None \<Rightarrow> [] | Some root \<Rightarrow> entries root)"

definition cm_inv :: "('k::linorder, 'v) cow_map \<Rightarrow> bool" where
  "cm_inv m \<longleftrightarrow>
     (case cm_root m of None \<Rightarrow> True | Some root \<Rightarrow> node_ok None None root)
     \<and> cm_len m = length (cm_entries m)"

fun height :: "('k, 'v) node \<Rightarrow> nat" where
  "height (Leaf keys vals) = 0"
| "height (Internal bounds kids) = Suc (foldr max (map height kids) 0)"

definition cm_height :: "('k, 'v) cow_map \<Rightarrow> nat" where
  "cm_height m = (case cm_root m of None \<Rightarrow> 0 | Some root \<Rightarrow> height root)"


lemma NODE_MAX_eq [simp]: "NODE_MAX = 32" by (simp add: NODE_MAX_def)
lemma MAX_DEPTH_eq [simp]: "MAX_DEPTH = 32" by (simp add: MAX_DEPTH_def)

subsection \<open>Keys and bounds\<close>

text \<open>
  What the invariant gives about the children of an internal node, without recursion: each
  holds at least one key, and all its keys are within its own bounds.
\<close>

definition kids_sep :: "'k::linorder option \<Rightarrow> 'k option \<Rightarrow> 'k list \<Rightarrow> ('k, 'v) node list \<Rightarrow> bool" where
  "kids_sep lo hi bounds kids \<longleftrightarrow>
     kids \<noteq> [] \<and> length kids = length bounds
     \<and> (\<forall>j<length kids. entries (kids ! j) \<noteq> []
          \<and> (\<forall>e\<in>set (entries (kids ! j)). within (kid_lo lo bounds j) (kid_hi hi bounds j) (fst e)))"

lemma kids_sep_len: "kids_sep lo hi bounds kids \<Longrightarrow> length kids = length bounds"
  by (simp add: kids_sep_def)

lemma kids_sep_kid:
  "kids_sep lo hi bounds kids \<Longrightarrow> j < length bounds \<Longrightarrow> e \<in> set (entries (kids ! j)) \<Longrightarrow>
   within (kid_lo lo bounds j) (kid_hi hi bounds j) (fst e)"
  by (simp add: kids_sep_def)

lemma kids_sep_ge:
  "kids_sep lo hi bounds kids \<Longrightarrow> j < length bounds \<Longrightarrow> 1 \<le> j \<Longrightarrow> e \<in> set (entries (kids ! j)) \<Longrightarrow>
   bounds ! j \<le> fst e"
  by (drule (2) kids_sep_kid) (simp add: within_def kid_lo_def)

lemma kids_sep_lt:
  "kids_sep lo hi bounds kids \<Longrightarrow> Suc j < length bounds \<Longrightarrow> e \<in> set (entries (kids ! j)) \<Longrightarrow>
   fst e < bounds ! Suc j"
  using kids_sep_kid [of lo hi bounds kids j e] by (simp add: within_def kid_hi_def)

lemma kids_sep_lo:
  "kids_sep (Some l) hi bounds kids \<Longrightarrow> e \<in> set (entries (kids ! 0)) \<Longrightarrow> l \<le> fst e"
  using kids_sep_kid [of "Some l" hi bounds kids 0 e] by (auto simp: kids_sep_def within_def kid_lo_def)

lemma kids_sep_hi:
  "kids_sep lo (Some h) bounds kids \<Longrightarrow> Suc j = length bounds \<Longrightarrow> e \<in> set (entries (kids ! j)) \<Longrightarrow>
   fst e < h"
  using kids_sep_kid [of lo "Some h" bounds kids j e] by (auto simp: within_def kid_hi_def)

lemma kids_sep_some_key:
  assumes "kids_sep lo hi bounds kids" and "j < length bounds"
  obtains e where "e \<in> set (entries (kids ! j))"
  using assms by (metis kids_sep_def list.set_sel(1))

lemma kids_sep_bounds_step:
  assumes "kids_sep lo hi bounds kids" and "1 \<le> i" and "Suc i < length bounds"
  shows "bounds ! i < bounds ! Suc i"
proof -
  obtain e where e: "e \<in> set (entries (kids ! i))"
    using kids_sep_some_key [OF assms(1)] assms(3) Suc_lessD by blast
  have "bounds ! i \<le> fst e" using kids_sep_ge [OF assms(1) _ assms(2) e] assms(3) by simp
  also have "\<dots> < bounds ! Suc i" by (rule kids_sep_lt [OF assms(1,3) e])
  finally show ?thesis .
qed

lemma kids_sep_bounds_less:
  assumes "kids_sep lo hi bounds kids" and "1 \<le> i" and "i < j" and "j < length bounds"
  shows "bounds ! i < bounds ! j"
  using assms(3,4)
proof (induction j)
  case (Suc j)
  then show ?case
    using kids_sep_bounds_step [OF assms(1), of j] assms(2) by (cases "i = j") (auto intro: less_trans)
qed simp

lemma kids_sep_bounds_le:
  "kids_sep lo hi bounds kids \<Longrightarrow> 1 \<le> i \<Longrightarrow> i \<le> j \<Longrightarrow> j < length bounds \<Longrightarrow> bounds ! i \<le> bounds ! j"
  using kids_sep_bounds_less [of lo hi bounds kids i j] by (cases "i = j") auto

lemma kids_sep_lo_less:
  assumes "kids_sep (Some l) hi bounds kids" and "1 \<le> i" and "i < length bounds"
  shows "l < bounds ! i"
proof -
  obtain e where e: "e \<in> set (entries (kids ! 0))"
    by (rule kids_sep_some_key [OF assms(1), of 0]) (use assms(3) in auto)
  have "l \<le> fst e" by (rule kids_sep_lo [OF assms(1) e])
  also have "\<dots> < bounds ! 1" using kids_sep_lt [OF assms(1) _ e] assms(2,3) by simp
  also have "\<dots> \<le> bounds ! i" using kids_sep_bounds_le [OF assms(1), of 1 i] assms(2,3) by simp
  finally show ?thesis by simp
qed

lemma kids_sep_less_hi:
  assumes "kids_sep lo (Some h) bounds kids" and "1 \<le> i" and "i < length bounds"
  shows "bounds ! i < h"
proof -
  define n where "n = length bounds - 1"
  have n: "Suc n = length bounds" using assms(2,3) by (simp add: n_def)
  obtain e where e: "e \<in> set (entries (kids ! n))"
    by (rule kids_sep_some_key [OF assms(1), of n]) (use n in auto)
  have "bounds ! i \<le> bounds ! n" using kids_sep_bounds_le [OF assms(1,2), of n] assms(3) n by simp
  also have "\<dots> \<le> fst e" using kids_sep_ge [OF assms(1) _ _ e] assms(2,3) n by simp
  also have "\<dots> < h" by (rule kids_sep_hi [OF assms(1) n e])
  finally show ?thesis .
qed

lemma kids_sep_within:
  assumes sep: "kids_sep lo hi bounds kids" and j: "j < length kids" and e: "e \<in> set (entries (kids ! j))"
  shows "within lo hi (fst e)"
proof -
  have jb: "j < length bounds" using sep j by (simp add: kids_sep_len)
  have "l \<le> fst e" if "lo = Some l" for l
  proof (cases "j = 0")
    case True
    with sep e that show ?thesis by (auto intro: kids_sep_lo)
  next
    case False
    then have "l < bounds ! j" using kids_sep_lo_less [OF sep [unfolded that] _ jb] by simp
    also have "\<dots> \<le> fst e" using kids_sep_ge [OF sep jb _ e] False by simp
    finally show ?thesis by simp
  qed
  moreover have "fst e < h" if "hi = Some h" for h
  proof (cases "Suc j = length bounds")
    case True
    with sep e that show ?thesis by (auto intro: kids_sep_hi)
  next
    case False
    then have j': "Suc j < length bounds" using jb by simp
    have "fst e < bounds ! Suc j" by (rule kids_sep_lt [OF sep j' e])
    also have "\<dots> < h" using kids_sep_less_hi [OF sep [unfolded that] _ j'] by simp
    finally show ?thesis .
  qed
  ultimately show ?thesis by (auto simp: within_def split: option.split)
qed

text \<open>Keys of different children are ordered as the children are.\<close>

lemma kids_sep_ordered:
  assumes sep: "kids_sep lo hi bounds kids" and ij: "i < j" "j < length kids"
    and d: "d \<in> set (entries (kids ! i))" and e: "e \<in> set (entries (kids ! j))"
  shows "fst d < fst e"
proof -
  have jb: "j < length bounds" using sep ij by (simp add: kids_sep_len)
  have "fst d < bounds ! Suc i" using kids_sep_lt [OF sep _ d] ij jb by simp
  also have "\<dots> \<le> bounds ! j" using kids_sep_bounds_le [OF sep, of "Suc i" j] ij jb by simp
  also have "\<dots> \<le> fst e" using kids_sep_ge [OF sep jb _ e] ij by simp
  finally show ?thesis .
qed

lemma om_wf_concat:
  assumes "\<And>i. i < length ms \<Longrightarrow> om_wf (ms ! i)"
    and "\<And>i j d e. i < j \<Longrightarrow> j < length ms \<Longrightarrow> d \<in> set (ms ! i) \<Longrightarrow> e \<in> set (ms ! j) \<Longrightarrow> fst d < fst e"
  shows "om_wf (concat ms)"
  using assms
proof (induction ms)
  case (Cons m ms)
  have "om_wf m" using Cons.prems(1) [of 0] by simp
  moreover have "om_wf (concat ms)"
    using Cons.prems by (intro Cons.IH) (metis Suc_less_eq length_Cons nth_Cons_Suc)+
  moreover have "fst d < fst e" if "d \<in> set m" "e \<in> set (concat ms)" for d e
  proof -
    from that(2) obtain j where "j < length ms" "e \<in> set (ms ! j)" unfolding set_concat_nth by blast
    then show ?thesis using Cons.prems(2) [of 0 "Suc j" d e] that(1) by simp
  qed
  ultimately show ?case by (simp add: strict_append del: set_concat)
qed simp

lemma node_ok_facts:
  "node_ok lo hi n \<Longrightarrow>
     entries n \<noteq> [] \<and> om_wf (entries n) \<and> (\<forall>e\<in>set (entries n). within lo hi (fst e))"
proof (induction lo hi n rule: node_ok.induct)
  case (1 lo hi keys vals)
  then show ?case by (cases keys; cases vals) (auto dest: set_zip_leftD)
next
  case (2 lo hi bounds kids)
  have kid: "entries (kids ! j) \<noteq> [] \<and> om_wf (entries (kids ! j))
      \<and> (\<forall>e\<in>set (entries (kids ! j)). within (kid_lo lo bounds j) (kid_hi hi bounds j) (fst e))"
    if "j < length kids" for j
    using "2.IH" [OF that] "2.prems" that by simp
  have sep: "kids_sep lo hi bounds kids" using kid "2.prems" by (simp add: kids_sep_def)
  have "om_wf (concat (map entries kids))"
    by (rule om_wf_concat) (use kid kids_sep_ordered [OF sep] in \<open>simp_all\<close>)
  moreover have "concat (map entries kids) \<noteq> []"
    using kid [of 0] "2.prems" by (cases kids) auto
  moreover have "within lo hi (fst e)" if "e \<in> set (concat (map entries kids))" for e
    using that kids_sep_within [OF sep, of _ e] unfolding set_concat_nth by auto
  ultimately show ?case by simp
qed

lemmas node_ok_nonempty = node_ok_facts [THEN conjunct1]
  and node_ok_wf = node_ok_facts [THEN conjunct2, THEN conjunct1]
  and node_ok_within = node_ok_facts [THEN conjunct2, THEN conjunct2, rule_format]

lemma node_ok_kid:
  "node_ok lo hi (Internal bounds kids) \<Longrightarrow> j < length kids \<Longrightarrow>
   node_ok (kid_lo lo bounds j) (kid_hi hi bounds j) (kids ! j)"
  by simp

lemma node_ok_sep: "node_ok lo hi (Internal bounds kids) \<Longrightarrow> kids_sep lo hi bounds kids"
  unfolding kids_sep_def using node_ok_facts [OF node_ok_kid, of lo hi bounds kids] by simp


subsection \<open>Routing\<close>

text \<open>
  \<open>route\<close> finds the one child whose bounds admit the key although the first bound may be out of
  order: the standard library's search inspects position 0 only last, and both outcomes there
  route to child 0.
\<close>

lemma route_correct:
  assumes "kids_sep lo hi bounds kids"
  shows "route bounds k < length kids"
    and "route bounds k = 0 \<or> bounds ! route bounds k \<le> k"
    and "\<And>j. route bounds k < j \<Longrightarrow> j < length bounds \<Longrightarrow> k < bounds ! j"
proof -
  let ?p = "\<lambda>b. b \<le> k" and ?b = "probe (\<lambda>b. b \<le> k) bounds 0 (length bounds)"
  have ne: "bounds \<noteq> []" using assms by (auto simp: kids_sep_def)
  have "prefix_closed ?p bounds"
    unfolding prefix_closed_def using kids_sep_bounds_le [OF assms] order_trans by blast
  note b = probe_slice [OF this ne]
  have r: "route bounds k = ?b"
    using b(2) ne by (auto simp: route_def partition_point_def Let_def)
  show "route bounds k < length kids" using b(1) kids_sep_len [OF assms] by (simp add: r)
  show "route bounds k = 0 \<or> bounds ! route bounds k \<le> k" using b(2) by (simp add: r)
  show "k < bounds ! j" if "route bounds k < j" "j < length bounds" for j
    using b(3) [of j] that by (simp add: r)
qed

lemma route_within_kid:
  assumes "kids_sep lo hi bounds kids" and "within lo hi k"
  shows "within (kid_lo lo bounds (route bounds k)) (kid_hi hi bounds (route bounds k)) k"
  using route_correct(2) [OF assms(1), of k] route_correct(3) [OF assms(1), of k "Suc (route bounds k)"]
    assms(2) by (auto simp: within_def kid_lo_def kid_hi_def)

text \<open>Around the routed child, every key is on the right side of \<open>k\<close>.\<close>

lemma entries_around:
  "i < length kids \<Longrightarrow> concat (map entries kids)
    = concat (map entries (take i kids)) @ entries (kids ! i) @ concat (map entries (drop (Suc i) kids))"
  by (subst take_nth_drop [of i kids, symmetric]) simp_all

lemma route_before:
  assumes sep: "kids_sep lo hi bounds kids" and e: "e \<in> set (concat (map entries (take (route bounds k) kids)))"
  shows "fst e < k"
proof -
  let ?i = "route bounds k"
  from e obtain j where j: "j < ?i" "e \<in> set (entries (kids ! j))"
    unfolding set_concat_nth by auto
  have i: "?i < length bounds" using route_correct(1) [OF sep] kids_sep_len [OF sep] by simp
  have "fst e < bounds ! Suc j" using kids_sep_lt [OF sep _ j(2)] j(1) i by simp
  also have "\<dots> \<le> bounds ! ?i" using kids_sep_bounds_le [OF sep, of "Suc j" ?i] j(1) i by simp
  also have "\<dots> \<le> k" using route_correct(2) [OF sep, of k] j(1) by auto
  finally show ?thesis .
qed

lemma route_after:
  assumes sep: "kids_sep lo hi bounds kids"
    and e: "e \<in> set (concat (map entries (drop (Suc (route bounds k)) kids)))"
  shows "k < fst e"
proof -
  let ?i = "route bounds k"
  from e obtain j where j: "Suc ?i + j < length kids" "e \<in> set (entries (kids ! (Suc ?i + j)))"
    unfolding set_concat_nth by (auto simp: less_diff_conv add.commute)
  have i: "Suc ?i + j < length bounds" using j(1) kids_sep_len [OF sep] by simp
  have "k < bounds ! (Suc ?i + j)" using route_correct(3) [OF sep _ i] by simp
  also have "\<dots> \<le> fst e" using kids_sep_ge [OF sep i _ j(2)] by simp
  finally show ?thesis .
qed

lemma map_of_around:
  assumes sep: "kids_sep lo hi bounds kids"
  shows "map_of (concat (map entries kids)) k = map_of (entries (kids ! route bounds k)) k"
proof -
  let ?i = "route bounds k"
  have "map_of (concat (map entries (take ?i kids))) k = None"
    using route_before [OF sep] by (fastforce simp: om_get_None_iff)
  moreover have "map_of (concat (map entries (drop (Suc ?i) kids))) k = None"
    using route_after [OF sep] by (fastforce simp: om_get_None_iff)
  ultimately show ?thesis
    by (simp add: entries_around [OF route_correct(1) [OF sep, of k]] map_add_def split: option.split)
qed


section \<open>Lookups\<close>

lemma leaf_get:
  assumes "strict keys" and "length keys = length vals"
  shows "(case binary_search keys k of Found i \<Rightarrow> map_option Some (nth_opt vals i) | Missing _ \<Rightarrow> Some None)
    = Some (map_of (zip keys vals) k)"
proof (cases "binary_search keys k")
  case (Found i)
  with assms have "i < length keys" "keys ! i = k"
    by (auto dest: binary_search_Found [OF _ strict_sorted])
  with assms have "(k, vals ! i) \<in> set (zip keys vals)" by (auto simp: in_set_zip)
  with assms have "map_of (zip keys vals) k = Some (vals ! i)"
    by (intro map_of_is_SomeI) (simp_all add: strict_distinct)
  with Found \<open>i < length keys\<close> assms(2) show ?thesis by simp
next
  case (Missing i)
  then have "k \<notin> set keys" using binary_search_Found_iff [OF assms(1), of k] by auto
  then have "map_of (zip keys vals) k = None" by (auto simp: map_of_eq_None_iff dest: set_zip_leftD)
  with Missing show ?thesis by simp
qed

lemma node_get_entries: "node_ok lo hi n \<Longrightarrow> node_get n k = Some (map_of (entries n) k)"
proof (induction lo hi n rule: node_ok.induct)
  case (1 lo hi keys vals)
  then show ?case using leaf_get [of keys vals k] by simp
next
  case (2 lo hi bounds kids)
  note sep = node_ok_sep [OF "2.prems"]
  let ?i = "route bounds k"
  have i: "?i < length kids" by (rule route_correct(1) [OF sep])
  have "node_get (kids ! ?i) k = Some (map_of (entries (kids ! ?i)) k)"
    using "2.IH" [OF i] "2.prems" i by simp
  then show ?case using i map_of_around [OF sep, of k] by (simp add: Let_def)
qed

lemma cm_get_entries: "cm_inv m \<Longrightarrow> cm_get m k = Some (map_of (cm_entries m) k)"
  by (auto simp: cm_get_def cm_inv_def cm_entries_def node_get_entries split: option.splits)



section \<open>Insertion refines insertion into the sorted list\<close>

definition ins_post :: "'k::linorder option \<Rightarrow> 'k option \<Rightarrow> 'k \<Rightarrow> 'v \<Rightarrow> ('k, 'v) omap
    \<Rightarrow> 'v option \<times> ('k \<times> ('k, 'v) node) option \<times> ('k, 'v) node \<Rightarrow> bool" where
  "ins_post lo hi k v es r \<longleftrightarrow>
     (case r of (old, split, n) \<Rightarrow> old = map_of es k \<and>
       (case split of
          None \<Rightarrow> node_ok lo hi n \<and> entries n = om_insert k v es
        | Some (b, right) \<Rightarrow> node_ok lo (Some b) n \<and> node_ok (Some b) hi right
            \<and> entries n @ entries right = om_insert k v es))"

lemma leaf_insert_ok:
  assumes "strict keys" and "length keys = length vals" and "\<forall>x\<in>set keys. within lo hi x"
    and "within lo hi k" and "binary_search keys k = Missing i"
    and ks_def: "ks = take i keys @ k # drop i keys" and vs_def: "vs = take i vals @ v # drop i vals"
  shows "i \<le> length keys" and "zip ks vs = om_insert k v (zip keys vals)" and "strict ks"
    and "length ks = length vs" and "length ks = Suc (length keys)" and "\<forall>x\<in>set ks. within lo hi x"
    and "map_of (zip keys vals) k = None"
proof -
  note pos = binary_search_Missing [OF assms(5,1)]
  show i: "i \<le> length keys" by (rule pos(1))
  show "zip ks vs = om_insert k v (zip keys vals)"
    unfolding ks_def vs_def zip_vec_insert [OF assms(2) i]
    by (rule om_insert_at) (use assms(2) pos in auto)
  then have "map fst (zip ks vs) = map fst (om_insert k v (zip keys vals))" by simp
  moreover have len: "length ks = length vs" using i assms(2) by (simp add: ks_def vs_def)
  moreover have "om_wf (om_insert k v (zip keys vals))"
    by (rule om_wf_insert) (use assms(1,2) in simp)
  ultimately show "strict ks" by simp
  show "length ks = length vs" by (rule len)
  show "length ks = Suc (length keys)" using i by (simp add: ks_def)
  show "\<forall>x\<in>set ks. within lo hi x"
    using assms(3,4) by (auto simp: ks_def dest: in_set_takeD in_set_dropD)
  show "map_of (zip keys vals) k = None"
    using binary_search_Found_iff [OF assms(1), of k] assms(5)
    by (auto simp: map_of_eq_None_iff dest: set_zip_leftD)
qed

lemma strict_drop_ge: "strict ks \<Longrightarrow> n < length ks \<Longrightarrow> x \<in> set (drop n ks) \<Longrightarrow> ks ! n \<le> x"
  by (auto simp: in_set_conv_nth intro!: sorted_nth_mono [OF strict_sorted])

lemma strict_take_less: "strict ks \<Longrightarrow> n < length ks \<Longrightarrow> x \<in> set (take n ks) \<Longrightarrow> x < ks ! n"
  by (auto simp: in_set_conv_nth strict_nth_less)

lemma leaf_split_ok:
  assumes "strict ks" and "length ks = length vs" and "\<forall>x\<in>set ks. within lo hi x"
    and "0 < h" and "h < length ks" and "h \<le> 32" and "length ks - h \<le> 32"
  shows "node_ok lo (Some (ks ! h)) (Leaf (take h ks) (take h vs))"
    and "node_ok (Some (ks ! h)) hi (Leaf (drop h ks) (drop h vs))"
proof -
  have "within lo (Some (ks ! h)) x" if "x \<in> set (take h ks)" for x
    using that assms(3) strict_take_less [OF assms(1,5) that] in_set_takeD [OF that]
    by (auto simp: within_def)
  with assms show "node_ok lo (Some (ks ! h)) (Leaf (take h ks) (take h vs))"
    by (auto intro: sorted_wrt_take)
  have "within (Some (ks ! h)) hi x" if "x \<in> set (drop h ks)" for x
    using that assms(3) strict_drop_ge [OF assms(1,5) that] in_set_dropD [OF that]
    by (auto simp: within_def)
  with assms show "node_ok (Some (ks ! h)) hi (Leaf (drop h ks) (drop h vs))"
    by (auto intro: sorted_wrt_drop)
qed

lemma insert_into_leaf:
  assumes ok: "node_ok lo hi (Leaf keys vals)" and w: "within lo hi k"
  shows "\<exists>r. insert_into (Leaf keys vals) k v = Some r \<and> ins_post lo hi k v (zip keys vals) r"
proof -
  from ok have keys: "strict keys" "length keys = length vals" "\<forall>x\<in>set keys. within lo hi x"
    "length keys \<le> 32" "keys \<noteq> []" by simp_all
  show ?thesis
  proof (cases "binary_search keys k")
    case (Found i)
    then have i: "i < length keys" "keys ! i = k" using binary_search_Found [OF _ strict_sorted [OF keys(1)]] by auto
    have "(zip keys vals)[i := (keys ! i, v)] = zip (keys[i := keys ! i]) (vals[i := v])"
      by (simp only: update_zip fst_conv snd_conv)
    moreover have "(zip keys vals)[i := (keys ! i, v)] = om_insert (keys ! i) v (zip keys vals)"
      by (rule om_update_at) (use i(1) keys(1,2) in simp_all)
    moreover have "keys[i := k] = keys" using i by (simp add: list_update_same_conv)
    ultimately have "zip keys (vals[i := v]) = om_insert k v (zip keys vals)" by (simp add: i(2))
    moreover have "map_of (zip keys vals) k = Some (vals ! i)"
      using leaf_get [OF keys(1,2), of k] Found i keys(2) by simp
    ultimately show ?thesis using Found i keys by (simp add: ins_post_def)
  next
    case (Missing i)
    define ks where ks: "ks = take i keys @ k # drop i keys"
    define vs where vs: "vs = take i vals @ v # drop i vals"
    define h where "h = length ks div 2"
    note ins = leaf_insert_ok [OF keys(1-3) w Missing ks vs]
    have vec: "vec_insert i k keys = Some ks" "vec_insert i v vals = Some vs"
      using ins(1) keys(2) by (simp_all add: vec_insert_def ks vs)
    show ?thesis
    proof (cases "length ks \<le> 32")
      case True
      then have "insert_into (Leaf keys vals) k v = Some (None, None, Leaf ks vs)"
        by (simp add: Missing vec)
      moreover have "node_ok lo hi (Leaf ks vs)" using ins True by (cases ks) auto
      ultimately show ?thesis using ins(2,7) by (simp add: ins_post_def del: node_ok.simps)
    next
      case False
      let ?b = "ks ! h"
      have h: "h < length ks" "0 < h" "h \<le> 32" "length ks - h \<le> 32"
        using False ins(5) keys(4) unfolding h_def by linarith+
      note sp = leaf_split_ok [OF ins(3,4,6) h(2,1,3,4)]
      have "insert_into (Leaf keys vals) k v
          = Some (None, Some (?b, Leaf (drop h ks) (drop h vs)), Leaf (take h ks) (take h vs))"
        using False h ins(4) by (simp add: Missing vec split_off_def h_def)
      moreover have "entries (Leaf (take h ks) (take h vs)) @ entries (Leaf (drop h ks) (drop h vs))
          = om_insert k v (zip keys vals)"
        using ins(2) by (simp flip: take_zip drop_zip)
      ultimately show ?thesis using ins(7) sp by (simp add: ins_post_def del: node_ok.simps entries.simps)
    qed
  qed
qed


text \<open>
  Internal nodes. Inserting a child and its lower bound to the right of child \<open>i\<close>, and splitting
  a node in two, keep every child within its bounds.
\<close>

lemma nth_insert_at:
  "i \<le> length xs \<Longrightarrow>
   (take i xs @ x # drop i xs) ! j = (if j < i then xs ! j else if j = i then x else xs ! (j - 1))"
  by (auto simp: nth_append min_def not_less nth_Cons')

lemma kids_ok_insert:
  assumes kids: "\<And>j. j < length kids \<Longrightarrow> node_ok (kid_lo lo bounds j) (kid_hi hi bounds j) (kids ! j)"
    and len: "length kids = length bounds" and i: "i < length kids"
    and left: "node_ok (kid_lo lo bounds i) (Some b) kid"
    and right: "node_ok (Some b) (kid_hi hi bounds i) right"
    and bs: "bs = take (Suc i) bounds @ b # drop (Suc i) bounds"
    and ks: "ks = take (Suc i) (kids[i := kid]) @ right # drop (Suc i) (kids[i := kid])"
  shows "\<And>j. j < length ks \<Longrightarrow> node_ok (kid_lo lo bs j) (kid_hi hi bs j) (ks ! j)"
    and "length ks = length bs" and "length ks = Suc (length kids)"
proof -
  have ib: "Suc i \<le> length bounds" "Suc i \<le> length (kids[i := kid])" using i len by auto
  show lens: "length ks = length bs" "length ks = Suc (length kids)"
    using ib len by (simp_all add: bs ks)
  fix j assume j: "j < length ks"
  note nb = nth_insert_at [OF ib(1), of b] and nk = nth_insert_at [OF ib(2), of right j]
  consider "j < i" | "j = i" | "j = Suc i" | "Suc i < j" by linarith
  then show "node_ok (kid_lo lo bs j) (kid_hi hi bs j) (ks ! j)"
  proof cases
    case 1
    then have "kid_lo lo bs j = kid_lo lo bounds j" "kid_hi hi bs j = kid_hi hi bounds j" "ks ! j = kids ! j"
      using i len lens j nk nb unfolding bs ks by (auto simp: kid_lo_def kid_hi_def)
    with kids [of j] 1 i show ?thesis by simp
  next
    case 2
    then have "kid_lo lo bs j = kid_lo lo bounds i" "kid_hi hi bs j = Some b" "ks ! j = kid"
      using i len lens j nk nb unfolding bs ks by (auto simp: kid_lo_def kid_hi_def)
    with left show ?thesis by simp
  next
    case 3
    then have "kid_lo lo bs j = Some b" "kid_hi hi bs j = kid_hi hi bounds i" "ks ! j = right"
      using i len lens j nk nb unfolding bs ks by (auto simp: kid_lo_def kid_hi_def)
    with right show ?thesis by simp
  next
    case 4
    then have "kid_lo lo bs j = kid_lo lo bounds (j - 1)" "kid_hi hi bs j = kid_hi hi bounds (j - 1)"
      "ks ! j = kids ! (j - 1)"
      using i len lens j nk nb unfolding bs ks by (auto simp: kid_lo_def kid_hi_def)
    with kids [of "j - 1"] 4 j lens show ?thesis by simp
  qed
qed

lemma internal_split_ok:
  assumes kids: "\<And>j. j < length ks \<Longrightarrow> node_ok (kid_lo lo bs j) (kid_hi hi bs j) (ks ! j)"
    and len: "length ks = length bs" and h: "0 < h" "h < length ks" "h \<le> 32" "length ks - h \<le> 32"
  shows "node_ok lo (Some (bs ! h)) (Internal (take h bs) (take h ks))"
    and "node_ok (Some (bs ! h)) hi (Internal (drop h bs) (drop h ks))"
proof -
  have "node_ok (kid_lo lo (take h bs) j) (kid_hi (Some (bs ! h)) (take h bs) j) (ks ! j)" if "j < h" for j
  proof -
    have "h = Suc j \<or> Suc j < h" using that by linarith
    then have "kid_lo lo (take h bs) j = kid_lo lo bs j" "kid_hi (Some (bs ! h)) (take h bs) j = kid_hi hi bs j"
      using that h len by (auto simp: kid_lo_def kid_hi_def)
    with kids [of j] that h show ?thesis by simp
  qed
  with h len show "node_ok lo (Some (bs ! h)) (Internal (take h bs) (take h ks))" by auto
  have "node_ok (kid_lo (Some (bs ! h)) (drop h bs) j) (kid_hi hi (drop h bs) j) (ks ! (h + j))"
    if "j < length ks - h" for j
  proof -
    have "kid_lo (Some (bs ! h)) (drop h bs) j = kid_lo lo bs (h + j)"
      "kid_hi hi (drop h bs) j = kid_hi hi bs (h + j)"
      using that h len by (auto simp: kid_lo_def kid_hi_def)
    with kids [of "h + j"] that h show ?thesis by simp
  qed
  with h len show "node_ok (Some (bs ! h)) hi (Internal (drop h bs) (drop h ks))" by auto
qed

lemma entries_around_update:
  "i < length kids \<Longrightarrow> concat (map entries (kids[i := kid]))
    = concat (map entries (take i kids)) @ entries kid @ concat (map entries (drop (Suc i) kids))"
  by (simp add: list_update_split)

text \<open>The common tail of an insertion below: hand the children up, splitting them if there are too many.\<close>

lemma internal_post:
  assumes kids: "\<And>j. j < length ks \<Longrightarrow> node_ok (kid_lo lo bs j) (kid_hi hi bs j) (ks ! j)"
    and len: "length ks = length bs" "0 < length ks" "length ks \<le> 33"
    and ent: "concat (map entries ks) = om_insert k v es" and old: "old = map_of es k"
  shows "\<exists>r. (if length ks \<le> NODE_MAX then Some (old, None, Internal bs ks)
           else do {
             (lb, rb) \<leftarrow> split_off (length ks div 2) bs;
             (lk, rk) \<leftarrow> split_off (length ks div 2) ks;
             bound \<leftarrow> nth_opt rb 0;
             Some (old, Some (bound, Internal rb rk), Internal lb lk) }) = Some r
     \<and> ins_post lo hi k v es r"
proof (cases "length ks \<le> 32")
  case True
  then have "node_ok lo hi (Internal bs ks)" using kids len by auto
  with True ent old show ?thesis by (simp add: ins_post_def del: node_ok.simps)
next
  case False
  define h where "h = length ks div 2"
  have h: "0 < h" "h < length ks" "h \<le> 32" "length ks - h \<le> 32"
    using False len unfolding h_def by linarith+
  note sp = internal_split_ok [OF kids len(1) h]
  have "concat (map entries (take h ks)) @ concat (map entries (drop h ks)) = om_insert k v es"
    using ent by (simp flip: concat_append map_append)
  moreover have "split_off h bs = Some (take h bs, drop h bs)" "split_off h ks = Some (take h ks, drop h ks)"
    "nth_opt (drop h bs) 0 = Some (bs ! h)"
    using h len by (simp_all add: split_off_def)
  ultimately show ?thesis using False sp old
    by (simp only: h_def [symmetric] NODE_MAX_eq if_False Option.bind.simps case_prod_conv)
      (simp add: ins_post_def del: node_ok.simps)
qed

lemma insert_into_correct:
  "node_ok lo hi n \<Longrightarrow> within lo hi k \<Longrightarrow>
   \<exists>r. insert_into n k v = Some r \<and> ins_post lo hi k v (entries n) r"
proof (induction lo hi n rule: node_ok.induct)
  case (1 lo hi keys vals)
  then show ?case using insert_into_leaf by simp
next
  case (2 lo hi bounds kids)
  note ok = "2.prems"(1) and sep = node_ok_sep [OF "2.prems"(1)]
  define i where "i = route bounds k"
  have i: "i < length kids" unfolding i_def by (rule route_correct(1) [OF sep])
  have len: "length kids = length bounds" "length kids \<le> 32" using ok by auto
  note kids = node_ok_kid [OF ok]
  have w: "within (kid_lo lo bounds i) (kid_hi hi bounds i) k"
    unfolding i_def by (rule route_within_kid [OF sep "2.prems"(2)])
  obtain old split kid where r: "insert_into (kids ! i) k v = Some (old, split, kid)"
    and post: "ins_post (kid_lo lo bounds i) (kid_hi hi bounds i) k v (entries (kids ! i)) (old, split, kid)"
    using "2.IH" [OF i kids [OF i] w] by auto
  have old: "old = map_of (entries (Internal bounds kids)) k"
    using post map_of_around [OF sep, of k] by (simp add: ins_post_def i_def)
  have around: "concat (map entries (take i kids)) @ om_insert k v (entries (kids ! i))
      @ concat (map entries (drop (Suc i) kids)) = om_insert k v (entries (Internal bounds kids))"
    using om_insert_mid [of "concat (map entries (take i kids))" k "concat (map entries (drop (Suc i) kids))"]
      route_before [OF sep] route_after [OF sep] entries_around [OF i] by (simp add: i_def)
  show ?case
  proof (cases split)
    case None
    have ks: "node_ok (kid_lo lo bounds j) (kid_hi hi bounds j) (kids[i := kid] ! j)"
      if "j < length (kids[i := kid])" for j
      using kids [of j] post None that i by (cases "j = i") (auto simp: ins_post_def)
    have "concat (map entries (kids[i := kid])) = om_insert k v (entries (Internal bounds kids))"
      using post None around by (simp add: entries_around_update [OF i] ins_post_def)
    moreover have "0 < length (kids[i := kid])" using i unfolding length_list_update by linarith
    ultimately show ?thesis using internal_post [OF ks _ _ _ _ old, of v] len i
      by (simp add: i_def [symmetric] Let_def r None)
  next
    case (Some br)
    then obtain b right where br: "split = Some (b, right)" by (cases br) auto
    define bs where bs: "bs = take (Suc i) bounds @ b # drop (Suc i) bounds"
    define ks where ks: "ks = take (Suc i) (kids[i := kid]) @ right # drop (Suc i) (kids[i := kid])"
    have lr: "node_ok (kid_lo lo bounds i) (Some b) kid" "node_ok (Some b) (kid_hi hi bounds i) right"
      "entries kid @ entries right = om_insert k v (entries (kids ! i))"
      using post br by (auto simp: ins_post_def)
    note ins = kids_ok_insert [OF kids len(1) i lr(1,2) bs ks]
    have "concat (map entries ks) = concat (map entries (take i kids)) @ (entries kid @ entries right)
        @ concat (map entries (drop (Suc i) kids))"
      using i by (simp add: ks take_Suc_conv_app_nth)
    also have "\<dots> = om_insert k v (entries (Internal bounds kids))" using around lr(3) by simp
    finally have ent: "concat (map entries ks) = om_insert k v (entries (Internal bounds kids))" .
    have "vec_insert (i + 1) b bounds = Some bs" "vec_insert (i + 1) right (kids[i := kid]) = Some ks"
      using i len by (simp_all add: vec_insert_def bs ks)
    moreover have "0 < length ks" "length ks \<le> 33" using ins(3) len by auto
    ultimately show ?thesis using internal_post [OF ins(1,2) _ _ ent old] i
      by (simp add: i_def [symmetric] Let_def r br)
  qed
qed


lemma cm_insert_correct:
  assumes "cm_inv m"
  obtains m' where "cm_insert m k v = Some (map_of (cm_entries m) k, m')"
    and "cm_inv m'" and "cm_entries m' = om_insert k v (cm_entries m)"
proof (cases "cm_root m")
  case None
  then show ?thesis
    by (intro that [of "\<lparr>cm_root = Some (Leaf [k] [v]), cm_len = 1\<rparr>"])
      (simp_all add: cm_insert_def cm_entries_def cm_inv_def within_def)
next
  case (Some root)
  let ?es = "entries root"
  have ok: "node_ok None None root" and len: "cm_len m = length ?es"
    using assms Some by (simp_all add: cm_inv_def cm_entries_def)
  obtain split left where ins: "insert_into root k v = Some (map_of ?es k, split, left)"
    and post: "ins_post None None k v ?es (map_of ?es k, split, left)"
    using insert_into_correct [OF ok, of k v] by (auto simp: within_def ins_post_def)
  define root' where "root' = (case split of None \<Rightarrow> left
     | Some (b, right) \<Rightarrow> Internal [the (first_key left), b] [left, right])"
  have root': "node_ok None None root' \<and> entries root' = om_insert k v ?es"
  proof (cases split)
    case (Some br)
    then obtain b right where br: "split = Some (b, right)" by (cases br) auto
    then have lr: "node_ok None (Some b) left" "node_ok (Some b) None right"
      and "entries left @ entries right = om_insert k v ?es" using post by (auto simp: ins_post_def)
    moreover have "node_ok (kid_lo None [x, b] j) (kid_hi None [x, b] j) ([left, right] ! j)" if "j < 2" for j x
      using that lr by (cases j) (auto simp: kid_lo_def kid_hi_def less_Suc_eq)
    ultimately show ?thesis by (auto simp: root'_def br numeral_2_eq_2)
  qed (use post in \<open>auto simp: root'_def ins_post_def\<close>)
  obtain first where first: "first_key left = Some first"
  proof -
    have "\<exists>hi. node_ok None hi left" using post by (auto simp: ins_post_def split: option.splits)
    then have "first_key left \<noteq> None" by (cases left) (auto simp: nth_opt_def simp flip: length_greater_0_conv)
    then show ?thesis using that by blast
  qed
  have "om_wf ?es" by (rule node_ok_wf [OF ok])
  show ?thesis
  proof (rule that)
    show "cm_insert m k v = Some (map_of (cm_entries m) k,
        \<lparr>cm_root = Some root', cm_len = (if map_of ?es k = None then cm_len m + 1 else cm_len m)\<rparr>)"
      using ins first by (auto simp: cm_insert_def Some root'_def cm_entries_def split: option.splits)
    show "cm_inv \<lparr>cm_root = Some root', cm_len = (if map_of ?es k = None then cm_len m + 1 else cm_len m)\<rparr>"
      using root' len \<open>om_wf ?es\<close>
      by (simp add: cm_inv_def cm_entries_def length_om_insert om_get_None_iff)
  qed (simp add: cm_entries_def root' Some)
qed


section \<open>Paths, modification and removal\<close>

lemma height_kid: "j < length kids \<Longrightarrow> height (kids ! j) < height (Internal bounds kids)"
proof -
  have "x \<in> set xs \<Longrightarrow> x \<le> foldr max xs 0" for x and xs :: "nat list"
    by (induction xs) auto
  then show "j < length kids \<Longrightarrow> height (kids ! j) < height (Internal bounds kids)"
    by (auto simp: less_Suc_eq_le)
qed

text \<open>A path leads to the entry of the key, through as many levels as the node is high.\<close>

fun path_to :: "('k, 'v) node \<Rightarrow> nat list \<Rightarrow> nat \<Rightarrow> 'k \<Rightarrow> bool" where
  "path_to (Leaf keys vals) path at k \<longleftrightarrow> path = [] \<and> at < length keys \<and> keys ! at = k"
| "path_to (Internal bounds kids) path at k \<longleftrightarrow>
     (case path of [] \<Rightarrow> False | i # rest \<Rightarrow> i < length kids \<and> path_to (kids ! i) rest at k)"

lemma find_path_correct:
  "node_ok lo hi n \<Longrightarrow> depth + height n \<le> MAX_DEPTH \<Longrightarrow>
   (if k \<in> fst ` set (entries n)
    then \<exists>path at. find_path depth n k = Some (Some (path, at)) \<and> path_to n path at k
    else find_path depth n k = Some None)"
proof (induction lo hi n arbitrary: depth rule: node_ok.induct)
  case (1 lo hi keys vals)
  then have "strict keys" "fst ` set (zip keys vals) = set keys"
    by (auto simp flip: set_map)
  then show ?case
    using binary_search_Found_iff [of keys k] binary_search_Found [of keys k, OF _ strict_sorted]
    by (cases "binary_search keys k") auto
next
  case (2 lo hi bounds kids)
  note sep = node_ok_sep [OF "2.prems"(1)]
  define i where "i = route bounds k"
  have i: "i < length kids" unfolding i_def by (rule route_correct(1) [OF sep])
  have len: "length kids \<le> 32" using "2.prems"(1) by simp
  have d: "depth < 32" "Suc depth + height (kids ! i) \<le> MAX_DEPTH"
    using "2.prems"(2) height_kid [OF i, of bounds] by simp_all
  have "map_of (entries (Internal bounds kids)) k = map_of (entries (kids ! i)) k"
    using map_of_around [OF sep, of k] by (simp add: i_def)
  then have "k \<in> fst ` set (entries (Internal bounds kids)) \<longleftrightarrow> k \<in> fst ` set (entries (kids ! i))"
    by (metis om_get_None_iff)
  moreover have "i mod 256 = i" using i len by simp
  ultimately show ?case
    using "2.IH" [OF i node_ok_kid [OF "2.prems"(1) i] d(2)] d(1) i
    by (auto simp: i_def [symmetric] Let_def split: if_splits)
qed

lemma cm_find_correct:
  assumes "cm_inv m" and "cm_height m \<le> MAX_DEPTH"
  shows "if k \<in> fst ` set (cm_entries m)
     then \<exists>path at root. cm_root m = Some root \<and> cm_find m k = Some (Some (path, at)) \<and> path_to root path at k
     else cm_find m k = Some None"
proof (cases "cm_root m")
  case (Some root)
  then show ?thesis using find_path_correct [of None None root 0 k] assms
    by (simp add: cm_find_def cm_inv_def cm_entries_def cm_height_def)
qed (simp add: cm_find_def cm_entries_def)


lemma path_to_key: "node_ok lo hi n \<Longrightarrow> path_to n path at k \<Longrightarrow> k \<in> fst ` set (entries n)"
proof (induction lo hi n arbitrary: path rule: node_ok.induct)
  case (1 lo hi keys vals)
  then have "at < length keys" "keys ! at = k" "length keys = length vals" by auto
  then have "k \<in> set (map fst (zip keys vals))" by auto
  then show ?case by simp
next
  case (2 lo hi bounds kids)
  from "2.prems"(2) obtain i rest where i: "i < length kids" "path_to (kids ! i) rest at k"
    by (auto split: list.splits)
  from "2.IH" [OF i(1) node_ok_kid [OF "2.prems"(1) i(1)] i(2)]
  obtain e where "e \<in> set (entries (kids ! i))" "fst e = k" by auto
  then have "e \<in> set (entries (Internal bounds kids))" "fst e = k"
    unfolding entries.simps set_concat_nth using i(1) by auto
  then show ?case by force
qed

text \<open>A key of child \<open>i\<close> is above every key to the left of the child and below every key to its right.\<close>

lemma around_key:
  assumes sep: "kids_sep lo hi bounds kids" and i: "i < length kids"
    and k: "k \<in> fst ` set (entries (kids ! i))"
  shows "e \<in> set (concat (map entries (take i kids))) \<Longrightarrow> fst e < k"
    and "e \<in> set (concat (map entries (drop (Suc i) kids))) \<Longrightarrow> k < fst e"
    and "map_of (concat (map entries kids)) k = map_of (entries (kids ! i)) k"
proof -
  from k obtain d where d: "d \<in> set (entries (kids ! i))" "fst d = k" by auto
  have left: "fst e < k" if e: "e \<in> set (concat (map entries (take i kids)))" for e
  proof -
    from e obtain j where "j < i" "e \<in> set (entries (kids ! j))" unfolding set_concat_nth by auto
    then show ?thesis using kids_sep_ordered [OF sep _ i _ d(1)] d(2) by auto
  qed
  have right: "k < fst e" if e: "e \<in> set (concat (map entries (drop (Suc i) kids)))" for e
  proof -
    from e obtain j where j: "Suc i + j < length kids" "e \<in> set (entries (kids ! (Suc i + j)))"
      unfolding set_concat_nth by (auto simp: less_diff_conv add.commute)
    then show ?thesis using kids_sep_ordered [OF sep _ j(1) d(1) j(2)] d(2) by auto
  qed
  show "e \<in> set (concat (map entries (take i kids))) \<Longrightarrow> fst e < k" by (rule left)
  show "e \<in> set (concat (map entries (drop (Suc i) kids))) \<Longrightarrow> k < fst e" by (rule right)
  have "map_of (concat (map entries (take i kids))) k = None"
    "map_of (concat (map entries (drop (Suc i) kids))) k = None"
    using left right by (fastforce simp: om_get_None_iff)+
  then show "map_of (concat (map entries kids)) k = map_of (entries (kids ! i)) k"
    by (simp add: entries_around [OF i] map_add_def split: option.split)
qed

lemma om_around_key:
  assumes "kids_sep lo hi bounds kids" and "i < length kids" and "k \<in> fst ` set (entries (kids ! i))"
  shows "om_insert k v (concat (map entries kids)) = concat (map entries (take i kids))
      @ om_insert k v (entries (kids ! i)) @ concat (map entries (drop (Suc i) kids))"
    and "om_remove k (concat (map entries kids)) = concat (map entries (take i kids))
      @ om_remove k (entries (kids ! i)) @ concat (map entries (drop (Suc i) kids))"
proof -
  note ak = around_key [OF assms]
  show "om_insert k v (concat (map entries kids)) = concat (map entries (take i kids))
      @ om_insert k v (entries (kids ! i)) @ concat (map entries (drop (Suc i) kids))"
    unfolding entries_around [OF assms(2)] by (rule om_insert_mid) (use ak in blast)+
  show "om_remove k (concat (map entries kids)) = concat (map entries (take i kids))
      @ om_remove k (entries (kids ! i)) @ concat (map entries (drop (Suc i) kids))"
    unfolding entries_around [OF assms(2)] by (rule om_remove_mid) (use ak in blast)+
qed

lemma node_modify_correct:
  "node_ok lo hi n \<Longrightarrow> path_to n path at k \<Longrightarrow>
   \<exists>n'. node_modify n path at f = Some n' \<and> node_ok lo hi n'
     \<and> entries n' = om_insert k (f (the (map_of (entries n) k))) (entries n)"
proof (induction lo hi n arbitrary: path rule: node_ok.induct)
  case (1 lo hi keys vals)
  then have at: "at < length keys" "keys ! at = k" "path = []" "length keys = length vals" "strict keys"
    by auto
  have "map_of (zip keys vals) (keys ! at) = Some (vals ! at)"
    by (rule map_of_is_SomeI) (use at in \<open>auto simp: strict_distinct in_set_zip\<close>)
  moreover have "(zip keys vals)[at := (keys ! at, x)] = om_insert (keys ! at) x (zip keys vals)" for x
    by (rule om_update_at) (use at in simp_all)
  moreover have "(zip keys vals)[at := (keys ! at, x)] = zip keys (vals[at := x])" for x
    by (simp add: update_zip)
  ultimately show ?case using at "1.prems"(1) by simp
next
  case (2 lo hi bounds kids)
  from "2.prems"(2) obtain i rest where p: "path = i # rest" and i: "i < length kids" "path_to (kids ! i) rest at k"
    by (auto split: list.splits)
  note sep = node_ok_sep [OF "2.prems"(1)] and kids = node_ok_kid [OF "2.prems"(1)]
  have k: "k \<in> fst ` set (entries (kids ! i))" by (rule path_to_key [OF kids [OF i(1)] i(2)])
  note ak = around_key [OF sep i(1) k]
  obtain kid where kid: "node_modify (kids ! i) rest at f = Some kid"
    "node_ok (kid_lo lo bounds i) (kid_hi hi bounds i) kid"
    "entries kid = om_insert k (f (the (map_of (entries (kids ! i)) k))) (entries (kids ! i))"
    using "2.IH" [OF i(1) kids [OF i(1)] i(2)] by blast
  have "node_ok (kid_lo lo bounds j) (kid_hi hi bounds j) (kids[i := kid] ! j)" if "j < length kids" for j
    using kids [OF that] kid(2) i(1) by (cases "j = i") auto
  then have "node_ok lo hi (Internal bounds (kids[i := kid]))" using "2.prems"(1) by simp
  moreover have "concat (map entries (kids[i := kid]))
      = om_insert k (f (the (map_of (concat (map entries kids)) k))) (concat (map entries kids))"
    unfolding entries_around_update [OF i(1)] ak(3) kid(3) om_around_key(1) [OF sep i(1) k] by (rule refl)
  ultimately show ?case using kid(1) i(1) by (simp add: p)
qed

lemma node_ok_weaken:
  "node_ok lo hi n \<Longrightarrow> (\<And>k. within lo None k \<Longrightarrow> within lo' None k) \<Longrightarrow>
   (\<And>k. within None hi k \<Longrightarrow> within None hi' k) \<Longrightarrow> node_ok lo' hi' n"
proof (induction lo hi n arbitrary: lo' hi' rule: node_ok.induct)
  case (1 lo hi keys vals)
  have "within lo hi k \<Longrightarrow> within lo' hi' k" for k
    using "1.prems"(2,3) [of k] by (simp add: within_def)
  with "1.prems"(1) show ?case by simp
next
  case (2 lo hi bounds kids)
  have "node_ok (kid_lo lo' bounds j) (kid_hi hi' bounds j) (kids ! j)" if "j < length kids" for j
    by (rule "2.IH" [OF that node_ok_kid [OF "2.prems"(1) that]])
      (use "2.prems"(2,3) in \<open>auto simp: kid_lo_def kid_hi_def\<close>)
  with "2.prems"(1) show ?case by simp
qed

lemma kids_ok_remove:
  assumes ok: "node_ok lo hi (Internal bounds kids)" and i: "i < length kids" and two: "1 < length kids"
    and bs: "bs = take i bounds @ drop (Suc i) bounds" and ks: "ks = take i kids @ drop (Suc i) kids"
  shows "node_ok lo hi (Internal bs ks)"
proof -
  note sep = node_ok_sep [OF ok] and kids = node_ok_kid [OF ok]
  have len: "length kids = length bounds" "length kids \<le> 32" using ok by auto
  have lens: "length ks = length kids - 1" "length bs = length bounds - 1" using i len by (simp_all add: bs ks)
  have nth: "bs ! j = (if j < i then bounds ! j else bounds ! Suc j)"
    "ks ! j = (if j < i then kids ! j else kids ! Suc j)" if "j < length ks" for j
    using that i len lens by (auto simp: bs ks nth_append min_def)
  have "node_ok (kid_lo lo bs j) (kid_hi hi bs j) (ks ! j)" if j: "j < length ks" for j
  proof (cases "j < i")
    case True
    have "within None (kid_hi hi bs j) x" if x: "within None (kid_hi hi bounds j) x" for x
    proof (cases "Suc j < i")
      case True
      then have "Suc j < length bounds - 1" "Suc j < length bounds" using i len by simp_all
      with True x len lens nth(1) [of "Suc j"] show ?thesis by (simp add: kid_hi_def)
    next
      case False
      with \<open>j < i\<close> have "Suc j = i" by simp
      with x i len have x: "x < bounds ! i" by (simp add: kid_hi_def within_def)
      show ?thesis
      proof (cases "Suc i < length bounds")
        case True
        then have "bounds ! i < bounds ! Suc i" using kids_sep_bounds_step [OF sep, of i] \<open>j < i\<close> by simp
        moreover have "i < length bounds - 1" using True by linarith
        ultimately show ?thesis using x \<open>Suc j = i\<close> lens len nth(1) [of i]
          by (simp add: kid_hi_def within_def)
      next
        case False
        have "x < h" if "hi = Some h" for h
          using x kids_sep_less_hi [of lo h bounds kids i] sep i len that \<open>Suc j = i\<close> by auto
        with False \<open>Suc j = i\<close> lens len show ?thesis
          by (auto simp: kid_hi_def within_def split: option.split)
      qed
    qed
    moreover have "kid_lo lo bs j = kid_lo lo bounds j" "ks ! j = kids ! j" "j < length kids"
      using True nth j i by (auto simp: kid_lo_def)
    ultimately show ?thesis using node_ok_weaken [OF kids [of j]] by simp
  next
    case False
    have lo1: "l < bounds ! 1" if "lo = Some l" for l
      using kids_sep_lo_less [of l hi bounds kids 1] sep two len that by simp
    have "within (kid_lo lo bs j) None x" if x: "within (kid_lo lo bounds (Suc j)) None x" for x
      using x lo1 nth(1) [OF j] False
      by (auto simp: kid_lo_def within_def split: option.split)
    moreover have "kid_hi hi bs j = kid_hi hi bounds (Suc j)"
      using False j lens len nth(1) [of "Suc j"] by (auto simp: kid_hi_def)
    ultimately show ?thesis using node_ok_weaken [OF kids [of "Suc j"]] nth(2) [OF j] False j lens by simp
  qed
  then show ?thesis using len lens two by auto
qed

lemma remove_at_correct:
  "node_ok lo hi n \<Longrightarrow> path_to n path at k \<Longrightarrow>
   \<exists>n'. remove_at n path at = Some (the (map_of (entries n) k), n')
     \<and> entries n' = om_remove k (entries n)
     \<and> (if node_is_empty n' then entries n' = [] else node_ok lo hi n')"
proof (induction lo hi n arbitrary: path rule: node_ok.induct)
  case (1 lo hi keys vals)
  then have at: "at < length keys" "keys ! at = k" "length keys = length vals" "strict keys"
    "length keys \<le> 32" "\<forall>k\<in>set keys. within lo hi k"
    by auto
  let ?ks = "take at keys @ drop (Suc at) keys" and ?vs = "take at vals @ drop (Suc at) vals"
  have "map_of (zip keys vals) (keys ! at) = Some (vals ! at)"
    by (rule map_of_is_SomeI) (use at in \<open>auto simp: strict_distinct in_set_zip\<close>)
  then have "remove_at (Leaf keys vals) path at = Some (the (map_of (zip keys vals) k), Leaf ?ks ?vs)"
    using at by (simp add: vec_remove_def)
  moreover have zip: "zip ?ks ?vs = om_remove k (zip keys vals)"
    using om_remove_at [of "zip keys vals" at k] at by (simp add: take_zip drop_zip)
  moreover have "node_ok lo hi (Leaf ?ks ?vs)" if "?ks \<noteq> []"
  proof -
    have "strict ?ks" using om_wf_remove [of "zip keys vals" k] at unfolding zip [symmetric] by simp
    moreover have "\<forall>k\<in>set ?ks. within lo hi k" using at(6) by (auto dest: in_set_takeD in_set_dropD)
    moreover have "length ?ks \<le> 32" "length ?ks = length ?vs" using at by auto
    ultimately show ?thesis using that by simp
  qed
  ultimately show ?case by auto
next
  case (2 lo hi bounds kids)
  from "2.prems"(2) obtain i rest where p: "path = i # rest" and i: "i < length kids" "path_to (kids ! i) rest at k"
    by (auto split: list.splits)
  note ok = "2.prems"(1) and sep = node_ok_sep [OF "2.prems"(1)] and kids = node_ok_kid [OF "2.prems"(1)]
  have len: "length kids = length bounds" using ok by simp
  have k: "k \<in> fst ` set (entries (kids ! i))" by (rule path_to_key [OF kids [OF i(1)] i(2)])
  note ak = around_key(3) [OF sep i(1) k] and rem = om_around_key(2) [OF sep i(1) k]
  obtain kid where kid: "remove_at (kids ! i) rest at = Some (the (map_of (entries (kids ! i)) k), kid)"
    "entries kid = om_remove k (entries (kids ! i))"
    "if node_is_empty kid then entries kid = [] else node_ok (kid_lo lo bounds i) (kid_hi hi bounds i) kid"
    using "2.IH" [OF i(1) kids [OF i(1)] i(2)] by blast
  show ?case
  proof (cases "node_is_empty kid")
    case True
    let ?bs = "take i bounds @ drop (Suc i) bounds" and ?ks = "take i kids @ drop (Suc i) kids"
    have "remove_at (Internal bounds kids) path at = Some (the (map_of (entries (Internal bounds kids)) k), Internal ?bs ?ks)"
      using True kid(1) i(1) len ak by (simp add: p vec_remove_def)
    moreover have "entries (Internal ?bs ?ks) = om_remove k (entries (Internal bounds kids))"
      using True kid rem by simp
    moreover have "node_ok lo hi (Internal ?bs ?ks)" if "?ks \<noteq> []"
    proof -
      have "length ?ks = length kids - 1" using i(1) by simp
      moreover have "length ?ks \<noteq> 0" using that by (simp only: length_0_conv) simp
      ultimately have "1 < length kids" by linarith
      then show ?thesis by (rule kids_ok_remove [OF ok i(1) _ refl refl])
    qed
    ultimately show ?thesis by auto
  next
    case False
    have "node_ok (kid_lo lo bounds j) (kid_hi hi bounds j) (kids[i := kid] ! j)" if "j < length kids" for j
      using kids [OF that] kid(3) False i(1) by (cases "j = i") auto
    then have "node_ok lo hi (Internal bounds (kids[i := kid]))" using ok by simp
    moreover have "concat (map entries (kids[i := kid])) = om_remove k (concat (map entries kids))"
      unfolding entries_around_update [OF i(1)] kid(2) rem by (rule refl)
    ultimately show ?thesis using False kid(1) i(1) ak by (simp add: p)
  qed
qed

lemma cm_modify_correct:
  assumes "cm_inv m" and "cm_height m \<le> MAX_DEPTH"
  shows "case map_of (cm_entries m) k of
     None \<Rightarrow> cm_modify m k f = Some None
   | Some v \<Rightarrow> \<exists>m'. cm_modify m k f = Some (Some m') \<and> cm_inv m'
       \<and> cm_entries m' = om_insert k (f v) (cm_entries m)"
proof (cases "map_of (cm_entries m) k")
  case None
  then have "k \<notin> fst ` set (cm_entries m)" by (simp add: om_get_None_iff)
  then show ?thesis using cm_find_correct [OF assms, of k] None by (simp add: cm_modify_def)
next
  case (Some v)
  then have "k \<in> fst ` set (cm_entries m)" by (metis om_get_None_iff option.distinct(1))
  then obtain path at root where r: "cm_root m = Some root" "cm_find m k = Some (Some (path, at))"
    "path_to root path at k" using cm_find_correct [OF assms, of k] by auto
  have es: "cm_entries m = entries root" "node_ok None None root"
    using assms(1) r(1) by (simp_all add: cm_inv_def cm_entries_def)
  obtain n' where n': "node_modify root path at f = Some n'" "node_ok None None n'"
    "entries n' = om_insert k (f v) (entries root)"
    using node_modify_correct [OF es(2) r(3), of f] Some es(1) by auto
  let ?m = "m\<lparr>cm_root := Some n'\<rparr>"
  have "cm_entries ?m = om_insert k (f v) (cm_entries m)" by (simp add: cm_entries_def n'(3) r(1))
  moreover have "cm_inv ?m"
    using assms(1) n' \<open>k \<in> _\<close> node_ok_wf [OF es(2)] unfolding es(1)
    by (simp add: cm_inv_def cm_entries_def r(1) length_om_insert)
  ultimately show ?thesis using Some r n'(1) by (simp add: cm_modify_def)
qed

lemma collapse_correct:
  "(if node_is_empty n then entries n = [] else node_ok None None n) \<Longrightarrow>
   (case collapse n of None \<Rightarrow> entries n = []
    | Some n' \<Rightarrow> node_ok None None n' \<and> entries n' = entries n)"
proof (induction n rule: collapse.induct)
  case (3 bounds kid)
  then have "node_ok None None (Internal bounds [kid])" by (simp only: node_is_empty.simps if_False list.distinct)
  then have "node_ok None None kid" by (auto simp: kid_lo_def kid_hi_def)
  moreover then have "\<not> node_is_empty kid" by (cases kid) auto
  ultimately show ?case using 3(1) by (simp split: option.splits)
qed auto

lemma cm_remove_correct:
  assumes "cm_inv m" and "cm_height m \<le> MAX_DEPTH"
  obtains m' where "cm_remove m k = Some (map_of (cm_entries m) k, m')"
    and "cm_inv m'" and "cm_entries m' = om_remove k (cm_entries m)"
proof (cases "k \<in> fst ` set (cm_entries m)")
  case False
  then show ?thesis using cm_find_correct [OF assms, of k] assms(1)
    by (intro that [of m]) (simp_all add: cm_remove_def om_remove_absent flip: om_get_None_iff)
next
  case True
  then obtain path at root where r: "cm_root m = Some root" "cm_find m k = Some (Some (path, at))"
    "path_to root path at k" using cm_find_correct [OF assms, of k] by auto
  have es: "cm_entries m = entries root" "node_ok None None root"
    using assms(1) r(1) by (simp_all add: cm_inv_def cm_entries_def)
  obtain v where v: "map_of (cm_entries m) k = Some v" using True by (metis om_get_None_iff not_None_eq)
  obtain n' where n': "remove_at root path at = Some (v, n')" "entries n' = om_remove k (entries root)"
    "if node_is_empty n' then entries n' = [] else node_ok None None n'"
    using remove_at_correct [OF es(2) r(3)] v es(1) by auto
  let ?m = "\<lparr>cm_root = collapse n', cm_len = cm_len m - 1\<rparr>"
  note c = collapse_correct [OF n'(3)]
  have ent: "cm_entries ?m = om_remove k (cm_entries m)"
    using c n'(2) es(1) by (simp add: cm_entries_def split: option.splits)
  moreover have "cm_inv ?m"
    using c ent assms(1) length_om_remove [OF node_ok_wf [OF es(2)], of k] True es(1)
    by (auto simp: cm_inv_def split: option.splits)
  moreover have "cm_remove m k = Some (map_of (cm_entries m) k, ?m)"
    using r n'(1) v by (simp add: cm_remove_def)
  ultimately show ?thesis using that by blast
qed

lemma cm_inv_wf: "cm_inv m \<Longrightarrow> om_wf (cm_entries m)"
  by (cases "cm_root m") (auto simp: cm_inv_def cm_entries_def intro: node_ok_wf)

lemma cm_inv_new [simp]: "cm_inv cm_new" "cm_entries cm_new = []" "cm_height cm_new = 0"
  by (simp_all add: cm_inv_def cm_new_def cm_entries_def cm_height_def)

interpretation cm: ordered_map cm_new cm_get cm_insert cm_remove cm_entries cm_inv
  "\<lambda>m. cm_height m \<le> MAX_DEPTH"
proof unfold_locales
  fix m :: "('a, 'b) cow_map" and k v
  assume inv: "cm_inv m"
  show "om_wf (cm_entries m)" by (rule cm_inv_wf [OF inv])
  show "cm_get m k = Some (map_of (cm_entries m) k)" by (rule cm_get_entries [OF inv])
  show "\<exists>m'. cm_insert m k v = Some (map_of (cm_entries m) k, m') \<and> cm_inv m'
      \<and> cm_entries m' = om_insert k v (cm_entries m)"
    by (rule cm_insert_correct [OF inv, of k v]) blast
  assume "cm_height m \<le> MAX_DEPTH"
  then show "\<exists>m'. cm_remove m k = Some (map_of (cm_entries m) k, m') \<and> cm_inv m'
      \<and> cm_entries m' = om_remove k (cm_entries m)"
    by (rule cm_remove_correct [OF inv, of k]) blast
qed simp_all

end
