(* ===== verification/Cow_Map_Depth.thy ===== *)
theory Cow_Map_Depth
  imports Cow_Map
begin

text \<open>
  How deep a \<open>CowMap\<close> can grow. \<open>find\<close> keeps the path to a key in an array of \<open>MAX_DEPTH\<close> bytes and
  would index out of bounds below that depth, so \<open>get_mut\<close> and \<open>remove\<close> rest on the tree staying
  shallow. Nodes are never merged, so the number of keys does not bound the depth: a run of
  removals can leave a deep tree nearly empty. What bounds it is the number of insertions the
  map has seen, by an amortised argument: a node that splits has taken in sixteen entries since
  it was made, so a level costs sixteen times the insertions of the one below.
\<close>

text \<open>Every leaf is at the same depth below a node of height \<open>h\<close>.\<close>

fun bal :: "nat \<Rightarrow> ('k, 'v) node \<Rightarrow> bool" where
  "bal h (Leaf keys vals) \<longleftrightarrow> h = 0"
| "bal h (Internal bounds kids) \<longleftrightarrow> 0 < h \<and> (\<forall>kid\<in>set kids. bal (h - 1) kid)"

text \<open>The insertions a node has saved up towards its next split.\<close>

fun credit :: "nat \<Rightarrow> ('k, 'v) node \<Rightarrow> nat" where
  "credit h (Leaf keys vals) = length keys - 17"
| "credit h (Internal bounds kids) = 16 ^ h * (length kids - 17) + sum_list (map (credit (h - 1)) kids)"

lemma height_le_bal: "bal h n \<Longrightarrow> height n \<le> h"
proof (induction h n rule: bal.induct)
  case (2 h bounds kids)
  have "foldr max xs 0 \<le> b" if "\<forall>x\<in>set xs. x \<le> b" for xs :: "nat list" and b
    using that by (induction xs) auto
  from this [of "map height kids" "h - 1"] 2 show ?case by fastforce
qed simp

lemma credit_kids_split:
  "i < length kids \<Longrightarrow> sum_list (map f kids)
     = sum_list (map f (take i kids)) + f (kids ! i) + sum_list (map f (drop (Suc i) kids))"
  for f :: "_ \<Rightarrow> nat"
  by (subst id_take_nth_drop [of i kids]) simp_all

lemma credit_kids_update:
  "i < length kids \<Longrightarrow> sum_list (map f (kids[i := kid]))
     = sum_list (map f (take i kids)) + f kid + sum_list (map f (drop (Suc i) kids))"
  for f :: "_ \<Rightarrow> nat"
  by (simp add: list_update_split)

definition paid :: "nat \<Rightarrow> nat \<Rightarrow> ('k \<times> ('k, 'v) node) option \<Rightarrow> ('k, 'v) node \<Rightarrow> bool" where
  "paid h c split n \<longleftrightarrow> bal h n
     \<and> (case split of None \<Rightarrow> credit h n \<le> c + 1
        | Some (_, right) \<Rightarrow> bal h right \<and> credit h n + credit h right + 16 * 16 ^ h \<le> c + 1)"

text \<open>What is left of an internal node whose children, after the insertion below, are \<open>ks\<close>.\<close>

lemma internal_paid:
  assumes kids: "\<forall>kid\<in>set ks. bal h kid" and w: "w \<le> 32" "length ks = w \<or> length ks = Suc w"
    and sum: "sum_list (map (credit h) ks) + (if length ks = w then 0 else 16 * 16 ^ h) \<le> c + 1"
    and len: "length bs = length ks"
    and r: "(if length ks \<le> NODE_MAX then Some (old, None, Internal bs ks)
       else do {
         (lb, rb) \<leftarrow> split_off (length ks div 2) bs;
         (lk, rk) \<leftarrow> split_off (length ks div 2) ks;
         bound \<leftarrow> nth_opt rb 0;
         Some (old, Some (bound, Internal rb rk), Internal lb lk) }) = Some (old', split, n)"
  shows "paid (Suc h) (16 ^ Suc h * (w - 17) + c) split n"
proof (cases "length ks \<le> 32")
  case True
  have "16 ^ Suc h * (length ks - 17) \<le> 16 ^ Suc h * (w - 17) + (if length ks = w then 0 else 16 * 16 ^ h)"
  proof (cases "length ks = w")
    case False
    then have "length ks - 17 \<le> Suc (w - 17)" using w by linarith
    then have "16 ^ Suc h * (length ks - 17) \<le> 16 ^ Suc h * Suc (w - 17)" by (rule mult_le_mono2)
    with False show ?thesis by simp
  qed simp
  moreover have "n = Internal bs ks" "split = None" using r True by simp_all
  ultimately show ?thesis using sum kids by (simp add: paid_def)
next
  case False
  then have l: "length ks = 33" "w = 32" using w by simp_all
  have n: "n = Internal (take 16 bs) (take 16 ks)" "split = Some (bs ! 16, Internal (drop 16 bs) (drop 16 ks))"
    using r l len by (auto simp: split_off_def)
  have "sum_list (map (credit h) (take 16 ks)) + sum_list (map (credit h) (drop 16 ks))
      = sum_list (map (credit h) ks)"
    by (metis append_take_drop_id map_append sum_list_append)
  moreover have "\<forall>kid\<in>set (take 16 ks). bal h kid" "\<forall>kid\<in>set (drop 16 ks). bal h kid"
    using kids by (auto dest: in_set_takeD in_set_dropD)
  ultimately show ?thesis using sum l n by (simp add: paid_def)
qed

lemma insert_into_paid:
  "node_ok lo hi n \<Longrightarrow> bal h n \<Longrightarrow> insert_into n k v = Some (old, split, n') \<Longrightarrow> paid h (credit h n) split n'"
proof (induction lo hi n arbitrary: h old split n' rule: node_ok.induct)
  case (1 lo hi keys vals)
  have half: "length keys = 32" if "\<not> Suc (length keys) \<le> 32" using that 1 by simp
  show ?case using 1 half
    by (auto simp: paid_def vec_insert_def split_off_def split: search.splits if_splits bind_splits)
next
  case (2 lo hi bounds kids)
  define i where "i = route bounds k"
  have i: "i < length kids" unfolding i_def by (rule route_correct(1) [OF node_ok_sep [OF "2.prems"(1)]])
  have len: "length kids = length bounds" "length kids \<le> 32" using "2.prems"(1) by auto
  obtain h' where h: "h = Suc h'" "\<forall>kid\<in>set kids. bal h' kid" using "2.prems"(2) by (cases h) auto
  obtain old' sp kid where r: "insert_into (kids ! i) k v = Some (old', sp, kid)"
    using "2.prems"(3) i by (auto simp: i_def [symmetric] Let_def split: bind_splits)
  have p: "paid h' (credit h' (kids ! i)) sp kid"
    using "2.IH" [OF i node_ok_kid [OF "2.prems"(1) i] _ r] h(2) i by simp
  let ?c = "sum_list (map (credit h') kids)"
  note sums = credit_kids_split [OF i, of "credit h'"] credit_kids_update [OF i, of "credit h'" kid]
  show ?case
  proof (cases sp)
    case None
    have "\<forall>kid'\<in>set (kids[i := kid]). bal h' kid'"
      using h(2) p by (auto simp: paid_def dest: subsetD [OF set_update_subset_insert])
    moreover have "sum_list (map (credit h') (kids[i := kid])) \<le> ?c + 1"
      using p None sums by (simp add: paid_def)
    ultimately have "paid (Suc h') (16 ^ Suc h' * (length kids - 17) + ?c) split n'"
      by (intro internal_paid [of "kids[i := kid]" h' _ _ bounds old' old])
        (use "2.prems"(3) i len r None in \<open>simp_all add: i_def [symmetric] Let_def\<close>)
    then show ?thesis by (simp add: h(1))
  next
    case (Some br)
    then obtain b right where br: "sp = Some (b, right)" by (cases br) auto
    define bs where bs: "bs = take (Suc i) bounds @ b # drop (Suc i) bounds"
    define ks where ks: "ks = take i kids @ kid # right # drop (Suc i) kids"
    have "\<forall>kid\<in>set ks. bal h' kid"
      using h(2) p br by (auto simp: ks paid_def dest: in_set_takeD in_set_dropD)
    moreover have "sum_list (map (credit h') ks) + 16 * 16 ^ h' \<le> ?c + 1"
      using p br sums by (simp add: ks paid_def)
    moreover have "vec_insert (i + 1) b bounds = Some bs" "vec_insert (i + 1) right (kids[i := kid]) = Some ks"
      using i len by (simp_all add: vec_insert_def bs ks take_Suc_conv_app_nth)
    moreover have "length ks = Suc (length kids)" "length bs = Suc (length kids)"
      using i len by (simp_all add: bs ks)
    ultimately have "paid (Suc h') (16 ^ Suc h' * (length kids - 17) + ?c) split n'"
      by (intro internal_paid [of ks h' _ _ bs old' old])
        (use "2.prems"(3) i len r br in \<open>simp_all add: i_def [symmetric] Let_def\<close>)
    then show ?thesis by (simp add: h(1))
  qed
qed

text \<open>A removal moves nothing up a level and only takes entries away.\<close>

lemma sum_list_without: "sum_list (map f (take i xs @ drop (Suc i) xs)) \<le> sum_list (map f xs)"
  for f :: "_ \<Rightarrow> nat"
  by (cases "i < length xs") (simp_all add: credit_kids_split [of i xs f])

lemma remove_at_paid:
  "bal h n \<Longrightarrow> remove_at n path at = Some (old, n') \<Longrightarrow> bal h n' \<and> credit h n' \<le> credit h n"
proof (induction n path at arbitrary: h old n' rule: remove_at.induct)
  case (1 keys vals path at)
  then show ?case by (auto simp: vec_remove_def split: if_splits bind_splits)
next
  case (2 bounds kids path at)
  then obtain i rest where p: "path = i # rest" and i: "i < length kids"
    by (auto split: list.splits if_splits)
  obtain kid where kid: "remove_at (kids ! i) rest at = Some (old, kid)"
    and n': "n' = Internal bounds (kids[i := kid])
      \<or> (\<exists>bs. n' = Internal bs (take i kids @ drop (Suc i) kids))"
    using "2.prems"(2) i by (auto simp: p vec_remove_def split: bind_splits if_splits)
  obtain h' where h: "h = Suc h'" "\<forall>kid\<in>set kids. bal h' kid" using "2.prems"(1) by (cases h) auto
  have kid': "bal h' kid" "credit h' kid \<le> credit h' (kids ! i)"
    using "2.IH" [OF p i _ kid, of h'] h(2) i by simp_all
  show ?case using n'
  proof
    assume n': "n' = Internal bounds (kids[i := kid])"
    have "\<forall>k\<in>set (kids[i := kid]). bal h' k"
      using h(2) kid'(1) by (auto dest: subsetD [OF set_update_subset_insert])
    then show ?thesis using kid'(2) i
      by (simp add: n' h credit_kids_split [of i kids "credit h'"] credit_kids_update)
  next
    assume "\<exists>bs. n' = Internal bs (take i kids @ drop (Suc i) kids)"
    then obtain bs where n': "n' = Internal bs (take i kids @ drop (Suc i) kids)" by blast
    let ?ks = "take i kids @ drop (Suc i) kids"
    have "16 ^ Suc h' * (length ?ks - 17) \<le> (16 ^ Suc h' * (length kids - 17) :: nat)"
      by (rule mult_le_mono2) simp
    moreover have "sum_list (map (credit h') ?ks) \<le> sum_list (map (credit h') kids)"
      by (rule sum_list_without)
    moreover have "\<forall>k\<in>set ?ks. bal h' k" using h(2) by (auto dest: in_set_takeD in_set_dropD)
    ultimately show ?thesis
      by (simp only: n' h credit.simps bal.simps diff_Suc_1 zero_less_Suc simp_thms add_mono)
  qed
qed

lemma collapse_paid:
  "bal h n \<Longrightarrow> collapse n = Some n' \<Longrightarrow>
   \<exists>h'. bal h' n' \<and> 16 ^ h' + credit h' n' \<le> 16 ^ h + credit h n"
proof (induction n arbitrary: h rule: collapse.induct)
  case (3 bounds kid)
  then obtain h' where h: "h = Suc h'" "bal h' kid" by (cases h) auto
  then obtain h'' where "bal h'' n'" "16 ^ h'' + credit h'' n' \<le> 16 ^ h' + credit h' kid"
    using "3.IH" [of h'] "3.prems"(2) by auto
  moreover have "16 ^ h' + credit h' kid \<le> 16 ^ h + credit h (Internal bounds [kid])" using h by simp
  ultimately show ?case using le_trans by blast
qed (auto split: if_splits)

lemma node_modify_paid: "node_modify n path at f = Some n' \<Longrightarrow> bal h n' = bal h n \<and> credit h n' = credit h n"
proof (induction n path at f arbitrary: h n' rule: node_modify.induct)
  case (2 bounds kids path at f)
  then obtain i rest kid where p: "path = i # rest" and i: "i < length kids"
    "node_modify (kids ! i) rest at f = Some kid" "n' = Internal bounds (kids[i := kid])"
    by (auto split: list.splits if_splits bind_splits)
  have kid: "bal h' kid = bal h' (kids ! i)" "credit h' kid = credit h' (kids ! i)" for h'
    using "2.IH" [OF p i(1,2), of h'] by simp_all
  have "(\<forall>k\<in>set (kids[i := kid]). bal h' k) = (\<forall>k\<in>set kids. bal h' k)" for h'
    using kid(1) i(1) by (auto simp: all_set_conv_all_nth nth_list_update split: if_splits)
  moreover have "sum_list (map (credit h') (kids[i := kid])) = sum_list (map (credit h') kids)" for h'
    using kid(2) i(1) by (simp add: credit_kids_update credit_kids_split [of i kids])
  ultimately show ?case by (simp add: i(3))
qed (auto split: if_splits)


section \<open>Histories\<close>

text \<open>A map after a history of operations with \<open>n\<close> insertions among them.\<close>

inductive cow_map_run :: "nat \<Rightarrow> ('k::linorder, 'v) cow_map \<Rightarrow> bool" where
  run_new: "cow_map_run 0 cm_new"
| run_insert: "cow_map_run n m \<Longrightarrow> cm_insert m k v = Some (old, m') \<Longrightarrow> cow_map_run (Suc n) m'"
| run_modify: "cow_map_run n m \<Longrightarrow> cm_modify m k f = Some (Some m') \<Longrightarrow> cow_map_run n m'"
| run_remove: "cow_map_run n m \<Longrightarrow> cm_remove m k = Some (old, m') \<Longrightarrow> cow_map_run n m'"

definition afforded :: "nat \<Rightarrow> ('k, 'v) cow_map \<Rightarrow> bool" where
  "afforded n m \<longleftrightarrow> (case cm_root m of None \<Rightarrow> True | Some root \<Rightarrow> \<exists>h. bal h root \<and> 16 ^ h + credit h root \<le> n)"

lemma afforded_mono: "afforded n m \<Longrightarrow> n \<le> n' \<Longrightarrow> afforded n' m"
  by (cases "cm_root m") (auto simp: afforded_def intro: le_trans)

lemma afforded_height:
  assumes "afforded n m" and "n < 16 ^ Suc b"
  shows "cm_height m \<le> b"
proof (cases "cm_root m")
  case (Some root)
  then obtain h where h: "bal h root" "16 ^ h \<le> n" using assms(1) by (auto simp: afforded_def)
  then have "(16::nat) ^ h < 16 ^ Suc b" using assms(2) by linarith
  then have "h < Suc b" by (rule power_less_imp_less_exp [rotated]) simp
  then show ?thesis using height_le_bal [OF h(1)] Some by (simp add: cm_height_def)
qed (simp add: cm_height_def)

lemma afforded_insert:
  assumes "cm_inv m" and "afforded n m" and ins: "cm_insert m k v = Some (old, m')"
  shows "afforded (Suc n) m'"
proof (cases "cm_root m")
  case None
  with ins show ?thesis by (auto simp: cm_insert_def afforded_def)
next
  case (Some root)
  obtain h where h: "bal h root" "16 ^ h + credit h root \<le> n" using assms(2) Some by (auto simp: afforded_def)
  obtain split left where r: "insert_into root k v = Some (old, split, left)"
    using ins Some by (auto simp: cm_insert_def split: bind_splits)
  have p: "paid h (credit h root) split left"
    by (rule insert_into_paid [OF _ h(1) r, of None None]) (use assms(1) Some in \<open>simp add: cm_inv_def\<close>)
  show ?thesis
  proof (cases split)
    case None
    then have "cm_root m' = Some left" using ins Some r by (auto simp: cm_insert_def)
    moreover have "bal h left" "16 ^ h + credit h left \<le> Suc n" using p None h(2) by (simp_all add: paid_def)
    ultimately show ?thesis by (auto simp: afforded_def)
  next
    case (Some br)
    then obtain b right where br: "split = Some (b, right)" by (cases br) auto
    then obtain f where "cm_root m' = Some (Internal [f, b] [left, right])"
      using ins \<open>cm_root m = Some root\<close> r by (auto simp: cm_insert_def split: bind_splits)
    moreover have "bal (Suc h) (Internal [f, b] [left, right])"
      "16 ^ Suc h + credit (Suc h) (Internal [f, b] [left, right]) \<le> Suc n"
      using p br h(2) by (simp_all add: paid_def)
    ultimately show ?thesis unfolding afforded_def by fastforce
  qed
qed

lemma afforded_modify:
  assumes "afforded n m" and "cm_modify m k f = Some (Some m')"
  shows "afforded n m'"
proof -
  obtain path at root root' where "cm_root m = Some root" "node_modify root path at f = Some root'"
    "m' = m\<lparr>cm_root := Some root'\<rparr>"
    using assms(2) by (auto simp: cm_modify_def split: option.splits bind_splits)
  then show ?thesis using assms(1) node_modify_paid [of root path at f root'] by (auto simp: afforded_def)
qed

lemma afforded_remove:
  assumes "afforded n m" and "cm_remove m k = Some (old, m')"
  shows "afforded n m'"
proof (cases "m' = m")
  case False
  then obtain path at root old' root' where r: "cm_root m = Some root"
    "remove_at root path at = Some (old', root')" "cm_root m' = collapse root'"
    using assms(2) by (auto simp: cm_remove_def split: option.splits bind_splits)
  then obtain h where h: "bal h root'" "16 ^ h + credit h root' \<le> n"
    using assms(1) remove_at_paid [OF _ r(2)] by (fastforce simp: afforded_def)
  show ?thesis
  proof (cases "collapse root'")
    case (Some n')
    then show ?thesis using collapse_paid [OF h(1) Some] h(2) r(3) by (auto simp: afforded_def intro: le_trans)
  qed (simp add: afforded_def r(3))
qed (use assms(1) in simp)

lemma cow_map_run_ok:
  "cow_map_run n m \<Longrightarrow> n < 16 ^ 33 \<Longrightarrow> cm_inv m \<and> afforded n m"
proof (induction rule: cow_map_run.induct)
  case (run_insert n m k v old m')
  then show ?case using cm.ins_law [of m k v] afforded_insert by fastforce
next
  case (run_modify n m k f m')
  then have "cm_height m \<le> MAX_DEPTH" using afforded_height [of n m 32] by simp
  then show ?case using run_modify cm_modify_correct [of m k f] afforded_modify
    by (fastforce split: option.splits)
next
  case (run_remove n m k old m')
  then have "cm_height m \<le> MAX_DEPTH" using afforded_height [of n m 32] by simp
  then show ?case using run_remove cm.del_law [of m k] afforded_remove by fastforce
qed (auto simp: afforded_def, simp add: cm_new_def)

lemma cow_map_run_height: "cow_map_run n m \<Longrightarrow> n < 2 ^ 64 \<Longrightarrow> cm_height m \<le> 15"
  using cow_map_run_ok [of n m] afforded_height [of n m 15] by simp

lemma cow_map_run_room: "cow_map_run n m \<Longrightarrow> n < 2 ^ 64 \<Longrightarrow> cm_inv m \<and> cm_height m \<le> MAX_DEPTH"
  using cow_map_run_ok [of n m] cow_map_run_height [of n m] by simp

lemma cm_get_or_insert_with_correct:
  assumes "cm_inv m" and "\<And>m' old. cm_insert m k d = Some (old, m') \<Longrightarrow> cm_height m' \<le> MAX_DEPTH"
    and "cm_height m \<le> MAX_DEPTH"
  obtains m' where "cm_get_or_insert_with m k d f = Some m'" and "cm_inv m'"
    and "cm_entries m' = om_insert k (f (case map_of (cm_entries m) k of Some v \<Rightarrow> v | None \<Rightarrow> d)) (cm_entries m)"
proof (cases "map_of (cm_entries m) k")
  case None
  obtain m1 where m1: "cm_insert m k d = Some (None, m1)" "cm_inv m1" "cm_entries m1 = om_insert k d (cm_entries m)"
    using cm.ins_law [OF assms(1), of k d] None by auto
  then obtain m2 where "cm_modify m1 k f = Some (Some m2)" "cm_inv m2"
    "cm_entries m2 = om_insert k (f d) (om_insert k d (cm_entries m))"
    using cm_modify_correct [OF m1(2) assms(2) [OF m1(1)], of k f] by auto
  moreover have "om_insert k (f d) (om_insert k d (cm_entries m)) = om_insert k (f d) (cm_entries m)"
    by (rule om_ext) (use cm_inv_wf [OF assms(1)] in auto)
  ultimately show ?thesis using None m1(1) assms(1)
    by (intro that [of m2]) (auto simp: cm_get_or_insert_with_def cm_contains_key_def cm.get_law)
next
  case (Some v)
  then obtain m2 where "cm_modify m k f = Some (Some m2)" "cm_inv m2"
    "cm_entries m2 = om_insert k (f v) (cm_entries m)"
    using cm_modify_correct [OF assms(1,3), of k f] by auto
  then show ?thesis using Some assms(1)
    by (intro that [of m2]) (auto simp: cm_get_or_insert_with_def cm_contains_key_def cm.get_law)
qed


section \<open>Properties\<close>

text \<open>
  C1: after any history of operations with fewer than \<open>2^64\<close> insertions, no operation of the map
  panics, and each acts on the entries as on a sorted map: a lookup finds the value of the key, an
  insert reports the value it replaced and sets the key, \<open>get_or_insert_with\<close> changes the value
  or the default in place, and a removal reports the value it took and leaves the other keys.
\<close>

theorem cow_map_refines_sorted_map:
  assumes "cow_map_run n m" and "n + 1 < 2 ^ 64"
  shows "om_wf (cm_entries m) \<and> cm_len m = length (cm_entries m)
    \<and> cm_get m k = Some (map_of (cm_entries m) k)
    \<and> cm_contains_key m k = Some (k \<in> fst ` set (cm_entries m))
    \<and> (\<exists>m'. cm_insert m k v = Some (map_of (cm_entries m) k, m')
         \<and> cm_entries m' = om_insert k v (cm_entries m))
    \<and> (\<exists>m'. cm_get_or_insert_with m k v f = Some m'
         \<and> cm_entries m' = om_insert k (f (case map_of (cm_entries m) k of Some w \<Rightarrow> w | None \<Rightarrow> v)) (cm_entries m))
    \<and> (\<exists>m'. cm_remove m k = Some (map_of (cm_entries m) k, m')
         \<and> cm_entries m' = om_remove k (cm_entries m))"
proof -
  have inv: "cm_inv m" "cm_height m \<le> MAX_DEPTH" using cow_map_run_room [OF assms(1)] assms(2) by simp_all
  have h: "cm_height m' \<le> MAX_DEPTH" if "cm_insert m k v = Some (old, m')" for old m'
    using cow_map_run_room [OF run_insert [OF assms(1) that]] assms(2) by simp
  have "cm_contains_key m k = Some (k \<in> fst ` set (cm_entries m))"
    using om_get_None_iff [of "cm_entries m" k] by (simp add: cm_contains_key_def cm.get_law [OF inv(1)] del: not_None_eq)
  moreover obtain m' where "cm_get_or_insert_with m k v f = Some m'"
    "cm_entries m' = om_insert k (f (case map_of (cm_entries m) k of Some w \<Rightarrow> w | None \<Rightarrow> v)) (cm_entries m)"
    by (rule cm_get_or_insert_with_correct [of m k v f]) (use inv h in auto)
  moreover have "cm_len m = length (cm_entries m)" using inv(1) by (simp add: cm_inv_def)
  ultimately show ?thesis
    using cm.wf_law [OF inv(1)] cm.get_law [OF inv(1)] cm.ins_law [OF inv(1), of k v] cm.del_law [OF inv, of k]
    by blast
qed

theorem cow_map_refines_sorted_map_witness:
  "\<exists>m'. cm_remove (cm_new :: (nat, nat) cow_map) 5 = Some (None, m') \<and> cm_entries m' = []"
  using cow_map_refines_sorted_map [OF run_new, of "5::nat" "7::nat" Suc] by (auto simp: om_remove_def)

text \<open>
  C22: a history with \<open>n\<close> insertions, whatever it removed, leaves a tree of height \<open>h\<close> with \<open>16^h \<le> n\<close>;
  so below \<open>2^64\<close> insertions the height is at most 15 and the 32 bytes of a path are enough.
\<close>

theorem cow_map_depth_bounded:
  assumes "cow_map_run n m" and "n < 2 ^ 64"
  shows "16 ^ cm_height m \<le> max 1 n \<and> cm_height m \<le> 15 \<and> (\<exists>r. cm_find m k = Some r)"
proof -
  have ok: "cm_inv m" "afforded n m" using cow_map_run_ok [OF assms(1)] assms(2) by simp_all
  have "16 ^ cm_height m \<le> max 1 n"
  proof (cases "cm_root m")
    case (Some root)
    then obtain h where h: "bal h root" "16 ^ h \<le> n" using ok(2) by (auto simp: afforded_def)
    have "(16::nat) ^ cm_height m \<le> 16 ^ h"
      using height_le_bal [OF h(1)] Some by (intro power_increasing) (simp_all add: cm_height_def)
    with h(2) show ?thesis by linarith
  qed (simp add: cm_height_def)
  moreover have "\<exists>r. cm_find m k = Some r"
    using cm_find_correct [of m k] cow_map_run_room [OF assms] by (auto split: if_splits)
  ultimately show ?thesis using cow_map_run_height [OF assms] by simp
qed

theorem cow_map_depth_bounded_witness:
  "16 ^ cm_height (cm_new :: (nat, nat) cow_map) \<le> max 1 (0::nat)"
  using cow_map_depth_bounded [OF run_new, of "3::nat"] by auto

lemma cow_map_collects_aux:
  "\<exists>m. cm_from_iter es = Some m \<and> cm_inv m \<and> om_wf (cm_entries m)
     \<and> map_of (cm_entries m) = map_of (rev es) \<and> (\<forall>k. cm_get m k = Some (map_of (rev es) k))"
proof -
  obtain m where m: "cm_from_iter es = Some m" "cm_inv m"
    "cm_entries m = foldl (\<lambda>l (k, v). om_insert k v l) [] es"
    using cm.ins_all [OF cm_inv_new(1), of es] by (auto simp: cm_from_iter_def)
  moreover have "map_of (cm_entries m) = map_of (rev es)"
    unfolding m(3) by (rule ext) (simp add: foldl_om_insert_lookup split: option.split)
  ultimately show ?thesis using cm.wf_law [OF m(2)] cm.get_law [OF m(2)] by simp
qed

text \<open>
  collecting entries into a map never panics, and the map holds, in key order, each key with
  the last value given for it.
\<close>

theorem cow_map_collects:
  "\<exists>m. cm_from_iter es = Some m \<and> cm_inv m \<and> om_wf (cm_entries m)
     \<and> map_of (cm_entries m) = map_of (rev es) \<and> (\<forall>k. cm_get m k = Some (map_of (rev es) k))"
  by (rule cow_map_collects_aux)

end
