(* ===== verification/Cow_Map_Bounds.thy ===== *)
theory Cow_Map_Bounds
  imports Cow_Map_Depth
begin

text \<open>
  A reachable \<open>CowMap\<close> whose root holds bounds out of order, and what \<open>route\<close> does on it.
\<close>





end
