(* ===== verification/Cow_Map_Range.thy ===== *)
theory Cow_Map_Range
  imports Cow_Map
begin

text \<open>
  The iterators of \<open>CowMap\<close> (\<open>Range\<close> and \<open>RevRange\<close> in \<open>crates/core-storage/src/cow.rs\<close>): a stack of
  the internal nodes above the current leaf, each with the next child to visit, and what is left
  of the leaf. The theorems say that \<open>range\<close> yields exactly the entries within its bounds in
  ascending key order, \<open>range_rev\<close> the same entries descending, and that both panic exactly on an
  inverted range.
\<close>

datatype 'k bound = Included 'k | Excluded 'k | Unbounded

type_synonym ('k, 'v) frame = "('k, 'v) node list \<times> nat"

record ('k, 'v) range_iter =
  it_stack :: "('k, 'v) frame list"
  it_keys :: "'k list"
  it_vals :: "'v list"
  it_end :: "'k bound"

record ('k, 'v) rev_iter =
  rit_stack :: "('k, 'v) frame list"
  rit_keys :: "'k list"
  rit_vals :: "'v list"
  rit_start :: "'k bound"

text \<open>The assertion both constructors open with.\<close>

fun range_valid :: "'k::linorder bound \<Rightarrow> 'k bound \<Rightarrow> bool" where
  "range_valid (Included s) (Included e) \<longleftrightarrow> s < e \<or> s = e"
| "range_valid (Included s) (Excluded e) \<longleftrightarrow> s < e \<or> s = e"
| "range_valid (Excluded s) (Included e) \<longleftrightarrow> s < e \<or> s = e"
| "range_valid (Excluded s) (Excluded e) \<longleftrightarrow> s < e"
| "range_valid _ _ \<longleftrightarrow> True"


section \<open>Ascending\<close>

text \<open>The leaf the iteration starts in, with the stack above it (top first).\<close>

fun range_seek :: "('k::linorder, 'v) node \<Rightarrow> 'k bound \<Rightarrow> ('k, 'v) frame list
    \<Rightarrow> (('k, 'v) frame list \<times> 'k list \<times> 'v list) option" where
  "range_seek (Internal bounds kids) start stack =
     (let i = (case start of Included k \<Rightarrow> route bounds k | Excluded k \<Rightarrow> route bounds k | Unbounded \<Rightarrow> 0)
      in if i < length kids then range_seek (kids ! i) start ((kids, i + 1) # stack) else None)"
| "range_seek (Leaf keys vals) start stack =
     (let from = (case start of
          Included k \<Rightarrow> partition_point (\<lambda>x. x < k) keys
        | Excluded k \<Rightarrow> partition_point (\<lambda>x. x \<le> k) keys
        | Unbounded \<Rightarrow> 0)
      in if from \<le> length keys \<and> from \<le> length vals then Some (stack, drop from keys, drop from vals) else None)"

definition cm_range :: "('k::linorder, 'v) cow_map \<Rightarrow> 'k bound \<Rightarrow> 'k bound \<Rightarrow> ('k, 'v) range_iter option" where
  "cm_range m start stop =
     (if \<not> range_valid start stop then None
      else case cm_root m of
        None \<Rightarrow> Some \<lparr>it_stack = [], it_keys = [], it_vals = [], it_end = stop\<rparr>
      | Some root \<Rightarrow> do {
          (stack, keys, vals) \<leftarrow> range_seek root start [];
          Some \<lparr>it_stack = stack, it_keys = keys, it_vals = vals, it_end = stop\<rparr> })"

definition past_end :: "'k::linorder bound \<Rightarrow> 'k \<Rightarrow> bool" where
  "past_end stop k = (case stop of Included e \<Rightarrow> k > e | Excluded e \<Rightarrow> k \<ge> e | Unbounded \<Rightarrow> False)"

text \<open>The leftmost leaf under a node, pushing the nodes on the way.\<close>

fun leftmost :: "('k, 'v) node \<Rightarrow> ('k, 'v) frame list \<Rightarrow> (('k, 'v) frame list \<times> 'k list \<times> 'v list) option" where
  "leftmost (Leaf keys vals) stack = Some (stack, keys, vals)"
| "leftmost (Internal bounds kids) stack =
     (if 0 < length kids then leftmost (kids ! 0) ((kids, 1) # stack) else None)"

definition kids_weight :: "('k, 'v) node list \<Rightarrow> nat" where
  "kids_weight kids = sum_list (map (\<lambda>n. Suc (size n)) kids)"

definition frames_weight :: "('k, 'v) frame list \<Rightarrow> nat" where
  "frames_weight fs = sum_list (map (\<lambda>(kids, nxt). Suc (kids_weight (drop nxt kids))) fs)"

lemma size_internal: "Suc (kids_weight kids) \<le> size (Internal bounds kids)"
  by (induction kids) (simp_all add: kids_weight_def size_list_conv_sum_list)

lemma kids_weight_drop: "i < length kids \<Longrightarrow> kids_weight (drop i kids) = Suc (size (kids ! i)) + kids_weight (drop (Suc i) kids)"
  by (simp add: kids_weight_def flip: Cons_nth_drop_Suc)

lemma leftmost_weight:
  "leftmost n stack = Some (stack', ks, vs) \<Longrightarrow> frames_weight stack' \<le> frames_weight stack + size n"
proof (induction n stack rule: leftmost.induct)
  case (2 bounds kids stack)
  then show ?case using kids_weight_drop [of 0 kids] size_internal [of kids bounds]
    by (auto simp: frames_weight_def split: if_splits)
qed simp

text \<open>The loop of \<open>next\<close>: the item, if any, and the iterator's stack and leaf after it.\<close>

function range_loop :: "'k::linorder bound \<Rightarrow> ('k, 'v) frame list \<Rightarrow> 'k list \<Rightarrow> 'v list
    \<Rightarrow> (('k \<times> 'v) option \<times> ('k, 'v) frame list \<times> 'k list \<times> 'v list) option" where
  "range_loop stop stack (k # keys) (v # vals) =
     (if past_end stop k then Some (None, [], [], []) else Some (Some (k, v), stack, keys, vals))"
| "range_loop stop [] [] vals = Some (None, [], [], vals)"
| "range_loop stop [] keys [] = Some (None, [], keys, [])"
| "range_loop stop ((kids, nxt) # stack) [] vals =
     (if nxt \<ge> length kids then range_loop stop stack [] vals
      else case leftmost (kids ! nxt) ((kids, nxt + 1) # stack) of
        None \<Rightarrow> None
      | Some (stack', keys', vals') \<Rightarrow> range_loop stop stack' keys' vals')"
| "range_loop stop ((kids, nxt) # stack) (k # keys) [] =
     (if nxt \<ge> length kids then range_loop stop stack (k # keys) []
      else case leftmost (kids ! nxt) ((kids, nxt + 1) # stack) of
        None \<Rightarrow> None
      | Some (stack', keys', vals') \<Rightarrow> range_loop stop stack' keys' vals')"
  by pat_completeness auto
termination
proof (relation "measure (\<lambda>(stop, stack, keys, vals). frames_weight stack)", goal_cases)
  case (3 stop kids nxt stack vals x stack' y keys' vals')
  then show ?case
    using leftmost_weight [of "kids ! nxt" "(kids, nxt + 1) # stack" stack' keys' vals'] kids_weight_drop [of nxt kids]
    by (auto simp: frames_weight_def)
next
  case (5 stop kids nxt stack k keys x stack' y keys' vals')
  then show ?case
    using leftmost_weight [of "kids ! nxt" "(kids, nxt + 1) # stack" stack' keys' vals'] kids_weight_drop [of nxt kids]
    by (auto simp: frames_weight_def)
qed (auto simp: frames_weight_def)

definition range_next :: "('k::linorder, 'v) range_iter \<Rightarrow> (('k \<times> 'v) option \<times> ('k, 'v) range_iter) option" where
  "range_next it = do {
     (item, stack, keys, vals) \<leftarrow> range_loop (it_end it) (it_stack it) (it_keys it) (it_vals it);
     Some (item, it\<lparr>it_stack := stack, it_keys := keys, it_vals := vals\<rparr>) }"

text \<open>Draining an iterator, asking at most \<open>fuel\<close> times.\<close>

fun range_collect :: "nat \<Rightarrow> ('k::linorder, 'v) range_iter \<Rightarrow> ('k \<times> 'v) list option" where
  "range_collect 0 it = None"
| "range_collect (Suc fuel) it = do {
     (item, it') \<leftarrow> range_next it;
     case item of None \<Rightarrow> Some [] | Some e \<Rightarrow> map_option ((#) e) (range_collect fuel it') }"


subsection \<open>What is left to yield\<close>

definition frames_entries :: "('k, 'v) frame list \<Rightarrow> ('k, 'v) omap" where
  "frames_entries fs = concat (map (\<lambda>(kids, nxt). concat (map entries (drop nxt kids))) fs)"

definition frames_ok :: "('k::linorder, 'v) frame list \<Rightarrow> bool" where
  "frames_ok fs \<longleftrightarrow> (\<forall>(kids, nxt)\<in>set fs. \<forall>kid\<in>set kids. \<exists>lo hi. node_ok lo hi kid)"

lemma frames_entries_simps [simp]:
  "frames_entries [] = []"
  "frames_entries ((kids, nxt) # fs) = concat (map entries (drop nxt kids)) @ frames_entries fs"
  by (simp_all add: frames_entries_def)

lemma frames_ok_simps [simp]:
  "frames_ok []"
  "frames_ok ((kids, nxt) # fs) \<longleftrightarrow> (\<forall>kid\<in>set kids. \<exists>lo hi. node_ok lo hi kid) \<and> frames_ok fs"
  by (simp_all add: frames_ok_def)

lemma node_ok_kids: "node_ok lo hi (Internal bounds kids) \<Longrightarrow> \<forall>kid\<in>set kids. \<exists>lo hi. node_ok lo hi kid"
  by (metis in_set_conv_nth node_ok_kid)

lemma leftmost_correct:
  "node_ok lo hi n \<Longrightarrow> frames_ok stack \<Longrightarrow>
   \<exists>stack' ks vs. leftmost n stack = Some (stack', ks, vs) \<and> frames_ok stack' \<and> length ks = length vs
     \<and> zip ks vs @ frames_entries stack' = entries n @ frames_entries stack"
proof (induction n stack arbitrary: lo hi rule: leftmost.induct)
  case (2 bounds kids stack)
  have k: "0 < length kids" using "2.prems"(1) by auto
  have "frames_ok ((kids, 1) # stack)" using node_ok_kids [OF "2.prems"(1)] "2.prems"(2) by simp
  from "2.IH" [OF k node_ok_kid [OF "2.prems"(1) k] this] show ?case
    using entries_around [OF k] k by auto
qed auto

definition yield :: "'k::linorder bound \<Rightarrow> ('k, 'v) omap \<Rightarrow> ('k \<times> 'v) option" where
  "yield stop es = (case es of [] \<Rightarrow> None | e # _ \<Rightarrow> if past_end stop (fst e) then None else Some e)"

lemma range_loop_correct:
  "frames_ok stack \<Longrightarrow> length keys = length vals \<Longrightarrow>
   \<exists>stack' ks vs. range_loop stop stack keys vals = Some (yield stop (zip keys vals @ frames_entries stack), stack', ks, vs)
     \<and> frames_ok stack' \<and> length ks = length vs
     \<and> (yield stop (zip keys vals @ frames_entries stack) \<noteq> None \<longrightarrow>
          zip ks vs @ frames_entries stack' = tl (zip keys vals @ frames_entries stack))"
proof (induction stop stack keys vals rule: range_loop.induct)
  case (4 stop kids nxt stack vals)
  show ?case
  proof (cases "nxt < length kids")
    case True
    then obtain lo hi where "node_ok lo hi (kids ! nxt)" using "4.prems"(1) nth_mem by fastforce
    moreover have "frames_ok ((kids, nxt + 1) # stack)" using "4.prems"(1) by simp
    ultimately obtain stack' ks vs where l: "leftmost (kids ! nxt) ((kids, nxt + 1) # stack) = Some (stack', ks, vs)"
      "frames_ok stack'" "length ks = length vs"
      "zip ks vs @ frames_entries stack' = entries (kids ! nxt) @ frames_entries ((kids, nxt + 1) # stack)"
      using leftmost_correct by blast
    have "entries (kids ! nxt) @ frames_entries ((kids, nxt + 1) # stack) = frames_entries ((kids, nxt) # stack)"
      using True by (simp flip: Cons_nth_drop_Suc)
    with l(4) have eq: "zip ks vs @ frames_entries stack' = frames_entries ((kids, nxt) # stack)" by simp
    show ?thesis using "4.IH"(2) [OF _ l(1) refl refl l(2,3), unfolded eq] True l(1)
      by (simp del: frames_entries_simps(2))
  next
    case False
    then show ?thesis using 4 by simp
  qed
qed (auto simp: yield_def)

definition it_entries :: "('k, 'v) range_iter \<Rightarrow> ('k, 'v) omap" where
  "it_entries it = zip (it_keys it) (it_vals it) @ frames_entries (it_stack it)"

definition it_ok :: "('k::linorder, 'v) range_iter \<Rightarrow> bool" where
  "it_ok it \<longleftrightarrow> frames_ok (it_stack it) \<and> length (it_keys it) = length (it_vals it)"

lemma range_next_correct:
  assumes "it_ok it"
  obtains it' where "range_next it = Some (yield (it_end it) (it_entries it), it')" and "it_ok it'"
    and "it_end it' = it_end it" and "yield (it_end it) (it_entries it) \<noteq> None \<Longrightarrow> it_entries it' = tl (it_entries it)"
  using range_loop_correct [of "it_stack it" "it_keys it" "it_vals it" "it_end it"] assms
  by (fastforce simp: range_next_def it_ok_def it_entries_def)

lemma range_collect_correct:
  "it_ok it \<Longrightarrow> length (takeWhile (\<lambda>e. \<not> past_end (it_end it) (fst e)) (it_entries it)) < fuel \<Longrightarrow>
   range_collect fuel it = Some (takeWhile (\<lambda>e. \<not> past_end (it_end it) (fst e)) (it_entries it))"
proof (induction fuel arbitrary: it)
  case (Suc fuel)
  obtain it' where it': "range_next it = Some (yield (it_end it) (it_entries it), it')" "it_ok it'"
    "it_end it' = it_end it" "yield (it_end it) (it_entries it) \<noteq> None \<Longrightarrow> it_entries it' = tl (it_entries it)"
    by (rule range_next_correct [OF Suc.prems(1)]) blast
  show ?case
  proof (cases "yield (it_end it) (it_entries it)")
    case None
    then show ?thesis using it'(1) by (auto simp: yield_def split: list.splits if_splits)
  next
    case (Some e)
    then obtain es where "it_entries it = e # es" "\<not> past_end (it_end it) (fst e)"
      by (auto simp: yield_def split: list.splits if_splits)
    then show ?thesis using Suc it' Some by simp
  qed
qed simp


subsection \<open>Seeking the start\<close>

definition before_start :: "'k::linorder bound \<Rightarrow> 'k \<Rightarrow> bool" where
  "before_start start k = (case start of Included s \<Rightarrow> k < s | Excluded s \<Rightarrow> k \<le> s | Unbounded \<Rightarrow> False)"

lemma dropWhile_around:
  assumes "\<And>x. x \<in> set xs \<Longrightarrow> P x" and "\<And>x. x \<in> set zs \<Longrightarrow> \<not> P x"
  shows "dropWhile P (xs @ ys @ zs) = dropWhile P ys @ zs"
proof -
  have "dropWhile P (xs @ ys @ zs) = dropWhile P (ys @ zs)" using assms(1) by (simp add: dropWhile_append1 dropWhile_append2)
  also have "\<dots> = dropWhile P ys @ zs"
    using assms(2) by (induction ys) (cases zs, simp_all)
  finally show ?thesis .
qed

lemma drop_partition_point:
  assumes "strict keys" and "length keys = length vals"
    and p: "\<And>x y. x \<le> y \<Longrightarrow> p y \<Longrightarrow> p x"
  shows "partition_point p keys \<le> length keys"
    and "zip (drop (partition_point p keys) keys) (drop (partition_point p keys) vals)
      = dropWhile (p \<circ> fst) (zip keys vals)"
    and "zip (take (partition_point p keys) keys) (take (partition_point p keys) vals)
      = takeWhile (p \<circ> fst) (zip keys vals)"
proof -
  have pp: "partition_point p keys = length (takeWhile p keys)"
    by (rule partition_point_takeWhile) (use p strict_sorted [OF assms(1)] in \<open>blast intro: sorted_nth_mono\<close>)
  have "takeWhile p keys = map fst (takeWhile (p \<circ> fst) (zip keys vals))"
    using assms(2) by (metis map_fst_zip takeWhile_map)
  then have len: "length (takeWhile p keys) = length (takeWhile (p \<circ> fst) (zip keys vals))" by simp
  show "partition_point p keys \<le> length keys" by (simp add: pp length_takeWhile_le)
  show "zip (drop (partition_point p keys) keys) (drop (partition_point p keys) vals) = dropWhile (p \<circ> fst) (zip keys vals)"
    unfolding pp len dropWhile_eq_drop by (simp add: drop_zip)
  show "zip (take (partition_point p keys) keys) (take (partition_point p keys) vals) = takeWhile (p \<circ> fst) (zip keys vals)"
    unfolding pp len by (subst (3) takeWhile_eq_take) (simp add: take_zip)
qed

fun bound_key :: "'k bound \<Rightarrow> 'k" where
  "bound_key (Included k) = k"
| "bound_key (Excluded k) = k"
| "bound_key Unbounded = undefined"

lemma range_seek_correct:
  "node_ok lo hi n \<Longrightarrow> frames_ok stack \<Longrightarrow>
   \<exists>stack' ks vs. range_seek n start stack = Some (stack', ks, vs) \<and> frames_ok stack' \<and> length ks = length vs
     \<and> zip ks vs @ frames_entries stack'
       = dropWhile (before_start start \<circ> fst) (entries n) @ frames_entries stack"
proof (induction n start stack arbitrary: lo hi rule: range_seek.induct)
  case (1 bounds kids start stack)
  note sep = node_ok_sep [OF "1.prems"(1)]
  define i where "i = (case start of Included k \<Rightarrow> route bounds k | Excluded k \<Rightarrow> route bounds k | Unbounded \<Rightarrow> 0)"
  have i: "i < length kids" using "1.prems"(1) route_correct(1) [OF sep] by (auto simp: i_def split: bound.split)
  have "frames_ok ((kids, i + 1) # stack)" using node_ok_kids [OF "1.prems"(1)] "1.prems"(2) by simp
  note IH = "1.IH" [OF i_def i node_ok_kid [OF "1.prems"(1) i] this]
  have "dropWhile (before_start start \<circ> fst) (entries (Internal bounds kids))
      = dropWhile (before_start start \<circ> fst) (entries (kids ! i)) @ concat (map entries (drop (Suc i) kids))"
    unfolding entries.simps entries_around [OF i]
  proof (rule dropWhile_around)
    show "(before_start start \<circ> fst) e" if "e \<in> set (concat (map entries (take i kids)))" for e
      using that route_before [OF sep, of e "bound_key start"]
      by (cases start) (simp_all add: i_def before_start_def)
    show "\<not> (before_start start \<circ> fst) e" if "e \<in> set (concat (map entries (drop (Suc i) kids)))" for e
      using that route_after [OF sep, of e "bound_key start"]
      by (cases start) (simp_all add: i_def before_start_def not_less not_le)
  qed
  then show ?case using IH i by (simp add: i_def [symmetric] Let_def comp_def)
next
  case (2 keys vals start stack)
  then have k: "strict keys" "length keys = length vals" by auto
  show ?case
  proof (cases start)
    case (Included s)
    then show ?thesis using drop_partition_point [OF k, of "\<lambda>x. x < s"] k "2.prems"(2) le_less_trans
      by (auto simp: before_start_def comp_def Let_def)
  next
    case (Excluded s)
    then show ?thesis using drop_partition_point [OF k, of "\<lambda>x. x \<le> s"] k "2.prems"(2) order_trans
      by (auto simp: before_start_def comp_def Let_def)
  qed (use k "2.prems"(2) in \<open>simp add: before_start_def comp_def\<close>)
qed

text \<open>On sorted entries, skipping to the start and stopping at the end is filtering.\<close>

lemma takeWhile_sorted_filter:
  "om_wf es \<Longrightarrow> (\<And>x y. x \<le> y \<Longrightarrow> p x \<Longrightarrow> p y) \<Longrightarrow> takeWhile (\<lambda>e. \<not> p (fst e)) es = filter (\<lambda>e. \<not> p (fst e)) es"
proof (induction es)
  case (Cons e es)
  have "filter (\<lambda>e. \<not> p (fst e)) es = []" if "p (fst e)"
    using Cons.prems that by (auto simp: strict_simps filter_empty_conv intro: less_imp_le)
  then show ?case using Cons by (simp add: strict_simps)
qed simp

lemma dropWhile_sorted_filter:
  "om_wf es \<Longrightarrow> (\<And>x y. x \<le> y \<Longrightarrow> p y \<Longrightarrow> p x) \<Longrightarrow> dropWhile (p \<circ> fst) es = filter (\<lambda>e. \<not> p (fst e)) es"
proof (induction es)
  case (Cons e es)
  have "filter (\<lambda>e. \<not> p (fst e)) es = es" if "\<not> p (fst e)"
    using Cons.prems that by (auto simp: strict_simps filter_id_conv intro: less_imp_le)
  then show ?case using Cons by (simp add: strict_simps)
qed simp

lemma past_end_mono: "x \<le> y \<Longrightarrow> past_end stop x \<Longrightarrow> past_end stop y"
  by (auto simp: past_end_def split: bound.splits)

lemma before_start_mono: "x \<le> y \<Longrightarrow> before_start start y \<Longrightarrow> before_start start x"
  by (auto simp: before_start_def split: bound.splits)

definition in_range :: "'k::linorder bound \<Rightarrow> 'k bound \<Rightarrow> 'k \<Rightarrow> bool" where
  "in_range start stop k \<longleftrightarrow> \<not> before_start start k \<and> \<not> past_end stop k"

lemma om_wf_filter: "om_wf es \<Longrightarrow> om_wf (filter P es)"
  by (induction es) (auto simp: strict_simps)

lemma cm_range_correct:
  assumes "cm_inv m"
  shows "cm_range m start stop = None \<longleftrightarrow> \<not> range_valid start stop"
    and "cm_range m start stop = Some it \<Longrightarrow> length (cm_entries m) < fuel \<Longrightarrow>
      range_collect fuel it = Some (filter (\<lambda>e. in_range start stop (fst e)) (cm_entries m))"
proof -
  let ?es = "dropWhile (before_start start \<circ> fst) (cm_entries m)"
  have it: "\<exists>it. cm_range m start stop = Some it \<and> it_ok it \<and> it_end it = stop \<and> it_entries it = ?es"
    if "range_valid start stop"
  proof (cases "cm_root m")
    case (Some root)
    then have "node_ok None None root" using assms by (simp add: cm_inv_def)
    then show ?thesis using range_seek_correct [of None None root "[]" start] Some that
      by (auto simp: cm_range_def it_ok_def it_entries_def cm_entries_def)
  qed (use that in \<open>simp add: cm_range_def it_ok_def it_entries_def cm_entries_def\<close>)
  then show "cm_range m start stop = None \<longleftrightarrow> \<not> range_valid start stop"
    by (cases "range_valid start stop") (auto simp: cm_range_def)
  assume r: "cm_range m start stop = Some it" and fuel: "length (cm_entries m) < fuel"
  then have "range_valid start stop" by (auto simp: cm_range_def split: if_splits)
  with it r have it: "it_ok it" "it_end it = stop" "it_entries it = ?es" by auto
  have wf: "om_wf (cm_entries m)" by (rule cm_inv_wf [OF assms])
  have "?es = filter (\<lambda>e. \<not> before_start start (fst e)) (cm_entries m)"
    by (rule dropWhile_sorted_filter [OF wf before_start_mono])
  then have tw: "takeWhile (\<lambda>e. \<not> past_end stop (fst e)) ?es = filter (\<lambda>e. in_range start stop (fst e)) (cm_entries m)"
    using takeWhile_sorted_filter [OF om_wf_filter [OF wf], of "past_end stop", OF past_end_mono]
    by (simp add: in_range_def conj_commute)
  then have "length (takeWhile (\<lambda>e. \<not> past_end stop (fst e)) ?es) < fuel"
    using fuel length_filter_le le_less_trans by metis
  then show "range_collect fuel it = Some (filter (\<lambda>e. in_range start stop (fst e)) (cm_entries m))"
    using range_collect_correct [OF it(1), of fuel] it tw by simp
qed



section \<open>Descending\<close>

fun rev_seek :: "('k::linorder, 'v) node \<Rightarrow> 'k bound \<Rightarrow> ('k, 'v) frame list
    \<Rightarrow> (('k, 'v) frame list \<times> 'k list \<times> 'v list) option" where
  "rev_seek (Internal bounds kids) stop stack =
     (let i = (case stop of Included k \<Rightarrow> route bounds k | Excluded k \<Rightarrow> route bounds k | Unbounded \<Rightarrow> length kids - 1)
      in if i < length kids then rev_seek (kids ! i) stop ((kids, i) # stack) else None)"
| "rev_seek (Leaf keys vals) stop stack =
     (let to = (case stop of
          Included k \<Rightarrow> partition_point (\<lambda>x. x \<le> k) keys
        | Excluded k \<Rightarrow> partition_point (\<lambda>x. x < k) keys
        | Unbounded \<Rightarrow> length keys)
      in if to \<le> length keys \<and> to \<le> length vals then Some (stack, take to keys, take to vals) else None)"

definition cm_range_rev :: "('k::linorder, 'v) cow_map \<Rightarrow> 'k bound \<Rightarrow> 'k bound \<Rightarrow> ('k, 'v) rev_iter option" where
  "cm_range_rev m start stop =
     (if \<not> range_valid start stop then None
      else case cm_root m of
        None \<Rightarrow> Some \<lparr>rit_stack = [], rit_keys = [], rit_vals = [], rit_start = start\<rparr>
      | Some root \<Rightarrow> do {
          (stack, keys, vals) \<leftarrow> rev_seek root stop [];
          Some \<lparr>rit_stack = stack, rit_keys = keys, rit_vals = vals, rit_start = start\<rparr> })"

definition past_start :: "'k::linorder bound \<Rightarrow> 'k \<Rightarrow> bool" where
  "past_start start k = (case start of Included s \<Rightarrow> k < s | Excluded s \<Rightarrow> k \<le> s | Unbounded \<Rightarrow> False)"

fun rightmost :: "('k, 'v) node \<Rightarrow> ('k, 'v) frame list \<Rightarrow> (('k, 'v) frame list \<times> 'k list \<times> 'v list) option" where
  "rightmost (Leaf keys vals) stack = Some (stack, keys, vals)"
| "rightmost (Internal bounds kids) stack =
     (if 0 < length kids
      then let last = length kids - 1 in rightmost (kids ! last) ((kids, last) # stack)
      else None)"

definition rev_weight :: "('k, 'v) frame list \<Rightarrow> nat" where
  "rev_weight fs = sum_list (map (\<lambda>(kids, left). Suc (kids_weight (take left kids))) fs)"

lemma kids_weight_take: "i < length kids \<Longrightarrow> kids_weight (take (Suc i) kids) = kids_weight (take i kids) + Suc (size (kids ! i))"
  by (simp add: kids_weight_def take_Suc_conv_app_nth)

lemma rightmost_weight:
  "rightmost n stack = Some (stack', ks, vs) \<Longrightarrow> rev_weight stack' \<le> rev_weight stack + size n"
proof (induction n stack rule: rightmost.induct)
  case (2 bounds kids stack)
  then show ?case using kids_weight_take [of "length kids - 1" kids] size_internal [of kids bounds]
    by (auto simp: rev_weight_def Let_def split: if_splits)
qed simp

text \<open>A frame whose count is past the end of its children would be an index out of bounds.\<close>

function rev_loop :: "'k::linorder bound \<Rightarrow> ('k, 'v) frame list \<Rightarrow> 'k list \<Rightarrow> 'v list
    \<Rightarrow> (('k \<times> 'v) option \<times> ('k, 'v) frame list \<times> 'k list \<times> 'v list) option" where
  "rev_loop start stack keys vals =
     (if keys \<noteq> [] \<and> vals \<noteq> []
      then if past_start start (last keys) then Some (None, [], [], [])
           else Some (Some (last keys, last vals), stack, butlast keys, butlast vals)
      else case stack of
        [] \<Rightarrow> Some (None, [], keys, vals)
      | (kids, left) # stack' \<Rightarrow>
          if left = 0 then rev_loop start stack' keys vals
          else if left - 1 < length kids
          then (case rightmost (kids ! (left - 1)) ((kids, left - 1) # stack') of
             None \<Rightarrow> None
           | Some (stack'', keys', vals') \<Rightarrow> rev_loop start stack'' keys' vals')
          else None)"
  by pat_completeness auto
termination
proof (relation "measure (\<lambda>(start, stack, keys, vals). rev_weight stack)", goal_cases)
  case (3 start stack keys vals f stack' kids left r stack'' y keys' vals')
  then show ?case
    using rightmost_weight [of "kids ! (left - 1)" "(kids, left - 1) # stack'" stack'' keys' vals']
      kids_weight_take [of "left - 1" kids] by (auto simp: rev_weight_def)
qed (auto simp: rev_weight_def)

declare rev_loop.simps [simp del]

definition rev_next :: "('k::linorder, 'v) rev_iter \<Rightarrow> (('k \<times> 'v) option \<times> ('k, 'v) rev_iter) option" where
  "rev_next it = do {
     (item, stack, keys, vals) \<leftarrow> rev_loop (rit_start it) (rit_stack it) (rit_keys it) (rit_vals it);
     Some (item, it\<lparr>rit_stack := stack, rit_keys := keys, rit_vals := vals\<rparr>) }"

fun rev_collect :: "nat \<Rightarrow> ('k::linorder, 'v) rev_iter \<Rightarrow> ('k \<times> 'v) list option" where
  "rev_collect 0 it = None"
| "rev_collect (Suc fuel) it = do {
     (item, it') \<leftarrow> rev_next it;
     case item of None \<Rightarrow> Some [] | Some e \<Rightarrow> map_option ((#) e) (rev_collect fuel it') }"


subsection \<open>What is left to yield\<close>

definition rev_entries :: "('k, 'v) frame list \<Rightarrow> ('k, 'v) omap" where
  "rev_entries fs = concat (map (\<lambda>(kids, left). rev (concat (map entries (take left kids)))) fs)"

definition rev_frames_ok :: "('k::linorder, 'v) frame list \<Rightarrow> bool" where
  "rev_frames_ok fs \<longleftrightarrow> frames_ok fs \<and> (\<forall>(kids, left)\<in>set fs. left \<le> length kids)"

lemma rev_entries_simps [simp]:
  "rev_entries [] = []"
  "rev_entries ((kids, left) # fs) = rev (concat (map entries (take left kids))) @ rev_entries fs"
  by (simp_all add: rev_entries_def)

lemma rev_frames_ok_simps [simp]:
  "rev_frames_ok []"
  "rev_frames_ok ((kids, left) # fs) \<longleftrightarrow>
     left \<le> length kids \<and> (\<forall>kid\<in>set kids. \<exists>lo hi. node_ok lo hi kid) \<and> rev_frames_ok fs"
  by (auto simp: rev_frames_ok_def)

lemma rightmost_correct:
  "node_ok lo hi n \<Longrightarrow> rev_frames_ok stack \<Longrightarrow>
   \<exists>stack' ks vs. rightmost n stack = Some (stack', ks, vs) \<and> rev_frames_ok stack' \<and> length ks = length vs
     \<and> rev (zip ks vs) @ rev_entries stack' = rev (entries n) @ rev_entries stack"
proof (induction n stack arbitrary: lo hi rule: rightmost.induct)
  case (2 bounds kids stack)
  let ?l = "length kids - 1"
  have "kids \<noteq> []" using "2.prems"(1) by simp
  then have k: "0 < length kids" "?l < length kids" "Suc ?l = length kids" by (cases kids; simp)+
  have "rev_frames_ok ((kids, ?l) # stack)" using node_ok_kids [OF "2.prems"(1)] "2.prems"(2) by simp
  from "2.IH" [OF k(1) refl node_ok_kid [OF "2.prems"(1) k(2)] this] show ?case
    using entries_around [OF k(2)] k by (auto simp: Let_def)
qed auto

definition rev_yield :: "'k::linorder bound \<Rightarrow> ('k, 'v) omap \<Rightarrow> ('k \<times> 'v) option" where
  "rev_yield start es = (case es of [] \<Rightarrow> None | e # _ \<Rightarrow> if past_start start (fst e) then None else Some e)"

lemma rev_zip_snoc:
  "keys \<noteq> [] \<Longrightarrow> length keys = length vals \<Longrightarrow>
   rev (zip keys vals) = (last keys, last vals) # rev (zip (butlast keys) (butlast vals))"
  by (cases keys rule: rev_cases; cases vals rule: rev_cases) auto

lemma rev_loop_correct:
  "rev_frames_ok stack \<Longrightarrow> length keys = length vals \<Longrightarrow>
   \<exists>stack' ks vs. rev_loop start stack keys vals = Some (rev_yield start (rev (zip keys vals) @ rev_entries stack), stack', ks, vs)
     \<and> rev_frames_ok stack' \<and> length ks = length vs
     \<and> (rev_yield start (rev (zip keys vals) @ rev_entries stack) \<noteq> None \<longrightarrow>
          rev (zip ks vs) @ rev_entries stack' = tl (rev (zip keys vals) @ rev_entries stack))"
proof (induction start stack keys vals rule: rev_loop.induct)
  case (1 start stack keys vals)
  show ?case
  proof (cases "keys = []")
    case False
    then have "vals \<noteq> []" using "1.prems"(2) by auto
    then show ?thesis using False 1 rev_zip_snoc [OF False "1.prems"(2)]
      by (simp add: rev_loop.simps [of start stack keys] rev_yield_def)
  next
    case True
    then have e: "vals = []" "\<not> (keys \<noteq> [] \<and> vals \<noteq> [])" using "1.prems"(2) by auto
    show ?thesis
    proof (cases stack)
      case Nil
      then show ?thesis using True e by (simp add: rev_loop.simps rev_yield_def)
    next
      case (Cons f stack')
      then obtain kids left where f: "stack = (kids, left) # stack'" by (cases f) auto
      show ?thesis
      proof (cases "left = 0")
        case True
        then show ?thesis using "1.IH"(1) [OF e(2) f refl True] "1.prems" f e \<open>keys = []\<close>
          by (simp add: rev_loop.simps [of start "(kids, l) # stack'" for l])
      next
        case False
        then have l: "left - 1 < length kids" "Suc (left - 1) = left" using "1.prems"(1) f by auto
        then obtain lo hi where "node_ok lo hi (kids ! (left - 1))" using "1.prems"(1) f nth_mem by fastforce
        moreover have "rev_frames_ok ((kids, left - 1) # stack')" using "1.prems"(1) l(1) f by simp
        ultimately obtain stack'' ks vs where r:
          "rightmost (kids ! (left - 1)) ((kids, left - 1) # stack') = Some (stack'', ks, vs)"
          "rev_frames_ok stack''" "length ks = length vs"
          "rev (zip ks vs) @ rev_entries stack'' = rev (entries (kids ! (left - 1))) @ rev_entries ((kids, left - 1) # stack')"
          using rightmost_correct by blast
        have "take left kids = take (left - 1) kids @ [kids ! (left - 1)]"
          using l take_Suc_conv_app_nth [of "left - 1" kids] by simp
        then have "rev (entries (kids ! (left - 1))) @ rev_entries ((kids, left - 1) # stack') = rev_entries stack"
          by (simp add: f)
        with r(4) have eq: "rev (zip ks vs) @ rev_entries stack'' = rev_entries stack" by simp
        show ?thesis
          using "1.IH"(2) [OF e(2) f refl False l(1) r(1) refl refl r(2,3), unfolded eq] False l r(1) e \<open>keys = []\<close> f
          by (simp add: rev_loop.simps [of start "(kids, l) # stack'" for l] del: rev_entries_simps(2))
      qed
    qed
  qed
qed

definition rit_entries :: "('k, 'v) rev_iter \<Rightarrow> ('k, 'v) omap" where
  "rit_entries it = rev (zip (rit_keys it) (rit_vals it)) @ rev_entries (rit_stack it)"

definition rit_ok :: "('k::linorder, 'v) rev_iter \<Rightarrow> bool" where
  "rit_ok it \<longleftrightarrow> rev_frames_ok (rit_stack it) \<and> length (rit_keys it) = length (rit_vals it)"

lemma rev_next_correct:
  assumes "rit_ok it"
  obtains it' where "rev_next it = Some (rev_yield (rit_start it) (rit_entries it), it')" and "rit_ok it'"
    and "rit_start it' = rit_start it" and "rev_yield (rit_start it) (rit_entries it) \<noteq> None \<Longrightarrow> rit_entries it' = tl (rit_entries it)"
  using rev_loop_correct [of "rit_stack it" "rit_keys it" "rit_vals it" "rit_start it"] assms
  by (fastforce simp: rev_next_def rit_ok_def rit_entries_def)

lemma rev_collect_correct:
  "rit_ok it \<Longrightarrow> length (takeWhile (\<lambda>e. \<not> past_start (rit_start it) (fst e)) (rit_entries it)) < fuel \<Longrightarrow>
   rev_collect fuel it = Some (takeWhile (\<lambda>e. \<not> past_start (rit_start it) (fst e)) (rit_entries it))"
proof (induction fuel arbitrary: it)
  case (Suc fuel)
  obtain it' where it': "rev_next it = Some (rev_yield (rit_start it) (rit_entries it), it')" "rit_ok it'"
    "rit_start it' = rit_start it" "rev_yield (rit_start it) (rit_entries it) \<noteq> None \<Longrightarrow> rit_entries it' = tl (rit_entries it)"
    by (rule rev_next_correct [OF Suc.prems(1)]) blast
  show ?case
  proof (cases "rev_yield (rit_start it) (rit_entries it)")
    case None
    then show ?thesis using it'(1) by (auto simp: rev_yield_def split: list.splits if_splits)
  next
    case (Some e)
    then obtain es where "rit_entries it = e # es" "\<not> past_start (rit_start it) (fst e)"
      by (auto simp: rev_yield_def split: list.splits if_splits)
    then show ?thesis using Suc it' Some by simp
  qed
qed simp

lemma takeWhile_all: "takeWhile (\<lambda>_. True) xs = xs"
  by (induction xs) simp_all

lemma takeWhile_around:
  assumes "\<And>x. x \<in> set xs \<Longrightarrow> P x" and "\<And>x. x \<in> set zs \<Longrightarrow> \<not> P x"
  shows "takeWhile P (xs @ ys @ zs) = xs @ takeWhile P ys"
proof -
  have "takeWhile P (ys @ zs) = takeWhile P ys"
    using assms(2) by (induction ys) (cases zs, simp_all)
  then show ?thesis using assms(1) by simp
qed

lemma rev_seek_correct:
  "node_ok lo hi n \<Longrightarrow> rev_frames_ok stack \<Longrightarrow>
   \<exists>stack' ks vs. rev_seek n stop stack = Some (stack', ks, vs) \<and> rev_frames_ok stack' \<and> length ks = length vs
     \<and> rev (zip ks vs) @ rev_entries stack'
       = rev (takeWhile (\<lambda>e. \<not> past_end stop (fst e)) (entries n)) @ rev_entries stack"
proof (induction n stop stack arbitrary: lo hi rule: rev_seek.induct)
  case (1 bounds kids stop stack)
  note sep = node_ok_sep [OF "1.prems"(1)]
  define i where "i = (case stop of Included k \<Rightarrow> route bounds k | Excluded k \<Rightarrow> route bounds k | Unbounded \<Rightarrow> length kids - 1)"
  have "kids \<noteq> []" using "1.prems"(1) by simp
  then have i: "i < length kids" using route_correct(1) [OF sep] by (auto simp: i_def split: bound.split)
  have "rev_frames_ok ((kids, i) # stack)" using node_ok_kids [OF "1.prems"(1)] "1.prems"(2) i by simp
  note IH = "1.IH" [OF i_def i node_ok_kid [OF "1.prems"(1) i] this]
  have "takeWhile (\<lambda>e. \<not> past_end stop (fst e)) (entries (Internal bounds kids))
      = concat (map entries (take i kids)) @ takeWhile (\<lambda>e. \<not> past_end stop (fst e)) (entries (kids ! i))"
    unfolding entries.simps entries_around [OF i]
  proof (rule takeWhile_around)
    show "\<not> past_end stop (fst e)" if "e \<in> set (concat (map entries (take i kids)))" for e
      using that route_before [OF sep, of e "bound_key stop"]
      by (cases stop) (simp_all add: i_def past_end_def not_less not_le)
    show "\<not> \<not> past_end stop (fst e)" if "e \<in> set (concat (map entries (drop (Suc i) kids)))" for e
      using that route_after [OF sep, of e "bound_key stop"]
      by (cases stop) (simp_all add: i_def past_end_def)
  qed
  then show ?case using IH i by (simp add: i_def [symmetric] Let_def)
next
  case (2 keys vals stop stack)
  then have k: "strict keys" "length keys = length vals" by auto
  show ?case
  proof (cases stop)
    case (Included s)
    then show ?thesis using drop_partition_point [OF k, of "\<lambda>x. x \<le> s"] k "2.prems"(2) order_trans
      by (auto simp: past_end_def comp_def not_less Let_def)
  next
    case (Excluded s)
    then show ?thesis using drop_partition_point [OF k, of "\<lambda>x. x < s"] k "2.prems"(2) le_less_trans
      by (auto simp: past_end_def comp_def not_le Let_def)
  qed (use k "2.prems"(2) in \<open>simp add: past_end_def takeWhile_all\<close>)
qed

lemma past_start_eq: "past_start = before_start"
  by (simp add: fun_eq_iff past_start_def before_start_def)

lemma rev_takeWhile_sorted_filter:
  assumes "om_wf es" and "\<And>x y. x \<le> y \<Longrightarrow> p y \<Longrightarrow> p x"
  shows "takeWhile (\<lambda>e. \<not> p (fst e)) (rev es) = rev (filter (\<lambda>e. \<not> p (fst e)) es)"
  using assms(1)
proof (induction es rule: rev_induct)
  case (snoc e es)
  have "filter (\<lambda>e. \<not> p (fst e)) es = []" if "p (fst e)"
    using snoc.prems that assms(2) by (auto simp: strict_simps filter_empty_conv intro: less_imp_le)
  then show ?case using snoc by (simp add: strict_simps)
qed simp

lemma cm_range_rev_correct:
  assumes "cm_inv m"
  shows "cm_range_rev m start stop = None \<longleftrightarrow> \<not> range_valid start stop"
    and "cm_range_rev m start stop = Some it \<Longrightarrow> length (cm_entries m) < fuel \<Longrightarrow>
      rev_collect fuel it = Some (rev (filter (\<lambda>e. in_range start stop (fst e)) (cm_entries m)))"
proof -
  let ?es = "takeWhile (\<lambda>e. \<not> past_end stop (fst e)) (cm_entries m)"
  have it: "\<exists>it. cm_range_rev m start stop = Some it \<and> rit_ok it \<and> rit_start it = start \<and> rit_entries it = rev ?es"
    if "range_valid start stop"
  proof (cases "cm_root m")
    case (Some root)
    then have "node_ok None None root" using assms by (simp add: cm_inv_def)
    then show ?thesis using rev_seek_correct [of None None root "[]" stop] Some that
      by (auto simp: cm_range_rev_def rit_ok_def rit_entries_def cm_entries_def)
  qed (use that in \<open>simp add: cm_range_rev_def rit_ok_def rit_entries_def cm_entries_def\<close>)
  then show "cm_range_rev m start stop = None \<longleftrightarrow> \<not> range_valid start stop"
    by (cases "range_valid start stop") (auto simp: cm_range_rev_def)
  assume r: "cm_range_rev m start stop = Some it" and fuel: "length (cm_entries m) < fuel"
  then have "range_valid start stop" by (auto simp: cm_range_rev_def split: if_splits)
  with it r have it: "rit_ok it" "rit_start it = start" "rit_entries it = rev ?es" by auto
  have wf: "om_wf (cm_entries m)" by (rule cm_inv_wf [OF assms])
  have "?es = filter (\<lambda>e. \<not> past_end stop (fst e)) (cm_entries m)"
    by (rule takeWhile_sorted_filter [OF wf past_end_mono])
  then have tw: "takeWhile (\<lambda>e. \<not> past_start start (fst e)) (rev ?es) = rev (filter (\<lambda>e. in_range start stop (fst e)) (cm_entries m))"
    using rev_takeWhile_sorted_filter [OF om_wf_filter [OF wf], of "before_start start", OF before_start_mono]
    by (simp add: in_range_def past_start_eq conj_commute)
  then have "length (takeWhile (\<lambda>e. \<not> past_start start (fst e)) (rev ?es)) < fuel"
    using fuel length_filter_le le_less_trans length_rev by metis
  then show "rev_collect fuel it = Some (rev (filter (\<lambda>e. in_range start stop (fst e)) (cm_entries m)))"
    using rev_collect_correct [OF it(1), of fuel] it tw by simp
qed


section \<open>Property\<close>

text \<open>
  C21: \<open>range\<close> and \<open>range_rev\<close> panic exactly when the bounds are inverted; otherwise, asked
  until it ends, the first yields the entries whose key lies within the bounds in ascending
  order, the second the same entries in descending order.
\<close>

theorem cow_map_ranges:
  assumes "cm_inv m" and "length (cm_entries m) < fuel"
  shows "(cm_range m start stop = None \<longleftrightarrow> \<not> range_valid start stop)
    \<and> (cm_range_rev m start stop = None \<longleftrightarrow> \<not> range_valid start stop)
    \<and> (range_valid start stop \<longrightarrow>
        (cm_range m start stop \<bind> range_collect fuel
           = Some (filter (\<lambda>e. in_range start stop (fst e)) (cm_entries m)))
      \<and> (cm_range_rev m start stop \<bind> rev_collect fuel
           = Some (rev (filter (\<lambda>e. in_range start stop (fst e)) (cm_entries m)))))"
proof (cases "range_valid start stop")
  case True
  then obtain it rit where "cm_range m start stop = Some it" "cm_range_rev m start stop = Some rit"
    using cm_range_correct(1) [OF assms(1), of start stop] cm_range_rev_correct(1) [OF assms(1), of start stop] by auto
  with True show ?thesis
    using cm_range_correct(2) [OF assms(1) _ assms(2)] cm_range_rev_correct(2) [OF assms(1) _ assms(2)] by simp
qed (use cm_range_correct(1) [OF assms(1)] cm_range_rev_correct(1) [OF assms(1)] in blast)

definition sample_map :: "(nat, nat) cow_map" where
  "sample_map = \<lparr>cm_root = Some (Leaf [2, 5, 9] [20, 50, 90]), cm_len = 3\<rparr>"

theorem cow_map_ranges_witness:
  "(cm_range sample_map (Excluded 2) (Included 9) \<bind> range_collect 4) = Some [(5, 50), (9, 90)]
   \<and> (cm_range_rev sample_map (Excluded 2) (Included 9) \<bind> rev_collect 4) = Some [(9, 90), (5, 50)]"
  using cow_map_ranges [of sample_map 4 "Excluded 2" "Included 9"]
  by (auto simp: sample_map_def cm_inv_def cm_entries_def strict_simps within_def in_range_def before_start_def past_end_def)

end
