(* ===== verification/Cow_Map_Build.thy ===== *)
theory Cow_Map_Build
  imports Cow_Map
begin

text \<open>
  \<open>CowMap::from_sorted\<close> (\<open>crates/core-storage/src/cow.rs\<close>): the bulk build from entries already in
  strictly ascending key order. Leaves of 24 entries are filled left to right, then each level is
  grouped into parents of 24 until one node is left. A level is a list of nodes, each with the
  key it starts at.
\<close>

type_synonym ('k, 'v) level = "('k \<times> ('k, 'v) node) list"

definition FILL :: nat where "FILL = NODE_MAX * 3 div 4"

lemma FILL_eq [simp]: "FILL = 24" by (simp add: FILL_def)

text \<open>\<open>flush\<close>: the keys and values gathered so far become a leaf; none gathered would be a panic.\<close>

definition flush :: "'k list \<Rightarrow> 'v list \<Rightarrow> ('k, 'v) level \<Rightarrow> ('k, 'v) level option" where
  "flush keys vals level = map_option (\<lambda>k. level @ [(k, Leaf keys vals)]) (nth_opt keys 0)"

fun fill_leaves :: "('k \<times> 'v) list \<Rightarrow> 'k list \<Rightarrow> 'v list \<Rightarrow> ('k, 'v) level \<Rightarrow> nat
    \<Rightarrow> (('k, 'v) level \<times> nat) option" where
  "fill_leaves [] keys vals level len =
     (if keys \<noteq> [] then map_option (\<lambda>level. (level, len)) (flush keys vals level) else Some (level, len))"
| "fill_leaves ((k, v) # es) keys vals level len =
     (let keys = keys @ [k]; vals = vals @ [v]; len = len + 1
      in if length keys = FILL
         then do { level \<leftarrow> flush keys vals level; fill_leaves es [] [] level len }
         else fill_leaves es keys vals level len)"

function build_parents :: "('k, 'v) level \<Rightarrow> ('k, 'v) level option" where
  "build_parents level =
     (if level = [] then Some []
      else do {
        first \<leftarrow> nth_opt (map fst (take FILL level)) 0;
        parents \<leftarrow> build_parents (drop FILL level);
        Some ((first, Internal (map fst (take FILL level)) (map snd (take FILL level))) # parents) })"
  by pat_completeness auto
termination by (relation "measure length") auto

declare build_parents.simps [simp del]

lemma build_parents_step:
  "level \<noteq> [] \<Longrightarrow> build_parents level =
     map_option ((#) (fst (hd level), Internal (map fst (take 24 level)) (map snd (take 24 level))))
       (build_parents (drop 24 level))"
  by (subst build_parents.simps) (cases level; cases "build_parents (drop 24 level)"; simp)

lemma build_parents_Nil: "build_parents [] = Some []"
  by (simp add: build_parents.simps)

lemma build_parents_shrinks:
  "\<exists>ps. build_parents level = Some ps \<and> length ps = (length level + 23) div 24"
proof (induction level rule: build_parents.induct)
  case (1 level)
  show ?case
  proof (cases "level = []")
    case False
    then obtain ps where "build_parents (drop 24 level) = Some ps" "length ps = (length (drop 24 level) + 23) div 24"
      using 1 by (cases level) auto
    moreover have "Suc ((length level - 24 + 23) div 24) = (length level + 23) div 24"
      using False by (cases "length level \<ge> 24") (auto simp: le_div_geq not_le neq_Nil_conv)
    ultimately show ?thesis using False by (simp add: build_parents_step)
  qed (simp add: build_parents_Nil)
qed

text \<open>The loop that groups levels until one node is left.\<close>

function build_levels :: "('k, 'v) level \<Rightarrow> ('k, 'v) level option" where
  "build_levels level =
     (if length level > 1 then (case build_parents level of None \<Rightarrow> None | Some ps \<Rightarrow> build_levels ps)
      else Some level)"
  by pat_completeness auto
termination
proof (relation "measure length")
  fix level ps :: "('k, 'v) level"
  assume l: "1 < length level" and p: "build_parents level = Some ps"
  have "length ps = (length level + 23) div 24" using build_parents_shrinks [of level] p by auto
  with l show "(ps, level) \<in> measure length" by simp
qed simp

declare build_levels.simps [simp del]

definition cm_from_sorted :: "('k \<times> 'v) list \<Rightarrow> ('k, 'v) cow_map option" where
  "cm_from_sorted es = do {
     (level, len) \<leftarrow> fill_leaves es [] [] [] 0;
     level \<leftarrow> build_levels level;
     Some \<lparr>cm_root = (if level = [] then None else Some (snd (last level))), cm_len = len\<rparr> }"


section \<open>A level of a tree\<close>

text \<open>
  Every node of a level starts at its own key and ends before the next node's key; the last
  one has no bound above it.
\<close>

fun level_ok :: "('k::linorder, 'v) level \<Rightarrow> bool" where
  "level_ok [] \<longleftrightarrow> True"
| "level_ok [(k, n)] \<longleftrightarrow> node_ok (Some k) None n"
| "level_ok ((k, n) # (k', n') # level) \<longleftrightarrow> node_ok (Some k) (Some k') n \<and> level_ok ((k', n') # level)"

definition level_entries :: "('k, 'v) level \<Rightarrow> ('k, 'v) omap" where
  "level_entries level = concat (map (entries \<circ> snd) level)"

lemma level_ok_nth:
  "level_ok level \<longleftrightarrow> (\<forall>i<length level.
     node_ok (Some (fst (level ! i))) (if Suc i < length level then Some (fst (level ! Suc i)) else None) (snd (level ! i)))"
  by (induction level rule: level_ok.induct) (simp_all add: All_less_Suc2)

lemma level_ok_Cons:
  "level_ok ((k, n) # level) \<longleftrightarrow>
     node_ok (Some k) (if level = [] then None else Some (fst (hd level))) n \<and> level_ok level"
  by (cases level) auto

lemma level_ok_drop: "level_ok level \<Longrightarrow> level_ok (drop n level)"
proof (induction level arbitrary: n)
  case (Cons e level)
  then show ?case by (cases n; cases e) (auto simp: level_ok_Cons)
qed simp

lemma parent_ok:
  assumes ok: "level_ok level" and ne: "level \<noteq> []"
  shows "node_ok (Some (fst (hd level))) (if drop 24 level = [] then None else Some (fst (hd (drop 24 level))))
     (Internal (map fst (take 24 level)) (map snd (take 24 level)))"
proof -
  let ?hi = "if drop 24 level = [] then None else Some (fst (hd (drop 24 level)))"
  let ?bs = "map fst (take 24 level)" and ?ks = "map snd (take 24 level)"
  have "node_ok (kid_lo (Some (fst (hd level))) ?bs i) (kid_hi ?hi ?bs i) (?ks ! i)" if i: "i < length ?ks" for i
  proof -
    have "kid_lo (Some (fst (hd level))) ?bs i = Some (fst (level ! i))"
      using i ne by (simp add: kid_lo_def hd_conv_nth)
    moreover have "kid_hi ?hi ?bs i = (if Suc i < length level then Some (fst (level ! Suc i)) else None)"
    proof (cases "Suc i < length ?bs")
      case False
      then have "length level \<le> 24 \<and> Suc i = length level \<or> 24 < length level \<and> Suc i = 24"
        using i by auto
      then show ?thesis by (auto simp: kid_hi_def hd_drop_conv_nth)
    qed (auto simp: kid_hi_def)
    ultimately show ?thesis using ok i unfolding level_ok_nth by simp
  qed
  then show ?thesis using ne by simp
qed

lemma build_parents_ok:
  "level_ok level \<Longrightarrow> \<exists>ps. build_parents level = Some ps \<and> level_ok ps \<and> level_entries ps = level_entries level
     \<and> (ps = [] \<longleftrightarrow> level = []) \<and> (level \<noteq> [] \<longrightarrow> fst (hd ps) = fst (hd level))"
proof (induction level rule: build_parents.induct)
  case (1 level)
  show ?case
  proof (cases "level = []")
    case False
    then have "nth_opt (map fst (take FILL level)) 0 = Some (fst (hd level))" by (simp add: hd_conv_nth)
    from "1.IH" [OF False this] obtain ps where ps: "build_parents (drop 24 level) = Some ps" "level_ok ps"
      "level_entries ps = level_entries (drop 24 level)" "ps = [] \<longleftrightarrow> drop 24 level = []"
      "drop 24 level \<noteq> [] \<longrightarrow> fst (hd ps) = fst (hd (drop 24 level))"
      using level_ok_drop [OF "1.prems", of 24] by auto
    let ?p = "(fst (hd level), Internal (map fst (take 24 level)) (map snd (take 24 level)))"
    have "level_ok (?p # ps)"
      using parent_ok [OF "1.prems" False] ps(2,4,5) unfolding level_ok_Cons by (auto split: if_splits)
    moreover have "level_entries (take 24 level) @ level_entries (drop 24 level) = level_entries level"
      unfolding level_entries_def by (simp flip: concat_append map_append)
    then have "level_entries (?p # ps) = level_entries level"
      using ps(3) by (simp add: level_entries_def comp_def)
    ultimately show ?thesis using False ps(1) by (simp add: build_parents_step)
  qed (simp add: build_parents_Nil)
qed

lemma build_levels_ok:
  "level_ok level \<Longrightarrow> \<exists>top. build_levels level = Some top \<and> length top \<le> 1 \<and> level_ok top
     \<and> level_entries top = level_entries level"
proof (induction level rule: build_levels.induct)
  case (1 level)
  show ?case
  proof (cases "1 < length level")
    case True
    obtain ps where "build_parents level = Some ps" "level_ok ps" "level_entries ps = level_entries level"
      using build_parents_ok [OF "1.prems"] by blast
    then show ?thesis using "1.IH" [OF True] True by (simp add: build_levels.simps [of level])
  qed (use "1.prems" in \<open>simp add: build_levels.simps\<close>)
qed


section \<open>The leaves\<close>

definition leaf_of :: "('k, 'v) omap \<Rightarrow> 'k \<times> ('k, 'v) node" where
  "leaf_of es = (fst (hd es), Leaf (map fst es) (map snd es))"

lemma flush_leaf: "keys \<noteq> [] \<Longrightarrow> length keys = length vals \<Longrightarrow> flush keys vals level = Some (level @ [leaf_of (zip keys vals)])"
  by (cases keys; cases vals) (simp_all add: flush_def leaf_of_def)

lemma fill_leaves_chunks:
  "length keys = length vals \<Longrightarrow> length keys < 24 \<Longrightarrow>
   fill_leaves es keys vals level len
     = Some (level @ map leaf_of (chunks_of 24 (zip keys vals @ es)), len + length es)"
proof (induction es keys vals level len rule: fill_leaves.induct)
  case (1 keys vals level len)
  show ?case
  proof (cases "keys = []")
    case False
    then have "zip keys vals \<noteq> []" using "1.prems" by (cases keys; cases vals) auto
    then have "chunks_of 24 (zip keys vals) = [zip keys vals]" using "1.prems" by (simp add: chunks_of_step)
    then show ?thesis using False "1.prems" by (simp add: flush_leaf)
  qed (use "1.prems" in simp)
next
  case (2 k v es keys vals level len)
  show ?case
  proof (cases "length (keys @ [k]) = 24")
    case True
    let ?z = "zip keys vals @ [(k, v)]"
    have "chunks_of 24 (?z @ es) = ?z # chunks_of 24 es"
      using True "2.prems" by (subst chunks_of_step) simp_all
    then show ?thesis using "2.IH"(1) [OF refl refl refl] True "2.prems"
      by (simp add: flush_leaf Let_def)
  next
    case False
    then show ?thesis using "2.IH"(2) [OF refl refl refl] "2.prems" by (simp add: Let_def)
  qed
qed

lemma chunk_leaf_ok:
  assumes "es \<noteq> []" and "length es \<le> 32" and "om_wf es" and "\<And>e. e \<in> set es \<Longrightarrow> within None hi (fst e)"
  shows "node_ok (Some (fst (hd es))) hi (snd (leaf_of es))"
proof -
  have "fst (hd es) \<le> fst e" if "e \<in> set es" for e
    using that assms(1,3) by (cases es) (auto simp: strict_simps intro: less_imp_le)
  then show ?thesis using assms by (auto simp: leaf_of_def within_def)
qed

lemma leaves_ok: "om_wf es \<Longrightarrow> level_ok (map leaf_of (chunks_of 24 es))"
proof (induction "length es" arbitrary: es rule: less_induct)
  case less
  show ?case
  proof (cases "es = []")
    case False
    let ?a = "take 24 es" and ?b = "drop 24 es"
    have wf: "om_wf (?a @ ?b)" using less.prems by simp
    then have ab: "om_wf ?a" "om_wf ?b" "\<And>x y. x \<in> set ?a \<Longrightarrow> y \<in> set ?b \<Longrightarrow> fst x < fst y"
      unfolding map_append strict_append by auto
    have IH: "level_ok (map leaf_of (chunks_of 24 ?b))" using less.hyps [OF _ ab(2)] False by simp
    have hd: "fst (hd (map leaf_of (chunks_of 24 ?b))) = fst (hd ?b)" if "?b \<noteq> []"
      using that by (simp add: chunks_of_step leaf_of_def)
    have "node_ok (Some (fst (hd ?a))) (if ?b = [] then None else Some (fst (hd ?b))) (snd (leaf_of ?a))"
      by (rule chunk_leaf_ok) (use False ab in \<open>auto simp: within_def\<close>)
    then have "level_ok (leaf_of ?a # map leaf_of (chunks_of 24 ?b))"
      using IH hd unfolding leaf_of_def [of ?a] level_ok_Cons by (cases "?b = []") (auto simp: leaf_of_def chunks_of_step)
    then show ?thesis using False by (simp add: chunks_of_step)
  qed simp
qed

lemma leaves_entries: "level_entries (map leaf_of (chunks_of 24 es)) = es"
proof -
  have "entries (snd (leaf_of xs)) = xs" for xs :: "('a, 'b) omap"
    by (simp add: leaf_of_def zip_map_fst_snd)
  then show ?thesis by (simp add: level_entries_def comp_def concat_chunks_of)
qed

lemma cm_from_sorted_correct:
  assumes "om_wf es"
  obtains m where "cm_from_sorted es = Some m" and "cm_inv m" and "cm_entries m = es"
proof -
  obtain top where top: "build_levels (map leaf_of (chunks_of 24 es)) = Some top" "length top \<le> 1"
    "level_ok top" "level_entries top = es"
    using build_levels_ok [OF leaves_ok [OF assms]] by (auto simp: leaves_entries)
  let ?m = "\<lparr>cm_root = (if top = [] then None else Some (snd (last top))), cm_len = length es\<rparr>"
  have "cm_from_sorted es = Some ?m"
    using fill_leaves_chunks [of "[]" "[]" es "[]" 0] top(1) by (simp add: cm_from_sorted_def)
  moreover have "cm_inv ?m \<and> cm_entries ?m = es"
  proof (cases top)
    case (Cons kn rest)
    then obtain k n where "top = [(k, n)]" using top(2) by (cases kn) simp
    moreover have "node_ok None None n"
      using node_ok_weaken [of "Some k" None n None None] top(3) calculation by (simp add: within_def)
    ultimately show ?thesis using top by (simp add: cm_inv_def cm_entries_def level_entries_def)
  qed (use top(4) in \<open>simp add: cm_inv_def cm_entries_def level_entries_def\<close>)
  ultimately show ?thesis using that by blast
qed

text \<open>
  the bulk build from strictly ascending entries never panics and gives a map that
  satisfies the invariant and holds exactly those entries.
\<close>

theorem cow_map_from_sorted:
  assumes "om_wf es"
  shows "\<exists>m. cm_from_sorted es = Some m \<and> cm_inv m \<and> cm_entries m = es \<and> cm_len m = length es"
  by (rule cm_from_sorted_correct [OF assms]) (auto simp: cm_inv_def)

theorem cow_map_from_sorted_witness:
  "\<exists>m. cm_from_sorted [(1::nat, True), (4, False)] = Some m \<and> cm_entries m = [(1, True), (4, False)]"
  using cow_map_from_sorted [of "[(1::nat, True), (4, False)]"] by auto

end
