(* ===== verification/Cow_Map_Bulk.thy ===== *)
theory Cow_Map_Bulk
  imports Cow_Map_Build Cow_Map_Depth
begin

text \<open>
  How deep a bulk-built \<open>CowMap\<close> is (\<open>CowMap::from_sorted\<close> of \<open>crates/core-storage/src/cow.rs\<close>): it costs what as many insertions would
  have, so that the account of insertions goes on from its number of entries.
\<close>

abbreviation node_size :: "('k, 'v) node \<Rightarrow> nat" where "node_size n \<equiv> length (entries n)"

text \<open>The nodes of a level: none has saved up more than its entries, and every one but the last is full, with room to spare.\<close>

definition solid :: "nat \<Rightarrow> ('k, 'v) node \<Rightarrow> bool" where
  "solid h n \<longleftrightarrow> credit h n + 17 * 16 ^ h \<le> node_size n"

definition filled :: "nat \<Rightarrow> ('k, 'v) node list \<Rightarrow> bool" where
  "filled h ns \<longleftrightarrow> (\<forall>n\<in>set ns. bal h n \<and> credit h n \<le> node_size n) \<and> (\<forall>n\<in>set (butlast ns). solid h n)"

lemma solid_sum: "\<forall>n\<in>set ns. solid h n \<Longrightarrow> sum_list (map (credit h) ns) + length ns * (17 * 16 ^ h) \<le> sum_list (map node_size ns)"
  by (induction ns) (auto simp: solid_def)

lemma filled_sum:
  assumes "filled h ns" "ns \<noteq> []"
  shows "sum_list (map (credit h) ns) + (length ns - 1) * (17 * 16 ^ h) \<le> sum_list (map node_size ns)"
proof -
  have "sum_list (map (credit h) (butlast ns)) + length (butlast ns) * (17 * 16 ^ h) \<le> sum_list (map node_size (butlast ns))"
    using assms by (intro solid_sum) (simp add: filled_def)
  moreover have "credit h (last ns) \<le> node_size (last ns)" using assms by (simp add: filled_def)
  ultimately have "sum_list (map (credit h) (butlast ns @ [last ns])) + (length ns - 1) * (17 * 16 ^ h) \<le> sum_list (map node_size (butlast ns @ [last ns]))"
    by simp
  then show ?thesis unfolding append_butlast_last_id [OF assms(2)] .
qed

lemma size_parent: "node_size (Internal bs ks) = sum_list (map node_size ks)"
  by (simp add: length_concat comp_def)

lemma parent_filled:
  assumes "filled h ks" "ks \<noteq> []"
  shows "bal (Suc h) (Internal bs ks)" "credit (Suc h) (Internal bs ks) \<le> node_size (Internal bs ks)"
    and "2 \<le> length ks \<Longrightarrow> 16 ^ Suc h + credit (Suc h) (Internal bs ks) \<le> node_size (Internal bs ks)"
proof -
  have sum: "sum_list (map (credit h) ks) + (length ks - 1) * (17 * 16 ^ h) \<le> node_size (Internal bs ks)"
    using filled_sum [OF assms] by (simp only: size_parent)
  have c: "credit (Suc h) (Internal bs ks) = 16 ^ Suc h * (length ks - 17) + sum_list (map (credit h) ks)" by simp
  have "16 * (length ks - 17) \<le> (length ks - 1) * 17" by simp
  then have "16 * (length ks - 17) * 16 ^ h \<le> (length ks - 1) * 17 * 16 ^ h" by (rule mult_le_mono1)
  then show "credit (Suc h) (Internal bs ks) \<le> node_size (Internal bs ks)" using sum unfolding c by (simp add: algebra_simps)
  show "bal (Suc h) (Internal bs ks)" using assms(1) by (simp add: filled_def)
  assume "2 \<le> length ks"
  then have "16 * (1 + (length ks - 17)) \<le> (length ks - 1) * 17" by simp
  then have "16 * (1 + (length ks - 17)) * 16 ^ h \<le> (length ks - 1) * 17 * 16 ^ h" by (rule mult_le_mono1)
  then show "16 ^ Suc h + credit (Suc h) (Internal bs ks) \<le> node_size (Internal bs ks)" using sum unfolding c by (simp add: algebra_simps)
qed

lemma parent_solid:
  assumes "\<forall>n\<in>set ks. solid h n" "length ks = 24"
  shows "solid (Suc h) (Internal bs ks)"
proof -
  have "sum_list (map (credit h) ks) + 24 * (17 * 16 ^ h) \<le> node_size (Internal bs ks)"
    using solid_sum [OF assms(1)] assms(2) by (simp only: size_parent)
  then show ?thesis unfolding solid_def using assms(2) by (simp add: algebra_simps)
qed

lemma filled_take_drop:
  assumes "filled h ns"
  shows "filled h (take n ns)" "filled h (drop n ns)" "n < length ns \<Longrightarrow> \<forall>x\<in>set (take n ns). solid h x"
proof -
  show "\<forall>x\<in>set (take n ns). solid h x" if "n < length ns"
  proof -
    have "take n ns = take n (butlast ns)" using that by (simp add: take_butlast)
    then show ?thesis using assms by (auto simp: filled_def dest: in_set_takeD)
  qed
  have "set (butlast (take n ns)) \<subseteq> set (butlast ns)"
    by (cases "n < length ns") (auto simp: butlast_take dest!: in_set_takeD simp: take_butlast [symmetric] intro: in_set_butlastD)
  then show "filled h (take n ns)" using assms by (auto simp: filled_def dest: in_set_takeD)
  show "filled h (drop n ns)" using assms by (auto simp: filled_def butlast_drop dest: in_set_dropD)
qed

lemma parents_filled:
  "filled h (map snd level) \<Longrightarrow> build_parents level = Some ps \<Longrightarrow> filled (Suc h) (map snd ps)"
proof (induction level arbitrary: ps rule: build_parents.induct)
  case (1 level)
  show ?case
  proof (cases "level = []")
    case False
    let ?ks = "map snd (take 24 level)"
    obtain rest where rest: "build_parents (drop 24 level) = Some rest"
      "ps = (fst (hd level), Internal (map fst (take 24 level)) ?ks) # rest"
      using "1.prems"(2) build_parents_step [OF False] by auto
    have n: "nth_opt (map fst (take FILL level)) 0 = Some (fst (hd level))" using False by (simp add: hd_conv_nth)
    have ks: "filled h ?ks" "?ks \<noteq> []" "filled h (map snd (drop 24 level))"
      using filled_take_drop [OF "1.prems"(1), of 24] False by (simp_all add: take_map drop_map)
    have r: "filled (Suc h) (map snd rest)" using "1.IH" [OF False n] ks(3) rest(1) by simp
    have "solid (Suc h) (Internal (map fst (take 24 level)) ?ks)" if "rest \<noteq> []"
    proof -
      have "24 < length level" using that rest(1) by (cases "drop 24 level = []") (auto simp: build_parents.simps [of "[]"])
      then show ?thesis using filled_take_drop(3) [OF "1.prems"(1), of 24] by (intro parent_solid) (simp_all add: take_map)
    qed
    then show ?thesis using r rest(2) parent_filled(1,2) [OF ks(1,2)] by (auto simp: filled_def simp del: bal.simps credit.simps entries.simps)
  qed (use "1.prems" in \<open>simp add: build_parents_Nil filled_def\<close>)
qed

lemma levels_afforded:
  "filled h (map snd level) \<Longrightarrow> (\<And>kn. level = [kn] \<Longrightarrow> 16 ^ h + credit h (snd kn) \<le> node_size (snd kn)) \<Longrightarrow>
   build_levels level = Some [kn] \<Longrightarrow> \<exists>h. bal h (snd kn) \<and> 16 ^ h + credit h (snd kn) \<le> node_size (snd kn)"
proof (induction level arbitrary: h rule: build_levels.induct)
  case (1 level)
  show ?case
  proof (cases "1 < length level")
    case True
    obtain ps where ps: "build_parents level = Some ps" using build_parents_shrinks [of level] by blast
    have "16 ^ Suc h + credit (Suc h) (snd kn') \<le> node_size (snd kn')" if "ps = [kn']" for kn'
    proof -
      have "level \<noteq> []" using True by auto
      then obtain rest where rest: "build_parents (drop 24 level) = Some rest"
        "ps = (fst (hd level), Internal (map fst (take 24 level)) (map snd (take 24 level))) # rest"
        using ps build_parents_step [of level] by auto
      then have "filled h (map snd (take 24 level))" "2 \<le> length (map snd (take 24 level))"
        using filled_take_drop(1) [OF "1.prems"(1), of 24] True by (simp_all add: take_map)
      then show ?thesis using parent_filled(3) [of h "map snd (take 24 level)" "map fst (take 24 level)"] rest(2) that by fastforce
    qed
    then show ?thesis
      using "1.IH" [OF True ps, of "Suc h"] parents_filled [OF "1.prems"(1) ps] "1.prems"(3) True ps
      by (simp add: build_levels.simps [of level])
  next
    case False
    then have "level = [kn]" using "1.prems"(3) by (simp add: build_levels.simps [of level])
    then show ?thesis using "1.prems"(1,2) by (auto simp: filled_def)
  qed
qed

lemma leaves_filled: "filled 0 (map snd (map leaf_of (chunks_of 24 es)))"
proof (induction "length es" arbitrary: es rule: less_induct)
  case less
  show ?case
  proof (cases "es = []")
    case False
    have IH: "filled 0 (map snd (map leaf_of (chunks_of 24 (drop 24 es))))" using less.hyps [of "drop 24 es"] False by simp
    have "chunks_of 24 (drop 24 es) = [] \<longleftrightarrow> drop 24 es = []" by (cases "drop 24 es = []") (simp_all add: chunks_of_step)
    then show ?thesis using IH False by (auto simp: chunks_of_step filled_def solid_def leaf_of_def)
  qed (simp add: filled_def)
qed

lemma from_sorted_afforded:
  assumes "om_wf es" and m: "cm_from_sorted es = Some m"
  shows "afforded (length es) m"
proof -
  let ?leaves = "map leaf_of (chunks_of 24 es)"
  obtain top where top: "build_levels ?leaves = Some top" "length top \<le> 1" "level_entries top = es"
    using build_levels_ok [OF leaves_ok [OF assms(1)]] by (auto simp: leaves_entries)
  have root: "cm_root m = (if top = [] then None else Some (snd (last top)))"
    using m top(1) fill_leaves_chunks [of "[]" "[]" es "[]" 0] by (auto simp: cm_from_sorted_def)
  show ?thesis
  proof (cases "top = []")
    case False
    then obtain kn where kn: "top = [kn]" using top(2) by (cases top) auto
    have leaf: "16 ^ 0 + credit 0 (snd kn') \<le> node_size (snd kn')" if l: "?leaves = [kn']" for kn'
    proof -
      obtain xs where "chunks_of 24 es = [xs]" "kn' = leaf_of xs" using l by (cases "chunks_of 24 es") auto
      moreover then have "xs \<noteq> []" by (cases "es = []") (auto simp: chunks_of_step)
      ultimately show ?thesis by (cases xs) (auto simp: leaf_of_def)
    qed
    have "node_size (snd kn) = length es" using top(3) kn by (auto simp: level_entries_def)
    then show ?thesis using levels_afforded [where kn = kn, OF leaves_filled leaf] top(1) kn root by (auto simp: afforded_def)
  qed (simp add: root afforded_def)
qed

end
