(* ===== verification/Id_Set.thy ===== *)
theory Id_Set
  imports Cow_Map_Depth Cow_Map_Range Cow_Map_Bulk
begin

text \<open>
  \<open>IdSet\<close> (\<open>crates/core-storage/src/cow.rs\<close>): an ordered set of node ids. One id is held inline, up
  to 64 sit in one sorted vector, and more in a \<open>CowMap\<close> built from the vector. The contract of an
  ordered set is a locale; the interpretation shows that the three representations keep it.
\<close>

locale ordered_set =
  fixes empty :: 's
    and member :: "'s \<Rightarrow> 'a::linorder \<Rightarrow> bool option"
    and ins :: "'s \<Rightarrow> 'a \<Rightarrow> (bool \<times> 's) option"
    and del :: "'s \<Rightarrow> 'a \<Rightarrow> (bool \<times> 's) option"
    and elems :: "'s \<Rightarrow> 'a list"
    and inv :: "'s \<Rightarrow> bool"
    and room :: "'s \<Rightarrow> bool"
  assumes empty_law: "inv empty" "elems empty = []"
    and strict_law: "inv s \<Longrightarrow> strict (elems s)"
    and member_law: "inv s \<Longrightarrow> member s x = Some (x \<in> set (elems s))"
    and ins_law: "inv s \<Longrightarrow> \<exists>s'. ins s x = Some (x \<notin> set (elems s), s') \<and> inv s'
      \<and> set (elems s') = insert x (set (elems s))"
    and del_law: "inv s \<Longrightarrow> room s \<Longrightarrow> \<exists>s'. del s x = Some (x \<in> set (elems s), s') \<and> inv s'
      \<and> set (elems s') = set (elems s) - {x}"
begin

text \<open>Elements come out sorted, so two sets are equal exactly when they list the same elements.\<close>

lemma elems_eq_iff: "inv s \<Longrightarrow> inv t \<Longrightarrow> elems s = elems t \<longleftrightarrow> set (elems s) = set (elems t)"
  using strict_law strict_set_eqI by metis

lemma elems_ins:
  assumes "inv s" and "ins s x = Some (new, s')"
  shows "elems s' = sort_dedup (x # elems s)" and "new \<longleftrightarrow> x \<notin> set (elems s)" and "inv s'"
proof -
  show i: "inv s'" and "new \<longleftrightarrow> x \<notin> set (elems s)" using ins_law [OF assms(1), of x] assms(2) by auto
  show "elems s' = sort_dedup (x # elems s)"
    by (rule strict_set_eqI) (use ins_law [OF assms(1), of x] assms(2) strict_law [OF i] in auto)
qed

text \<open>Inserting a sequence sorts it and drops the duplicates.\<close>

lemma collect:
  "inv s \<Longrightarrow> \<exists>s'. foldl (\<lambda>r x. r \<bind> (\<lambda>s. map_option snd (ins s x))) (Some s) xs = Some s' \<and> inv s'
     \<and> set (elems s') = set (elems s) \<union> set xs"
proof (induction xs arbitrary: s)
  case (Cons x xs)
  obtain s' where s': "ins s x = Some (x \<notin> set (elems s), s')" "inv s'" "set (elems s') = insert x (set (elems s))"
    using ins_law [OF Cons.prems] by blast
  from Cons.IH [OF s'(2)] s' show ?case by auto
qed simp

end


section \<open>The set\<close>

definition SMALL_MAX :: nat where "SMALL_MAX = 64"

lemma SMALL_MAX_eq [simp]: "SMALL_MAX = 64" by (simp add: SMALL_MAX_def)

datatype id_set = One u32 | Small "u32 list" | Large "(u32, unit) cow_map"

definition id_new :: id_set where "id_new = Small []"

fun id_len :: "id_set \<Rightarrow> nat" where
  "id_len (One x) = 1"
| "id_len (Small v) = length v"
| "id_len (Large m) = cm_len m"

definition id_is_empty :: "id_set \<Rightarrow> bool" where "id_is_empty s \<longleftrightarrow> id_len s = 0"

definition is_found :: "search \<Rightarrow> bool" where
  "is_found r = (case r of Found _ \<Rightarrow> True | Missing _ \<Rightarrow> False)"

fun id_contains :: "id_set \<Rightarrow> u32 \<Rightarrow> bool option" where
  "id_contains (One y) x = Some (y = x)"
| "id_contains (Small v) x = Some (is_found (binary_search v x))"
| "id_contains (Large m) x = cm_contains_key m x"

fun id_insert :: "id_set \<Rightarrow> u32 \<Rightarrow> (bool \<times> id_set) option" where
  "id_insert (One y) x =
     (if y = x then Some (False, One y)
      else Some (True, Small (if y < x then [y, x] else [x, y])))"
| "id_insert (Small v) x =
     (if v = [] then Some (True, One x)
      else case binary_search v x of
        Found _ \<Rightarrow> Some (False, Small v)
      | Missing i \<Rightarrow>
          if length v < SMALL_MAX then map_option (\<lambda>v'. (True, Small v')) (vec_insert i x v)
          else do {
            m \<leftarrow> cm_from_sorted (map (\<lambda>i. (i, ())) v);
            (_, m') \<leftarrow> cm_insert m x ();
            Some (True, Large m') })"
| "id_insert (Large m) x = do { (old, m') \<leftarrow> cm_insert m x (); Some (old = None, Large m') }"

fun id_remove :: "id_set \<Rightarrow> u32 \<Rightarrow> (bool \<times> id_set) option" where
  "id_remove (One y) x = (if y = x then Some (True, Small []) else Some (False, One y))"
| "id_remove (Small v) x =
     (case binary_search v x of
        Found i \<Rightarrow> do {
          (_, v') \<leftarrow> vec_remove i v;
          Some (True, case v' of [only] \<Rightarrow> One only | _ \<Rightarrow> Small v') }
      | Missing _ \<Rightarrow> Some (False, Small v))"
| "id_remove (Large m) x = do { (old, m') \<leftarrow> cm_remove m x; Some (old \<noteq> None, Large m') }"

text \<open>The ids an iterator yields when it is run to its end.\<close>

fun id_iter :: "id_set \<Rightarrow> u32 list option" where
  "id_iter (One x) = Some [x]"
| "id_iter (Small v) = Some v"
| "id_iter (Large m) = do {
     it \<leftarrow> cm_range m Unbounded Unbounded;
     es \<leftarrow> range_collect (Suc (cm_len m)) it;
     Some (map fst es) }"

definition id_eq :: "id_set \<Rightarrow> id_set \<Rightarrow> bool option" where
  "id_eq s t =
     (if id_len s \<noteq> id_len t then Some False
      else do { xs \<leftarrow> id_iter s; ys \<leftarrow> id_iter t; Some (xs = ys) })"

definition id_from_iter :: "u32 list \<Rightarrow> id_set option" where
  "id_from_iter xs = foldl (\<lambda>r x. r \<bind> (\<lambda>s. map_option snd (id_insert s x))) (Some id_new) xs"


section \<open>The three representations keep the contract\<close>

fun id_elems :: "id_set \<Rightarrow> u32 list" where
  "id_elems (One x) = [x]"
| "id_elems (Small v) = v"
| "id_elems (Large m) = om_keys (cm_entries m)"

fun id_inv :: "id_set \<Rightarrow> bool" where
  "id_inv (One x) \<longleftrightarrow> True"
| "id_inv (Small v) \<longleftrightarrow> strict v \<and> length v \<noteq> 1 \<and> length v \<le> SMALL_MAX"
| "id_inv (Large m) \<longleftrightarrow> cm_inv m"

fun id_room :: "id_set \<Rightarrow> bool" where
  "id_room (Large m) \<longleftrightarrow> cm_height m \<le> MAX_DEPTH"
| "id_room _ \<longleftrightarrow> True"

lemma is_found_iff: "strict v \<Longrightarrow> is_found (binary_search v x) \<longleftrightarrow> x \<in> set v"
  using binary_search_Found_iff [of v x] by (auto simp: is_found_def split: search.split)

lemma id_strict: "id_inv s \<Longrightarrow> strict (id_elems s)"
  by (cases s) (auto dest: cm_inv_wf)

lemma id_contains_correct: "id_inv s \<Longrightarrow> id_contains s x = Some (x \<in> set (id_elems s))"
proof (cases s)
  case (Large m)
  assume "id_inv s"
  with Large have "cm_get m x = Some (map_of (cm_entries m) x)" by (simp add: cm.get_law)
  then show ?thesis using om_get_None_iff [of "cm_entries m" x] Large
    by (simp add: cm_contains_key_def del: not_None_eq)
qed (auto simp: is_found_iff)

lemma small_insert:
  assumes "binary_search v x = Missing i" and "strict v"
  shows "vec_insert i x v = Some (take i v @ x # drop i v)"
    and "strict (take i v @ x # drop i v)" and "set (take i v @ x # drop i v) = insert x (set v)"
    and "x \<notin> set v"
proof -
  note pos = binary_search_Missing [OF assms]
  show "vec_insert i x v = Some (take i v @ x # drop i v)" using pos(1) by (simp add: vec_insert_def)
  have "strict (take i v @ drop i v)" using assms(2) by simp
  moreover have "\<forall>y\<in>set (take i v). y < x" "\<forall>y\<in>set (drop i v). x < y"
    using pos by (auto simp: in_set_conv_nth)
  ultimately show "strict (take i v @ x # drop i v)" unfolding strict_append by (auto simp: strict_simps)
  show "set (take i v @ x # drop i v) = insert x (set v)"
    using set_append [of "take i v" "drop i v"] by simp
  show "x \<notin> set v" using binary_search_Found_iff [OF assms(2), of x] assms(1) by auto
qed

lemma small_remove:
  assumes "binary_search v x = Found i" and "strict v"
  shows "vec_remove i v = Some (x, take i v @ drop (Suc i) v)"
    and "strict (take i v @ drop (Suc i) v)" and "set (take i v @ drop (Suc i) v) = set v - {x}"
    and "x \<in> set v"
proof -
  have i: "i < length v" "v ! i = x" using binary_search_Found [OF assms(1) strict_sorted [OF assms(2)]] by auto
  then show "vec_remove i v = Some (x, take i v @ drop (Suc i) v)" by (simp add: vec_remove_def)
  have v: "v = take i v @ x # drop (Suc i) v" using id_take_nth_drop [OF i(1)] i(2) by simp
  then have "strict (take i v @ x # drop (Suc i) v)" using assms(2) by simp
  then show "strict (take i v @ drop (Suc i) v)" unfolding strict_append by (auto simp: strict_simps)
  have "distinct (take i v @ x # drop (Suc i) v)" using strict_distinct [OF assms(2)] v by simp
  moreover have "set v = set (take i v @ x # drop (Suc i) v)" using v by simp
  ultimately show "set (take i v @ drop (Suc i) v) = set v - {x}" by auto
  show "x \<in> set v" using i by auto
qed

lemma cm_unit_insert:
  assumes "cm_inv m"
  obtains m' where "cm_insert m x () = Some (map_of (cm_entries m) x, m')" and "cm_inv m'"
    and "set (om_keys (cm_entries m')) = insert x (set (om_keys (cm_entries m)))"
    and "map_of (cm_entries m) x = None \<longleftrightarrow> x \<notin> set (om_keys (cm_entries m))"
  using cm.ins_law [OF assms, of x "()"] om_get_None_iff [of "cm_entries m" x] that
  by (auto simp: set_keys_insert)

lemma id_insert_correct:
  assumes "id_inv s"
  shows "\<exists>s'. id_insert s x = Some (x \<notin> set (id_elems s), s') \<and> id_inv s'
    \<and> set (id_elems s') = insert x (set (id_elems s))"
proof (cases s)
  case (Small v)
  then have v: "strict v" "length v \<noteq> 1" "length v \<le> 64" using assms by auto
  show ?thesis
  proof (cases "v = []")
    case False
    show ?thesis
    proof (cases "binary_search v x")
      case (Found i)
      then show ?thesis using False Small assms small_remove(4) [OF Found v(1)] by auto
    next
      case (Missing i)
      note ins = small_insert [OF Missing v(1)]
      have i: "i \<le> length v" by (rule binary_search_Missing(1) [OF Missing v(1)])
      show ?thesis
      proof (cases "length v < 64")
        case True
        then show ?thesis using False Small Missing ins i by simp
      next
        case full: False
        have "om_wf (map (\<lambda>i. (i, ())) v)" using v(1) by (simp add: comp_def)
        then obtain m where m: "cm_from_sorted (map (\<lambda>i. (i, ())) v) = Some m" "cm_inv m"
          "cm_entries m = map (\<lambda>i. (i, ())) v" by (rule cm_from_sorted_correct)
        obtain m' where "cm_insert m x () = Some (map_of (cm_entries m) x, m')" "cm_inv m'"
          "set (om_keys (cm_entries m')) = insert x (set v)"
          by (rule cm_unit_insert [OF m(2), of x]) (auto simp: m(3) comp_def)
        then show ?thesis using full False Small Missing m ins(4) by simp
      qed
    qed
  qed (use Small in simp)
next
  case (Large m)
  then have "cm_inv m" using assms by simp
  then show ?thesis by (rule cm_unit_insert [of m x]) (auto simp: Large)
qed (auto simp: strict_simps)

lemma id_remove_correct:
  assumes "id_inv s" and "id_room s"
  shows "\<exists>s'. id_remove s x = Some (x \<in> set (id_elems s), s') \<and> id_inv s'
    \<and> set (id_elems s') = set (id_elems s) - {x}"
proof (cases s)
  case (Small v)
  then have v: "strict v" "length v \<le> 64" using assms by auto
  show ?thesis
  proof (cases "binary_search v x")
    case (Found i)
    note rem = small_remove [OF Found v(1)]
    have "length (take i v @ drop (Suc i) v) \<le> 64" using v(2) by simp
    then show ?thesis using Small Found rem
      by (cases "take i v @ drop (Suc i) v" rule: list.exhaust; cases "tl (take i v @ drop (Suc i) v)")
        (auto split: list.split)
  next
    case (Missing i)
    then show ?thesis using Small assms small_insert(4) [OF Missing v(1)] by simp
  qed
next
  case (Large m)
  then obtain m' where "cm_remove m x = Some (map_of (cm_entries m) x, m')" "cm_inv m'"
    "cm_entries m' = om_remove x (cm_entries m)" using cm.del_law [of m x] assms by auto
  then show ?thesis using Large om_get_None_iff [of "cm_entries m" x]
    by (auto simp: set_keys_remove simp del: not_None_eq)
qed auto

interpretation ids: ordered_set id_new id_contains id_insert id_remove id_elems id_inv id_room
  using id_insert_correct id_remove_correct
  by unfold_locales (auto simp: id_new_def id_strict id_contains_correct)

lemma id_iter_elems: "id_inv s \<Longrightarrow> id_iter s = Some (id_elems s)"
proof (cases s)
  case (Large m)
  assume "id_inv s"
  with Large have m: "cm_inv m" "cm_len m = length (cm_entries m)" by (simp_all add: cm_inv_def)
  obtain it where it: "cm_range m Unbounded Unbounded = Some it"
    using cm_range_correct(1) [OF m(1), of Unbounded Unbounded] by auto
  have "range_collect (Suc (cm_len m)) it = Some (cm_entries m)"
    using cm_range_correct(2) [OF m(1) it, of "Suc (cm_len m)"] m(2)
    by (simp add: in_range_def before_start_def past_end_def)
  then show ?thesis using Large it by (simp del: range_collect.simps)
qed auto

lemma id_len_elems: "id_inv s \<Longrightarrow> id_len s = length (id_elems s)"
  by (cases s) (auto simp: cm_inv_def)


section \<open>Histories of a set\<close>

inductive id_set_run :: "nat \<Rightarrow> id_set \<Rightarrow> bool" where
  id_run_new: "id_set_run 0 id_new"
| id_run_insert: "id_set_run n s \<Longrightarrow> id_insert s x = Some (new, s') \<Longrightarrow> id_set_run (Suc n) s'"
| id_run_remove: "id_set_run n s \<Longrightarrow> id_remove s x = Some (was, s') \<Longrightarrow> id_set_run n s'"

fun id_afforded :: "nat \<Rightarrow> id_set \<Rightarrow> bool" where
  "id_afforded n (Large m) \<longleftrightarrow> afforded n m"
| "id_afforded n _ \<longleftrightarrow> True"

lemma id_afforded_room: "id_afforded n s \<Longrightarrow> n < 2 ^ 64 \<Longrightarrow> id_room s"
  using afforded_height [of n _ 15] by (cases s) fastforce+

lemma card_elems: "id_inv s \<Longrightarrow> length (id_elems s) = card (set (id_elems s))"
  by (rule distinct_card [symmetric]) (rule strict_distinct [OF id_strict])

lemma id_afforded_insert:
  assumes "id_inv s" and "id_afforded n s" and "length (id_elems s) \<le> n" and "id_insert s x = Some (new, s')"
  shows "id_afforded (Suc n) s'"
proof (cases s)
  case (One y)
  then show ?thesis using assms(4) by (auto split: if_splits)
next
  case (Large m)
  then show ?thesis using assms afforded_insert [of m n x "()"] by (auto split: bind_splits)
next
  case (Small v)
  show ?thesis
  proof (cases s')
    case (Large m')
    then obtain m old where v: "length v = 64" and m: "cm_from_sorted (map (\<lambda>i. (i, ())) v) = Some m"
      "cm_insert m x () = Some (old, m')"
      using assms(1,4) Small by (auto split: if_splits search.splits bind_splits)
    have wf: "om_wf (map (\<lambda>i. (i, ())) v)" using assms(1) Small by (simp add: comp_def)
    then have "cm_inv m" by (rule cm_from_sorted_correct) (simp add: m(1))
    moreover have "afforded 64 m" using from_sorted_afforded [OF wf m(1)] v by simp
    ultimately have "afforded (Suc 64) m'" by (rule afforded_insert) (rule m(2))
    then show ?thesis using Large assms(3) Small v by (auto intro: afforded_mono)
  qed auto
qed

lemma id_afforded_remove:
  "id_afforded n s \<Longrightarrow> id_remove s x = Some (was, s') \<Longrightarrow> id_afforded n s'"
proof (cases s)
  case (Large m)
  then show "id_afforded n s \<Longrightarrow> id_remove s x = Some (was, s') \<Longrightarrow> id_afforded n s'"
    using afforded_remove [of n m x] by (auto split: bind_splits)
qed (auto split: if_splits search.splits bind_splits list.splits)

lemma id_set_run_ok:
  "id_set_run n s \<Longrightarrow> n < 2 ^ 64 \<Longrightarrow> id_inv s \<and> id_afforded n s \<and> length (id_elems s) \<le> n"
proof (induction rule: id_set_run.induct)
  case (id_run_insert n s x new s')
  then have s: "id_inv s" "id_afforded n s" "length (id_elems s) \<le> n" by auto
  have s': "id_inv s'" "set (id_elems s') = insert x (set (id_elems s))"
    using ids.ins_law [OF s(1), of x] id_run_insert.hyps(2) by auto
  have "length (id_elems s') \<le> Suc (length (id_elems s))"
    unfolding card_elems [OF s(1)] card_elems [OF s'(1)] s'(2) by (simp add: card_insert_le_m1 card_insert_if)
  then show ?case using s s'(1) id_afforded_insert [OF s id_run_insert.hyps(2)] by simp
next
  case (id_run_remove n s x was s')
  then have s: "id_inv s" "id_afforded n s" "length (id_elems s) \<le> n" by auto
  have s': "id_inv s'" "set (id_elems s') = set (id_elems s) - {x}"
    using ids.del_law [OF s(1) id_afforded_room [OF s(2) id_run_remove.prems], of x] id_run_remove.hyps(2) by auto
  have "length (id_elems s') \<le> length (id_elems s)"
    unfolding card_elems [OF s(1)] card_elems [OF s'(1)] s'(2) by (simp add: card_mono)
  then show ?case using s s'(1) id_afforded_remove [OF s(2) id_run_remove.hyps(2)] by simp
qed (simp add: id_new_def)


section \<open>Properties\<close>

text \<open>
  C24: an id set after any history with fewer than \<open>2^64\<close> insertions behaves as a set of ids:
  no operation panics, membership is membership, insert and remove report whether they changed
  the set and add or drop exactly that id, the iterator yields the ids in ascending order, and the
  length is their number.
\<close>

theorem id_set_is_a_set:
  assumes "id_set_run n s" and "n < 2 ^ 64"
  shows "strict (id_elems s) \<and> id_iter s = Some (id_elems s) \<and> id_len s = card (set (id_elems s))
    \<and> id_contains s x = Some (x \<in> set (id_elems s))
    \<and> (\<exists>s'. id_insert s x = Some (x \<notin> set (id_elems s), s') \<and> set (id_elems s') = insert x (set (id_elems s)))
    \<and> (\<exists>s'. id_remove s x = Some (x \<in> set (id_elems s), s') \<and> set (id_elems s') = set (id_elems s) - {x})"
proof -
  have s: "id_inv s" "id_room s" using id_set_run_ok [OF assms] id_afforded_room [OF _ assms(2)] by auto
  show ?thesis
    using id_strict [OF s(1)] id_iter_elems [OF s(1)] id_len_elems [OF s(1)] card_elems [OF s(1)]
      ids.member_law [OF s(1)] ids.ins_law [OF s(1), of x] ids.del_law [OF s, of x] by auto
qed

theorem id_set_is_a_set_witness:
  "id_contains id_new 3 = Some False
   \<and> (\<exists>s'. id_insert id_new 3 = Some (True, s') \<and> set (id_elems s') = {3})"
  using id_set_is_a_set [OF id_run_new, of 3] by (auto simp: id_new_def)

text \<open>
  two id sets compare equal exactly when they hold the same ids, whichever of the three
  representations each is in; and collecting a sequence of ids gives its ids, sorted, without
  duplicates.
\<close>

theorem id_set_equality:
  assumes "id_inv s" and "id_inv t"
  shows "id_eq s t = Some (set (id_elems s) = set (id_elems t))
    \<and> (\<exists>u. id_from_iter xs = Some u \<and> id_inv u \<and> id_iter u = Some (sort_dedup xs))"
proof -
  have "id_eq s t = Some (set (id_elems s) = set (id_elems t))"
    using ids.elems_eq_iff [OF assms] id_len_elems [OF assms(1)] id_len_elems [OF assms(2)]
      card_elems [OF assms(1)] card_elems [OF assms(2)]
    by (auto simp: id_eq_def id_iter_elems [OF assms(1)] id_iter_elems [OF assms(2)])
  moreover obtain u where u: "id_from_iter xs = Some u" "id_inv u" "set (id_elems u) = set xs"
    using ids.collect [of id_new xs] by (auto simp: id_from_iter_def id_new_def)
  moreover have "id_elems u = sort_dedup xs"
    by (rule strict_set_eqI) (use u id_strict in auto)
  ultimately show ?thesis using id_iter_elems [OF u(2)] by simp
qed

theorem id_set_equality_witness:
  "id_eq (One 7) (Small []) = Some False \<and> (\<exists>u. id_from_iter [9, 2, 9] = Some u \<and> id_iter u = Some (sort_dedup [9, 2, 9]))"
  using id_set_equality [of "One 7" "Small []" "[9, 2, 9]"] by auto

end
