(* ===== verification/Hash_Index.thy ===== *)
theory Hash_Index
  imports Rust_Prelude "HOL-Library.AList"
begin

text \<open>
  \<open>HashIndex\<close> (\<open>crates/core-storage/src/cow.rs\<close>): strings to dense ids, for a caller that keeps the
  strings. A string is found by its 64-bit hash in one of 1024 shards and confirmed by asking the
  caller which string the id stands for; a string whose hash another string already holds is
  kept by value. The hash function is keyed at random by each index, so it is a parameter of the
  model; nothing is assumed of it, and in particular every string may collide.

  A \<open>HashMap\<close> is an association list with distinct keys (its order is never observed), read by
  \<open>map_of\<close> and written by \<open>AList.update\<close> and \<open>AList.delete\<close>.
\<close>

type_synonym hash_fn = "string \<Rightarrow> u64"
type_synonym resolver = "u32 \<Rightarrow> string option"

definition HASH_SHARDS :: nat where "HASH_SHARDS = 1024"

lemma HASH_SHARDS_eq [simp]: "HASH_SHARDS = 1024" by (simp add: HASH_SHARDS_def)

record hash_index =
  hi_shards :: "(u64 \<times> u32) list list"
  hi_collided :: "(string \<times> u32) list"
  hi_len :: nat

definition hi_new :: hash_index where
  "hi_new = \<lparr>hi_shards = [], hi_collided = [], hi_len = 0\<rparr>"

definition shard_of :: "u64 \<Rightarrow> nat" where
  "shard_of h = unat (drop_bit 32 h) mod HASH_SHARDS"

text \<open>The id at hash \<open>h\<close> in its shard; before the first insert there are no shards.\<close>

definition shard_get :: "hash_index \<Rightarrow> u64 \<Rightarrow> u32 option" where
  "shard_get idx h = do { s \<leftarrow> nth_opt (hi_shards idx) (shard_of h); map_of s h }"

definition hi_get_hashed :: "hash_index \<Rightarrow> string \<Rightarrow> u64 \<Rightarrow> resolver \<Rightarrow> u32 option" where
  "hi_get_hashed idx key h resolve =
     (case shard_get idx h of
        Some i \<Rightarrow> if resolve i = Some key then Some i
                 else if hi_collided idx = [] then None else map_of (hi_collided idx) key
      | None \<Rightarrow> if hi_collided idx = [] then None else map_of (hi_collided idx) key)"

definition hi_get :: "hash_fn \<Rightarrow> hash_index \<Rightarrow> string \<Rightarrow> resolver \<Rightarrow> u32 option" where
  "hi_get hash idx key resolve = hi_get_hashed idx key (hash key) resolve"

definition hi_insert_hashed :: "hash_index \<Rightarrow> string \<Rightarrow> u64 \<Rightarrow> u32 \<Rightarrow> hash_index option" where
  "hi_insert_hashed idx key h i =
     (let shards = (if hi_shards idx = [] then replicate HASH_SHARDS [] else hi_shards idx)
      in do {
        shard \<leftarrow> nth_opt shards (shard_of h);
        Some (if map_of shard h \<noteq> None
          then \<lparr>hi_shards = shards, hi_collided = AList.update key i (hi_collided idx), hi_len = hi_len idx + 1\<rparr>
          else \<lparr>hi_shards = shards[shard_of h := AList.update h i shard],
                hi_collided = hi_collided idx, hi_len = hi_len idx + 1\<rparr>) })"

definition hi_insert :: "hash_fn \<Rightarrow> hash_index \<Rightarrow> string \<Rightarrow> u32 \<Rightarrow> hash_index option" where
  "hi_insert hash idx key i = hi_insert_hashed idx key (hash key) i"

text \<open>The collided half of \<open>remove\<close>.\<close>

definition hi_remove_collided :: "hash_index \<Rightarrow> string \<Rightarrow> u32 option \<times> hash_index" where
  "hi_remove_collided idx key =
     (case map_of (hi_collided idx) key of
        None \<Rightarrow> (None, idx)
      | Some i \<Rightarrow> (Some i, idx\<lparr>hi_len := hi_len idx - 1, hi_collided := AList.delete key (hi_collided idx)\<rparr>))"

definition hi_remove :: "hash_fn \<Rightarrow> hash_index \<Rightarrow> string \<Rightarrow> resolver \<Rightarrow> (u32 option \<times> hash_index) option" where
  "hi_remove hash idx key resolve =
     (let h = hash key in
      case shard_get idx h of
        Some i \<Rightarrow>
          if resolve i = Some key
          then do {
            shard \<leftarrow> nth_opt (hi_shards idx) (shard_of h);
            Some (Some i, idx\<lparr>hi_shards := (hi_shards idx)[shard_of h := AList.delete h shard],
                              hi_len := hi_len idx - 1\<rparr>) }
          else Some (hi_remove_collided idx key)
      | None \<Rightarrow> Some (hi_remove_collided idx key))"


section \<open>The interface of a string index\<close>

text \<open>
  \<open>resolves r K\<close>: the caller's table answers every indexed id with its string. \<open>rel idx K\<close> says that
  the index stands for the map \<open>K\<close>.
\<close>

definition resolves :: "resolver \<Rightarrow> (string \<rightharpoonup> u32) \<Rightarrow> bool" where
  "resolves r K \<longleftrightarrow> (\<forall>key i. K key = Some i \<longrightarrow> r i = Some key)"

locale string_index =
  fixes empty :: 'i
    and get :: "'i \<Rightarrow> string \<Rightarrow> resolver \<Rightarrow> u32 option"
    and ins :: "'i \<Rightarrow> string \<Rightarrow> u32 \<Rightarrow> 'i option"
    and del :: "'i \<Rightarrow> string \<Rightarrow> resolver \<Rightarrow> (u32 option \<times> 'i) option"
    and size :: "'i \<Rightarrow> nat"
    and rel :: "'i \<Rightarrow> (string \<rightharpoonup> u32) \<Rightarrow> bool"
  assumes empty_law: "rel empty Map.empty"
    and get_law: "rel idx K \<Longrightarrow> resolves r K \<Longrightarrow> get idx key r = K key"
    and ins_law: "rel idx K \<Longrightarrow> K key = None \<Longrightarrow> \<exists>idx'. ins idx key i = Some idx' \<and> rel idx' (K(key \<mapsto> i))"
    and del_law: "rel idx K \<Longrightarrow> resolves r K \<Longrightarrow>
      \<exists>idx'. del idx key r = Some (K key, idx') \<and> rel idx' (K(key := None))"
    and size_law: "rel idx K \<Longrightarrow> finite (dom K) \<and> size idx = card (dom K)"
begin

lemma get_after_ins:
  assumes "rel idx K" and "K key = None" and "ins idx key i = Some idx'" and "resolves r (K(key \<mapsto> i))"
  shows "get idx' key r = Some i" and "key' \<noteq> key \<Longrightarrow> get idx' key' r = K key'"
  using ins_law [OF assms(1,2), of i] get_law [OF _ assms(4)] assms(3) by auto

lemma get_after_del:
  assumes "rel idx K" and "resolves r K" and "del idx key r = Some (old, idx')" and "resolves r' (K(key := None))"
  shows "get idx' key r' = None" and "key' \<noteq> key \<Longrightarrow> get idx' key' r' = K key'"
  using del_law [OF assms(1,2), of key] get_law [OF _ assms(4)] assms(3) by auto

end


section \<open>The index keeps the interface\<close>

definition hi_rel :: "hash_fn \<Rightarrow> hash_index \<Rightarrow> (string \<rightharpoonup> u32) \<Rightarrow> bool" where
  "hi_rel hash idx K \<longleftrightarrow>
     (hi_shards idx = [] \<or> length (hi_shards idx) = HASH_SHARDS)
     \<and> (\<forall>h i. shard_get idx h = Some i \<longrightarrow> (\<exists>key. hash key = h \<and> K key = Some i \<and> map_of (hi_collided idx) key = None))
     \<and> (\<forall>key i. map_of (hi_collided idx) key = Some i \<longrightarrow> K key = Some i)
     \<and> (\<forall>key i. K key = Some i \<longrightarrow> map_of (hi_collided idx) key = Some i \<or> shard_get idx (hash key) = Some i)
     \<and> finite (dom K) \<and> hi_len idx = card (dom K)"

lemma hi_relD:
  assumes "hi_rel hash idx K"
  shows "hi_shards idx = [] \<or> length (hi_shards idx) = 1024"
    and "shard_get idx h = Some i \<Longrightarrow> \<exists>key. hash key = h \<and> K key = Some i \<and> map_of (hi_collided idx) key = None"
    and "map_of (hi_collided idx) key = Some i \<Longrightarrow> K key = Some i"
    and "K key = Some i \<Longrightarrow> map_of (hi_collided idx) key = Some i \<or> shard_get idx (hash key) = Some i"
    and "finite (dom K)" and "hi_len idx = card (dom K)"
  using assms unfolding hi_rel_def HASH_SHARDS_eq by blast+

text \<open>A string that its shard does not answer for is found, if at all, among the collided ones.\<close>

lemma collided_answers:
  assumes rel: "hi_rel hash idx K" and "resolves r K"
    and miss: "\<And>i. shard_get idx (hash key) = Some i \<Longrightarrow> r i \<noteq> Some key"
  shows "map_of (hi_collided idx) key = K key"
proof (cases "K key")
  case None
  then show ?thesis using hi_relD(3) [OF rel, of key] by (cases "map_of (hi_collided idx) key") auto
next
  case (Some i)
  then have "r i = Some key" using assms(2) by (simp add: resolves_def)
  then show ?thesis using hi_relD(4) [OF rel Some] miss [of i] Some by auto
qed

text \<open>A string that its shard does answer for is there under its own id.\<close>

lemma shard_answers:
  assumes rel: "hi_rel hash idx K" and "resolves r K"
    and "shard_get idx (hash key) = Some i" and "r i = Some key"
  shows "K key = Some i" and "map_of (hi_collided idx) key = None"
proof -
  obtain key' where "K key' = Some i" "map_of (hi_collided idx) key' = None"
    using hi_relD(2) [OF rel assms(3)] by blast
  moreover then have "key' = key" using assms(2,4) by (auto simp: resolves_def)
  ultimately show "K key = Some i" and "map_of (hi_collided idx) key = None" by simp_all
qed

lemma hi_get_rel:
  assumes rel: "hi_rel hash idx K" and r: "resolves r K"
  shows "hi_get hash idx key r = K key"
proof -
  have "(if hi_collided idx = [] then None else map_of (hi_collided idx) key) = map_of (hi_collided idx) key"
    by simp
  then show ?thesis
    using collided_answers [OF rel r, of key] shard_answers(1) [OF rel r, of key]
    unfolding hi_get_def hi_get_hashed_def by (auto split: option.splits)
qed

definition hi_tables :: "hash_index \<Rightarrow> (u64 \<times> u32) list list" where
  "hi_tables idx = (if hi_shards idx = [] then replicate HASH_SHARDS [] else hi_shards idx)"

lemma shard_of_less: "shard_of h < 1024"
  by (simp add: shard_of_def)

lemma shard_get_tables:
  assumes "hi_shards idx = [] \<or> length (hi_shards idx) = 1024"
  shows "length (hi_tables idx) = 1024" and "shard_get idx h = map_of (hi_tables idx ! shard_of h) h"
  using assms shard_of_less [of h] by (auto simp: hi_tables_def shard_get_def)

lemma shard_get_update:
  assumes "length shards = 1024" and "hi_shards idx' = shards[shard_of h := s]"
    and "\<And>h'. map_of s h' = ((map_of (shards ! shard_of h))(h := v)) h'"
  shows "shard_get idx' h' = (if h' = h then v else map_of (shards ! shard_of h') h')"
  using assms shard_of_less [of h] shard_of_less [of h']
  by (auto simp: shard_get_def nth_list_update)

lemma hi_insert_rel:
  assumes rel: "hi_rel hash idx K" and new: "K key = None"
  shows "\<exists>idx'. hi_insert hash idx key i = Some idx' \<and> hi_rel hash idx' (K(key \<mapsto> i))"
proof -
  let ?h = "hash key"
  note D = hi_relD [OF rel] and T = shard_get_tables [OF hi_relD(1) [OF rel]]
  have nc: "map_of (hi_collided idx) key = None" using D(3) new by (cases "map_of (hi_collided idx) key") auto
  have card: "card (insert key (dom K)) = Suc (card (dom K))" using D(5) new by (subst card_insert_disjoint) auto
  show ?thesis
  proof (cases "shard_get idx ?h")
    case (Some j)
    define idx' where "idx' = \<lparr>hi_shards = hi_tables idx, hi_collided = AList.update key i (hi_collided idx), hi_len = hi_len idx + 1\<rparr>"
    have f: "hi_shards idx' = hi_tables idx" "hi_len idx' = Suc (hi_len idx)"
      "map_of (hi_collided idx') = (map_of (hi_collided idx))(key \<mapsto> i)"
      by (simp_all add: idx'_def update_conv')
    have "hi_insert hash idx key i = Some idx'"
      using Some T shard_of_less [of ?h]
      by (simp add: hi_insert_def hi_insert_hashed_def hi_tables_def [symmetric] Let_def idx'_def)
    moreover have sg: "shard_get idx' h = shard_get idx h" for h
      using T(1) T(2) [of h] shard_of_less [of h] by (simp add: shard_get_def [of idx'] f)
    have "\<exists>key'. hash key' = h \<and> (K(key \<mapsto> i)) key' = Some j \<and> map_of (hi_collided idx') key' = None"
      if "shard_get idx h = Some j" for h j
      using D(2) [OF that] new unfolding f(3) by (metis fun_upd_other option.distinct(1))
    then have "hi_rel hash idx' (K(key \<mapsto> i))"
      unfolding hi_rel_def sg f(1,2) using T(1) D(3-6) card by (auto simp: f(3))
    ultimately show ?thesis by blast
  next
    case None
    let ?s = "AList.update ?h i (hi_tables idx ! shard_of ?h)"
    define idx' where "idx' = \<lparr>hi_shards = (hi_tables idx)[shard_of ?h := ?s], hi_collided = hi_collided idx, hi_len = hi_len idx + 1\<rparr>"
    have f: "hi_shards idx' = (hi_tables idx)[shard_of ?h := ?s]" "hi_collided idx' = hi_collided idx" "hi_len idx' = Suc (hi_len idx)"
      by (simp_all add: idx'_def)
    have "hi_insert hash idx key i = Some idx'"
      using None T shard_of_less [of ?h]
      by (simp add: hi_insert_def hi_insert_hashed_def hi_tables_def [symmetric] Let_def idx'_def)
    moreover have sg: "shard_get idx' h = (if h = ?h then Some i else shard_get idx h)" for h
      using shard_get_update [OF T(1) f(1), of "Some i" h] T(2) [of h] by (simp add: update_conv)
    have "\<exists>key'. hash key' = h \<and> (K(key \<mapsto> i)) key' = Some j \<and> map_of (hi_collided idx) key' = None"
      if "shard_get idx' h = Some j" for h j
      using that D(2) [of h j] new nc by (cases "h = ?h") (auto simp: sg)
    moreover have "map_of (hi_collided idx) key' = Some j \<or> shard_get idx' (hash key') = Some j"
      if "(K(key \<mapsto> i)) key' = Some j" for key' j
      using that D(4) [of key' j] None by (auto simp: sg split: if_splits)
    moreover have "(K(key \<mapsto> i)) key' = Some j" if "map_of (hi_collided idx) key' = Some j" for key' j
      using that D(3) nc by (cases "key' = key") auto
    ultimately have "hi_rel hash idx' (K(key \<mapsto> i))"
      unfolding hi_rel_def using T(1) D(5,6) card by (simp add: f)
    with \<open>hi_insert hash idx key i = Some idx'\<close> show ?thesis by blast
  qed
qed

lemma hi_remove_rel:
  assumes rel: "hi_rel hash idx K" and r: "resolves r K"
  shows "\<exists>idx'. hi_remove hash idx key r = Some (K key, idx') \<and> hi_rel hash idx' (K(key := None))"
proof (cases "\<exists>i. shard_get idx (hash key) = Some i \<and> r i = Some key")
  case True
  then obtain i where i: "shard_get idx (hash key) = Some i" "r i = Some key" by blast
  let ?h = "hash key" and ?s = "AList.delete (hash key) (hi_tables idx ! shard_of (hash key))"
  note D = hi_relD [OF rel] and T = shard_get_tables [OF hi_relD(1) [OF rel]] and S = shard_answers [OF rel r i]
  have t: "hi_tables idx = hi_shards idx" using i(1) by (auto simp: hi_tables_def shard_get_def)
  define idx' where "idx' = idx\<lparr>hi_shards := (hi_tables idx)[shard_of ?h := ?s], hi_len := hi_len idx - 1\<rparr>"
  have f: "hi_shards idx' = (hi_tables idx)[shard_of ?h := ?s]" "hi_collided idx' = hi_collided idx" "hi_len idx' = hi_len idx - 1"
    by (simp_all add: idx'_def)
  have "hi_remove hash idx key r = Some (Some i, idx')"
    using i T(1) shard_of_less [of ?h] by (simp add: hi_remove_def Let_def t idx'_def)
  moreover have sg: "shard_get idx' h = (if h = ?h then None else shard_get idx h)" for h
    using shard_get_update [OF T(1) f(1), of None h] T(2) [of h] by (simp add: delete_conv)
  have card: "card (dom K - {key}) = card (dom K) - 1" using S(1) by (subst card_Diff_singleton) auto
  have "\<exists>key'. hash key' = h \<and> (K(key := None)) key' = Some j \<and> map_of (hi_collided idx) key' = None"
    if "shard_get idx' h = Some j" for h j
    using that D(2) [of h j] by (cases "h = ?h") (auto simp: sg)
  moreover have "map_of (hi_collided idx) key' = Some j \<or> shard_get idx' (hash key') = Some j"
    if "(K(key := None)) key' = Some j" for key' j
  proof (cases "hash key' = ?h")
    case same: True
    from that have k': "K key' = Some j" "key' \<noteq> key" by (auto split: if_splits)
    then have "r j = Some key'" using r by (simp add: resolves_def)
    then show ?thesis using D(4) [OF k'(1)] i same k'(2) by auto
  qed (use that D(4) [of key' j] in \<open>auto simp: sg split: if_splits\<close>)
  moreover have "(K(key := None)) key' = Some j" if "map_of (hi_collided idx) key' = Some j" for key' j
    using that D(3) S(2) by (cases "key' = key") auto
  ultimately have "hi_rel hash idx' (K(key := None))"
    unfolding hi_rel_def using T(1) D(5,6) card by (simp add: f)
  with \<open>hi_remove hash idx key r = Some (Some i, idx')\<close> show ?thesis using S(1) by auto
next
  case False
  then have c: "map_of (hi_collided idx) key = K key" using collided_answers [OF rel r, of key] by blast
  have "hi_remove hash idx key r = Some (hi_remove_collided idx key)"
    using False by (auto simp: hi_remove_def Let_def split: option.splits)
  moreover have "hi_rel hash (snd (hi_remove_collided idx key)) (K(key := None)) \<and> fst (hi_remove_collided idx key) = K key"
  proof (cases "K key")
    case None
    then have "K(key := None) = K" by auto
    then show ?thesis using None c rel by (simp add: hi_remove_collided_def)
  next
    case (Some i)
    note D = hi_relD [OF rel]
    let ?idx = "idx\<lparr>hi_len := hi_len idx - 1, hi_collided := AList.delete key (hi_collided idx)\<rparr>"
    have sg: "shard_get ?idx h = shard_get idx h" for h by (simp add: shard_get_def)
    have card: "card (dom K - {key}) = card (dom K) - 1" using Some by (subst card_Diff_singleton) auto
    have "\<exists>key'. hash key' = h \<and> (K(key := None)) key' = Some j \<and> map_of (AList.delete key (hi_collided idx)) key' = None"
      if "shard_get idx h = Some j" for h j
      using D(2) [OF that] Some c unfolding delete_conv' by (metis fun_upd_other option.distinct(1))
    then have "hi_rel hash ?idx (K(key := None))"
      unfolding hi_rel_def sg using D(1,3-6) card by (auto simp: delete_conv')
    then show ?thesis using Some c by (simp add: hi_remove_collided_def)
  qed
  ultimately show ?thesis by (cases "hi_remove_collided idx key") auto
qed

lemma hi_new_rel: "hi_rel hash hi_new Map.empty"
  by (simp add: hi_rel_def hi_new_def shard_get_def)

interpretation hi: string_index hi_new "hi_get hash" "hi_insert hash" "hi_remove hash" hi_len "hi_rel hash"
  for hash
  by unfold_locales (simp_all add: hi_new_rel hi_get_rel hi_insert_rel hi_remove_rel hi_relD(5,6))

end
