(* ===== verification/Value_Types.thy ===== *)
theory Value_Types
  imports Rust_Prelude
begin

text \<open>
  The values a property or a query holds, their index keys, namespaces and the error type of the
  storage crate (\<open>crates/core-storage/src/types.rs\<close>).

  A Rust \<open>str\<close> is the list of its UTF-8 bytes, as HOL's 8-bit characters. An \<open>f64\<close> is its bit
  pattern. Signed integers are \<open>int\<close>; the width of a field is stated where a bound matters. A
  \<open>BTreeMap\<close> is its entries in key order.
\<close>

datatype val =
    VInt int
  | VFloat u64
  | VStr string
  | VBool bool
  | VList "val list"
  | VMap "(string \<times> val) list"
  | VDate int
  | VLocalDateTime int
  | VDateTime int int
  | VDuration int int int
  | VBinary "u8 list"
  | VNull

fun contains_null :: "val \<Rightarrow> bool" where
  "contains_null VNull = True"
| "contains_null (VList items) = list_ex contains_null items"
| "contains_null (VMap m) = list_ex (\<lambda>e. contains_null (snd e)) m"
| "contains_null _ = False"

definition BINARY_MAX_BYTES :: nat where "BINARY_MAX_BYTES = 1048576"

datatype value_key =
    KInt int
  | KFloatBits u64
  | KStr string
  | KBool bool
  | KDateDays int
  | KLocalDateTimeMicros int
  | KDateTimeMicrosUtc int
  | KBinaryBytes "u8 list"

fun key_from_value :: "val \<Rightarrow> value_key option" where
  "key_from_value (VInt i) = Some (KInt i)"
| "key_from_value (VFloat f) = Some (KFloatBits f)"
| "key_from_value (VStr s) = Some (KStr s)"
| "key_from_value (VBool b) = Some (KBool b)"
| "key_from_value (VList _) = None"
| "key_from_value (VMap _) = None"
| "key_from_value (VDate d) = Some (KDateDays d)"
| "key_from_value (VLocalDateTime us) = Some (KLocalDateTimeMicros us)"
| "key_from_value (VDateTime micros_utc _) = Some (KDateTimeMicrosUtc micros_utc)"
| "key_from_value (VBinary b) = Some (KBinaryBytes b)"
| "key_from_value (VDuration _ _ _) = None"
| "key_from_value VNull = None"

text \<open>\<open>Iterator::find_map\<close>.\<close>

fun find_map :: "('a \<Rightarrow> 'b option) \<Rightarrow> 'a list \<Rightarrow> 'b option" where
  "find_map f [] = None"
| "find_map f (x # xs) = (case f x of Some y \<Rightarrow> Some y | None \<Rightarrow> find_map f xs)"

lemma find_map_cong [fundef_cong]:
  "xs = ys \<Longrightarrow> (\<And>x. x \<in> set ys \<Longrightarrow> f x = g x) \<Longrightarrow> find_map f xs = find_map g ys"
  by (induction xs arbitrary: ys) (auto split: option.split)

fun v11_only_type :: "val \<Rightarrow> string option" where
  "v11_only_type (VList items) = find_map v11_only_type items"
| "v11_only_type (VMap m) = find_map (\<lambda>e. v11_only_type (snd e)) m"
| "v11_only_type (VDate _) = Some ''Date''"
| "v11_only_type (VLocalDateTime _) = Some ''LocalDateTime''"
| "v11_only_type (VDateTime _ _) = Some ''DateTime''"
| "v11_only_type (VDuration _ _ _) = Some ''Duration''"
| "v11_only_type (VBinary _) = Some ''Binary''"
| "v11_only_type _ = None"

definition list_tokens :: "val \<Rightarrow> value_key set option" where
  "list_tokens v = (case v of VList items \<Rightarrow> Some (set (List.map_filter key_from_value items)) | _ \<Rightarrow> None)"

record unique_constraint =
  uc_name :: string
  uc_label :: string
  uc_field :: string


section \<open>Namespaces\<close>

definition NS_PROP :: string where "NS_PROP = ''ns''"
definition NS_DEFAULT :: string where "NS_DEFAULT = ''default''"
definition NS_MAX_LEN :: nat where "NS_MAX_LEN = 64"

definition is_ascii_digit :: "char \<Rightarrow> bool" where
  "is_ascii_digit c \<longleftrightarrow> 48 \<le> (of_char c :: nat) \<and> (of_char c :: nat) \<le> 57"

definition is_ascii_alphanumeric :: "char \<Rightarrow> bool" where
  "is_ascii_alphanumeric c \<longleftrightarrow> is_ascii_digit c
     \<or> 65 \<le> (of_char c :: nat) \<and> (of_char c :: nat) \<le> 90
     \<or> 97 \<le> (of_char c :: nat) \<and> (of_char c :: nat) \<le> 122"

text \<open>
  A name with a byte outside the accepted ASCII ones is refused whatever its length, so counting
  bytes where the source counts characters gives the same answer.
\<close>

definition valid_namespace :: "string \<Rightarrow> bool" where
  "valid_namespace name \<longleftrightarrow> name \<noteq> [] \<and> length name \<le> NS_MAX_LEN
     \<and> list_all (\<lambda>c. is_ascii_alphanumeric c \<or> c = CHR ''_'' \<or> c = CHR ''.'' \<or> c = CHR ''-'') name"

definition namespace_of_value :: "val option \<Rightarrow> string" where
  "namespace_of_value v = (case v of Some (VStr s) \<Rightarrow> s | _ \<Rightarrow> NS_DEFAULT)"


section \<open>Errors\<close>

text \<open>The payload of \<open>Io\<close> is the operating system's error, carried as its kind.\<close>

datatype graph_error =
    KeyNotFound string
  | DuplicateKey string
  | Io string
  | Corrupt string
  | RuleInvalid string
  | RuleOwned string
  | RuleNotFound string
  | QueryError string
  | IngestError string
  | ReadOnly
  | CommitOutOfRange u64 u64 u64
  | ViewPropReadOnly string
  | CasConflict string u64 u64
  | MaskedReadOnly
  | CommitTimeNotMonotonic int int
  | NoRecordedTime
  | TimeBeforeFloor int u64
  | RoleWriteDenied string
  | Busy "u32 option"
  | Unwritable string string bool
  | NamespaceImmutable string string string
  | CrossNamespace string string string string
  | ConstraintViolation string string
  | ConstraintCreationConflict "(string \<times> val) list" nat
  | ValueTooLarge string nat nat


section \<open>Properties\<close>

text \<open>The immediate parts of a value, and the values reached through lists and maps.\<close>

inductive inside :: "val \<Rightarrow> val \<Rightarrow> bool" where
  inside_self: "inside v v"
| inside_list: "w \<in> set items \<Longrightarrow> inside v w \<Longrightarrow> inside v (VList items)"
| inside_map: "(k, w) \<in> set m \<Longrightarrow> inside v w \<Longrightarrow> inside v (VMap m)"

inductive_cases inside_listE: "inside v (VList items)"
inductive_cases inside_mapE: "inside v (VMap m)"
inductive_simps inside_scalar_simps:
  "inside v VNull" "inside v (VInt i)" "inside v (VFloat f)" "inside v (VStr s)" "inside v (VBool b)"
  "inside v (VDate d)" "inside v (VLocalDateTime us)" "inside v (VDateTime us off)"
  "inside v (VDuration mo d n)" "inside v (VBinary bs)"

lemma inside_list_iff: "inside v (VList items) \<longleftrightarrow> v = VList items \<or> (\<exists>w\<in>set items. inside v w)"
  by (auto elim: inside_listE intro: inside.intros)

lemma inside_map_iff: "inside v (VMap m) \<longleftrightarrow> v = VMap m \<or> (\<exists>e\<in>set m. inside v (snd e))"
  by (force elim: inside_mapE intro: inside.intros)

lemmas inside_simps = inside_scalar_simps inside_list_iff inside_map_iff

lemma contains_null_inside: "contains_null v \<longleftrightarrow> inside VNull v"
proof (induction v rule: contains_null.induct)
qed (auto simp: inside_simps list_ex_iff)

lemma find_map_None_iff: "find_map f xs = None \<longleftrightarrow> (\<forall>x\<in>set xs. f x = None)"
  by (induction xs) (auto split: option.split)

lemma find_map_SomeD: "find_map f xs = Some y \<Longrightarrow> \<exists>x\<in>set xs. f x = Some y"
  by (induction xs) (auto split: option.splits)

definition is_v11 :: "val \<Rightarrow> bool" where
  "is_v11 v = (case v of VDate _ \<Rightarrow> True | VLocalDateTime _ \<Rightarrow> True | VDateTime _ _ \<Rightarrow> True
     | VDuration _ _ _ \<Rightarrow> True | VBinary _ \<Rightarrow> True | _ \<Rightarrow> False)"

lemma v11_only_type_inside: "v11_only_type v \<noteq> None \<longleftrightarrow> (\<exists>w. inside w v \<and> is_v11 w)"
proof (induction v rule: v11_only_type.induct)
  case (1 items)
  have "is_v11 (VList items) = False" by (simp add: is_v11_def)
  with 1 show ?case by (auto simp: inside_simps find_map_None_iff simp del: not_None_eq)
next
  case (2 m)
  have "\<not> is_v11 (VMap m)" by (simp add: is_v11_def)
  then have "(\<exists>w. inside w (VMap m) \<and> is_v11 w) \<longleftrightarrow> (\<exists>e\<in>set m. \<exists>w. inside w (snd e) \<and> is_v11 w)"
    unfolding inside_map_iff by blast
  also have "\<dots> \<longleftrightarrow> (\<exists>e\<in>set m. v11_only_type (snd e) \<noteq> None)" using 2 by blast
  finally show ?case by (simp add: find_map_None_iff del: not_None_eq)
qed (auto simp: inside_simps is_v11_def)

text \<open>
  The two checks the write path makes on a value look at every depth: \<open>contains_null\<close> holds
  exactly when a null is somewhere inside, and \<open>v11_only_type\<close> names a type exactly when a value of
  a format-11 type is somewhere inside, through any nesting of lists and maps.
\<close>

theorem value_checks_reach_every_depth:
  "(contains_null v \<longleftrightarrow> inside VNull v) \<and> (v11_only_type v \<noteq> None \<longleftrightarrow> (\<exists>w. inside w v \<and> is_v11 w))"
  by (intro conjI contains_null_inside v11_only_type_inside)

end
