(* ===== verification/Id_Map.thy ===== *)
theory Id_Map
  imports Cow_Vec Id_Set Hash_Index Value_Types
begin

text \<open>
  The node-key table \<open>IdMap\<close> (\<open>crates/core-storage/src/idmap.rs\<close>) over \<open>HashIndex\<close>, \<open>CowVec\<close> and
  \<open>CowMap\<close>, and the label table \<open>Interner\<close> (\<open>interner.rs\<close>). \<open>hash\<close> is the index's keyed hash.

  A dense id is handed out once: a deleted key retires its id for good, a key inserted again gets
  a fresh one, and a rename keeps the id.
\<close>

record id_map =
  im_to_id :: hash_index
  im_to_key :: "string cow_vec"
  im_tombstones :: "(u32, unit) cow_map"

text \<open>A result of the crate: an error or a value. A panic is the outer \<open>None\<close>.\<close>

type_synonym 'a result = "graph_error + 'a"

definition dense_id :: "nat \<Rightarrow> u32 result" where
  "dense_id len = (if len < 2 ^ 32 then Inr (of_nat len) else Inl (Corrupt ''id space exhausted''))"

definition im_new :: id_map where
  "im_new = \<lparr>im_to_id = hi_new, im_to_key = cv_new, im_tombstones = cm_new\<rparr>"

text \<open>What the index asks of the key table.\<close>

definition slot_key :: "string cow_vec \<Rightarrow> resolver" where
  "slot_key to_key i = cv_get to_key (unat i)"

definition im_get :: "hash_fn \<Rightarrow> id_map \<Rightarrow> string \<Rightarrow> u32 option" where
  "im_get hash m key = hi_get hash (im_to_id m) key (slot_key (im_to_key m))"

definition im_try_insert :: "hash_fn \<Rightarrow> id_map \<Rightarrow> string \<Rightarrow> (u32 result \<times> id_map) option" where
  "im_try_insert hash m key =
     (let h = hash key in
      case hi_get_hashed (im_to_id m) key h (slot_key (im_to_key m)) of
        Some i \<Rightarrow> Some (Inr i, m)
      | None \<Rightarrow>
          (case dense_id (cv_len (im_to_key m)) of
             Inl e \<Rightarrow> Some (Inl e, m)
           | Inr i \<Rightarrow> do {
               to_id \<leftarrow> hi_insert_hashed (im_to_id m) key h i;
               Some (Inr i, m\<lparr>im_to_key := cv_push (im_to_key m) key, im_to_id := to_id\<rparr>) }))"

text \<open>\<open>get_or_insert\<close>: an exhausted id space is a panic.\<close>

definition im_get_or_insert :: "hash_fn \<Rightarrow> id_map \<Rightarrow> string \<Rightarrow> (u32 \<times> id_map) option" where
  "im_get_or_insert hash m key =
     (case im_try_insert hash m key of Some (Inr i, m') \<Rightarrow> Some (i, m') | _ \<Rightarrow> None)"

definition im_is_tombstoned :: "id_map \<Rightarrow> u32 \<Rightarrow> bool option" where
  "im_is_tombstoned m i =
     (if cm_is_empty (im_tombstones m) then Some False else cm_contains_key (im_tombstones m) i)"

definition im_key_of :: "id_map \<Rightarrow> u32 \<Rightarrow> string option option" where
  "im_key_of m i = map_option (\<lambda>dead. if dead then None else cv_get (im_to_key m) (unat i)) (im_is_tombstoned m i)"

definition im_key_of_historical :: "id_map \<Rightarrow> u32 \<Rightarrow> string option" where
  "im_key_of_historical m i = cv_get (im_to_key m) (unat i)"

definition im_unindex :: "hash_fn \<Rightarrow> id_map \<Rightarrow> string \<Rightarrow> (u32 option \<times> id_map) option" where
  "im_unindex hash m key = do {
     (old, to_id) \<leftarrow> hi_remove hash (im_to_id m) key (slot_key (im_to_key m));
     Some (old, m\<lparr>im_to_id := to_id\<rparr>) }"

definition im_rename :: "hash_fn \<Rightarrow> id_map \<Rightarrow> string \<Rightarrow> string \<Rightarrow> (u32 result \<times> id_map) option" where
  "im_rename hash m old new =
     (if im_get hash m new \<noteq> None then Some (Inl (DuplicateKey new), m)
      else do {
        (found, m') \<leftarrow> im_unindex hash m old;
        case found of
          None \<Rightarrow> Some (Inl (KeyNotFound old), m')
        | Some i \<Rightarrow> do {
            to_key \<leftarrow> cv_set (im_to_key m') (unat i) new;
            to_id \<leftarrow> hi_insert hash (im_to_id m') new i;
            Some (Inr i, m'\<lparr>im_to_key := to_key, im_to_id := to_id\<rparr>) } })"

definition im_delete :: "hash_fn \<Rightarrow> id_map \<Rightarrow> string \<Rightarrow> (u32 option \<times> id_map) option" where
  "im_delete hash m key = do {
     (found, m') \<leftarrow> im_unindex hash m key;
     case found of
       None \<Rightarrow> Some (None, m')
     | Some i \<Rightarrow> do {
         (_, dead) \<leftarrow> cm_insert (im_tombstones m') i ();
         Some (Some i, m'\<lparr>im_tombstones := dead\<rparr>) } }"

definition im_len :: "id_map \<Rightarrow> nat" where "im_len m = cv_len (im_to_key m)"
definition im_is_empty :: "id_map \<Rightarrow> bool" where "im_is_empty m \<longleftrightarrow> cv_is_empty (im_to_key m)"
definition im_live_len :: "id_map \<Rightarrow> nat" where "im_live_len m = hi_len (im_to_id m)"
definition im_all_keys :: "id_map \<Rightarrow> string list" where "im_all_keys m = cv_iter (im_to_key m)"
definition im_tombstoned_ids :: "id_map \<Rightarrow> u32 list" where "im_tombstoned_ids m = om_keys (cm_entries (im_tombstones m))"

text \<open>
  \<open>from_slots\<close>: slot \<open>i\<close> is id \<open>i\<close>; a retired slot and a slot with an empty key are not indexed.
  The \<open>BTreeSet\<close> of retired ids is the list of its ids in order.
\<close>

fun index_slots :: "hash_fn \<Rightarrow> u32 set \<Rightarrow> nat \<Rightarrow> string list \<Rightarrow> hash_index \<Rightarrow> hash_index option" where
  "index_slots hash dead i [] idx = Some idx"
| "index_slots hash dead i (key # keys) idx =
     (if of_nat i \<notin> dead \<and> key \<noteq> []
      then do { idx' \<leftarrow> hi_insert hash idx key (of_nat i); index_slots hash dead (Suc i) keys idx' }
      else index_slots hash dead (Suc i) keys idx)"

definition im_from_slots :: "hash_fn \<Rightarrow> string list \<Rightarrow> u32 list \<Rightarrow> id_map option" where
  "im_from_slots hash keys tombstones = do {
     to_id \<leftarrow> index_slots hash (set tombstones) 0 keys hi_new;
     dead \<leftarrow> cm_from_sorted (map (\<lambda>i. (i, ())) tombstones);
     Some \<lparr>im_to_id = to_id, im_to_key = cv_from_vec keys, im_tombstones = dead\<rparr> }"


section \<open>The table as keys and retired ids\<close>

text \<open>
  The abstract table: the key of every slot handed out so far, and the retired ids. The live
  ids are the others; a live slot holds a key no other live slot holds.
\<close>

definition live_keys :: "string list \<Rightarrow> u32 set \<Rightarrow> (string \<rightharpoonup> u32) \<Rightarrow> bool" where
  "live_keys slots dead K \<longleftrightarrow>
     (\<forall>key i. K key = Some i \<longleftrightarrow> unat i < length slots \<and> slots ! unat i = key \<and> i \<notin> dead)"

definition im_rel :: "hash_fn \<Rightarrow> id_map \<Rightarrow> string list \<Rightarrow> u32 set \<Rightarrow> (string \<rightharpoonup> u32) \<Rightarrow> bool" where
  "im_rel hash m slots dead K \<longleftrightarrow>
     cv_inv (im_to_key m) \<and> cv_iter (im_to_key m) = slots \<and> length slots \<le> 2 ^ 32
     \<and> cm_inv (im_tombstones m) \<and> set (om_keys (cm_entries (im_tombstones m))) = dead
     \<and> (\<forall>i\<in>dead. unat i < length slots)
     \<and> hi_rel hash (im_to_id m) K \<and> live_keys slots dead K"

lemma im_relD:
  assumes "im_rel hash m slots dead K"
  shows "cv_inv (im_to_key m)" and "cv_iter (im_to_key m) = slots" and "length slots \<le> 2 ^ 32"
    and "cm_inv (im_tombstones m)" and "set (om_keys (cm_entries (im_tombstones m))) = dead"
    and "i \<in> dead \<Longrightarrow> unat i < length slots"
    and "hi_rel hash (im_to_id m) K"
    and "K key = Some i \<longleftrightarrow> unat i < length slots \<and> slots ! unat i = key \<and> i \<notin> dead"
  using assms unfolding im_rel_def live_keys_def by blast+

lemma slot_key_nth: "cv_inv v \<Longrightarrow> slot_key v i = nth_opt (cv_iter v) (unat i)"
  by (simp add: slot_key_def cv_get_iter)

lemma im_resolves:
  assumes "im_rel hash m slots dead K"
  shows "resolves (slot_key (im_to_key m)) K"
  using im_relD [OF assms] by (auto simp: resolves_def slot_key_nth)

lemma im_get_correct: "im_rel hash m slots dead K \<Longrightarrow> im_get hash m key = K key"
  unfolding im_get_def by (rule hi.get_law [OF im_relD(7) im_resolves])

lemma dead_answers:
  assumes "im_rel hash m slots dead K"
  shows "im_is_tombstoned m i = Some (i \<in> dead)"
proof -
  note D = im_relD [OF assms]
  have c: "cm_contains_key (im_tombstones m) i = Some (i \<in> dead)"
    using cm.get_law [OF D(4), of i] om_get_None_iff [of "cm_entries (im_tombstones m)" i] D(5)
    by (auto simp: cm_contains_key_def simp del: not_None_eq)
  have "i \<notin> dead" if "cm_is_empty (im_tombstones m)"
    using that D(4,5) by (auto simp: cm_is_empty_def cm_inv_def)
  then show ?thesis using c by (auto simp: im_is_tombstoned_def)
qed

lemma im_key_of_correct:
  assumes "im_rel hash m slots dead K"
  shows "im_key_of m i = Some (if i \<in> dead then None else nth_opt slots (unat i))"
  using im_relD(1,2) [OF assms] by (simp add: im_key_of_def dead_answers [OF assms] cv_get_iter)


subsection \<open>How the live keys change\<close>

lemma live_keysD: "live_keys slots dead K \<Longrightarrow> K key = Some i \<longleftrightarrow> unat i < length slots \<and> slots ! unat i = key \<and> i \<notin> dead"
  unfolding live_keys_def by blast

lemma live_keys_push:
  assumes "live_keys slots dead K" and "K key = None" and "length slots < 2 ^ 32"
    and "\<And>i. i \<in> dead \<Longrightarrow> unat i < length slots"
  shows "live_keys (slots @ [key]) dead (K(key \<mapsto> of_nat (length slots)))"
proof -
  let ?n = "of_nat (length slots) :: u32"
  have n: "unat ?n = length slots" using assms(3) by (simp add: unsigned_of_nat take_bit_nat_eq_self)
  have new: "?n \<notin> dead" using assms(4) [of ?n] n by auto
  show ?thesis
    unfolding live_keys_def
  proof (intro allI)
    fix k i
    have eq: "unat i = length slots \<longleftrightarrow> i = ?n" using n word_unat_eq_iff [of i ?n] by simp
    show "(K(key \<mapsto> ?n)) k = Some i \<longleftrightarrow> unat i < length (slots @ [key]) \<and> (slots @ [key]) ! unat i = k \<and> i \<notin> dead"
    proof (cases "unat i < length slots")
      case True
      then have "i \<noteq> ?n" using n by auto
      then show ?thesis using True live_keysD [OF assms(1), of k i] live_keysD [OF assms(1), of key i] assms(2)
        by (auto simp: nth_append)
    next
      case False
      then show ?thesis using live_keysD [OF assms(1), of k i] eq new by (auto simp: nth_append)
    qed
  qed
qed

lemma live_keys_delete:
  assumes "live_keys slots dead K" and "K key = Some i"
  shows "live_keys slots (insert i dead) (K(key := None))"
  unfolding live_keys_def
proof (intro allI)
  fix k j
  show "(K(key := None)) k = Some j \<longleftrightarrow> unat j < length slots \<and> slots ! unat j = k \<and> j \<notin> insert i dead"
    using live_keysD [OF assms(1), of k j] live_keysD [OF assms(1), of key i]
      live_keysD [OF assms(1), of key j] assms(2) by auto
qed

lemma live_keys_rename:
  assumes "live_keys slots dead K" and "K old = Some i" and "K new = None"
  shows "live_keys (slots[unat i := new]) dead (K(old := None, new \<mapsto> i))"
  unfolding live_keys_def
proof (intro allI)
  fix k j
  have eq: "unat j = unat i \<longleftrightarrow> j = i" by (simp add: word_unat_eq_iff)
  show "(K(old := None, new \<mapsto> i)) k = Some j
    \<longleftrightarrow> unat j < length (slots[unat i := new]) \<and> slots[unat i := new] ! unat j = k \<and> j \<notin> dead"
    using live_keysD [OF assms(1), of k j] live_keysD [OF assms(1), of old i]
      live_keysD [OF assms(1), of old j] live_keysD [OF assms(1), of new j] assms(2,3)
    by (cases "j = i") (auto simp: nth_list_update eq)
qed



section \<open>The operations\<close>

lemma im_try_insert_correct:
  assumes rel: "im_rel hash m slots dead K"
  shows "case K key of
      Some i \<Rightarrow> im_try_insert hash m key = Some (Inr i, m)
    | None \<Rightarrow> if length slots < 2 ^ 32
        then \<exists>m'. im_try_insert hash m key = Some (Inr (of_nat (length slots)), m')
          \<and> im_rel hash m' (slots @ [key]) dead (K(key \<mapsto> of_nat (length slots)))
        else im_try_insert hash m key = Some (Inl (Corrupt ''id space exhausted''), m)"
proof -
  note D = im_relD [OF rel]
  have g: "hi_get_hashed (im_to_id m) key (hash key) (slot_key (im_to_key m)) = K key"
    using im_get_correct [OF rel, of key] by (simp add: im_get_def hi_get_def)
  have l: "cv_len (im_to_key m) = length slots" using D(1,2) cv_len_iter by auto
  show ?thesis
  proof (cases "K key")
    case None
    obtain idx where idx: "hi_insert hash (im_to_id m) key (of_nat (length slots)) = Some idx"
      "hi_rel hash idx (K(key \<mapsto> of_nat (length slots)))"
      using hi.ins_law [OF D(7) None] by blast
    let ?m = "m\<lparr>im_to_key := cv_push (im_to_key m) key, im_to_id := idx\<rparr>"
    have "im_rel hash ?m (slots @ [key]) dead (K(key \<mapsto> of_nat (length slots)))" if "length slots < 2 ^ 32"
      unfolding im_rel_def using D(1-6) that idx(2) cv_push_iter [OF D(1), of key]
        live_keys_push [of slots dead K key] None rel
      by (auto simp: im_rel_def less_Suc_eq)
    then show ?thesis using None idx(1)
      by (auto simp: im_try_insert_def Let_def g l dense_id_def hi_insert_def)
  qed (simp add: im_try_insert_def g)
qed

lemma im_unindex_correct:
  assumes rel: "im_rel hash m slots dead K"
  obtains idx where "im_unindex hash m key = Some (K key, m\<lparr>im_to_id := idx\<rparr>)" and "hi_rel hash idx (K(key := None))"
  using hi.del_law [OF im_relD(7) [OF rel] im_resolves [OF rel], of key] that
  by (auto simp: im_unindex_def)

lemma im_delete_correct:
  assumes rel: "im_rel hash m slots dead K"
  shows "case K key of
      None \<Rightarrow> \<exists>m'. im_delete hash m key = Some (None, m') \<and> im_rel hash m' slots dead K
    | Some i \<Rightarrow> \<exists>m'. im_delete hash m key = Some (Some i, m')
        \<and> im_rel hash m' slots (insert i dead) (K(key := None))"
proof -
  note D = im_relD [OF rel]
  obtain idx where idx: "im_unindex hash m key = Some (K key, m\<lparr>im_to_id := idx\<rparr>)" "hi_rel hash idx (K(key := None))"
    by (rule im_unindex_correct [OF rel])
  show ?thesis
  proof (cases "K key")
    case None
    then have "K(key := None) = K" by auto
    then show ?thesis using None idx rel by (simp add: im_delete_def im_rel_def)
  next
    case (Some i)
    obtain t where t: "cm_insert (im_tombstones m) i () = Some (map_of (cm_entries (im_tombstones m)) i, t)"
      "cm_inv t" "set (om_keys (cm_entries t)) = insert i (set (om_keys (cm_entries (im_tombstones m))))"
      by (rule cm_unit_insert [OF D(4)])
    let ?m = "m\<lparr>im_to_id := idx, im_tombstones := t\<rparr>"
    have "unat i < length slots" using D(8) Some by blast
    then have "im_rel hash ?m slots (insert i dead) (K(key := None))"
      unfolding im_rel_def using D(1-6) idx(2) t(2,3) live_keys_delete [of slots dead K key i] Some rel
      by (auto simp: im_rel_def)
    then show ?thesis using Some idx(1) t(1) by (simp add: im_delete_def)
  qed
qed

lemma im_rename_correct:
  assumes rel: "im_rel hash m slots dead K"
  shows "case (K new, K old) of
      (Some _, _) \<Rightarrow> im_rename hash m old new = Some (Inl (DuplicateKey new), m)
    | (None, None) \<Rightarrow> \<exists>m'. im_rename hash m old new = Some (Inl (KeyNotFound old), m') \<and> im_rel hash m' slots dead K
    | (None, Some i) \<Rightarrow> \<exists>m'. im_rename hash m old new = Some (Inr i, m')
        \<and> im_rel hash m' (slots[unat i := new]) dead (K(old := None, new \<mapsto> i))"
proof -
  note D = im_relD [OF rel] and G = im_get_correct [OF rel, of new]
  obtain idx where idx: "im_unindex hash m old = Some (K old, m\<lparr>im_to_id := idx\<rparr>)" "hi_rel hash idx (K(old := None))"
    by (rule im_unindex_correct [OF rel])
  show ?thesis
  proof (cases "K new")
    case new: None
    show ?thesis
    proof (cases "K old")
      case None
      then have "K(old := None) = K" by auto
      then show ?thesis using None new idx rel G by (simp add: im_rename_def im_rel_def)
    next
      case (Some i)
      have i: "unat i < length slots" using D(8) Some by blast
      obtain v where v: "cv_set (im_to_key m) (unat i) new = Some v" "cv_inv v" "cv_iter v = slots[unat i := new]"
        using cv.put_in [OF D(1), of "unat i" new] i D(2) cv_len_iter [OF D(1)] by auto
      obtain idx' where idx': "hi_insert hash idx new i = Some idx'" "hi_rel hash idx' (K(old := None, new \<mapsto> i))"
        using hi.ins_law [OF idx(2), of new i] new by (cases "new = old") auto
      let ?m = "m\<lparr>im_to_key := v, im_to_id := idx'\<rparr>"
      have "im_rel hash ?m (slots[unat i := new]) dead (K(old := None, new \<mapsto> i))"
        unfolding im_rel_def using D(3-6) idx'(2) v live_keys_rename [of slots dead K old i new] Some new rel
        by (auto simp: im_rel_def)
      then show ?thesis using Some new idx(1) idx'(1) v(1) G by (simp add: im_rename_def)
    qed
  qed (use G in \<open>simp add: im_rename_def\<close>)
qed

lemma im_new_rel: "im_rel hash im_new [] {} Map.empty"
  using hi.empty_law [of hash] by (simp add: im_rel_def im_new_def live_keys_def)



section \<open>Rebuilding from a snapshot's slots\<close>

definition indexed :: "string list \<Rightarrow> u32 set \<Rightarrow> (string \<rightharpoonup> u32) \<Rightarrow> bool" where
  "indexed slots dead K \<longleftrightarrow> (\<forall>key i. K key = Some i
     \<longleftrightarrow> unat i < length slots \<and> slots ! unat i = key \<and> i \<notin> dead \<and> key \<noteq> [])"

lemma indexed_push:
  assumes "indexed slots dead K" and "length slots < 2 ^ 32" and "of_nat (length slots) \<notin> dead" and "key \<noteq> []"
    and "K key = None"
  shows "indexed (slots @ [key]) dead (K(key \<mapsto> of_nat (length slots)))"
proof -
  let ?n = "of_nat (length slots) :: u32"
  have n: "unat ?n = length slots" using assms(2) by (simp add: unsigned_of_nat take_bit_nat_eq_self)
  have "(K(key \<mapsto> ?n)) k = Some i \<longleftrightarrow> unat i < length (slots @ [key]) \<and> (slots @ [key]) ! unat i = k \<and> i \<notin> dead \<and> k \<noteq> []" for k i
  proof -
    have eq: "unat i = length slots \<longleftrightarrow> i = ?n" using n word_unat_eq_iff [of i ?n] by simp
    have "K k = Some i \<longleftrightarrow> unat i < length slots \<and> slots ! unat i = k \<and> i \<notin> dead \<and> k \<noteq> []"
      "K key = Some i \<longleftrightarrow> unat i < length slots \<and> slots ! unat i = key \<and> i \<notin> dead \<and> key \<noteq> []"
      using assms(1) unfolding indexed_def by blast+
    then show ?thesis using eq n assms(3-5) by (cases "unat i < length slots") (auto simp: nth_append)
  qed
  then show ?thesis unfolding indexed_def by blast
qed

lemma indexed_skip:
  assumes "indexed slots dead K" and "length slots < 2 ^ 32" and "of_nat (length slots) \<in> dead \<or> key = []"
  shows "indexed (slots @ [key]) dead K"
proof -
  let ?n = "of_nat (length slots) :: u32"
  have n: "unat ?n = length slots" using assms(2) by (simp add: unsigned_of_nat take_bit_nat_eq_self)
  have "K k = Some i \<longleftrightarrow> unat i < length (slots @ [key]) \<and> (slots @ [key]) ! unat i = k \<and> i \<notin> dead \<and> k \<noteq> []" for k i
  proof -
    have eq: "unat i = length slots \<longleftrightarrow> i = ?n" using n word_unat_eq_iff [of i ?n] by simp
    have "K k = Some i \<longleftrightarrow> unat i < length slots \<and> slots ! unat i = k \<and> i \<notin> dead \<and> k \<noteq> []"
      using assms(1) unfolding indexed_def by blast
    then show ?thesis using eq n assms(3) by (cases "unat i < length slots") (auto simp: nth_append)
  qed
  then show ?thesis unfolding indexed_def by blast
qed

lemma index_slots_correct:
  "hi_rel hash idx K \<Longrightarrow> indexed pre dead K \<Longrightarrow> length (pre @ keys) \<le> 2 ^ 32 \<Longrightarrow> live_keys (pre @ keys) dead L \<Longrightarrow>
   \<exists>idx' K'. index_slots hash dead (length pre) keys idx = Some idx' \<and> hi_rel hash idx' K' \<and> indexed (pre @ keys) dead K'"
proof (induction keys arbitrary: idx K pre)
  case (Cons key keys)
  let ?n = "of_nat (length pre) :: u32"
  have n: "unat ?n = length pre" using Cons.prems(3) by (simp add: unsigned_of_nat take_bit_nat_eq_self)
  show ?case
  proof (cases "?n \<notin> dead \<and> key \<noteq> []")
    case True
    have "K key = None"
    proof (cases "K key")
      case (Some i)
      then have i: "unat i < length pre" "pre ! unat i = key" "i \<notin> dead"
        using Cons.prems(2) unfolding indexed_def by blast+
      then have "L key = Some i" using live_keysD [OF Cons.prems(4), of key i] by (simp add: nth_append)
      moreover have "L key = Some ?n" using live_keysD [OF Cons.prems(4), of key ?n] True n by (simp add: nth_append)
      ultimately show ?thesis using i(1) n by auto
    qed simp
    then obtain idx' where idx': "hi_insert hash idx key ?n = Some idx'" "hi_rel hash idx' (K(key \<mapsto> ?n))"
      using hi.ins_law [OF Cons.prems(1)] by blast
    have "indexed (pre @ [key]) dead (K(key \<mapsto> ?n))"
      by (rule indexed_push) (use Cons.prems True \<open>K key = None\<close> in auto)
    from Cons.IH [OF idx'(2) this] Cons.prems(3,4) idx'(1) True show ?thesis by simp
  next
    case False
    have "indexed (pre @ [key]) dead K" by (rule indexed_skip) (use Cons.prems False in auto)
    from Cons.IH [OF Cons.prems(1) this] Cons.prems(3,4) False show ?thesis by auto
  qed
qed auto

lemma im_from_slots_correct:
  assumes "live_keys slots (set dead) K" and "length slots \<le> 2 ^ 32" and "strict dead"
    and "\<And>i. i \<in> set dead \<Longrightarrow> unat i < length slots"
  obtains m idx K' where "im_from_slots hash slots dead = Some m" and "hi_rel hash (im_to_id m) K'" and "indexed slots (set dead) K'"
    and "im_to_key m = cv_from_vec slots" and "cm_inv (im_tombstones m)"
    and "cm_entries (im_tombstones m) = map (\<lambda>i. (i, ())) dead"
proof -
  have "indexed [] (set dead) Map.empty" by (simp add: indexed_def)
  from index_slots_correct [OF hi.empty_law this, of slots K hash] assms(1,2)
  obtain idx K' where idx: "index_slots hash (set dead) 0 slots hi_new = Some idx" "hi_rel hash idx K'"
    "indexed slots (set dead) K'" by auto
  have "om_wf (map (\<lambda>i. (i, ())) dead)" using assms(3) by (simp add: comp_def)
  then obtain t where "cm_from_sorted (map (\<lambda>i. (i, ())) dead) = Some t" "cm_inv t"
    "cm_entries t = map (\<lambda>i. (i, ())) dead" by (rule cm_from_sorted_correct)
  then show ?thesis using that [of "\<lparr>im_to_id = idx, im_to_key = cv_from_vec slots, im_tombstones = t\<rparr>" K'] idx
    by (simp add: im_from_slots_def)
qed


section \<open>Histories\<close>

inductive im_step :: "hash_fn \<Rightarrow> id_map \<Rightarrow> id_map \<Rightarrow> bool" for hash where
  step_insert: "im_try_insert hash m key = Some (r, m') \<Longrightarrow> im_step hash m m'"
| step_rename: "im_rename hash m old new = Some (r, m') \<Longrightarrow> im_step hash m m'"
| step_delete: "im_delete hash m key = Some (d, m') \<Longrightarrow> im_step hash m m'"

lemma im_step_rel:
  assumes rel: "im_rel hash m slots dead K" and "im_step hash m m'"
  shows "\<exists>slots' dead' K'. im_rel hash m' slots' dead' K' \<and> length slots \<le> length slots' \<and> dead \<subseteq> dead'"
  using assms(2)
proof cases
  case (step_insert key r)
  then show ?thesis using im_try_insert_correct [OF rel, of key] rel
    by (fastforce split: option.splits if_splits)
next
  case (step_rename old new r)
  then show ?thesis using im_rename_correct [OF rel, where new = new and old = old] rel
    by (fastforce split: option.splits)
next
  case (step_delete key d)
  then show ?thesis using im_delete_correct [OF rel, of key] by (fastforce split: option.splits)
qed

lemma im_steps_rel:
  assumes "(im_step hash)\<^sup>*\<^sup>* m m'" and "im_rel hash m slots dead K"
  shows "\<exists>slots' dead' K'. im_rel hash m' slots' dead' K' \<and> length slots \<le> length slots' \<and> dead \<subseteq> dead'"
  using assms
proof (induction rule: rtranclp_induct)
  case (step m' m'')
  then show ?case using im_step_rel by (meson order_trans)
qed blast



section \<open>Properties\<close>

text \<open>
  C9: lookups and inserts of the key table. A table whose live keys are \<open>K\<close> over the slots \<open>slots\<close>
  with the ids \<open>dead\<close> retired answers \<open>K\<close>; inserting a live key returns its id and changes nothing;
  inserting any other key takes the next slot, and when all \<open>2^32\<close> ids are handed out it is refused
  with nothing changed. The key of an id is its slot's, and a retired id has none.
\<close>

theorem id_map_insert_and_lookup:
  assumes "im_rel hash m slots dead K"
  shows "im_get hash m key = K key
    \<and> im_key_of m i = Some (if i \<in> dead then None else nth_opt slots (unat i))
    \<and> im_len m = length slots \<and> im_live_len m = card (dom K)
    \<and> (case K key of
         Some j \<Rightarrow> im_try_insert hash m key = Some (Inr j, m)
       | None \<Rightarrow> if length slots < 2 ^ 32
           then \<exists>m'. im_try_insert hash m key = Some (Inr (of_nat (length slots)), m')
             \<and> im_rel hash m' (slots @ [key]) dead (K(key \<mapsto> of_nat (length slots)))
           else im_try_insert hash m key = Some (Inl (Corrupt ''id space exhausted''), m))"
  using im_get_correct [OF assms] im_key_of_correct [OF assms] im_try_insert_correct [OF assms]
    im_relD(1,2,7) [OF assms] hi_relD(6) cv_len_iter
  by (auto simp: im_len_def im_live_len_def)

theorem id_map_insert_and_lookup_witness:
  "\<exists>m'. im_try_insert (\<lambda>_. 5) im_new ''a'' = Some (Inr 0, m')
     \<and> im_rel (\<lambda>_. 5) m' [''a''] {} [''a'' \<mapsto> 0]"
  using id_map_insert_and_lookup [OF im_new_rel, of "\<lambda>_. 5" "''a''" 0] by auto

text \<open>
  C10: a rename keeps the id of the old key and moves it to the new one, refusing a new key that is
  already live and an old key that is not; a delete retires the id of the key for good. Neither
  touches any other key.
\<close>

theorem id_map_rename_and_delete:
  assumes "im_rel hash m slots dead K"
  shows "(case (K new, K old) of
      (Some _, _) \<Rightarrow> im_rename hash m old new = Some (Inl (DuplicateKey new), m)
    | (None, None) \<Rightarrow> \<exists>m'. im_rename hash m old new = Some (Inl (KeyNotFound old), m') \<and> im_rel hash m' slots dead K
    | (None, Some i) \<Rightarrow> \<exists>m'. im_rename hash m old new = Some (Inr i, m')
        \<and> im_rel hash m' (slots[unat i := new]) dead (K(old := None, new \<mapsto> i)))
    \<and> (case K old of
      None \<Rightarrow> \<exists>m'. im_delete hash m old = Some (None, m') \<and> im_rel hash m' slots dead K
    | Some i \<Rightarrow> \<exists>m'. im_delete hash m old = Some (Some i, m')
        \<and> im_rel hash m' slots (insert i dead) (K(old := None)))"
  by (intro conjI im_rename_correct [OF assms] im_delete_correct [OF assms])

theorem id_map_rename_and_delete_witness:
  "\<exists>m'. im_rename (\<lambda>_. 5) im_new ''a'' ''b'' = Some (Inl (KeyNotFound ''a''), m') \<and> im_rel (\<lambda>_. 5) m' [] {} Map.empty"
  using id_map_rename_and_delete [OF im_new_rel, of "\<lambda>_. 5" "''a''" "''b''"] by auto

text \<open>
  C11: over any sequence of inserts, renames and deletes the table keeps its invariant, slots are
  never given back, and a retired id stays retired: no key ever answers it again and it has no key.
\<close>

theorem id_map_ids_never_reused:
  assumes "(im_step hash)\<^sup>*\<^sup>* im_new m" and "(im_step hash)\<^sup>*\<^sup>* m m'" and "im_is_tombstoned m i = Some True"
  shows "im_len m \<le> im_len m' \<and> im_is_tombstoned m' i = Some True \<and> im_key_of m' i = Some None
    \<and> im_get hash m' key \<noteq> Some i"
proof -
  obtain slots dead K where rel: "im_rel hash m slots dead K" using im_steps_rel [OF assms(1) im_new_rel] by blast
  obtain slots' dead' K' where rel': "im_rel hash m' slots' dead' K'" "length slots \<le> length slots'" "dead \<subseteq> dead'"
    using im_steps_rel [OF assms(2) rel] by blast
  have "i \<in> dead'" using dead_answers [OF rel, of i] assms(3) rel'(3) by auto
  then show ?thesis
    using dead_answers [OF rel'(1), of i] im_key_of_correct [OF rel'(1), of i] im_get_correct [OF rel'(1), of key]
      im_relD(8) [OF rel'(1), of key i] im_relD(2) [OF rel] im_relD(2) [OF rel'(1)] rel'(2)
      cv_len_iter [OF im_relD(1) [OF rel]] cv_len_iter [OF im_relD(1) [OF rel'(1)]]
    by (auto simp: im_len_def)
qed

theorem id_map_ids_never_reused_witness:
  "\<exists>m. (im_step (\<lambda>_. 5))\<^sup>*\<^sup>* im_new m \<and> im_is_tombstoned m 0 = Some True \<and> im_get (\<lambda>_. 5) m ''a'' \<noteq> Some 0"
proof -
  have empty: "[''a'' \<mapsto> 0 :: u32](''a'' := None) = Map.empty" by auto
  obtain m where m: "im_try_insert (\<lambda>_. 5) im_new ''a'' = Some (Inr 0, m)" "im_rel (\<lambda>_. 5) m [''a''] {} [''a'' \<mapsto> 0]"
    using im_try_insert_correct [OF im_new_rel, of "\<lambda>_. 5" "''a''"] by auto
  obtain m' where m': "im_delete (\<lambda>_. 5) m ''a'' = Some (Some 0, m')" "im_rel (\<lambda>_. 5) m' [''a''] {0} Map.empty"
    using im_delete_correct [OF m(2), of "''a''"] empty by auto
  have steps: "(im_step (\<lambda>_. 5))\<^sup>*\<^sup>* im_new m'"
    using step_insert [OF m(1)] step_delete [OF m'(1)] by (meson rtranclp.rtrancl_into_rtrancl rtranclp.rtrancl_refl)
  have dead: "im_is_tombstoned m' 0 = Some True" using dead_answers [OF m'(2), of 0] by simp
  show ?thesis using steps dead id_map_ids_never_reused [OF steps rtranclp.rtrancl_refl dead, of "''a''"] by blast
qed

text \<open>
  C23: rebuilding the table from the slots and retired ids of a snapshot gives back a table with
  the same slots, the same retired ids and the same answer for every key but the empty one,
  which the rebuilt table never finds, whether or not a live slot holds it.
\<close>

theorem id_map_from_slots:
  assumes "im_rel hash m slots (set dead) K" and "strict dead"
  shows "\<exists>m'. im_from_slots hash slots dead = Some m' \<and> im_all_keys m' = slots \<and> im_tombstoned_ids m' = dead
    \<and> (\<forall>key. im_get hash m' key = (if key = [] then None else im_get hash m key))
    \<and> (K [] = None \<longrightarrow> im_rel hash m' slots (set dead) K)"
proof -
  note D = im_relD [OF assms(1)]
  obtain m' K' where m': "im_from_slots hash slots dead = Some m'" "hi_rel hash (im_to_id m') K'" "indexed slots (set dead) K'"
    "im_to_key m' = cv_from_vec slots" "cm_inv (im_tombstones m')" "cm_entries (im_tombstones m') = map (\<lambda>i. (i, ())) dead"
    by (rule im_from_slots_correct [of slots dead K hash]) (use assms D(3,6) in \<open>auto simp: im_rel_def\<close>)
  have K': "K' key = (if key = [] then None else K key)" for key
  proof -
    have "K' key = Some i \<longleftrightarrow> K key = Some i \<and> key \<noteq> []" for i
      using m'(3) D(8) unfolding indexed_def by blast
    then show ?thesis by (metis not_Some_eq)
  qed
  have r: "resolves (slot_key (im_to_key m')) K'"
    using m'(3) by (auto simp: resolves_def slot_key_nth indexed_def m'(4) cv_from_vec_iter)
  have "im_get hash m' key = (if key = [] then None else im_get hash m key)" for key
    using hi.get_law [OF m'(2) r, of key] im_get_correct [OF assms(1), of key] K' by (simp add: im_get_def)
  moreover have "im_rel hash m' slots (set dead) K" if "K [] = None"
  proof -
    have "K' = K" using K' that by auto
    moreover have "live_keys slots (set dead) K" using assms(1) by (simp add: im_rel_def)
    ultimately show ?thesis using m'(2,5) D(3,6) by (simp add: im_rel_def m'(4,6) cv_from_vec_iter comp_def)
  qed
  ultimately show ?thesis using m'(1) by (simp add: im_all_keys_def im_tombstoned_ids_def m'(4,6) cv_from_vec_iter comp_def)
qed

theorem id_map_from_slots_witness:
  "\<exists>m'. im_from_slots (\<lambda>_. 5) [] [] = Some m' \<and> im_rel (\<lambda>_. 5) m' [] {} Map.empty"
  using id_map_from_slots [of "\<lambda>_. 5" im_new "[]" "[]" Map.empty] im_new_rel by auto

end
