(* ===== verification/Interner.thy ===== *)
theory Interner
  imports Rust_Prelude "HOL-Library.AList"
begin

text \<open>
  \<open>Interner\<close> (\<open>crates/core-storage/src/interner.rs\<close>): strings to dense symbols, never deleted, with a
  rollback to an earlier length for speculative interning. A symbol is the length cast to \<open>u32\<close>
  without a check, so the properties hold below \<open>2^32\<close> strings.
\<close>

record interner =
  in_to_sym :: "(string \<times> u32) list"
  in_to_str :: "string list"

definition in_new :: interner where "in_new = \<lparr>in_to_sym = [], in_to_str = []\<rparr>"

definition intern :: "interner \<Rightarrow> string \<Rightarrow> u32 \<times> interner" where
  "intern t s =
     (case map_of (in_to_sym t) s of
        Some symb \<Rightarrow> (symb, t)
      | None \<Rightarrow>
          let symb = of_nat (length (in_to_str t))
          in (symb, \<lparr>in_to_sym = AList.update s symb (in_to_sym t), in_to_str = in_to_str t @ [s]\<rparr>))"

definition in_resolve :: "interner \<Rightarrow> u32 \<Rightarrow> string option" where
  "in_resolve t symb = nth_opt (in_to_str t) (unat symb)"

definition in_get :: "interner \<Rightarrow> string \<Rightarrow> u32 option" where
  "in_get t s = map_of (in_to_sym t) s"

definition in_len :: "interner \<Rightarrow> nat" where "in_len t = length (in_to_str t)"

definition in_truncate :: "interner \<Rightarrow> nat \<Rightarrow> interner" where
  "in_truncate t len =
     (if len \<ge> length (in_to_str t) then t
      else \<lparr>in_to_sym = foldl (\<lambda>m s. AList.delete s m) (in_to_sym t) (drop len (in_to_str t)),
            in_to_str = take len (in_to_str t)\<rparr>)"

text \<open>Every string has its own symbol, and a symbol is the position of its string.\<close>

definition in_inv :: "interner \<Rightarrow> bool" where
  "in_inv t \<longleftrightarrow> length (in_to_str t) \<le> 2 ^ 32
     \<and> (\<forall>s i. in_get t s = Some i \<longleftrightarrow> unat i < length (in_to_str t) \<and> in_to_str t ! unat i = s)"

lemma in_invD:
  "in_inv t \<Longrightarrow> in_get t s = Some i \<longleftrightarrow> unat i < length (in_to_str t) \<and> in_to_str t ! unat i = s"
  unfolding in_inv_def by blast

lemma in_new_inv: "in_inv in_new" by (simp add: in_inv_def in_new_def in_get_def)

lemma unat_of_len: "n < 2 ^ 32 \<Longrightarrow> unat (of_nat n :: u32) = n"
  by (simp add: unsigned_of_nat take_bit_nat_eq_self)

lemma intern_fresh:
  assumes "in_inv t" and "in_get t s = None" and "in_len t < 2 ^ 32" and "intern t s = (symb, t')"
  shows "symb = of_nat (in_len t)" and "in_to_str t' = in_to_str t @ [s]"
    and "in_get t' = (in_get t)(s \<mapsto> of_nat (in_len t))" and "in_inv t'"
proof -
  show symb: "symb = of_nat (in_len t)" and str: "in_to_str t' = in_to_str t @ [s]"
    and get: "in_get t' = (in_get t)(s \<mapsto> of_nat (in_len t))"
    using assms(2,4) by (auto simp: intern_def in_get_def in_len_def fun_eq_iff update_conv' Let_def)
  let ?n = "of_nat (in_len t) :: u32"
  have n: "unat ?n = length (in_to_str t)" using assms(3) unat_of_len by (simp add: in_len_def)
  have "in_get t' k = Some i \<longleftrightarrow> unat i < length (in_to_str t') \<and> in_to_str t' ! unat i = k" for k i
  proof -
    have eq: "unat i = length (in_to_str t) \<longleftrightarrow> i = ?n" using n word_unat_eq_iff [of i ?n] by simp
    show ?thesis
      using in_invD [OF assms(1), of k i] in_invD [OF assms(1), of s i] assms(2) eq n
      by (cases "unat i < length (in_to_str t)") (auto simp: get str nth_append)
  qed
  then show "in_inv t'" using assms(3) str by (simp add: in_inv_def in_len_def)
qed

lemma intern_known: "in_get t s = Some i \<Longrightarrow> intern t s = (i, t)"
  by (simp add: intern_def in_get_def)

lemma map_of_deletes: "map_of (foldl (\<lambda>m s. AList.delete s m) m ss) k = (if k \<in> set ss then None else map_of m k)"
  by (induction ss arbitrary: m) (auto simp: delete_conv')

lemma in_truncate_get:
  assumes "in_inv t"
  shows "in_get (in_truncate t len) s = (case in_get t s of Some i \<Rightarrow> if unat i < len then Some i else None | None \<Rightarrow> None)"
proof (cases "len < length (in_to_str t)")
  case True
  have "s \<in> set (drop len (in_to_str t)) \<longleftrightarrow> \<not> unat i < len" if "in_get t s = Some i" for i
  proof
    have i: "unat i < length (in_to_str t)" "in_to_str t ! unat i = s" using that in_invD [OF assms] by blast+
    show "s \<in> set (drop len (in_to_str t))" if "\<not> unat i < len"
      using i that by (auto simp: in_set_conv_nth intro!: exI [of _ "unat i - len"])
    show "\<not> unat i < len" if s: "s \<in> set (drop len (in_to_str t))"
    proof -
      from s obtain j where j: "len + j < length (in_to_str t)" "in_to_str t ! (len + j) = s"
        by (metis add.commute drop_eq_Nil in_set_conv_nth length_drop less_diff_conv nat_less_le nth_drop le_cases list.size(3) not_less_zero)
      have l: "unat (of_nat (len + j) :: u32) = len + j" using j(1) assms by (intro unat_of_len) (simp add: in_inv_def)
      then have "in_get t s = Some (of_nat (len + j))" using in_invD [OF assms, of s "of_nat (len + j)"] j by simp
      then show ?thesis using \<open>in_get t s = Some i\<close> l by auto
    qed
  qed
  then show ?thesis using True by (auto simp: in_truncate_def in_get_def map_of_deletes split: option.split)
next
  case False
  then have "unat i < len" if "in_get t s = Some i" for i using that in_invD [OF assms, of s i] by auto
  with False show ?thesis by (auto simp: in_truncate_def split: option.split)
qed

text \<open>Interning a sequence, as a batch of records does.\<close>

fun intern_all :: "interner \<Rightarrow> string list \<Rightarrow> interner" where
  "intern_all t [] = t"
| "intern_all t (s # ss) = intern_all (snd (intern t s)) ss"

lemma intern_all_extends:
  "in_inv t \<Longrightarrow> in_len t + length ss \<le> 2 ^ 32 \<Longrightarrow>
   in_inv (intern_all t ss) \<and> in_len (intern_all t ss) \<le> in_len t + length ss
     \<and> (\<exists>more. in_to_str (intern_all t ss) = in_to_str t @ more)"
proof (induction ss arbitrary: t)
  case (Cons s ss)
  obtain symb t' where t': "intern t s = (symb, t')" by fastforce
  have "in_inv t' \<and> in_len t' \<le> Suc (in_len t) \<and> (\<exists>more. in_to_str t' = in_to_str t @ more)"
  proof (cases "in_get t s")
    case None
    then show ?thesis using intern_fresh [OF Cons.prems(1) None _ t'] Cons.prems(2) by (auto simp: in_len_def)
  next
    case (Some i)
    then show ?thesis using intern_known [OF Some] t' Cons.prems(1) by auto
  qed
  then show ?case using Cons.IH [of t'] Cons.prems(2) t' by fastforce
qed auto


section \<open>Properties\<close>

text \<open>
  interning a string gives the symbol that resolves to it, the same one every time, without
  moving any other string's symbol, as long as fewer than \<open>2^32\<close> strings are interned.
\<close>

theorem interner_symbols:
  assumes "in_inv t" and "in_len t < 2 ^ 32" and "intern t s = (symb, t')"
  shows "in_inv t' \<and> in_get t' s = Some symb \<and> in_resolve t' symb = Some s \<and> intern t' s = (symb, t')
    \<and> (s' \<noteq> s \<longrightarrow> in_get t' s' = in_get t s') \<and> (unat i < in_len t \<longrightarrow> in_resolve t' i = in_resolve t i)"
proof -
  have t': "in_inv t' \<and> in_get t' s = Some symb \<and> (s' \<noteq> s \<longrightarrow> in_get t' s' = in_get t s')
      \<and> (unat i < in_len t \<longrightarrow> in_resolve t' i = in_resolve t i)"
  proof (cases "in_get t s")
    case None
    then show ?thesis using intern_fresh [OF assms(1) None assms(2,3)]
      by (auto simp: in_resolve_def in_len_def nth_opt_append)
  next
    case (Some i)
    then show ?thesis using intern_known [OF Some] assms by auto
  qed
  then have "in_resolve t' symb = Some s" using in_invD [of t' s symb] by (simp add: in_resolve_def)
  then show ?thesis using t' intern_known [of t' s symb] by auto
qed

theorem interner_symbols_witness:
  "intern in_new ''Person'' = (0, snd (intern in_new ''Person''))
   \<and> in_resolve (snd (intern in_new ''Person'')) 0 = Some ''Person''"
  using interner_symbols [OF in_new_inv, of "''Person''" 0 "snd (intern in_new ''Person'')" "''x''" 0]
  by (auto simp: intern_def in_new_def in_len_def Let_def)

text \<open>
  Rolling back to the length captured before a batch of speculative interning undoes it:
  every string and symbol is answered as before the batch.
\<close>

theorem interner_rollback:
  assumes "in_inv t" and "in_len t + length ss \<le> 2 ^ 32"
  shows "let t' = in_truncate (intern_all t ss) (in_len t)
    in in_inv t' \<and> in_to_str t' = in_to_str t \<and> in_get t' = in_get t \<and> in_resolve t' = in_resolve t"
proof -
  define u where "u = intern_all t ss"
  obtain more where u: "in_inv u" "in_to_str u = in_to_str t @ more"
    using intern_all_extends [OF assms] by (auto simp: u_def)
  let ?t' = "in_truncate u (in_len t)"
  have str: "in_to_str ?t' = in_to_str t" by (auto simp: in_truncate_def u(2) in_len_def)
  have "in_get ?t' s = Some i \<longleftrightarrow> in_get t s = Some i" for s i
    using in_invD [OF u(1), of s i] in_invD [OF assms(1), of s i]
    by (auto simp: in_truncate_get [OF u(1)] u(2) in_len_def nth_append split: option.splits)
  then have get: "in_get ?t' = in_get t" by (intro ext) (metis not_Some_eq)
  then have "in_inv ?t'" using assms(1) str by (simp add: in_inv_def)
  then show ?thesis using str get by (simp add: Let_def u_def [symmetric] in_resolve_def fun_eq_iff)
qed

theorem interner_rollback_witness:
  "in_to_str (in_truncate (intern_all in_new [''a'', ''b'', ''a'']) 0) = []
   \<and> in_get (in_truncate (intern_all in_new [''a'', ''b'', ''a'']) 0) = Map.empty"
  using interner_rollback [OF in_new_inv, of "[''a'', ''b'', ''a'']"]
  by (auto simp: in_new_def in_len_def Let_def in_get_def)

end
