(* ===== verification/Calendar.thy ===== *)
theory Calendar
  imports Rust_Prelude
begin

text \<open>
  The proleptic Gregorian calendar of \<open>crates/core-storage/src/types.rs\<close>: \<open>days_from_civil\<close> and
  \<open>civil_from_days\<close>, over unbounded integers (the source computes in \<open>i64\<close>, far inside its range for
  every date it is given). \<open>div_euclid\<close> and \<open>rem_euclid\<close> by a positive constant are \<open>div\<close> and \<open>mod\<close>; the
  source's other divisions have operands that are not negative.
\<close>

definition is_leap_year :: "int \<Rightarrow> bool" where
  "is_leap_year year \<longleftrightarrow> year mod 4 = 0 \<and> (year mod 100 \<noteq> 0 \<or> year mod 400 = 0)"

definition days_in_month :: "int \<Rightarrow> int \<Rightarrow> int" where
  "days_in_month year month =
     (if month = 2 then (if is_leap_year year then 29 else 28)
      else if month = 4 \<or> month = 6 \<or> month = 9 \<or> month = 11 then 30 else 31)"

definition days_from_civil :: "int \<Rightarrow> int \<Rightarrow> int \<Rightarrow> int" where
  "days_from_civil year month day =
     (let y = (if month \<le> 2 then year - 1 else year);
          era = y div 400;
          yoe = y mod 400;
          doy = (153 * (if month > 2 then month - 3 else month + 9) + 2) div 5 + day - 1;
          doe = yoe * 365 + yoe div 4 - yoe div 100 + doy
      in era * 146097 + doe - 719468)"

definition civil_from_days :: "int \<Rightarrow> int \<times> int \<times> int" where
  "civil_from_days days =
     (let z = days + 719468;
          era = z div 146097;
          doe = z mod 146097;
          yoe = (doe - doe div 1460 + doe div 36524 - doe div 146096) div 365;
          doy = doe - (365 * yoe + yoe div 4 - yoe div 100);
          mp = (5 * doy + 2) div 153;
          day = doy - (153 * mp + 2) div 5 + 1;
          month = (if mp < 10 then mp + 3 else mp - 9);
          year = yoe + era * 400 + (if month \<le> 2 then 1 else 0)
      in (year, month, day))"

definition valid_civil :: "int \<Rightarrow> int \<Rightarrow> int \<Rightarrow> bool" where
  "valid_civil year month day \<longleftrightarrow>
     1 \<le> month \<and> month \<le> 12 \<and> 1 \<le> day \<and> day \<le> days_in_month year month"


section \<open>Years of an era\<close>

text \<open>
  The first day of a year within its era of 400 years (years begin in March), and the estimate
  the algorithm divides by 365 to find the year of a day.
\<close>

definition year_start :: "int \<Rightarrow> int" where
  "year_start yoe = 365 * yoe + yoe div 4 - yoe div 100"

definition year_est :: "int \<Rightarrow> int" where
  "year_est doe = doe - doe div 1460 + doe div 36524 - doe div 146096"

definition year_end :: "int \<Rightarrow> int" where
  "year_end yoe = (if yoe = 399 then 146097 else year_start (yoe + 1))"

lemma year_est_step: "year_est d \<le> year_est (d + 1)"
proof -
  have four: "x div 146096 = x div 36524 div 4" for x :: int
    using zdiv_zmult2_eq [of 4 x 36524] by simp
  have "(d + 1) div 1460 \<le> d div 1460 + 1" by linarith
  moreover have "(d + 1) div 36524 = d div 36524 \<or> (d + 1) div 36524 = d div 36524 + 1" by linarith
  then have "(d + 1) div 36524 div 4 - d div 36524 div 4 \<le> (d + 1) div 36524 - d div 36524" by linarith
  ultimately show ?thesis unfolding year_est_def four by linarith
qed

lemma year_est_mono: "d \<le> d' \<Longrightarrow> year_est d \<le> year_est d'"
  by (induction d' rule: int_ge_induct) (use year_est_step order_trans in blast)+

lemma year_table:
  "list_all (\<lambda>y. 365 * y \<le> year_est (year_start y) \<and> year_est (year_end y - 1) < 365 * (y + 1)
     \<and> year_end y - year_start y = (if is_leap_year (y + 1) then 366 else 365)
     \<and> 0 \<le> year_start y \<and> year_end y \<le> 146097) [0..399]"
  by code_simp

lemma month_table:
  "list_all (\<lambda>doy. let mp = (5 * doy + 2) div 153; d = doy - (153 * mp + 2) div 5 + 1 in
     0 \<le> mp \<and> mp \<le> 11 \<and> 1 \<le> d \<and> d \<le> (if mp = 11 then (if doy = 365 then 29 else 28)
       else if mp = 1 \<or> mp = 3 \<or> mp = 6 \<or> mp = 8 then 30 else 31)) [0..365]"
  by code_simp

text \<open>The year of a day: the one whose days it is among.\<close>

lemma year_facts:
  assumes "0 \<le> y" and "y < 400"
  shows "365 * y \<le> year_est (year_start y)" and "year_est (year_end y - 1) < 365 * (y + 1)"
    and "year_end y - year_start y = (if is_leap_year (y + 1) then 366 else 365)"
    and "0 \<le> year_start y" and "year_end y \<le> 146097"
  using year_table assms by (auto simp: list_all_iff)

lemma year_of_day:
  assumes "0 \<le> y" and "y < 400" and "year_start y \<le> doe" and "doe < year_end y"
  shows "year_est doe div 365 = y"
proof -
  have "365 * y \<le> year_est doe" using year_facts(1) [OF assms(1,2)] year_est_mono [OF assms(3)] by linarith
  moreover have "year_est doe < 365 * (y + 1)"
    using year_facts(2) [OF assms(1,2)] year_est_mono [of doe "year_end y - 1"] assms(4) by linarith
  ultimately show ?thesis by (intro int_div_pos_eq [of _ 365 y "year_est doe - 365 * y"]) simp_all
qed

lemma year_exists:
  assumes "0 \<le> doe" and "doe < 146097"
  obtains y where "0 \<le> y" and "y < 400" and "year_start y \<le> doe" and "doe < year_end y"
proof -
  have "\<exists>y. 0 \<le> y \<and> y < 400 \<and> year_start y \<le> doe \<and> doe < year_end y" if "0 \<le> n" "n < 400" "year_start n \<le> doe" for n
    using that
  proof (induction "nat (399 - n)" arbitrary: n)
    case 0
    then have "n = 399" by simp
    then show ?case using 0 assms(2) by (intro exI [of _ 399]) (simp add: year_end_def)
  next
    case (Suc k)
    show ?case
    proof (cases "doe < year_end n")
      case False
      then have "year_start (n + 1) \<le> doe" "n < 399" using Suc.hyps(2) by (auto simp: year_end_def split: if_splits)
      then show ?thesis using Suc.hyps(1) [of "n + 1"] Suc.hyps(2) Suc.prems by simp
    qed (use Suc.prems in blast)
  qed
  from this [of 0] assms(1) that show ?thesis by (auto simp: year_start_def)
qed


section \<open>Both ways\<close>

text \<open>Where a valid date lies in its year.\<close>

definition doy_of :: "int \<Rightarrow> int \<Rightarrow> int" where
  "doy_of month day = (153 * (if month > 2 then month - 3 else month + 9) + 2) div 5 + day - 1"

lemma doy_bounds:
  assumes "valid_civil year month day"
  shows "0 \<le> doy_of month day"
    and "doy_of month day < (if is_leap_year (year - (if month \<le> 2 then 1 else 0) + 1) then 366 else 365)"
    and "(5 * doy_of month day + 2) div 153 = (if month > 2 then month - 3 else month + 9)"
proof -
  have m: "month \<in> {1..12}" using assms by (simp add: valid_civil_def)
  have "month \<in> {1, 2, 3, 4, 5, 6, 7, 8, 9, 10, 11, 12}" using m by (simp, presburger)
  then show "0 \<le> doy_of month day"
    and "doy_of month day < (if is_leap_year (year - (if month \<le> 2 then 1 else 0) + 1) then 366 else 365)"
    and "(5 * doy_of month day + 2) div 153 = (if month > 2 then month - 3 else month + 9)"
    using assms by (auto simp: doy_of_def valid_civil_def days_in_month_def split: if_splits)
qed

lemma leap_era: "is_leap_year (y + 400 * k) \<longleftrightarrow> is_leap_year y"
  unfolding is_leap_year_def
  using mod_mult_self2 [of y 4 "100 * k"] mod_mult_self2 [of y 100 "4 * k"] mod_mult_self2 [of y 400 k] by simp

lemma civil_of_days:
  assumes "valid_civil year month day"
  shows "civil_from_days (days_from_civil year month day) = (year, month, day)"
proof -
  define y where "y = (if month \<le> 2 then year - 1 else year)"
  define doy where "doy = doy_of month day"
  have yoe: "0 \<le> y mod 400" "y mod 400 < 400" by simp_all
  have "is_leap_year (y mod 400 + 1) \<longleftrightarrow> is_leap_year (y + 1)"
    using leap_era [of "y mod 400 + 1" "y div 400"] by (simp add: algebra_simps)
  then have doy: "0 \<le> doy" "doy < year_end (y mod 400) - year_start (y mod 400)"
    using doy_bounds(1,2) [OF assms] year_facts(3) [OF yoe] by (auto simp: doy_def y_def algebra_simps split: if_splits)
  have d: "days_from_civil year month day = y div 400 * 146097 + (year_start (y mod 400) + doy) - 719468"
    by (simp add: days_from_civil_def Let_def y_def doy_def doy_of_def year_start_def)
  define doe where "doe = year_start (y mod 400) + doy"
  have doe: "0 \<le> doe" "doe < 146097" "year_start (y mod 400) \<le> doe" "doe < year_end (y mod 400)"
    using doy year_facts(4,5) [OF yoe] by (simp_all add: doe_def)
  have z: "days_from_civil year month day + 719468 = y div 400 * 146097 + doe" by (simp add: d doe_def)
  have era: "(days_from_civil year month day + 719468) div 146097 = y div 400"
    "(days_from_civil year month day + 719468) mod 146097 = doe"
    unfolding z using doe(1,2) by simp_all
  have est: "(doe - doe div 1460 + doe div 36524 - doe div 146096) div 365 = y mod 400"
    using year_of_day [OF yoe doe(3,4)] by (simp add: year_est_def)
  have doy': "doe - (365 * (y mod 400) + y mod 400 div 4 - y mod 400 div 100) = doy"
    by (simp add: doe_def year_start_def)
  let ?mp = "if month > 2 then month - 3 else month + 9"
  have mp: "(5 * doy + 2) div 153 = ?mp" using doy_bounds(3) [OF assms] by (simp add: doy_def)
  have month: "(if ?mp < 10 then ?mp + 3 else ?mp - 9) = month" using assms by (simp add: valid_civil_def)
  have day: "doy - (153 * ?mp + 2) div 5 + 1 = day" by (simp add: doy_def doy_of_def)
  have year: "y mod 400 + y div 400 * 400 + (if month \<le> 2 then 1 else 0) = year"
    by (simp add: y_def)
  show ?thesis
    unfolding civil_from_days_def Let_def era est doy' mp month day year by (rule refl)
qed

lemma days_of_civil:
  assumes "civil_from_days days = (year, month, day)"
  shows "valid_civil year month day" and "days_from_civil year month day = days"
proof -
  define era where "era = (days + 719468) div 146097"
  define doe where "doe = (days + 719468) mod 146097"
  have doe: "0 \<le> doe" "doe < 146097" by (simp_all add: doe_def)
  obtain y where y: "0 \<le> y" "y < 400" "year_start y \<le> doe" "doe < year_end y" by (rule year_exists [OF doe])
  have est: "(doe - doe div 1460 + doe div 36524 - doe div 146096) div 365 = y"
    using year_of_day [OF y] by (simp add: year_est_def)
  define doy where "doy = doe - (365 * y + y div 4 - y div 100)"
  have doy: "0 \<le> doy" "doy < (if is_leap_year (y + 1) then 366 else 365)"
    using y(3,4) year_facts(3) [OF y(1,2)] by (simp_all add: doy_def year_start_def)
  define mp where "mp = (5 * doy + 2) div 153"
  have civ: "month = (if mp < 10 then mp + 3 else mp - 9)" "day = doy - (153 * mp + 2) div 5 + 1"
    "year = y + era * 400 + (if month \<le> 2 then 1 else 0)"
    using assms unfolding civil_from_days_def Let_def era_def [symmetric] doe_def [symmetric] est doy_def [symmetric] mp_def [symmetric]
    by auto
  have "doy \<in> set [0..365]" using doy by (auto split: if_splits)
  then have t: "0 \<le> mp" "mp \<le> 11" "1 \<le> day"
    "day \<le> (if mp = 11 then (if doy = 365 then 29 else 28) else if mp = 1 \<or> mp = 3 \<or> mp = 6 \<or> mp = 8 then 30 else 31)"
    using month_table unfolding list_all_iff by (auto simp: Let_def mp_def civ(2))
  have leap: "is_leap_year (y + 1 + era * 400) \<longleftrightarrow> is_leap_year (y + 1)"
    using leap_era [of "y + 1" era] by (simp add: mult.commute)
  have "doy = 365 \<longrightarrow> is_leap_year (y + 1)" using doy(2) by (auto split: if_splits)
  then show "valid_civil year month day"
    using t leap unfolding valid_civil_def days_in_month_def civ(3)
    by (auto simp: civ(1) algebra_simps split: if_splits)
  have m: "(if month > 2 then month - 3 else month + 9) = mp" using t(1,2) by (auto simp: civ(1))
  have y0: "(if month \<le> 2 then year - 1 else year) = y + era * 400" by (simp add: civ(3))
  have "(y + era * 400) div 400 = era" "(y + era * 400) mod 400 = y" using y(1,2) by simp_all
  then have "days_from_civil year month day = era * 146097 + (y * 365 + y div 4 - y div 100 + ((153 * mp + 2) div 5 + day - 1)) - 719468"
    unfolding days_from_civil_def Let_def m y0 by simp
  also have "\<dots> = era * 146097 + doe - 719468" by (simp add: civ(2) doy_def)
  also have "\<dots> = days" using div_mult_mod_eq [of "days + 719468" 146097] by (simp add: era_def doe_def)
  finally show "days_from_civil year month day = days" .
qed

text \<open>
  The two calendar functions are inverse: every day has a valid date that maps back to it,
  and a valid date is the date of its day. So days and valid dates correspond one to one, over all
  years, before and after year 0.
\<close>

theorem calendar_bijection:
  "valid_civil y m d \<and> days_from_civil y m d = days \<longleftrightarrow> civil_from_days days = (y, m, d)"
  using civil_of_days days_of_civil by blast

end
