(* ===== verification/Iso8601.thy ===== *)
theory Iso8601
  imports Value_Types Calendar
begin

text \<open>
  The ISO 8601 text of dates and date-times (\<open>crates/core-storage/src/types.rs\<close>): printers and
  parsers over the calendar. Every value in range has text, and the text parses back to it.
\<close>


section \<open>Digits\<close>

definition digit_char :: "nat \<Rightarrow> char" where "digit_char d = char_of (48 + d)"

text \<open>A number in decimal, and padded with zeros to a width: the \<open>{n}\<close> and \<open>{n:0w}\<close> of a format string.\<close>

fun show_nat :: "nat \<Rightarrow> string" where
  "show_nat n = (if n < 10 then [digit_char n] else show_nat (n div 10) @ [digit_char (n mod 10)])"

declare show_nat.simps [simp del]

definition pad :: "nat \<Rightarrow> nat \<Rightarrow> string" where
  "pad w n = replicate (w - length (show_nat n)) CHR ''0'' @ show_nat n"

definition digit_val :: "char \<Rightarrow> nat" where "digit_val c = of_char c - 48"

definition digits_val :: "string \<Rightarrow> nat" where
  "digits_val cs = foldl (\<lambda>a c. 10 * a + digit_val c) 0 cs"

definition strip_prefix :: "char \<Rightarrow> string \<Rightarrow> string option" where
  "strip_prefix c s = (case s of x # rest \<Rightarrow> if x = c then Some rest else None | [] \<Rightarrow> None)"

definition strip_point :: "string \<Rightarrow> string option" where
  "strip_point s = (case s of x # rest \<Rightarrow> if x = CHR ''.'' \<or> x = CHR '','' then Some rest else None | [] \<Rightarrow> None)"

definition fixed_digits :: "string \<Rightarrow> nat \<Rightarrow> (nat \<times> string) option" where
  "fixed_digits s n =
     (if length s < n \<or> \<not> list_all is_ascii_digit (take n s) then None
      else Some (digits_val (take n s), drop n s))"


section \<open>Dates\<close>

definition MAX_OFFSET_SECONDS :: int where "MAX_OFFSET_SECONDS = 18 * 3600"
definition MICROS_PER_SECOND :: int where "MICROS_PER_SECOND = 1000000"
definition SECONDS_PER_DAY :: int where "SECONDS_PER_DAY = 86400"
definition NANOS_PER_SECOND :: int where "NANOS_PER_SECOND = 1000000000"

definition format_civil :: "int \<Rightarrow> string" where
  "format_civil days =
     (case civil_from_days days of (year, month, day) \<Rightarrow>
        (if 0 \<le> year \<and> year \<le> 9999 then pad 4 (nat year)
         else if year < 0 then ''-'' @ pad 6 (nat (- year))
         else ''+'' @ pad 6 (nat year))
        @ ''-'' @ pad 2 (nat month) @ ''-'' @ pad 2 (nat day))"

definition parse_civil :: "string \<Rightarrow> (int \<times> string) option" where
  "parse_civil s =
     (if s = [] then None
      else
        let sign = (if hd s = CHR ''+'' then 1 else if hd s = CHR ''-'' then - 1 else 0 :: int);
            rest = (if sign = 0 then s else tl s);
            year_len = length (takeWhile is_ascii_digit rest)
        in if (sign = 0 \<and> year_len \<noteq> 4) \<or> \<not> (4 \<le> year_len \<and> year_len \<le> 12) then None
           else do {
             let magnitude = int (digits_val (take year_len rest));
             let year = (if sign < 0 then - magnitude else magnitude);
             rest \<leftarrow> strip_prefix CHR ''-'' (drop year_len rest);
             (month, rest) \<leftarrow> fixed_digits rest 2;
             rest \<leftarrow> strip_prefix CHR ''-'' rest;
             (day, rest) \<leftarrow> fixed_digits rest 2;
             if \<not> (1 \<le> month \<and> month \<le> 12) \<or> day = 0 \<or> int day > days_in_month year (int month) then None
             else Some (days_from_civil year (int month) (int day), rest) })"

definition date_to_iso8601 :: "int \<Rightarrow> string" where "date_to_iso8601 days = format_civil days"

definition iso8601_to_date :: "string \<Rightarrow> int option" where
  "iso8601_to_date s = do { (days, rest) \<leftarrow> parse_civil s; if rest = [] then try_i32 days else None }"


section \<open>Date-times\<close>

text \<open>The optional seconds and fraction of a time of day: seconds, nanoseconds and the rest.\<close>

definition parse_seconds :: "string \<Rightarrow> (nat \<times> nat \<times> string) option" where
  "parse_seconds rest =
     (case strip_prefix CHR '':'' rest of
        None \<Rightarrow> Some (0, 0, rest)
      | Some after \<Rightarrow> do {
          (sec, rest) \<leftarrow> fixed_digits after 2;
          case strip_point rest of
            None \<Rightarrow> Some (sec, 0, rest)
          | Some after \<Rightarrow>
              (let len = length (takeWhile is_ascii_digit after)
               in if len = 0 \<or> len > 9 then None
                  else Some (sec, digits_val (take len after) * 10 ^ (9 - len), drop len after)) })"

definition parse_time_of_day :: "string \<Rightarrow> (int \<times> string) option" where
  "parse_time_of_day s = do {
     (hour, rest) \<leftarrow> fixed_digits s 2;
     rest \<leftarrow> strip_prefix CHR '':'' rest;
     (minute, rest) \<leftarrow> fixed_digits rest 2;
     (second, frac_nanos, rest) \<leftarrow> parse_seconds rest;
     if hour > 23 \<or> minute > 59 \<or> second > 59 then None
     else Some (int (hour * 3600 + minute * 60 + second) * NANOS_PER_SECOND + int frac_nanos, rest) }"

definition parse_offset :: "string \<Rightarrow> int option" where
  "parse_offset s =
     (if s = ''Z'' then Some 0
      else if s = [] \<or> (hd s \<noteq> CHR ''+'' \<and> hd s \<noteq> CHR ''-'') then None
      else do {
        let negative = (hd s = CHR ''-'');
        (hours, rest) \<leftarrow> fixed_digits (tl s) 2;
        rest \<leftarrow> strip_prefix CHR '':'' rest;
        (minutes, rest) \<leftarrow> fixed_digits rest 2;
        seconds \<leftarrow> (case strip_prefix CHR '':'' rest of
             Some after \<Rightarrow> do { (secs, after) \<leftarrow> fixed_digits after 2; if after \<noteq> [] then None else Some secs }
           | None \<Rightarrow> if rest = [] then Some 0 else None);
        if minutes > 59 \<or> seconds > 59 then None
        else do {
          total \<leftarrow> try_i32 (int (hours * 3600 + minutes * 60 + seconds));
          if total > MAX_OFFSET_SECONDS then None else Some (if negative then - total else total) } })"

definition format_local_micros :: "int \<Rightarrow> string" where
  "format_local_micros micros =
     (let per_day = SECONDS_PER_DAY * MICROS_PER_SECOND;
          days = micros div per_day;
          of_day = nat (micros mod per_day);
          sub = of_day mod 1000000;
          sod = of_day div 1000000;
          hms = pad 2 (sod div 3600) @ '':'' @ pad 2 (sod div 60 mod 60) @ '':'' @ pad 2 (sod mod 60)
      in format_civil days @ ''T'' @ hms @ (if sub = 0 then [] else ''.'' @ pad 6 sub))"

definition parse_local_micros :: "string \<Rightarrow> (int \<times> string) option" where
  "parse_local_micros s = do {
     (days, rest) \<leftarrow> parse_civil s;
     rest \<leftarrow> strip_prefix CHR ''T'' rest;
     (nanos_of_day, rest) \<leftarrow> parse_time_of_day rest;
     Some (days * (SECONDS_PER_DAY * MICROS_PER_SECOND) + nanos_of_day div 1000, rest) }"

definition local_datetime_to_iso8601 :: "int \<Rightarrow> string" where
  "local_datetime_to_iso8601 micros = format_local_micros micros"

definition iso8601_to_local_datetime :: "string \<Rightarrow> int option" where
  "iso8601_to_local_datetime s = do { (micros, rest) \<leftarrow> parse_local_micros s; if rest = [] then try_i64 micros else None }"

text \<open>An offset out of range has no text; the message of the error is not modelled.\<close>

definition datetime_to_iso8601 :: "int \<Rightarrow> int \<Rightarrow> string option" where
  "datetime_to_iso8601 micros_utc offset_seconds =
     (if \<bar>offset_seconds\<bar> > MAX_OFFSET_SECONDS then None
      else
        let loc = micros_utc + offset_seconds * MICROS_PER_SECOND;
            sign = (if offset_seconds < 0 then ''-'' else ''+'');
            off = nat \<bar>offset_seconds\<bar>
        in Some (format_local_micros loc @ sign @ pad 2 (off div 3600) @ '':'' @ pad 2 (off div 60 mod 60)
             @ (if off mod 60 = 0 then [] else '':'' @ pad 2 (off mod 60))))"

definition iso8601_to_datetime :: "string \<Rightarrow> (int \<times> int) option" where
  "iso8601_to_datetime s = do {
     (loc, rest) \<leftarrow> parse_local_micros s;
     offset \<leftarrow> parse_offset rest;
     utc \<leftarrow> try_i64 (loc - offset * MICROS_PER_SECOND);
     Some (utc, offset) }"



section \<open>Digits print and read back\<close>

lemma digit_char_val: "d < 10 \<Longrightarrow> is_ascii_digit (digit_char d) \<and> digit_val (digit_char d) = d"
  by (simp add: is_ascii_digit_def digit_val_def digit_char_def)

lemma digits_val_snoc: "digits_val (cs @ [c]) = 10 * digits_val cs + digit_val c"
  by (simp add: digits_val_def)

lemma show_nat_props: "list_all is_ascii_digit (show_nat n) \<and> digits_val (show_nat n) = n \<and> show_nat n \<noteq> []"
proof (induction n rule: less_induct)
  case (less n)
  show ?case
  proof (cases "n < 10")
    case True
    then show ?thesis using digit_char_val [of n] by (simp add: show_nat.simps [of n] digits_val_def)
  next
    case False
    then show ?thesis using less [of "n div 10"] digit_char_val [of "n mod 10"]
      by (simp add: show_nat.simps [of n] digits_val_snoc)
  qed
qed

lemma length_show_nat: "0 < k \<Longrightarrow> n < 10 ^ k \<Longrightarrow> length (show_nat n) \<le> k"
proof (induction n arbitrary: k rule: less_induct)
  case (less n)
  show ?case
  proof (cases "n < 10")
    case False
    then obtain k' where k: "k = Suc k'" "0 < k'" using less.prems by (cases k; cases "k - 1") auto
    then have "n div 10 < 10 ^ k'" using less.prems(2) by (simp add: div_less_iff_less_mult mult.commute)
    then show ?thesis using less.IH [of "n div 10" k'] False k by (simp add: show_nat.simps [of n])
  qed (use less.prems in \<open>simp add: show_nat.simps [of n]\<close>)
qed

lemma digits_val_zeros: "digits_val (replicate k CHR ''0'' @ cs) = digits_val cs"
  by (induction k) (simp_all add: digits_val_def digit_val_def)

lemma pad_digits: "list_all is_ascii_digit (pad w n)"
  using show_nat_props [of n] by (simp add: pad_def list_all_length is_ascii_digit_def nth_append)

lemma pad_val [simp]: "digits_val (pad w n) = n"
  using show_nat_props [of n] by (simp add: pad_def digits_val_zeros)

lemma length_pad: "0 < w \<Longrightarrow> n < 10 ^ w \<Longrightarrow> length (pad w n) = w"
  using length_show_nat [of w n] by (simp add: pad_def)

lemma length_pad_le: "w \<le> k \<Longrightarrow> 0 < k \<Longrightarrow> n < 10 ^ k \<Longrightarrow> length (pad w n) \<le> k"
  using length_show_nat [of k n] by (simp add: pad_def)

lemma length_pad_ge: "w \<le> length (pad w n)" by (simp add: pad_def)

lemma pad_nonempty: "pad w n \<noteq> []" using show_nat_props [of n] by (simp add: pad_def)

lemma fixed_digits_pad: "n < 100 \<Longrightarrow> fixed_digits (pad 2 n @ rest) 2 = Some (n, rest)"
  using length_pad [of 2 n] pad_digits [of 2 n] by (simp add: fixed_digits_def)

lemma hd_pad_digit: "is_ascii_digit (hd (pad w n @ rest))"
  using pad_digits [of w n] pad_nonempty [of w n] by (cases "pad w n") simp_all

lemma not_digit [simp]: "\<not> is_ascii_digit CHR ''-''" "\<not> is_ascii_digit CHR ''+''" "\<not> is_ascii_digit CHR '':''"
  "\<not> is_ascii_digit CHR ''.''" "\<not> is_ascii_digit CHR '',''" "\<not> is_ascii_digit CHR ''T''" "\<not> is_ascii_digit CHR ''Z''"
  by (simp_all add: is_ascii_digit_def)

lemma takeWhile_pad:
  assumes "rest = [] \<or> \<not> is_ascii_digit (hd rest)"
  shows "takeWhile is_ascii_digit (pad w n @ rest) = pad w n"
proof -
  have "takeWhile is_ascii_digit (pad w n @ rest) = pad w n @ takeWhile is_ascii_digit rest"
    using pad_digits [of w n] by (intro takeWhile_append2) (simp add: list_all_iff)
  then show ?thesis using assms by (cases rest) auto
qed

lemma strip_prefix_Cons [simp]: "strip_prefix c (c # rest) = Some rest"
  by (simp add: strip_prefix_def)


section \<open>Dates\<close>

lemma year_bound:
  assumes "civil_from_days days = (y, m, d)" and "\<bar>days\<bar> \<le> 10 ^ 12"
  shows "\<bar>y\<bar> < 10 ^ 12"
proof -
  have v: "valid_civil y m d" and days: "days_from_civil y m d = days" by (rule days_of_civil [OF assms(1)])+
  define y' where "y' = (if m \<le> 2 then y - 1 else y)"
  have md: "1 \<le> m" "m \<le> 12" "1 \<le> d" "d \<le> 31"
    using v by (auto simp: valid_civil_def days_in_month_def split: if_splits)
  define doy where "doy = (153 * (if m > 2 then m - 3 else m + 9) + 2) div 5 + d - 1"
  have doy: "0 \<le> doy" "doy \<le> 400" using md unfolding doy_def by (auto split: if_splits)
  define era yoe where "era = y' div 400" and "yoe = y' mod 400"
  have yoe: "0 \<le> yoe" "yoe < 400" and y': "y' = era * 400 + yoe" by (simp_all add: yoe_def era_def)
  define p where "p = yoe * 365 + yoe div 4 - yoe div 100"
  have p: "0 \<le> p" "p \<le> 200000" using yoe unfolding p_def by linarith+
  have "days = era * 146097 + (p + doy) - 719468"
    using days by (simp add: days_from_civil_def Let_def y'_def doy_def era_def yoe_def p_def)
  then have "\<bar>era\<bar> < 10 ^ 9" using assms(2) doy p by (simp add: abs_le_iff abs_less_iff)
  then have "\<bar>y'\<bar> < 10 ^ 12 - 1" using yoe by (simp add: y' abs_less_iff)
  then show ?thesis by (auto simp: y'_def split: if_splits)
qed

lemma parse_format_civil:
  assumes "\<bar>days\<bar> \<le> 10 ^ 12"
  shows "parse_civil (format_civil days @ rest) = Some (days, rest)"
proof -
  obtain y m d where c: "civil_from_days days = (y, m, d)" by (cases "civil_from_days days") auto
  have v: "valid_civil y m d" and days: "days_from_civil y m d = days" by (rule days_of_civil [OF c])+
  have y: "\<bar>y\<bar> < 10 ^ 12" by (rule year_bound [OF c assms])
  have md: "1 \<le> m" "m \<le> 12" "1 \<le> d" "d \<le> days_in_month y m" "d \<le> 31"
    using v by (auto simp: valid_civil_def days_in_month_def split: if_splits)
  define t where "t = ''-'' @ pad 2 (nat m) @ ''-'' @ pad 2 (nat d) @ rest"
  have md': "nat m < 100" "nat d < 100" "1 \<le> nat m" "nat m \<le> 12" "nat d \<noteq> 0" using md by auto
  have tail: "takeWhile is_ascii_digit (pad w n @ t) = pad w n" for w n by (rule takeWhile_pad) (simp add: t_def)
  have fin: "(do { rest \<leftarrow> strip_prefix CHR ''-'' t; (month, rest) \<leftarrow> fixed_digits rest 2;
      rest \<leftarrow> strip_prefix CHR ''-'' rest; (day, rest) \<leftarrow> fixed_digits rest 2;
      if \<not> (1 \<le> month \<and> month \<le> 12) \<or> day = 0 \<or> int day > days_in_month y (int month) then None
      else Some (days_from_civil y (int month) (int day), rest) }) = Some (days, rest)"
    using md md' days by (simp add: t_def fixed_digits_pad)
  consider "0 \<le> y" "y \<le> 9999" | "y < 0" | "9999 < y" by linarith
  then show ?thesis
  proof cases
    case 1
    have f: "format_civil days @ rest = pad 4 (nat y) @ t" using 1 by (simp add: format_civil_def c t_def)
    have l: "length (pad 4 (nat y)) = 4" using 1 by (intro length_pad) simp_all
    have h: "hd (pad 4 (nat y) @ t) \<noteq> CHR ''+''" "hd (pad 4 (nat y) @ t) \<noteq> CHR ''-''"
      using hd_pad_digit [of 4 "nat y" t] not_digit by metis+
    show ?thesis
      using fin h 1 unfolding parse_civil_def f Let_def
      by (simp add: tail l pad_nonempty cong: if_cong)
  next
    case 2
    have f: "format_civil days @ rest = CHR ''-'' # pad 6 (nat (- y)) @ t" using 2 by (simp add: format_civil_def c t_def)
    have l: "length (pad 6 (nat (- y))) \<le> 12" using y 2 by (intro length_pad_le) simp_all
    show ?thesis
      using fin l length_pad_ge [of 6 "nat (- y)"] 2 unfolding parse_civil_def f Let_def
      by (simp add: tail cong: if_cong)
  next
    case 3
    have f: "format_civil days @ rest = CHR ''+'' # pad 6 (nat y) @ t" using 3 by (simp add: format_civil_def c t_def)
    have l: "length (pad 6 (nat y)) \<le> 12" using y 3 by (intro length_pad_le) simp_all
    show ?thesis
      using fin l length_pad_ge [of 6 "nat y"] 3 unfolding parse_civil_def f Let_def
      by (simp add: tail cong: if_cong)
  qed
qed



section \<open>Date-times\<close>

definition no_fraction :: "string \<Rightarrow> bool" where
  "no_fraction rest \<longleftrightarrow> rest = [] \<or> (\<not> is_ascii_digit (hd rest) \<and> hd rest \<noteq> CHR ''.'' \<and> hd rest \<noteq> CHR '','')"

lemma strip_point_none: "no_fraction rest \<Longrightarrow> strip_point rest = None"
  by (cases rest) (auto simp: no_fraction_def strip_point_def)

lemma hms_sum: "s div 3600 * 3600 + s div 60 mod 60 * 60 + s mod 60 = s" for s :: nat
proof -
  have "s div 3600 = s div 60 div 60" by (simp flip: div_mult2_eq)
  then show ?thesis using div_mult_mod_eq [of "s div 60" 60] div_mult_mod_eq [of s 60] by linarith
qed

lemma parse_time_format:
  assumes "sod < 86400" and "sub < 1000000" and "no_fraction rest"
  shows "parse_time_of_day (pad 2 (sod div 3600) @ '':'' @ pad 2 (sod div 60 mod 60) @ '':'' @ pad 2 (sod mod 60)
      @ (if sub = 0 then [] else ''.'' @ pad 6 sub) @ rest) = Some (int (sod * 1000000 + sub) * 1000, rest)"
proof -
  let ?frac = "(if sub = 0 then [] else ''.'' @ pad 6 sub) @ rest"
  have small: "sod div 3600 < 100" "sod div 60 mod 60 < 100" "sod mod 60 < 100" "sod div 3600 \<le> 23" "sod div 60 mod 60 \<le> 59" "sod mod 60 \<le> 59"
    using assms(1) by linarith+
  have sod: "sod div 3600 * 3600 + sod div 60 mod 60 * 60 + sod mod 60 = sod"
    by (rule hms_sum)
  have "parse_seconds ('':'' @ pad 2 (sod mod 60) @ ?frac) = Some (sod mod 60, sub * 1000, rest)"
  proof (cases "sub = 0")
    case True
    then show ?thesis using small strip_point_none [OF assms(3)] by (simp add: parse_seconds_def fixed_digits_pad)
  next
    case False
    have l: "length (pad 6 sub) = 6" using assms(2) by (intro length_pad) simp_all
    have t: "takeWhile is_ascii_digit (pad 6 sub @ rest) = pad 6 sub"
      by (rule takeWhile_pad) (use assms(3) in \<open>auto simp: no_fraction_def\<close>)
    show ?thesis using False small
      by (simp add: parse_seconds_def fixed_digits_pad strip_point_def Let_def t l)
  qed
  then show ?thesis using small sod
    by (simp add: parse_time_of_day_def fixed_digits_pad NANOS_PER_SECOND_def)
qed

lemma parse_format_local:
  assumes "\<bar>micros\<bar> \<le> 10 ^ 20" and "no_fraction rest"
  shows "parse_local_micros (format_local_micros micros @ rest) = Some (micros, rest)"
proof -
  let ?pd = "86400000000 :: int"
  define days of_day where "days = micros div ?pd" and "of_day = nat (micros mod ?pd)"
  have od: "int of_day = micros mod ?pd" "of_day < 86400000000" by (simp_all add: of_day_def nat_less_iff)
  have "micros \<le> 10 ^ 20" "- (10 ^ 20) \<le> micros" using assms(1) by linarith+
  then have "days \<le> 10 ^ 20 div ?pd" "- (10 ^ 20) div ?pd \<le> days" unfolding days_def by (intro zdiv_mono1; simp)+
  then have "\<bar>days\<bar> \<le> 10 ^ 12" by (simp add: abs_le_iff)
  note civ = parse_format_civil [OF this]
  have sod: "of_day div 1000000 < 86400" "of_day mod 1000000 < 1000000" using od(2) by linarith+
  have sum: "of_day div 1000000 * 1000000 + of_day mod 1000000 = of_day" by simp
  have f: "format_local_micros micros = format_civil days @ ''T'' @ pad 2 (of_day div 1000000 div 3600) @ '':''
      @ pad 2 (of_day div 1000000 div 60 mod 60) @ '':'' @ pad 2 (of_day div 1000000 mod 60)
      @ (if of_day mod 1000000 = 0 then [] else ''.'' @ pad 6 (of_day mod 1000000))"
    by (simp add: format_local_micros_def Let_def days_def of_day_def SECONDS_PER_DAY_def MICROS_PER_SECOND_def)
  have "days * ?pd + int of_day = micros" by (simp add: od(1) days_def)
  then show ?thesis
    using parse_time_format [OF sod assms(2)] unfolding f sum
    by (simp add: parse_local_micros_def civ SECONDS_PER_DAY_def MICROS_PER_SECOND_def)
qed

lemma parse_offset_format:
  assumes "\<bar>offset\<bar> \<le> MAX_OFFSET_SECONDS" and "off = nat \<bar>offset\<bar>"
  shows "parse_offset ((if offset < 0 then ''-'' else ''+'') @ pad 2 (off div 3600) @ '':'' @ pad 2 (off div 60 mod 60)
      @ (if off mod 60 = 0 then [] else '':'' @ pad 2 (off mod 60))) = Some offset"
proof -
  have off: "off \<le> 64800" using assms by (simp add: MAX_OFFSET_SECONDS_def)
  have small: "off div 3600 < 100" "off div 60 mod 60 < 100" "off mod 60 < 100" "off div 60 mod 60 \<le> 59" "off mod 60 \<le> 59"
    using off by linarith+
  have sum: "off div 3600 * 3600 + off div 60 mod 60 * 60 + off mod 60 = off"
    by (rule hms_sum)
  have t: "try_i32 (int off) = Some (int off)" using off by (simp add: try_i32_def)
  have o: "(if offset < 0 then - int off else int off) = offset" using assms(2) by simp
  have s: "parse_offset (c # pad 2 (off div 3600) @ '':'' @ pad 2 (off div 60 mod 60) @ (if off mod 60 = 0 then [] else '':'' @ pad 2 (off mod 60)))
      = Some (if c = CHR ''-'' then - int off else int off)" if c: "c = CHR ''+'' \<or> c = CHR ''-''" for c
  proof (cases "off mod 60 = 0")
    case True
    have fd: "fixed_digits (pad 2 n) 2 = Some (n, [])" if "n < 100" for n using fixed_digits_pad [OF that, of "[]"] by simp
    show ?thesis using c True small sum t off
      by (auto simp: parse_offset_def fixed_digits_pad fd strip_prefix_def MAX_OFFSET_SECONDS_def)
  next
    case False
    have fd: "fixed_digits (pad 2 n) 2 = Some (n, [])" if "n < 100" for n using fixed_digits_pad [OF that, of "[]"] by simp
    show ?thesis using c False small sum t off
      by (auto simp: parse_offset_def fixed_digits_pad fd MAX_OFFSET_SECONDS_def)
  qed
  show ?thesis using s [of "CHR ''-''"] s [of "CHR ''+''"] o by (cases "offset < 0") auto
qed

lemma date_roundtrip:
  assumes "- (2 ^ 31) \<le> days" and "days < 2 ^ 31"
  shows "iso8601_to_date (date_to_iso8601 days) = Some days"
  using parse_format_civil [of days "[]"] assms by (simp add: iso8601_to_date_def date_to_iso8601_def try_i32_def)

lemma local_datetime_roundtrip:
  assumes "- (2 ^ 63) \<le> micros" and "micros < 2 ^ 63"
  shows "iso8601_to_local_datetime (local_datetime_to_iso8601 micros) = Some micros"
  using parse_format_local [of micros "[]"] assms
  by (simp add: iso8601_to_local_datetime_def local_datetime_to_iso8601_def try_i64_def no_fraction_def)

lemma datetime_roundtrip:
  assumes "- (2 ^ 63) \<le> micros" and "micros < 2 ^ 63" and "\<bar>offset\<bar> \<le> MAX_OFFSET_SECONDS"
  shows "datetime_to_iso8601 micros offset \<bind> iso8601_to_datetime = Some (micros, offset)"
proof -
  define off where "off = nat \<bar>offset\<bar>"
  define tail where "tail = (if offset < 0 then ''-'' else ''+'') @ pad 2 (off div 3600) @ '':'' @ pad 2 (off div 60 mod 60)
      @ (if off mod 60 = 0 then [] else '':'' @ pad 2 (off mod 60))"
  let ?loc = "micros + offset * MICROS_PER_SECOND"
  have out: "datetime_to_iso8601 micros offset = Some (format_local_micros ?loc @ tail)"
    using assms(3) by (simp add: datetime_to_iso8601_def Let_def tail_def off_def)
  have "no_fraction tail" by (simp add: no_fraction_def tail_def)
  moreover have "\<bar>?loc\<bar> \<le> 10 ^ 20" using assms by (simp add: MICROS_PER_SECOND_def MAX_OFFSET_SECONDS_def abs_le_iff)
  ultimately have "parse_local_micros (format_local_micros ?loc @ tail) = Some (?loc, tail)"
    using parse_format_local by blast
  moreover have "parse_offset tail = Some offset"
    unfolding tail_def by (rule parse_offset_format [OF assms(3) off_def])
  ultimately show ?thesis using assms(1,2) by (simp add: out iso8601_to_datetime_def try_i64_def)
qed

text \<open>
  every date, local date-time and zoned date-time the store can hold prints to ISO 8601 text
  that parses back to the same value, over all of \<open>i32\<close> days and \<open>i64\<close> microseconds, with negative and
  five-digit years; a zoned date-time keeps its offset. The one value with no text is an offset
  outside \<open>\<plusminus>18:00\<close>, which the printer refuses.
\<close>

theorem iso8601_roundtrip:
  assumes "- (2 ^ 31) \<le> days" and "days < 2 ^ 31" and "- (2 ^ 63) \<le> micros" and "micros < 2 ^ 63"
  shows "iso8601_to_date (date_to_iso8601 days) = Some days
    \<and> iso8601_to_local_datetime (local_datetime_to_iso8601 micros) = Some micros
    \<and> datetime_to_iso8601 micros offset \<bind> iso8601_to_datetime
        = (if \<bar>offset\<bar> \<le> MAX_OFFSET_SECONDS then Some (micros, offset) else None)"
  using date_roundtrip [OF assms(1,2)] local_datetime_roundtrip [OF assms(3,4)] datetime_roundtrip [OF assms(3,4)]
  by (cases "\<bar>offset\<bar> \<le> MAX_OFFSET_SECONDS") (auto simp: datetime_to_iso8601_def)

theorem iso8601_roundtrip_witness:
  "iso8601_to_date (date_to_iso8601 (- 800000)) = Some (- 800000)
   \<and> datetime_to_iso8601 1700000000000000 19815 \<bind> iso8601_to_datetime = Some (1700000000000000, 19815)"
  using iso8601_roundtrip [of "- 800000" 1700000000000000 19815] by (auto simp: MAX_OFFSET_SECONDS_def)

end
