(* ===== verification/Duration.thy ===== *)
theory Duration
  imports Iso8601
begin

text \<open>
  The ISO 8601 text of durations (\<open>duration_to_iso8601\<close> and \<open>iso8601_to_duration\<close> in
  \<open>crates/core-storage/src/types.rs\<close>). Months, days and nanoseconds are independent and each carries
  its own sign; additions and multiplications the source checks are \<open>try_i64\<close>, and the nanosecond
  sum, an \<open>i128\<close>, cannot overflow.
\<close>

definition NANOS_PER_MINUTE :: int where "NANOS_PER_MINUTE = 60 * NANOS_PER_SECOND"
definition NANOS_PER_HOUR :: int where "NANOS_PER_HOUR = 60 * NANOS_PER_MINUTE"

text \<open>\<open>str::trim_end_matches('0')\<close>.\<close>

definition trim_zeros :: "string \<Rightarrow> string" where
  "trim_zeros s = rev (dropWhile (\<lambda>c. c = CHR ''0'') (rev s))"

definition duration_to_iso8601 :: "int \<Rightarrow> int \<Rightarrow> int \<Rightarrow> string" where
  "duration_to_iso8601 months days nanos =
     (let sign = (\<lambda>x. if x < 0 then ''-'' else '''');
          years = nat \<bar>months\<bar> div 12;
          rest_months = nat \<bar>months\<bar> mod 12;
          abs_n = nat \<bar>nanos\<bar>;
          hours = abs_n div nat NANOS_PER_HOUR;
          minutes = abs_n mod nat NANOS_PER_HOUR div nat NANOS_PER_MINUTE;
          seconds = abs_n mod nat NANOS_PER_MINUTE div nat NANOS_PER_SECOND;
          frac = abs_n mod nat NANOS_PER_SECOND;
          out = ''P''
            @ (if years \<noteq> 0 then sign months @ show_nat years @ ''Y'' else [])
            @ (if rest_months \<noteq> 0 then sign months @ show_nat rest_months @ ''M'' else [])
            @ (if days \<noteq> 0 then sign days @ show_nat (nat \<bar>days\<bar>) @ ''D'' else [])
            @ (if nanos \<noteq> 0
               then ''T''
                 @ (if hours \<noteq> 0 then sign nanos @ show_nat hours @ ''H'' else [])
                 @ (if minutes \<noteq> 0 then sign nanos @ show_nat minutes @ ''M'' else [])
                 @ (if seconds \<noteq> 0 \<or> frac \<noteq> 0
                    then sign nanos @ show_nat seconds
                      @ (if frac \<noteq> 0 then ''.'' @ trim_zeros (pad 9 frac) else []) @ ''S''
                    else [])
               else [])
      in if out = ''P'' then out @ ''T0S'' else out)"

text \<open>
  One component: its signed integer part, its unit, its fraction in nanoseconds and the rest. A
  unit that is not ASCII is refused by the caller, so its first byte stands for it.
\<close>

definition duration_component :: "string \<Rightarrow> (int \<times> char \<times> int option \<times> string) option" where
  "duration_component s =
     (let negative = (strip_prefix CHR ''-'' s \<noteq> None);
          rest = (if negative then tl s else s);
          int_len = length (takeWhile is_ascii_digit rest)
      in if int_len = 0 then None
         else do {
           magnitude \<leftarrow> try_i64 (int (digits_val (take int_len rest)));
           (frac, rest) \<leftarrow> (case strip_point (drop int_len rest) of
                None \<Rightarrow> Some (None, drop int_len rest)
              | Some after_dot \<Rightarrow>
                  (let frac_len = length (takeWhile is_ascii_digit after_dot)
                   in if frac_len = 0 \<or> frac_len > 9 then None
                      else Some (Some (int (digits_val (take frac_len after_dot) * 10 ^ (9 - frac_len))),
                                 drop frac_len after_dot)));
           if rest = [] then None
           else Some (if negative then - magnitude else magnitude, hd rest, frac, tl rest) })"

lemma strip_prefix_length: "strip_prefix c s = Some r \<Longrightarrow> length s = Suc (length r)"
  by (auto simp: strip_prefix_def split: list.splits if_splits)

lemma strip_point_length: "strip_point s = Some r \<Longrightarrow> length s = Suc (length r)"
  by (auto simp: strip_point_def split: list.splits if_splits)

lemma duration_component_shrinks:
  assumes "duration_component s = Some (n, unit, frac, rest)"
  shows "length rest < length s"
proof -
  define r where "r = (if strip_prefix CHR ''-'' s \<noteq> None then tl s else s)"
  define l where "l = length (takeWhile is_ascii_digit r)"
  have "length rest < length r"
    using assms unfolding duration_component_def Let_def r_def [symmetric] l_def [symmetric]
    by (auto split: if_splits bind_splits option.splits dest!: strip_point_length simp: Let_def)
  moreover have "length r \<le> length s" by (simp add: r_def)
  ultimately show ?thesis by simp
qed

text \<open>The loop over the date part: the last rank, months, days and whether anything was read.\<close>

function date_loop :: "string \<Rightarrow> nat \<Rightarrow> int \<Rightarrow> int \<Rightarrow> bool \<Rightarrow> (int \<times> int \<times> bool) option" where
  "date_loop cursor order months days any =
     (if cursor = [] then Some (months, days, any)
      else case duration_component cursor of
        None \<Rightarrow> None
      | Some (n, unit, frac, nxt) \<Rightarrow>
          if frac \<noteq> None then None
          else
            let rank = (if unit = CHR ''Y'' then 1 else if unit = CHR ''M'' then 2 else if unit = CHR ''W'' then 3
                        else if unit = CHR ''D'' then 4 else 0)
            in if rank = 0 \<or> rank \<le> order then None
               else if unit = CHR ''Y'' then
                 (case try_i64 (n * 12) \<bind> (\<lambda>x. try_i64 (months + x)) of None \<Rightarrow> None
                  | Some months' \<Rightarrow> date_loop nxt rank months' days True)
               else if unit = CHR ''M'' then
                 (case try_i64 (months + n) of None \<Rightarrow> None | Some months' \<Rightarrow> date_loop nxt rank months' days True)
               else if unit = CHR ''W'' then
                 (case try_i64 (n * 7) \<bind> (\<lambda>x. try_i64 (days + x)) of None \<Rightarrow> None
                  | Some days' \<Rightarrow> date_loop nxt rank months days' True)
               else (case try_i64 (days + n) of None \<Rightarrow> None | Some days' \<Rightarrow> date_loop nxt rank months days' True))"
  by pat_completeness auto
termination
  by (relation "measure (\<lambda>(cursor, _). length cursor)") (auto dest: duration_component_shrinks)

declare date_loop.simps [simp del]

function time_loop :: "string \<Rightarrow> nat \<Rightarrow> int \<Rightarrow> bool \<Rightarrow> (int \<times> bool) option" where
  "time_loop cursor order nanos any =
     (if cursor = [] then Some (nanos, any)
      else case duration_component cursor of
        None \<Rightarrow> None
      | Some (n, unit, frac, nxt) \<Rightarrow>
          let rank = (if unit = CHR ''H'' then 1 else if unit = CHR ''M'' then 2 else if unit = CHR ''S'' then 3 else 0)
          in if rank = 0 \<or> rank \<le> order \<or> (frac \<noteq> None \<and> unit \<noteq> CHR ''S'') then None
             else
               let scale = (if unit = CHR ''H'' then NANOS_PER_HOUR else if unit = CHR ''M'' then NANOS_PER_MINUTE
                            else NANOS_PER_SECOND);
                   part = n * scale + (case frac of None \<Rightarrow> 0
                     | Some f \<Rightarrow> if n < 0 \<or> hd cursor = CHR ''-'' then - f else f)
               in time_loop nxt rank (nanos + part) True)"
  by pat_completeness auto
termination
  by (relation "measure (\<lambda>(cursor, _). length cursor)") (auto dest: duration_component_shrinks)

declare time_loop.simps [simp del]

definition iso8601_to_duration :: "string \<Rightarrow> (int \<times> int \<times> int) option" where
  "iso8601_to_duration s = do {
     let negate_all = (strip_prefix CHR ''-'' s \<noteq> None);
     body \<leftarrow> strip_prefix CHR ''P'' (if negate_all then tl s else s);
     let date_part = takeWhile (\<lambda>c. c \<noteq> CHR ''T'') body;
     (months, days, any) \<leftarrow> date_loop date_part 0 0 0 False;
     (nanos, any) \<leftarrow> (case drop (length date_part) body of
          [] \<Rightarrow> Some (0, any)
        | _ # time_part \<Rightarrow> if time_part = [] then None else time_loop time_part 0 0 any);
     if \<not> any then None
     else do {
       months \<leftarrow> (if negate_all then try_i64 (- months) else Some months);
       days \<leftarrow> (if negate_all then try_i64 (- days) else Some days);
       let nanos = (if negate_all then - nanos else nanos);
       months \<leftarrow> try_i32 months;
       days \<leftarrow> try_i32 days;
       nanos \<leftarrow> try_i64 nanos;
       Some (months, days, nanos) } }"

section \<open>Components\<close>

lemma takeWhile_show:
  assumes "rest = [] \<or> \<not> is_ascii_digit (hd rest)"
  shows "takeWhile is_ascii_digit (show_nat n @ rest) = show_nat n"
proof -
  have "takeWhile is_ascii_digit (show_nat n @ rest) = show_nat n @ takeWhile is_ascii_digit rest"
    using show_nat_props [of n] by (intro takeWhile_append2) (simp add: list_all_iff)
  then show ?thesis using assms by (cases rest) auto
qed

lemma hd_show_digit: "is_ascii_digit (hd (show_nat n @ rest))"
  using show_nat_props [of n] by (cases "show_nat n") simp_all

definition sign_of :: "bool \<Rightarrow> string" where "sign_of neg = (if neg then ''-'' else [])"

lemma strip_minus:
  "strip_prefix CHR ''-'' (sign_of neg @ show_nat k @ rest) \<noteq> None \<longleftrightarrow> neg"
  "(if neg then tl (sign_of neg @ show_nat k @ rest) else sign_of neg @ show_nat k @ rest) = show_nat k @ rest"
proof -
  have "hd (show_nat k @ rest) \<noteq> CHR ''-''" using hd_show_digit [of k rest] not_digit(1) by metis
  then show "strip_prefix CHR ''-'' (sign_of neg @ show_nat k @ rest) \<noteq> None \<longleftrightarrow> neg"
    by (cases "show_nat k @ rest") (auto simp: strip_prefix_def sign_of_def)
qed (simp add: sign_of_def)

definition unit_char :: "char \<Rightarrow> bool" where
  "unit_char u \<longleftrightarrow> \<not> is_ascii_digit u \<and> u \<noteq> CHR ''.'' \<and> u \<noteq> CHR '','' \<and> u \<noteq> CHR ''-''"

lemma component_plain:
  assumes "k < 2 ^ 63" and "unit_char u"
  shows "duration_component (sign_of neg @ show_nat k @ u # rest) = Some (if neg then - int k else int k, u, None, rest)"
proof -
  have tw: "takeWhile is_ascii_digit (show_nat k @ u # rest) = show_nat k"
    by (rule takeWhile_show) (use assms(2) in \<open>simp add: unit_char_def\<close>)
  have sp: "strip_point (u # rest) = None" using assms(2) by (simp add: strip_point_def unit_char_def)
  have t: "try_i64 (int k) = Some (int k)" using assms(1) by (simp add: try_i64_def)
  show ?thesis
    unfolding duration_component_def Let_def strip_minus tw
    using show_nat_props [of k] by (simp add: t sp)
qed

lemma component_frac:
  assumes "k < 2 ^ 63" and "list_all is_ascii_digit fs" and "fs \<noteq> []" and "length fs \<le> 9"
  shows "duration_component (sign_of neg @ show_nat k @ ''.'' @ fs @ ''S'' @ rest)
    = Some (if neg then - int k else int k, CHR ''S'', Some (int (digits_val fs * 10 ^ (9 - length fs))), rest)"
proof -
  have tw: "takeWhile is_ascii_digit (show_nat k @ ''.'' @ fs @ ''S'' @ rest) = show_nat k"
    by (rule takeWhile_show) simp
  have tf: "takeWhile is_ascii_digit (fs @ ''S'' @ rest) = fs"
    using assms(2) by (subst takeWhile_append2) (auto simp: list_all_iff is_ascii_digit_def)
  have t: "try_i64 (int k) = Some (int k)" using assms(1) by (simp add: try_i64_def)
  show ?thesis
    unfolding duration_component_def Let_def strip_minus tw
    using show_nat_props [of k] tf assms(3,4) by (simp add: t strip_point_def)
qed

text \<open>The trimmed fraction keeps its value.\<close>

lemma digits_val_append: "digits_val (xs @ ys) = digits_val xs * 10 ^ length ys + digits_val ys"
proof (induction ys rule: rev_induct)
  case (snoc y ys)
  then show ?case using digits_val_snoc [of "xs @ ys" y] by (simp add: digits_val_snoc)
qed (simp add: digits_val_def)

lemma trim_zeros_split: "\<exists>k. s = trim_zeros s @ replicate k CHR ''0''"
proof -
  have "rev s = takeWhile (\<lambda>c. c = CHR ''0'') (rev s) @ dropWhile (\<lambda>c. c = CHR ''0'') (rev s)" by simp
  then have "s = trim_zeros s @ rev (takeWhile (\<lambda>c. c = CHR ''0'') (rev s))"
    unfolding trim_zeros_def by (metis rev_append rev_rev_ident)
  moreover have "rev (takeWhile (\<lambda>c. c = CHR ''0'') (rev s)) = replicate (length (takeWhile (\<lambda>c. c = CHR ''0'') (rev s))) CHR ''0''"
    by (rule replicate_eqI) (auto dest: set_takeWhileD)
  ultimately show ?thesis by metis
qed

lemma trim_zeros_frac:
  assumes "0 < f" and "f < 10 ^ 9"
  shows "list_all is_ascii_digit (trim_zeros (pad 9 f))" and "trim_zeros (pad 9 f) \<noteq> []"
    and "length (trim_zeros (pad 9 f)) \<le> 9"
    and "digits_val (trim_zeros (pad 9 f)) * 10 ^ (9 - length (trim_zeros (pad 9 f))) = f"
proof -
  obtain k where k: "pad 9 f = trim_zeros (pad 9 f) @ replicate k CHR ''0''" using trim_zeros_split by blast
  let ?t = "trim_zeros (pad 9 f)"
  have l: "length (pad 9 f) = 9" using assms(2) by (intro length_pad) simp_all
  then have len: "length ?t + k = 9" using k by (metis length_append length_replicate)
  have z: "digits_val (replicate j CHR ''0'') = 0" for j using digits_val_zeros [of j "[]"] by (simp add: digits_val_def)
  have "f = digits_val (?t @ replicate k CHR ''0'')" using pad_val [of 9 f] k by simp
  then have f: "f = digits_val ?t * 10 ^ k" by (simp add: digits_val_append z)
  have k9: "k = 9 - length ?t" using len by simp
  show "digits_val ?t * 10 ^ (9 - length ?t) = f" using f unfolding k9 by simp
  show "length ?t \<le> 9" using len by simp
  show "?t \<noteq> []" using f assms(1) by (auto simp: digits_val_def)
  have "list_all is_ascii_digit (?t @ replicate k CHR ''0'')" using pad_digits [of 9 f] k by simp
  then show "list_all is_ascii_digit ?t" by simp
qed

section \<open>The loops over printed components\<close>

text \<open>A component as it is printed, left out when it is zero, and its signed value.\<close>

definition comp_text :: "bool \<Rightarrow> nat \<Rightarrow> char \<Rightarrow> string" where
  "comp_text neg k u = (if k = 0 then [] else sign_of neg @ show_nat k @ [u])"

definition with_sign :: "bool \<Rightarrow> nat \<Rightarrow> int" where
  "with_sign neg k = (if neg then - int k else int k)"

lemma signed_0 [simp]: "with_sign neg 0 = 0" by (simp add: with_sign_def)

lemma comp_text_Cons: "k \<noteq> 0 \<Longrightarrow> comp_text neg k u @ rest = sign_of neg @ show_nat k @ u # rest"
  by (simp add: comp_text_def)

lemma sign_show_nonempty: "sign_of neg @ show_nat k @ rest \<noteq> []"
  using show_nat_props [of k] by simp

lemmas component_signed = component_plain [folded with_sign_def]

lemma date_loop_comp:
  assumes "k < 2 ^ 40" and "\<bar>mo\<bar> < 2 ^ 50" and "\<bar>da\<bar> < 2 ^ 50"
  shows "order < 1 \<Longrightarrow> date_loop (comp_text neg k CHR ''Y'' @ rest) order mo da any
      = date_loop rest (if k = 0 then order else 1) (mo + with_sign neg k * 12) da (any \<or> k \<noteq> 0)"
    and "order < 2 \<Longrightarrow> date_loop (comp_text neg k CHR ''M'' @ rest) order mo da any
      = date_loop rest (if k = 0 then order else 2) (mo + with_sign neg k) da (any \<or> k \<noteq> 0)"
    and "order < 4 \<Longrightarrow> date_loop (comp_text neg k CHR ''D'' @ rest) order mo da any
      = date_loop rest (if k = 0 then order else 4) mo (da + with_sign neg k) (any \<or> k \<noteq> 0)"
proof -
  have k: "k < 2 ^ 63" using assms(1) by simp
  have sk: "\<bar>with_sign neg k\<bar> < 2 ^ 40" using assms(1) by (simp add: with_sign_def)
  have u: "unit_char CHR ''Y''" "unit_char CHR ''M''" "unit_char CHR ''D''" by (simp_all add: unit_char_def is_ascii_digit_def)
  have t: "try_i64 (with_sign neg k * 12) = Some (with_sign neg k * 12)" "try_i64 (mo + with_sign neg k * 12) = Some (mo + with_sign neg k * 12)"
    "try_i64 (mo + with_sign neg k) = Some (mo + with_sign neg k)" "try_i64 (da + with_sign neg k) = Some (da + with_sign neg k)"
    using sk assms(2,3) by (simp_all add: try_i64_def abs_less_iff)
  note simps = comp_text_Cons component_signed [OF k] sign_show_nonempty t
  show "date_loop (comp_text neg k CHR ''Y'' @ rest) order mo da any
      = date_loop rest (if k = 0 then order else 1) (mo + with_sign neg k * 12) da (any \<or> k \<noteq> 0)" if "order < 1"
    using that by (cases "k = 0") (simp_all add: comp_text_def, subst date_loop.simps, simp add: simps u)
  show "date_loop (comp_text neg k CHR ''M'' @ rest) order mo da any
      = date_loop rest (if k = 0 then order else 2) (mo + with_sign neg k) da (any \<or> k \<noteq> 0)" if "order < 2"
    using that by (cases "k = 0") (simp_all add: comp_text_def, subst date_loop.simps, simp add: simps u)
  show "date_loop (comp_text neg k CHR ''D'' @ rest) order mo da any
      = date_loop rest (if k = 0 then order else 4) mo (da + with_sign neg k) (any \<or> k \<noteq> 0)" if "order < 4"
    using that by (cases "k = 0") (simp_all add: comp_text_def, subst date_loop.simps, simp add: simps u)
qed

lemma time_loop_comp:
  assumes "k < 2 ^ 63"
  shows "order < 1 \<Longrightarrow> time_loop (comp_text neg k CHR ''H'' @ rest) order n any
      = time_loop rest (if k = 0 then order else 1) (n + with_sign neg k * NANOS_PER_HOUR) (any \<or> k \<noteq> 0)"
    and "order < 2 \<Longrightarrow> time_loop (comp_text neg k CHR ''M'' @ rest) order n any
      = time_loop rest (if k = 0 then order else 2) (n + with_sign neg k * NANOS_PER_MINUTE) (any \<or> k \<noteq> 0)"
proof -
  have u: "unit_char CHR ''H''" "unit_char CHR ''M''" by (simp_all add: unit_char_def is_ascii_digit_def)
  note simps = comp_text_Cons component_signed [OF assms] sign_show_nonempty
  show "time_loop (comp_text neg k CHR ''H'' @ rest) order n any
      = time_loop rest (if k = 0 then order else 1) (n + with_sign neg k * NANOS_PER_HOUR) (any \<or> k \<noteq> 0)" if "order < 1"
    using that by (cases "k = 0") (simp_all add: comp_text_def, subst time_loop.simps, simp add: simps u)
  show "time_loop (comp_text neg k CHR ''M'' @ rest) order n any
      = time_loop rest (if k = 0 then order else 2) (n + with_sign neg k * NANOS_PER_MINUTE) (any \<or> k \<noteq> 0)" if "order < 2"
    using that by (cases "k = 0") (simp_all add: comp_text_def, subst time_loop.simps, simp add: simps u)
qed

definition seconds_text :: "bool \<Rightarrow> nat \<Rightarrow> nat \<Rightarrow> string" where
  "seconds_text neg s f = (if s \<noteq> 0 \<or> f \<noteq> 0
     then sign_of neg @ show_nat s @ (if f \<noteq> 0 then ''.'' @ trim_zeros (pad 9 f) else []) @ ''S'' else [])"

lemma time_loop_Nil: "time_loop [] order n any = Some (n, any)" by (simp add: time_loop.simps)
lemma date_loop_Nil: "date_loop [] order mo da any = Some (mo, da, any)" by (simp add: date_loop.simps)

lemma time_loop_seconds:
  assumes "s < 2 ^ 63" and "f < 10 ^ 9" and "order < 3"
  shows "time_loop (seconds_text neg s f) order n any
    = Some (n + with_sign neg s * NANOS_PER_SECOND + with_sign neg f, any \<or> s \<noteq> 0 \<or> f \<noteq> 0)"
proof (cases "f = 0")
  case True
  have u: "unit_char CHR ''S''" by (simp add: unit_char_def is_ascii_digit_def)
  show ?thesis
  proof (cases "s = 0")
    case False
    then show ?thesis using True component_signed [OF assms(1) u, of neg "[]"] sign_show_nonempty [of neg s "''S''"] assms(3)
      by (subst time_loop.simps) (simp add: seconds_text_def time_loop_Nil)
  qed (simp add: True seconds_text_def time_loop_Nil)
next
  case False
  let ?fs = "trim_zeros (pad 9 f)"
  have f: "0 < f" using False by simp
  note fr = trim_zeros_frac [OF f assms(2)]
  have c: "duration_component (sign_of neg @ show_nat s @ ''.'' @ ?fs @ ''S'') = Some (with_sign neg s, CHR ''S'', Some (int f), [])"
    using component_frac [OF assms(1) fr(1-3), of neg "[]"] by (simp add: with_sign_def fr(4))
  have h: "(with_sign neg s < 0 \<or> hd (sign_of neg @ show_nat s @ ''.'' @ ?fs @ ''S'') = CHR ''-'') = neg"
  proof (cases neg)
    case False
    have "hd (show_nat s @ ''.'' @ ?fs @ ''S'') \<noteq> CHR ''-''" using hd_show_digit not_digit(1) by metis
    then show ?thesis using False by (simp add: sign_of_def with_sign_def)
  qed (simp add: sign_of_def)
  have "time_loop (seconds_text neg s f) order n any
      = time_loop [] 3 (n + (with_sign neg s * NANOS_PER_SECOND + (if neg then - int f else int f))) True"
    using False c h sign_show_nonempty [of neg s "''.'' @ ?fs @ ''S''"] assms(3)
    by (subst time_loop.simps) (simp add: seconds_text_def)
  then show ?thesis using False by (simp add: time_loop_Nil with_sign_def algebra_simps)
qed

section \<open>The round trip\<close>

text \<open>The printed text, component by component.\<close>

definition date_text :: "int \<Rightarrow> int \<Rightarrow> string" where
  "date_text months days = comp_text (months < 0) (nat \<bar>months\<bar> div 12) CHR ''Y''
     @ comp_text (months < 0) (nat \<bar>months\<bar> mod 12) CHR ''M'' @ comp_text (days < 0) (nat \<bar>days\<bar>) CHR ''D''"

definition time_text :: "int \<Rightarrow> string" where
  "time_text nanos = comp_text (nanos < 0) (nat \<bar>nanos\<bar> div nat NANOS_PER_HOUR) CHR ''H''
     @ comp_text (nanos < 0) (nat \<bar>nanos\<bar> mod nat NANOS_PER_HOUR div nat NANOS_PER_MINUTE) CHR ''M''
     @ seconds_text (nanos < 0) (nat \<bar>nanos\<bar> mod nat NANOS_PER_MINUTE div nat NANOS_PER_SECOND)
         (nat \<bar>nanos\<bar> mod nat NANOS_PER_SECOND)"

lemma duration_text:
  "duration_to_iso8601 months days nanos =
     (let out = ''P'' @ date_text months days @ (if nanos \<noteq> 0 then ''T'' @ time_text nanos else [])
      in if out = ''P'' then out @ ''T0S'' else out)"
proof -
  have c: "(if k \<noteq> 0 then sign_of neg @ show_nat k @ [u] else []) = comp_text neg k u" for neg k u
    by (simp add: comp_text_def sign_of_def)
  have d: "(if days \<noteq> 0 then sign_of (days < 0) @ show_nat (nat \<bar>days\<bar>) @ ''D'' else [])
      = comp_text (days < 0) (nat \<bar>days\<bar>) CHR ''D''"
    by (simp add: comp_text_def sign_of_def)
  show ?thesis
    unfolding duration_to_iso8601_def Let_def date_text_def time_text_def seconds_text_def
    by (simp only: sign_of_def [symmetric] c d append_assoc)
qed

lemma show_nat_not_T: "CHR ''T'' \<notin> set (show_nat n)"
  using show_nat_props [of n] by (auto simp: list_all_iff is_ascii_digit_def)

lemma comp_text_no_T: "u \<noteq> CHR ''T'' \<Longrightarrow> CHR ''T'' \<notin> set (comp_text neg k u)"
  using show_nat_not_T by (simp add: comp_text_def sign_of_def)

lemma date_text_no_T: "CHR ''T'' \<notin> set (date_text months days)"
  unfolding date_text_def using comp_text_no_T by simp

lemma comp_text_empty: "comp_text neg k u = [] \<longleftrightarrow> k = 0"
  by (simp add: comp_text_def)

lemma signed_bound: "k < b \<Longrightarrow> \<bar>with_sign neg k\<bar> < int b" by (simp add: with_sign_def)

lemma signed_add: "with_sign neg a * int b + with_sign neg c = with_sign neg (a * b + c)" by (simp add: with_sign_def)

lemma signed_nat_abs: "with_sign (n < 0) (nat \<bar>n\<bar>) = n" by (simp add: with_sign_def)

lemma signed_split:
  "with_sign (n < 0) (nat \<bar>n\<bar> div b) * int b + with_sign (n < 0) (nat \<bar>n\<bar> mod b) = n"
  by (simp only: signed_add div_mult_mod_eq signed_nat_abs)

lemma date_loop_components:
  assumes "y < 2 ^ 40" and "m < 2 ^ 40" and "d < 2 ^ 40"
  shows "date_loop (comp_text neg y CHR ''Y'' @ comp_text neg m CHR ''M'' @ comp_text neg' d CHR ''D'') 0 0 0 False
    = Some (with_sign neg y * 12 + with_sign neg m, with_sign neg' d, y \<noteq> 0 \<or> m \<noteq> 0 \<or> d \<noteq> 0)"
proof -
  have y: "\<bar>with_sign neg y * 12\<bar> < 2 ^ 45" using signed_bound [OF assms(1), of neg] by (simp add: abs_mult)
  have m: "\<bar>with_sign neg m\<bar> < 2 ^ 45" using signed_bound [OF assms(2), of neg] by simp
  have ym: "\<bar>with_sign neg y * 12 + with_sign neg m\<bar> < 2 ^ 50" using y m by (simp add: abs_less_iff)
  have y': "\<bar>with_sign neg y * 12\<bar> < 2 ^ 50" using y by simp
  let ?d = "comp_text neg' d CHR ''D''" and ?m = "comp_text neg m CHR ''M''"
  have "date_loop (comp_text neg y CHR ''Y'' @ ?m @ ?d) 0 0 0 False
      = date_loop (?m @ ?d) (if y = 0 then 0 else 1) (with_sign neg y * 12) 0 (y \<noteq> 0)"
    using date_loop_comp(1) [OF assms(1), of 0 0 0] by simp
  also have "\<dots> = date_loop (?d @ []) (if m = 0 then if y = 0 then 0 else 1 else 2)
      (with_sign neg y * 12 + with_sign neg m) 0 (y \<noteq> 0 \<or> m \<noteq> 0)"
    by (subst date_loop_comp(2) [OF assms(2) y']) simp_all
  also have "\<dots> = date_loop [] (if d = 0 then if m = 0 then if y = 0 then 0 else 1 else 2 else 4)
      (with_sign neg y * 12 + with_sign neg m) (with_sign neg' d) ((y \<noteq> 0 \<or> m \<noteq> 0) \<or> d \<noteq> 0)"
    by (subst date_loop_comp(3) [OF assms(3) ym]) simp_all
  finally show ?thesis by (simp add: date_loop_Nil)
qed

lemma date_loop_text:
  assumes "\<bar>months\<bar> \<le> 2 ^ 31" and "\<bar>days\<bar> \<le> 2 ^ 31"
  shows "date_loop (date_text months days) 0 0 0 False = Some (months, days, date_text months days \<noteq> [])"
proof -
  have b: "nat \<bar>months\<bar> div 12 < 2 ^ 40" "nat \<bar>months\<bar> mod 12 < 2 ^ 40" "nat \<bar>days\<bar> < 2 ^ 40" using assms by auto
  have ne: "date_text months days \<noteq> [] \<longleftrightarrow> nat \<bar>months\<bar> div 12 \<noteq> 0 \<or> nat \<bar>months\<bar> mod 12 \<noteq> 0 \<or> nat \<bar>days\<bar> \<noteq> 0"
    unfolding date_text_def by (simp only: append_is_Nil_conv comp_text_empty de_Morgan_conj)
  show ?thesis
    unfolding ne unfolding date_text_def date_loop_components [OF b]
    using signed_split [of months 12] signed_nat_abs [of days] by simp
qed

lemma time_split:
  assumes "0 < n"
  shows "with_sign neg (n div nat NANOS_PER_HOUR) * NANOS_PER_HOUR
    + with_sign neg (n mod nat NANOS_PER_HOUR div nat NANOS_PER_MINUTE) * NANOS_PER_MINUTE
    + with_sign neg (n mod nat NANOS_PER_MINUTE div nat NANOS_PER_SECOND) * NANOS_PER_SECOND
    + with_sign neg (n mod nat NANOS_PER_SECOND) = with_sign neg n"
proof -
  let ?H = "3600000000000::nat" and ?M = "60000000000::nat" and ?S = "1000000000::nat"
  have h: "n div ?H * ?H + n mod ?H = n" by (rule div_mult_mod_eq)
  have m: "n mod ?H div ?M * ?M + n mod ?M = n mod ?H"
    using div_mult_mod_eq [of "n mod ?H" ?M] mod_mod_cancel [of ?M ?H n] by simp
  have s: "n mod ?M div ?S * ?S + n mod ?S = n mod ?M"
    using div_mult_mod_eq [of "n mod ?M" ?S] mod_mod_cancel [of ?S ?M n] by simp
  have "with_sign neg (n mod ?M div ?S) * int ?S + with_sign neg (n mod ?S) = with_sign neg (n mod ?M)"
    by (simp only: signed_add s)
  moreover have "with_sign neg (n mod ?H div ?M) * int ?M + with_sign neg (n mod ?M) = with_sign neg (n mod ?H)"
    by (simp only: signed_add m)
  moreover have "with_sign neg (n div ?H) * int ?H + with_sign neg (n mod ?H) = with_sign neg n"
    by (simp only: signed_add h)
  ultimately show ?thesis
    unfolding NANOS_PER_HOUR_def NANOS_PER_MINUTE_def NANOS_PER_SECOND_def by simp
qed

lemma time_nonzero:
  assumes "0 < n"
  shows "n div nat NANOS_PER_HOUR \<noteq> 0 \<or> n mod nat NANOS_PER_HOUR div nat NANOS_PER_MINUTE \<noteq> 0
    \<or> n mod nat NANOS_PER_MINUTE div nat NANOS_PER_SECOND \<noteq> 0 \<or> n mod nat NANOS_PER_SECOND \<noteq> 0"
proof (rule ccontr)
  assume "\<not> ?thesis"
  then have z: "n div nat NANOS_PER_HOUR = 0" "n mod nat NANOS_PER_HOUR div nat NANOS_PER_MINUTE = 0"
    "n mod nat NANOS_PER_MINUTE div nat NANOS_PER_SECOND = 0" "n mod nat NANOS_PER_SECOND = 0" by blast+
  show False using time_split [OF assms, of False] assms unfolding z by (simp add: with_sign_def)
qed

lemma time_text_nonempty:
  assumes "n \<noteq> 0" shows "time_text n \<noteq> []"
proof -
  have pos: "0 < nat \<bar>n\<bar>" using assms by simp
  have sec: "seconds_text neg s f = [] \<longleftrightarrow> s = 0 \<and> f = 0" for neg s f by (simp add: seconds_text_def)
  show ?thesis
    unfolding time_text_def append_is_Nil_conv comp_text_empty sec de_Morgan_conj by (rule time_nonzero [OF pos])
qed

lemma time_loop_components:
  assumes "h < 2 ^ 63" and "m < 2 ^ 63" and "s < 2 ^ 63" and "f < 10 ^ 9"
  shows "time_loop (comp_text neg h CHR ''H'' @ comp_text neg m CHR ''M'' @ seconds_text neg s f) 0 0 any
    = Some (with_sign neg h * NANOS_PER_HOUR + with_sign neg m * NANOS_PER_MINUTE + with_sign neg s * NANOS_PER_SECOND
        + with_sign neg f, any \<or> h \<noteq> 0 \<or> m \<noteq> 0 \<or> s \<noteq> 0 \<or> f \<noteq> 0)"
proof -
  let ?s = "seconds_text neg s f" and ?m = "comp_text neg m CHR ''M''"
  have "time_loop (comp_text neg h CHR ''H'' @ ?m @ ?s) 0 0 any
      = time_loop (?m @ ?s) (if h = 0 then 0 else 1) (with_sign neg h * NANOS_PER_HOUR) (any \<or> h \<noteq> 0)"
    using time_loop_comp(1) [OF assms(1), of 0] by simp
  also have "\<dots> = time_loop ?s (if m = 0 then if h = 0 then 0 else 1 else 2)
      (with_sign neg h * NANOS_PER_HOUR + with_sign neg m * NANOS_PER_MINUTE) ((any \<or> h \<noteq> 0) \<or> m \<noteq> 0)"
    by (subst time_loop_comp(2) [OF assms(2)]) simp_all
  also have "\<dots> = Some (with_sign neg h * NANOS_PER_HOUR + with_sign neg m * NANOS_PER_MINUTE + with_sign neg s * NANOS_PER_SECOND
        + with_sign neg f, ((any \<or> h \<noteq> 0) \<or> m \<noteq> 0) \<or> s \<noteq> 0 \<or> f \<noteq> 0)"
    by (rule time_loop_seconds [OF assms(3,4)]) simp
  finally show ?thesis by (simp only: disj_assoc)
qed

lemma div_bound: "a \<le> b \<Longrightarrow> 1 < c \<Longrightarrow> 0 < b \<Longrightarrow> a div c < (b :: nat)"
  by (metis div_le_dividend div_less_dividend le_less_trans less_le_trans not_gr_zero order_le_less)

lemma mod_div_bound: "0 < b \<Longrightarrow> b < c \<Longrightarrow> (a mod b) div d < (c :: nat)"
  by (meson div_le_dividend le_less_trans less_trans mod_less_divisor)

lemma time_loop_text:
  assumes "n \<noteq> 0" and "\<bar>n\<bar> \<le> 2 ^ 63"
  shows "time_loop (time_text n) 0 0 any = Some (n, True)"
proof -
  let ?h = "nat \<bar>n\<bar> div nat NANOS_PER_HOUR" and ?m = "nat \<bar>n\<bar> mod nat NANOS_PER_HOUR div nat NANOS_PER_MINUTE"
    and ?s = "nat \<bar>n\<bar> mod nat NANOS_PER_MINUTE div nat NANOS_PER_SECOND" and ?f = "nat \<bar>n\<bar> mod nat NANOS_PER_SECOND"
  have b: "nat \<bar>n\<bar> \<le> 2 ^ 63" using assms(2) by simp
  have units: "1 < nat NANOS_PER_HOUR" "nat NANOS_PER_HOUR < 2 ^ 63" "0 < nat NANOS_PER_MINUTE" "nat NANOS_PER_MINUTE < 2 ^ 63"
    "nat NANOS_PER_SECOND = 10 ^ 9"
    by (simp_all add: NANOS_PER_HOUR_def NANOS_PER_MINUTE_def NANOS_PER_SECOND_def)
  have p: "0 < nat NANOS_PER_HOUR" using units(1) by simp
  have "?h < 2 ^ 63" by (rule div_bound [OF b units(1)]) simp
  note bounds = this mod_div_bound [OF p units(2)] mod_div_bound [OF units(3,4)]
  have "?f < 10 ^ 9" unfolding units(5) by (rule mod_less_divisor) simp
  note bounds = bounds this
  have pos: "0 < nat \<bar>n\<bar>" using assms(1) by simp
  have any: "(any \<or> ?h \<noteq> 0 \<or> ?m \<noteq> 0 \<or> ?s \<noteq> 0 \<or> ?f \<noteq> 0) = True"
    using time_nonzero [OF pos] by blast
  show ?thesis
    unfolding time_text_def time_loop_components [OF bounds] any time_split [OF pos] signed_nat_abs ..
qed

lemma takeWhile_date_text:
  "takeWhile (\<lambda>c. c \<noteq> CHR ''T'') (date_text m d) = date_text m d"
  "takeWhile (\<lambda>c. c \<noteq> CHR ''T'') (date_text m d @ CHR ''T'' # t) = date_text m d"
  using date_text_no_T [of m d] by (simp_all add: takeWhile_append takeWhile_eq_all_conv del: takeWhile_eq_all_conv) auto

lemma strip_P: "strip_prefix CHR ''-'' (''P'' @ s) = None" "strip_prefix CHR ''P'' (''P'' @ s) = Some s"
  by (simp_all add: strip_prefix_def)

lemma show_zero: "show_nat 0 = ''0''" by code_simp

lemma duration_zero: "iso8601_to_duration ''PT0S'' = Some (0, 0, 0)"
proof -
  have "duration_component ''0S'' = Some (0, CHR ''S'', None, [])"
    using component_plain [of 0 "CHR ''S''" False "[]"]
    by (simp add: sign_of_def unit_char_def is_ascii_digit_def show_zero)
  then have t: "time_loop ''0S'' 0 0 False = Some (0, True)"
    by (subst time_loop.simps) (simp add: time_loop_Nil)
  show ?thesis
    using strip_P [of "''T0S''"] t
    by (simp add: iso8601_to_duration_def date_loop_Nil try_i32_def try_i64_def)
qed

lemma duration_nonzero:
  assumes "\<bar>months\<bar> \<le> 2 ^ 31" "\<bar>days\<bar> \<le> 2 ^ 31" "\<bar>nanos\<bar> \<le> 2 ^ 63"
    and "try_i32 months = Some months" "try_i32 days = Some days" "try_i64 nanos = Some nanos"
    and "date_text months days \<noteq> [] \<or> nanos \<noteq> 0"
  shows "iso8601_to_duration (''P'' @ date_text months days @ (if nanos \<noteq> 0 then ''T'' @ time_text nanos else []))
    = Some (months, days, nanos)"
proof (cases "nanos = 0")
  case True
  then show ?thesis using assms(4-7)
    unfolding iso8601_to_duration_def strip_P
    by (simp add: strip_P date_loop_text [OF assms(1,2)] takeWhile_date_text Let_def)
next
  case False
  then show ?thesis using assms(4-6) time_text_nonempty [OF False]
    unfolding iso8601_to_duration_def strip_P
    by (simp add: strip_P date_loop_text [OF assms(1,2)] time_loop_text [OF False assms(3)] takeWhile_date_text Let_def)
qed

lemma duration_parses:
  assumes "- (2 ^ 31) \<le> months" and "months < 2 ^ 31" and "- (2 ^ 31) \<le> days" and "days < 2 ^ 31"
    and "- (2 ^ 63) \<le> nanos" and "nanos < 2 ^ 63"
  shows "iso8601_to_duration (duration_to_iso8601 months days nanos) = Some (months, days, nanos)"
proof (cases "date_text months days = [] \<and> nanos = 0")
  case True
  have "\<bar>months\<bar> \<le> 2 ^ 31" "\<bar>days\<bar> \<le> 2 ^ 31" using assms by (simp_all add: abs_le_iff)
  then have "months = 0 \<and> days = 0" using date_loop_text [of months days] True by (simp add: date_loop_Nil)
  then show ?thesis using True by (simp add: duration_text duration_zero)
next
  case False
  have "iso8601_to_duration (''P'' @ date_text months days @ (if nanos \<noteq> 0 then ''T'' @ time_text nanos else []))
      = Some (months, days, nanos)"
    by (rule duration_nonzero) (use assms False in \<open>auto simp: try_i32_def try_i64_def abs_le_iff\<close>)
  then show ?thesis using False by (auto simp: duration_text Let_def)
qed

text \<open>
  a duration printed as ISO 8601 reads back as itself: for every number of months and of days
  that fits an \<open>i32\<close> and of nanoseconds that fits an \<open>i64\<close>, with any mix of signs, zero included.
\<close>

theorem duration_roundtrip:
  assumes "- (2 ^ 31) \<le> months" and "months < 2 ^ 31" and "- (2 ^ 31) \<le> days" and "days < 2 ^ 31"
    and "- (2 ^ 63) \<le> nanos" and "nanos < 2 ^ 63"
  shows "iso8601_to_duration (duration_to_iso8601 months days nanos) = Some (months, days, nanos)"
  using assms by (rule duration_parses)

theorem duration_roundtrip_witness:
  "iso8601_to_duration (duration_to_iso8601 (- 13) 5 (- 1)) = Some (- 13, 5, - 1)"
  using duration_roundtrip [of "- 13" 5 "- 1"] by simp

end
