(* ===== verification/Base64.thy ===== *)
theory Base64
  imports Value_Types
begin

unbundle bit_operations_syntax

text \<open>
  Base64 text of byte blobs (\<open>base64_encode\<close> and \<open>base64_decode\<close> in \<open>crates/core-storage/src/types.rs\<close>).
  The two are inverse in both directions: the decoder accepts exactly what the encoder writes.
\<close>

definition BASE64_ALPHABET :: string where
  "BASE64_ALPHABET = ''ABCDEFGHIJKLMNOPQRSTUVWXYZabcdefghijklmnopqrstuvwxyz0123456789+/''"

text \<open>The 24-bit group of up to three bytes, missing ones zero.\<close>

definition chunk_group :: "u8 list \<Rightarrow> u32" where
  "chunk_group chunk =
     (let b = (\<lambda>i. case nth_opt chunk i of Some (x :: u8) \<Rightarrow> (ucast x :: u32) | None \<Rightarrow> 0)
      in push_bit 16 (b 0) OR push_bit 8 (b 1) OR b 2)"

definition sextet_at :: "u32 \<Rightarrow> nat \<Rightarrow> u32" where
  "sextet_at n i = drop_bit (18 - 6 * i) n AND 0x3f"

definition encode_chunk :: "u8 list \<Rightarrow> string" where
  "encode_chunk chunk =
     map (\<lambda>i. if i \<le> length chunk then BASE64_ALPHABET ! unat (sextet_at (chunk_group chunk) i) else CHR ''='') [0..<4]"

definition base64_encode :: "u8 list \<Rightarrow> string" where
  "base64_encode bs = concat (map encode_chunk (chunks_of 3 bs))"

definition sextet :: "char \<Rightarrow> u32 option" where
  "sextet c =
     (let n = of_char c :: nat in
      if 65 \<le> n \<and> n \<le> 90 then Some (of_nat (n - 65))
      else if 97 \<le> n \<and> n \<le> 122 then Some (of_nat (n - 97) + 26)
      else if 48 \<le> n \<and> n \<le> 57 then Some (of_nat (n - 48) + 52)
      else if c = CHR ''+'' then Some 62
      else if c = CHR ''/'' then Some 63
      else None)"

fun join_sextets :: "u32 \<Rightarrow> string \<Rightarrow> u32 option" where
  "join_sextets n [] = Some n"
| "join_sextets n (c # cs) = do { v \<leftarrow> sextet c; join_sextets (push_bit 6 n OR v) cs }"

definition be_bytes :: "u32 \<Rightarrow> u8 list" where
  "be_bytes n = [ucast (drop_bit 24 n), ucast (drop_bit 16 n), ucast (drop_bit 8 n), ucast n]"

text \<open>One group of four characters; \<open>others\<close> says whether others follow it.\<close>

definition decode_quad :: "string \<Rightarrow> bool \<Rightarrow> u8 list option" where
  "decode_quad quad others =
     (let pad = length (takeWhile (\<lambda>c. c = CHR ''='') (rev quad))
      in if pad > 2 \<or> (pad > 0 \<and> others) then None
         else do {
           n \<leftarrow> join_sextets 0 (take (4 - pad) quad);
           let n' = push_bit (6 * pad) n;
           if n' AND (push_bit (8 * pad) 1 - 1) \<noteq> 0 then None
           else Some (take (3 - pad) (drop 1 (be_bytes n'))) })"

fun decode_quads :: "string list \<Rightarrow> u8 list option" where
  "decode_quads [] = Some []"
| "decode_quads (quad # quads) = do {
     out \<leftarrow> decode_quad quad (quads \<noteq> []);
     rest \<leftarrow> decode_quads quads;
     Some (out @ rest) }"

definition base64_decode :: "string \<Rightarrow> u8 list option" where
  "base64_decode s = (if length s mod 4 \<noteq> 0 then None else decode_quads (chunks_of 4 s))"


section \<open>The alphabet\<close>

lemma alphabet_codes: "map of_char BASE64_ALPHABET = [65..<91] @ [97..<123] @ [48..<58] @ [43, 47 :: nat]"
  by (simp add: BASE64_ALPHABET_def upt_rec_numeral)

lemma alphabet_nth:
  assumes "i < 64"
  shows "of_char (BASE64_ALPHABET ! i)
    = (if i < 26 then 65 + i else if i < 52 then 71 + i else if i < 62 then i - 4 else if i = 62 then 43 else 47 :: nat)"
proof -
  have "length BASE64_ALPHABET = 64" by (simp add: BASE64_ALPHABET_def)
  then have "of_char (BASE64_ALPHABET ! i) = ([65..<91] @ [97..<123] @ [48..<58] @ [43, 47 :: nat]) ! i"
    using assms unfolding alphabet_codes [symmetric] by simp
  also have "\<dots> = (if i < 26 then 65 + i else if i < 52 then 71 + i else if i < 62 then i - 4 else if i = 62 then 43 else 47)"
    using assms by (auto simp: nth_append nth_Cons split: nat.split)
  finally show ?thesis .
qed

lemma char_eq_code: "c = d \<longleftrightarrow> of_char c = (of_char d :: nat)" by simp

lemma unat_less_64: "v < 64 \<Longrightarrow> unat (v :: u32) < 64" by (simp add: word_less_nat_alt)

lemma sextet_of_alphabet:
  assumes "v < 64"
  shows "sextet (BASE64_ALPHABET ! unat v) = Some v" and "BASE64_ALPHABET ! unat v \<noteq> CHR ''=''"
proof -
  note n = alphabet_nth [OF unat_less_64 [OF assms]]
  have v: "of_nat (unat v) = v" "unat v < 64" using unat_less_64 [OF assms] by simp_all
  have sub: "of_nat (unat v - k) + of_nat k = v" if "k \<le> unat v" for k
    using that v(1) by (metis le_add_diff_inverse2 of_nat_add)
  show "BASE64_ALPHABET ! unat v \<noteq> CHR ''=''" using v(2) unfolding char_eq_code n by auto
  consider "unat v < 26" | "26 \<le> unat v" "unat v < 52" | "52 \<le> unat v" "unat v < 62" | "unat v = 62" | "unat v = 63"
    using v(2) by linarith
  then show "sextet (BASE64_ALPHABET ! unat v) = Some v"
  proof cases
    case 1
    then show ?thesis using v by (simp add: sextet_def Let_def n)
  next
    case 2
    have "71 + unat v - 97 = unat v - 26" using 2 by simp
    then show ?thesis using 2 sub [of 26] by (simp add: sextet_def Let_def n)
  next
    case 3
    have "unat v - 4 - 48 = unat v - 52" "48 \<le> unat v - 4" "unat v - 4 \<le> 57" using 3 by linarith+
    then show ?thesis using 3 sub [of 52] by (simp add: sextet_def Let_def n)
  next
    case 4
    then have "v = 62" using v(1) by simp
    then show ?thesis using alphabet_nth [of 62] by (simp add: sextet_def Let_def char_eq_code)
  next
    case 5
    then have "v = 63" using v(1) by simp
    then show ?thesis using alphabet_nth [of 63] by (simp add: sextet_def Let_def char_eq_code)
  qed
qed

lemma alphabet_of_sextet:
  assumes "sextet c = Some v"
  shows "v < 64" and "BASE64_ALPHABET ! unat v = c"
proof -
  have u: "unat (of_nat k :: u32) = k" if "k < 64" for k
    using that by (simp add: unsigned_of_nat take_bit_nat_eq_self)
  have "\<exists>k<64. v = of_nat k \<and> of_char c
      = (if k < 26 then 65 + k else if k < 52 then 71 + k else if k < 62 then k - 4 else if k = 62 then 43 else 47 :: nat)"
  proof -
    let ?n = "of_char c :: nat"
    consider "65 \<le> ?n \<and> ?n \<le> 90" | "97 \<le> ?n \<and> ?n \<le> 122" | "48 \<le> ?n \<and> ?n \<le> 57" | "c = CHR ''+''" | "c = CHR ''/''"
      using assms by (auto simp: sextet_def Let_def split: if_splits)
    then show ?thesis
    proof cases
      case 1
      then show ?thesis using assms by (intro exI [of _ "?n - 65"]) (auto simp: sextet_def Let_def)
    next
      case 2
      then have "(of_nat (?n - 97) + 26 :: u32) = of_nat (?n - 71)" by (simp add: of_nat_diff)
      then show ?thesis using 2 assms by (intro exI [of _ "?n - 71"]) (auto simp: sextet_def Let_def)
    next
      case 3
      then have "(of_nat (?n - 48) + 52 :: u32) = of_nat (?n + 4)" by (simp add: of_nat_diff)
      then show ?thesis using 3 assms by (intro exI [of _ "?n + 4"]) (auto simp: sextet_def Let_def)
    next
      case 4
      then show ?thesis using assms by (intro exI [of _ 62]) (auto simp: sextet_def Let_def)
    next
      case 5
      then show ?thesis using assms by (intro exI [of _ 63]) (auto simp: sextet_def Let_def)
    qed
  qed
  then obtain k where k: "k < 64" "v = of_nat k" "of_char c
      = (if k < 26 then 65 + k else if k < 52 then 71 + k else if k < 62 then k - 4 else if k = 62 then 43 else 47 :: nat)"
    by blast
  show "v < 64" using k(1) u [OF k(1)] by (simp add: k(2) word_less_nat_alt)
  show "BASE64_ALPHABET ! unat v = c" unfolding k(2) u [OF k(1)] char_eq_code alphabet_nth [OF k(1)] k(3) by (rule refl)
qed


section \<open>Bits\<close>

lemma sextet_at_take: "sextet_at n i = take_bit 6 (drop_bit (18 - 6 * i) n)"
proof -
  have "(0x3f :: u32) = mask 6" by (simp add: mask_eq_exp_minus_1)
  then show ?thesis by (simp add: sextet_at_def take_bit_eq_mask)
qed

lemma sextet_at_less: "sextet_at n i < 64"
proof -
  have "unat (sextet_at n i) < 2 ^ 6"
    unfolding sextet_at_take unsigned_take_bit_eq by (rule take_bit_nat_less_exp)
  then show ?thesis by (simp add: word_less_nat_alt)
qed

lemma bit_sextet_at: "bit (sextet_at n i) m \<longleftrightarrow> m < 6 \<and> bit n (18 - 6 * i + m)"
  by (auto simp: sextet_at_take bit_simps)

lemma bit_less_64: "v < 64 \<Longrightarrow> bit (v :: u32) m \<Longrightarrow> m < 6"
proof (rule ccontr)
  assume v: "v < 64" "bit v m" "\<not> m < 6"
  have "(64 :: nat) \<le> 2 ^ m" using v(3) power_increasing [of 6 m "2 :: nat"] by simp
  then have "unat v div 2 ^ m = 0" using unat_less_64 [OF v(1)] by simp
  moreover have "bit (unat v) m" using v(2) by (simp add: bit_unsigned_iff)
  ultimately show False by (simp add: bit_iff_odd)
qed

definition low_bits :: "nat \<Rightarrow> u32 \<Rightarrow> bool" where
  "low_bits k n \<longleftrightarrow> (\<forall>m. bit n m \<longrightarrow> m < k)"


lemma mask_check: "n AND (push_bit 8 1 - 1) = take_bit 8 n" "n AND (push_bit 16 1 - 1) = take_bit 16 n" for n :: u32
proof -
  have "(push_bit 8 1 - 1 :: u32) = mask 8" "(push_bit 16 1 - 1 :: u32) = mask 16"
    by (simp_all add: mask_eq_exp_minus_1 push_bit_eq_mult)
  then show "n AND (push_bit 8 1 - 1) = take_bit 8 n" "n AND (push_bit 16 1 - 1) = take_bit 16 n"
    by (simp_all add: take_bit_eq_mask)
qed

text \<open>The bits of a group, by the byte they come from.\<close>

lemma bit_group3:
  "bit (chunk_group [a, b, c]) m \<longleftrightarrow> m < 8 \<and> bit c m \<or> 8 \<le> m \<and> m < 16 \<and> bit b (m - 8) \<or> 16 \<le> m \<and> m < 24 \<and> bit a (m - 16)"
  by (auto simp: chunk_group_def bit_simps Let_def dest: bit_imp_le_length)

lemma bit_group2:
  "bit (chunk_group [a, b]) m \<longleftrightarrow> 8 \<le> m \<and> m < 16 \<and> bit b (m - 8) \<or> 16 \<le> m \<and> m < 24 \<and> bit a (m - 16)"
  by (auto simp: chunk_group_def bit_simps Let_def dest: bit_imp_le_length)

lemma bit_group1: "bit (chunk_group [a]) m \<longleftrightarrow> 16 \<le> m \<and> m < 24 \<and> bit a (m - 16)"
  by (auto simp: chunk_group_def bit_simps Let_def dest: bit_imp_le_length)

lemma be_bytes_tail: "drop 1 (be_bytes n) = [ucast (drop_bit 16 n), ucast (drop_bit 8 n), ucast n]"
  by (simp add: be_bytes_def)

text \<open>Joining four, three or two sextets.\<close>

definition join4 :: "u32 \<Rightarrow> u32 \<Rightarrow> u32 \<Rightarrow> u32 \<Rightarrow> u32" where
  "join4 v0 v1 v2 v3 = push_bit 6 (push_bit 6 (push_bit 6 v0 OR v1) OR v2) OR v3"

definition join3 :: "u32 \<Rightarrow> u32 \<Rightarrow> u32 \<Rightarrow> u32" where
  "join3 v0 v1 v2 = push_bit 6 (push_bit 6 (push_bit 6 v0 OR v1) OR v2)"

definition join2 :: "u32 \<Rightarrow> u32 \<Rightarrow> u32" where
  "join2 v0 v1 = push_bit 12 (push_bit 6 v0 OR v1)"

lemma bit_join4:
  assumes "v0 < 64" "v1 < 64" "v2 < 64" "v3 < 64"
  shows "bit (join4 v0 v1 v2 v3) m \<longleftrightarrow>
     m < 6 \<and> bit v3 m \<or> 6 \<le> m \<and> m < 12 \<and> bit v2 (m - 6) \<or> 12 \<le> m \<and> m < 18 \<and> bit v1 (m - 12) \<or> 18 \<le> m \<and> m < 24 \<and> bit v0 (m - 18)"
  using assms by (auto simp: join4_def join3_def join2_def bit_simps dest: bit_less_64)

lemma bit_join3:
  assumes "v0 < 64" "v1 < 64" "v2 < 64"
  shows "bit (join3 v0 v1 v2) m \<longleftrightarrow>
     6 \<le> m \<and> m < 12 \<and> bit v2 (m - 6) \<or> 12 \<le> m \<and> m < 18 \<and> bit v1 (m - 12) \<or> 18 \<le> m \<and> m < 24 \<and> bit v0 (m - 18)"
  using assms by (auto simp: join4_def join3_def join2_def bit_simps dest: bit_less_64)

lemma bit_join2:
  assumes "v0 < 64" "v1 < 64"
  shows "bit (join2 v0 v1) m \<longleftrightarrow>
     12 \<le> m \<and> m < 18 \<and> bit v1 (m - 12) \<or> 18 \<le> m \<and> m < 24 \<and> bit v0 (m - 18)"
  using assms by (auto simp: join4_def join3_def join2_def bit_simps dest: bit_less_64)



section \<open>One group\<close>

lemma upt4: "[0..<4] = [0, 1, 2, 3 :: nat]" by (simp add: upt_rec)

lemma pad_simps:
  "c3 \<noteq> CHR ''='' \<Longrightarrow> length (takeWhile (\<lambda>c. c = CHR ''='') (rev [c0, c1, c2, c3])) = 0"
  "c2 \<noteq> CHR ''='' \<Longrightarrow> length (takeWhile (\<lambda>c. c = CHR ''='') (rev [c0, c1, c2, CHR ''=''])) = 1"
  "c1 \<noteq> CHR ''='' \<Longrightarrow> length (takeWhile (\<lambda>c. c = CHR ''='') (rev [c0, c1, CHR ''='', CHR ''=''])) = 2"
  by simp_all

lemma decode_quad0:
  assumes "c3 \<noteq> CHR ''=''"
  shows "decode_quad [c0, c1, c2, c3] others = do {
     v0 \<leftarrow> sextet c0; v1 \<leftarrow> sextet c1; v2 \<leftarrow> sextet c2; v3 \<leftarrow> sextet c3;
     let n = join4 v0 v1 v2 v3;
     Some [ucast (drop_bit 16 n), ucast (drop_bit 8 n), ucast n] }"
  unfolding decode_quad_def pad_simps(1) [OF assms] Let_def be_bytes_tail join4_def
  by (cases "sextet c0"; cases "sextet c1"; cases "sextet c2"; cases "sextet c3") simp_all

lemma decode_quad1:
  assumes "c2 \<noteq> CHR ''=''"
  shows "decode_quad [c0, c1, c2, CHR ''=''] others = (if others then None else do {
     v0 \<leftarrow> sextet c0; v1 \<leftarrow> sextet c1; v2 \<leftarrow> sextet c2;
     let n = join3 v0 v1 v2;
     if take_bit 8 n \<noteq> 0 then None else Some [ucast (drop_bit 16 n), ucast (drop_bit 8 n)] })"
  unfolding decode_quad_def pad_simps(2) [OF assms] Let_def be_bytes_tail mult_1_right mask_check join3_def
  by (cases "sextet c0"; cases "sextet c1"; cases "sextet c2") (simp_all add: numeral_2_eq_2 numeral_3_eq_3)

lemma decode_quad2:
  assumes "c1 \<noteq> CHR ''=''"
  shows "decode_quad [c0, c1, CHR ''='', CHR ''=''] others = (if others then None else do {
     v0 \<leftarrow> sextet c0; v1 \<leftarrow> sextet c1;
     let n = join2 v0 v1;
     if take_bit 16 n \<noteq> 0 then None else Some [ucast (drop_bit 16 n)] })"
proof -
  have "6 * 2 = (12 :: nat)" "8 * 2 = (16 :: nat)" by simp_all
  then show ?thesis
    unfolding decode_quad_def pad_simps(3) [OF assms] Let_def be_bytes_tail join2_def
    by (cases "sextet c0"; cases "sextet c1") (simp_all only: mask_check, simp_all)
qed

lemma encode_chunk_simps:
  "encode_chunk [a, b, c] = map (\<lambda>i. BASE64_ALPHABET ! unat (sextet_at (chunk_group [a, b, c]) i)) [0, 1, 2, 3]"
  "encode_chunk [a, b] = map (\<lambda>i. BASE64_ALPHABET ! unat (sextet_at (chunk_group [a, b]) i)) [0, 1, 2] @ ''=''"
  "encode_chunk [a] = map (\<lambda>i. BASE64_ALPHABET ! unat (sextet_at (chunk_group [a]) i)) [0, 1] @ ''==''"
  by (simp_all add: encode_chunk_def upt4)

lemmas sextet_back = sextet_of_alphabet [OF sextet_at_less]

lemma join4_sextets:
  assumes "\<And>m. bit n m \<Longrightarrow> m < 24"
  shows "join4 (sextet_at n 0) (sextet_at n 1) (sextet_at n 2) (sextet_at n 3) = n"
proof (rule bit_word_eqI)
  fix m :: nat
  consider "m < 6" | "6 \<le> m" "m < 12" | "12 \<le> m" "m < 18" | "18 \<le> m" "m < 24" | "24 \<le> m" by linarith
  then show "bit (join4 (sextet_at n 0) (sextet_at n 1) (sextet_at n 2) (sextet_at n 3)) m \<longleftrightarrow> bit n m"
    unfolding bit_join4 [OF sextet_at_less sextet_at_less sextet_at_less sextet_at_less] bit_sextet_at
    by cases (use assms [of m] in auto)
qed

lemma join3_sextets:
  assumes "\<And>m. bit n m \<Longrightarrow> 6 \<le> m \<and> m < 24"
  shows "join3 (sextet_at n 0) (sextet_at n 1) (sextet_at n 2) = n"
proof (rule bit_word_eqI)
  fix m :: nat
  consider "m < 6" | "6 \<le> m" "m < 12" | "12 \<le> m" "m < 18" | "18 \<le> m" "m < 24" | "24 \<le> m" by linarith
  then show "bit (join3 (sextet_at n 0) (sextet_at n 1) (sextet_at n 2)) m \<longleftrightarrow> bit n m"
    unfolding bit_join3 [OF sextet_at_less sextet_at_less sextet_at_less] bit_sextet_at
    by cases (use assms [of m] in auto)
qed

lemma join2_sextets:
  assumes "\<And>m. bit n m \<Longrightarrow> 12 \<le> m \<and> m < 24"
  shows "join2 (sextet_at n 0) (sextet_at n 1) = n"
proof (rule bit_word_eqI)
  fix m :: nat
  consider "m < 12" | "12 \<le> m" "m < 18" | "18 \<le> m" "m < 24" | "24 \<le> m" by linarith
  then show "bit (join2 (sextet_at n 0) (sextet_at n 1)) m \<longleftrightarrow> bit n m"
    unfolding bit_join2 [OF sextet_at_less sextet_at_less] bit_sextet_at
    by cases (use assms [of m] in auto)
qed

text \<open>The bytes of a group make the group up again, when its unused bits are clear.\<close>

lemma bit_byte_of: "bit (ucast (drop_bit k n) :: u8) m \<longleftrightarrow> m < 8 \<and> bit n (k + m)" for n :: u32
  by (auto simp: bit_simps)

lemma group_bytes:
  fixes n :: u32
  assumes hi: "\<And>m. bit n m \<Longrightarrow> m < 24"
  shows "chunk_group [ucast (drop_bit 16 n), ucast (drop_bit 8 n), ucast n] = n"
    and "(\<And>m. bit n m \<Longrightarrow> 8 \<le> m) \<Longrightarrow> chunk_group [ucast (drop_bit 16 n), ucast (drop_bit 8 n)] = n"
    and "(\<And>m. bit n m \<Longrightarrow> 16 \<le> m) \<Longrightarrow> chunk_group [ucast (drop_bit 16 n)] = n"
proof -
  have cases: "m < 8 \<or> (8 \<le> m \<and> m < 16) \<or> (16 \<le> m \<and> m < 24) \<or> 24 \<le> m" for m :: nat by linarith
  have low: "bit (ucast n :: u8) m \<longleftrightarrow> m < 8 \<and> bit n m" for m using bit_byte_of [of 0 n m] by simp
  show "chunk_group [ucast (drop_bit 16 n), ucast (drop_bit 8 n), ucast n] = n"
  proof (rule bit_word_eqI)
    fix m show "bit (chunk_group [ucast (drop_bit 16 n), ucast (drop_bit 8 n), ucast n]) m \<longleftrightarrow> bit n m"
      unfolding bit_group3 bit_byte_of low using cases [of m] hi [of m] by (elim disjE) auto
  qed
  show "chunk_group [ucast (drop_bit 16 n), ucast (drop_bit 8 n)] = n" if lo: "\<And>m. bit n m \<Longrightarrow> 8 \<le> m"
  proof (rule bit_word_eqI)
    fix m show "bit (chunk_group [ucast (drop_bit 16 n), ucast (drop_bit 8 n)]) m \<longleftrightarrow> bit n m"
      unfolding bit_group2 bit_byte_of using cases [of m] hi [of m] lo [of m] by (elim disjE) auto
  qed
  show "chunk_group [ucast (drop_bit 16 n)] = n" if lo: "\<And>m. bit n m \<Longrightarrow> 16 \<le> m"
  proof (rule bit_word_eqI)
    fix m show "bit (chunk_group [ucast (drop_bit 16 n)]) m \<longleftrightarrow> bit n m"
      unfolding bit_group1 bit_byte_of using cases [of m] hi [of m] lo [of m] by (elim disjE) auto
  qed
qed

lemma decode_encode_chunk:
  "decode_quad (encode_chunk [a, b, c]) others = Some [a, b, c]"
  "decode_quad (encode_chunk [a, b]) False = Some [a, b]"
  "decode_quad (encode_chunk [a]) False = Some [a]"
proof -
  let ?s = "\<lambda>n i. sextet_at n i"
  let ?n = "chunk_group [a, b, c]"
  have "join4 (?s ?n 0) (?s ?n 1) (?s ?n 2) (?s ?n 3) = ?n"
    by (rule join4_sextets) (auto simp: bit_group3)
  moreover have "ucast (drop_bit 16 ?n) = a" "ucast (drop_bit 8 ?n) = b" "ucast ?n = c"
    by (rule bit_word_eqI; auto simp: bit_simps bit_group3)+
  ultimately show "decode_quad (encode_chunk [a, b, c]) others = Some [a, b, c]"
    by (simp add: encode_chunk_simps decode_quad0 sextet_back Let_def)
  let ?n = "chunk_group [a, b]"
  have "join3 (?s ?n 0) (?s ?n 1) (?s ?n 2) = ?n"
    by (rule join3_sextets) (auto simp: bit_group2)
  moreover have "ucast (drop_bit 16 ?n) = a" "ucast (drop_bit 8 ?n) = b" "take_bit 8 ?n = 0"
    by (rule bit_word_eqI; auto simp: bit_simps bit_group2)+
  ultimately show "decode_quad (encode_chunk [a, b]) False = Some [a, b]"
    by (simp add: encode_chunk_simps decode_quad1 sextet_back Let_def)
  let ?n = "chunk_group [a]"
  have "join2 (?s ?n 0) (?s ?n 1) = ?n"
    by (rule join2_sextets) (auto simp: bit_group1)
  moreover have "ucast (drop_bit 16 ?n) = a" "take_bit 16 ?n = 0"
    by (rule bit_word_eqI; auto simp: bit_simps bit_group1)+
  ultimately show "decode_quad (encode_chunk [a]) False = Some [a]"
    by (simp add: encode_chunk_simps decode_quad2 sextet_back Let_def)
qed

lemma encode_decode_quad:
  assumes "length quad = 4" and "decode_quad quad others = Some out"
  shows "encode_chunk out = quad \<and> 0 < length out \<and> length out \<le> 3 \<and> (others \<longrightarrow> length out = 3)"
proof -
  obtain c0 c1 c2 c3 where q: "quad = [c0, c1, c2, c3]"
    using assms(1) by (auto simp: numeral_eq_Suc length_Suc_conv)
  let ?out = "\<lambda>n. [ucast (drop_bit 16 n), ucast (drop_bit 8 n), ucast n] :: u8 list"
  consider "c3 \<noteq> CHR ''=''" | "c3 = CHR ''=''" "c2 \<noteq> CHR ''=''" | "c3 = CHR ''=''" "c2 = CHR ''=''" "c1 \<noteq> CHR ''=''"
    using assms(2) by (force simp: q decode_quad_def split: if_splits)
  then show ?thesis
  proof cases
    case 1
    then obtain v0 v1 v2 v3 where v: "sextet c0 = Some v0" "sextet c1 = Some v1" "sextet c2 = Some v2" "sextet c3 = Some v3"
      and out: "out = ?out (join4 v0 v1 v2 v3)"
      using assms(2) unfolding q decode_quad0 [OF 1] by (auto simp: Let_def split: bind_splits)
    note a = v [THEN alphabet_of_sextet(1)] v [THEN alphabet_of_sextet(2)]
    let ?n = "join4 v0 v1 v2 v3"
    have g: "chunk_group (?out ?n) = ?n"
      by (rule group_bytes(1)) (auto simp: bit_join4 [OF a(1-4)])
    have "sextet_at ?n 0 = v0" "sextet_at ?n 1 = v1" "sextet_at ?n 2 = v2" "sextet_at ?n 3 = v3"
      using a(1-4) by (auto intro!: bit_word_eqI simp: bit_sextet_at bit_join4 [OF a(1-4)] dest: bit_less_64)
    then show ?thesis using a(5-8) by (simp add: out encode_chunk_simps g q)
  next
    case 2
    then obtain v0 v1 v2 where v: "sextet c0 = Some v0" "sextet c1 = Some v1" "sextet c2 = Some v2"
      and out: "out = take 2 (?out (join3 v0 v1 v2))" and z: "take_bit 8 (join3 v0 v1 v2) = 0" and o: "\<not> others"
      using assms(2) unfolding q 2(1) decode_quad1 [OF 2(2)] by (auto simp: Let_def split: bind_splits if_splits)
    note a = v [THEN alphabet_of_sextet(1)] v [THEN alphabet_of_sextet(2)]
    let ?n = "join3 v0 v1 v2"
    have low: "\<not> bit ?n m" if "m < 8" for m
      using z that by (metis bit_0_eq bit_take_bit_iff bot_apply bot_bool_def)
    have g: "chunk_group [ucast (drop_bit 16 ?n), ucast (drop_bit 8 ?n)] = ?n"
      by (rule group_bytes(2)) (use low not_less in \<open>auto simp: bit_join3 [OF a(1-3)]\<close>)
    have "sextet_at ?n 0 = v0" "sextet_at ?n 1 = v1" "sextet_at ?n 2 = v2"
      using a(1-3) by (auto intro!: bit_word_eqI simp: bit_sextet_at bit_join3 [OF a(1-3)] dest: bit_less_64)
    then show ?thesis using a(4-6) o by (simp add: out encode_chunk_simps g q 2)
  next
    case 3
    then obtain v0 v1 where v: "sextet c0 = Some v0" "sextet c1 = Some v1"
      and out: "out = [ucast (drop_bit 16 (join2 v0 v1))]" and z: "take_bit 16 (join2 v0 v1) = 0" and o: "\<not> others"
      using assms(2) unfolding q 3(1,2) decode_quad2 [OF 3(3)] by (auto simp: Let_def split: bind_splits if_splits)
    note a = v [THEN alphabet_of_sextet(1)] v [THEN alphabet_of_sextet(2)]
    let ?n = "join2 v0 v1"
    have low: "\<not> bit ?n m" if "m < 16" for m
      using z that by (metis bit_0_eq bit_take_bit_iff bot_apply bot_bool_def)
    have g: "chunk_group [ucast (drop_bit 16 ?n)] = ?n"
      by (rule group_bytes(3)) (use low not_less in \<open>auto simp: bit_join2 [OF a(1-2)]\<close>)
    have "sextet_at ?n 0 = v0" "sextet_at ?n 1 = v1"
      using a(1-2) by (auto intro!: bit_word_eqI simp: bit_sextet_at bit_join2 [OF a(1-2)] dest: bit_less_64)
    then show ?thesis using a(3-4) o by (simp add: out encode_chunk_simps g q 3)
  qed
qed


section \<open>The whole text\<close>

lemma length_encode_chunk: "length (encode_chunk chunk) = 4"
  by (simp add: encode_chunk_def)

lemma chunks_of_encode: "chunks_of 4 (concat (map encode_chunk cs)) = map encode_chunk cs"
  by (induction cs) (simp_all add: chunks_of_exact_append length_encode_chunk)

lemma decode_encode_quads: "decode_quads (map encode_chunk (chunks_of 3 bs)) = Some bs"
proof (induction "length bs" arbitrary: bs rule: less_induct)
  case less
  consider "bs = []" | a where "bs = [a]" | a b where "bs = [a, b]" | a b c rest where "bs = a # b # c # rest"
    by (metis list.exhaust)
  then show ?case
  proof cases
    case (2 a)
    then show ?thesis by (simp add: chunks_of_step decode_encode_chunk)
  next
    case (3 a b)
    then show ?thesis by (simp add: chunks_of_step decode_encode_chunk)
  next
    case (4 a b c rest)
    then show ?thesis using less [of rest] by (simp add: chunks_of_step decode_encode_chunk)
  qed simp
qed

lemma encode_decode_quads:
  "\<forall>q\<in>set quads. length q = 4 \<Longrightarrow> decode_quads quads = Some bs \<Longrightarrow> concat (map encode_chunk (chunks_of 3 bs)) = concat quads"
proof (induction quads arbitrary: bs)
  case (Cons q quads)
  then obtain out rest where o: "decode_quad q (quads \<noteq> []) = Some out" "decode_quads quads = Some rest" "bs = out @ rest"
    by (auto split: bind_splits)
  have e: "encode_chunk out = q" "0 < length out" "length out \<le> 3" "quads \<noteq> [] \<longrightarrow> length out = 3"
    using encode_decode_quad [OF _ o(1)] Cons.prems(1) by auto
  have IH: "concat (map encode_chunk (chunks_of 3 rest)) = concat quads" using Cons o(2) by simp
  show ?case
  proof (cases "quads = []")
    case True
    then have "rest = []" using o(2) by simp
    then have "chunks_of 3 bs = [out]" using o(3) e(2,3) by (simp add: chunks_of_step)
    then show ?thesis using True e(1) by simp
  next
    case False
    then have "chunks_of 3 bs = out # chunks_of 3 rest" using o(3) e(4) by (simp add: chunks_of_exact_append)
    then show ?thesis using e(1) IH by simp
  qed
qed simp

lemma chunks_of_all: "length xs mod n = 0 \<Longrightarrow> 0 < n \<Longrightarrow> c \<in> set (chunks_of n xs) \<Longrightarrow> length c = n"
proof (induction "length xs" arbitrary: xs rule: less_induct)
  case less
  have ne: "xs \<noteq> []" using less.prems(3) by auto
  then have le: "n \<le> length xs" using less.prems(1) by (metis length_0_conv mod_less not_less)
  have "length (drop n xs) mod n = 0" using le_mod_geq [OF le] less.prems(1) by simp
  then have "length c = n" if "c \<in> set (chunks_of n (drop n xs))"
    using less.hyps [OF _ _ less.prems(2) that] ne less.prems(2) by simp
  moreover have "c = take n xs \<or> c \<in> set (chunks_of n (drop n xs))"
    using less.prems(3) chunks_of_step [OF ne less.prems(2)] by simp
  ultimately show ?case using le by auto
qed

lemma decode_encode: "base64_decode (base64_encode bs) = Some bs"
proof -
  have "length (base64_encode bs) mod 4 = 0"
    by (simp add: base64_encode_def length_concat comp_def length_encode_chunk sum_list_triv)
  then show ?thesis
    by (simp add: base64_decode_def base64_encode_def chunks_of_encode decode_encode_quads)
qed

lemma encode_decode:
  assumes "base64_decode s = Some out"
  shows "base64_encode out = s"
proof -
  have s: "length s mod 4 = 0" "decode_quads (chunks_of 4 s) = Some out"
    using assms by (auto simp: base64_decode_def split: if_splits)
  show ?thesis
    using encode_decode_quads [OF _ s(2)] chunks_of_all [OF s(1)] by (simp add: base64_encode_def concat_chunks_of)
qed

text \<open>
  base64 text and bytes correspond one to one: a text decodes to some bytes exactly when it
  is what the encoder writes for them, so a decoded blob prints back as it was read, whatever
  its length, and every text with wrong padding or stray bits is refused.
\<close>

theorem base64_inverse: "base64_decode s = Some bs \<longleftrightarrow> s = base64_encode bs"
  using decode_encode encode_decode by blast

end
