(* ===== verification/Tagged_Text.thy ===== *)
theory Tagged_Text
  imports Duration Base64
begin

text \<open>
  The wire form of the value types JSON does not carry (\<open>tagged_text\<close> and
  \<open>value_from_tagged_text\<close> in \<open>crates/core-storage/src/types.rs\<close>): a tag and a text. The messages of
  the errors are the constructors of \<open>text_error\<close>, with what each message names.
\<close>

definition TAG_DATE :: string where "TAG_DATE = ''$date''"
definition TAG_LOCAL_DATETIME :: string where "TAG_LOCAL_DATETIME = ''$ldt''"
definition TAG_DATETIME :: string where "TAG_DATETIME = ''$dt''"
definition TAG_DURATION :: string where "TAG_DURATION = ''$dur''"
definition TAG_BINARY :: string where "TAG_BINARY = ''$binary''"

definition V11_TAGS :: "string list" where
  "V11_TAGS = [TAG_DATE, TAG_LOCAL_DATETIME, TAG_DATETIME, TAG_DURATION, TAG_BINARY]"

lemmas tag_defs = TAG_DATE_def TAG_LOCAL_DATETIME_def TAG_DATETIME_def TAG_DURATION_def TAG_BINARY_def

datatype text_error = OffsetOutsideRange int | NotAValueTag string | NotTheForm string string

fun tagged_text :: "val \<Rightarrow> text_error + (string \<times> string) option" where
  "tagged_text (VInt _) = Inr None"
| "tagged_text (VFloat _) = Inr None"
| "tagged_text (VStr _) = Inr None"
| "tagged_text (VBool _) = Inr None"
| "tagged_text (VList _) = Inr None"
| "tagged_text (VMap _) = Inr None"
| "tagged_text VNull = Inr None"
| "tagged_text (VDate days) = Inr (Some (TAG_DATE, date_to_iso8601 days))"
| "tagged_text (VLocalDateTime us) = Inr (Some (TAG_LOCAL_DATETIME, local_datetime_to_iso8601 us))"
| "tagged_text (VDateTime micros_utc offset_seconds) =
     (case datetime_to_iso8601 micros_utc offset_seconds of
        None \<Rightarrow> Inl (OffsetOutsideRange offset_seconds)
      | Some text' \<Rightarrow> Inr (Some (TAG_DATETIME, text')))"
| "tagged_text (VDuration months days nanos) = Inr (Some (TAG_DURATION, duration_to_iso8601 months days nanos))"
| "tagged_text (VBinary bytes) = Inr (Some (TAG_BINARY, base64_encode bytes))"

definition value_from_tagged_text :: "string \<Rightarrow> string \<Rightarrow> text_error + val" where
  "value_from_tagged_text tag s =
     (if tag \<notin> set V11_TAGS then Inl (NotAValueTag tag)
      else
        let parsed =
          (if tag = TAG_DATE then map_option VDate (iso8601_to_date s)
           else if tag = TAG_LOCAL_DATETIME then map_option VLocalDateTime (iso8601_to_local_datetime s)
           else if tag = TAG_DATETIME then map_option (\<lambda>(us, off). VDateTime us off) (iso8601_to_datetime s)
           else if tag = TAG_DURATION then map_option (\<lambda>(m, d, n). VDuration m d n) (iso8601_to_duration s)
           else map_option VBinary (base64_decode s))
        in case parsed of None \<Rightarrow> Inl (NotTheForm tag s) | Some v \<Rightarrow> Inr v)"

text \<open>The fields of a value within the widths of the source's types.\<close>

fun fields_fit :: "val \<Rightarrow> bool" where
  "fields_fit (VDate days) = (try_i32 days = Some days)"
| "fields_fit (VLocalDateTime us) = (try_i64 us = Some us)"
| "fields_fit (VDateTime us off) = (try_i64 us = Some us \<and> try_i32 off = Some off)"
| "fields_fit (VDuration m d n) = (try_i32 m = Some m \<and> try_i32 d = Some d \<and> try_i64 n = Some n)"
| "fields_fit _ = True"

lemma try_i32_fits: "try_i32 n = Some n \<longleftrightarrow> - (2 ^ 31) \<le> n \<and> n < 2 ^ 31" by (simp add: try_i32_def)
lemma try_i64_fits: "try_i64 n = Some n \<longleftrightarrow> - (2 ^ 63) \<le> n \<and> n < 2 ^ 63" by (simp add: try_i64_def)

text \<open>
  C26: every tag the encoders write is one of the five, and its text reads back as the value it was
  written from; the values with no tag are exactly those JSON carries as they are, and the only
  refusal is a date-time whose offset is outside \<open>\<plusminus>18:00\<close>, so no encoder writes a tag that would
  not parse back. An unknown tag is refused whatever its text.
\<close>

theorem tagged_text_roundtrip:
  assumes "fields_fit v"
  shows "(case tagged_text v of
      Inl e \<Rightarrow> \<exists>us off. v = VDateTime us off \<and> e = OffsetOutsideRange off \<and> \<bar>off\<bar> > MAX_OFFSET_SECONDS
    | Inr None \<Rightarrow> v11_only_type v = None \<or> (\<exists>items. v = VList items) \<or> (\<exists>m. v = VMap m)
    | Inr (Some (tag, s)) \<Rightarrow> tag \<in> set V11_TAGS \<and> v11_only_type v \<noteq> None \<and> value_from_tagged_text tag s = Inr v)
   \<and> (unknown \<in> set V11_TAGS \<or> value_from_tagged_text unknown s = Inl (NotAValueTag unknown))"
proof -
  have tags: "TAG_DATE \<noteq> TAG_LOCAL_DATETIME" "TAG_DATE \<noteq> TAG_DATETIME" "TAG_DATE \<noteq> TAG_DURATION" "TAG_DATE \<noteq> TAG_BINARY"
    "TAG_LOCAL_DATETIME \<noteq> TAG_DATETIME" "TAG_LOCAL_DATETIME \<noteq> TAG_DURATION" "TAG_LOCAL_DATETIME \<noteq> TAG_BINARY"
    "TAG_DATETIME \<noteq> TAG_DURATION" "TAG_DATETIME \<noteq> TAG_BINARY" "TAG_DURATION \<noteq> TAG_BINARY"
    by (simp_all add: tag_defs)
  note rt = date_roundtrip local_datetime_roundtrip duration_parses decode_encode
  have dt: "(case datetime_to_iso8601 us off of None \<Rightarrow> \<bar>off\<bar> > MAX_OFFSET_SECONDS
      | Some t \<Rightarrow> iso8601_to_datetime t = Some (us, off))" if "try_i64 us = Some us" for us off
  proof (cases "\<bar>off\<bar> \<le> MAX_OFFSET_SECONDS")
    case True
    with that show ?thesis
      using datetime_roundtrip [of us off] by (auto simp: try_i64_fits split: option.split Option.bind_splits)
  qed (simp add: datetime_to_iso8601_def)
  have unknown: "unknown \<in> set V11_TAGS \<or> value_from_tagged_text unknown s = Inl (NotAValueTag unknown)"
    by (simp add: value_from_tagged_text_def)
  show ?thesis
  proof (cases v)
    case (VDateTime us off)
    then show ?thesis using dt [of us off] assms unknown
      by (auto simp: V11_TAGS_def value_from_tagged_text_def tags tags [symmetric] split: option.splits)
  qed (use assms unknown in \<open>auto simp: V11_TAGS_def value_from_tagged_text_def tags tags [symmetric] rt try_i32_fits try_i64_fits\<close>)
qed

theorem tagged_text_roundtrip_witness:
  "value_from_tagged_text TAG_DURATION (duration_to_iso8601 14 (- 3) 4500000000) = Inr (VDuration 14 (- 3) 4500000000)"
  using tagged_text_roundtrip [of "VDuration 14 (- 3) 4500000000" "[]" "[]"] by (auto simp: try_i32_def try_i64_def)

end
