(* ===== verification/Pack.thy ===== *)
theory Pack
  imports Value_Types
begin

text \<open>
  Length-prefixed little-endian packing (\<open>crates/core-storage/src/pack.rs\<close>) and the interface of the
  packed formats built on it. A reader takes the bytes and a position, the \<open>usize\<close> the source passes
  by reference, and returns the value with the position after it, or the error; a position that
  would leave \<open>usize\<close> is the overflow the source checks. An \<open>f64\<close> is its bit pattern and an \<open>i64\<close> an
  integer.
\<close>

named_theorems pack_simps "readers over what the writers append"

definition USIZE_MAX :: nat where "USIZE_MAX = 2 ^ 64 - 1"

text \<open>The \<open>?\<close> operator on a \<open>Result\<close>.\<close>

definition and_then :: "'e + 'a \<Rightarrow> ('a \<Rightarrow> 'e + 'b) \<Rightarrow> 'e + 'b" where
  "and_then r f = (case r of Inl e \<Rightarrow> Inl e | Inr x \<Rightarrow> f x)"

lemma and_then_simps [simp]: "and_then (Inl e) f = Inl e" "and_then (Inr x) f = f x"
  by (simp_all add: and_then_def)

lemma and_then_Inr_iff: "and_then r f = Inr y \<longleftrightarrow> (\<exists>x. r = Inr x \<and> f x = Inr y)"
  by (cases r) auto

lemma and_then_cong [fundef_cong]: "r = s \<Longrightarrow> (\<And>x. s = Inr x \<Longrightarrow> f x = g x) \<Longrightarrow> and_then r f = and_then s g"
  by (cases s) auto

section \<open>Writers\<close>

definition push_u32 :: "bytes \<Rightarrow> u32 \<Rightarrow> bytes" where "push_u32 out v = out @ u32_le v"
definition push_u64 :: "bytes \<Rightarrow> u64 \<Rightarrow> bytes" where "push_u64 out v = out @ u64_le v"
definition push_len :: "bytes \<Rightarrow> nat \<Rightarrow> bytes" where "push_len out len = push_u32 out (of_nat len)"
definition push_u32s :: "bytes \<Rightarrow> u32 list \<Rightarrow> bytes" where
  "push_u32s out v = foldl push_u32 (push_len out (length v)) v"

text \<open>A string is the bytes of its UTF-8 form, one character each.\<close>

definition str_bytes :: "string \<Rightarrow> bytes" where "str_bytes s = map (\<lambda>c. of_nat (of_char c)) s"
definition bytes_str :: "bytes \<Rightarrow> string" where "bytes_str bs = map (\<lambda>b. char_of (unat b)) bs"

definition push_str :: "bytes \<Rightarrow> string \<Rightarrow> bytes" where
  "push_str out s = push_len out (length (str_bytes s)) @ str_bytes s"

section \<open>Readers\<close>

type_synonym 'a reader = "bytes \<Rightarrow> nat \<Rightarrow> graph_error + 'a \<times> nat"

definition read_exact :: "bytes \<Rightarrow> nat \<Rightarrow> nat \<Rightarrow> graph_error + bytes \<times> nat" where
  "read_exact src pos n =
     (if pos + n > USIZE_MAX then Inl (Corrupt ''snapshot: packed length overflow'')
      else if pos + n > length src then Inl (Corrupt ''snapshot: truncated packed image'')
      else Inr (take n (drop pos src), pos + n))"

definition read_u32 :: "u32 reader" where
  "read_u32 src pos = and_then (read_exact src pos 4) (\<lambda>(s, pos). Inr (le_u32 s, pos))"

definition read_u64 :: "u64 reader" where
  "read_u64 src pos = and_then (read_exact src pos 8) (\<lambda>(s, pos). Inr (le_u64 s, pos))"

definition saturating_mul :: "nat \<Rightarrow> nat \<Rightarrow> nat" where
  "saturating_mul a b = min USIZE_MAX (a * b)"

definition read_u32s :: "u32 list reader" where
  "read_u32s src pos =
     and_then (read_u32 src pos) (\<lambda>(n, pos).
     and_then (read_exact src pos (saturating_mul (unat n) 4)) (\<lambda>(bs, pos).
     Inr (map le_u32 (chunks_of 4 bs), pos)))"

definition read_i64s :: "int list reader" where
  "read_i64s src pos =
     and_then (read_u32 src pos) (\<lambda>(n, pos).
     and_then (read_exact src pos (saturating_mul (unat n) 8)) (\<lambda>(bs, pos).
     Inr (map (\<lambda>c. sint (le_u64 c)) (chunks_of 8 bs), pos)))"

definition read_f64s :: "u64 list reader" where
  "read_f64s src pos =
     and_then (read_u32 src pos) (\<lambda>(n, pos).
     and_then (read_exact src pos (saturating_mul (unat n) 8)) (\<lambda>(bs, pos).
     Inr (map le_u64 (chunks_of 8 bs), pos)))"

text \<open>
  \<open>String::from_utf8\<close> accepts the well-formed byte sequences of the Unicode standard: no overlong
  form, no surrogate, nothing past U+10FFFF.
\<close>

definition utf8_tail :: "u8 \<Rightarrow> bool" where "utf8_tail b \<longleftrightarrow> 0x80 \<le> b \<and> b \<le> 0xBF"

fun utf8_valid :: "bytes \<Rightarrow> bool" where
  "utf8_valid [] = True"
| "utf8_valid (a # bs) =
     (if a \<le> 0x7F then utf8_valid bs
      else if 0xC2 \<le> a \<and> a \<le> 0xDF then
        (case bs of b # r \<Rightarrow> utf8_tail b \<and> utf8_valid r | _ \<Rightarrow> False)
      else if 0xE0 \<le> a \<and> a \<le> 0xEF then
        (case bs of b # c # r \<Rightarrow>
           (if a = 0xE0 then 0xA0 \<le> b \<and> b \<le> 0xBF else if a = 0xED then 0x80 \<le> b \<and> b \<le> 0x9F else utf8_tail b)
           \<and> utf8_tail c \<and> utf8_valid r
         | _ \<Rightarrow> False)
      else if 0xF0 \<le> a \<and> a \<le> 0xF4 then
        (case bs of b # c # d # r \<Rightarrow>
           (if a = 0xF0 then 0x90 \<le> b \<and> b \<le> 0xBF else if a = 0xF4 then 0x80 \<le> b \<and> b \<le> 0x8F else utf8_tail b)
           \<and> utf8_tail c \<and> utf8_tail d \<and> utf8_valid r
         | _ \<Rightarrow> False)
      else False)"

definition from_utf8 :: "bytes \<Rightarrow> string option" where
  "from_utf8 bs = (if utf8_valid bs then Some (bytes_str bs) else None)"

definition read_str :: "string reader" where
  "read_str src pos =
     and_then (read_u32 src pos) (\<lambda>(n, pos).
     and_then (read_exact src pos (unat n)) (\<lambda>(bs, pos).
     case from_utf8 bs of
       None \<Rightarrow> Inl (Corrupt ''snapshot: packed string utf8'')
     | Some s \<Rightarrow> Inr (s, pos)))"

section \<open>The interface of a packed format\<close>

text \<open>A slice is never longer than \<open>usize\<close> can say.\<close>

abbreviation slice_ok :: "bytes \<Rightarrow> bool" where "slice_ok src \<equiv> length src \<le> USIZE_MAX"

text \<open>
  A writer that appends, and a reader that gives back what was written wherever it starts and
  reports every cut as corruption. \<open>ok\<close> bounds what can be written, where a length field has a width.
\<close>

locale packed =
  fixes push :: "bytes \<Rightarrow> 'a \<Rightarrow> bytes"
    and read :: "'a reader"
    and ok :: "'a \<Rightarrow> bool"
  assumes push_appends: "push out x = out @ push [] x"
    and read_push: "ok x \<Longrightarrow> slice_ok (pre @ push [] x @ post)
      \<Longrightarrow> read (pre @ push [] x @ post) (length pre) = Inr (x, length pre + length (push [] x))"
    and read_cut: "ok x \<Longrightarrow> k < length (push [] x) \<Longrightarrow> slice_ok (pre @ take k (push [] x))
      \<Longrightarrow> \<exists>why. read (pre @ take k (push [] x)) (length pre) = Inl (Corrupt why)"
begin

lemma read_push_all: "ok x \<Longrightarrow> slice_ok (push [] x) \<Longrightarrow> read (push [] x) 0 = Inr (x, length (push [] x))"
  using read_push [of x "[]" "[]"] by simp

end

text \<open>A loop of \<open>n\<close> reads, the values collected.\<close>

fun read_n :: "'a reader \<Rightarrow> nat \<Rightarrow> 'a list reader" where
  "read_n rd 0 src pos = Inr ([], pos)"
| "read_n rd (Suc n) src pos =
     and_then (rd src pos) (\<lambda>(x, pos).
     and_then (read_n rd n src pos) (\<lambda>(xs, pos). Inr (x # xs, pos)))"

context packed
begin

lemma foldl_push: "foldl push out xs = out @ foldl push [] xs"
proof (induction xs arbitrary: out)
  case (Cons x xs)
  show ?case using Cons.IH [of "push out x"] Cons.IH [of "push [] x"] push_appends [of out x] by simp
qed simp

lemma foldl_push_Cons: "foldl push [] (x # xs) = push [] x @ foldl push [] xs"
  using foldl_push [of "push [] x" xs] by simp

lemma read_n_push:
  assumes "\<forall>x\<in>set xs. ok x" and "slice_ok (pre @ foldl push [] xs @ post)"
  shows "read_n read (length xs) (pre @ foldl push [] xs @ post) (length pre)
    = Inr (xs, length pre + length (foldl push [] xs))"
  using assms
proof (induction xs arbitrary: pre)
  case (Cons x xs)
  have "read (pre @ push [] x @ foldl push [] xs @ post) (length pre) = Inr (x, length pre + length (push [] x))"
    using Cons.prems by (intro read_push) (simp_all only: foldl_push_Cons append_assoc list.set_intros)
  moreover have "read_n read (length xs) ((pre @ push [] x) @ foldl push [] xs @ post) (length (pre @ push [] x))
      = Inr (xs, length (pre @ push [] x) + length (foldl push [] xs))"
    using Cons.prems by (intro Cons.IH) (simp_all only: foldl_push_Cons append_assoc list.set_intros insert_iff list.set(2), blast)
  ultimately show ?case unfolding foldl_push_Cons by simp
qed simp

lemma read_n_cut:
  assumes "\<forall>x\<in>set xs. ok x" and "k < length (foldl push [] xs)" and "slice_ok (pre @ take k (foldl push [] xs))"
  shows "\<exists>why. read_n read (length xs) (pre @ take k (foldl push [] xs)) (length pre) = Inl (Corrupt why)"
  using assms
proof (induction xs arbitrary: pre k)
  case (Cons x xs)
  show ?case
  proof (cases "k < length (push [] x)")
    case True
    then have "take k (foldl push [] (x # xs)) = take k (push [] x)" by (simp only: foldl_push_Cons) simp
    then show ?thesis using read_cut [of x k pre] Cons.prems True by force
  next
    case False
    let ?k = "k - length (push [] x)"
    have t: "take k (foldl push [] (x # xs)) = push [] x @ take ?k (foldl push [] xs)"
      using False by (simp only: foldl_push_Cons) simp
    have fit: "slice_ok ((pre @ push [] x) @ take ?k (foldl push [] xs))" using Cons.prems(3) unfolding t by simp
    have "read (pre @ push [] x @ take ?k (foldl push [] xs)) (length pre) = Inr (x, length pre + length (push [] x))"
      using Cons.prems fit by (intro read_push) simp_all
    moreover have "\<exists>why. read_n read (length xs) ((pre @ push [] x) @ take ?k (foldl push [] xs)) (length (pre @ push [] x))
        = Inl (Corrupt why)"
      using Cons.prems fit False by (intro Cons.IH) (simp_all only: foldl_push_Cons length_append list.set insert_iff, auto)
    ultimately show ?thesis unfolding t by auto
  qed
qed simp

end

section \<open>The fixed-width readers\<close>

lemma read_exact_at:
  "slice_ok (pre @ bs @ post) \<Longrightarrow> read_exact (pre @ bs @ post) (length pre) (length bs) = Inr (bs, length pre + length bs)"
  by (simp add: read_exact_def)

lemma read_exact_short:
  "length pre + n > length src \<Longrightarrow> \<exists>why. read_exact src (length pre) n = Inl (Corrupt why)"
  by (simp add: read_exact_def)

interpretation pk_u32: packed push_u32 read_u32 "\<lambda>_. True"
proof
  fix out pre post :: bytes and x :: u32 and k
  show "push_u32 out x = out @ push_u32 [] x" by (simp add: push_u32_def)
  show "read_u32 (pre @ push_u32 [] x @ post) (length pre) = Inr (x, length pre + length (push_u32 [] x))"
    if "slice_ok (pre @ push_u32 [] x @ post)"
    using that read_exact_at [of pre "u32_le x" post] by (simp add: read_u32_def push_u32_def byte_simps)
  show "\<exists>why. read_u32 (pre @ take k (push_u32 [] x)) (length pre) = Inl (Corrupt why)" if "k < length (push_u32 [] x)"
    using that read_exact_short [of "pre @ take k (push_u32 [] x)" pre 4] by (auto simp: read_u32_def push_u32_def byte_simps)
qed

interpretation pk_u64: packed push_u64 read_u64 "\<lambda>_. True"
proof
  fix out pre post :: bytes and x :: u64 and k
  show "push_u64 out x = out @ push_u64 [] x" by (simp add: push_u64_def)
  show "read_u64 (pre @ push_u64 [] x @ post) (length pre) = Inr (x, length pre + length (push_u64 [] x))"
    if "slice_ok (pre @ push_u64 [] x @ post)"
    using that read_exact_at [of pre "u64_le x" post] by (simp add: read_u64_def push_u64_def byte_simps)
  show "\<exists>why. read_u64 (pre @ take k (push_u64 [] x)) (length pre) = Inl (Corrupt why)" if "k < length (push_u64 [] x)"
    using that read_exact_short [of "pre @ take k (push_u64 [] x)" pre 8] by (auto simp: read_u64_def push_u64_def byte_simps)
qed

text \<open>A length fits its prefix.\<close>

abbreviation len_ok :: "nat \<Rightarrow> bool" where "len_ok n \<equiv> n < 2 ^ 32"

lemma unat_len [simp]: "len_ok n \<Longrightarrow> unat (of_nat n :: u32) = n"
  by (simp add: unsigned_of_nat take_bit_nat_eq_self)

lemma saturating_mul_len: "len_ok n \<Longrightarrow> k \<le> 8 \<Longrightarrow> saturating_mul n k = n * k"
proof -
  assume "len_ok n" "k \<le> 8"
  then have "n * k \<le> 2 ^ 32 * 8" by (intro mult_le_mono) simp_all
  then show ?thesis by (simp add: saturating_mul_def USIZE_MAX_def)
qed

text \<open>A length prefix and then that many bytes.\<close>

definition prefixed :: "bytes \<Rightarrow> nat \<Rightarrow> bytes \<Rightarrow> bytes" where
  "prefixed out n body = push_len out n @ body"

lemma prefixed_reads:
  assumes "len_ok n" and "slice_ok (pre @ prefixed [] n body @ post)"
  shows "read_u32 (pre @ prefixed [] n body @ post) (length pre) = Inr (of_nat n, length pre + 4)"
    and "read_exact (pre @ prefixed [] n body @ post) (length pre + 4) (length body)
      = Inr (body, length pre + length (prefixed [] n body))"
proof -
  have p: "push_len [] n = u32_le (of_nat n)" by (simp add: push_len_def push_u32_def)
  show "read_u32 (pre @ prefixed [] n body @ post) (length pre) = Inr (of_nat n, length pre + 4)"
    using pk_u32.read_push [where x = "of_nat n" and pre = pre and post = "body @ post"] assms by (simp add: prefixed_def push_len_def push_u32_def byte_simps)
  show "read_exact (pre @ prefixed [] n body @ post) (length pre + 4) (length body) = Inr (body, length pre + length (prefixed [] n body))"
    using read_exact_at [of "pre @ push_len [] n" body post] assms(2) by (simp add: prefixed_def p byte_simps add.assoc)
qed

lemma prefixed_cut:
  assumes "len_ok n" and "k < length (prefixed [] n body)" and "slice_ok (pre @ take k (prefixed [] n body))"
  shows "(\<exists>why. read_u32 (pre @ take k (prefixed [] n body)) (length pre) = Inl (Corrupt why))
    \<or> read_u32 (pre @ take k (prefixed [] n body)) (length pre) = Inr (of_nat n, length pre + 4)
      \<and> (\<exists>why. read_exact (pre @ take k (prefixed [] n body)) (length pre + 4) (length body) = Inl (Corrupt why))"
proof (cases "k < 4")
  case True
  then have t: "take k (prefixed [] n body) = take k (push_u32 [] (of_nat n))"
    by (simp add: prefixed_def push_len_def push_u32_def byte_simps)
  then show ?thesis using pk_u32.read_cut [where x = "of_nat n" and k = k and pre = pre] True assms(3) by (simp add: push_u32_def byte_simps)
next
  case False
  then have t: "take k (prefixed [] n body) = push_u32 [] (of_nat n) @ take (k - 4) body"
    by (simp add: prefixed_def push_len_def push_u32_def byte_simps)
  have l: "k - 4 < length body" using assms(2) False by (simp add: prefixed_def push_len_def push_u32_def byte_simps)
  have "read_u32 (pre @ take k (prefixed [] n body)) (length pre) = Inr (of_nat n, length pre + 4)"
    unfolding t using pk_u32.read_push [where x = "of_nat n" and pre = pre and post = "take (k - 4) body"] assms(3) t
    by (simp add: push_u32_def byte_simps)
  moreover have "\<exists>why. read_exact (pre @ take k (prefixed [] n body)) (length pre + 4) (length body) = Inl (Corrupt why)"
    unfolding t using l by (simp add: read_exact_def push_u32_def byte_simps)
  ultimately show ?thesis by blast
qed

section \<open>The length-prefixed readers\<close>

lemma push_u32s_body: "push_u32s [] v = prefixed [] (length v) (foldl push_u32 [] v)"
  using pk_u32.foldl_push [of "push_len [] (length v)" v] by (simp add: push_u32s_def prefixed_def)

lemma foldl_push_u32: "foldl push_u32 [] v = concat (map u32_le v)"
proof (induction v)
  case (Cons a v)
  then show ?case using pk_u32.foldl_push_Cons [of a v] push_u32_def [of "[]" a] by (simp del: foldl_Cons)
qed simp

lemma length_concat_u32: "length (concat (map u32_le v)) = length v * 4"
  by (induction v) (simp_all add: byte_simps)

lemma chunks_concat_u32: "chunks_of 4 (concat (map u32_le v)) = map u32_le v"
  by (induction v) (simp_all add: chunks_of_exact_append byte_simps)

lemma map_le_u32: "map le_u32 (map u32_le v) = v"
  by (induction v) (simp_all add: byte_simps)

interpretation pk_u32s: packed push_u32s read_u32s "\<lambda>v. len_ok (length v)"
proof
  fix out pre post :: bytes and v :: "u32 list" and k
  let ?b = "concat (map u32_le v)"
  note body = push_u32s_body foldl_push_u32
  show "push_u32s out v = out @ push_u32s [] v"
    using pk_u32.foldl_push [of "push_len out (length v)" v] pk_u32.foldl_push [of "push_len [] (length v)" v]
    by (simp add: push_u32s_def push_len_def push_u32_def)
  assume ok: "len_ok (length v)"
  have sm: "saturating_mul (length v) 4 = length ?b" using saturating_mul_len [OF ok, of 4] by (simp add: length_concat_u32)
  show "read_u32s (pre @ push_u32s [] v @ post) (length pre) = Inr (v, length pre + length (push_u32s [] v))"
    if "slice_ok (pre @ push_u32s [] v @ post)"
    using that prefixed_reads [OF ok, of pre ?b post] ok
    by (simp only: body read_u32s_def and_then_simps split_conv unat_len sm chunks_concat_u32 map_le_u32)
  show "\<exists>why. read_u32s (pre @ take k (push_u32s [] v)) (length pre) = Inl (Corrupt why)"
    if "k < length (push_u32s [] v)" "slice_ok (pre @ take k (push_u32s [] v))"
    using prefixed_cut [OF ok, of k ?b pre] that unfolding body read_u32s_def by (auto simp: unat_len [OF ok] sm)
qed

lemma str_bytes_inverse [simp]: "bytes_str (str_bytes s) = s"
proof (induction s)
  case (Cons c s)
  have "of_char c < (2 ^ 8 :: nat)" by simp
  then have "unat (of_nat (of_char c) :: u8) = of_char c" by (simp add: unsigned_of_nat take_bit_nat_eq_self)
  then show ?case using Cons by (simp add: str_bytes_def bytes_str_def)
qed (simp add: str_bytes_def bytes_str_def)

text \<open>A Rust \<open>String\<close> is always valid UTF-8.\<close>

abbreviation str_ok :: "string \<Rightarrow> bool" where "str_ok s \<equiv> utf8_valid (str_bytes s)"

interpretation pk_str: packed push_str read_str "\<lambda>s. str_ok s \<and> len_ok (length s)"
proof
  fix out pre post :: bytes and s :: string and k
  have body: "push_str [] s = prefixed [] (length s) (str_bytes s)"
    by (simp add: push_str_def prefixed_def str_bytes_def)
  have l: "length (str_bytes s) = length s" by (simp add: str_bytes_def)
  show "push_str out s = out @ push_str [] s" by (simp add: push_str_def push_len_def push_u32_def)
  assume ok: "str_ok s \<and> len_ok (length s)"
  then have n: "len_ok (length s)" and u: "from_utf8 (str_bytes s) = Some s" by (simp_all add: from_utf8_def)
  show "read_str (pre @ push_str [] s @ post) (length pre) = Inr (s, length pre + length (push_str [] s))"
    if "slice_ok (pre @ push_str [] s @ post)"
    using that prefixed_reads [OF n, of pre "str_bytes s" post]
    by (simp only: body l read_str_def and_then_simps split_conv unat_len n u option.simps)
  show "\<exists>why. read_str (pre @ take k (push_str [] s)) (length pre) = Inl (Corrupt why)"
    if "k < length (push_str [] s)" "slice_ok (pre @ take k (push_str [] s))"
    using prefixed_cut [OF n, of k "str_bytes s" pre] that unfolding body read_str_def by (auto simp: unat_len [OF n] l)
qed

section \<open>Sequences of packed values\<close>

text \<open>Two values, one after the other.\<close>

definition push_pair :: "(bytes \<Rightarrow> 'a \<Rightarrow> bytes) \<Rightarrow> (bytes \<Rightarrow> 'b \<Rightarrow> bytes) \<Rightarrow> bytes \<Rightarrow> 'a \<times> 'b \<Rightarrow> bytes" where
  "push_pair pa pb out p = pb (pa out (fst p)) (snd p)"

definition read_pair :: "'a reader \<Rightarrow> 'b reader \<Rightarrow> ('a \<times> 'b) reader" where
  "read_pair ra rb src pos =
     and_then (ra src pos) (\<lambda>(a, pos). and_then (rb src pos) (\<lambda>(b, pos). Inr ((a, b), pos)))"

text \<open>A count and that many values.\<close>

definition push_counted :: "(bytes \<Rightarrow> 'a \<Rightarrow> bytes) \<Rightarrow> bytes \<Rightarrow> 'a list \<Rightarrow> bytes" where
  "push_counted p out xs = foldl p (push_u32 out (of_nat (length xs))) xs"

definition read_counted :: "'a reader \<Rightarrow> 'a list reader" where
  "read_counted rd src pos = and_then (read_u32 src pos) (\<lambda>(n, pos). read_n rd (unat n) src pos)"

locale packed_two = a: packed pa ra oka + b: packed pb rb okb
  for pa :: "bytes \<Rightarrow> 'a \<Rightarrow> bytes" and ra oka and pb :: "bytes \<Rightarrow> 'b \<Rightarrow> bytes" and rb okb
begin

lemma pair_body: "push_pair pa pb out (x, y) = out @ pa [] x @ pb [] y"
  using a.push_appends [of out x] b.push_appends [of "out @ pa [] x" y] by (simp add: push_pair_def)

lemma packed_pair: "packed (push_pair pa pb) (read_pair ra rb) (\<lambda>(x, y). oka x \<and> okb y)"
proof (standard, goal_cases)
  case (1 out p)
  then show ?case by (cases p) (simp add: pair_body)
next
  case (2 p pre post)
  obtain x y where p: "p = (x, y)" by (cases p)
  show ?case using 2 a.read_push [of x pre "pb [] y @ post"] b.read_push [of y "pre @ pa [] x" post]
    by (simp add: p pair_body read_pair_def)
next
  case (3 p k pre)
  obtain x y where p: "p = (x, y)" by (cases p)
  show ?case
  proof (cases "k < length (pa [] x)")
    case True
    then show ?thesis using 3 a.read_cut [of x k pre] by (auto simp: p pair_body read_pair_def)
  next
    case False
    let ?k = "k - length (pa [] x)"
    have t: "take k (push_pair pa pb [] p) = pa [] x @ take ?k (pb [] y)" using False by (simp add: p pair_body)
    have fit: "slice_ok (pre @ pa [] x @ take ?k (pb [] y))" using 3 unfolding t by simp
    have l: "?k < length (pb [] y)" using 3(2) False by (simp add: p pair_body)
    show ?thesis
      using 3 a.read_push [of x pre "take ?k (pb [] y)"] b.read_cut [OF _ l, of "pre @ pa [] x"] False fit
      unfolding t by (auto simp: p pair_body read_pair_def)
  qed
qed

end

context packed
begin

lemma counted_body: "push_counted push out xs = out @ push_u32 [] (of_nat (length xs)) @ foldl push [] xs"
  using foldl_push [of "push_u32 out (of_nat (length xs))" xs] by (simp add: push_counted_def push_u32_def)

lemma packed_counted: "packed (push_counted push) (read_counted read) (\<lambda>xs. len_ok (length xs) \<and> (\<forall>x\<in>set xs. ok x))"
proof (standard, goal_cases)
  case (1 out xs)
  then show ?case using counted_body [of out xs] counted_body [of "[]" xs] by simp
next
  case (2 xs pre post)
  let ?n = "push_u32 [] (of_nat (length xs))"
  have "pre @ push_counted push [] xs @ post = pre @ ?n @ foldl push [] xs @ post" by (simp add: counted_body)
  then have fit: "slice_ok (pre @ ?n @ foldl push [] xs @ post)" using 2(2) by (rule subst)
  have "read_u32 (pre @ ?n @ foldl push [] xs @ post) (length pre) = Inr (of_nat (length xs), length pre + length ?n)"
    by (rule pk_u32.read_push [OF TrueI fit])
  moreover have "read_n read (length xs) ((pre @ ?n) @ foldl push [] xs @ post) (length (pre @ ?n))
      = Inr (xs, length (pre @ ?n) + length (foldl push [] xs))"
    by (rule read_n_push) (use 2 in \<open>simp_all add: counted_body\<close>)
  ultimately show ?case using 2 unat_len [of "length xs"] by (simp add: counted_body read_counted_def)
next
  case (3 xs k pre)
  let ?n = "push_u32 [] (of_nat (length xs))" and ?k = "k - length (push_u32 [] (of_nat (length xs)))"
  show ?case
  proof (cases "k < length ?n")
    case True
    have "\<exists>why. read_u32 (pre @ take k ?n) (length pre) = Inl (Corrupt why)"
      by (rule pk_u32.read_cut [OF TrueI True]) (use 3 True in \<open>simp add: counted_body\<close>)
    moreover have "take k (push_counted push [] xs) = take k ?n" using True by (simp add: counted_body)
    ultimately show ?thesis by (auto simp: read_counted_def)
  next
    case False
    have t: "take k (push_counted push [] xs) = ?n @ take ?k (foldl push [] xs)" using False by (simp add: counted_body)
    have fit: "slice_ok (pre @ ?n @ take ?k (foldl push [] xs))" using 3(3) unfolding t .
    have "read_u32 (pre @ ?n @ take ?k (foldl push [] xs)) (length pre) = Inr (of_nat (length xs), length pre + length ?n)"
      by (rule pk_u32.read_push [OF TrueI fit])
    moreover have "\<exists>why. read_n read (length xs) ((pre @ ?n) @ take ?k (foldl push [] xs)) (length (pre @ ?n)) = Inl (Corrupt why)"
    proof (rule read_n_cut)
      show "\<forall>x\<in>set xs. ok x" using 3(1) by simp
      show "?k < length (foldl push [] xs)" using 3(2) False by (simp add: counted_body)
      show "slice_ok ((pre @ ?n) @ take ?k (foldl push [] xs))" using fit by simp
    qed
    ultimately show ?thesis using 3(1) unat_len [of "length xs"] unfolding t by (auto simp: read_counted_def)
  qed
qed

end

text \<open>A format read through a change of representation.\<close>

definition read_map :: "('a \<Rightarrow> 'b) \<Rightarrow> 'a reader \<Rightarrow> 'b reader" where
  "read_map f rd src pos = and_then (rd src pos) (\<lambda>(x, pos). Inr (f x, pos))"

context packed
begin

lemma packed_map:
  assumes "\<And>y. okb y \<Longrightarrow> ok (g y) \<and> f (g y) = y"
  shows "packed (\<lambda>out y. push out (g y)) (read_map f read) okb"
proof (standard, goal_cases)
  case (1 out y)
  show ?case by (rule push_appends)
next
  case (2 y pre post)
  then show ?case using read_push [of "g y" pre post] assms by (simp add: read_map_def)
next
  case (3 y k pre)
  then obtain why where "read (pre @ take k (push [] (g y))) (length pre) = Inl (Corrupt why)"
    using read_cut [of "g y" k pre] assms by blast
  then show ?case by (simp add: read_map_def)
qed

end

end
