(* ===== verification/Topology.thy ===== *)
theory Topology
  imports Pack "HOL-Library.Finite_Map"
begin

text \<open>
  Typed adjacency (\<open>crates/core-storage/src/topology.rs\<close>): per edge type, direction and vertex a sorted
  block of neighbours and an unsorted insert buffer, with the tombstones of deleted base edges. A
  \<open>HashMap\<close> is a finite map, a \<open>BTreeSet\<close> a finite set; borrowing and copying a neighbour list are
  not told apart. A call that can panic returns an \<open>option\<close>. The edge count is a \<open>u64\<close> that wraps.
\<close>

datatype direction = Out | In

datatype remove_edge_outcome = RemovedFromOverlay | TombstonedBase

definition INSERT_BUFFER :: nat where "INSERT_BUFFER = 32"

section \<open>Neighbour lists\<close>

record adj_list =
  frozen :: "u32 list"
  delta :: "u32 list"

definition al_empty :: adj_list where "al_empty = \<lparr> frozen = [], delta = [] \<rparr>"

definition al_contains :: "adj_list \<Rightarrow> u32 \<Rightarrow> bool" where
  "al_contains a v \<longleftrightarrow> (case binary_search (frozen a) v of Found _ \<Rightarrow> True | Missing _ \<Rightarrow> v \<in> set (delta a))"

fun merge_loop :: "u32 list \<Rightarrow> u32 list \<Rightarrow> u32 list" where
  "merge_loop (x # xs) (y # ys) =
     (if x < y then x # merge_loop xs (y # ys)
      else if y < x then y # merge_loop (x # xs) ys
      else x # merge_loop xs ys)"
| "merge_loop xs ys = xs @ ys"

definition merge_sorted_unique :: "u32 list \<Rightarrow> u32 list \<Rightarrow> u32 list" where
  "merge_sorted_unique fr de =
     (let extra = sort_dedup de
      in if fr = [] then extra else if extra = [] then fr else merge_loop fr extra)"

definition al_flush :: "adj_list \<Rightarrow> adj_list" where
  "al_flush a =
     (if delta a = [] then a
      else if frozen a = [] then \<lparr> frozen = sort_dedup (delta a), delta = [] \<rparr>
      else \<lparr> frozen = merge_sorted_unique (frozen a) (delta a), delta = [] \<rparr>)"

definition al_push :: "adj_list \<Rightarrow> u32 \<Rightarrow> adj_list" where
  "al_push a v =
     (let a = a \<lparr> delta := delta a @ [v] \<rparr>
      in if length (delta a) > INSERT_BUFFER then al_flush a else a)"

definition al_is_empty :: "adj_list \<Rightarrow> bool" where
  "al_is_empty a \<longleftrightarrow> frozen a = [] \<and> delta a = []"

definition al_merged :: "adj_list \<Rightarrow> u32 list" where
  "al_merged a = (if delta a = [] then frozen a else merge_sorted_unique (frozen a) (delta a))"

text \<open>\<open>Iterator::position\<close>.\<close>

fun position :: "('a \<Rightarrow> bool) \<Rightarrow> 'a list \<Rightarrow> nat option" where
  "position p [] = None"
| "position p (x # xs) = (if p x then Some 0 else map_option Suc (position p xs))"

definition al_remove :: "adj_list \<Rightarrow> u32 \<Rightarrow> bool \<times> adj_list" where
  "al_remove a v =
     (case binary_search (frozen a) v of
        Found pos \<Rightarrow> (True, a \<lparr> frozen := take pos (frozen a) @ drop (Suc pos) (frozen a) \<rparr>)
      | Missing _ \<Rightarrow>
          (case position (\<lambda>x. x = v) (delta a) of
             Some pos \<Rightarrow> (True, a \<lparr> delta := the (swap_remove pos (delta a)) \<rparr>)
           | None \<Rightarrow> (False, a)))"

section \<open>The topology\<close>

record typed_adjacency =
  ta_out :: "(u32, adj_list) fmap"
  ta_inn :: "(u32, adj_list) fmap"

type_synonym tombstones = "(u32, (u32, u32 fset) fmap) fmap"

record topology =
  by_type :: "(u32, typed_adjacency) fmap"
  edge_count :: u64
  out_tombstones :: tombstones
  in_tombstones :: tombstones

definition topo_new :: topology where
  "topo_new = \<lparr> by_type = fmempty, edge_count = 0, out_tombstones = fmempty, in_tombstones = fmempty \<rparr>"

text \<open>\<open>HashMap::entry(k).or_default()\<close>: the value at the key, or the default.\<close>

definition entry_or :: "'v \<Rightarrow> ('k, 'v) fmap \<Rightarrow> 'k \<Rightarrow> 'v" where
  "entry_or d m k = (case fmlookup m k of Some v \<Rightarrow> v | None \<Rightarrow> d)"

definition ta_empty :: typed_adjacency where "ta_empty = \<lparr> ta_out = fmempty, ta_inn = fmempty \<rparr>"

definition add_edge :: "topology \<Rightarrow> u32 \<Rightarrow> u32 \<Rightarrow> u32 \<Rightarrow> (bool \<times> topology) option" where
  "add_edge t etype src dst =
     (let adj = entry_or ta_empty (by_type t) etype;
          dsts = entry_or al_empty (ta_out adj) src
      in if al_contains dsts dst
         then Some (False, t \<lparr> by_type := fmupd etype (adj \<lparr> ta_out := fmupd src dsts (ta_out adj) \<rparr>) (by_type t) \<rparr>)
         else
           let srcs = entry_or al_empty (ta_inn adj) dst
           in if al_contains srcs src then None
              else Some (True, t \<lparr>
                by_type := fmupd etype \<lparr> ta_out = fmupd src (al_push dsts dst) (ta_out adj),
                                         ta_inn = fmupd dst (al_push srcs src) (ta_inn adj) \<rparr> (by_type t),
                edge_count := edge_count t + 1 \<rparr>))"

definition adj_list_of :: "topology \<Rightarrow> u32 \<Rightarrow> direction \<Rightarrow> u32 \<Rightarrow> adj_list option" where
  "adj_list_of t etype dir v =
     (case fmlookup (by_type t) etype of
        None \<Rightarrow> None
      | Some adj \<Rightarrow> (case dir of Out \<Rightarrow> fmlookup (ta_out adj) v | In \<Rightarrow> fmlookup (ta_inn adj) v))"

definition neighbors :: "topology \<Rightarrow> u32 \<Rightarrow> direction \<Rightarrow> u32 \<Rightarrow> u32 list" where
  "neighbors t etype dir v = (case adj_list_of t etype dir v of None \<Rightarrow> [] | Some n \<Rightarrow> al_merged n)"

definition degree :: "topology \<Rightarrow> u32 \<Rightarrow> direction \<Rightarrow> u32 \<Rightarrow> nat" where
  "degree t etype dir v = length (neighbors t etype dir v)"

definition adj_is_empty :: "topology \<Rightarrow> u32 \<Rightarrow> direction \<Rightarrow> u32 \<Rightarrow> bool" where
  "adj_is_empty t etype dir v \<longleftrightarrow> (case adj_list_of t etype dir v of None \<Rightarrow> True | Some a \<Rightarrow> al_is_empty a)"

definition tombs_for :: "tombstones \<Rightarrow> u32 \<Rightarrow> u32 \<Rightarrow> u32 fset option" where
  "tombs_for m etype v = (case fmlookup m etype of None \<Rightarrow> None | Some vs \<Rightarrow> fmlookup vs v)"

definition out_tombstones_for :: "topology \<Rightarrow> u32 \<Rightarrow> u32 \<Rightarrow> u32 fset option" where
  "out_tombstones_for t etype src = tombs_for (out_tombstones t) etype src"

definition in_tombstones_for :: "topology \<Rightarrow> u32 \<Rightarrow> u32 \<Rightarrow> u32 fset option" where
  "in_tombstones_for t etype dst = tombs_for (in_tombstones t) etype dst"

definition tombstones_are_empty :: "topology \<Rightarrow> u32 \<Rightarrow> direction \<Rightarrow> u32 \<Rightarrow> bool" where
  "tombstones_are_empty t etype dir v \<longleftrightarrow>
     (case (case dir of Out \<Rightarrow> out_tombstones_for t etype v | In \<Rightarrow> in_tombstones_for t etype v) of
        None \<Rightarrow> True | Some s \<Rightarrow> s = {||})"

definition tombstone_count :: "topology \<Rightarrow> u64" where
  "tombstone_count t =
     (\<Sum>etype\<leftarrow>sorted_list_of_fset (fmdom (out_tombstones t)).
        let m = the (fmlookup (out_tombstones t) etype)
        in \<Sum>v\<leftarrow>sorted_list_of_fset (fmdom m). of_nat (fcard (the (fmlookup m v))))"

definition etypes :: "topology \<Rightarrow> u32 list" where
  "etypes t = sorted_list_of_fset (fmdom (by_type t))"

definition all_edges :: "topology \<Rightarrow> (u32 \<times> u32 \<times> u32) list" where
  "all_edges t =
     concat (map (\<lambda>etype. let adj = the (fmlookup (by_type t) etype) in
       concat (map (\<lambda>src. map (\<lambda>dst. (etype, src, dst)) (al_merged (the (fmlookup (ta_out adj) src))))
         (sorted_list_of_fset (fmdom (ta_out adj)))))
       (etypes t))"

definition remove_overlay_edge :: "topology \<Rightarrow> u32 \<Rightarrow> u32 \<Rightarrow> u32 \<Rightarrow> (bool \<times> topology) option" where
  "remove_overlay_edge t etype src dst =
     (case fmlookup (by_type t) etype of None \<Rightarrow> Some (False, t)
      | Some adj \<Rightarrow>
         (case fmlookup (ta_out adj) src of None \<Rightarrow> Some (False, t)
          | Some dsts \<Rightarrow>
             (case al_remove dsts dst of (False, _) \<Rightarrow> Some (False, t)
              | (True, dsts') \<Rightarrow>
                 (case fmlookup (ta_inn adj) dst of None \<Rightarrow> None
                  | Some srcs \<Rightarrow>
                     (case al_remove srcs src of (False, _) \<Rightarrow> None
                      | (True, srcs') \<Rightarrow>
                          Some (True, t \<lparr>
                            by_type := fmupd etype \<lparr> ta_out = fmupd src dsts' (ta_out adj),
                                                     ta_inn = fmupd dst srcs' (ta_inn adj) \<rparr> (by_type t),
                            edge_count := edge_count t - 1 \<rparr>))))))"

definition add_tomb :: "tombstones \<Rightarrow> u32 \<Rightarrow> u32 \<Rightarrow> u32 \<Rightarrow> tombstones" where
  "add_tomb m etype v w =
     (let vs = entry_or fmempty m etype
      in fmupd etype (fmupd v (finsert w (entry_or {||} vs v)) vs) m)"

definition remove_edge :: "topology \<Rightarrow> u32 \<Rightarrow> u32 \<Rightarrow> u32 \<Rightarrow> (remove_edge_outcome \<times> topology) option" where
  "remove_edge t etype src dst =
     (case remove_overlay_edge t etype src dst of
        None \<Rightarrow> None
      | Some (True, t') \<Rightarrow> Some (RemovedFromOverlay, t')
      | Some (False, t') \<Rightarrow>
          Some (TombstonedBase, t' \<lparr> out_tombstones := add_tomb (out_tombstones t') etype src dst,
                                     in_tombstones := add_tomb (in_tombstones t') etype dst src \<rparr>))"

section \<open>Neighbour lists are sets\<close>

definition al_set :: "adj_list \<Rightarrow> u32 set" where "al_set a = set (frozen a) \<union> set (delta a)"

definition al_ok :: "adj_list \<Rightarrow> bool" where
  "al_ok a \<longleftrightarrow> strict (frozen a) \<and> distinct (delta a) \<and> set (frozen a) \<inter> set (delta a) = {}
     \<and> length (delta a) \<le> INSERT_BUFFER"

lemma set_merge_loop [simp]: "set (merge_loop xs ys) = set xs \<union> set ys"
  by (induction xs ys rule: merge_loop.induct) auto

lemma strict_merge_loop: "strict xs \<Longrightarrow> strict ys \<Longrightarrow> strict (merge_loop xs ys)"
  by (induction xs ys rule: merge_loop.induct) (auto simp: strict_simps)

lemma set_merge_sorted_unique [simp]: "set (merge_sorted_unique fr de) = set fr \<union> set de"
  by (auto simp: merge_sorted_unique_def Let_def dest: arg_cong [where f = set])

lemma strict_merge_sorted_unique: "strict fr \<Longrightarrow> strict (merge_sorted_unique fr de)"
  by (auto simp: merge_sorted_unique_def Let_def intro: strict_merge_loop)

lemma al_empty_props [simp]: "al_set al_empty = {}" "al_ok al_empty"
  by (simp_all add: al_set_def al_ok_def al_empty_def)

lemma al_contains_iff [simp]: "al_ok a \<Longrightarrow> al_contains a v \<longleftrightarrow> v \<in> al_set a"
  using binary_search_Found_iff [of "frozen a" v]
  by (auto simp: al_contains_def al_set_def al_ok_def split: search.splits)

lemma al_flush_props: "al_set (al_flush a) = al_set a" "strict (frozen a) \<Longrightarrow> al_ok (al_flush a) \<or> delta a = []"
  by (auto simp: al_flush_def al_set_def al_ok_def INSERT_BUFFER_def intro: strict_merge_sorted_unique)

lemma al_push_props [simp]:
  assumes "al_ok a" and "v \<notin> al_set a"
  shows "al_set (al_push a v) = insert v (al_set a)" and "al_ok (al_push a v)"
proof -
  let ?b = "a \<lparr> delta := delta a @ [v] \<rparr>"
  show "al_set (al_push a v) = insert v (al_set a)"
    by (simp add: al_push_def Let_def al_flush_props) (auto simp: al_set_def)
  show "al_ok (al_push a v)"
    using al_flush_props(2) [of ?b] assms by (auto simp: al_push_def Let_def al_ok_def al_set_def)
qed

lemma al_merged_eq: "al_ok a \<Longrightarrow> al_merged a = sorted_list_of_set (al_set a)"
proof (rule strict_set_eqI)
  assume ok: "al_ok a"
  then show "strict (al_merged a)" by (auto simp: al_merged_def al_ok_def intro: strict_merge_sorted_unique)
  show "strict (sorted_list_of_set (al_set a))" by (simp add: al_set_def)
  show "set (al_merged a) = set (sorted_list_of_set (al_set a))" by (simp add: al_merged_def al_set_def)
qed

lemma position_Some: "position p xs = Some i \<Longrightarrow> i < length xs \<and> p (xs ! i)"
  by (induction xs arbitrary: i) (auto split: if_splits)

lemma position_None_iff: "position p xs = None \<longleftrightarrow> (\<forall>x\<in>set xs. \<not> p x)"
  by (induction xs) auto

lemma set_remove_nth: "distinct xs \<Longrightarrow> i < length xs \<Longrightarrow> set (take i xs @ drop (Suc i) xs) = set xs - {xs ! i}"
  using id_take_nth_drop [of i xs] by (metis (no_types) Un_insert_right distinct_append Diff_insert_absorb Diff_empty
      set_append list.simps(15) not_distinct_conv_prefix Un_iff insert_iff disjoint_insert(1) distinct.simps(2) Un_commute)

lemma swap_remove_props:
  assumes "distinct xs" and "i < length xs"
  shows "swap_remove i xs = Some (butlast (xs[i := last xs]))"
    and "set (butlast (xs[i := last xs])) = set xs - {xs ! i}" and "distinct (butlast (xs[i := last xs]))"
proof -
  show "swap_remove i xs = Some (butlast (xs[i := last xs]))" using assms(2) by (simp add: swap_remove_def)
  obtain ys y where xs: "xs = ys @ [y]" using assms(2) by (metis append_butlast_last_id list.size(3) not_less_zero)
  have "set (butlast (xs[i := last xs])) = set xs - {xs ! i} \<and> distinct (butlast (xs[i := last xs]))"
  proof (cases "i = length ys")
    case True
    then show ?thesis using assms(1) xs by (auto simp: list_update_append)
  next
    case False
    then have i: "i < length ys" using assms(2) xs by simp
    then have b: "butlast (xs[i := last xs]) = ys[i := y]" using xs by (simp add: list_update_append)
    have "set (ys[i := y]) = insert y (set ys - {ys ! i})"
      using assms(1) xs i by (intro set_update_distinct) simp_all
    moreover have "y \<notin> set ys" "distinct ys" using assms(1) xs by auto
    moreover have "xs ! i = ys ! i" using xs i by (simp add: nth_append)
    moreover have "ys ! i \<noteq> y" using \<open>y \<notin> set ys\<close> i nth_mem by blast
    ultimately show ?thesis unfolding b using xs i by (auto simp: distinct_list_update)
  qed
  then show "set (butlast (xs[i := last xs])) = set xs - {xs ! i}" "distinct (butlast (xs[i := last xs]))" by auto
qed

lemma strict_remove_nth: "strict xs \<Longrightarrow> strict (take i xs @ drop (Suc i) xs)"
proof (cases "i < length xs")
  case True
  assume "strict xs"
  then have "strict (take i xs @ xs ! i # drop (Suc i) xs)" using id_take_nth_drop [OF True] by simp
  then show ?thesis by (auto simp: strict_simps)
qed simp

lemma al_remove_props:
  assumes "al_ok a"
  shows "fst (al_remove a v) \<longleftrightarrow> v \<in> al_set a" and "al_set (snd (al_remove a v)) = al_set a - {v}"
    and "al_ok (snd (al_remove a v))"
proof -
  from assms have st: "strict (frozen a)" and di: "distinct (delta a)" and disj: "set (frozen a) \<inter> set (delta a) = {}"
    and le: "length (delta a) \<le> INSERT_BUFFER" by (auto simp: al_ok_def)
  have "(fst (al_remove a v) \<longleftrightarrow> v \<in> al_set a) \<and> al_set (snd (al_remove a v)) = al_set a - {v} \<and> al_ok (snd (al_remove a v))"
  proof (cases "binary_search (frozen a) v")
    case (Found i)
    have i: "i < length (frozen a)" "frozen a ! i = v" using binary_search_Found [OF Found strict_sorted [OF st]] by auto
    have v: "v \<in> set (frozen a)" using i nth_mem by blast
    have s: "set (take i (frozen a) @ drop (Suc i) (frozen a)) = set (frozen a) - {v}"
      using set_remove_nth [OF strict_distinct [OF st] i(1)] i(2) by simp
    show ?thesis using Found v s disj di le strict_remove_nth [OF st, of i] by (auto simp: al_remove_def al_set_def al_ok_def)
  next
    case (Missing j)
    have v: "v \<notin> set (frozen a)" using binary_search_Found_iff [OF st, of v] Missing by auto
    show ?thesis
    proof (cases "position (\<lambda>x. x = v) (delta a)")
      case None
      then have "v \<notin> set (delta a)" using position_None_iff [of "\<lambda>x. x = v" "delta a"] by auto
      moreover have "al_remove a v = (False, a)" using Missing None by (simp add: al_remove_def)
      ultimately show ?thesis using v assms by (auto simp: al_set_def)
    next
      case (Some i)
      then have i: "i < length (delta a)" "delta a ! i = v" using position_Some [OF Some] by auto
      note sw = swap_remove_props [OF di i(1)]
      have "v \<in> set (delta a)" using i nth_mem by blast
      then show ?thesis using Missing Some v st disj le sw i(2) by (auto simp: al_remove_def al_set_def al_ok_def)
    qed
  qed
  then show "fst (al_remove a v) \<longleftrightarrow> v \<in> al_set a" "al_set (snd (al_remove a v)) = al_set a - {v}"
    "al_ok (snd (al_remove a v))" by auto
qed

section \<open>The invariant\<close>

text \<open>The neighbours held for a vertex, the edges of the overlay and the tombstones, as sets.\<close>

definition nbrs :: "topology \<Rightarrow> u32 \<Rightarrow> direction \<Rightarrow> u32 \<Rightarrow> u32 set" where
  "nbrs t e dir v = (case adj_list_of t e dir v of None \<Rightarrow> {} | Some a \<Rightarrow> al_set a)"

definition edges :: "topology \<Rightarrow> (u32 \<times> u32 \<times> u32) set" where
  "edges t = {(e, s, d). d \<in> nbrs t e Out s}"

definition tomb_set :: "tombstones \<Rightarrow> u32 \<Rightarrow> u32 \<Rightarrow> u32 set" where
  "tomb_set m e v = (case tombs_for m e v of None \<Rightarrow> {} | Some s \<Rightarrow> fset s)"

definition tombs :: "topology \<Rightarrow> (u32 \<times> u32 \<times> u32) set" where
  "tombs t = {(e, s, d). d \<in> tomb_set (out_tombstones t) e s}"

definition lists_ok :: "topology \<Rightarrow> bool" where
  "lists_ok t \<longleftrightarrow> (\<forall>e dir v a. adj_list_of t e dir v = Some a \<longrightarrow> al_ok a)"

definition topo_ok :: "topology \<Rightarrow> bool" where
  "topo_ok t \<longleftrightarrow> lists_ok t
     \<and> (\<forall>e s d. d \<in> nbrs t e Out s \<longleftrightarrow> s \<in> nbrs t e In d)
     \<and> edge_count t = of_nat (card (edges t))
     \<and> (\<forall>e s d. d \<in> tomb_set (out_tombstones t) e s \<longleftrightarrow> s \<in> tomb_set (in_tombstones t) e d)"

lemma finite_edges [simp]: "finite (edges t)" "finite (tombs t)"
  by (rule finite)+

lemma mem_edges [simp]: "(e, s, d) \<in> edges t \<longleftrightarrow> d \<in> nbrs t e Out s"
  by (simp add: edges_def)

lemma entry_out: "entry_or al_empty (ta_out (entry_or ta_empty (by_type t) e)) s
    = (case adj_list_of t e Out s of None \<Rightarrow> al_empty | Some a \<Rightarrow> a)"
  by (auto simp: entry_or_def adj_list_of_def ta_empty_def split: option.split)

lemma entry_inn: "entry_or al_empty (ta_inn (entry_or ta_empty (by_type t) e)) s
    = (case adj_list_of t e In s of None \<Rightarrow> al_empty | Some a \<Rightarrow> a)"
  by (auto simp: entry_or_def adj_list_of_def ta_empty_def split: option.split)

lemma held_list:
  assumes "lists_ok t"
  shows "al_ok (case adj_list_of t e dir v of None \<Rightarrow> al_empty | Some a \<Rightarrow> a)"
    and "al_set (case adj_list_of t e dir v of None \<Rightarrow> al_empty | Some a \<Rightarrow> a) = nbrs t e dir v"
  using assms by (auto simp: lists_ok_def nbrs_def split: option.split)

text \<open>What a replaced pair of lists changes.\<close>

definition put_lists :: "topology \<Rightarrow> u32 \<Rightarrow> u32 \<Rightarrow> adj_list \<Rightarrow> u32 \<Rightarrow> adj_list \<Rightarrow> u64 \<Rightarrow> topology" where
  "put_lists t e s x d y n = t \<lparr>
     by_type := fmupd e \<lparr> ta_out = fmupd s x (ta_out (entry_or ta_empty (by_type t) e)),
                          ta_inn = fmupd d y (ta_inn (entry_or ta_empty (by_type t) e)) \<rparr> (by_type t),
     edge_count := n \<rparr>"

lemma put_lists_sel [simp]: "edge_count (put_lists t e s x d y n) = n"
  "out_tombstones (put_lists t e s x d y n) = out_tombstones t" "in_tombstones (put_lists t e s x d y n) = in_tombstones t"
  by (simp_all add: put_lists_def)

lemma adj_list_of_upd:
  "adj_list_of (put_lists t e s x d y n) e' dir v = (if e' = e \<and> dir = Out \<and> v = s then Some x
      else if e' = e \<and> dir = In \<and> v = d then Some y else adj_list_of t e' dir v)"
  by (auto simp: put_lists_def adj_list_of_def entry_or_def ta_empty_def split: option.split direction.split)

lemma nbrs_upd:
  "nbrs (put_lists t e s x d y n) e' dir v = (if e' = e \<and> dir = Out \<and> v = s then al_set x
      else if e' = e \<and> dir = In \<and> v = d then al_set y else nbrs t e' dir v)"
  by (simp add: nbrs_def adj_list_of_upd)

lemma lists_ok_upd: "lists_ok t \<Longrightarrow> al_ok x \<Longrightarrow> al_ok y \<Longrightarrow> lists_ok (put_lists t e s x d y n)"
  by (auto simp: lists_ok_def adj_list_of_upd split: if_splits)

lemma fmupd_same: "fmlookup m k = Some v \<Longrightarrow> fmupd k v m = m"
  by (rule fmap_ext) auto

lemma add_edge_correct:
  assumes "topo_ok t"
  shows "\<exists>t'. add_edge t e s d = Some ((e, s, d) \<notin> edges t, t') \<and> topo_ok t'
    \<and> edges t' = insert (e, s, d) (edges t) \<and> tombs t' = tombs t"
proof (cases "d \<in> nbrs t e Out s")
  case True
  let ?adj = "entry_or ta_empty (by_type t) e" and ?l = "entry_or al_empty (ta_out (entry_or ta_empty (by_type t) e)) s"
  have ok: "lists_ok t" using assms by (simp add: topo_ok_def)
  note l = held_list [OF ok, of e Out s, folded entry_out]
  from True obtain a where a: "adj_list_of t e Out s = Some a" by (auto simp: nbrs_def split: option.splits)
  then have "?l = a" unfolding entry_out by simp
  moreover from a have "fmlookup (by_type t) e = Some ?adj" "fmlookup (ta_out ?adj) s = Some a"
    by (auto simp: adj_list_of_def entry_or_def split: option.splits)
  ultimately have "fmupd e (?adj \<lparr> ta_out := fmupd s ?l (ta_out ?adj) \<rparr>) (by_type t) = by_type t"
    by (simp add: fmupd_same)
  then have "add_edge t e s d = Some (False, t)"
    using True l by (simp add: add_edge_def Let_def)
  then show ?thesis using True assms by (auto simp: insert_absorb)
next
  case False
  have ok: "lists_ok t" and sy: "\<And>e s d. d \<in> nbrs t e Out s \<longleftrightarrow> s \<in> nbrs t e In d"
    and cnt: "edge_count t = of_nat (card (edges t))" using assms by (auto simp: topo_ok_def)
  let ?x = "entry_or al_empty (ta_out (entry_or ta_empty (by_type t) e)) s"
  let ?y = "entry_or al_empty (ta_inn (entry_or ta_empty (by_type t) e)) d"
  note x = held_list [OF ok, of e Out s, folded entry_out] and y = held_list [OF ok, of e In d, folded entry_inn]
  have nx: "d \<notin> al_set ?x" and ny: "s \<notin> al_set ?y" using False sy x y by auto
  let ?t = "put_lists t e s (al_push ?x d) d (al_push ?y s) (edge_count t + 1)"
  have t': "add_edge t e s d = Some (True, ?t)"
    using nx ny x(1) y(1) by (simp add: add_edge_def Let_def put_lists_def)
  have nb: "nbrs ?t e' dir v = (if e' = e \<and> dir = Out \<and> v = s then insert d (nbrs t e Out s)
      else if e' = e \<and> dir = In \<and> v = d then insert s (nbrs t e In d) else nbrs t e' dir v)" for e' dir v
    using x y nx ny by (simp add: nbrs_upd)
  have ed: "edges ?t = insert (e, s, d) (edges t)" by (auto simp: edges_def nb split: if_splits)
  have "topo_ok ?t"
    unfolding topo_ok_def
  proof (intro conjI)
    show "lists_ok ?t" using ok x y nx ny by (intro lists_ok_upd) simp_all
    show "\<forall>e s d. d \<in> nbrs ?t e Out s \<longleftrightarrow> s \<in> nbrs ?t e In d"
      using sy by (auto simp: nb)
    show "edge_count ?t = of_nat (card (edges ?t))" unfolding ed put_lists_sel using False by (simp add: cnt)
    show "\<forall>e s d. d \<in> tomb_set (out_tombstones ?t) e s \<longleftrightarrow> s \<in> tomb_set (in_tombstones ?t) e d"
      using assms by (simp add: topo_ok_def)
  qed
  then show ?thesis using t' ed False by (simp add: tombs_def)
qed

lemma remove_overlay_correct:
  assumes "topo_ok t"
  shows "\<exists>t'. remove_overlay_edge t e s d = Some ((e, s, d) \<in> edges t, t') \<and> topo_ok t'
    \<and> edges t' = edges t - {(e, s, d)} \<and> out_tombstones t' = out_tombstones t \<and> in_tombstones t' = in_tombstones t
    \<and> ((e, s, d) \<notin> edges t \<longrightarrow> t' = t)"
proof (cases "d \<in> nbrs t e Out s")
  case False
  have ok: "lists_ok t" using assms by (simp add: topo_ok_def)
  have "remove_overlay_edge t e s d = Some (False, t)"
  proof (cases "adj_list_of t e Out s")
    case None
    then show ?thesis by (auto simp: adj_list_of_def remove_overlay_edge_def split: option.splits)
  next
    case (Some a)
    then have "al_ok a" "d \<notin> al_set a" using ok False by (auto simp: lists_ok_def nbrs_def)
    then have "\<exists>b. al_remove a d = (False, b)" using al_remove_props(1) [of a d] by (metis prod.collapse)
    then show ?thesis using Some by (auto simp: adj_list_of_def remove_overlay_edge_def split: option.splits)
  qed
  then show ?thesis using False assms by simp
next
  case True
  have ok: "lists_ok t" and sy: "\<And>e s d. d \<in> nbrs t e Out s \<longleftrightarrow> s \<in> nbrs t e In d"
    and cnt: "edge_count t = of_nat (card (edges t))" using assms by (auto simp: topo_ok_def)
  from True obtain x where x: "adj_list_of t e Out s = Some x" "d \<in> al_set x" by (auto simp: nbrs_def split: option.splits)
  from True sy [of d e s] obtain y where y: "adj_list_of t e In d = Some y" "s \<in> al_set y"
    by (auto simp: nbrs_def split: option.splits)
  have okxy: "al_ok x" "al_ok y" using ok x y by (auto simp: lists_ok_def)
  note rx = al_remove_props [OF okxy(1), of d] and ry = al_remove_props [OF okxy(2), of s]
  obtain x' y' where x': "al_remove x d = (True, x')" and y': "al_remove y s = (True, y')"
    using rx(1) ry(1) x y by (metis prod.collapse)
  let ?t = "put_lists t e s x' d y' (edge_count t - 1)"
  have t': "remove_overlay_edge t e s d = Some (True, ?t)"
    using x(1) y(1) x' y' by (auto simp: remove_overlay_edge_def put_lists_def adj_list_of_def entry_or_def split: option.splits)
  have sets: "al_set x' = al_set x - {d}" "al_ok x'" "al_set y' = al_set y - {s}" "al_ok y'"
    using rx ry x' y' by simp_all
  have held: "nbrs t e Out s = al_set x" "nbrs t e In d = al_set y" using x y by (simp_all add: nbrs_def)
  have ed: "edges ?t = edges t - {(e, s, d)}" using held by (auto simp: edges_def nbrs_upd sets split: if_splits)
  have "card (edges t) = Suc (card (edges ?t))" unfolding ed using True by (intro card.remove [symmetric, THEN sym]) simp_all
  then have "of_nat (card (edges t)) = (of_nat (Suc (card (edges ?t))) :: u64)" by (rule arg_cong)
  then have "edge_count t - 1 = of_nat (card (edges ?t))" using cnt by (metis of_nat_Suc add_diff_cancel_left')
  then have cnt': "edge_count ?t = of_nat (card (edges ?t))" by (simp only: put_lists_sel)
  have "topo_ok ?t"
    unfolding topo_ok_def
  proof (intro conjI)
    show "lists_ok ?t" using ok sets by (intro lists_ok_upd) simp_all
    show "\<forall>e s d. d \<in> nbrs ?t e Out s \<longleftrightarrow> s \<in> nbrs ?t e In d" using sy held by (auto simp: nbrs_upd sets)
    show "edge_count ?t = of_nat (card (edges ?t))" by (rule cnt')
    show "\<forall>e s d. d \<in> tomb_set (out_tombstones ?t) e s \<longleftrightarrow> s \<in> tomb_set (in_tombstones ?t) e d"
      using assms by (simp add: topo_ok_def)
  qed
  then show ?thesis using t' ed True by simp
qed

lemma tomb_set_add [simp]: "tomb_set (add_tomb m e v w) e' v' = (if e' = e \<and> v' = v then insert w (tomb_set m e v) else tomb_set m e' v')"
  by (auto simp: tomb_set_def add_tomb_def tombs_for_def Let_def entry_or_def split: option.split)

lemma tomb_upd_inv:
  assumes "topo_ok t"
  shows "topo_ok (t \<lparr> out_tombstones := add_tomb (out_tombstones t) e s d, in_tombstones := add_tomb (in_tombstones t) e d s \<rparr>)"
    and "edges (t \<lparr> out_tombstones := m, in_tombstones := m' \<rparr>) = edges t"
proof -
  have n: "nbrs (t \<lparr> out_tombstones := m, in_tombstones := m' \<rparr>) = nbrs t" for m m'
    by (intro ext) (simp add: nbrs_def adj_list_of_def)
  have l: "lists_ok (t \<lparr> out_tombstones := m, in_tombstones := m' \<rparr>) = lists_ok t" for m m'
    by (simp add: lists_ok_def adj_list_of_def)
  show e: "edges (t \<lparr> out_tombstones := m, in_tombstones := m' \<rparr>) = edges t" for m m' by (simp add: edges_def n)
  show "topo_ok (t \<lparr> out_tombstones := add_tomb (out_tombstones t) e s d, in_tombstones := add_tomb (in_tombstones t) e d s \<rparr>)"
    using assms by (auto simp: topo_ok_def l n e)
qed

lemma remove_edge_correct:
  assumes "topo_ok t"
  shows "\<exists>t'. remove_edge t e s d = Some (if (e, s, d) \<in> edges t then RemovedFromOverlay else TombstonedBase, t') \<and> topo_ok t'
    \<and> edges t' = edges t - {(e, s, d)}
    \<and> tombs t' = (if (e, s, d) \<in> edges t then tombs t else insert (e, s, d) (tombs t))"
proof -
  obtain t1 where t1: "remove_overlay_edge t e s d = Some ((e, s, d) \<in> edges t, t1)" "topo_ok t1"
    "edges t1 = edges t - {(e, s, d)}" "out_tombstones t1 = out_tombstones t" "in_tombstones t1 = in_tombstones t"
    "(e, s, d) \<notin> edges t \<longrightarrow> t1 = t"
    using remove_overlay_correct [OF assms, of e s d] by blast
  show ?thesis
  proof (cases "(e, s, d) \<in> edges t")
    case True
    then show ?thesis using t1 by (simp add: remove_edge_def tombs_def)
  next
    case False
    then show ?thesis using t1 tomb_upd_inv(1) [OF assms, where e = e and s = s and d = d] tomb_upd_inv(2) [OF assms]
      by (auto simp: remove_edge_def tombs_def split: if_splits)
  qed
qed

lemma neighbors_sorted: "topo_ok t \<Longrightarrow> neighbors t e dir v = sorted_list_of_set (nbrs t e dir v)"
  using al_merged_eq by (auto simp: neighbors_def nbrs_def topo_ok_def lists_ok_def split: option.split)

lemma nbrs_edges: "topo_ok t \<Longrightarrow> nbrs t e Out v = {d. (e, v, d) \<in> edges t} \<and> nbrs t e In v = {s. (e, s, v) \<in> edges t}"
  by (auto simp: topo_ok_def)

lemma topo_new_ok: "topo_ok topo_new" "edges topo_new = {}" "tombs topo_new = {}"
  by (simp_all add: topo_ok_def topo_new_def lists_ok_def nbrs_def adj_list_of_def edges_def tombs_def tomb_set_def tombs_for_def case_prod_unfold)

section \<open>Histories\<close>

text \<open>
  The contract of a store of typed edges: a set of edges it holds and a set of edges it marks as
  gone from below. Adding answers whether the edge is new; removing takes it out, or marks it when
  it is not held.
\<close>

datatype edge_op = AddEdge u32 u32 u32 | RemoveEdge u32 u32 u32

fun run_edges :: "('s \<Rightarrow> u32 \<Rightarrow> u32 \<Rightarrow> u32 \<Rightarrow> (bool \<times> 's) option)
    \<Rightarrow> ('s \<Rightarrow> u32 \<Rightarrow> u32 \<Rightarrow> u32 \<Rightarrow> (remove_edge_outcome \<times> 's) option) \<Rightarrow> edge_op list \<Rightarrow> 's \<Rightarrow> 's option" where
  "run_edges ad rm [] t = Some t"
| "run_edges ad rm (AddEdge e s d # ops) t = (case ad t e s d of None \<Rightarrow> None | Some (_, t') \<Rightarrow> run_edges ad rm ops t')"
| "run_edges ad rm (RemoveEdge e s d # ops) t = (case rm t e s d of None \<Rightarrow> None | Some (_, t') \<Rightarrow> run_edges ad rm ops t')"

fun edge_spec :: "edge_op list \<Rightarrow> (u32 \<times> u32 \<times> u32) set \<times> (u32 \<times> u32 \<times> u32) set
    \<Rightarrow> (u32 \<times> u32 \<times> u32) set \<times> (u32 \<times> u32 \<times> u32) set" where
  "edge_spec [] st = st"
| "edge_spec (AddEdge e s d # ops) (E, T) = edge_spec ops (insert (e, s, d) E, T)"
| "edge_spec (RemoveEdge e s d # ops) (E, T) =
     edge_spec ops (E - {(e, s, d)}, if (e, s, d) \<in> E then T else insert (e, s, d) T)"

locale edge_store =
  fixes inv :: "'s \<Rightarrow> bool" and held :: "'s \<Rightarrow> (u32 \<times> u32 \<times> u32) set" and gone :: "'s \<Rightarrow> (u32 \<times> u32 \<times> u32) set"
    and add :: "'s \<Rightarrow> u32 \<Rightarrow> u32 \<Rightarrow> u32 \<Rightarrow> (bool \<times> 's) option"
    and rm :: "'s \<Rightarrow> u32 \<Rightarrow> u32 \<Rightarrow> u32 \<Rightarrow> (remove_edge_outcome \<times> 's) option"
  assumes add_law: "inv t \<Longrightarrow> \<exists>t'. add t e s d = Some ((e, s, d) \<notin> held t, t') \<and> inv t'
      \<and> held t' = insert (e, s, d) (held t) \<and> gone t' = gone t"
    and rm_law: "inv t \<Longrightarrow> \<exists>t'. rm t e s d = Some (if (e, s, d) \<in> held t then RemovedFromOverlay else TombstonedBase, t') \<and> inv t'
      \<and> held t' = held t - {(e, s, d)}
      \<and> gone t' = (if (e, s, d) \<in> held t then gone t else insert (e, s, d) (gone t))"
begin

lemma run_spec: "inv t \<Longrightarrow> \<exists>t'. run_edges add rm ops t = Some t' \<and> inv t' \<and> (held t', gone t') = edge_spec ops (held t, gone t)"
proof (induction ops arbitrary: t)
  case (Cons a ops)
  show ?case
  proof (cases a)
    case (AddEdge e s d)
    obtain t' where "add t e s d = Some ((e, s, d) \<notin> held t, t')" "inv t'" "held t' = insert (e, s, d) (held t)" "gone t' = gone t"
      using add_law [OF Cons.prems, of e s d] by blast
    then show ?thesis using Cons.IH [of t'] AddEdge by simp
  next
    case (RemoveEdge e s d)
    obtain t' where "rm t e s d = Some (if (e, s, d) \<in> held t then RemovedFromOverlay else TombstonedBase, t')" "inv t'"
      "held t' = held t - {(e, s, d)}" "gone t' = (if (e, s, d) \<in> held t then gone t else insert (e, s, d) (gone t))"
      using rm_law [OF Cons.prems, of e s d] by blast
    then show ?thesis using Cons.IH [of t'] RemoveEdge by simp
  qed
qed simp

end

interpretation tp: edge_store topo_ok edges tombs add_edge remove_edge
  using add_edge_correct remove_edge_correct by unfold_locales blast+

section \<open>Counting and listing\<close>

lemma card_nested:
  assumes "finite D" and "\<And>e. e \<in> D \<Longrightarrow> finite (V e)" and "\<And>e v. e \<in> D \<Longrightarrow> v \<in> V e \<Longrightarrow> finite (F e v)"
  shows "card (SIGMA e:D. SIGMA v:V e. F e v) = (\<Sum>e\<in>D. \<Sum>v\<in>V e. card (F e v))"
  using assms by (simp add: card_SigmaI)

lemma tombs_Sigma: "tombs t = (SIGMA e:fmdom' (out_tombstones t). SIGMA v:fmdom' (the (fmlookup (out_tombstones t) e)).
    fset (the (fmlookup (the (fmlookup (out_tombstones t) e)) v)))"
  by (force simp: tombs_def tomb_set_def tombs_for_def fmlookup_dom'_iff split: option.splits)

lemma sum_list_dom: "(\<Sum>k\<leftarrow>sorted_list_of_fset (fmdom m). f k) = (\<Sum>k\<in>fmdom' m. f k)"
proof -
  have "sum_list (map f (sorted_list_of_fset (fmdom m))) = sum f (set (sorted_list_of_fset (fmdom m)))"
    by (rule sum_list_distinct_conv_sum_set) (simp add: sorted_list_of_fset.rep_eq)
  then show ?thesis by (simp add: sorted_list_of_fset.rep_eq fmdom'_alt_def)
qed

lemma tombstone_count_card: "tombstone_count t = of_nat (card (tombs t))"
proof -
  let ?m = "\<lambda>e. the (fmlookup (out_tombstones t) e)"
  have "tombstone_count t = (\<Sum>e\<in>fmdom' (out_tombstones t). \<Sum>v\<in>fmdom' (?m e). of_nat (fcard (the (fmlookup (?m e) v))))"
    by (simp add: tombstone_count_def Let_def sum_list_dom)
  also have "\<dots> = of_nat (\<Sum>e\<in>fmdom' (out_tombstones t). \<Sum>v\<in>fmdom' (?m e). card (fset (the (fmlookup (?m e) v))))"
    by (simp add: fcard.rep_eq)
  also have "\<dots> = of_nat (card (tombs t))" unfolding tombs_Sigma by (subst card_nested) simp_all
  finally show ?thesis .
qed

lemma edges_Sigma: "edges t = (SIGMA e:fmdom' (by_type t). SIGMA v:fmdom' (ta_out (the (fmlookup (by_type t) e))).
    al_set (the (fmlookup (ta_out (the (fmlookup (by_type t) e))) v)))"
  by (force simp: edges_def nbrs_def adj_list_of_def fmlookup_dom'_iff split: option.splits)

lemma set_sorted_dom: "set (sorted_list_of_fset (fmdom m)) = fmdom' m"
  by (simp add: sorted_list_of_fset.rep_eq fmdom'_alt_def)

lemma out_lists_ok:
  assumes "topo_ok t" and "e \<in> fmdom' (by_type t)" and "v \<in> fmdom' (ta_out (the (fmlookup (by_type t) e)))"
  shows "al_ok (the (fmlookup (ta_out (the (fmlookup (by_type t) e))) v))"
proof -
  have "adj_list_of t e Out v = Some (the (fmlookup (ta_out (the (fmlookup (by_type t) e))) v))"
    using assms(2,3) by (auto simp: adj_list_of_def fmlookup_dom'_iff)
  then show ?thesis using assms(1) unfolding topo_ok_def lists_ok_def by blast
qed

lemma set_nested: "set (concat (map (\<lambda>e. concat (map (\<lambda>v. map (\<lambda>d. (e, v, d)) (M e v)) (V e))) D))
    = (SIGMA e:set D. SIGMA v:set (V e). set (M e v))"
  by auto

lemma all_edges_correct:
  assumes "topo_ok t"
  shows "set (all_edges t) = edges t" and "distinct (all_edges t)"
proof -
  note ok = out_lists_ok [OF assms]
  have m: "set (al_merged (the (fmlookup (ta_out (the (fmlookup (by_type t) e))) v))) = al_set (the (fmlookup (ta_out (the (fmlookup (by_type t) e))) v))"
      "length (al_merged (the (fmlookup (ta_out (the (fmlookup (by_type t) e))) v))) = card (al_set (the (fmlookup (ta_out (the (fmlookup (by_type t) e))) v)))"
    if "e \<in> fmdom' (by_type t)" "v \<in> fmdom' (ta_out (the (fmlookup (by_type t) e)))" for e v
    using al_merged_eq [OF ok [OF that]] by (simp_all add: al_set_def)
  show set: "set (all_edges t) = edges t"
    unfolding edges_Sigma all_edges_def Let_def etypes_def set_nested set_sorted_dom
    by (intro Sigma_cong refl) (rule m(1))
  have "length (all_edges t) = (\<Sum>e\<in>fmdom' (by_type t). \<Sum>v\<in>fmdom' (ta_out (the (fmlookup (by_type t) e))).
      card (al_set (the (fmlookup (ta_out (the (fmlookup (by_type t) e))) v))))"
    by (simp add: all_edges_def Let_def etypes_def length_concat o_def sum_list_dom m)
  also have "\<dots> = card (edges t)" unfolding edges_Sigma by (subst card_nested) (simp_all add: al_set_def)
  finally show "distinct (all_edges t)" using set by (intro card_distinct) simp
qed

text \<open>
  C2: a topology after any history of additions and removals is a set of typed edges. No operation
  panics; a neighbour list, in either direction, is the sorted list of the set's neighbours; the
  degree, the edge count and the listing of all edges agree with it; an addition answers whether the
  edge is new, a removal whether it was held, and an edge removed that is not held is tombstoned in
  both directions and counted once.
\<close>

theorem topology_is_an_edge_set:
  "\<exists>t. run_edges add_edge remove_edge ops topo_new = Some t
    \<and> (\<forall>e v. neighbors t e Out v = sorted_list_of_set {d. (e, v, d) \<in> fst (edge_spec ops ({}, {}))}
        \<and> neighbors t e In v = sorted_list_of_set {s. (e, s, v) \<in> fst (edge_spec ops ({}, {}))}
        \<and> degree t e Out v = card {d. (e, v, d) \<in> fst (edge_spec ops ({}, {}))})
    \<and> edge_count t = of_nat (card (fst (edge_spec ops ({}, {}))))
    \<and> set (all_edges t) = fst (edge_spec ops ({}, {})) \<and> distinct (all_edges t)
    \<and> tombstone_count t = of_nat (card (snd (edge_spec ops ({}, {}))))
    \<and> (\<forall>e s d. map_option fst (add_edge t e s d) = Some ((e, s, d) \<notin> fst (edge_spec ops ({}, {})))
        \<and> map_option fst (remove_edge t e s d)
            = Some (if (e, s, d) \<in> fst (edge_spec ops ({}, {})) then RemovedFromOverlay else TombstonedBase)
        \<and> ((e, s, d) \<in> snd (edge_spec ops ({}, {})) \<longleftrightarrow> (\<exists>ds. out_tombstones_for t e s = Some ds \<and> d |\<in>| ds))
        \<and> ((e, s, d) \<in> snd (edge_spec ops ({}, {})) \<longleftrightarrow> (\<exists>ss. in_tombstones_for t e d = Some ss \<and> s |\<in>| ss)))"
proof -
  obtain t where run: "run_edges add_edge remove_edge ops topo_new = Some t" and ok: "topo_ok t"
    and E: "fst (edge_spec ops ({}, {})) = edges t" and T: "snd (edge_spec ops ({}, {})) = tombs t"
    using tp.run_spec [OF topo_new_ok(1), of ops] topo_new_ok(2,3) by (metis fst_conv snd_conv)
  have nb: "neighbors t e Out v = sorted_list_of_set {d. (e, v, d) \<in> edges t}"
    "neighbors t e In v = sorted_list_of_set {s. (e, s, v) \<in> edges t}" for e v
    using neighbors_sorted [OF ok] nbrs_edges [OF ok] by simp_all
  have deg: "degree t e Out v = card {d. (e, v, d) \<in> edges t}" for e v unfolding degree_def nb by simp
  have add: "map_option fst (add_edge t e s d) = Some ((e, s, d) \<notin> edges t)" for e s d
    using add_edge_correct [OF ok, of e s d] by auto
  have rm: "map_option fst (remove_edge t e s d) = Some (if (e, s, d) \<in> edges t then RemovedFromOverlay else TombstonedBase)" for e s d
    using remove_edge_correct [OF ok, of e s d] by auto
  have out: "(e, s, d) \<in> tombs t \<longleftrightarrow> (\<exists>ds. out_tombstones_for t e s = Some ds \<and> d |\<in>| ds)" for e s d
    by (auto simp: tombs_def tomb_set_def out_tombstones_for_def split: option.splits)
  have inn: "(e, s, d) \<in> tombs t \<longleftrightarrow> (\<exists>ss. in_tombstones_for t e d = Some ss \<and> s |\<in>| ss)" for e s d
    using ok by (auto simp: topo_ok_def tombs_def tomb_set_def in_tombstones_for_def split: option.splits)
  have cnt: "edge_count t = of_nat (card (edges t))" using ok by (simp add: topo_ok_def)
  show ?thesis
    unfolding E T
    by (intro exI [of _ t] conjI allI) (fact run nb deg cnt all_edges_correct [OF ok] tombstone_count_card add rm out inn)+
qed

end
