(* ===== verification/Topology_Pack.thy ===== *)
theory Topology_Pack
  imports Topology
begin

text \<open>
  The packed image of a topology (\<open>Topology::pack\<close>, \<open>Topology::unpack\<close> and their adjacency maps in
  \<open>crates/core-storage/src/topology.rs\<close>). A loop that reads entries and inserts each into a map is
  the read of the entries followed by the insertions, which cannot fail.
\<close>

section \<open>Adjacency maps\<close>

definition pack_adj_map :: "bytes \<Rightarrow> (u32, adj_list) fmap \<Rightarrow> bytes" where
  "pack_adj_map out m =
     (let verts = sorted_list_of_fset (fmdom m)
      in foldl (\<lambda>out v. push_u32s (push_u32 out v) (al_merged (the (fmlookup m v))))
           (push_u32 out (of_nat (length verts))) verts)"

definition insert_entries :: "(u32 \<times> u32 list) list \<Rightarrow> (u32, adj_list) fmap" where
  "insert_entries es = foldl (\<lambda>m (v, fr). fmupd v \<lparr> frozen = fr, delta = [] \<rparr> m) fmempty es"

definition unpack_adj_map :: "(u32, adj_list) fmap reader" where
  "unpack_adj_map = read_map insert_entries (read_counted (read_pair read_u32 read_u32s))"

section \<open>Topologies\<close>

definition topo_pack :: "bytes \<Rightarrow> topology \<Rightarrow> bytes" where
  "topo_pack out t =
     (let ets = etypes t
      in push_u64 (foldl (\<lambda>out et. let adj = the (fmlookup (by_type t) et)
                                   in pack_adj_map (pack_adj_map (push_u32 out et) (ta_out adj)) (ta_inn adj))
                     (push_u32 out (of_nat (length ets))) ets)
           (edge_count t))"

definition insert_types :: "(u32 \<times> (u32, adj_list) fmap \<times> (u32, adj_list) fmap) list \<Rightarrow> (u32, typed_adjacency) fmap" where
  "insert_types es = foldl (\<lambda>m (et, o', i). fmupd et \<lparr> ta_out = o', ta_inn = i \<rparr> m) fmempty es"

definition topo_unpack :: "bytes \<Rightarrow> graph_error + topology \<times> nat" where
  "topo_unpack src =
     read_map (\<lambda>(es, n). \<lparr> by_type = insert_types es, edge_count = n, out_tombstones = fmempty, in_tombstones = fmempty \<rparr>)
       (read_pair (read_counted (read_pair read_u32 (read_pair unpack_adj_map unpack_adj_map))) read_u64) src 0"

section \<open>Adjacency maps read back\<close>

lemma strict_dom: "strict (sorted_list_of_fset (fmdom (m :: ('k::linorder, 'v) fmap)))"
  by (simp add: sorted_list_of_fset.rep_eq)

lemma insert_all:
  assumes "\<And>v. v |\<in>| fmdom m \<Longrightarrow> g v = the (fmlookup m v)"
  shows "foldl (\<lambda>n v. fmupd v (g v) n) fmempty (sorted_list_of_fset (fmdom m)) = m"
proof -
  have look: "fmlookup (foldl (\<lambda>n v. fmupd v (g v) n) n vs) k = (if k \<in> set vs then Some (g k) else fmlookup n k)" for n vs k
    by (induction vs arbitrary: n) auto
  show ?thesis
  proof (rule fmap_ext)
    fix k
    show "fmlookup (foldl (\<lambda>n v. fmupd v (g v) n) fmempty (sorted_list_of_fset (fmdom m))) k = fmlookup m k"
    proof (cases "fmlookup m k")
      case None
      then have "k |\<notin>| fmdom m" by (simp add: fmdom_notI)
      then show ?thesis using None by (simp add: look sorted_list_of_fset.rep_eq)
    next
      case (Some v)
      then have "k |\<in>| fmdom m" by (rule fmdomI)
      then show ?thesis using Some assms [of k] by (simp add: look sorted_list_of_fset.rep_eq)
    qed
  qed
qed

text \<open>Lists with an empty buffer, as \<open>unpack\<close> leaves them.\<close>

definition flushed :: "(u32, adj_list) fmap \<Rightarrow> bool" where
  "flushed m \<longleftrightarrow> (\<forall>v a. fmlookup m v = Some a \<longrightarrow> delta a = [])"

definition map_fits :: "(u32, adj_list) fmap \<Rightarrow> bool" where
  "map_fits m \<longleftrightarrow> len_ok (length (sorted_list_of_fset (fmdom m)))
     \<and> (\<forall>v a. fmlookup m v = Some a \<longrightarrow> len_ok (length (al_merged a)))"

definition entries :: "(u32, adj_list) fmap \<Rightarrow> (u32 \<times> u32 list) list" where
  "entries m = map (\<lambda>v. (v, al_merged (the (fmlookup m v)))) (sorted_list_of_fset (fmdom m))"

lemma insert_entries_entries: "flushed m \<Longrightarrow> insert_entries (entries m) = m"
proof -
  assume fl: "flushed m"
  have "insert_entries (entries m) = foldl (\<lambda>n v. fmupd v \<lparr> frozen = al_merged (the (fmlookup m v)), delta = [] \<rparr> n) fmempty
      (sorted_list_of_fset (fmdom m))"
    by (simp add: insert_entries_def entries_def foldl_map)
  also have "\<dots> = m"
    by (rule insert_all) (use fl in \<open>force simp: flushed_def al_merged_def elim!: fmdomE\<close>)
  finally show ?thesis .
qed

interpretation pk_entry: packed_two push_u32 read_u32 "\<lambda>_. True" push_u32s read_u32s "\<lambda>v. len_ok (length v)"
  by unfold_locales

interpretation pk_entries: packed "push_pair push_u32 push_u32s" "read_pair read_u32 read_u32s" "\<lambda>(x, y). True \<and> len_ok (length y)"
  by (rule pk_entry.packed_pair)

lemma pack_adj_map_entries: "pack_adj_map out m = push_counted (push_pair push_u32 push_u32s) out (entries m)"
  by (simp add: pack_adj_map_def Let_def push_counted_def entries_def foldl_map push_pair_def)

lemma packed_adj_map: "packed pack_adj_map unpack_adj_map (\<lambda>m. flushed m \<and> map_fits m)"
proof -
  have "packed (\<lambda>out m. push_counted (push_pair push_u32 push_u32s) out (entries m)) unpack_adj_map (\<lambda>m. flushed m \<and> map_fits m)"
    unfolding unpack_adj_map_def
  proof (rule packed.packed_map [OF pk_entries.packed_counted])
    fix m :: "(u32, adj_list) fmap"
    assume m: "flushed m \<and> map_fits m"
    then have "\<forall>x\<in>set (entries m). case x of (v, fr) \<Rightarrow> True \<and> len_ok (length fr)"
      by (force simp: entries_def map_fits_def sorted_list_of_fset.rep_eq elim!: fmdomE)
    then show "(len_ok (length (entries m)) \<and> (\<forall>x\<in>set (entries m). case x of (x, y) \<Rightarrow> True \<and> len_ok (length y)))
        \<and> insert_entries (entries m) = m"
      using m insert_entries_entries [of m] by (simp add: entries_def map_fits_def)
  qed
  then show ?thesis by (simp add: pack_adj_map_entries [abs_def])
qed

section \<open>Topologies read back\<close>

definition type_entries :: "topology \<Rightarrow> (u32 \<times> (u32, adj_list) fmap \<times> (u32, adj_list) fmap) list" where
  "type_entries t = map (\<lambda>et. let adj = the (fmlookup (by_type t) et) in (et, ta_out adj, ta_inn adj)) (etypes t)"

definition topo_read :: "topology reader" where
  "topo_read =
     read_map (\<lambda>(es, n). \<lparr> by_type = insert_types es, edge_count = n, out_tombstones = fmempty, in_tombstones = fmempty \<rparr>)
       (read_pair (read_counted (read_pair read_u32 (read_pair unpack_adj_map unpack_adj_map))) read_u64)"

text \<open>The counts of the image fit their prefixes; the keys are \<open>u32\<close>, so only a full map does not.\<close>

definition topo_fits :: "topology \<Rightarrow> bool" where
  "topo_fits t \<longleftrightarrow> len_ok (length (etypes t))
     \<and> (\<forall>e adj. fmlookup (by_type t) e = Some adj \<longrightarrow> map_fits (ta_out adj) \<and> map_fits (ta_inn adj))"

definition topo_flushed :: "topology \<Rightarrow> bool" where
  "topo_flushed t \<longleftrightarrow> out_tombstones t = fmempty \<and> in_tombstones t = fmempty
     \<and> (\<forall>e adj. fmlookup (by_type t) e = Some adj \<longrightarrow> flushed (ta_out adj) \<and> flushed (ta_inn adj))"

interpretation pk_map: packed pack_adj_map unpack_adj_map "\<lambda>m. flushed m \<and> map_fits m"
  by (rule packed_adj_map)

interpretation pk_maps: packed_two pack_adj_map unpack_adj_map "\<lambda>m. flushed m \<and> map_fits m"
    pack_adj_map unpack_adj_map "\<lambda>m. flushed m \<and> map_fits m"
  by unfold_locales

lemma packed_type: "packed (push_pair push_u32 (push_pair pack_adj_map pack_adj_map)) (read_pair read_u32 (read_pair unpack_adj_map unpack_adj_map))
    (\<lambda>(x, p). True \<and> (case p of (a, b) \<Rightarrow> (flushed a \<and> map_fits a) \<and> flushed b \<and> map_fits b))"
  by (intro packed_two.packed_pair packed_two.intro pk_u32.packed_axioms pk_maps.packed_pair)

lemma packed_types: "packed (push_pair (push_counted (push_pair push_u32 (push_pair pack_adj_map pack_adj_map))) push_u64)
    (read_pair (read_counted (read_pair read_u32 (read_pair unpack_adj_map unpack_adj_map))) read_u64)
    (\<lambda>(xs, n). (len_ok (length xs) \<and> (\<forall>x\<in>set xs. case x of (x, p) \<Rightarrow> True \<and> (case p of (a, b) \<Rightarrow> (flushed a \<and> map_fits a) \<and> flushed b \<and> map_fits b)))
       \<and> True)"
  by (intro packed_two.packed_pair packed_two.intro pk_u64.packed_axioms packed.packed_counted packed_type)

lemma topo_pack_entries: "topo_pack out t
    = push_pair (push_counted (push_pair push_u32 (push_pair pack_adj_map pack_adj_map))) push_u64 out (type_entries t, edge_count t)"
  by (simp add: topo_pack_def Let_def push_pair_def push_counted_def type_entries_def foldl_map)

lemma ta_eta: "\<lparr> ta_out = ta_out x, ta_inn = ta_inn x \<rparr> = (x :: typed_adjacency)"
  by (cases x) simp

lemma insert_types_entries: "insert_types (type_entries t) = by_type t"
proof -
  have "insert_types (type_entries t) = foldl (\<lambda>m et. fmupd et (the (fmlookup (by_type t) et)) m) fmempty (etypes t)"
    by (simp add: insert_types_def type_entries_def foldl_map Let_def ta_eta)
  also have "\<dots> = by_type t" unfolding etypes_def by (rule insert_all) simp
  finally show ?thesis .
qed

lemma packed_topo: "packed topo_pack topo_read (\<lambda>t. topo_flushed t \<and> topo_fits t)"
proof -
  have "packed (\<lambda>out t. push_pair (push_counted (push_pair push_u32 (push_pair pack_adj_map pack_adj_map))) push_u64 out
      (type_entries t, edge_count t)) topo_read (\<lambda>t. topo_flushed t \<and> topo_fits t)"
    unfolding topo_read_def
  proof (rule packed.packed_map [OF packed_types])
    fix t :: topology
    assume t: "topo_flushed t \<and> topo_fits t"
    have "set (type_entries t) \<subseteq> {(e, o', i). \<exists>adj. fmlookup (by_type t) e = Some adj \<and> o' = ta_out adj \<and> i = ta_inn adj}"
      by (auto simp: type_entries_def etypes_def Let_def sorted_list_of_fset.rep_eq elim!: fmdomE)
    then have "\<forall>x\<in>set (type_entries t). case x of (x, p) \<Rightarrow> True \<and> (case p of (a, b) \<Rightarrow> (flushed a \<and> map_fits a) \<and> flushed b \<and> map_fits b)"
      using t by (fastforce simp: topo_flushed_def topo_fits_def)
    moreover have "len_ok (length (type_entries t))" using t by (simp add: type_entries_def topo_fits_def)
    ultimately show "(case (type_entries t, edge_count t) of (xs, n) \<Rightarrow> (len_ok (length xs)
          \<and> (\<forall>x\<in>set xs. case x of (x, p) \<Rightarrow> True \<and> (case p of (a, b) \<Rightarrow> (flushed a \<and> map_fits a) \<and> flushed b \<and> map_fits b))) \<and> True)
        \<and> (case (type_entries t, edge_count t) of (es, n) \<Rightarrow>
          \<lparr> by_type = insert_types es, edge_count = n, out_tombstones = fmempty, in_tombstones = fmempty \<rparr>) = t"
      using t by (simp add: insert_types_entries topo_flushed_def)
  qed
  then show ?thesis by (simp add: topo_pack_entries [abs_def])
qed

interpretation pk_topo: packed topo_pack topo_read "\<lambda>t. topo_flushed t \<and> topo_fits t"
  by (rule packed_topo)

section \<open>What the image keeps\<close>

definition flat_list :: "adj_list \<Rightarrow> adj_list" where
  "flat_list a = \<lparr> frozen = al_merged a, delta = [] \<rparr>"

definition flat :: "topology \<Rightarrow> topology" where
  "flat t = \<lparr> by_type = fmmap (\<lambda>adj. \<lparr> ta_out = fmmap flat_list (ta_out adj), ta_inn = fmmap flat_list (ta_inn adj) \<rparr>) (by_type t),
     edge_count = edge_count t, out_tombstones = fmempty, in_tombstones = fmempty \<rparr>"

lemma al_merged_flat [simp]: "al_merged (flat_list a) = al_merged a"
  by (simp add: flat_list_def al_merged_def)

lemma adj_list_flat: "adj_list_of (flat t) e dir v = map_option flat_list (adj_list_of t e dir v)"
  by (auto simp: adj_list_of_def flat_def split: option.split direction.split)

lemma neighbors_flat: "neighbors (flat t) e dir v = neighbors t e dir v"
  by (simp add: neighbors_def adj_list_flat split: option.split)

lemma pack_adj_map_flat: "pack_adj_map out (fmmap flat_list m) = pack_adj_map out m"
proof -
  have "entries (fmmap flat_list m) = entries m"
    unfolding entries_def fmdom_map by (rule map_cong) (auto simp: sorted_list_of_fset.rep_eq elim!: fmdomE)
  then show ?thesis unfolding pack_adj_map_entries by simp
qed

lemma foldl_cong_set: "(\<And>acc x. x \<in> set xs \<Longrightarrow> f acc x = g acc x) \<Longrightarrow> foldl f a xs = foldl g a xs"
  by (induction xs arbitrary: a) auto

lemma topo_pack_flat: "topo_pack out (flat t) = topo_pack out t"
proof -
  have "etypes (flat t) = etypes t" "edge_count (flat t) = edge_count t" by (simp_all add: etypes_def flat_def)
  moreover have "foldl (\<lambda>out et. let adj = the (fmlookup (by_type (flat t)) et)
        in pack_adj_map (pack_adj_map (push_u32 out et) (ta_out adj)) (ta_inn adj)) out (etypes t)
      = foldl (\<lambda>out et. let adj = the (fmlookup (by_type t) et)
        in pack_adj_map (pack_adj_map (push_u32 out et) (ta_out adj)) (ta_inn adj)) out (etypes t)" for out
    by (rule foldl_cong_set) (auto simp: flat_def etypes_def sorted_list_of_fset.rep_eq pack_adj_map_flat elim!: fmdomE)
  ultimately show ?thesis by (simp add: topo_pack_def)
qed

lemma flat_flushed: "topo_flushed (flat t)"
  by (auto simp: topo_flushed_def flat_def flushed_def flat_list_def)

lemma flat_fits: "topo_fits t \<Longrightarrow> topo_fits (flat t)"
  by (auto simp: topo_fits_def flat_def map_fits_def etypes_def)

lemma flat_ok:
  assumes "topo_ok t" shows "topo_ok (flat t)" and "edges (flat t) = edges t"
proof -
  have l: "al_ok (flat_list a) \<and> al_set (flat_list a) = al_set a" if "al_ok a" for a
    using al_merged_eq [OF that] by (simp add: al_ok_def al_set_def flat_list_def)
  have n: "nbrs (flat t) e dir v = nbrs t e dir v" for e dir v
    using assms l by (auto simp: nbrs_def adj_list_flat topo_ok_def lists_ok_def split: option.split)
  show e: "edges (flat t) = edges t" by (simp add: edges_def n)
  have "lists_ok (flat t)" using assms l by (auto simp: topo_ok_def lists_ok_def adj_list_flat)
  then show "topo_ok (flat t)" using assms
    by (simp add: topo_ok_def n e) (simp add: flat_def tomb_set_def tombs_for_def)
qed

text \<open>
  C27: the packed image of a topology reads back as the topology with its buffers merged and no
  tombstones, whatever bytes follow it: a well-formed topology with the same edges, the same
  neighbour lists and the same count, and the reader stops at the end of the image. An image cut
  short anywhere is reported as corrupt.
\<close>

theorem topology_image:
  assumes "topo_ok t" and "topo_fits t" and "length (topo_pack [] t @ rest) \<le> USIZE_MAX"
  shows "topo_unpack (topo_pack [] t @ rest) = Inr (flat t, length (topo_pack [] t))
    \<and> topo_ok (flat t) \<and> edges (flat t) = edges t \<and> edge_count (flat t) = edge_count t
    \<and> (\<forall>e dir v. neighbors (flat t) e dir v = neighbors t e dir v)
    \<and> (\<forall>k. k < length (topo_pack [] t) \<longrightarrow> (\<exists>why. topo_unpack (take k (topo_pack [] t)) = Inl (Corrupt why)))"
proof -
  have fits: "topo_flushed (flat t) \<and> topo_fits (flat t)" using flat_flushed flat_fits [OF assms(2)] by blast
  have u: "topo_unpack src = topo_read src 0" for src by (simp add: topo_unpack_def topo_read_def)
  have r: "topo_unpack (topo_pack [] t @ rest) = Inr (flat t, length (topo_pack [] t))"
    using pk_topo.read_push [OF fits, of "[]" rest] assms(3) by (simp add: u topo_pack_flat)
  have c: "\<exists>why. topo_unpack (take k (topo_pack [] t)) = Inl (Corrupt why)" if "k < length (topo_pack [] t)" for k
    using pk_topo.read_cut [OF fits, of k "[]"] assms(3) that by (simp add: u topo_pack_flat)
  show ?thesis using r c flat_ok [OF assms(1)] neighbors_flat [of t] by (simp add: flat_def)
qed

definition one_edge :: topology where "one_edge = snd (the (add_edge topo_new 7 1 2))"

lemma one_edge_ok: "topo_ok one_edge"
  using add_edge_correct [OF topo_new_ok(1), of 7 1 2] by (auto simp: one_edge_def)

lemma one_edge_maps:
  "one_edge = \<lparr> by_type = fmupd 7 \<lparr> ta_out = fmupd 1 \<lparr> frozen = [], delta = [2] \<rparr> fmempty,
       ta_inn = fmupd 2 \<lparr> frozen = [], delta = [1] \<rparr> fmempty \<rparr> fmempty,
     edge_count = 1, out_tombstones = fmempty, in_tombstones = fmempty \<rparr>"
  by (simp add: one_edge_def add_edge_def topo_new_def entry_or_def ta_empty_def al_empty_def al_contains_def
      binary_search_def al_push_def INSERT_BUFFER_def)

lemma one_edge_doms: "sorted_list_of_fset {|x|} = [x :: u32]"
  by (simp add: sorted_list_of_fset.rep_eq)

lemma one_edge_merged: "al_merged \<lparr> frozen = [], delta = [x] \<rparr> = [x]"
  by (simp add: al_merged_def merge_sorted_unique_def sort_dedup_def)

lemma one_edge_fits: "topo_fits one_edge"
  by (simp add: topo_fits_def one_edge_maps map_fits_def etypes_def one_edge_doms one_edge_merged split: if_splits)

lemma one_edge_length: "length (topo_pack [] one_edge) = 48"
  by (simp add: topo_pack_def one_edge_maps etypes_def one_edge_doms pack_adj_map_def one_edge_merged push_u32s_def
      push_len_def push_u32_def push_u64_def byte_simps)

theorem topology_image_witness:
  "topo_unpack (topo_pack [] one_edge @ [1, 2, 3]) = Inr (flat one_edge, 48)
   \<and> neighbors (flat one_edge) 7 Out 1 = neighbors one_edge 7 Out 1"
  using topology_image [OF one_edge_ok one_edge_fits, of "[1, 2, 3]"] by (auto simp: one_edge_length USIZE_MAX_def)

end
