(* ===== verification/Bitset.thy ===== *)
theory Bitset
  imports Rust_Prelude
begin

text \<open>
  Sets of small numbers as the bits of \<open>u64\<close> words, the representation of a visibility set (\<open>crates/core-query/src/visible.rs\<close>) and of a
  column's presence bitmap (\<open>crates/core-storage/src/columns.rs\<close>): number \<open>i\<close> is bit \<open>i mod 64\<close> of word \<open>i div 64\<close>.
\<close>

unbundle bit_operations_syntax

text \<open>\<open>count_ones\<close> of \<open>u64\<close>.\<close>

definition count_ones :: "u64 \<Rightarrow> nat" where
  "count_ones w = length (filter (bit w) [0..<64])"

text \<open>The numbers of the set bits.\<close>

definition wset :: "u64 list \<Rightarrow> nat set" where
  "wset ws = {i. i div 64 < length ws \<and> bit (ws ! (i div 64)) (i mod 64)}"

lemma low_bit: "x AND 1 = 1 \<longleftrightarrow> bit x 0" for x :: u64
  by (simp add: and_one_eq odd_iff_mod_2_eq_one bit_0)

lemma wset_Nil [simp]: "wset [] = {}"
  by (simp add: wset_def)

lemma wset_le: "i \<in> wset ws \<Longrightarrow> i < length ws * 64"
  by (auto simp: wset_def)

lemma wset_finite [simp]: "finite (wset ws)"
  by (rule finite_subset [of _ "{..<length ws * 64}"]) (auto dest: wset_le)

lemma wset_snoc: "wset (ws @ [w]) = wset ws \<union> {length ws * 64 + b | b. b < 64 \<and> bit w b}"
proof (intro equalityI subsetI)
  fix i assume "i \<in> wset (ws @ [w])"
  then have i: "i div 64 < Suc (length ws)" "bit ((ws @ [w]) ! (i div 64)) (i mod 64)" by (simp_all add: wset_def)
  show "i \<in> wset ws \<union> {length ws * 64 + b | b. b < 64 \<and> bit w b}"
  proof (cases "i div 64 = length ws")
    case True
    then have "i = length ws * 64 + i mod 64" "bit w (i mod 64)" using i div_mult_mod_eq [of i 64] by simp_all
    then show ?thesis by (intro UnI2 CollectI exI [of _ "i mod 64"]) simp
  qed (use i in \<open>auto simp: wset_def nth_append\<close>)
qed (auto simp: wset_def nth_append)

lemma wset_snoc_zero [simp]: "wset (ws @ [0]) = wset ws"
  by (simp add: wset_snoc)

lemma count_ones_card: "count_ones w = card {b. b < 64 \<and> bit w b}"
proof -
  have "count_ones w = card (set (filter (bit w) [0..<64]))" unfolding count_ones_def by (rule distinct_card [symmetric]) simp
  also have "set (filter (bit w) [0..<64]) = {b. b < 64 \<and> bit w b}" by auto
  finally show ?thesis .
qed

lemma wset_card: "card (wset ws) = sum_list (map count_ones ws)"
proof (induction ws rule: rev_induct)
  case (snoc w ws)
  have "{length ws * 64 + b | b. b < 64 \<and> bit w b} = (+) (length ws * 64) ` {b. b < 64 \<and> bit w b}" by auto
  then have "card {length ws * 64 + b | b. b < 64 \<and> bit w b} = count_ones w"
    using card_image [of "\<lambda>b. length ws * 64 + b" "{b. b < 64 \<and> bit w b}"] by (simp add: count_ones_card)
  moreover have "wset ws \<inter> {length ws * 64 + b | b. b < 64 \<and> bit w b} = {}" using wset_le [of _ ws] by fastforce
  moreover have "finite {length ws * 64 + b | b. b < 64 \<and> bit w b}" by simp
  ultimately show ?case using snoc by (simp add: wset_snoc card_Un_disjoint)
qed simp

lemma card_wset: "card (wset ws) \<le> length ws * 64"
  using card_mono [of "{..<length ws * 64}" "wset ws"] wset_le by auto

lemma some_bit: "w \<noteq> 0 \<Longrightarrow> \<exists>b<64. bit w b" for w :: u64
  using bit_word_eqI [of w 0] by auto

text \<open>Testing, setting and clearing one bit.\<close>

lemma div_mod_eq_iff: "i = j \<longleftrightarrow> i div 64 = j div 64 \<and> i mod 64 = j mod (64 :: nat)"
  by (metis div_mult_mod_eq)

lemma wset_test: "i div 64 < length ws \<Longrightarrow> ws ! (i div 64) AND push_bit (i mod 64) 1 = 0 \<longleftrightarrow> i \<notin> wset ws"
  by (simp add: wset_def and_exp_eq_0_iff_not_bit push_bit_of_1)

lemma wset_set:
  assumes "i div 64 < length ws"
  shows "wset (ws[i div 64 := ws ! (i div 64) OR push_bit (i mod 64) 1]) = insert i (wset ws)"
proof (intro set_eqI)
  fix j
  show "j \<in> wset (ws[i div 64 := ws ! (i div 64) OR push_bit (i mod 64) 1]) \<longleftrightarrow> j \<in> insert i (wset ws)"
    using assms div_mod_eq_iff [of j i] by (auto simp: wset_def nth_list_update bit_simps)
qed

lemma wset_clear:
  assumes "i div 64 < length ws"
  shows "wset (ws[i div 64 := ws ! (i div 64) AND NOT (push_bit (i mod 64) 1)]) = wset ws - {i}"
proof (intro set_eqI)
  fix j
  show "j \<in> wset (ws[i div 64 := ws ! (i div 64) AND NOT (push_bit (i mod 64) 1)]) \<longleftrightarrow> j \<in> wset ws - {i}"
    using assms div_mod_eq_iff [of j i] by (auto simp: wset_def nth_list_update bit_simps)
qed

lemma wset_zeros [simp]: "wset (ws @ replicate n 0) = wset ws"
  by (induction n) (simp_all add: replicate_append_same [symmetric] flip: append_assoc)

lemma inj_unat: "inj_on (unat :: u32 \<Rightarrow> nat) A"
  by (rule inj_onI) (rule unsigned_word_eqI)

end
