(* ===== verification/Columns.thy ===== *)
theory Columns
  imports Bitset Cow_Vec Cow_Map_Bulk Hash_Index Value_Types "HOL-Library.FSet"
begin

text \<open>
  Property columns (\<open>crates/core-storage/src/columns.rs\<close>): the properties of nodes, a column a field. A column of one scalar type is a vector of
  values with a bitmap of the nodes that have one; strings are interned; a field that mixes types, or holds lists or maps, spills to a map. A
  panic is the outer \<open>None\<close>. \<open>hash\<close> is the keyed hash of the string table's index.
\<close>

section \<open>The presence bitmap\<close>

type_synonym bitmap = "u64 cow_vec"

definition bm_contains :: "bitmap \<Rightarrow> u32 \<Rightarrow> bool" where
  "bm_contains b i = (case cv_get b (unat i div 64) of None \<Rightarrow> False | Some w \<Rightarrow> w AND push_bit (unat i mod 64) 1 \<noteq> 0)"

definition bm_set :: "bitmap \<Rightarrow> u32 \<Rightarrow> (bool \<times> bitmap) option" where
  "bm_set b i =
     (let word = unat i div 64; mask_bit = push_bit (unat i mod 64) 1;
          b = (if word \<ge> cv_len b then cv_grow_to (word + 1) 0 b else b)
      in do {
        w \<leftarrow> cv_get b word;
        if w AND mask_bit \<noteq> 0 then Some (False, b)
        else do { b \<leftarrow> cv_set b word (w OR mask_bit); Some (True, b) } })"

definition bm_clear :: "bitmap \<Rightarrow> u32 \<Rightarrow> (bool \<times> bitmap) option" where
  "bm_clear b i =
     (let word = unat i div 64; mask_bit = push_bit (unat i mod 64) 1 in
      case cv_get b word of
        None \<Rightarrow> Some (False, b)
      | Some w \<Rightarrow>
          if w AND mask_bit = 0 then Some (False, b)
          else do { b \<leftarrow> cv_set b word (w AND NOT mask_bit); Some (True, b) })"

text \<open>The loop of \<open>for_each\<close> over one word: the lowest set bit, then the rest of the word.\<close>

definition trailing_zeros :: "u64 \<Rightarrow> nat" where
  "trailing_zeros w = length (takeWhile (\<lambda>i. \<not> bit w i) [0..<64])"

lemma drop_low_bit: "w AND (w - 1) < w" if "w \<noteq> 0" for w :: u64
proof -
  have "w AND (w - 1) \<le> w - 1" by (rule word_and_le1)
  moreover have "w - 1 < w" using that unat_minus_one [OF that] unat_gt_0 [of w] by (simp add: word_less_nat_alt)
  ultimately show ?thesis by (rule order_le_less_trans)
qed

function word_ids :: "u32 \<Rightarrow> u64 \<Rightarrow> u32 list" where
  "word_ids wi w = (if w = 0 then [] else (wi * 64 + of_nat (trailing_zeros w)) # word_ids wi (w AND (w - 1)))"
  by pat_completeness auto
termination by (relation "measure (\<lambda>(wi, w). unat w)") (auto simp: drop_low_bit unat_mono)

declare word_ids.simps [simp del]

definition bm_ids :: "bitmap \<Rightarrow> u32 list" where
  "bm_ids b = concat (map (\<lambda>(wi, w). word_ids (of_nat wi) w) (enumerate 0 (cv_iter b)))"

definition bm_live_count :: "bitmap \<Rightarrow> nat" where
  "bm_live_count b = sum_list (map count_ones (cv_iter b))"

section \<open>Interned strings\<close>

record str_intern =
  si_index :: hash_index
  si_values :: "val cow_vec"

definition si_new :: str_intern where "si_new = \<lparr> si_index = hi_new, si_values = cv_new \<rparr>"

definition si_resolver :: "str_intern \<Rightarrow> resolver" where
  "si_resolver t i = (case cv_get (si_values t) (unat i) of Some (VStr x) \<Rightarrow> Some x | _ \<Rightarrow> None)"

definition si_find :: "str_intern \<Rightarrow> string \<Rightarrow> u64 \<Rightarrow> u32 option" where
  "si_find t s h = hi_get_hashed (si_index t) s h (si_resolver t)"

definition si_intern :: "hash_fn \<Rightarrow> str_intern \<Rightarrow> string \<Rightarrow> (u32 \<times> str_intern) option" where
  "si_intern hash t s =
     (let h = hash s in
      case si_find t s h of
        Some i \<Rightarrow> Some (i, t)
      | None \<Rightarrow> (let i = of_nat (cv_len (si_values t)) in do {
          index \<leftarrow> hi_insert_hashed (si_index t) s h i;
          Some (i, \<lparr> si_index = index, si_values = cv_push (si_values t) (VStr s) \<rparr>) }))"

definition si_get :: "str_intern \<Rightarrow> u32 \<Rightarrow> val option" where
  "si_get t i = cv_get (si_values t) (unat i)"

section \<open>Columns\<close>

datatype fixed = FInt | FFloat | FBool | FDate | FLdt | FDt | FDur

fun fixed_of :: "val \<Rightarrow> fixed option" where
  "fixed_of (VInt _) = Some FInt"
| "fixed_of (VFloat _) = Some FFloat"
| "fixed_of (VBool _) = Some FBool"
| "fixed_of (VDate _) = Some FDate"
| "fixed_of (VLocalDateTime _) = Some FLdt"
| "fixed_of (VDateTime _ _) = Some FDt"
| "fixed_of (VDuration _ _ _) = Some FDur"
| "fixed_of _ = None"

fun filler :: "fixed \<Rightarrow> val" where
  "filler FInt = VInt 0"
| "filler FFloat = VFloat 0"
| "filler FBool = VBool False"
| "filler FDate = VDate 0"
| "filler FLdt = VLocalDateTime 0"
| "filler FDt = VDateTime 0 0"
| "filler FDur = VDuration 0 0 0"

datatype column =
    CFixed fixed "val cow_vec" bitmap nat
  | CStr "u32 cow_vec" bitmap nat
  | CBinary "val cow_vec" bitmap nat
  | CMixed "(u32, val) cow_map"

definition empty_binary :: val where "empty_binary = VBinary []"

text \<open>The empty column a first value starts.\<close>

definition col_start :: "val \<Rightarrow> column" where
  "col_start v =
     (case v of
        VStr _ \<Rightarrow> CStr cv_new cv_new 0
      | VBinary _ \<Rightarrow> CBinary cv_new cv_new 0
      | _ \<Rightarrow> (case fixed_of v of Some k \<Rightarrow> CFixed k cv_new cv_new 0 | None \<Rightarrow> CMixed cm_new))"

fun col_accepts :: "column \<Rightarrow> val \<Rightarrow> bool" where
  "col_accepts (CFixed k _ _ _) v \<longleftrightarrow> fixed_of v = Some k"
| "col_accepts (CStr _ _ _) v \<longleftrightarrow> (case v of VStr _ \<Rightarrow> True | _ \<Rightarrow> False)"
| "col_accepts (CBinary _ _ _) v \<longleftrightarrow> (case v of VBinary _ \<Rightarrow> True | _ \<Rightarrow> False)"
| "col_accepts (CMixed _) v \<longleftrightarrow> True"

text \<open>A column as its entries; the source collects them in a hash map, whose order is not observed.\<close>

fun map_opt :: "('a \<Rightarrow> 'b option) \<Rightarrow> 'a list \<Rightarrow> 'b list option" where
  "map_opt f [] = Some []"
| "map_opt f (x # xs) = do { y \<leftarrow> f x; ys \<leftarrow> map_opt f xs; Some (y # ys) }"

definition col_to_map :: "str_intern \<Rightarrow> column \<Rightarrow> (u32 \<times> val) list option" where
  "col_to_map t c =
     (case c of
        CMixed m \<Rightarrow> Some (cm_entries m)
      | CFixed _ vals present _ \<Rightarrow> map_opt (\<lambda>i. do { v \<leftarrow> cv_get vals (unat i); Some (i, v) }) (bm_ids present)
      | CBinary vals present _ \<Rightarrow> map_opt (\<lambda>i. do { v \<leftarrow> cv_get vals (unat i); Some (i, v) }) (bm_ids present)
      | CStr ids present _ \<Rightarrow> map_opt (\<lambda>i. do { sid \<leftarrow> cv_get ids (unat i); v \<leftarrow> si_get t sid; Some (i, v) }) (bm_ids present))"

definition col_take_map :: "str_intern \<Rightarrow> column \<Rightarrow> (u32, val) cow_map option" where
  "col_take_map t c =
     (case c of
        CMixed m \<Rightarrow> Some m
      | other \<Rightarrow> do { entries \<leftarrow> col_to_map t other; cm_from_sorted (sort_key fst entries) })"

text \<open>Writing slot \<open>i\<close> of a vector that grows to hold it, and marking it present.\<close>

definition slot_set :: "'a \<Rightarrow> 'a cow_vec \<Rightarrow> bitmap \<Rightarrow> nat \<Rightarrow> u32 \<Rightarrow> 'a \<Rightarrow> ('a cow_vec \<times> bitmap \<times> nat) option" where
  "slot_set fill vals present live node v =
     (let i = unat node; vals = (if cv_len vals \<le> i then cv_grow_to (i + 1) fill vals else vals) in do {
        vals \<leftarrow> cv_set vals i v;
        (fresh, present) \<leftarrow> bm_set present node;
        Some (vals, present, if fresh then live + 1 else live) })"

definition col_set :: "hash_fn \<Rightarrow> column \<Rightarrow> u32 \<Rightarrow> val \<Rightarrow> str_intern \<Rightarrow> (column \<times> str_intern) option" where
  "col_set hash c node v t =
     (if \<not> col_accepts c v then do {
        m \<leftarrow> col_take_map t c;
        (_, m) \<leftarrow> cm_insert m node v;
        Some (CMixed m, t) }
      else case (c, v) of
        (CFixed k vals present live, v) \<Rightarrow> do {
          (vals, present, live) \<leftarrow> slot_set (filler k) vals present live node v;
          Some (CFixed k vals present live, t) }
      | (CStr ids present live, VStr s) \<Rightarrow> do {
          (sid, t) \<leftarrow> si_intern hash t s;
          (ids, present, live) \<leftarrow> slot_set 0 ids present live node sid;
          Some (CStr ids present live, t) }
      | (CBinary data present live, VBinary b) \<Rightarrow> do {
          (data, present, live) \<leftarrow> slot_set empty_binary data present live node v;
          Some (CBinary data present live, t) }
      | (CMixed m, v) \<Rightarrow> do { (_, m) \<leftarrow> cm_insert m node v; Some (CMixed m, t) }
      | _ \<Rightarrow> None)"

definition col_from_first :: "hash_fn \<Rightarrow> u32 \<Rightarrow> val \<Rightarrow> str_intern \<Rightarrow> (column \<times> str_intern) option" where
  "col_from_first hash node v t = col_set hash (col_start v) node v t"

fun col_get :: "column \<Rightarrow> u32 \<Rightarrow> str_intern \<Rightarrow> val option option" where
  "col_get (CFixed _ vals present _) node t = Some (if bm_contains present node then cv_get vals (unat node) else None)"
| "col_get (CBinary vals present _) node t = Some (if bm_contains present node then cv_get vals (unat node) else None)"
| "col_get (CStr ids present _) node t =
     (if bm_contains present node then do { sid \<leftarrow> cv_get ids (unat node); v \<leftarrow> si_get t sid; Some (Some v) } else Some None)"
| "col_get (CMixed m) node t = cm_get m node"

text \<open>Unsigned subtraction, which panics below zero.\<close>

definition usize_sub :: "nat \<Rightarrow> nat \<Rightarrow> nat option" where
  "usize_sub a b = (if b \<le> a then Some (a - b) else None)"

fun col_remove :: "column \<Rightarrow> u32 \<Rightarrow> str_intern \<Rightarrow> (val option \<times> column) option" where
  "col_remove (CFixed k vals present live) node t = do {
     (was, present) \<leftarrow> bm_clear present node;
     if \<not> was then Some (None, CFixed k vals present live)
     else do { live \<leftarrow> usize_sub live 1; v \<leftarrow> cv_get vals (unat node); Some (Some v, CFixed k vals present live) } }"
| "col_remove (CStr ids present live) node t = do {
     (was, present) \<leftarrow> bm_clear present node;
     if \<not> was then Some (None, CStr ids present live)
     else do { live \<leftarrow> usize_sub live 1; sid \<leftarrow> cv_get ids (unat node); v \<leftarrow> si_get t sid; Some (Some v, CStr ids present live) } }"
| "col_remove (CBinary data present live) node t = do {
     (was, present) \<leftarrow> bm_clear present node;
     if \<not> was then Some (None, CBinary data present live)
     else do { live \<leftarrow> usize_sub live 1; (v, data) \<leftarrow> cv_replace data (unat node) empty_binary; Some (Some v, CBinary data present live) } }"
| "col_remove (CMixed m) node t = do { (old, m) \<leftarrow> cm_remove m node; Some (old, CMixed m) }"

fun col_is_empty :: "column \<Rightarrow> bool" where
  "col_is_empty (CMixed m) \<longleftrightarrow> cm_is_empty m"
| "col_is_empty (CFixed _ _ _ live) \<longleftrightarrow> live = 0"
| "col_is_empty (CStr _ _ live) \<longleftrightarrow> live = 0"
| "col_is_empty (CBinary _ _ live) \<longleftrightarrow> live = 0"

section \<open>The store\<close>

record column_store =
  cs_cols :: "(string \<times> column) list"
  cs_intern :: str_intern
  cs_tombstones :: "(u32, string fset) cow_map"

definition cs_new :: column_store where
  "cs_new = \<lparr> cs_cols = [], cs_intern = si_new, cs_tombstones = cm_new \<rparr>"

definition cs_set :: "hash_fn \<Rightarrow> column_store \<Rightarrow> u32 \<Rightarrow> string \<Rightarrow> val \<Rightarrow> column_store option" where
  "cs_set hash s node field v = do {
     (col, t) \<leftarrow> (case map_of (cs_cols s) field of
        Some col \<Rightarrow> col_set hash col node v (cs_intern s)
      | None \<Rightarrow> col_from_first hash node v (cs_intern s));
     Some (s \<lparr> cs_cols := AList.update field col (cs_cols s), cs_intern := t \<rparr>) }"

definition cs_get :: "column_store \<Rightarrow> u32 \<Rightarrow> string \<Rightarrow> val option option" where
  "cs_get s node field = (case map_of (cs_cols s) field of None \<Rightarrow> Some None | Some col \<Rightarrow> col_get col node (cs_intern s))"

text \<open>A column resolved once for many lookups.\<close>

definition cs_column :: "column_store \<Rightarrow> string \<Rightarrow> column option" where
  "cs_column s field = map_of (cs_cols s) field"

definition handle_get :: "column_store \<Rightarrow> column option \<Rightarrow> u32 \<Rightarrow> val option option" where
  "handle_get s col node = (case col of None \<Rightarrow> Some None | Some col \<Rightarrow> col_get col node (cs_intern s))"

definition cs_fields :: "column_store \<Rightarrow> string list" where "cs_fields s = map fst (cs_cols s)"

definition cs_remove :: "column_store \<Rightarrow> u32 \<Rightarrow> string \<Rightarrow> (val option \<times> column_store) option" where
  "cs_remove s node field =
     (case map_of (cs_cols s) field of
        None \<Rightarrow> Some (None, s)
      | Some col \<Rightarrow> do {
          there \<leftarrow> col_get col node (cs_intern s);
          if there = None then Some (None, s)
          else do {
            (old, col) \<leftarrow> col_remove col node (cs_intern s);
            case old of
              None \<Rightarrow> Some (None, s \<lparr> cs_cols := AList.update field col (cs_cols s) \<rparr>)
            | Some old \<Rightarrow>
                Some (Some old, s \<lparr> cs_cols := if col_is_empty col then AList.delete field (cs_cols s) else AList.update field col (cs_cols s) \<rparr>) } })"

text \<open>\<open>HashMap::retain\<close> with a closure that may write the value.\<close>

fun retain_cols :: "(column \<Rightarrow> column option) \<Rightarrow> (string \<times> column) list \<Rightarrow> (string \<times> column) list option" where
  "retain_cols f [] = Some []"
| "retain_cols f ((field, col) # cols) = do {
     col \<leftarrow> f col;
     rest \<leftarrow> retain_cols f cols;
     Some (if col_is_empty col then rest else (field, col) # rest) }"

definition cs_remove_all :: "column_store \<Rightarrow> u32 \<Rightarrow> column_store option" where
  "cs_remove_all s node = do {
     cols \<leftarrow> retain_cols (\<lambda>col. do {
        there \<leftarrow> col_get col node (cs_intern s);
        if there \<noteq> None then map_option snd (col_remove col node (cs_intern s)) else Some col }) (cs_cols s);
     Some (s \<lparr> cs_cols := cols \<rparr>) }"

definition cs_is_tombstoned :: "column_store \<Rightarrow> u32 \<Rightarrow> string \<Rightarrow> bool option" where
  "cs_is_tombstoned s node field = map_option (\<lambda>r. case r of None \<Rightarrow> False | Some fs \<Rightarrow> field |\<in>| fs) (cm_get (cs_tombstones s) node)"

definition cs_record_prop_tombstone :: "column_store \<Rightarrow> u32 \<Rightarrow> string \<Rightarrow> column_store option" where
  "cs_record_prop_tombstone s node field = do {
     m \<leftarrow> cm_get_or_insert_with (cs_tombstones s) node {||} (finsert field);
     Some (s \<lparr> cs_tombstones := m \<rparr>) }"

section \<open>The bitmap as a set of nodes\<close>

lemma nat_low_bit:
  "0 < n \<Longrightarrow> \<exists>k. bit n k \<and> (\<forall>j<k. \<not> bit n j) \<and> (\<forall>i. bit (n AND (n - 1)) i \<longleftrightarrow> bit n i \<and> i \<noteq> k)" for n :: nat
proof (induction n rule: less_induct)
  case (less n)
  show ?case
  proof (cases "odd n")
    case True
    then obtain m where "n = 2 * m + 1" by (elim oddE)
    then have "bit (n AND (n - 1)) i \<longleftrightarrow> bit n i \<and> i \<noteq> 0" for i
      unfolding bit_and_iff by (cases i) (auto simp: bit_Suc bit_0)
    then show ?thesis using True by (intro exI [of _ 0]) (simp add: bit_0)
  next
    case False
    then obtain m where "n = 2 * m" by blast
    then have m: "n = 2 * m" "0 < m" "m < n" using less.prems by auto
    obtain k where k: "bit m k" "\<forall>j<k. \<not> bit m j" "\<And>i. bit (m AND (m - 1)) i \<longleftrightarrow> bit m i \<and> i \<noteq> k"
      using less.IH [OF m(3,2)] by blast
    have d: "(n - 1) div 2 = m - 1" "n div 2 = m" using m by auto
    have "bit (n AND (n - 1)) i \<longleftrightarrow> bit n i \<and> i \<noteq> Suc k" for i
    proof (cases i)
      case (Suc j)
      then show ?thesis unfolding bit_and_iff unfolding Suc bit_Suc d using k(3) [of j, unfolded bit_and_iff] by simp
    qed (use False in \<open>simp add: bit_and_iff [of n] bit_0 even_and_iff\<close>)
    moreover have "\<not> bit n j" if "j < Suc k" for j using k(2) that False by (cases j) (auto simp: bit_Suc bit_0 d)
    ultimately show ?thesis using k(1) by (intro exI [of _ "Suc k"]) (auto simp: bit_Suc d)
  qed
qed

lemma trailing_zeros_low:
  assumes "w \<noteq> 0"
  shows "trailing_zeros w < 64" "bit w (trailing_zeros w)" "\<And>j. bit w j \<Longrightarrow> trailing_zeros w \<le> j"
    "bit (w AND (w - 1)) i \<longleftrightarrow> bit w i \<and> i \<noteq> trailing_zeros w"
proof -
  have "0 < unat w" using assms by (simp add: unat_gt_0)
  then obtain k where k: "bit (unat w) k" "\<forall>j<k. \<not> bit (unat w) j"
    "\<And>i. bit (unat w AND (unat w - 1)) i \<longleftrightarrow> bit (unat w) i \<and> i \<noteq> k" using nat_low_bit by blast
  have b: "bit (unat w) j \<longleftrightarrow> bit w j" for j by (simp add: bit_unsigned_iff)
  have k64: "k < 64" using k(1) b bit_imp_le_length [of w k] by simp
  have "[0..<64] = [0..<k] @ k # [Suc k..<64]" using upt_add_eq_append [of 0 k "64 - k"] k64 by (simp add: upt_conv_Cons)
  moreover have "takeWhile (\<lambda>i. \<not> bit w i) ([0..<k] @ k # [Suc k..<64]) = [0..<k]"
    using k(1,2) b by (subst takeWhile_append2) auto
  ultimately have t: "trailing_zeros w = k" by (simp add: trailing_zeros_def)
  have "unat (w AND (w - 1)) = unat w AND (unat w - 1)" by (simp add: unsigned_and_eq unat_minus_one [OF assms])
  moreover have "bit (unat (w AND (w - 1))) i \<longleftrightarrow> bit (w AND (w - 1)) i" by (simp add: bit_unsigned_iff)
  ultimately have "bit (w AND (w - 1)) i \<longleftrightarrow> bit (unat w AND (unat w - 1)) i" by simp
  then show "bit (w AND (w - 1)) i \<longleftrightarrow> bit w i \<and> i \<noteq> trailing_zeros w" using k(3) b t by simp
  show "trailing_zeros w < 64" "bit w (trailing_zeros w)" using k64 k(1) b t by simp_all
  show "trailing_zeros w \<le> j" if "bit w j" for j using k(2) b t that by (meson not_le)
qed

lemma word_ids_bits:
  "\<exists>bs. word_ids wi w = map (\<lambda>b. wi * 64 + of_nat b) bs \<and> set bs = {b. bit w b} \<and> strict bs"
proof (induction wi w rule: word_ids.induct)
  case (1 wi w)
  show ?case
  proof (cases "w = 0")
    case True
    then show ?thesis by (intro exI [of _ "[]"]) (simp add: word_ids.simps)
  next
    case False
    note low = trailing_zeros_low [OF False]
    obtain bs where bs: "word_ids wi (w AND (w - 1)) = map (\<lambda>b. wi * 64 + of_nat b) bs" "set bs = {b. bit (w AND (w - 1)) b}" "strict bs"
      using 1 [OF False] by blast
    have "set (trailing_zeros w # bs) = {b. bit w b}" using bs(2) low(2,4) by auto
    moreover have "strict (trailing_zeros w # bs)" using bs(2,3) low(3,4) by (auto simp: order_le_less)
    ultimately show ?thesis using bs(1) False by (intro exI [of _ "trailing_zeros w # bs"]) (subst word_ids.simps, simp)
  qed
qed

definition bm_rel :: "bitmap \<Rightarrow> u32 set \<Rightarrow> bool" where
  "bm_rel b P \<longleftrightarrow> cv_inv b \<and> length (cv_iter b) \<le> 2 ^ 26 \<and> wset (cv_iter b) = unat ` P"

lemma bm_new [simp]: "bm_rel cv_new {}"
  by (simp add: bm_rel_def)

lemma in_unat_image [simp]: "unat i \<in> unat ` P \<longleftrightarrow> i \<in> P" for i :: u32
  by (rule inj_image_mem_iff) (rule inj_unat)

lemma bm_contains_correct: "bm_rel b P \<Longrightarrow> bm_contains b i \<longleftrightarrow> i \<in> P"
proof -
  assume r: "bm_rel b P"
  show ?thesis
  proof (cases "unat i div 64 < length (cv_iter b)")
    case True
    then show ?thesis using r wset_test [OF True] by (simp add: bm_contains_def bm_rel_def cv_get_iter)
  next
    case False
    then have "unat i \<notin> wset (cv_iter b)" by (simp add: wset_def)
    then show ?thesis using r False by (simp add: bm_contains_def bm_rel_def cv_get_iter)
  qed
qed

lemma word_index: "unat i div 64 < 2 ^ 26" for i :: u32
  using unsigned_less [of i, where 'a = nat] by (intro less_mult_imp_div_less) simp

lemma bm_set_correct:
  assumes "bm_rel b P"
  shows "\<exists>b'. bm_set b i = Some (i \<notin> P, b') \<and> bm_rel b' (insert i P)"
proof -
  let ?at = "unat i div 64" let ?m = "push_bit (unat i mod 64) 1 :: u64"
  define g where "g = (if ?at \<ge> cv_len b then cv_grow_to (?at + 1) 0 b else b)"
  have b: "cv_inv b" "cv_len b = length (cv_iter b)" using assms cv_len_iter by (auto simp: bm_rel_def)
  have g: "cv_inv g" "?at < length (cv_iter g)" "bm_rel g P"
    using assms cv_grow_to_iter [of b "?at + 1" 0] b word_index [of i] by (auto simp: g_def bm_rel_def)
  have get: "cv_get g ?at = Some (cv_iter g ! ?at)" using g by (simp add: cv_get_iter)
  have test: "cv_iter g ! ?at AND ?m = 0 \<longleftrightarrow> i \<notin> P" using wset_test [OF g(2)] g(3) by (simp add: bm_rel_def)
  have s: "bm_set b i = (if i \<in> P then Some (False, g) else do { b \<leftarrow> cv_set g ?at (cv_iter g ! ?at OR ?m); Some (True, b) })"
    using test unfolding bm_set_def Let_def g_def [symmetric] get by auto
  show ?thesis
  proof (cases "i \<in> P")
    case False
    obtain b' where "cv_set g ?at (cv_iter g ! ?at OR ?m) = Some b'" "cv_inv b'" "cv_iter b' = (cv_iter g)[?at := cv_iter g ! ?at OR ?m]"
      using cv.put_in [OF g(1), of ?at] g(2) cv_len_iter [OF g(1)] by auto
    then show ?thesis using s False g wset_set [OF g(2)] by (simp add: bm_rel_def)
  qed (use s g(3) in \<open>simp add: insert_absorb\<close>)
qed

lemma bm_clear_correct:
  assumes "bm_rel b P"
  shows "\<exists>b'. bm_clear b i = Some (i \<in> P, b') \<and> bm_rel b' (P - {i})"
proof (cases "unat i div 64 < length (cv_iter b)")
  case at: True
  let ?at = "unat i div 64" let ?m = "push_bit (unat i mod 64) 1 :: u64"
  have b: "cv_inv b" "cv_len b = length (cv_iter b)" using assms cv_len_iter by (auto simp: bm_rel_def)
  have get: "cv_get b ?at = Some (cv_iter b ! ?at)" using b at by (simp add: cv_get_iter)
  have test: "cv_iter b ! ?at AND ?m = 0 \<longleftrightarrow> i \<notin> P" using wset_test [OF at] assms by (simp add: bm_rel_def)
  have s: "bm_clear b i = (if i \<notin> P then Some (False, b) else do { b \<leftarrow> cv_set b ?at (cv_iter b ! ?at AND NOT ?m); Some (True, b) })"
    unfolding bm_clear_def Let_def get option.case test ..
  show ?thesis
  proof (cases "i \<in> P")
    case True
    obtain b' where "cv_set b ?at (cv_iter b ! ?at AND NOT ?m) = Some b'" "cv_inv b'" "cv_iter b' = (cv_iter b)[?at := cv_iter b ! ?at AND NOT ?m]"
      using cv.put_in [OF b(1), of ?at] at b(2) by auto
    moreover have "unat ` P - {unat i} = unat ` (P - {i})" by (auto intro: unsigned_word_eqI)
    ultimately show ?thesis using s True assms wset_clear [OF at] by (simp add: bm_rel_def)
  qed (use s assms in simp)
next
  case False
  then have "unat i \<notin> wset (cv_iter b)" by (simp add: wset_def)
  then have "i \<notin> P" using assms by (simp add: bm_rel_def)
  then show ?thesis using assms False by (simp add: bm_clear_def bm_rel_def cv_get_iter)
qed

definition words_ids :: "u64 list \<Rightarrow> u32 list" where
  "words_ids ws = concat (map (\<lambda>(wi, w). word_ids (of_nat wi) w) (enumerate 0 ws))"

lemma words_ids_numbers: "\<exists>ns. words_ids ws = map of_nat ns \<and> set ns = wset ws \<and> strict ns"
proof (induction ws rule: rev_induct)
  case (snoc w ws)
  then obtain ns where ns: "words_ids ws = map of_nat ns" "set ns = wset ws" "strict ns" by blast
  obtain bs where bs: "word_ids (of_nat (length ws)) w = map (\<lambda>b. of_nat (length ws) * 64 + of_nat b) bs" "set bs = {b. bit w b}" "strict bs"
    using word_ids_bits by blast
  let ?new = "map (\<lambda>b. length ws * 64 + b) bs"
  have "words_ids (ws @ [w]) = map of_nat (ns @ ?new)" by (simp add: words_ids_def enumerate_append_eq bs(1) flip: ns(1))
  moreover have "b < 64" if "b \<in> set bs" for b using that bs(2) bit_imp_le_length [of w b] by simp
  then have "set (ns @ ?new) = wset (ws @ [w])" using ns(2) bs(2) by (auto simp: wset_snoc)
  moreover have "strict (ns @ ?new)" using ns(2,3) bs(3) wset_le [of _ ws] by (fastforce simp: sorted_wrt_append sorted_wrt_map)
  ultimately show ?case by blast
qed (simp add: words_ids_def)

lemma bm_ids_correct:
  assumes "bm_rel b P"
  shows "set (bm_ids b) = P" "strict (bm_ids b)"
proof -
  obtain ns where ns: "bm_ids b = map of_nat ns" "set ns = wset (cv_iter b)" "strict ns"
    using words_ids_numbers [of "cv_iter b"] by (auto simp: bm_ids_def words_ids_def)
  have "n < 2 ^ 32" if "n \<in> set ns" for n using that ns(2) wset_le [of n "cv_iter b"] assms by (simp add: bm_rel_def)
  then have u: "unat (of_nat n :: u32) = n" if "n \<in> set ns" for n using that by (simp add: unat_of_nat)
  have "unat ` set (bm_ids b) = unat ` P" using u ns(1,2) assms by (force simp: bm_rel_def image_image)
  then show "set (bm_ids b) = P" by (simp add: inj_image_eq_iff [OF inj_unat])
  have "sorted_wrt (\<lambda>x y. (of_nat x :: u32) < of_nat y) ns"
    using ns(3) by (rule sorted_wrt_mono_rel [rotated]) (simp add: word_less_nat_alt u)
  then show "strict (bm_ids b)" by (simp add: ns(1) sorted_wrt_map)
qed

lemma bm_live_count_correct: "bm_rel b P \<Longrightarrow> bm_live_count b = card P"
  using card_image [OF inj_unat, of P] wset_card [of "cv_iter b"] by (simp add: bm_rel_def bm_live_count_def)

section \<open>The string table\<close>

definition si_rel :: "hash_fn \<Rightarrow> str_intern \<Rightarrow> string list \<Rightarrow> bool" where
  "si_rel hash t strs \<longleftrightarrow> cv_inv (si_values t) \<and> cv_iter (si_values t) = map VStr strs \<and> length strs \<le> 2 ^ 32 \<and>
     (\<exists>K. hi_rel hash (si_index t) K \<and> (\<forall>s i. K s = Some i \<longrightarrow> unat i < length strs \<and> strs ! unat i = s))"

lemma si_new_rel: "si_rel hash si_new []"
  using hi.empty_law [of hash] by (auto simp: si_rel_def si_new_def intro!: exI [of _ Map.empty])

lemma si_get_correct: "si_rel hash t strs \<Longrightarrow> unat i < length strs \<Longrightarrow> si_get t i = Some (VStr (strs ! unat i))"
  by (simp add: si_rel_def si_get_def cv_get_iter)

lemma si_intern_correct:
  assumes rel: "si_rel hash t strs" and room: "length strs < 2 ^ 32"
  shows "\<exists>i t' more. si_intern hash t s = Some (i, t') \<and> si_rel hash t' (strs @ more) \<and> length more \<le> 1 \<and>
    unat i < length (strs @ more) \<and> (strs @ more) ! unat i = s"
proof -
  obtain K where K: "hi_rel hash (si_index t) K" "\<And>s i. K s = Some i \<Longrightarrow> unat i < length strs \<and> strs ! unat i = s"
    and v: "cv_inv (si_values t)" "cv_iter (si_values t) = map VStr strs"
    using rel by (auto simp: si_rel_def)
  have "resolves (si_resolver t) K" using K(2) v by (auto simp: resolves_def si_resolver_def cv_get_iter)
  then have find: "si_find t s (hash s) = K s" using hi.get_law [OF K(1)] by (simp add: si_find_def hi_get_def)
  show ?thesis
  proof (cases "K s")
    case (Some i)
    then show ?thesis using find K(2) rel by (intro exI [of _ i] exI [of _ t] exI [of _ "[]"]) (simp add: si_intern_def)
  next
    case None
    let ?i = "of_nat (length strs) :: u32"
    have l: "cv_len (si_values t) = length strs" "unat ?i = length strs"
      using cv_len_iter [OF v(1)] v(2) room by (simp_all add: unat_of_nat)
    obtain idx where idx: "hi_insert hash (si_index t) s ?i = Some idx" "hi_rel hash idx (K(s \<mapsto> ?i))"
      using hi.ins_law [OF K(1) None] by blast
    let ?t = "\<lparr> si_index = idx, si_values = cv_push (si_values t) (VStr s) \<rparr>"
    have "unat i < length (strs @ [s]) \<and> (strs @ [s]) ! unat i = s'" if "(K(s \<mapsto> ?i)) s' = Some i" for s' i
      using that K(2) [of s' i] l(2) by (cases "s' = s") (auto simp: nth_append)
    then have "si_rel hash ?t (strs @ [s])"
      unfolding si_rel_def using cv_push_iter [OF v(1)] v(2) room idx(2) by (intro conjI exI [of _ "K(s \<mapsto> ?i)"]) simp_all
    then show ?thesis using find None idx(1) l
      by (intro exI [of _ ?i] exI [of _ ?t] exI [of _ "[s]"]) (simp add: si_intern_def Let_def hi_insert_def)
  qed
qed

section \<open>A column as a map from nodes to values\<close>

text \<open>A vector with its bitmap holds the map \<open>m\<close>, \<open>R x v\<close> saying that slot \<open>x\<close> stands for the value \<open>v\<close>.\<close>

definition slots_rel :: "('a \<Rightarrow> val \<Rightarrow> bool) \<Rightarrow> 'a cow_vec \<Rightarrow> bitmap \<Rightarrow> nat \<Rightarrow> (u32 \<rightharpoonup> val) \<Rightarrow> bool" where
  "slots_rel R vals present live m \<longleftrightarrow> cv_inv vals \<and> bm_rel present (dom m) \<and> live = card (dom m) \<and>
     (\<forall>i v. m i = Some v \<longrightarrow> unat i < length (cv_iter vals) \<and> R (cv_iter vals ! unat i) v)"

definition str_slot :: "string list \<Rightarrow> u32 \<Rightarrow> val \<Rightarrow> bool" where
  "str_slot strs sid v \<longleftrightarrow> unat sid < length strs \<and> v = VStr (strs ! unat sid)"

text \<open>\<open>n\<close> is a bound on the writes the column has seen, \<open>strs\<close> the interned strings.\<close>

fun col_rel :: "nat \<Rightarrow> string list \<Rightarrow> column \<Rightarrow> (u32 \<rightharpoonup> val) \<Rightarrow> bool" where
  "col_rel n strs (CFixed k vals present live) m \<longleftrightarrow> card (dom m) \<le> n \<and> slots_rel (=) vals present live m \<and> (\<forall>v\<in>set (cv_iter vals). fixed_of v = Some k)"
| "col_rel n strs (CStr ids present live) m \<longleftrightarrow> card (dom m) \<le> n \<and> slots_rel (str_slot strs) ids present live m"
| "col_rel n strs (CBinary vals present live) m \<longleftrightarrow> card (dom m) \<le> n \<and> slots_rel (=) vals present live m \<and> (\<forall>v\<in>set (cv_iter vals). \<exists>b. v = VBinary b)"
| "col_rel n strs (CMixed mp) m \<longleftrightarrow> card (dom m) \<le> n \<and> cm_inv mp \<and> afforded n mp \<and> m = map_of (cm_entries mp)"

lemma slots_rel_mono: "slots_rel R vals present live m \<Longrightarrow> (\<And>x v. R x v \<Longrightarrow> S x v) \<Longrightarrow> slots_rel S vals present live m"
  by (simp add: slots_rel_def)

lemma str_slot_mono: "str_slot strs sid v \<Longrightarrow> str_slot (strs @ strs') sid v"
  by (auto simp: str_slot_def nth_append)

lemma col_rel_card: "col_rel n strs c m \<Longrightarrow> card (dom m) \<le> n"
  by (cases c) auto

lemma col_rel_mono: "col_rel n strs c m \<Longrightarrow> n \<le> n' \<Longrightarrow> col_rel n' (strs @ strs') c m"
  by (cases c) (auto simp: afforded_mono intro: slots_rel_mono str_slot_mono)

lemma slots_get:
  assumes "slots_rel R vals present live m"
  shows "bm_contains present node \<longleftrightarrow> m node \<noteq> None" "m node = Some v \<Longrightarrow> \<exists>x. cv_get vals (unat node) = Some x \<and> R x v"
  using assms bm_contains_correct [of present "dom m" node] by (auto simp: slots_rel_def cv_get_iter)

lemma slots_set:
  assumes "slots_rel R vals present live m" "R x v"
  shows "\<exists>vals' present' live'. slot_set fill vals present live node x = Some (vals', present', live') \<and>
    slots_rel R vals' present' live' (m(node \<mapsto> v)) \<and> set (cv_iter vals') \<subseteq> {x, fill} \<union> set (cv_iter vals)"
proof -
  note ok = assms(1) [unfolded slots_rel_def]
  define g where "g = (if cv_len vals \<le> unat node then cv_grow_to (unat node + 1) fill vals else vals)"
  obtain add where g: "cv_inv g" "cv_iter g = cv_iter vals @ add" "set add \<subseteq> {fill}" "unat node < length (cv_iter g)"
  proof (cases "cv_len vals \<le> unat node")
    case True
    show ?thesis
      by (rule that [of "replicate (unat node + 1 - cv_len vals) fill"])
        (use True cv_grow_to_iter [of vals "unat node + 1" fill] ok cv_len_iter [of vals] in \<open>auto simp: g_def\<close>)
  next
    case False
    show ?thesis by (rule that [of "[]"]) (use False ok cv_len_iter [of vals] in \<open>auto simp: g_def\<close>)
  qed
  obtain w where w: "cv_set g (unat node) x = Some w" "cv_inv w" "cv_iter w = (cv_iter g)[unat node := x]"
    using cv.put_in [OF g(1), of "unat node"] g(4) cv_len_iter [OF g(1)] by auto
  obtain b where b: "bm_set present node = Some (node \<notin> dom m, b)" "bm_rel b (insert node (dom m))" using bm_set_correct ok by blast
  have at: "unat i < length (cv_iter w) \<and> R (cv_iter w ! unat i) u" if "(m(node \<mapsto> v)) i = Some u" for i u
  proof (cases "i = node")
    case False
    then have "unat i \<noteq> unat node" by (auto dest: unsigned_word_eqI)
    moreover have "unat i < length (cv_iter vals)" "R (cv_iter vals ! unat i) u" using that False ok by auto
    ultimately show ?thesis using w(3) g(2) by (simp add: nth_append)
  qed (use that assms(2) w(3) g(4) in auto)
  have "finite (dom m)" by simp
  then have "slots_rel R w b (if node \<notin> dom m then live + 1 else live) (m(node \<mapsto> v))"
    unfolding slots_rel_def using ok w(2) b(2) at by (simp add: card_insert_if)
  moreover have "set (cv_iter w) \<subseteq> {x, fill} \<union> set (cv_iter vals)"
    using w(3) g(2,3) set_update_subset_insert [of "cv_iter g" "unat node" x] by auto
  ultimately show ?thesis using w(1) b(1) unfolding slot_set_def Let_def g_def [symmetric] by simp
qed

lemma slots_clear:
  assumes "slots_rel R vals present live m"
  shows "\<exists>present'. bm_clear present node = Some (m node \<noteq> None, present') \<and>
    (m node = None \<longrightarrow> slots_rel R vals present' live (m(node := None))) \<and>
    (m node \<noteq> None \<longrightarrow> usize_sub live 1 = Some (live - 1) \<and> slots_rel R vals present' (live - 1) (m(node := None)))"
proof -
  note ok = assms [unfolded slots_rel_def]
  obtain b where b: "bm_clear present node = Some (node \<in> dom m, b)" "bm_rel b (dom m - {node})" using bm_clear_correct ok by blast
  have dom: "dom (m(node := None)) = dom m - {node}" by auto
  have "0 < card (dom m)" if "m node \<noteq> None" using that by (auto simp: card_gt_0_iff)
  then have "m node \<noteq> None \<longrightarrow> usize_sub live 1 = Some (live - 1)" using ok by (auto simp: usize_sub_def Suc_le_eq)
  moreover have "slots_rel R vals b (card (dom m - {node})) (m(node := None))" unfolding slots_rel_def dom using ok b(2) by auto
  moreover have "card (dom m - {node}) = (if m node \<noteq> None then live - 1 else live)" using ok by (auto simp: card_Diff_singleton_if domIff)
  ultimately show ?thesis using b(1) by (auto simp: domIff split: if_splits)
qed

lemma map_opt_Some: "\<forall>x\<in>set xs. f x = Some (g x) \<Longrightarrow> map_opt f xs = Some (map g xs)"
  by (induction xs) auto

lemma slots_to_map:
  assumes "slots_rel R vals present live m" and "\<And>i x v. m i = Some v \<Longrightarrow> cv_get vals (unat i) = Some x \<Longrightarrow> R x v \<Longrightarrow> f i = Some (i, v)"
  shows "\<exists>es. map_opt f (bm_ids present) = Some es \<and> om_wf es \<and> map_of es = m"
proof (intro exI conjI)
  note ids = bm_ids_correct [of present "dom m"]
  have r: "bm_rel present (dom m)" using assms(1) by (simp add: slots_rel_def)
  have "f i = Some (i, the (m i))" if "i \<in> dom m" for i
    using that slots_get(2) [OF assms(1), of i "the (m i)"] assms(2) [of i "the (m i)"] by auto
  then show "map_opt f (bm_ids present) = Some (map (\<lambda>i. (i, the (m i))) (bm_ids present))" using ids(1) [OF r] by (intro map_opt_Some) simp
  show "om_wf (map (\<lambda>i. (i, the (m i))) (bm_ids present))" using ids(2) [OF r] by (simp add: comp_def)
  show "map_of (map (\<lambda>i. (i, the (m i))) (bm_ids present)) = m"
    using ids(1) [OF r] by (intro ext) (auto simp: map_of_map_restrict restrict_map_def)
qed

lemma col_to_map_correct:
  assumes "col_rel n strs c m" "si_rel hash t strs"
  shows "\<exists>es. col_to_map t c = Some es \<and> om_wf es \<and> map_of es = m"
proof (cases c)
  case (CMixed mp)
  then show ?thesis using assms(1) cm.wf_law [of mp] by (simp add: col_to_map_def)
qed (use assms in \<open>auto simp: col_to_map_def si_get_correct [OF assms(2)] str_slot_def intro!: slots_to_map\<close>)

lemma col_get_correct:
  assumes "col_rel n strs c m" "si_rel hash t strs"
  shows "col_get c node t = Some (m node)"
proof (cases c)
  case (CStr ids present live)
  then show ?thesis using assms(1) slots_get [of "str_slot strs" ids present live m node] si_get_correct [OF assms(2)]
    by (cases "m node") (auto simp: str_slot_def)
next
  case (CMixed mp)
  then show ?thesis using assms cm.get_law [of mp node] by simp
next
  case (CFixed k vals present live)
  then show ?thesis using assms(1) slots_get [of "(=)" vals present live m node] by (cases "m node") auto
next
  case (CBinary vals present live)
  then show ?thesis using assms(1) slots_get [of "(=)" vals present live m node] by (cases "m node") auto
qed

lemma card_insert_le: "card (insert x A) \<le> Suc (card A)"
  by (cases "finite A") (simp_all add: card_insert_if)

lemma mixed_insert:
  assumes "cm_inv mp" "afforded n mp" "map_of (cm_entries mp) = m" "card (dom m) \<le> n"
  shows "\<exists>mp'. cm_insert mp node v = Some (m node, mp') \<and> col_rel (Suc n) strs (CMixed mp') (m(node \<mapsto> v))"
proof -
  obtain mp' where mp': "cm_insert mp node v = Some (map_of (cm_entries mp) node, mp')" "cm_inv mp'" "cm_entries mp' = om_insert node v (cm_entries mp)"
    using cm.ins_law [OF assms(1)] by blast
  then show ?thesis using afforded_insert [OF assms(1,2) mp'(1)] assms(3,4) card_insert_le [of node "dom m"] by auto
qed

lemma take_map_correct:
  assumes "col_rel n strs c m" "si_rel hash t strs"
  shows "\<exists>mp. col_take_map t c = Some mp \<and> cm_inv mp \<and> afforded n mp \<and> map_of (cm_entries mp) = m"
proof (cases "\<exists>mp. c = CMixed mp")
  case False
  obtain es where es: "col_to_map t c = Some es" "om_wf es" "map_of es = m" using col_to_map_correct [OF assms] by blast
  have "sorted (map fst es)" using es(2) by (simp add: strict_sorted_imp_sorted)
  then have s: "sort_key fst es = es" by (rule sort_key_id_if_sorted)
  obtain mp where mp: "cm_from_sorted es = Some mp" "cm_inv mp" "cm_entries mp = es" using cm_from_sorted_correct [OF es(2)] .
  have "length es = card (dom m)"
    using es(2,3) distinct_card [of "map fst es"] by (auto simp: dom_map_of_conv_image_fst strict_sorted_iff)
  then have "afforded n mp" using from_sorted_afforded [OF es(2) mp(1)] afforded_mono col_rel_card [OF assms(1)] by auto
  then show ?thesis using False es(1,3) s mp by (cases c) (auto simp: col_take_map_def)
qed (use assms in \<open>auto simp: col_take_map_def\<close>)

lemma filler_fixed [simp]: "fixed_of (filler k) = Some k"
  by (cases k) simp_all

lemma col_set_correct:
  assumes rel: "col_rel n strs c m" and t: "si_rel hash t strs" and room: "length strs < 2 ^ 32"
  shows "\<exists>c' t' add. col_set hash c node v t = Some (c', t') \<and> si_rel hash t' (strs @ add) \<and> length add \<le> 1 \<and>
    col_rel (Suc n) (strs @ add) c' (m(node \<mapsto> v))"
proof -
  have card: "card (insert node (dom m)) \<le> Suc n" using card_insert_le [of node "dom m"] col_rel_card [OF rel] by auto
  have same: ?thesis if "col_set hash c node v t = Some (c', t)" "col_rel (Suc n) strs c' (m(node \<mapsto> v))" for c'
    using that t by (intro exI [of _ c'] exI [of _ t] exI [of _ "[]"]) simp
  show ?thesis
  proof (cases "col_accepts c v")
    case False
    obtain mp where mp: "col_take_map t c = Some mp" "cm_inv mp" "afforded n mp" "map_of (cm_entries mp) = m"
      using take_map_correct [OF rel t] by blast
    then obtain mp' where "cm_insert mp node v = Some (m node, mp')" "col_rel (Suc n) strs (CMixed mp') (m(node \<mapsto> v))"
      using mixed_insert [OF mp(2-4)] col_rel_card [OF rel] by blast
    then show ?thesis using False mp(1) by (intro same) (simp_all add: col_set_def del: col_rel.simps)
  next
    case acc: True
    show ?thesis
    proof (cases c)
      case (CFixed k vals present live)
      then obtain vals' present' live' where "slot_set (filler k) vals present live node v = Some (vals', present', live')"
        "slots_rel (=) vals' present' live' (m(node \<mapsto> v))" "set (cv_iter vals') \<subseteq> {v, filler k} \<union> set (cv_iter vals)"
        using slots_set [of "(=)" vals present live m v v "filler k" node] rel by auto
      then show ?thesis using CFixed acc rel card by (intro same [of "CFixed k vals' present' live'"]) (auto simp: col_set_def)
    next
      case (CBinary vals present live)
      obtain b where v: "v = VBinary b" using acc CBinary by (auto split: val.splits)
      obtain vals' present' live' where "slot_set empty_binary vals present live node v = Some (vals', present', live')"
        "slots_rel (=) vals' present' live' (m(node \<mapsto> v))" "set (cv_iter vals') \<subseteq> {v, empty_binary} \<union> set (cv_iter vals)"
        using slots_set [of "(=)" vals present live m v v empty_binary node] rel CBinary by auto
      then show ?thesis using CBinary rel card v
        by (intro same [of "CBinary vals' present' live'"]) (auto simp: col_set_def empty_binary_def)
    next
      case (CStr ids present live)
      obtain s where v: "v = VStr s" using acc CStr by (auto split: val.splits)
      obtain sid t' add where i: "si_intern hash t s = Some (sid, t')" "si_rel hash t' (strs @ add)" "length add \<le> 1"
        "unat sid < length (strs @ add)" "(strs @ add) ! unat sid = s" using si_intern_correct [OF t room] by blast
      have r: "slots_rel (str_slot (strs @ add)) ids present live m" using col_rel_mono [OF rel order_refl] CStr by simp
      have "str_slot (strs @ add) sid v" using i(4,5) v by (simp add: str_slot_def)
      then obtain ids' present' live' where "slot_set 0 ids present live node sid = Some (ids', present', live')"
        "slots_rel (str_slot (strs @ add)) ids' present' live' (m(node \<mapsto> v))"
        using slots_set [OF r, of sid v 0 node] by blast
      then show ?thesis using CStr i(1-3) v card
        by (intro exI [of _ "CStr ids' present' live'"] exI [of _ t'] exI [of _ add]) (simp add: col_set_def)
    next
      case (CMixed mp)
      then obtain mp' where "cm_insert mp node v = Some (m node, mp')" "col_rel (Suc n) strs (CMixed mp') (m(node \<mapsto> v))"
        using mixed_insert [of mp n m node v strs] rel by auto
      then show ?thesis using CMixed by (intro same) (simp_all add: col_set_def del: col_rel.simps)
    qed
  qed
qed

lemma col_remove_correct:
  assumes rel: "col_rel n strs c m" and t: "si_rel hash t strs" and n: "n < 2 ^ 64"
  shows "\<exists>c'. col_remove c node t = Some (m node, c') \<and> col_rel n strs c' (m(node := None))"
proof -
  have card: "card (dom m - {node}) \<le> n" using card_mono [of "dom m" "dom m - {node}"] col_rel_card [OF rel] by auto
  show ?thesis
  proof (cases c)
    case (CFixed k vals present live)
    then have r: "slots_rel (=) vals present live m" using rel by simp
    from slots_clear [OF r] obtain b where b: "bm_clear present node = Some (m node \<noteq> None, b)"
      "m node = None \<longrightarrow> slots_rel (=) vals b live (m(node := None))"
      "m node \<noteq> None \<longrightarrow> usize_sub live 1 = Some (live - 1) \<and> slots_rel (=) vals b (live - 1) (m(node := None))" by blast
    then show ?thesis using CFixed rel card slots_get(2) [OF r, of node] by (cases "m node") auto
  next
    case (CStr ids present live)
    then have r: "slots_rel (str_slot strs) ids present live m" using rel by simp
    from slots_clear [OF r] obtain b where b: "bm_clear present node = Some (m node \<noteq> None, b)"
      "m node = None \<longrightarrow> slots_rel (str_slot strs) ids b live (m(node := None))"
      "m node \<noteq> None \<longrightarrow> usize_sub live 1 = Some (live - 1) \<and> slots_rel (str_slot strs) ids b (live - 1) (m(node := None))" by blast
    then show ?thesis using CStr rel card slots_get(2) [OF r, of node] si_get_correct [OF t]
      by (cases "m node") (auto simp: str_slot_def)
  next
    case (CBinary vals present live)
    then have r: "slots_rel (=) vals present live m" using rel by simp
    from slots_clear [OF r] obtain b where b: "bm_clear present node = Some (m node \<noteq> None, b)"
      "m node = None \<longrightarrow> slots_rel (=) vals b live (m(node := None))"
      "m node \<noteq> None \<longrightarrow> usize_sub live 1 = Some (live - 1) \<and> slots_rel (=) vals b (live - 1) (m(node := None))" by blast
    show ?thesis
    proof (cases "m node")
      case (Some v)
      then have at: "cv_get vals (unat node) = Some v" "cv_inv vals" "unat node < length (cv_iter vals)"
        using slots_get(2) [OF r Some] r by (auto simp: slots_rel_def)
      obtain w where w: "cv_get_mut vals (unat node) empty_binary = Some w" "cv_inv w" "cv_iter w = (cv_iter vals)[unat node := empty_binary]"
        using cv_get_mut_in [OF at(2), of "unat node" empty_binary] at(3) cv_len_iter [OF at(2)] by metis
      have "cv_iter w ! unat i = cv_iter vals ! unat i" if "i \<noteq> node" for i
        using that w(3) by (metis nth_list_update_neq unsigned_word_eqI)
      then have "slots_rel (=) w b (live - 1) (m(node := None))" using b(3) w(2,3) Some by (auto simp: slots_rel_def)
      moreover have "set (cv_iter w) \<subseteq> insert empty_binary (set (cv_iter vals))" using w(3) by (simp add: set_update_subset_insert)
      ultimately show ?thesis using CBinary rel b card Some at(1) w(1) by (auto simp: cv_replace_def empty_binary_def)
    qed (use CBinary rel card b in auto)
  next
    case (CMixed mp)
    then have "cm_inv mp" "cm_height mp \<le> MAX_DEPTH" using rel n afforded_height [of n mp 15] by auto
    then obtain mp' where mp': "cm_remove mp node = Some (m node, mp')" "cm_inv mp'" "cm_entries mp' = om_remove node (cm_entries mp)"
      using cm.del_law [of mp node] CMixed rel by auto
    then show ?thesis using CMixed rel card afforded_remove [OF _ mp'(1)] by auto
  qed
qed

lemma col_is_empty_correct: "col_rel n strs c m \<Longrightarrow> col_is_empty c \<longleftrightarrow> m = Map.empty"
  by (cases c) (auto simp: slots_rel_def cm_is_empty_def cm_inv_def)

lemma col_start_rel: "col_rel 0 strs (col_start v) Map.empty"
  by (cases v) (auto simp: col_start_def slots_rel_def cm.empty_law afforded_def cm_new_def cm_inv_def cm_entries_def)

section \<open>The store as the properties of nodes\<close>

type_synonym node_props = "u32 \<Rightarrow> string \<Rightarrow> val option"

text \<open>The interface of a store of properties: \<open>n\<close> bounds the writes so far, and a write panics at most where ids run out.\<close>

datatype prop_op = SetOp u32 string val | RemoveOp u32 string | RemoveAllOp u32 | TombstoneOp u32 string

fun props_spec :: "prop_op \<Rightarrow> node_props \<Rightarrow> node_props" where
  "props_spec (SetOp node field v) M = M(node := (M node)(field \<mapsto> v))"
| "props_spec (RemoveOp node field) M = M(node := (M node)(field := None))"
| "props_spec (RemoveAllOp node) M = M(node := Map.empty)"
| "props_spec (TombstoneOp node field) M = M"

fun tombs_spec :: "prop_op \<Rightarrow> (u32 \<times> string) set \<Rightarrow> (u32 \<times> string) set" where
  "tombs_spec (TombstoneOp node field) T = insert (node, field) T"
| "tombs_spec _ T = T"

fun run_props :: "(prop_op \<Rightarrow> 's \<Rightarrow> 's option) \<Rightarrow> prop_op list \<Rightarrow> 's \<Rightarrow> 's option" where
  "run_props step [] s = Some s"
| "run_props step (op # ops) s = step op s \<bind> run_props step ops"

locale prop_store =
  fixes step :: "prop_op \<Rightarrow> 's \<Rightarrow> 's option"
    and start :: 's
    and rel :: "nat \<Rightarrow> 's \<Rightarrow> node_props \<Rightarrow> (u32 \<times> string) set \<Rightarrow> bool"
    and limit :: nat
  assumes start_law: "rel 0 start (\<lambda>_. Map.empty) {}"
    and step_law: "rel n s M T \<Longrightarrow> n < limit \<Longrightarrow> \<exists>s'. step op s = Some s' \<and> rel (Suc n) s' (props_spec op M) (tombs_spec op T)"
begin

lemma run_rel:
  "rel n s M T \<Longrightarrow> n + length ops \<le> limit \<Longrightarrow> \<exists>s'. run_props step ops s = Some s' \<and> rel (n + length ops) s' (fold props_spec ops M) (fold tombs_spec ops T)"
proof (induction ops arbitrary: n s M T)
  case (Cons op ops)
  obtain s1 where s1: "step op s = Some s1" "rel (Suc n) s1 (props_spec op M) (tombs_spec op T)"
    using step_law [OF Cons.prems(1), of op] Cons.prems(2) by auto
  then show ?case using Cons.IH [OF s1(2)] Cons.prems(2) by simp
qed simp

lemma run_start: "length ops \<le> limit \<Longrightarrow> \<exists>s. run_props step ops start = Some s \<and> rel (length ops) s (fold props_spec ops (\<lambda>_. Map.empty)) (fold tombs_spec ops {})"
  using run_rel [OF start_law, of ops] by simp

end

definition cs_rel :: "hash_fn \<Rightarrow> nat \<Rightarrow> column_store \<Rightarrow> node_props \<Rightarrow> (u32 \<times> string) set \<Rightarrow> bool" where
  "cs_rel hash n s M T \<longleftrightarrow>
     (\<exists>strs. si_rel hash (cs_intern s) strs \<and> length strs \<le> n \<and>
        (\<forall>field col. map_of (cs_cols s) field = Some col \<longrightarrow> col_rel n strs col (\<lambda>i. M i field) \<and> (\<lambda>i. M i field) \<noteq> Map.empty)) \<and>
     (\<forall>field. map_of (cs_cols s) field = None \<longrightarrow> (\<forall>i. M i field = None)) \<and> distinct (map fst (cs_cols s)) \<and>
     cm_inv (cs_tombstones s) \<and> afforded n (cs_tombstones s) \<and>
     (\<forall>i field. (i, field) \<in> T \<longleftrightarrow> (\<exists>fs. map_of (cm_entries (cs_tombstones s)) i = Some fs \<and> field |\<in>| fs))"

lemma cs_relD:
  assumes "cs_rel hash n s M T"
  obtains strs where "si_rel hash (cs_intern s) strs" "length strs \<le> n"
    "\<And>field col. map_of (cs_cols s) field = Some col \<Longrightarrow> col_rel n strs col (\<lambda>i. M i field)"
    "\<And>field col. map_of (cs_cols s) field = Some col \<Longrightarrow> (\<lambda>i. M i field) \<noteq> Map.empty"
    "\<And>field i. map_of (cs_cols s) field = None \<Longrightarrow> M i field = None"
  using assms unfolding cs_rel_def by blast

lemma cs_rel_absent: "cs_rel hash n s M T \<Longrightarrow> map_of (cs_cols s) field = None \<Longrightarrow> M i field = None"
  by (simp add: cs_rel_def)

lemma cs_get_correct: "cs_rel hash n s M T \<Longrightarrow> cs_get s node field = Some (M node field)"
proof -
  assume "cs_rel hash n s M T"
  then obtain strs where D: "si_rel hash (cs_intern s) strs"
    "\<And>field col. map_of (cs_cols s) field = Some col \<Longrightarrow> col_rel n strs col (\<lambda>i. M i field)"
    "\<And>field i. map_of (cs_cols s) field = None \<Longrightarrow> M i field = None" by (rule cs_relD) blast
  then show ?thesis using col_get_correct [OF D(2) D(1), of field] by (cases "map_of (cs_cols s) field") (auto simp: cs_get_def)
qed

lemma cs_new_rel: "cs_rel hash 0 cs_new (\<lambda>_. Map.empty) {}"
  using si_new_rel [of hash] by (auto simp: cs_rel_def cs_new_def cm.empty_law afforded_def cm_new_def cm_inv_def cm_entries_def)

lemma cs_set_correct:
  assumes rel: "cs_rel hash n s M T" and n: "n < 2 ^ 32"
  shows "\<exists>s'. cs_set hash s node field v = Some s' \<and> cs_rel hash (Suc n) s' (M(node := (M node)(field \<mapsto> v))) T"
proof -
  obtain strs where D: "si_rel hash (cs_intern s) strs" "length strs \<le> n"
    "\<And>field col. map_of (cs_cols s) field = Some col \<Longrightarrow> col_rel n strs col (\<lambda>i. M i field)"
    "\<And>field col. map_of (cs_cols s) field = Some col \<Longrightarrow> (\<lambda>i. M i field) \<noteq> Map.empty"
    "\<And>field i. map_of (cs_cols s) field = None \<Longrightarrow> M i field = None" using cs_relD [OF rel] by metis
  define c where "c = (case map_of (cs_cols s) field of Some col \<Rightarrow> col | None \<Rightarrow> col_start v)"
  have c: "col_rel n strs c (\<lambda>i. M i field)"
  proof (cases "map_of (cs_cols s) field")
    case None
    then have "(\<lambda>i. M i field) = Map.empty" using D(5) by auto
    then show ?thesis using None col_rel_mono [OF col_start_rel [of strs v], of n "[]"] by (simp add: c_def)
  qed (use D(3) in \<open>simp add: c_def\<close>)
  obtain c' t' add where set: "col_set hash c node v (cs_intern s) = Some (c', t')" "si_rel hash t' (strs @ add)" "length add \<le> 1"
    "col_rel (Suc n) (strs @ add) c' ((\<lambda>i. M i field)(node \<mapsto> v))" using col_set_correct [OF c D(1)] D(2) n by fastforce
  let ?M = "M(node := (M node)(field \<mapsto> v))"
  let ?s = "s \<lparr> cs_cols := AList.update field c' (cs_cols s), cs_intern := t' \<rparr>"
  have M: "(\<lambda>i. ?M i field) = (\<lambda>i. M i field)(node \<mapsto> v)" "f \<noteq> field \<Longrightarrow> (\<lambda>i. ?M i f) = (\<lambda>i. M i f)" for f by auto
  have cols: "col_rel (Suc n) (strs @ add) col (\<lambda>i. ?M i f) \<and> (\<lambda>i. ?M i f) \<noteq> Map.empty" if "map_of (cs_cols ?s) f = Some col" for f col
  proof (cases "f = field")
    case True
    then show ?thesis using that set(4) unfolding True M(1) by (auto simp: update_conv fun_eq_iff)
  next
    case False
    then show ?thesis using that D(3,4) col_rel_mono [of n strs col "\<lambda>i. M i f" "Suc n" add] unfolding M(2) [OF False] by (simp add: update_conv)
  qed
  have "cs_rel hash (Suc n) ?s ?M T"
    using rel cols set(2,3) D(2,5) unfolding cs_rel_def
    by (intro conjI exI [of _ "strs @ add"]) (auto simp: update_conv distinct_update afforded_mono)
  moreover have "cs_set hash s node field v = Some ?s"
    using set(1) by (cases "map_of (cs_cols s) field") (simp_all add: cs_set_def c_def col_from_first_def)
  ultimately show ?thesis by blast
qed

lemma cs_rel_mono: "cs_rel hash n s M T \<Longrightarrow> n \<le> n' \<Longrightarrow> cs_rel hash n' s M T"
proof -
  assume rel: "cs_rel hash n s M T" and le: "n \<le> n'"
  have "col_rel n' strs col m" if "col_rel n strs col m" for strs col m using col_rel_mono [OF that le, of "[]"] by simp
  then show ?thesis using rel le unfolding cs_rel_def by (auto simp: afforded_mono)
qed

lemma cs_remove_correct:
  assumes rel: "cs_rel hash n s M T" and n: "n < 2 ^ 64"
  shows "\<exists>s'. cs_remove s node field = Some (M node field, s') \<and> cs_rel hash n s' (M(node := (M node)(field := None))) T"
proof -
  obtain strs where D: "si_rel hash (cs_intern s) strs" "length strs \<le> n"
    "\<And>field col. map_of (cs_cols s) field = Some col \<Longrightarrow> col_rel n strs col (\<lambda>i. M i field)"
    "\<And>field col. map_of (cs_cols s) field = Some col \<Longrightarrow> (\<lambda>i. M i field) \<noteq> Map.empty"
    "\<And>field i. map_of (cs_cols s) field = None \<Longrightarrow> M i field = None" using cs_relD [OF rel] by metis
  let ?M = "M(node := (M node)(field := None))"
  have same: "?M = M" if "M node field = None" using that by (auto simp: fun_eq_iff)
  show ?thesis
  proof (cases "map_of (cs_cols s) field")
    case None
    then show ?thesis using rel D(5) [OF None] same by (simp add: cs_remove_def)
  next
    case (Some col)
    note get = col_get_correct [OF D(3) [OF Some] D(1), of node]
    obtain c' where c': "col_remove col node (cs_intern s) = Some (M node field, c')" "col_rel n strs c' ((\<lambda>i. M i field)(node := None))"
      using col_remove_correct [OF D(3) [OF Some] D(1) n] by auto
    show ?thesis
    proof (cases "M node field")
      case None
      then show ?thesis using Some get rel same by (simp add: cs_remove_def)
    next
      case v: (Some v)
      have M: "(\<lambda>i. ?M i field) = (\<lambda>i. M i field)(node := None)" "f \<noteq> field \<Longrightarrow> (\<lambda>i. ?M i f) = (\<lambda>i. M i f)" for f by auto
      have e: "col_is_empty c' \<longleftrightarrow> (\<lambda>i. M i field)(node := None) = Map.empty" using col_is_empty_correct [OF c'(2)] .
      let ?cols = "if col_is_empty c' then AList.delete field (cs_cols s) else AList.update field c' (cs_cols s)"
      let ?s = "s \<lparr> cs_cols := ?cols \<rparr>"
      have cols: "col_rel n strs col (\<lambda>i. ?M i f) \<and> (\<lambda>i. ?M i f) \<noteq> Map.empty" if "map_of ?cols f = Some col" for f col
      proof (cases "f = field")
        case True
        then show ?thesis using that c'(2) e unfolding True M(1) by (auto simp: update_conv delete_conv split: if_splits)
      next
        case False
        then show ?thesis using that D(3,4) unfolding M(2) [OF False] by (auto simp: update_conv delete_conv split: if_splits)
      qed
      have none: "?M i f = None" if "map_of ?cols f = None" for i f
        using that D(5) e by (cases "f = field") (auto simp: update_conv delete_conv fun_eq_iff split: if_splits)
      have "cs_rel hash n ?s ?M T"
        using rel cols none D(1,2) unfolding cs_rel_def by (auto simp: distinct_update distinct_delete simp del: fun_upd_apply)
      then show ?thesis using Some get c'(1) v by (auto simp: cs_remove_def)
    qed
  qed
qed

lemma retain_correct:
  assumes "\<And>field col. map_of cols field = Some col \<Longrightarrow> \<exists>c'. f col = Some c' \<and> P field c'" "distinct (map fst cols)"
  shows "\<exists>out. retain_cols f cols = Some out \<and> distinct (map fst out) \<and> fst ` set out \<subseteq> fst ` set cols \<and>
    (\<forall>field. map_of out field = (case map_of cols field of None \<Rightarrow> None | Some col \<Rightarrow> if col_is_empty (the (f col)) then None else f col))"
  using assms
proof (induction cols)
  case (Cons fc cols)
  obtain g col where fc: "fc = (g, col)" by (cases fc)
  obtain c' where c': "f col = Some c'" using Cons.prems(1) [of g col] fc by auto
  have "\<exists>c'. f col = Some c' \<and> P field c'" if "map_of cols field = Some col" for field col
    using Cons.prems(1) [of field col] that Cons.prems(2) fc by (force dest: map_of_SomeD)
  then obtain out where out: "retain_cols f cols = Some out" "distinct (map fst out)" "fst ` set out \<subseteq> fst ` set cols"
    "\<And>field. map_of out field = (case map_of cols field of None \<Rightarrow> None | Some col \<Rightarrow> if col_is_empty (the (f col)) then None else f col)"
    using Cons.IH Cons.prems(2) by auto
  have "map_of out g = None" using out(4) [of g] Cons.prems(2) fc by (simp add: map_of_eq_None_iff [THEN iffD2])
  then show ?case using out fc c' Cons.prems(2) by (auto simp: map_of_eq_None_iff)
qed simp

lemma cs_remove_all_correct:
  assumes rel: "cs_rel hash n s M T" and n: "n < 2 ^ 64"
  shows "\<exists>s'. cs_remove_all s node = Some s' \<and> cs_rel hash n s' (M(node := Map.empty)) T"
proof -
  obtain strs where D: "si_rel hash (cs_intern s) strs" "length strs \<le> n"
    "\<And>field col. map_of (cs_cols s) field = Some col \<Longrightarrow> col_rel n strs col (\<lambda>i. M i field)"
    "\<And>field col. map_of (cs_cols s) field = Some col \<Longrightarrow> (\<lambda>i. M i field) \<noteq> Map.empty"
    "\<And>field i. map_of (cs_cols s) field = None \<Longrightarrow> M i field = None" using cs_relD [OF rel] by metis
  let ?f = "\<lambda>col. do { there \<leftarrow> col_get col node (cs_intern s);
    if there \<noteq> None then map_option snd (col_remove col node (cs_intern s)) else Some col }"
  let ?M = "M(node := Map.empty)"
  have f: "\<exists>c'. ?f col = Some c' \<and> col_rel n strs c' (\<lambda>i. ?M i field)" if m: "map_of (cs_cols s) field = Some col" for field col
  proof -
    have M: "(\<lambda>i. ?M i field) = (\<lambda>i. M i field)(node := None)" by auto
    have "(\<lambda>i. M i field)(node := None) = (\<lambda>i. M i field)" if "M node field = None" using that by auto
    then show ?thesis unfolding M using col_get_correct [OF D(3) [OF m] D(1), of node] col_remove_correct [OF D(3) [OF m] D(1) n, of node] D(3) [OF m]
      by (cases "M node field") auto
  qed
  have dist: "distinct (map fst (cs_cols s))" using rel by (simp add: cs_rel_def)
  obtain out where out: "retain_cols ?f (cs_cols s) = Some out" "distinct (map fst out)"
    "\<And>field. map_of out field = (case map_of (cs_cols s) field of None \<Rightarrow> None | Some col \<Rightarrow> if col_is_empty (the (?f col)) then None else ?f col)"
    using retain_correct [of "cs_cols s" ?f "\<lambda>field c'. col_rel n strs c' (\<lambda>i. ?M i field)", OF f dist] by blast
  have "col_rel n strs col (\<lambda>i. ?M i field) \<and> (\<lambda>i. ?M i field) \<noteq> Map.empty" if "map_of out field = Some col" for field col
    using that f [of field] col_is_empty_correct [of n strs col "\<lambda>i. ?M i field"] unfolding out(3) by (auto split: option.splits if_splits)
  moreover have "?M i field = None" if "map_of out field = None" for field i
  proof (cases "map_of (cs_cols s) field")
    case (Some c)
    obtain c' where c': "?f c = Some c'" "col_rel n strs c' (\<lambda>i. ?M i field)" using f [OF Some] by blast
    then have "col_is_empty c'" using that Some unfolding out(3) by (auto split: if_splits)
    then show ?thesis using col_is_empty_correct [OF c'(2)] by meson
  qed (use D(5) in auto)
  ultimately have "cs_rel hash n (s \<lparr> cs_cols := out \<rparr>) ?M T"
    using rel out(2) D(1,2) unfolding cs_rel_def by (auto simp del: fun_upd_apply)
  then show ?thesis using out(1) by (simp add: cs_remove_all_def)
qed

lemma get_or_insert_afforded:
  assumes "cm_inv m" "afforded n m" "cm_get_or_insert_with m k d f = Some m'"
  shows "afforded (Suc n) m'"
proof -
  obtain there m1 where "cm_contains_key m k = Some there" "(if there then Some m else map_option snd (cm_insert m k d)) = Some m1"
    "cm_modify m1 k f = Some (Some m')" using assms(3) by (auto simp: cm_get_or_insert_with_def split: bind_splits)
  then show ?thesis
    using afforded_modify [of "Suc n" m1 k f m'] afforded_insert [OF assms(1,2), of k d] afforded_mono [OF assms(2), of "Suc n"]
    by (auto split: if_splits)
qed

lemma cs_tombstone_correct:
  assumes rel: "cs_rel hash n s M T" and n: "n < 2 ^ 32"
  shows "\<exists>s'. cs_record_prop_tombstone s node field = Some s' \<and> cs_rel hash (Suc n) s' M (insert (node, field) T)"
proof -
  have D: "cm_inv (cs_tombstones s)" "afforded n (cs_tombstones s)"
    "\<And>i f. (i, f) \<in> T \<longleftrightarrow> (\<exists>fs. map_of (cm_entries (cs_tombstones s)) i = Some fs \<and> f |\<in>| fs)" using rel by (auto simp: cs_rel_def)
  have "cm_height m' \<le> MAX_DEPTH" if "cm_insert (cs_tombstones s) node {||} = Some (old, m')" for old m'
    using afforded_height [OF afforded_insert [OF D(1,2) that], of 15] n by simp
  moreover have "cm_height (cs_tombstones s) \<le> MAX_DEPTH" using afforded_height [OF D(2), of 15] n by simp
  ultimately obtain m' where m': "cm_get_or_insert_with (cs_tombstones s) node {||} (finsert field) = Some m'" "cm_inv m'"
    "cm_entries m' = om_insert node (finsert field (case map_of (cm_entries (cs_tombstones s)) node of Some v \<Rightarrow> v | None \<Rightarrow> {||})) (cm_entries (cs_tombstones s))"
    using cm_get_or_insert_with_correct [OF D(1), of node "{||}" "finsert field"] by metis
  have "(i, f) \<in> insert (node, field) T \<longleftrightarrow> (\<exists>fs. map_of (cm_entries m') i = Some fs \<and> f |\<in>| fs)" for i f
    using D(3) [of i f] unfolding m'(3) by (auto split: option.splits)
  moreover have "afforded (Suc n) m'" by (rule get_or_insert_afforded [OF D(1,2) m'(1)])
  ultimately have "cs_rel hash (Suc n) (s \<lparr> cs_tombstones := m' \<rparr>) M (insert (node, field) T)"
    using cs_rel_mono [OF rel, of "Suc n"] m'(2) unfolding cs_rel_def by (simp del: map_of_eq_Some_iff)
  then show ?thesis using m'(1) by (simp add: cs_record_prop_tombstone_def)
qed

lemma cs_is_tombstoned_correct: "cs_rel hash n s M T \<Longrightarrow> cs_is_tombstoned s node field = Some ((node, field) \<in> T)"
  by (auto simp: cs_rel_def cs_is_tombstoned_def cm.get_law split: option.splits)

fun cs_step :: "hash_fn \<Rightarrow> prop_op \<Rightarrow> column_store \<Rightarrow> column_store option" where
  "cs_step hash (SetOp node field v) s = cs_set hash s node field v"
| "cs_step hash (RemoveOp node field) s = map_option snd (cs_remove s node field)"
| "cs_step hash (RemoveAllOp node) s = cs_remove_all s node"
| "cs_step hash (TombstoneOp node field) s = cs_record_prop_tombstone s node field"

interpretation cs: prop_store "cs_step hash" cs_new "cs_rel hash" "2 ^ 32" for hash
proof
  fix n s M T op
  assume rel: "cs_rel hash n s M T" and n: "n < 2 ^ 32"
  have big: "n < 2 ^ 64" using n by simp
  have mono: "cs_rel hash (Suc n) s' M' T'" if "cs_rel hash n s' M' T'" for s' M' T' using cs_rel_mono [OF that] by simp
  show "\<exists>s'. cs_step hash op s = Some s' \<and> cs_rel hash (Suc n) s' (props_spec op M) (tombs_spec op T)"
  proof (cases op)
    case (SetOp node field v)
    then show ?thesis using cs_set_correct [OF rel n, of node field v] by simp
  next
    case (RemoveOp node field)
    then show ?thesis using cs_remove_correct [OF rel big, of node field] mono by force
  next
    case (RemoveAllOp node)
    then show ?thesis using cs_remove_all_correct [OF rel big, of node] mono by force
  next
    case (TombstoneOp node field)
    then show ?thesis using cs_tombstone_correct [OF rel n, of node field] by simp
  qed
qed (rule cs_new_rel)

section \<open>Properties\<close>

text \<open>C15: the columns hold the properties that were written. After any history of up to \<open>2^32\<close> writes, removals, node removals and
  tombstones, whatever types the values have and however a field's column changed shape for them, no operation has panicked; a lookup, directly or
  through a resolved column, returns the last value written and not removed since; a removal returns the value it removes; the fields listed are
  those some node has a value of; and a property counts as deleted below exactly when that was recorded.\<close>

theorem columns_hold_properties:
  assumes "length ops \<le> 2 ^ 32"
  shows "\<exists>s. run_props (cs_step hash) ops cs_new = Some s \<and>
    (let M = fold props_spec ops (\<lambda>_. Map.empty) in
     (\<forall>node field. cs_get s node field = Some (M node field) \<and> handle_get s (cs_column s field) node = Some (M node field) \<and>
        (\<exists>s'. cs_remove s node field = Some (M node field, s'))) \<and>
     set (cs_fields s) = {field. \<exists>node. M node field \<noteq> None} \<and> distinct (cs_fields s) \<and>
     (\<forall>node field. cs_is_tombstoned s node field = Some ((node, field) \<in> fold tombs_spec ops {})))"
proof -
  let ?M = "fold props_spec ops (\<lambda>_. Map.empty)" and ?T = "fold tombs_spec ops {}"
  obtain s where s: "run_props (cs_step hash) ops cs_new = Some s" "cs_rel hash (length ops) s ?M ?T" using cs.run_start [OF assms] by blast
  have n: "length ops < 2 ^ 64" using assms by simp
  have get: "cs_get s node field = Some (?M node field)" "handle_get s (cs_column s field) node = Some (?M node field)" for node field
    using cs_get_correct [OF s(2), of node field] by (simp_all add: cs_get_def handle_get_def cs_column_def)
  have "set (cs_fields s) = {field. map_of (cs_cols s) field \<noteq> None}" by (auto simp: cs_fields_def map_of_eq_None_iff image_iff)
  also have "\<dots> = {field. \<exists>node. ?M node field \<noteq> None}"
    using s(2) unfolding cs_rel_def fun_eq_iff by (metis (no_types, lifting) not_None_eq)
  finally have fields: "set (cs_fields s) = {field. \<exists>node. ?M node field \<noteq> None}" "distinct (cs_fields s)"
    using s(2) by (simp_all add: cs_rel_def cs_fields_def)
  show ?thesis
    using s(1) get fields cs_remove_correct [OF s(2) n] cs_is_tombstoned_correct [OF s(2)] unfolding Let_def by blast
qed

definition mixed_history :: "prop_op list" where
  "mixed_history = [SetOp 1 ''age'' (VInt 3), SetOp 2 ''age'' (VStr ''four''), RemoveOp 1 ''age'', TombstoneOp 7 ''age'']"

theorem columns_hold_properties_witness:
  "\<exists>s. run_props (cs_step (\<lambda>_. 0)) mixed_history cs_new = Some s \<and> cs_get s 1 ''age'' = Some None \<and> cs_get s 2 ''age'' = Some (Some (VStr ''four'')) \<and>
     cs_is_tombstoned s 7 ''age'' = Some True \<and> set (cs_fields s) = {''age''}"
proof -
  let ?M = "fold props_spec mixed_history (\<lambda>_. Map.empty)"
  have M: "?M = (\<lambda>_. Map.empty)(1 := Map.empty(''age'' := None), 2 := [''age'' \<mapsto> VStr ''four''])" "(7, ''age'') \<in> fold tombs_spec mixed_history {}"
    by (auto simp: mixed_history_def fun_eq_iff)
  have "{field. \<exists>node. ?M node field \<noteq> None} = {''age''}" unfolding M(1) by auto
  then show ?thesis using columns_hold_properties [of mixed_history "\<lambda>_. 0"] M unfolding Let_def by (force simp: mixed_history_def)
qed

end
