(* ===== verification/Columns_View.thy ===== *)
theory Columns_View
  imports Columns
begin

text \<open>
  Reading properties through layers (\<open>crates/core-storage/src/v8/seam.rs\<close>, with the archived columns of \<open>v8/layout.rs\<close>): the columns of a
  mapped snapshot, the overlay of the writes since, and the writes of a reader's delta tail or a transaction on top. \<open>de\<close> is the decoder of a
  mixed column's blob, \<open>bincode\<close>'s; the memo of decoded columns is threaded through the reads that fill it.
\<close>

section \<open>The archived base\<close>

datatype column_data =
    DInt "int list" "u64 list"
  | DFloat "u64 list" "u64 list"
  | DBool "u8 list" "u64 list"
  | DStr "u32 list" "u64 list" "string list"
  | DMixed bytes
  | DVector u32 "u64 list" "u64 list"

record field_entry =
  fe_name :: string
  fe_col :: column_data

definition archived_bitmap_test :: "u64 list \<Rightarrow> u32 \<Rightarrow> bool" where
  "archived_bitmap_test words i =
     (let word = unat i div 64 in if word \<ge> length words then False else drop_bit (unat i mod 64) (words ! word) AND 1 = 1)"

type_synonym decoded = "(u32 \<times> val) list"
type_synonym mixed_cache = "(string \<times> decoded) list"
type_synonym column_decoder = "bytes \<Rightarrow> decoded option"

definition unwrap_or_default :: "decoded option \<Rightarrow> decoded" where
  "unwrap_or_default m = (case m of None \<Rightarrow> [] | Some m \<Rightarrow> m)"

definition get_or_decode :: "column_decoder \<Rightarrow> mixed_cache \<Rightarrow> string \<Rightarrow> bytes \<Rightarrow> decoded \<times> mixed_cache" where
  "get_or_decode de cache field blob =
     (case map_of cache field of
        Some hit \<Rightarrow> (hit, cache)
      | None \<Rightarrow> (let m = unwrap_or_default (de blob) in (m, AList.update field m cache)))"

definition base_value :: "column_decoder \<Rightarrow> string list option \<Rightarrow> mixed_cache option \<Rightarrow> string \<Rightarrow> column_data \<Rightarrow> u32 \<Rightarrow> val option \<times> mixed_cache option" where
  "base_value de shared cache field col i =
     (case col of
        DInt data present \<Rightarrow> (if \<not> archived_bitmap_test present i then None else map_option VInt (nth_opt data (unat i)), cache)
      | DFloat data present \<Rightarrow> (if \<not> archived_bitmap_test present i then None else map_option VFloat (nth_opt data (unat i)), cache)
      | DBool data present \<Rightarrow> (if \<not> archived_bitmap_test present i then None else map_option (\<lambda>b. VBool (b \<noteq> 0)) (nth_opt data (unat i)), cache)
      | DStr ids present strings \<Rightarrow>
          (if \<not> archived_bitmap_test present i then None
           else do {
             sid \<leftarrow> nth_opt ids (unat i);
             map_option VStr (nth_opt (case shared of Some table \<Rightarrow> table | None \<Rightarrow> strings) (unat sid)) }, cache)
      | DMixed blob \<Rightarrow>
          (case cache of
             Some memo \<Rightarrow> (case get_or_decode de memo field blob of (m, memo) \<Rightarrow> (map_of m i, Some memo))
           | None \<Rightarrow> (de blob \<bind> (\<lambda>m. map_of m i), None))
      | DVector dim data present \<Rightarrow>
          (if \<not> archived_bitmap_test present i then None
           else let start = unat i * unat dim; stop = start + unat dim in
             if stop > length data then None else Some (VList (map VFloat (take (unat dim) (drop start data)))), cache))"

section \<open>The layer of property writes\<close>

record prop_layer =
  pl_nodes :: "(u32 \<times> (string, val option) omap) list"
  pl_fields :: "string list"

definition pl_new :: prop_layer where "pl_new = \<lparr> pl_nodes = [], pl_fields = [] \<rparr>"

text \<open>\<open>entry\<close>: the set of fields is sorted.\<close>

definition pl_entry :: "prop_layer \<Rightarrow> u32 \<Rightarrow> string \<Rightarrow> val option \<Rightarrow> prop_layer" where
  "pl_entry l node field v =
     \<lparr> pl_nodes = AList.update node (om_insert field v (case map_of (pl_nodes l) node of Some m \<Rightarrow> m | None \<Rightarrow> [])) (pl_nodes l),
       pl_fields = (if field \<in> set (pl_fields l) then pl_fields l else insort field (pl_fields l)) \<rparr>"

definition pl_set :: "prop_layer \<Rightarrow> u32 \<Rightarrow> string \<Rightarrow> val \<Rightarrow> prop_layer" where
  "pl_set l node field v = pl_entry l node field (Some v)"

definition pl_remove :: "prop_layer \<Rightarrow> u32 \<Rightarrow> string \<Rightarrow> prop_layer" where
  "pl_remove l node field = pl_entry l node field None"

definition pl_remove_all :: "prop_layer \<Rightarrow> u32 \<Rightarrow> prop_layer" where
  "pl_remove_all l node = l \<lparr> pl_nodes := AList.delete node (pl_nodes l) \<rparr>"

definition pl_get :: "prop_layer \<Rightarrow> u32 \<Rightarrow> string \<Rightarrow> val option option" where
  "pl_get l node field = map_of (pl_nodes l) node \<bind> (\<lambda>m. map_of m field)"

section \<open>The view\<close>

record columns_view =
  cw_overlay :: column_store
  cw_base :: "field_entry list option"
  cw_strings :: "string list option"
  cw_layer :: "prop_layer option"

definition cw_owned :: "column_store \<Rightarrow> columns_view" where
  "cw_owned overlay = \<lparr> cw_overlay = overlay, cw_base = None, cw_strings = None, cw_layer = None \<rparr>"

definition cw_with_base :: "column_store \<Rightarrow> field_entry list \<Rightarrow> columns_view" where
  "cw_with_base overlay base = \<lparr> cw_overlay = overlay, cw_base = Some base, cw_strings = None, cw_layer = None \<rparr>"

definition cw_with_layer :: "columns_view \<Rightarrow> prop_layer \<Rightarrow> columns_view" where
  "cw_with_layer v tx = v \<lparr> cw_layer := Some tx \<rparr>"

definition cw_with_shared_strings :: "columns_view \<Rightarrow> string list option \<Rightarrow> columns_view" where
  "cw_with_shared_strings v strings = v \<lparr> cw_strings := strings \<rparr>"

definition base_entry :: "columns_view \<Rightarrow> string \<Rightarrow> field_entry option" where
  "base_entry v field = cw_base v \<bind> find (\<lambda>e. fe_name e = field)"

definition cw_get :: "column_decoder \<Rightarrow> columns_view \<Rightarrow> mixed_cache option \<Rightarrow> u32 \<Rightarrow> string \<Rightarrow> (val option \<times> mixed_cache option) option" where
  "cw_get de v cache i field =
     (case cw_layer v \<bind> (\<lambda>tx. pl_get tx i field) of
        Some own \<Rightarrow> Some (own, cache)
      | None \<Rightarrow> do {
          mine \<leftarrow> cs_get (cw_overlay v) i field;
          case mine of
            Some x \<Rightarrow> Some (Some x, cache)
          | None \<Rightarrow> do {
              dead \<leftarrow> cs_is_tombstoned (cw_overlay v) i field;
              if dead then Some (None, cache)
              else case base_entry v field of
                None \<Rightarrow> Some (None, cache)
              | Some e \<Rightarrow> Some (base_value de (cw_strings v) cache field (fe_col e) i) } })"

text \<open>The loop of \<open>props_of\<close> over the names of the layer, the overlay and the base.\<close>

fun props_loop :: "column_decoder \<Rightarrow> columns_view \<Rightarrow> u32 \<Rightarrow> string list \<Rightarrow> (string, val) omap \<Rightarrow> mixed_cache option
    \<Rightarrow> ((string, val) omap \<times> mixed_cache option) option" where
  "props_loop de v i [] out cache = Some (out, cache)"
| "props_loop de v i (field # fs) out cache =
     (if map_of out field \<noteq> None then props_loop de v i fs out cache
      else do {
        (x, cache) \<leftarrow> cw_get de v cache i field;
        props_loop de v i fs (case x of Some x \<Rightarrow> om_insert field x out | None \<Rightarrow> out) cache })"

definition layer_fields :: "columns_view \<Rightarrow> string list" where
  "layer_fields v = (case cw_layer v of None \<Rightarrow> [] | Some tx \<Rightarrow> pl_fields tx)"

definition base_names :: "columns_view \<Rightarrow> string list" where
  "base_names v = (case cw_base v of None \<Rightarrow> [] | Some b \<Rightarrow> map fe_name b)"

definition cw_props_of :: "column_decoder \<Rightarrow> columns_view \<Rightarrow> mixed_cache option \<Rightarrow> u32 \<Rightarrow> ((string, val) omap \<times> mixed_cache option) option" where
  "cw_props_of de v cache i = props_loop de v i (layer_fields v @ cs_fields (cw_overlay v) @ base_names v) [] cache"

definition cw_field_names :: "columns_view \<Rightarrow> string list" where
  "cw_field_names v = sort_dedup (cs_fields (cw_overlay v) @ layer_fields v @ base_names v)"

text \<open>The raw vector of a property in the base, as the bits of its numbers.\<close>

definition cw_vector :: "columns_view \<Rightarrow> u32 \<Rightarrow> string \<Rightarrow> u64 list option option" where
  "cw_vector v i field =
     (if cw_layer v \<bind> (\<lambda>tx. pl_get tx i field) \<noteq> None then Some None
      else do {
        mine \<leftarrow> cs_get (cw_overlay v) i field;
        if mine \<noteq> None then Some None
        else do {
          dead \<leftarrow> cs_is_tombstoned (cw_overlay v) i field;
          if dead then Some None
          else Some (do {
            e \<leftarrow> base_entry v field;
            case fe_col e of
              DVector dim data present \<Rightarrow>
                if \<not> archived_bitmap_test present i \<or> unat dim = 0 then None
                else let start = unat i * unat dim; stop = start + unat dim in
                  if stop > length data then None else Some (take (unat dim) (drop start data))
            | _ \<Rightarrow> None }) } })"

section \<open>A resolved column\<close>

datatype base_column = Typed column_data | MixedCol decoded

record view_column =
  vc_view :: columns_view
  vc_field :: string
  vc_overlay :: "column option"
  vc_base :: "base_column option"

definition cw_column :: "column_decoder \<Rightarrow> columns_view \<Rightarrow> mixed_cache option \<Rightarrow> string \<Rightarrow> view_column \<times> mixed_cache option" where
  "cw_column de v cache field =
     (case (case base_entry v field of
              None \<Rightarrow> (None, cache)
            | Some e \<Rightarrow>
                (case fe_col e of
                   DMixed blob \<Rightarrow>
                     (case cache of
                        Some memo \<Rightarrow> (case get_or_decode de memo field blob of (m, memo) \<Rightarrow> (Some (MixedCol m), Some memo))
                      | None \<Rightarrow> (Some (MixedCol (unwrap_or_default (de blob))), None))
                 | col \<Rightarrow> (Some (Typed col), cache)))
      of (base, cache) \<Rightarrow> (\<lparr> vc_view = v, vc_field = field, vc_overlay = cs_column (cw_overlay v) field, vc_base = base \<rparr>, cache))"

definition vc_base_get :: "column_decoder \<Rightarrow> view_column \<Rightarrow> u32 \<Rightarrow> val option option" where
  "vc_base_get de c node =
     (case vc_base c of
        None \<Rightarrow> Some None
      | Some base \<Rightarrow> do {
          dead \<leftarrow> cs_is_tombstoned (cw_overlay (vc_view c)) node (vc_field c);
          if dead then Some None
          else Some (case base of
              Typed col \<Rightarrow> fst (base_value de (cw_strings (vc_view c)) None (vc_field c) col node)
            | MixedCol m \<Rightarrow> map_of m node) })"

definition vc_get :: "column_decoder \<Rightarrow> view_column \<Rightarrow> u32 \<Rightarrow> val option option" where
  "vc_get de c node =
     (case cw_layer (vc_view c) \<bind> (\<lambda>tx. pl_get tx node (vc_field c)) of
        Some own \<Rightarrow> Some own
      | None \<Rightarrow> do {
          mine \<leftarrow> handle_get (cw_overlay (vc_view c)) (vc_overlay c) node;
          case mine of Some x \<Rightarrow> Some (Some x) | None \<Rightarrow> vc_base_get de c node })"

definition vc_test :: "column_decoder \<Rightarrow> view_column \<Rightarrow> u32 \<Rightarrow> (val \<Rightarrow> bool) \<Rightarrow> bool option" where
  "vc_test de c node pred =
     (case cw_layer (vc_view c) \<bind> (\<lambda>tx. pl_get tx node (vc_field c)) of
        Some own \<Rightarrow> Some (case own of None \<Rightarrow> False | Some x \<Rightarrow> pred x)
      | None \<Rightarrow> do {
          mine \<leftarrow> handle_get (cw_overlay (vc_view c)) (vc_overlay c) node;
          case mine of
            Some x \<Rightarrow> Some (pred x)
          | None \<Rightarrow> map_option (\<lambda>r. case r of None \<Rightarrow> False | Some x \<Rightarrow> pred x) (vc_base_get de c node) })"

section \<open>What a read through the layers gives\<close>

definition base_node_props :: "column_decoder \<Rightarrow> columns_view \<Rightarrow> node_props" where
  "base_node_props de v i field = (case base_entry v field of None \<Rightarrow> None | Some e \<Rightarrow> fst (base_value de (cw_strings v) None field (fe_col e) i))"

text \<open>Layer over overlay over base; \<open>M\<close> and \<open>T\<close> are what the overlay holds and hides.\<close>

definition layered :: "column_decoder \<Rightarrow> columns_view \<Rightarrow> node_props \<Rightarrow> (u32 \<times> string) set \<Rightarrow> node_props" where
  "layered de v M T i field =
     (case cw_layer v \<bind> (\<lambda>tx. pl_get tx i field) of
        Some own \<Rightarrow> own
      | None \<Rightarrow> (case M i field of Some x \<Rightarrow> Some x | None \<Rightarrow> if (i, field) \<in> T then None else base_node_props de v i field))"

text \<open>The memo holds what decoding would give.\<close>

definition cache_ok :: "column_decoder \<Rightarrow> columns_view \<Rightarrow> mixed_cache option \<Rightarrow> bool" where
  "cache_ok de v cache \<longleftrightarrow> (\<forall>memo. cache = Some memo \<longrightarrow> (\<forall>field m e blob. map_of memo field = Some m \<longrightarrow>
     base_entry v field = Some e \<longrightarrow> fe_col e = DMixed blob \<longrightarrow> m = unwrap_or_default (de blob)))"

lemma map_of_default: "map_of (unwrap_or_default m) i = m \<bind> (\<lambda>m. map_of m i)"
  by (cases m) (simp_all add: unwrap_or_default_def)

lemma get_or_decode_ok:
  assumes "cache_ok de v (Some memo)" "base_entry v field = Some e" "fe_col e = DMixed blob"
  shows "\<exists>memo'. get_or_decode de memo field blob = (unwrap_or_default (de blob), memo') \<and> cache_ok de v (Some memo')"
proof (cases "map_of memo field")
  case None
  then show ?thesis using assms by (auto simp: get_or_decode_def Let_def cache_ok_def update_conv)
next
  case (Some m)
  then show ?thesis using assms by (simp add: get_or_decode_def cache_ok_def)
qed

lemma base_value_ok:
  assumes "cache_ok de v cache" "base_entry v field = Some e"
  shows "\<exists>cache'. base_value de (cw_strings v) cache field (fe_col e) i = (base_node_props de v i field, cache') \<and> cache_ok de v cache'"
proof (cases "fe_col e")
  case (DMixed blob)
  show ?thesis
  proof (cases cache)
    case (Some memo)
    obtain memo' where "get_or_decode de memo field blob = (unwrap_or_default (de blob), memo')" "cache_ok de v (Some memo')"
      using get_or_decode_ok [of de v memo field e blob] assms Some DMixed by blast
    then show ?thesis using assms DMixed Some by (simp add: base_value_def base_node_props_def map_of_default)
  qed (use assms DMixed in \<open>simp add: base_value_def base_node_props_def\<close>)
qed (use assms in \<open>auto simp: base_value_def base_node_props_def Let_def\<close>)

lemma cw_get_correct:
  assumes "cs_rel hash n (cw_overlay v) M T" "cache_ok de v cache"
  shows "\<exists>cache'. cw_get de v cache i field = Some (layered de v M T i field, cache') \<and> cache_ok de v cache'"
proof -
  have base: "base_entry v field = None \<Longrightarrow> base_node_props de v i field = None" by (simp add: base_node_props_def)
  show ?thesis
    using cs_get_correct [OF assms(1), of i field] cs_is_tombstoned_correct [OF assms(1), of i field] assms(2)
      base_value_ok [OF assms(2), of field _ i] base
    by (cases "cw_layer v \<bind> (\<lambda>tx. pl_get tx i field)"; cases "M i field"; cases "base_entry v field")
      (auto simp: cw_get_def layered_def)
qed

lemma vc_get_correct:
  assumes "cs_rel hash n (cw_overlay v) M T" "cache_ok de v cache"
  shows "case cw_column de v cache field of (c, cache') \<Rightarrow> cache_ok de v cache' \<and> vc_get de c node = Some (layered de v M T node field) \<and>
    vc_test de c node pred = Some (case layered de v M T node field of None \<Rightarrow> False | Some x \<Rightarrow> pred x)"
proof -
  obtain c cache' where c: "cw_column de v cache field = (c, cache')" by (cases "cw_column de v cache field")
  have f: "vc_view c = v" "vc_field c = field" "vc_overlay c = cs_column (cw_overlay v) field"
    using c by (auto simp: cw_column_def split: prod.splits)
  have h: "handle_get (cw_overlay v) (vc_overlay c) node = Some (M node field)"
    using cs_get_correct [OF assms(1), of node field] f(3) by (simp add: handle_get_def cs_column_def cs_get_def)
  have "cache_ok de v cache' \<and> vc_base_get de c node = Some (if (node, field) \<in> T then None else base_node_props de v node field)"
  proof (cases "base_entry v field")
    case None
    then show ?thesis using c assms(2) by (auto simp: cw_column_def vc_base_get_def base_node_props_def)
  next
    case (Some e)
    note dead = cs_is_tombstoned_correct [OF assms(1), of node field]
    show ?thesis
    proof (cases "fe_col e")
      case (DMixed blob)
      have "vc_base c = Some (MixedCol (unwrap_or_default (de blob))) \<and> cache_ok de v cache'"
        using c Some DMixed assms(2) get_or_decode_ok [of de v _ field e blob]
        by (cases cache) (force simp: cw_column_def split: prod.splits)+
      then show ?thesis using dead f Some DMixed by (auto simp: vc_base_get_def base_node_props_def base_value_def map_of_default)
    qed (use c Some assms(2) dead in \<open>auto simp: cw_column_def vc_base_get_def base_node_props_def\<close>)
  qed
  then show ?thesis using c f h by (auto simp: vc_get_def vc_test_def layered_def split: option.splits)
qed

lemma props_loop_correct:
  assumes rel: "cs_rel hash n (cw_overlay v) M T"
  shows "cache_ok de v cache \<Longrightarrow> om_wf out \<Longrightarrow> (\<And>field x. map_of out field = Some x \<Longrightarrow> layered de v M T i field = Some x) \<Longrightarrow>
    \<exists>out' cache'. props_loop de v i fs out cache = Some (out', cache') \<and> cache_ok de v cache' \<and> om_wf out' \<and>
      (\<forall>field. map_of out' field = (if field \<in> set fs \<or> map_of out field \<noteq> None then layered de v M T i field else None))"
proof (induction fs arbitrary: out cache)
  case (Cons f fs)
  show ?case
  proof (cases "map_of out f")
    case (Some x)
    then have "props_loop de v i (f # fs) out cache = props_loop de v i fs out cache" by simp
    moreover have "field \<in> set (f # fs) \<or> map_of out field \<noteq> None \<longleftrightarrow> field \<in> set fs \<or> map_of out field \<noteq> None" for field using Some by auto
    ultimately show ?thesis using Cons.IH [OF Cons.prems] by (simp only:)
  next
    case None
    obtain cache1 where get: "cw_get de v cache i f = Some (layered de v M T i f, cache1)" "cache_ok de v cache1"
      using cw_get_correct [OF rel Cons.prems(1)] by blast
    let ?out = "case layered de v M T i f of Some x \<Rightarrow> om_insert f x out | None \<Rightarrow> out"
    have wf: "om_wf ?out" using Cons.prems(2) by (simp split: option.split)
    have look: "map_of ?out field = (if field = f then layered de v M T i f else map_of out field)" for field
      using None by (auto split: option.split)
    have "layered de v M T i field = Some x" if "map_of ?out field = Some x" for field x
      using that Cons.prems(3) [of field x] unfolding look by (simp split: if_splits)
    from Cons.IH [OF get(2) wf this] obtain out' cache' where out': "props_loop de v i fs ?out cache1 = Some (out', cache')" "cache_ok de v cache'" "om_wf out'"
      "\<And>field. map_of out' field = (if field \<in> set fs \<or> map_of ?out field \<noteq> None then layered de v M T i field else None)" by blast
    have "map_of out' field = (if field \<in> set (f # fs) \<or> map_of out field \<noteq> None then layered de v M T i field else None)" for field
      unfolding out'(4) look using None by auto
    then show ?thesis using get(1) None out'(1-3) by simp
  qed
qed auto

definition layer_ok :: "columns_view \<Rightarrow> bool" where
  "layer_ok v \<longleftrightarrow> (\<forall>tx i field. cw_layer v = Some tx \<longrightarrow> pl_get tx i field \<noteq> None \<longrightarrow> field \<in> set (pl_fields tx))"

lemma layered_named:
  assumes "cs_rel hash n (cw_overlay v) M T" "layer_ok v" "layered de v M T i field \<noteq> None"
  shows "field \<in> set (layer_fields v @ cs_fields (cw_overlay v) @ base_names v)"
proof (cases "cw_layer v \<bind> (\<lambda>tx. pl_get tx i field)")
  case (Some own)
  then show ?thesis using assms(2) by (force simp: layer_ok_def layer_fields_def bind_eq_Some_conv)
next
  case None
  have "field \<in> set (cs_fields (cw_overlay v))" if "M i field \<noteq> None"
  proof -
    have "map_of (cs_cols (cw_overlay v)) field \<noteq> None" using cs_rel_absent [OF assms(1)] that by metis
    then show ?thesis by (auto simp: cs_fields_def map_of_eq_None_iff)
  qed
  moreover have "field \<in> set (base_names v)" if "base_entry v field = Some e" for e
    using that by (auto simp: base_entry_def base_names_def bind_eq_Some_conv find_Some_iff)
  ultimately show ?thesis using assms(3) None by (auto simp: layered_def base_node_props_def split: option.splits if_splits)
qed

lemma cw_props_of_correct:
  assumes "cs_rel hash n (cw_overlay v) M T" "cache_ok de v cache" "layer_ok v"
  shows "\<exists>out cache'. cw_props_of de v cache i = Some (out, cache') \<and> cache_ok de v cache' \<and> om_wf out \<and> map_of out = layered de v M T i"
proof -
  let ?fs = "layer_fields v @ cs_fields (cw_overlay v) @ base_names v"
  obtain out cache' where out: "props_loop de v i ?fs [] cache = Some (out, cache')" "cache_ok de v cache'" "om_wf out"
    "\<And>field. map_of out field = (if field \<in> set ?fs \<or> map_of [] field \<noteq> None then layered de v M T i field else None)"
    using props_loop_correct [OF assms(1,2), of "[]" i ?fs] by auto
  moreover have "map_of out field = layered de v M T i field" for field
    unfolding out(4) using layered_named [OF assms(1,3), of de i field] by (cases "layered de v M T i field") simp_all
  ultimately show ?thesis by (auto simp: cw_props_of_def)
qed

lemma cw_vector_correct:
  assumes "cs_rel hash n (cw_overlay v) M T"
  shows "\<exists>r. cw_vector v i field = Some r \<and> (\<forall>xs. r = Some xs \<longrightarrow> xs \<noteq> [] \<and> layered de v M T i field = Some (VList (map VFloat xs)))"
  using cs_get_correct [OF assms, of i field] cs_is_tombstoned_correct [OF assms, of i field]
  by (cases "cw_layer v \<bind> (\<lambda>tx. pl_get tx i field)"; cases "M i field"; cases "base_entry v field")
    (auto simp: cw_vector_def layered_def base_node_props_def base_value_def Let_def split: column_data.splits if_splits)

section \<open>Writing to the layer\<close>

fun pl_step :: "prop_op \<Rightarrow> prop_layer \<Rightarrow> prop_layer" where
  "pl_step (SetOp node field v) l = pl_set l node field v"
| "pl_step (RemoveOp node field) l = pl_remove l node field"
| "pl_step (RemoveAllOp node) l = pl_remove_all l node"
| "pl_step (TombstoneOp node field) l = l"

lemma pl_get_entry: "pl_get (pl_entry l node field x) i f = (if i = node \<and> f = field then Some x else pl_get l i f)"
  by (auto simp: pl_get_def pl_entry_def update_conv split: option.splits)

lemma pl_get_remove_all: "pl_get (pl_remove_all l node) i f = (if i = node then None else pl_get l i f)"
  by (auto simp: pl_get_def pl_remove_all_def delete_conv)

lemma pl_fields_entry: "set (pl_fields (pl_entry l node field x)) = insert field (set (pl_fields l))" "pl_fields (pl_remove_all l node) = pl_fields l"
  by (auto simp: pl_entry_def pl_remove_all_def set_insort_key)

lemma pl_step_fields: "(\<And>i f. pl_get l i f \<noteq> None \<Longrightarrow> f \<in> set (pl_fields l)) \<Longrightarrow> pl_get (pl_step op l) i f \<noteq> None \<Longrightarrow> f \<in> set (pl_fields (pl_step op l))"
  by (cases op) (auto simp: pl_set_def pl_remove_def pl_get_entry pl_get_remove_all pl_fields_entry split: if_splits)

lemma pl_built_fields: "pl_get (fold pl_step ops pl_new) i f \<noteq> None \<Longrightarrow> f \<in> set (pl_fields (fold pl_step ops pl_new))"
proof (induction ops arbitrary: i f rule: rev_induct)
  case (snoc op ops)
  then show ?case using pl_step_fields [where l = "fold pl_step ops pl_new" and op = op] by simp
qed (simp add: pl_new_def pl_get_def)

lemma base_node_props_layer [simp]: "base_node_props de (v \<lparr> cw_layer := l \<rparr>) = base_node_props de v"
  by (simp add: base_node_props_def base_entry_def fun_eq_iff split: option.split)

lemma layered_write:
  "layered de (cw_with_layer v (pl_set l node field x)) M T = (layered de (cw_with_layer v l) M T)(node := (layered de (cw_with_layer v l) M T node)(field \<mapsto> x))"
  "layered de (cw_with_layer v (pl_remove l node field)) M T = (layered de (cw_with_layer v l) M T)(node := (layered de (cw_with_layer v l) M T node)(field := None))"
  by (auto simp: layered_def cw_with_layer_def pl_set_def pl_remove_def pl_get_entry fun_eq_iff split: option.split)

section \<open>Properties\<close>

text \<open>C16: every way to read a property gives the same answer. Over an overlay with any history, any base and any layer of writes, a lookup, a
  resolved column, a test of a resolved column and the listing of all of a node's properties agree: a value the layer wrote or removed decides,
  then one the overlay holds, then, unless the overlay recorded a deletion, the base's; the memo of decoded columns never changes an answer and stays
  right; and a raw vector is the value of the property.\<close>

theorem property_reads_agree:
  assumes "length ops \<le> 2 ^ 32" "run_props (cs_step hash) ops cs_new = Some (cw_overlay v)"
    and "cw_layer v = map_option (\<lambda>writes. fold pl_step writes pl_new) writes" "cache_ok de v cache"
  shows "let P = layered de v (fold props_spec ops (\<lambda>_. Map.empty)) (fold tombs_spec ops {}) in
    (\<exists>cache'. cw_get de v cache i field = Some (P i field, cache') \<and> cache_ok de v cache') \<and>
    (case cw_column de v cache field of (c, cache') \<Rightarrow> cache_ok de v cache' \<and> vc_get de c i = Some (P i field) \<and>
       vc_test de c i pred = Some (case P i field of None \<Rightarrow> False | Some x \<Rightarrow> pred x)) \<and>
    (\<exists>out cache'. cw_props_of de v cache i = Some (out, cache') \<and> cache_ok de v cache' \<and> map_of out = P i) \<and>
    (\<exists>r. cw_vector v i field = Some r \<and> (\<forall>xs. r = Some xs \<longrightarrow> P i field = Some (VList (map VFloat xs))))"
proof -
  have rel: "cs_rel hash (length ops) (cw_overlay v) (fold props_spec ops (\<lambda>_. Map.empty)) (fold tombs_spec ops {})"
    using cs.run_start [OF assms(1), of hash] assms(2) by simp
  have ok: "layer_ok v" using assms(3) pl_built_fields by (auto simp: layer_ok_def)
  let ?P = "layered de v (fold props_spec ops (\<lambda>_. Map.empty)) (fold tombs_spec ops {})"
  have "\<exists>out cache'. cw_props_of de v cache i = Some (out, cache') \<and> cache_ok de v cache' \<and> map_of out = ?P i"
    using cw_props_of_correct [OF rel assms(4) ok, of i] by blast
  moreover have "\<exists>r. cw_vector v i field = Some r \<and> (\<forall>xs. r = Some xs \<longrightarrow> ?P i field = Some (VList (map VFloat xs)))"
    using cw_vector_correct [OF rel, of i field de] by blast
  ultimately show ?thesis
    using cw_get_correct [OF rel assms(4), of i field] vc_get_correct [where field = field and node = i and pred = pred, OF rel assms(4)] unfolding Let_def by (intro conjI)
qed

definition small_view :: "column_store \<Rightarrow> columns_view" where
  "small_view s = \<lparr> cw_overlay = s, cw_base = Some [\<lparr> fe_name = ''age'', fe_col = DInt [7, 8] [3] \<rparr>], cw_strings = None,
     cw_layer = Some (pl_set pl_new 1 ''age'' (VInt 9)) \<rparr>"

theorem property_reads_agree_witness:
  "\<exists>s. run_props (cs_step (\<lambda>_. 0)) [TombstoneOp 5 ''age''] cs_new = Some s \<and>
     (\<exists>cache. cw_get (\<lambda>_. None) (small_view s) (Some []) 0 ''age'' = Some (Some (VInt 7), cache)) \<and>
     (\<exists>cache. cw_get (\<lambda>_. None) (small_view s) (Some []) 1 ''age'' = Some (Some (VInt 9), cache))"
proof -
  obtain s where s: "run_props (cs_step (\<lambda>_. 0)) [TombstoneOp 5 ''age''] cs_new = Some s"
    using cs.run_start [of "[TombstoneOp 5 ''age'']" "\<lambda>_. 0"] by auto
  note agree = property_reads_agree [where ops = "[TombstoneOp 5 ''age'']" and hash = "\<lambda>_. 0" and v = "small_view s" and de = "\<lambda>_. None" and
    writes = "Some [SetOp 1 ''age'' (VInt 9)]" and cache = "Some []" and field = "''age''" and pred = "\<lambda>_. True"]
  have "P 0 ''age'' = Some (VInt 7) \<and> P 1 ''age'' = Some (VInt 9)"
    if "P = layered (\<lambda>_. None) (small_view s) (fold props_spec [TombstoneOp 5 ''age''] (\<lambda>_. Map.empty)) (fold tombs_spec [TombstoneOp 5 ''age''] {})" for P
    unfolding that by (simp add: layered_def small_view_def base_node_props_def base_entry_def base_value_def archived_bitmap_test_def
        pl_get_def pl_set_def pl_entry_def pl_new_def nth_opt_def)
  then show ?thesis using s agree [of 0] agree [of 1] by (auto simp: small_view_def cache_ok_def Let_def)
qed

end
