(* ===== verification/Visible_Set.thy ===== *)
theory Visible_Set
  imports Pack Bitset
begin

text \<open>
  The set of node ids a read may see (\<open>crates/core-query/src/visible.rs\<close>): a hash set while it is thin in the span of its ids, a bitset once
  that is no larger. The rule picks the shape and never the answer. A hash set is its elements without repetition, in an order no caller depends
  on.
\<close>

section \<open>The two shapes\<close>

datatype visible_set = Sparse "u32 list" | is_Dense: Dense (vs_words: "u64 list") (vs_count: nat)

text \<open>\<open>saturating_add\<close> and \<open>div_ceil\<close> of \<open>usize\<close>, \<open>leading_zeros\<close> of \<open>u64\<close>.\<close>

definition saturating_add :: "nat \<Rightarrow> nat \<Rightarrow> nat" where
  "saturating_add a b = min (a + b) USIZE_MAX"

definition div_ceil :: "nat \<Rightarrow> nat \<Rightarrow> nat" where
  "div_ceil a b = a div b + (if a mod b = 0 then 0 else 1)"

definition leading_zeros :: "u64 \<Rightarrow> nat" where
  "leading_zeros w = length (takeWhile (\<lambda>i. \<not> bit w i) (rev [0..<64]))"

text \<open>The set bits of the words, ascending, as ids.\<close>

definition bits_of :: "u64 list \<Rightarrow> u32 list" where
  "bits_of words = concat (map (\<lambda>(w, word). map (\<lambda>b. of_nat (w * 64) + of_nat b) (filter (\<lambda>b. drop_bit b word AND 1 = 1) [0..<64]))
     (enumerate 0 words))"

text \<open>\<open>while words.last() == Some(&0) \{ words.pop() \}\<close>.\<close>

function trim :: "u64 list \<Rightarrow> u64 list" where
  "trim words = (if words \<noteq> [] \<and> last words = 0 then trim (butlast words) else words)"
  by pat_completeness auto
termination by (relation "measure length") auto

declare trim.simps [simp del]

definition from_words :: "u64 list \<Rightarrow> nat \<Rightarrow> visible_set" where
  "from_words words len =
     (let words = trim words in
      if words = [] then Sparse []
      else let span = (length words - 1) * 64 + (64 - leading_zeros (last words)) in
        if saturating_mul len 64 \<ge> span then Dense words len else Sparse (bits_of words))"

text \<open>One turn of the loop that fills the bitset.\<close>

definition mark :: "u32 \<Rightarrow> u64 list \<times> nat \<Rightarrow> u64 list \<times> nat" where
  "mark nid st = (case st of (words, len) \<Rightarrow>
     let bit_mask = push_bit (unat nid mod 64) 1; at = unat nid div 64 in
     if words ! at AND bit_mask = 0 then (words[at := words ! at OR bit_mask], len + 1) else (words, len))"

definition from_ids :: "u32 list \<Rightarrow> visible_set" where
  "from_ids ids =
     (if ids = [] then Sparse []
      else let span = saturating_add (unat (Max (set ids))) 1 in
        if saturating_mul (length ids) 64 < span then Sparse (remdups ids)
        else case fold mark ids (replicate (div_ceil span 64) 0, 0) of (words, len) \<Rightarrow> from_words words len)"

fun vs_contains :: "visible_set \<Rightarrow> u32 \<Rightarrow> bool" where
  "vs_contains (Sparse ids) nid \<longleftrightarrow> nid \<in> set ids"
| "vs_contains (Dense words _) nid \<longleftrightarrow>
     (case nth_opt words (unat nid div 64) of None \<Rightarrow> False | Some w \<Rightarrow> drop_bit (unat nid mod 64) w AND 1 = 1)"

fun vs_len :: "visible_set \<Rightarrow> nat" where
  "vs_len (Sparse ids) = length ids"
| "vs_len (Dense _ len) = len"

definition vs_is_empty :: "visible_set \<Rightarrow> bool" where
  "vs_is_empty v \<longleftrightarrow> vs_len v = 0"

fun vs_iter :: "visible_set \<Rightarrow> u32 list" where
  "vs_iter (Sparse ids) = ids"
| "vs_iter (Dense words _) = bits_of words"

definition vs_intersect :: "visible_set \<Rightarrow> visible_set \<Rightarrow> visible_set" where
  "vs_intersect a b =
     (case (a, b) of
        (Dense xs _, Dense ys _) \<Rightarrow> let words = map2 (AND) xs ys in from_words words (sum_list (map count_ones words))
      | _ \<Rightarrow> (let (small, large) = (if vs_len a \<le> vs_len b then (a, b) else (b, a)) in
              from_ids (filter (vs_contains large) (vs_iter small))))"

section \<open>What a bitset holds\<close>

lemma contains_dense: "vs_contains (Dense ws n) nid \<longleftrightarrow> unat nid \<in> wset ws"
  by (simp add: wset_def nth_opt_def low_bit bit_drop_bit_eq)

lemma trim_Nil [simp]: "trim [] = []"
  by (simp add: trim.simps)

lemma trim_snoc [simp]: "trim (ws @ [w]) = (if w = 0 then trim ws else ws @ [w])"
  by (simp add: trim.simps [of "ws @ [w]"])

lemma wset_trim [simp]: "wset (trim ws) = wset ws"
  by (induction ws rule: rev_induct) auto

lemma trim_last: "trim ws \<noteq> [] \<Longrightarrow> last (trim ws) \<noteq> 0"
  by (induction ws rule: rev_induct) auto

lemma trim_length: "length (trim ws) \<le> length ws"
  by (induction ws rule: rev_induct) auto

lemma leading_zeros_top:
  assumes "w \<noteq> 0"
  shows "64 - leading_zeros w = Suc (Max {b. b < 64 \<and> bit w b})"
proof -
  let ?B = "{b. b < 64 \<and> bit w b}" let ?m = "Max ?B"
  have "?B \<noteq> {}" "finite ?B" using some_bit [OF assms] by auto
  then have m: "?m < 64" "bit w ?m" and top: "\<And>b. b \<in> ?B \<Longrightarrow> b \<le> ?m" using Max_in [of ?B] by simp_all
  have "[0..<64] = [0..<?m] @ ?m # [Suc ?m..<64]"
    using upt_add_eq_append [of 0 ?m "64 - ?m"] m(1) by (simp add: upt_conv_Cons)
  moreover have "takeWhile (\<lambda>i. \<not> bit w i) (rev [Suc ?m..<64] @ ?m # rev [0..<?m]) = rev [Suc ?m..<64]"
    using m top by (subst takeWhile_append2) (fastforce, simp)
  ultimately have "leading_zeros w = 63 - ?m" unfolding leading_zeros_def by simp
  then show ?thesis using m(1) by simp
qed

lemma wset_top:
  assumes "ws \<noteq> []" "last ws \<noteq> 0"
  shows "wset ws \<noteq> {}" "Suc (Max (wset ws)) = (length ws - 1) * 64 + (64 - leading_zeros (last ws))"
proof -
  let ?B = "{b. b < 64 \<and> bit (last ws) b}" and ?n = "length (butlast ws) * 64"
  obtain b where b: "b < 64" "bit (last ws) b" using some_bit [OF assms(2)] by auto
  have eq: "wset ws = wset (butlast ws) \<union> {?n + b | b. b < 64 \<and> bit (last ws) b}"
    using wset_snoc [of "butlast ws" "last ws"] assms(1) by simp
  then show "wset ws \<noteq> {}" using b by auto
  have B: "?B \<noteq> {}" "finite ?B" using b by auto
  note top = Max_ge [OF B(2)] Max_in [OF B(2,1)]
  have "Max (wset ws) = ?n + Max ?B"
  proof (rule Max_eqI)
    fix y assume "y \<in> wset ws"
    then show "y \<le> ?n + Max ?B" unfolding eq using top(1) wset_le [of y "butlast ws"] by fastforce
  qed (use eq top(2) in auto)
  then show "Suc (Max (wset ws)) = (length ws - 1) * 64 + (64 - leading_zeros (last ws))"
    using leading_zeros_top [OF assms(2)] by simp
qed

lemma bits_of_snoc: "bits_of (ws @ [w]) = bits_of ws @ map (\<lambda>b. of_nat (length ws * 64) + of_nat b) (filter (bit w) [0..<64])"
  by (simp add: bits_of_def enumerate_append_eq low_bit bit_drop_bit_eq cong: filter_cong)

lemma bits_of_map: "\<exists>ns. bits_of ws = map of_nat ns \<and> set ns = wset ws \<and> distinct ns"
proof (induction ws rule: rev_induct)
  case (snoc w ws)
  then obtain ns where ns: "bits_of ws = map of_nat ns" "set ns = wset ws" "distinct ns" by blast
  let ?new = "map (\<lambda>b. length ws * 64 + b) (filter (bit w) [0..<64])"
  have "bits_of (ws @ [w]) = map of_nat (ns @ ?new)" by (simp add: bits_of_snoc ns)
  moreover have "set (ns @ ?new) = wset (ws @ [w])" by (auto simp: ns wset_snoc)
  moreover have "distinct (ns @ ?new)" using ns wset_le [of _ ws] by (fastforce simp: distinct_map inj_on_def)
  ultimately show ?case by blast
qed (simp add: bits_of_def)

lemma bits_of_ids:
  assumes "length ws * 64 \<le> 2 ^ 32"
  shows "unat ` set (bits_of ws) = wset ws" "distinct (bits_of ws)"
proof -
  obtain ns where ns: "bits_of ws = map of_nat ns" "set ns = wset ws" "distinct ns" using bits_of_map by blast
  have u: "unat (of_nat i :: u32) = i" if "i \<in> set ns" for i
    using that ns(2) wset_le [of i ws] assms by (auto simp: unat_of_nat)
  then show "unat ` set (bits_of ws) = wset ws" using ns by (force simp: image_image)
  show "distinct (bits_of ws)" unfolding ns(1) distinct_map using ns(3) u by (metis inj_onI)
qed

section \<open>Building a set\<close>

definition vs_set :: "visible_set \<Rightarrow> u32 set" where "vs_set v = {i. vs_contains v i}"

text \<open>The invariant: a shape the rule picks for the distinct ids, and a count that is theirs.\<close>

fun vs_ok :: "visible_set \<Rightarrow> bool" where
  "vs_ok (Sparse ids) \<longleftrightarrow> distinct ids \<and> (ids = [] \<or> length ids * 64 < Suc (unat (Max (set ids))))"
| "vs_ok (Dense ws n) \<longleftrightarrow> ws \<noteq> [] \<and> last ws \<noteq> 0 \<and> length ws * 64 \<le> 2 ^ 32 \<and> n = card (wset ws) \<and> Suc (Max (wset ws)) \<le> n * 64"

lemma vs_set_Sparse [simp]: "vs_set (Sparse ids) = set ids"
  by (auto simp: vs_set_def)

lemma vs_set_Dense: "length ws * 64 \<le> 2 ^ 32 \<Longrightarrow> unat ` vs_set (Dense ws n) = wset ws"
proof (intro equalityI subsetI)
  fix i assume "length ws * 64 \<le> 2 ^ 32" "i \<in> wset ws"
  then show "i \<in> unat ` vs_set (Dense ws n)" unfolding vs_set_def contains_dense
    using wset_le [of i ws] by (intro image_eqI [of _ _ "of_nat i"]) (auto simp: unat_of_nat)
qed (auto simp: vs_set_def contains_dense simp del: vs_contains.simps)

lemma vs_iter_set: "vs_ok v \<Longrightarrow> set (vs_iter v) = vs_set v \<and> distinct (vs_iter v)"
proof (cases v)
  case (Dense ws n)
  assume "vs_ok v"
  then have "unat ` set (bits_of ws) = unat ` vs_set v" "distinct (bits_of ws)"
    using bits_of_ids [of ws] vs_set_Dense [of ws n] Dense by simp_all
  then show ?thesis using Dense by (simp add: inj_image_eq_iff [OF inj_unat])
qed auto

lemma vs_len_card: "vs_ok v \<Longrightarrow> vs_len v = card (vs_set v)"
proof (cases v)
  case (Dense ws n)
  assume "vs_ok v"
  then show ?thesis using Dense vs_set_Dense [of ws n] card_image [OF inj_unat, of "vs_set v"] by simp
qed (auto simp: distinct_card)

lemma from_words_ok:
  assumes n: "n = card (wset ws)" and len: "length ws * 64 \<le> 2 ^ 32"
  shows "vs_ok (from_words ws n)" "unat ` vs_set (from_words ws n) = wset ws"
proof -
  let ?ws = "trim ws"
  have l: "length ?ws * 64 \<le> 2 ^ 32" using trim_length [of ws] len by linarith
  have sat: "saturating_mul n 64 = n * 64" using card_wset [of ws] len n by (simp add: saturating_mul_def USIZE_MAX_def)
  have "vs_ok (from_words ws n) \<and> unat ` vs_set (from_words ws n) = wset ws"
  proof (cases "?ws = []")
    case True
    then have "wset ws = {}" using wset_trim [of ws] by simp
    then show ?thesis using True by (simp add: from_words_def)
  next
    case False
    note top = wset_top [OF False trim_last [OF False]]
    let ?span = "(length ?ws - 1) * 64 + (64 - leading_zeros (last ?ws))"
    note ids = bits_of_ids [OF l]
    show ?thesis
    proof (cases "?span \<le> n * 64")
      case True
      then have "from_words ws n = Dense ?ws n" using False by (simp add: from_words_def Let_def sat)
      then show ?thesis using False trim_last [OF False] l n top(2) True vs_set_Dense [OF l] by simp
    next
      case rule: False
      have "from_words ws n = Sparse (bits_of ?ws)" using False rule by (simp add: from_words_def Let_def sat)
      moreover have "length (bits_of ?ws) = n"
        using ids n card_image [OF inj_unat, of "set (bits_of ?ws)"] by (simp add: distinct_card)
      moreover have "unat (Max (set (bits_of ?ws))) = Max (wset ?ws)"
        using mono_Max_commute [of unat "set (bits_of ?ws)"] ids(1) top(1) by (fastforce simp: mono_def word_le_nat_alt)
      ultimately show ?thesis using ids rule top(2) by simp
    qed
  qed
  then show "vs_ok (from_words ws n)" "unat ` vs_set (from_words ws n) = wset ws" by simp_all
qed

lemma mark_wset:
  assumes "unat nid div 64 < length ws"
  shows "case mark nid (ws, n) of (ws', n') \<Rightarrow>
    length ws' = length ws \<and> wset ws' = insert (unat nid) (wset ws) \<and> n' = (if unat nid \<in> wset ws then n else Suc n)"
  using wset_set [OF assms] wset_test [OF assms] by (simp add: mark_def Let_def insert_absorb)

lemma fold_mark:
  "\<forall>i\<in>set ids. unat i div 64 < length ws \<Longrightarrow> n = card (wset ws) \<Longrightarrow>
   case fold mark ids (ws, n) of (ws', n') \<Rightarrow> length ws' = length ws \<and> wset ws' = unat ` set ids \<union> wset ws \<and> n' = card (wset ws')"
proof (induction ids arbitrary: ws n)
  case (Cons i ids)
  obtain ws1 n1 where m: "mark i (ws, n) = (ws1, n1)" by (cases "mark i (ws, n)")
  have "length ws1 = length ws" "wset ws1 = insert (unat i) (wset ws)" "n1 = card (wset ws1)"
    using mark_wset [of i ws n] Cons.prems m by (simp_all add: card_insert_if)
  then show ?case using Cons.IH [of ws1 n1] Cons.prems m by (simp add: case_prod_unfold)
qed simp

lemma div_ceil_bounds:
  assumes "0 < b"
  shows "a \<le> div_ceil a b * b" "div_ceil a b * b < a + b"
proof -
  define q r where "q = a div b" and "r = a mod b"
  have "a = q * b + r" "r < b" using assms by (simp_all add: q_def r_def)
  moreover have "div_ceil a b = (if r = 0 then q else Suc q)" by (simp add: div_ceil_def q_def r_def)
  ultimately show "a \<le> div_ceil a b * b" "div_ceil a b * b < a + b" by simp_all
qed

lemma from_ids_ok: "vs_ok (from_ids ids)" "vs_set (from_ids ids) = set ids"
proof -
  let ?mx = "Max (set ids)" let ?span = "Suc (unat ?mx)"
  have "vs_ok (from_ids ids) \<and> vs_set (from_ids ids) = set ids"
  proof (cases "ids = []")
    case False
    have mx: "unat ?mx < 2 ^ 32" using unsigned_less [of ?mx] by simp
    have span: "saturating_add (unat ?mx) (Suc 0) = ?span" using mx by (simp add: saturating_add_def USIZE_MAX_def)
    have thin: "saturating_mul (length ids) 64 < ?span \<longleftrightarrow> length ids * 64 < ?span"
      using mx by (auto simp: saturating_mul_def USIZE_MAX_def)
    show ?thesis
    proof (cases "length ids * 64 < ?span")
      case True
      have "length (remdups ids) * 64 < ?span" using True length_remdups_leq [of ids] by linarith
      then show ?thesis using True False by (simp add: from_ids_def Let_def span thin)
    next
      case rule: False
      let ?ws = "replicate (div_ceil ?span 64) (0 :: u64)"
      obtain ws n where f: "fold mark ids (?ws, 0) = (ws, n)" by (cases "fold mark ids (?ws, 0)")
      have zero: "wset ?ws = {}" by (auto simp: wset_def)
      have at: "unat ?mx div 64 < div_ceil ?span 64" using div_ceil_bounds(1) [of 64 ?span] by (simp add: less_mult_imp_div_less)
      have "unat i div 64 < length ?ws" if "i \<in> set ids" for i
      proof -
        have "unat i div 64 \<le> unat ?mx div 64" using Max_ge [of "set ids" i] that by (intro div_le_mono) (simp add: word_le_nat_alt)
        then show ?thesis using at by simp
      qed
      then have w: "length ws = div_ceil ?span 64" "wset ws = unat ` set ids" "n = card (wset ws)"
        using fold_mark [of ids ?ws 0] zero f by simp_all
      have "div_ceil ?span 64 * 64 < 4294967296 + 64" using mx div_ceil_bounds(2) [of 64 ?span] by simp
      then have "div_ceil ?span 64 * 64 \<le> 2 ^ 32" by simp
      note ok = from_words_ok [OF w(3) this [folded w(1)]]
      have "from_ids ids = from_words ws n" using False rule f by (simp add: from_ids_def Let_def span thin)
      then show ?thesis using ok w(2) by (simp add: inj_image_eq_iff [OF inj_unat])
    qed
  qed (simp add: from_ids_def)
  then show "vs_ok (from_ids ids)" "vs_set (from_ids ids) = set ids" by simp_all
qed

lemma wset_and: "wset (map2 (AND) xs ys) = wset xs \<inter> wset ys"
  by (auto simp: wset_def bit_and_iff)

lemma intersect_ok:
  assumes "vs_ok a" "vs_ok b"
  shows "vs_ok (vs_intersect a b)" "vs_set (vs_intersect a b) = vs_set a \<inter> vs_set b"
proof -
  have "vs_ok (vs_intersect a b) \<and> vs_set (vs_intersect a b) = vs_set a \<inter> vs_set b"
  proof (cases "\<exists>xs n ys m. a = Dense xs n \<and> b = Dense ys m")
    case True
    then obtain xs n ys m where ab: "a = Dense xs n" "b = Dense ys m" by blast
    let ?ws = "map2 (AND) xs ys"
    have "length ?ws * 64 \<le> 2 ^ 32" using assms(1) ab(1) by (simp add: min_def)
    note ok = from_words_ok [OF wset_card [symmetric, of ?ws] this]
    have "unat ` vs_set (vs_intersect a b) = unat ` (vs_set a \<inter> vs_set b)"
      using ok(2) assms ab vs_set_Dense [of xs n] vs_set_Dense [of ys m]
      by (simp add: vs_intersect_def Let_def wset_and image_Int [OF inj_unat])
    then show ?thesis using ok(1) ab by (simp add: inj_image_eq_iff [OF inj_unat] vs_intersect_def Let_def)
  next
    case False
    then have "vs_intersect a b = (let (small, large) = (if vs_len a \<le> vs_len b then (a, b) else (b, a)) in
      from_ids (filter (vs_contains large) (vs_iter small)))"
      unfolding vs_intersect_def by (cases a; cases b) simp_all
    moreover have "set (filter (vs_contains y) (vs_iter x)) = vs_set x \<inter> vs_set y" if "vs_ok x" for x y
      using vs_iter_set [OF that] by (auto simp: vs_set_def)
    ultimately show ?thesis using assms from_ids_ok by (auto simp: Let_def)
  qed
  then show "vs_ok (vs_intersect a b)" "vs_set (vs_intersect a b) = vs_set a \<inter> vs_set b" by simp_all
qed

section \<open>A finite set of ids as an interface\<close>

text \<open>What a mask relies on in the set it is made of.\<close>

locale id_sets =
  fixes ok :: "'s \<Rightarrow> bool"
    and ids_in :: "'s \<Rightarrow> u32 set"
    and collect :: "u32 list \<Rightarrow> 's"
    and has :: "'s \<Rightarrow> u32 \<Rightarrow> bool"
    and size_of :: "'s \<Rightarrow> nat"
    and inter :: "'s \<Rightarrow> 's \<Rightarrow> 's"
  assumes collect_law: "ok (collect ids)" "ids_in (collect ids) = set ids"
    and has_law: "has s i \<longleftrightarrow> i \<in> ids_in s"
    and size_law: "ok s \<Longrightarrow> size_of s = card (ids_in s)"
    and inter_law: "ok s \<Longrightarrow> ok t \<Longrightarrow> ok (inter s t)" "ok s \<Longrightarrow> ok t \<Longrightarrow> ids_in (inter s t) = ids_in s \<inter> ids_in t"
begin

lemma inter_has: "ok s \<Longrightarrow> ok t \<Longrightarrow> has (inter s t) i \<longleftrightarrow> has s i \<and> has t i"
  by (simp add: has_law inter_law)

lemma collect_has: "has (collect ids) i \<longleftrightarrow> i \<in> set ids"
  by (simp add: has_law collect_law)

text \<open>Narrowing a first set by the others one after the other: what is left is in every one of them.\<close>

lemma fold_inter: "ok s \<Longrightarrow> \<forall>t\<in>set ts. ok t \<Longrightarrow> ok (fold (\<lambda>t s. inter s t) ts s) \<and> ids_in (fold (\<lambda>t s. inter s t) ts s) = ids_in s \<inter> \<Inter> (ids_in ` set ts)"
  by (induction ts arbitrary: s) (auto simp: inter_law)

lemma size_zero: "ok s \<Longrightarrow> finite (ids_in s) \<Longrightarrow> size_of s = 0 \<longleftrightarrow> (\<forall>i. \<not> has s i)"
  by (auto simp: size_law has_law)

end

interpretation vs: id_sets vs_ok vs_set from_ids vs_contains vs_len vs_intersect
  by unfold_locales (simp_all add: from_ids_ok intersect_ok vs_len_card, simp add: vs_set_def)

section \<open>The rule picks the shape and never the answer\<close>

text \<open>Every way to come by a set: from a list of ids, or as the intersection of two.\<close>

datatype set_term = Ids "u32 list" | Both set_term set_term

fun vs_eval :: "set_term \<Rightarrow> visible_set" where
  "vs_eval (Ids ids) = from_ids ids"
| "vs_eval (Both s t) = vs_intersect (vs_eval s) (vs_eval t)"

fun ids_of :: "set_term \<Rightarrow> u32 set" where
  "ids_of (Ids ids) = set ids"
| "ids_of (Both s t) = ids_of s \<inter> ids_of t"

lemma vs_eval_ok: "vs_ok (vs_eval t) \<and> vs_set (vs_eval t) = ids_of t"
  by (induction t) (simp_all add: vs.collect_law vs.inter_law)

lemma ok_shape: "vs_ok v \<Longrightarrow> is_Dense v \<longleftrightarrow> vs_set v \<noteq> {} \<and> Suc (unat (Max (vs_set v))) \<le> card (vs_set v) * 64"
proof (cases v)
  case (Dense ws n)
  assume ok: "vs_ok v"
  then have l: "length ws * 64 \<le> 2 ^ 32" "wset ws \<noteq> {}" using Dense wset_top by simp_all
  have ne: "vs_set v \<noteq> {}" "finite (vs_set v)" using l vs_set_Dense [OF l(1), of n] Dense by auto
  then have "unat (Max (vs_set v)) = Max (wset ws)"
    using mono_Max_commute [of unat "vs_set v"] vs_set_Dense [OF l(1), of n] Dense by (simp add: mono_def word_le_nat_alt)
  then show ?thesis using ok ne vs_len_card [OF ok] Dense by simp
qed (auto simp: distinct_card)

text \<open>C20: a set of visible ids answers as the set it stands for, in whichever shape. Membership, the count and the ids iterated over are those of the
  ids collected, or of the intersection; and the set is a bitset exactly when it is not empty and sixty-four times the number of distinct ids
  reaches the span of the ids.\<close>

theorem visible_set_is_a_set:
  "(vs_contains (vs_eval t) i \<longleftrightarrow> i \<in> ids_of t) \<and> vs_len (vs_eval t) = card (ids_of t) \<and> (vs_is_empty (vs_eval t) \<longleftrightarrow> ids_of t = {}) \<and>
   set (vs_iter (vs_eval t)) = ids_of t \<and> distinct (vs_iter (vs_eval t)) \<and>
   (is_Dense (vs_eval t) \<longleftrightarrow> ids_of t \<noteq> {} \<and> Suc (unat (Max (ids_of t))) \<le> card (ids_of t) * 64)"
proof -
  have ok: "vs_ok (vs_eval t)" "vs_set (vs_eval t) = ids_of t" using vs_eval_ok by simp_all
  have "finite (ids_of t)" by (induction t) simp_all
  then have "vs_is_empty (vs_eval t) \<longleftrightarrow> ids_of t = {}" using vs.size_law [OF ok(1)] ok(2) by (simp add: vs_is_empty_def)
  then show ?thesis using vs.has_law vs.size_law [OF ok(1)] vs_iter_set [OF ok(1)] ok_shape [OF ok(1)] ok(2) by simp
qed

end
