(* ===== verification/Topology_View.thy ===== *)
theory Topology_View
  imports Topology
begin

text \<open>
  The read path over the layers of a store (\<open>TopologyView\<close> in \<open>crates/core-storage/src/v8/seam.rs\<close>):
  the archived adjacency of a snapshot (\<open>layout.rs\<close>), the overlay of changes since and an optional
  layer of a transaction's or a reader's changes on top. The archive is read through its decoded
  fields; the zero-copy access to the mapped bytes is not modelled.
\<close>

section \<open>The archived adjacency\<close>

record csr_row =
  row_vertex :: u32
  row_neighbors :: "u32 list"

record csr_adj_map =
  adj_rows :: "csr_row list"

record csr_etype =
  et_etype :: u32
  et_out_adj :: csr_adj_map
  et_in_adj :: csr_adj_map

record csr_data =
  csr_etypes :: "csr_etype list"
  csr_edge_count :: u64

text \<open>\<open>slice::binary_search_by_key\<close>.\<close>

definition search_by_key :: "('a \<Rightarrow> 'k::linorder) \<Rightarrow> 'a list \<Rightarrow> 'k \<Rightarrow> 'a option" where
  "search_by_key f xs k = (case binary_search (map f xs) k of Found i \<Rightarrow> Some (xs ! i) | Missing _ \<Rightarrow> None)"

definition archived_csr_row :: "csr_data \<Rightarrow> u32 \<Rightarrow> direction \<Rightarrow> u32 \<Rightarrow> csr_row option" where
  "archived_csr_row base etype dir v =
     (case search_by_key et_etype (csr_etypes base) etype of
        None \<Rightarrow> None
      | Some et_entry \<Rightarrow>
          search_by_key row_vertex (adj_rows (case dir of Out \<Rightarrow> et_out_adj et_entry | In \<Rightarrow> et_in_adj et_entry)) v)"

definition base_has_out_edge :: "csr_data \<Rightarrow> u32 \<Rightarrow> u32 \<Rightarrow> u32 \<Rightarrow> bool" where
  "base_has_out_edge base etype src dst =
     (case archived_csr_row base etype Out src of
        None \<Rightarrow> False
      | Some row \<Rightarrow> (case binary_search (row_neighbors row) dst of Found _ \<Rightarrow> True | Missing _ \<Rightarrow> False))"

definition archived_row_degree :: "csr_data \<Rightarrow> u32 \<Rightarrow> direction \<Rightarrow> u32 \<Rightarrow> nat" where
  "archived_row_degree base etype dir v =
     (case archived_csr_row base etype dir v of None \<Rightarrow> 0 | Some row \<Rightarrow> length (row_neighbors row))"

section \<open>The view\<close>

record topology_view =
  tv_overlay :: topology
  tv_base :: "csr_data option"
  tv_layer :: "topology option"

definition tv_owned :: "topology \<Rightarrow> topology_view" where
  "tv_owned ov = \<lparr> tv_overlay = ov, tv_base = None, tv_layer = None \<rparr>"

definition tv_with_base :: "topology \<Rightarrow> csr_data \<Rightarrow> topology_view" where
  "tv_with_base ov base = \<lparr> tv_overlay = ov, tv_base = Some base, tv_layer = None \<rparr>"

definition tv_with_layer :: "topology_view \<Rightarrow> topology \<Rightarrow> topology_view" where
  "tv_with_layer w tx = w \<lparr> tv_layer := Some tx \<rparr>"

definition subtract_tombstones :: "u32 list \<Rightarrow> u32 \<Rightarrow> direction \<Rightarrow> u32 \<Rightarrow> topology \<Rightarrow> u32 list" where
  "subtract_tombstones ns etype dir v ov =
     (case (case dir of Out \<Rightarrow> out_tombstones_for ov etype v | In \<Rightarrow> in_tombstones_for ov etype v) of
        None \<Rightarrow> ns
      | Some t \<Rightarrow> if t = {||} then ns else filter (\<lambda>n. n |\<notin>| t) ns)"

definition lay_tx_over :: "u32 list \<Rightarrow> topology \<Rightarrow> u32 \<Rightarrow> direction \<Rightarrow> u32 \<Rightarrow> u32 list" where
  "lay_tx_over below tx etype dir v =
     (let added = neighbors tx etype dir v
      in if added = [] \<and> tombstones_are_empty tx etype dir v then below
         else
           let kept = subtract_tombstones below etype dir v tx
           in if added = [] then kept else if kept = [] then added else merge_loop kept added)"

definition below_tx_with_base_row :: "topology_view \<Rightarrow> u32 \<Rightarrow> direction \<Rightarrow> u32 \<Rightarrow> u32 list \<times> u32 list option" where
  "below_tx_with_base_row w etype dir v =
     (let overlay_nbrs = neighbors (tv_overlay w) etype dir v
      in case tv_base w of
           None \<Rightarrow> (overlay_nbrs, None)
         | Some base \<Rightarrow>
             (case archived_csr_row base etype dir v of
                None \<Rightarrow> (overlay_nbrs, None)
              | Some r \<Rightarrow>
                  let row = row_neighbors r
                  in if row = [] then (overlay_nbrs, Some row)
                     else
                       let filtered = subtract_tombstones row etype dir v (tv_overlay w)
                       in if filtered = [] then (overlay_nbrs, Some row)
                          else if overlay_nbrs = [] then (filtered, Some row)
                          else (merge_loop overlay_nbrs filtered, Some row)))"

definition neighbors_with_base_row :: "topology_view \<Rightarrow> u32 \<Rightarrow> direction \<Rightarrow> u32 \<Rightarrow> u32 list \<times> u32 list option" where
  "neighbors_with_base_row w etype dir v =
     (let (below, row) = below_tx_with_base_row w etype dir v
      in case tv_layer w of None \<Rightarrow> (below, row) | Some tx \<Rightarrow> (lay_tx_over below tx etype dir v, row))"

definition tv_neighbors :: "topology_view \<Rightarrow> u32 \<Rightarrow> direction \<Rightarrow> u32 \<Rightarrow> u32 list" where
  "tv_neighbors w etype dir v = fst (neighbors_with_base_row w etype dir v)"

definition saturating_sub :: "u64 \<Rightarrow> u64 \<Rightarrow> u64" where
  "saturating_sub a b = (if b \<le> a then a - b else 0)"

definition below_tx_edge_count :: "topology_view \<Rightarrow> u64" where
  "below_tx_edge_count w =
     (case tv_base w of
        None \<Rightarrow> edge_count (tv_overlay w)
      | Some b \<Rightarrow> saturating_sub (csr_edge_count b) (tombstone_count (tv_overlay w)) + edge_count (tv_overlay w))"

text \<open>Every out-direction tombstone, as the source iterates them.\<close>

definition tx_tombstones :: "topology \<Rightarrow> (u32 \<times> u32 \<times> u32) list" where
  "tx_tombstones tx =
     concat (map (\<lambda>etype. let by_src = the (fmlookup (out_tombstones tx) etype) in
       concat (map (\<lambda>src. map (\<lambda>dst. (etype, src, dst)) (sorted_list_of_fset (the (fmlookup by_src src))))
         (sorted_list_of_fset (fmdom by_src))))
       (sorted_list_of_fset (fmdom (out_tombstones tx))))"

definition tv_edge_count :: "topology_view \<Rightarrow> u64" where
  "tv_edge_count w =
     (let below = below_tx_edge_count w
      in case tv_layer w of
           None \<Rightarrow> below
         | Some tx \<Rightarrow>
             let lower = w \<lparr> tv_layer := None \<rparr>;
                 has_below = (\<lambda>(etype, src, dst). dst \<in> set (tv_neighbors lower etype Out src));
                 put_back = (\<lambda>(etype, src, dst). dst \<in> set (neighbors tx etype Out src));
                 count = foldl (\<lambda>count e. if has_below e \<and> \<not> put_back e then saturating_sub count 1 else count) below (tx_tombstones tx)
             in foldl (\<lambda>count e. if \<not> has_below e then count + 1 else count) count (all_edges tx))"

definition tv_degree :: "topology_view \<Rightarrow> u32 \<Rightarrow> direction \<Rightarrow> u32 \<Rightarrow> nat" where
  "tv_degree w etype dir v =
     (if tv_layer w \<noteq> None then length (tv_neighbors w etype dir v)
      else case tv_base w of
        None \<Rightarrow> degree (tv_overlay w) etype dir v
      | Some base \<Rightarrow>
          if adj_is_empty (tv_overlay w) etype dir v \<and> tombstones_are_empty (tv_overlay w) etype dir v
          then archived_row_degree base etype dir v
          else length (tv_neighbors w etype dir v))"

definition tv_etypes :: "topology_view \<Rightarrow> u32 list" where
  "tv_etypes w =
     (case (tv_base w, tv_layer w) of
        (None, None) \<Rightarrow> etypes (tv_overlay w)
      | (base, tx) \<Rightarrow>
          sorted_list_of_set (set (etypes (tv_overlay w))
            \<union> (case base of None \<Rightarrow> {} | Some b \<Rightarrow> et_etype ` set (csr_etypes b))
            \<union> (case tx of None \<Rightarrow> {} | Some t \<Rightarrow> set (etypes t))))"

section \<open>A well-formed archive\<close>

definition csr_nbrs :: "csr_data \<Rightarrow> u32 \<Rightarrow> direction \<Rightarrow> u32 \<Rightarrow> u32 set" where
  "csr_nbrs b e dir v = (case archived_csr_row b e dir v of None \<Rightarrow> {} | Some r \<Rightarrow> set (row_neighbors r))"

definition csr_edges :: "csr_data \<Rightarrow> (u32 \<times> u32 \<times> u32) set" where
  "csr_edges b = {(e, s, d). d \<in> csr_nbrs b e Out s}"

text \<open>What the encoder writes: rows of strictly ascending neighbours, both directions, and the count.\<close>

definition csr_ok :: "csr_data \<Rightarrow> bool" where
  "csr_ok b \<longleftrightarrow> (\<forall>e dir v r. archived_csr_row b e dir v = Some r \<longrightarrow> strict (row_neighbors r))
     \<and> (\<forall>e s d. d \<in> csr_nbrs b e Out s \<longleftrightarrow> s \<in> csr_nbrs b e In d)
     \<and> csr_edge_count b = of_nat (card (csr_edges b))"

lemma mem_csr_edges [simp]: "(e, s, d) \<in> csr_edges b \<longleftrightarrow> d \<in> csr_nbrs b e Out s"
  by (simp add: csr_edges_def)

section \<open>Reading through the layers\<close>

definition tomb_nbrs :: "topology \<Rightarrow> u32 \<Rightarrow> direction \<Rightarrow> u32 \<Rightarrow> u32 set" where
  "tomb_nbrs t e dir v = (case dir of Out \<Rightarrow> tomb_set (out_tombstones t) e v | In \<Rightarrow> tomb_set (in_tombstones t) e v)"

lemma tomb_nbrs_tombs: "topo_ok t \<Longrightarrow> tomb_nbrs t e Out v = {d. (e, v, d) \<in> tombs t} \<and> tomb_nbrs t e In v = {s. (e, s, v) \<in> tombs t}"
  by (auto simp: tomb_nbrs_def tombs_def topo_ok_def)

lemma set_subtract [simp]: "set (subtract_tombstones ns e dir v t) = set ns - tomb_nbrs t e dir v"
  by (auto simp: subtract_tombstones_def tomb_nbrs_def tomb_set_def out_tombstones_for_def in_tombstones_for_def
      split: direction.split option.split)

lemma strict_subtract: "strict ns \<Longrightarrow> strict (subtract_tombstones ns e dir v t)"
  by (auto simp: subtract_tombstones_def sorted_wrt_filter split: direction.split option.split)

lemma tombstones_empty_iff: "tombstones_are_empty t e dir v \<longleftrightarrow> tomb_nbrs t e dir v = {}"
  by (auto simp: tombstones_are_empty_def tomb_nbrs_def tomb_set_def out_tombstones_for_def in_tombstones_for_def
      split: direction.split option.split)

lemma neighbors_props:
  assumes "topo_ok t" shows "strict (neighbors t e dir v)" and "set (neighbors t e dir v) = nbrs t e dir v"
  using neighbors_sorted [OF assms, of e dir v] by simp_all

lemma lay_tx_over_props:
  assumes "topo_ok tx" and "strict below"
  shows "strict (lay_tx_over below tx e dir v)"
    and "set (lay_tx_over below tx e dir v) = (set below - tomb_nbrs tx e dir v) \<union> nbrs tx e dir v"
proof -
  note n = neighbors_props [OF assms(1), of e dir v]
  have ne: "neighbors tx e dir v = [] \<longleftrightarrow> nbrs tx e dir v = {}" using n(2) by (metis set_empty)
  have k: "subtract_tombstones below e dir v tx = [] \<longleftrightarrow> set below - tomb_nbrs tx e dir v = {}"
    by (metis set_subtract set_empty)
  show "strict (lay_tx_over below tx e dir v)"
    using n assms(2) strict_subtract [OF assms(2)] by (simp add: lay_tx_over_def Let_def strict_merge_loop)
  show "set (lay_tx_over below tx e dir v) = (set below - tomb_nbrs tx e dir v) \<union> nbrs tx e dir v"
    using n k by (auto simp: lay_tx_over_def Let_def tombstones_empty_iff ne)
qed

text \<open>The edges a view shows, layer by layer.\<close>

definition below_edges :: "topology_view \<Rightarrow> (u32 \<times> u32 \<times> u32) set" where
  "below_edges w = (case tv_base w of None \<Rightarrow> {} | Some b \<Rightarrow> csr_edges b - tombs (tv_overlay w)) \<union> edges (tv_overlay w)"

definition view_edges :: "topology_view \<Rightarrow> (u32 \<times> u32 \<times> u32) set" where
  "view_edges w = (case tv_layer w of None \<Rightarrow> below_edges w | Some tx \<Rightarrow> (below_edges w - tombs tx) \<union> edges tx)"

definition view_ok :: "topology_view \<Rightarrow> bool" where
  "view_ok w \<longleftrightarrow> topo_ok (tv_overlay w) \<and> (case tv_base w of None \<Rightarrow> True | Some b \<Rightarrow> csr_ok b)
     \<and> (case tv_layer w of None \<Rightarrow> True | Some tx \<Rightarrow> topo_ok tx)"

text \<open>The neighbours of a vertex in a set of edges.\<close>

definition star :: "(u32 \<times> u32 \<times> u32) set \<Rightarrow> u32 \<Rightarrow> direction \<Rightarrow> u32 \<Rightarrow> u32 set" where
  "star E e dir v = (case dir of Out \<Rightarrow> {d. (e, v, d) \<in> E} | In \<Rightarrow> {s. (e, s, v) \<in> E})"

lemma star_ops: "star (A \<union> B) e dir v = star A e dir v \<union> star B e dir v" "star (A - B) e dir v = star A e dir v - star B e dir v"
  "star {} e dir v = {}"
  by (cases dir; auto simp: star_def)+

lemma star_edges: "topo_ok t \<Longrightarrow> star (edges t) e dir v = nbrs t e dir v"
  using nbrs_edges [of t e v] by (cases dir) (simp_all add: star_def)

lemma star_tombs: "topo_ok t \<Longrightarrow> star (tombs t) e dir v = tomb_nbrs t e dir v"
  using tomb_nbrs_tombs [of t e v] by (cases dir) (simp_all add: star_def)

lemma star_csr: "csr_ok b \<Longrightarrow> star (csr_edges b) e dir v = csr_nbrs b e dir v"
  by (cases dir) (auto simp: star_def csr_ok_def)

lemma below_props:
  assumes "view_ok w"
  shows "strict (fst (below_tx_with_base_row w e dir v))" and "set (fst (below_tx_with_base_row w e dir v)) = star (below_edges w) e dir v"
proof -
  have ok: "topo_ok (tv_overlay w)" using assms by (simp add: view_ok_def)
  note n = neighbors_props [OF ok, of e dir v]
  have ne: "neighbors (tv_overlay w) e dir v = [] \<longleftrightarrow> nbrs (tv_overlay w) e dir v = {}" using n(2) by (metis set_empty)
  have "strict (fst (below_tx_with_base_row w e dir v)) \<and> set (fst (below_tx_with_base_row w e dir v)) = star (below_edges w) e dir v"
  proof (cases "tv_base w")
    case None
    then show ?thesis using n by (simp add: below_tx_with_base_row_def below_edges_def star_ops star_edges [OF ok])
  next
    case (Some b)
    have cb: "csr_ok b" using assms Some by (simp add: view_ok_def)
    have E: "star (below_edges w) e dir v = (csr_nbrs b e dir v - tomb_nbrs (tv_overlay w) e dir v) \<union> nbrs (tv_overlay w) e dir v"
      using Some by (simp add: below_edges_def star_ops star_edges [OF ok] star_tombs [OF ok] star_csr [OF cb])
    show ?thesis
    proof (cases "archived_csr_row b e dir v")
      case None
      then show ?thesis using n Some by (simp add: below_tx_with_base_row_def E csr_nbrs_def)
    next
      case (Some r)
      let ?f = "subtract_tombstones (row_neighbors r) e dir v (tv_overlay w)"
      have st: "strict (row_neighbors r)" using cb Some by (simp add: csr_ok_def)
      have row: "csr_nbrs b e dir v = set (row_neighbors r)" using Some by (simp add: csr_nbrs_def)
      have f: "?f = [] \<longleftrightarrow> set (row_neighbors r) - tomb_nbrs (tv_overlay w) e dir v = {}" by (metis set_subtract set_empty)
      show ?thesis using n Some \<open>tv_base w = Some b\<close> st strict_subtract [OF st] f
        by (auto simp: below_tx_with_base_row_def Let_def E row ne strict_merge_loop)
    qed
  qed
  then show "strict (fst (below_tx_with_base_row w e dir v))"
    "set (fst (below_tx_with_base_row w e dir v)) = star (below_edges w) e dir v" by auto
qed

lemma tv_neighbors_correct:
  assumes "view_ok w" shows "tv_neighbors w e dir v = sorted_list_of_set (star (view_edges w) e dir v)"
proof (rule strict_set_eqI)
  note b = below_props [OF assms, of e dir v]
  have "strict (tv_neighbors w e dir v) \<and> set (tv_neighbors w e dir v) = star (view_edges w) e dir v"
  proof (cases "tv_layer w")
    case None
    then show ?thesis using b by (simp add: tv_neighbors_def neighbors_with_base_row_def split_beta view_edges_def)
  next
    case (Some tx)
    then have ok: "topo_ok tx" using assms by (simp add: view_ok_def)
    show ?thesis using Some b lay_tx_over_props [OF ok b(1), of e dir v]
      by (simp add: tv_neighbors_def neighbors_with_base_row_def split_beta view_edges_def star_ops star_edges [OF ok] star_tombs [OF ok])
  qed
  then show "strict (tv_neighbors w e dir v)" "set (tv_neighbors w e dir v) = set (sorted_list_of_set (star (view_edges w) e dir v))"
    by simp_all
  show "strict (sorted_list_of_set (star (view_edges w) e dir v))" by simp
qed

lemma view_degree:
  assumes "view_ok w" shows "tv_degree w e dir v = card (star (view_edges w) e dir v)"
proof -
  have len: "length (tv_neighbors w e dir v) = card (star (view_edges w) e dir v)" by (simp add: tv_neighbors_correct [OF assms])
  have ok: "topo_ok (tv_overlay w)" using assms by (simp add: view_ok_def)
  show ?thesis
  proof (cases "tv_layer w = None")
    case False
    then show ?thesis using len by (simp add: tv_degree_def)
  next
    case True
    show ?thesis
    proof (cases "tv_base w")
      case None
      then show ?thesis using True ok
        by (simp add: tv_degree_def degree_def neighbors_sorted view_edges_def below_edges_def star_ops star_edges)
    next
      case (Some b)
      then have cb: "csr_ok b" using assms by (simp add: view_ok_def)
      have E: "star (view_edges w) e dir v = (csr_nbrs b e dir v - tomb_nbrs (tv_overlay w) e dir v) \<union> nbrs (tv_overlay w) e dir v"
        using Some True by (simp add: view_edges_def below_edges_def star_ops star_edges [OF ok] star_tombs [OF ok] star_csr [OF cb])
      have "archived_row_degree b e dir v = card (csr_nbrs b e dir v)"
        using cb by (auto simp: archived_row_degree_def csr_nbrs_def csr_ok_def split: option.split intro!: distinct_card [symmetric] strict_distinct)
      moreover have "adj_is_empty (tv_overlay w) e dir v \<longleftrightarrow> nbrs (tv_overlay w) e dir v = {}"
        by (auto simp: adj_is_empty_def nbrs_def al_is_empty_def al_set_def split: option.split)
      ultimately show ?thesis using Some True len E by (auto simp: tv_degree_def tombstones_empty_iff)
    qed
  qed
qed

section \<open>Counting through the layers\<close>

lemma distinct_inner: "distinct V \<Longrightarrow> (\<And>v. v \<in> set V \<Longrightarrow> distinct (M v)) \<Longrightarrow> distinct (concat (map (\<lambda>v. map (\<lambda>d. (e, v, d)) (M v)) V))"
  by (induction V) (auto simp: distinct_map inj_on_def)

lemma distinct_nested:
  "distinct D \<Longrightarrow> (\<And>e. e \<in> set D \<Longrightarrow> distinct (V e)) \<Longrightarrow> (\<And>e v. e \<in> set D \<Longrightarrow> v \<in> set (V e) \<Longrightarrow> distinct (M e v))
    \<Longrightarrow> distinct (concat (map (\<lambda>e. concat (map (\<lambda>v. map (\<lambda>d. (e, v, d)) (M e v)) (V e))) D))"
  by (induction D) (auto intro!: distinct_inner)

lemma tx_tombstones_correct: "set (tx_tombstones t) = tombs t" "distinct (tx_tombstones t)"
proof -
  show "set (tx_tombstones t) = tombs t"
    unfolding tx_tombstones_def Let_def set_nested set_sorted_dom tombs_Sigma by (simp add: sorted_list_of_fset.rep_eq)
  show "distinct (tx_tombstones t)"
    unfolding tx_tombstones_def Let_def by (intro distinct_nested) (simp_all add: sorted_list_of_fset.rep_eq)
qed

text \<open>The two counting loops.\<close>

lemma count_up: "foldl (\<lambda>c e. if P e then c + 1 else c) (of_nat n :: u64) es = of_nat (n + length (filter P es))"
proof (induction es arbitrary: n)
  case (Cons e es)
  then show ?case using Cons.IH [of "Suc n"] by (simp add: add.commute)
qed simp

lemma unat_count: "n < 2 ^ 64 \<Longrightarrow> unat (of_nat n :: u64) = n"
  by (simp add: unsigned_of_nat take_bit_nat_eq_self)

lemma saturating_sub_count: "n < 2 ^ 64 \<Longrightarrow> k \<le> n \<Longrightarrow> saturating_sub (of_nat n) (of_nat k) = of_nat (n - k)"
  by (simp add: saturating_sub_def word_le_nat_alt unat_count)

lemma count_down:
  "n < 2 ^ 64 \<Longrightarrow> length (filter P es) \<le> n
    \<Longrightarrow> foldl (\<lambda>c e. if P e then saturating_sub c 1 else c) (of_nat n :: u64) es = of_nat (n - length (filter P es))"
proof (induction es arbitrary: n)
  case (Cons e es)
  show ?case
  proof (cases "P e")
    case True
    then have "saturating_sub (of_nat n) 1 = (of_nat (n - 1) :: u64)" using saturating_sub_count [of n 1] Cons.prems by simp
    then show ?thesis using Cons.IH [of "n - 1"] Cons.prems True by simp
  qed (use Cons in simp)
qed simp

text \<open>
  Tombstones cover edges of the base and the overlay holds no edge the base still shows, which the
  engine maintains; then the count below the layer is exact.
\<close>

definition overlay_exact :: "topology_view \<Rightarrow> bool" where
  "overlay_exact w \<longleftrightarrow> (case tv_base w of None \<Rightarrow> True
     | Some b \<Rightarrow> tombs (tv_overlay w) \<subseteq> csr_edges b \<and> edges (tv_overlay w) \<inter> (csr_edges b - tombs (tv_overlay w)) = {}
         \<and> card (csr_edges b) < 2 ^ 64)"

lemma below_count:
  assumes "view_ok w" and "overlay_exact w"
  shows "below_tx_edge_count w = of_nat (card (below_edges w))"
proof (cases "tv_base w")
  case None
  then show ?thesis using assms(1) by (simp add: below_tx_edge_count_def below_edges_def view_ok_def topo_ok_def)
next
  case (Some b)
  let ?T = "tombs (tv_overlay w)" and ?E = "edges (tv_overlay w)"
  have ok: "topo_ok (tv_overlay w)" "csr_ok b" using assms(1) Some by (simp_all add: view_ok_def)
  have ex: "?T \<subseteq> csr_edges b" "?E \<inter> (csr_edges b - ?T) = {}" "card (csr_edges b) < 2 ^ 64" using assms(2) Some by (simp_all add: overlay_exact_def)
  have fin: "finite (csr_edges b)" by (rule finite)
  have "card (below_edges w) = card (csr_edges b - ?T) + card ?E"
    unfolding below_edges_def using Some ex(2) fin by (simp add: card_Un_disjoint Int_commute)
  also have "card (csr_edges b - ?T) = card (csr_edges b) - card ?T" using ex(1) by (intro card_Diff_subset) simp_all
  finally have c: "card (below_edges w) = card (csr_edges b) - card ?T + card ?E" .
  have "card ?T \<le> card (csr_edges b)" using ex(1) fin by (intro card_mono)
  then have "saturating_sub (csr_edge_count b) (tombstone_count (tv_overlay w)) = of_nat (card (csr_edges b) - card ?T)"
    using ok(2) ex(3) unfolding tombstone_count_card csr_ok_def by (simp add: saturating_sub_count)
  then show ?thesis using Some ok(1) c by (simp add: below_tx_edge_count_def topo_ok_def)
qed

lemma length_filter_distinct: "distinct xs \<Longrightarrow> length (filter P xs) = card {x \<in> set xs. P x}"
  by (metis distinct_card distinct_filter set_filter)

lemma view_count:
  assumes "view_ok w" and "overlay_exact w" and "card (below_edges w) < 2 ^ 64"
  shows "tv_edge_count w = of_nat (card (view_edges w))"
proof (cases "tv_layer w")
  case None
  then show ?thesis using below_count [OF assms(1,2)] by (simp add: tv_edge_count_def view_edges_def)
next
  case (Some tx)
  let ?L = "below_edges w" and ?low = "w \<lparr> tv_layer := None \<rparr>"
  have ok: "topo_ok tx" using assms(1) Some by (simp add: view_ok_def)
  have low: "view_ok ?low" "view_edges ?low = ?L" using assms(1) by (simp_all add: view_ok_def view_edges_def below_edges_def split: option.split)
  have fin: "finite ?L" by (rule finite)
  have hb: "(\<lambda>(e, s, d). d \<in> set (tv_neighbors ?low e Out s)) = (\<lambda>x. x \<in> ?L)"
    by (intro ext) (simp add: tv_neighbors_correct [OF low(1)] low(2) star_def split_beta)
  have pb: "(\<lambda>(e, s, d). d \<in> set (neighbors tx e Out s)) = (\<lambda>x. x \<in> edges tx)"
    by (intro ext) (auto simp: neighbors_sorted [OF ok])
  have down: "length (filter (\<lambda>x. x \<in> ?L \<and> x \<notin> edges tx) (tx_tombstones tx)) = card (?L \<inter> tombs tx - edges tx)"
    by (subst length_filter_distinct [OF tx_tombstones_correct(2)]) (rule arg_cong [where f = card], auto simp: tx_tombstones_correct)
  have up: "length (filter (\<lambda>x. x \<notin> ?L) (all_edges tx)) = card (edges tx - ?L)"
    by (subst length_filter_distinct [OF all_edges_correct(2) [OF ok]]) (rule arg_cong [where f = card], auto simp: all_edges_correct [OF ok])
  have le: "card (?L \<inter> tombs tx - edges tx) \<le> card ?L" using fin by (intro card_mono) auto
  have "view_edges w = (?L - (?L \<inter> tombs tx - edges tx)) \<union> (edges tx - ?L)" using Some by (auto simp: view_edges_def)
  then have "card (view_edges w) = card (?L - (?L \<inter> tombs tx - edges tx)) + card (edges tx - ?L)"
    by (simp only:) (rule card_Un_disjoint, auto intro: finite)
  also have "card (?L - (?L \<inter> tombs tx - edges tx)) = card ?L - card (?L \<inter> tombs tx - edges tx)"
    by (rule card_Diff_subset) (auto intro: finite)
  finally have c: "card (view_edges w) = card ?L - card (?L \<inter> tombs tx - edges tx) + card (edges tx - ?L)" .
  have "tv_edge_count w = foldl (\<lambda>c x. if x \<notin> ?L then c + 1 else c)
      (foldl (\<lambda>c x. if x \<in> ?L \<and> x \<notin> edges tx then saturating_sub c 1 else c) (of_nat (card ?L)) (tx_tombstones tx)) (all_edges tx)"
    unfolding tv_edge_count_def Let_def using Some by (simp add: below_count [OF assms(1,2)] hb pb)
  also have "\<dots> = of_nat (card (view_edges w))"
    using count_down [OF assms(3), of "\<lambda>x. x \<in> ?L \<and> x \<notin> edges tx" "tx_tombstones tx"] le
    by (simp only: down count_up up c)
  finally show ?thesis .
qed

lemma search_by_key_None: "strict (map f xs) \<Longrightarrow> search_by_key f xs k = None \<longleftrightarrow> k \<notin> f ` set xs"
  using binary_search_Found_iff [of "map f xs" k] by (auto simp: search_by_key_def split: search.splits)

lemma view_base_edge:
  assumes "csr_ok b" shows "base_has_out_edge b e s d \<longleftrightarrow> (e, s, d) \<in> csr_edges b"
proof (cases "archived_csr_row b e Out s")
  case (Some r)
  then have "strict (row_neighbors r)" using assms by (simp add: csr_ok_def)
  from binary_search_Found_iff [OF this, of d] show ?thesis using Some
    by (auto simp: base_has_out_edge_def csr_nbrs_def split: search.splits)
qed (simp add: base_has_out_edge_def csr_nbrs_def)

section \<open>Edge types\<close>

lemma etypes_cover: "(e, s, d) \<in> edges t \<Longrightarrow> e \<in> set (etypes t)"
  by (auto simp: edges_Sigma etypes_def fmlookup_dom'_iff fmlookup_dom_iff)

lemma probe_bound: "0 < n \<Longrightarrow> probe p xs base n < base + n"
proof (induction p xs base n rule: probe.induct)
  case (1 p xs base n)
  show ?case
  proof (cases "n \<le> 1")
    case False
    then show ?thesis using 1(1) [OF False refl refl] by (subst probe.simps) (auto simp: Let_def)
  qed (use 1(2) in \<open>simp add: probe.simps\<close>)
qed

lemma search_by_key_hit: "search_by_key f xs k = Some x \<Longrightarrow> x \<in> set xs \<and> f x = k"
proof -
  assume "search_by_key f xs k = Some x"
  then obtain i where i: "binary_search (map f xs) k = Found i" "x = xs ! i" by (auto simp: search_by_key_def split: Rust_Prelude.search.splits)
  then have "i < length xs" "map f xs ! i = k"
    using probe_bound [of "length xs" "\<lambda>x. x \<le> k" "map f xs" 0] by (auto simp: binary_search_def Let_def split: if_splits)
  then show ?thesis using i(2) by auto
qed

lemma csr_etypes_cover: "(e, s, d) \<in> csr_edges b \<Longrightarrow> e \<in> et_etype ` set (csr_etypes b)"
  by (auto simp: csr_nbrs_def archived_csr_row_def dest!: search_by_key_hit split: option.splits)

lemma tv_etypes_cover: "(e, s, d) \<in> view_edges w \<Longrightarrow> e \<in> set (tv_etypes w)"
  using etypes_cover [of e s d] csr_etypes_cover [of e s d] by (auto simp: view_edges_def below_edges_def tv_etypes_def simp del: mem_edges mem_csr_edges split: option.splits)

text \<open>
  C7: a read through the snapshot, the overlay and an optional layer shows one set of edges: an edge
  of the snapshot unless the overlay's tombstones hide it, with the overlay's edges, and over both the
  layer's tombstones and edges. The neighbours in either direction are the sorted list of that set's,
  the degree is their number whichever path computes it, and the edge count is the size of the set
  when the overlay's tombstones all name edges of the snapshot, even when a layer takes out edges
  that are not there or puts back edges it took out.
\<close>

theorem topology_view_reads_one_edge_set:
  assumes "view_ok w"
  shows "tv_neighbors w e Out v = sorted_list_of_set {d. (e, v, d) \<in> view_edges w}
    \<and> tv_neighbors w e In v = sorted_list_of_set {s. (e, s, v) \<in> view_edges w}
    \<and> tv_degree w e Out v = card {d. (e, v, d) \<in> view_edges w}
    \<and> tv_degree w e In v = card {s. (e, s, v) \<in> view_edges w}
    \<and> (overlay_exact w \<and> card (below_edges w) < 2 ^ 64 \<longrightarrow> tv_edge_count w = of_nat (card (view_edges w)))
    \<and> (case tv_base w of None \<Rightarrow> True | Some b \<Rightarrow> base_has_out_edge b e v d = ((e, v, d) \<in> csr_edges b))"
proof (intro conjI)
  show "tv_neighbors w e Out v = sorted_list_of_set {d. (e, v, d) \<in> view_edges w}"
    "tv_neighbors w e In v = sorted_list_of_set {s. (e, s, v) \<in> view_edges w}"
    using tv_neighbors_correct [OF assms] by (simp_all add: star_def)
  show "tv_degree w e Out v = card {d. (e, v, d) \<in> view_edges w}" "tv_degree w e In v = card {s. (e, s, v) \<in> view_edges w}"
    using view_degree [OF assms] by (simp_all add: star_def)
  show "overlay_exact w \<and> card (below_edges w) < 2 ^ 64 \<longrightarrow> tv_edge_count w = of_nat (card (view_edges w))"
    using view_count [OF assms] by blast
  show "case tv_base w of None \<Rightarrow> True | Some b \<Rightarrow> base_has_out_edge b e v d = ((e, v, d) \<in> csr_edges b)"
    using assms view_base_edge by (auto simp: view_ok_def split: option.split)
qed

text \<open>A snapshot of one edge, read under an overlay and a layer.\<close>

definition wit_csr :: csr_data where
  "wit_csr = \<lparr> csr_etypes = [\<lparr> et_etype = 3, et_out_adj = \<lparr> adj_rows = [\<lparr> row_vertex = 1, row_neighbors = [2] \<rparr>] \<rparr>,
     et_in_adj = \<lparr> adj_rows = [\<lparr> row_vertex = 2, row_neighbors = [1] \<rparr>] \<rparr> \<rparr>], csr_edge_count = 1 \<rparr>"

lemma binary_search_single: "binary_search [x] k = (if x = k then Found 0 else if x < k then Missing 1 else Missing 0)"
  by (simp add: binary_search_def probe.simps)

lemma wit_rows: "archived_csr_row wit_csr e dir v = (if e = 3 then (case dir of
    Out \<Rightarrow> if v = 1 then Some \<lparr> row_vertex = 1, row_neighbors = [2] \<rparr> else None
  | In \<Rightarrow> if v = 2 then Some \<lparr> row_vertex = 2, row_neighbors = [1] \<rparr> else None) else None)"
  by (auto simp: archived_csr_row_def wit_csr_def search_by_key_def binary_search_single split: direction.split)

lemma wit_csr_edges: "csr_edges wit_csr = {(3, 1, 2)}"
  by (auto simp: csr_edges_def csr_nbrs_def wit_rows split: if_splits)

lemma wit_csr_ok: "csr_ok wit_csr"
proof -
  have n: "csr_edge_count wit_csr = 1" by (simp add: wit_csr_def)
  show ?thesis unfolding csr_ok_def wit_csr_edges n by (auto simp: csr_nbrs_def wit_rows split: direction.splits if_splits)
qed

definition wit_view :: topology_view where
  "wit_view = tv_with_layer (tv_with_base topo_new wit_csr) (snd (the (add_edge topo_new 3 1 5)))"

theorem topology_view_reads_one_edge_set_witness:
  "tv_neighbors wit_view 3 Out 1 = [2, 5] \<and> tv_edge_count wit_view = 2"
proof -
  obtain tx where tx: "add_edge topo_new 3 1 5 = Some (True, tx)" "topo_ok tx" "edges tx = {(3, 1, 5)}" "tombs tx = {}"
    using add_edge_correct [OF topo_new_ok(1), of 3 1 5] topo_new_ok by auto
  have ok: "view_ok wit_view" using tx topo_new_ok wit_csr_ok by (simp add: view_ok_def wit_view_def tv_with_layer_def tv_with_base_def)
  have E: "below_edges wit_view = {(3, 1, 2)}" "view_edges wit_view = {(3, 1, 2), (3, 1, 5)}"
    using tx topo_new_ok wit_csr_edges by (auto simp: view_edges_def below_edges_def wit_view_def tv_with_layer_def tv_with_base_def)
  have x: "overlay_exact wit_view" using topo_new_ok wit_csr_edges by (simp add: overlay_exact_def wit_view_def tv_with_layer_def tv_with_base_def)
  have "{d. (3, 1, d) \<in> view_edges wit_view} = {2, 5}" unfolding E by auto
  then show ?thesis using topology_view_reads_one_edge_set [OF ok, of 3 1] x E by (auto simp: sorted_list_of_set_insert_remove)
qed

end
