(* ===== verification/Edge_Props.thy ===== *)
theory Edge_Props
  imports Topology_View
begin

text \<open>
  Edge properties: the overlay (\<open>crates/core-storage/src/edge_props.rs\<close>) and the view that reads a
  layer over the overlay over the archived section (\<open>EdgePropsView\<close> in \<open>v8/seam.rs\<close>). A \<open>BTreeMap\<close> is a
  finite map and a \<open>BTreeSet\<close> a finite set; where the source iterates one, the keys are listed in
  order. The archive's property blobs are read by \<open>bincode\<close>, a parameter.
\<close>

type_synonym edge_key = "u32 \<times> u32 \<times> u32"
type_synonym props = "(string, val) fmap"

section \<open>The overlay\<close>

record edge_props =
  ep_map :: "(edge_key, props) fmap"
  ep_tombstones :: "edge_key fset"
  ep_touched :: "edge_key fset"

definition ep_new :: edge_props where
  "ep_new = \<lparr> ep_map = fmempty, ep_tombstones = {||}, ep_touched = {||} \<rparr>"

definition ep_set :: "edge_props \<Rightarrow> edge_key \<Rightarrow> string \<Rightarrow> val \<Rightarrow> edge_props" where
  "ep_set p k field v = p \<lparr>
     ep_touched := finsert k (ep_touched p),
     ep_map := fmupd k (fmupd field v (entry_or fmempty (ep_map p) k)) (ep_map p) \<rparr>"

definition ep_get :: "edge_props \<Rightarrow> edge_key \<Rightarrow> string \<Rightarrow> val option" where
  "ep_get p k field = (case fmlookup (ep_map p) k of None \<Rightarrow> None | Some m \<Rightarrow> fmlookup m field)"

definition ep_props_of :: "edge_props \<Rightarrow> edge_key \<Rightarrow> props option" where
  "ep_props_of p k = fmlookup (ep_map p) k"

definition ep_remove_edge :: "edge_props \<Rightarrow> edge_key \<Rightarrow> edge_props" where
  "ep_remove_edge p k = p \<lparr>
     ep_map := fmdrop k (ep_map p),
     ep_tombstones := finsert k (ep_tombstones p),
     ep_touched := finsert k (ep_touched p) \<rparr>"

definition ep_replace :: "edge_props \<Rightarrow> edge_key \<Rightarrow> props \<Rightarrow> edge_props" where
  "ep_replace p k props = p \<lparr>
     ep_map := (if props = fmempty then fmdrop k (ep_map p) else fmupd k props (ep_map p)),
     ep_tombstones := finsert k (ep_tombstones p),
     ep_touched := finsert k (ep_touched p) \<rparr>"

definition ep_has_touched :: "edge_props \<Rightarrow> bool" where
  "ep_has_touched p \<longleftrightarrow> ep_touched p \<noteq> {||}"

definition ep_take_touched :: "edge_props \<Rightarrow> edge_key fset \<times> edge_props" where
  "ep_take_touched p = (ep_touched p, p \<lparr> ep_touched := {||} \<rparr>)"

definition ep_entry :: "edge_props \<Rightarrow> edge_key \<Rightarrow> props option \<times> bool" where
  "ep_entry p k = (fmlookup (ep_map p) k, k |\<in>| ep_tombstones p)"

definition ep_restore_entry :: "edge_props \<Rightarrow> edge_key \<Rightarrow> props option \<times> bool \<Rightarrow> edge_props" where
  "ep_restore_entry p k e = p \<lparr>
     ep_map := (case fst e of Some props \<Rightarrow> fmupd k props (ep_map p) | None \<Rightarrow> fmdrop k (ep_map p)),
     ep_tombstones := (if snd e then finsert k (ep_tombstones p) else ep_tombstones p |-| {|k|}) \<rparr>"

definition ep_is_tombstoned :: "edge_props \<Rightarrow> edge_key \<Rightarrow> bool" where
  "ep_is_tombstoned p k \<longleftrightarrow> k |\<in>| ep_tombstones p"

definition ep_is_clean :: "edge_props \<Rightarrow> bool" where
  "ep_is_clean p \<longleftrightarrow> fmdom (ep_map p) = {||} \<and> ep_tombstones p = {||}"

definition ep_sorted_entries :: "edge_props \<Rightarrow> (edge_key \<times> props) list" where
  "ep_sorted_entries p = map (\<lambda>k. (k, the (fmlookup (ep_map p) k))) (sorted_list_of_fset (fmdom (ep_map p)))"

definition ep_tombstoned_keys :: "edge_props \<Rightarrow> edge_key list" where
  "ep_tombstoned_keys p = sorted_list_of_fset (ep_tombstones p)"

section \<open>The view\<close>

text \<open>The archived section: entries sorted by edge, each with its property blob.\<close>

record edge_prop_entry =
  epe_key :: edge_key
  epe_blob :: bytes

record edge_props_view =
  ev_overlay :: edge_props
  ev_base :: "edge_prop_entry list option"
  ev_layer :: "edge_props option"

definition ev_owned :: "edge_props \<Rightarrow> edge_props_view" where
  "ev_owned ov = \<lparr> ev_overlay = ov, ev_base = None, ev_layer = None \<rparr>"

definition ev_with_base :: "edge_props \<Rightarrow> edge_prop_entry list \<Rightarrow> edge_props_view" where
  "ev_with_base ov base = \<lparr> ev_overlay = ov, ev_base = Some base, ev_layer = None \<rparr>"

definition ev_with_layer :: "edge_props_view \<Rightarrow> edge_props \<Rightarrow> edge_props_view" where
  "ev_with_layer w tx = w \<lparr> ev_layer := Some tx \<rparr>"

text \<open>\<open>get\<close> below the layer.\<close>

definition below_get :: "(bytes \<Rightarrow> props option) \<Rightarrow> edge_props_view \<Rightarrow> edge_key \<Rightarrow> string \<Rightarrow> val option" where
  "below_get de w k field =
     (case ep_get (ev_overlay w) k field of
        Some v \<Rightarrow> Some v
      | None \<Rightarrow>
          if ep_is_tombstoned (ev_overlay w) k then None
          else case ev_base w of None \<Rightarrow> None
            | Some entries \<Rightarrow>
                (case search_by_key epe_key entries k of None \<Rightarrow> None
                 | Some e \<Rightarrow> (case de (epe_blob e) of None \<Rightarrow> None | Some props \<Rightarrow> fmlookup props field)))"

definition ev_get :: "(bytes \<Rightarrow> props option) \<Rightarrow> edge_props_view \<Rightarrow> edge_key \<Rightarrow> string \<Rightarrow> val option" where
  "ev_get de w k field =
     (case ev_layer w of
        Some tx \<Rightarrow>
          (case ep_get tx k field of
             Some v \<Rightarrow> Some v
           | None \<Rightarrow> if ep_is_tombstoned tx k then None else below_get de w k field)
      | None \<Rightarrow> below_get de w k field)"

definition unwrap_or_empty :: "props option \<Rightarrow> props" where
  "unwrap_or_empty p = (case p of Some m \<Rightarrow> m | None \<Rightarrow> fmempty)"

definition below_props_of :: "(bytes \<Rightarrow> props option) \<Rightarrow> edge_props_view \<Rightarrow> edge_key \<Rightarrow> props" where
  "below_props_of de w k =
     (if ep_is_tombstoned (ev_overlay w) k then unwrap_or_empty (ep_props_of (ev_overlay w) k)
      else
        let out = unwrap_or_empty (case ev_base w of None \<Rightarrow> None
              | Some entries \<Rightarrow> (case search_by_key epe_key entries k of None \<Rightarrow> None | Some e \<Rightarrow> de (epe_blob e)))
        in case ep_props_of (ev_overlay w) k of None \<Rightarrow> out | Some own \<Rightarrow> out ++\<^sub>f own)"

definition ev_props_of :: "(bytes \<Rightarrow> props option) \<Rightarrow> edge_props_view \<Rightarrow> edge_key \<Rightarrow> props" where
  "ev_props_of de w k =
     (case ev_layer w of
        Some tx \<Rightarrow>
          if ep_is_tombstoned tx k then unwrap_or_empty (ep_props_of tx k)
          else (case ep_props_of tx k of None \<Rightarrow> below_props_of de w k | Some own \<Rightarrow> below_props_of de w k ++\<^sub>f own)
      | None \<Rightarrow> below_props_of de w k)"

section \<open>What an overlay does to the layer below\<close>

definition laid_over :: "edge_props \<Rightarrow> edge_key \<Rightarrow> props \<Rightarrow> props" where
  "laid_over p k below =
     (if k |\<in>| ep_tombstones p then unwrap_or_empty (fmlookup (ep_map p) k) else below ++\<^sub>f unwrap_or_empty (fmlookup (ep_map p) k))"

lemma fmadd_fmupd: "a ++\<^sub>f fmupd k v b = fmupd k v (a ++\<^sub>f b)"
  by (rule fmap_ext) simp

lemma laid_over_simps:
  "laid_over (ep_set p k f v) k' below = (if k' = k then fmupd f v (laid_over p k below) else laid_over p k' below)"
  "laid_over (ep_remove_edge p k) k' below = (if k' = k then fmempty else laid_over p k' below)"
  "laid_over (ep_replace p k m) k' below = (if k' = k then m else laid_over p k' below)"
  "laid_over (ep_restore_entry p k (ep_entry q k)) k' below = (if k' = k then laid_over q k below else laid_over p k' below)"
  by (auto simp: laid_over_def ep_set_def ep_remove_edge_def ep_replace_def ep_restore_entry_def ep_entry_def unwrap_or_empty_def
      entry_or_def fmadd_fmupd split: option.split)

lemma ep_props_laid:
  "(if ep_is_tombstoned p k then unwrap_or_empty (ep_props_of p k)
    else case ep_props_of p k of None \<Rightarrow> below | Some own \<Rightarrow> below ++\<^sub>f own) = laid_over p k below"
  by (auto simp: laid_over_def ep_is_tombstoned_def ep_props_of_def unwrap_or_empty_def split: option.split)

definition base_props :: "(bytes \<Rightarrow> props option) \<Rightarrow> edge_props_view \<Rightarrow> edge_key \<Rightarrow> props" where
  "base_props de w k = unwrap_or_empty (case ev_base w of None \<Rightarrow> None
     | Some entries \<Rightarrow> (case search_by_key epe_key entries k of None \<Rightarrow> None | Some e \<Rightarrow> de (epe_blob e)))"

lemma base_props_upd [simp]: "base_props de (w \<lparr> ev_overlay := p \<rparr>) k = base_props de w k"
  "base_props de (w \<lparr> ev_layer := l \<rparr>) k = base_props de w k"
  by (simp_all add: base_props_def)

lemma laid_over_new [simp]: "laid_over ep_new k below = below"
  by (simp add: laid_over_def ep_new_def unwrap_or_empty_def)

lemma ev_props_laid:
  "ev_props_of de w k = (case ev_layer w of None \<Rightarrow> laid_over (ev_overlay w) k (base_props de w k)
     | Some tx \<Rightarrow> laid_over tx k (laid_over (ev_overlay w) k (base_props de w k)))"
proof -
  have b: "below_props_of de w k = laid_over (ev_overlay w) k (base_props de w k)"
    unfolding below_props_of_def Let_def base_props_def [symmetric] by (rule ep_props_laid)
  show ?thesis unfolding ev_props_of_def b using ep_props_laid by (simp split: option.split)
qed

lemma below_get_lookup: "below_get de w k f = fmlookup (below_props_of de w k) f"
  by (auto simp: below_get_def below_props_of_def ep_get_def ep_is_tombstoned_def ep_props_of_def unwrap_or_empty_def Let_def split: option.split)

lemma ev_get_lookup: "ev_get de w k f = fmlookup (ev_props_of de w k) f"
  by (auto simp: ev_get_def ev_props_of_def below_get_lookup ep_get_def ep_is_tombstoned_def ep_props_of_def unwrap_or_empty_def split: option.split)

text \<open>
  C30: the two ways to read an edge's properties agree for every field, in any state of the archive,
  the overlay and the layer. A write to the overlay is read back through the view, over whatever the
  archive holds: setting a field changes that field alone, removing the edge leaves nothing, a
  replacement is the whole of the edge's properties, copying an entry from another overlay shows
  what that overlay would show, and no write shows on another edge.
\<close>

theorem edge_props_view_reads_writes:
  "ev_get de w k f = fmlookup (ev_props_of de w k) f
   \<and> (let read = (\<lambda>p k. ev_props_of de (w \<lparr> ev_overlay := p, ev_layer := None \<rparr>) k); p = ev_overlay w
      in read (ep_set p k f v) k' = (if k' = k then fmupd f v (read p k) else read p k')
       \<and> read (ep_remove_edge p k) k' = (if k' = k then fmempty else read p k')
       \<and> read (ep_replace p k props) k' = (if k' = k then props else read p k')
       \<and> read (ep_restore_entry p k (ep_entry q k)) k' = (if k' = k then read q k else read p k'))"
  by (auto simp: ev_get_lookup ev_props_laid laid_over_simps Let_def)

text \<open>
  the same holds one layer up: a write to the layer of a transaction or a reader is read back
  over everything below it, which it leaves as it was, and dropping the layer undoes it.
\<close>

theorem edge_props_layer_reads_writes:
  "(let read = (\<lambda>tx k. ev_props_of de (ev_with_layer w tx) k); below = (\<lambda>k. ev_props_of de (w \<lparr> ev_layer := None \<rparr>) k)
    in read ep_new k = below k
     \<and> read (ep_set tx k f v) k' = (if k' = k then fmupd f v (read tx k) else read tx k')
     \<and> read (ep_remove_edge tx k) k' = (if k' = k then fmempty else read tx k')
     \<and> read (ep_replace tx k props) k' = (if k' = k then props else read tx k')
     \<and> below k = ev_props_of de (ev_with_layer w tx \<lparr> ev_layer := None \<rparr>) k)"
  by (auto simp: ev_props_laid laid_over_simps ev_with_layer_def Let_def)

section \<open>The journal\<close>

datatype ep_op = EpSet edge_key string val | EpRemove edge_key | EpReplace edge_key props | EpRestore edge_key "props option \<times> bool"

fun ep_step :: "edge_props \<Rightarrow> ep_op \<Rightarrow> edge_props" where
  "ep_step p (EpSet k f v) = ep_set p k f v"
| "ep_step p (EpRemove k) = ep_remove_edge p k"
| "ep_step p (EpReplace k m) = ep_replace p k m"
| "ep_step p (EpRestore k e) = ep_restore_entry p k e"

fun ep_writes :: "ep_op \<Rightarrow> edge_key option" where
  "ep_writes (EpSet k _ _) = Some k"
| "ep_writes (EpRemove k) = Some k"
| "ep_writes (EpReplace k _) = Some k"
| "ep_writes (EpRestore _ _) = None"

lemma ep_touched_step: "fset (ep_touched (ep_step p op)) = fset (ep_touched p) \<union> set_option (ep_writes op)"
  by (cases op) (auto simp: ep_set_def ep_remove_edge_def ep_replace_def ep_restore_entry_def)

lemma ep_touched_run: "fset (ep_touched (foldl ep_step p ops)) = fset (ep_touched p) \<union> \<Union> (set_option ` ep_writes ` set ops)"
  by (induction ops arbitrary: p) (auto simp: ep_touched_step)

text \<open>
  taking the journal gives exactly the edges written since it was last taken, in any sequence of
  writes; copying an entry is not journalled. An overlay no write has reached is clean, and the
  listings of entries and tombstones are in order.
\<close>

theorem edge_props_journal:
  "fset (fst (ep_take_touched (foldl ep_step (snd (ep_take_touched p)) ops))) = {k. \<exists>op\<in>set ops. ep_writes op = Some k}
   \<and> (ep_has_touched (foldl ep_step (snd (ep_take_touched p)) ops) \<longleftrightarrow> (\<exists>op\<in>set ops. ep_writes op \<noteq> None))
   \<and> ep_is_clean ep_new
   \<and> strict (map fst (ep_sorted_entries p)) \<and> map_of (ep_sorted_entries p) = fmlookup (ep_map p)
   \<and> strict (ep_tombstoned_keys p) \<and> set (ep_tombstoned_keys p) = {k. ep_is_tombstoned p k}"
proof -
  let ?p = "snd (ep_take_touched p)"
  have t: "fset (ep_touched (foldl ep_step ?p ops)) = {k. \<exists>op\<in>set ops. ep_writes op = Some k}"
    unfolding ep_touched_run by (auto simp: ep_take_touched_def)
  have "ep_touched (foldl ep_step ?p ops) = {||} \<longleftrightarrow> fset (ep_touched (foldl ep_step ?p ops)) = {}"
    unfolding fset_inject [symmetric] by simp
  then have "ep_touched (foldl ep_step ?p ops) = {||} \<longleftrightarrow> {k. \<exists>op\<in>set ops. ep_writes op = Some k} = {}" unfolding t .
  then have h: "ep_has_touched (foldl ep_step ?p ops) \<longleftrightarrow> (\<exists>op\<in>set ops. ep_writes op \<noteq> None)" by (auto simp: ep_has_touched_def)
  have keys: "map fst (ep_sorted_entries p) = sorted_list_of_fset (fmdom (ep_map p))" by (simp add: ep_sorted_entries_def o_def)
  have look: "map_of (ep_sorted_entries p) = fmlookup (ep_map p)"
  proof
    fix k
    show "map_of (ep_sorted_entries p) k = fmlookup (ep_map p) k"
    proof (cases "k |\<in>| fmdom (ep_map p)")
      case True
      then show ?thesis by (auto simp: ep_sorted_entries_def map_of_map_restrict sorted_list_of_fset.rep_eq elim!: fmdomE)
    next
      case False
      then show ?thesis by (simp add: ep_sorted_entries_def map_of_map_restrict sorted_list_of_fset.rep_eq fmdom_notD)
    qed
  qed
  show ?thesis
  proof (intro conjI)
    show "fset (fst (ep_take_touched (foldl ep_step ?p ops))) = {k. \<exists>op\<in>set ops. ep_writes op = Some k}"
      unfolding ep_take_touched_def [of "foldl ep_step ?p ops"] fst_conv by (rule t)
    show "ep_has_touched (foldl ep_step ?p ops) \<longleftrightarrow> (\<exists>op\<in>set ops. ep_writes op \<noteq> None)" by (rule h)
    show "strict (map fst (ep_sorted_entries p))" by (simp add: keys sorted_list_of_fset.rep_eq)
    show "map_of (ep_sorted_entries p) = fmlookup (ep_map p)" by (rule look)
  qed (simp_all add: ep_is_clean_def ep_new_def ep_tombstoned_keys_def ep_is_tombstoned_def sorted_list_of_fset.rep_eq)
qed

end
