(* ===== verification/Graph_View.thy ===== *)
theory Graph_View
  imports Id_Map Interner Columns_View Visible_Set Edge_Props
begin

text \<open>
  What a query reads (\<open>crates/core-query/src/view.rs\<close>): the key table, the symbols, the labels, the properties and the edges of a store, with a
  visibility mask and a layer of node changes laid over the names. The property indexes of a view are not modelled. A symbol or id that the source
  computes as a sum of \<open>u32\<close> wraps, as in a release build.
\<close>

section \<open>The layer of node changes\<close>

record node_layer =
  nl_id_floor :: u32
  nl_keys :: "string list"
  nl_labels :: "u32 list"
  nl_by_key :: "(string \<times> u32) list"
  nl_deleted :: "u32 fset"
  nl_relabeled :: "(u32 \<times> u32) list"
  nl_renamed :: "(u32 \<times> string) list"
  nl_sym_floor :: u32
  nl_syms :: "string list"
  nl_by_sym :: "(string \<times> u32) list"

definition nl_new :: "id_map \<Rightarrow> interner \<Rightarrow> node_layer" where
  "nl_new ids syms = \<lparr> nl_id_floor = of_nat (im_len ids), nl_keys = [], nl_labels = [], nl_by_key = [], nl_deleted = {||}, nl_relabeled = [],
     nl_renamed = [], nl_sym_floor = of_nat (in_len syms), nl_syms = [], nl_by_sym = [] \<rparr>"

definition nl_intern :: "node_layer \<Rightarrow> interner \<Rightarrow> string \<Rightarrow> u32 \<times> node_layer" where
  "nl_intern l below name =
     (case in_get below name of
        Some symb \<Rightarrow> (symb, l)
      | None \<Rightarrow>
          (case map_of (nl_by_sym l) name of
             Some symb \<Rightarrow> (symb, l)
           | None \<Rightarrow>
               let symb = nl_sym_floor l + of_nat (length (nl_syms l))
               in (symb, l \<lparr> nl_syms := nl_syms l @ [name], nl_by_sym := AList.update name symb (nl_by_sym l) \<rparr>)))"

definition nl_insert :: "node_layer \<Rightarrow> string \<Rightarrow> u32 \<Rightarrow> u32 \<times> node_layer" where
  "nl_insert l key label_sym =
     (let i = nl_id_floor l + of_nat (length (nl_keys l))
      in (i, l \<lparr> nl_keys := nl_keys l @ [key], nl_labels := nl_labels l @ [label_sym], nl_by_key := AList.update key i (nl_by_key l) \<rparr>))"

definition checked_sub :: "u32 \<Rightarrow> u32 \<Rightarrow> u32 option" where
  "checked_sub a b = (if b \<le> a then Some (a - b) else None)"

text \<open>An index outside a vector is a panic.\<close>

definition nl_relabel :: "node_layer \<Rightarrow> u32 \<Rightarrow> u32 \<Rightarrow> node_layer option" where
  "nl_relabel l i label_sym =
     (case checked_sub i (nl_id_floor l) of
        Some k \<Rightarrow> if unat k < length (nl_labels l) then Some (l \<lparr> nl_labels := (nl_labels l)[unat k := label_sym] \<rparr>) else None
      | None \<Rightarrow> Some (l \<lparr> nl_relabeled := AList.update i label_sym (nl_relabeled l) \<rparr>))"

definition drop_own :: "node_layer \<Rightarrow> string \<Rightarrow> u32 \<Rightarrow> node_layer" where
  "drop_own l key i = (if map_of (nl_by_key l) key = Some i then l \<lparr> nl_by_key := AList.delete key (nl_by_key l) \<rparr> else l)"

definition nl_rename :: "node_layer \<Rightarrow> u32 \<Rightarrow> string \<Rightarrow> string \<Rightarrow> node_layer option" where
  "nl_rename l i old new = do {
     l \<leftarrow> Some (drop_own l old i);
     l \<leftarrow> (case checked_sub i (nl_id_floor l) of
        Some k \<Rightarrow> if unat k < length (nl_keys l) then Some (l \<lparr> nl_keys := (nl_keys l)[unat k := new] \<rparr>) else None
      | None \<Rightarrow> Some (l \<lparr> nl_renamed := AList.update i new (nl_renamed l) \<rparr>));
     Some (l \<lparr> nl_by_key := AList.update new i (nl_by_key l) \<rparr>) }"

definition nl_delete :: "node_layer \<Rightarrow> string \<Rightarrow> u32 \<Rightarrow> node_layer" where
  "nl_delete l key i = (let l = drop_own l key i in l \<lparr> nl_deleted := finsert i (nl_deleted l) \<rparr>)"

definition nl_is_deleted :: "node_layer \<Rightarrow> u32 \<Rightarrow> bool" where
  "nl_is_deleted l i \<longleftrightarrow> nl_deleted l \<noteq> {||} \<and> i |\<in>| nl_deleted l"

definition U32_MAX :: u32 where "U32_MAX = - 1"

definition below_label :: "node_layer \<Rightarrow> u32 \<Rightarrow> u32 \<Rightarrow> u32" where
  "below_label l i below =
     (if nl_is_deleted l i then U32_MAX
      else if nl_relabeled l = [] then below
      else case map_of (nl_relabeled l) i of Some s \<Rightarrow> s | None \<Rightarrow> below)"

section \<open>The view\<close>

record graph_view =
  gv_ids :: id_map
  gv_syms :: interner
  gv_labels :: "u32 list"
  gv_props :: columns_view
  gv_topo :: topology_view
  gv_edge_props :: edge_props_view
  gv_mask :: "visible_set option"
  gv_layer :: "node_layer option"

definition gv_visible :: "graph_view \<Rightarrow> u32 \<Rightarrow> bool" where
  "gv_visible v i = (case gv_mask v of None \<Rightarrow> True | Some m \<Rightarrow> vs_contains m i)"

definition gv_node_id :: "hash_fn \<Rightarrow> graph_view \<Rightarrow> string \<Rightarrow> u32 option" where
  "gv_node_id hash v key =
     (case gv_layer v of
        None \<Rightarrow> im_get hash (gv_ids v) key
      | Some l \<Rightarrow>
          (case map_of (nl_by_key l) key of
             Some i \<Rightarrow> Some i
           | None \<Rightarrow> (case im_get hash (gv_ids v) key of
                Some i \<Rightarrow> if \<not> nl_is_deleted l i \<and> map_of (nl_renamed l) i = None then Some i else None
              | None \<Rightarrow> None)))"

definition gv_try_key_of :: "graph_view \<Rightarrow> u32 \<Rightarrow> string option option" where
  "gv_try_key_of v i =
     (case gv_layer v of
        None \<Rightarrow> im_key_of (gv_ids v) i
      | Some l \<Rightarrow>
          if nl_is_deleted l i then Some None
          else case checked_sub i (nl_id_floor l) of
            Some k \<Rightarrow> Some (nth_opt (nl_keys l) (unat k))
          | None \<Rightarrow> (case map_of (nl_renamed l) i of Some key \<Rightarrow> Some (Some key) | None \<Rightarrow> im_key_of (gv_ids v) i))"

text \<open>\<open>key_of\<close> panics on an id without a key.\<close>

definition gv_key_of :: "graph_view \<Rightarrow> u32 \<Rightarrow> string option" where
  "gv_key_of v i = gv_try_key_of v i \<bind> (\<lambda>key. key)"

definition gv_id_bound :: "graph_view \<Rightarrow> u32" where
  "gv_id_bound v = (case gv_layer v of None \<Rightarrow> of_nat (im_len (gv_ids v)) | Some l \<Rightarrow> nl_id_floor l + of_nat (length (nl_keys l)))"

definition gv_sym :: "graph_view \<Rightarrow> string \<Rightarrow> u32 option" where
  "gv_sym v name =
     (case in_get (gv_syms v) name of
        Some symb \<Rightarrow> Some symb
      | None \<Rightarrow> gv_layer v \<bind> (\<lambda>l. map_of (nl_by_sym l) name))"

definition gv_sym_name :: "graph_view \<Rightarrow> u32 \<Rightarrow> string option" where
  "gv_sym_name v symb =
     (case gv_layer v \<bind> (\<lambda>l. map_option (\<lambda>i. (l, i)) (checked_sub symb (nl_sym_floor l))) of
        Some (l, i) \<Rightarrow> nth_opt (nl_syms l) (unat i)
      | None \<Rightarrow> in_resolve (gv_syms v) symb)"

text \<open>The iterator over the labels of all slots.\<close>

record label_syms =
  ls_below :: "u32 list"
  ls_layer :: "node_layer option"
  ls_at :: nat

definition ls_next :: "label_syms \<Rightarrow> u32 option \<times> label_syms" where
  "ls_next s =
     (let i = ls_at s; s = s \<lparr> ls_at := i + 1 \<rparr> in
      case ls_below s of
        symb # rest \<Rightarrow> (Some (case ls_layer s of None \<Rightarrow> symb | Some l \<Rightarrow> below_label l (of_nat i) symb), s \<lparr> ls_below := rest \<rparr>)
      | [] \<Rightarrow>
          (case ls_layer s of
             None \<Rightarrow> (None, s)
           | Some l \<Rightarrow>
               let floor = unat (nl_id_floor l) in
               if i < floor then (Some U32_MAX, s)
               else (case nth_opt (nl_labels l) (i - floor) of
                  None \<Rightarrow> (None, s)
                | Some symb \<Rightarrow> (Some (if nl_is_deleted l (of_nat i) then U32_MAX else symb), s))))"

text \<open>Running the iterator to its end: what is left is the slots below, then those up to the layer's last.\<close>

definition ls_left :: "label_syms \<Rightarrow> nat" where
  "ls_left s = length (ls_below s) + (case ls_layer s of None \<Rightarrow> 0 | Some l \<Rightarrow> unat (nl_id_floor l) + length (nl_labels l) - ls_at s)"

lemma ls_next_left: "ls_next s = (Some x, s') \<Longrightarrow> ls_left s' < ls_left s"
  by (auto simp: ls_next_def ls_left_def Let_def nth_opt_def split: list.splits option.splits if_splits)

function ls_collect :: "label_syms \<Rightarrow> u32 list" where
  "ls_collect s = (case ls_next s of (None, _) \<Rightarrow> [] | (Some x, s') \<Rightarrow> x # ls_collect s')"
  by pat_completeness auto
termination by (relation "measure ls_left") (auto dest: ls_next_left [OF sym])

declare ls_collect.simps [simp del]

definition gv_label_syms :: "graph_view \<Rightarrow> label_syms" where
  "gv_label_syms v = \<lparr> ls_below = gv_labels v, ls_layer = gv_layer v, ls_at = 0 \<rparr>"

definition gv_label_sym :: "graph_view \<Rightarrow> u32 \<Rightarrow> u32 option" where
  "gv_label_sym v i = do {
     symb \<leftarrow> (case gv_layer v of
        None \<Rightarrow> nth_opt (gv_labels v) (unat i)
      | Some l \<Rightarrow>
          (case checked_sub i (nl_id_floor l) of
             Some k \<Rightarrow> if \<not> nl_is_deleted l i then nth_opt (nl_labels l) (unat k) else None
           | None \<Rightarrow> map_option (below_label l i) (nth_opt (gv_labels v) (unat i))));
     if symb \<noteq> U32_MAX then Some symb else None }"

definition gv_label_of :: "graph_view \<Rightarrow> u32 \<Rightarrow> string option" where
  "gv_label_of v i = gv_label_sym v i \<bind> gv_sym_name v"

text \<open>\<open>enumerate().filter_map(..)\<close> over the labels of the slots.\<close>

definition slots_where :: "graph_view \<Rightarrow> (u32 \<Rightarrow> u32 \<Rightarrow> bool) \<Rightarrow> u32 list" where
  "slots_where v p =
     (let labels = (case gv_layer v of None \<Rightarrow> gv_labels v | Some _ \<Rightarrow> ls_collect (gv_label_syms v))
      in map (\<lambda>(i, _). of_nat i) (filter (\<lambda>(i, s). p (of_nat i) s) (enumerate 0 labels)))"

definition gv_nodes_with_label :: "graph_view \<Rightarrow> string \<Rightarrow> u32 list" where
  "gv_nodes_with_label v label = (case gv_sym v label of None \<Rightarrow> [] | Some symb \<Rightarrow> slots_where v (\<lambda>_ s. s = symb))"

definition gv_nodes_all :: "graph_view \<Rightarrow> u32 list" where
  "gv_nodes_all v = slots_where v (\<lambda>i s. s \<noteq> U32_MAX \<and> gv_visible v i)"

definition gv_prop :: "column_decoder \<Rightarrow> graph_view \<Rightarrow> mixed_cache option \<Rightarrow> u32 \<Rightarrow> string \<Rightarrow> (val option \<times> mixed_cache option) option" where
  "gv_prop de v cache i field = cw_get de (gv_props v) cache i field"

section \<open>The names of a layer\<close>

lemma of_nat_unat_eq: "of_nat (unat x) = x" for x :: u32
  by simp

text \<open>The table that a layer shows over a table of the slots \<open>slots0\<close> and the retired ids \<open>dead0\<close>.\<close>

definition nl_names :: "string list \<Rightarrow> u32 set \<Rightarrow> node_layer \<Rightarrow> string list \<Rightarrow> u32 set \<Rightarrow> (string \<rightharpoonup> u32) \<Rightarrow> bool" where
  "nl_names slots0 dead0 l slots dead K \<longleftrightarrow>
     unat (nl_id_floor l) = length slots0 \<and> length slots = length slots0 + length (nl_keys l) \<and> length slots < 2 ^ 32 \<and>
     (\<forall>i. unat i < length slots \<longrightarrow> slots ! unat i = (if unat i < length slots0
        then case map_of (nl_renamed l) i of Some key \<Rightarrow> key | None \<Rightarrow> slots0 ! unat i else nl_keys l ! (unat i - length slots0))) \<and>
     dead = dead0 \<union> fset (nl_deleted l) \<and> (\<forall>i\<in>dead. unat i < length slots) \<and> live_keys slots dead K \<and>
     (\<forall>i\<in>dead0. map_of (nl_renamed l) i = None) \<and> (\<forall>key i. map_of (nl_by_key l) key = Some i \<longleftrightarrow> K key = Some i \<and> (length slots0 \<le> unat i \<or> map_of (nl_renamed l) i \<noteq> None))"

lemma nl_namesD:
  assumes "nl_names slots0 dead0 l slots dead K"
  shows "unat (nl_id_floor l) = length slots0" "length slots = length slots0 + length (nl_keys l)" "length slots < 2 ^ 32"
    "unat i < length slots \<Longrightarrow> slots ! unat i = (if unat i < length slots0
        then case map_of (nl_renamed l) i of Some key \<Rightarrow> key | None \<Rightarrow> slots0 ! unat i else nl_keys l ! (unat i - length slots0))"
    "dead = dead0 \<union> fset (nl_deleted l)" "i \<in> dead \<Longrightarrow> unat i < length slots" "live_keys slots dead K"
    "map_of (nl_by_key l) key = Some i \<longleftrightarrow> K key = Some i \<and> (length slots0 \<le> unat i \<or> map_of (nl_renamed l) i \<noteq> None)"
    "K key = Some i \<longleftrightarrow> unat i < length slots \<and> slots ! unat i = key \<and> i \<notin> dead" "i \<in> dead0 \<Longrightarrow> map_of (nl_renamed l) i = None"
  using assms unfolding nl_names_def live_keys_def by blast+

lemma nl_is_deleted_iff [simp]: "nl_is_deleted l i \<longleftrightarrow> i \<in> fset (nl_deleted l)"
  by (auto simp: nl_is_deleted_def)

lemma checked_sub_iff: "checked_sub a b = (if unat b \<le> unat a then Some (a - b) else None)" "unat b \<le> unat a \<Longrightarrow> unat (a - b) = unat a - unat b"
  by (simp_all add: checked_sub_def word_le_nat_alt unat_sub)

lemma nl_new_names:
  assumes "im_rel hash m slots dead K" "length slots < 2 ^ 32"
  shows "nl_names slots dead (nl_new m syms) slots dead K"
  using im_relD [OF assms(1)] assms cv_len_iter [of "im_to_key m"] unat_of_len [of "length slots"]
  by (auto simp: nl_names_def nl_new_def im_len_def im_rel_def)

lemma gv_node_id_correct:
  assumes "gv_layer v = Some l" "im_rel hash (gv_ids v) slots0 dead0 K0" "nl_names slots0 dead0 l slots dead K"
  shows "gv_node_id hash v key = K key"
proof (cases "map_of (nl_by_key l) key")
  case (Some i)
  then show ?thesis using assms nl_namesD(8) [OF assms(3), of key i] by (simp add: gv_node_id_def)
next
  case None
  note D = nl_namesD [OF assms(3)] and M = im_relD(8) [OF assms(2)]
  have own: "\<not> (K key = Some i \<and> (length slots0 \<le> unat i \<or> map_of (nl_renamed l) i \<noteq> None))" for i using D(8) [of key i] None by auto
  have "K key = Some i \<longleftrightarrow> K0 key = Some i \<and> i |\<notin>| nl_deleted l \<and> map_of (nl_renamed l) i = None" for i
    using own [of i] D(2) D(4) [of i] D(5) D(9) [of key i] M [of key i] by auto
  then have "gv_node_id hash v key = Some i \<longleftrightarrow> K key = Some i" for i
    using assms(1) None im_get_correct [OF assms(2), of key] by (auto simp: gv_node_id_def split: option.split)
  then show ?thesis by (metis not_None_eq)
qed

lemma gv_try_key_of_correct:
  assumes "gv_layer v = Some l" "im_rel hash (gv_ids v) slots0 dead0 K0" "nl_names slots0 dead0 l slots dead K"
  shows "gv_try_key_of v i = Some (if i \<in> dead then None else nth_opt slots (unat i))"
proof -
  note D = nl_namesD [OF assms(3)]
  show ?thesis
    using assms(1) D(1,2) D(4) [of i] D(5) D(6) [of i] D(10) [of i] im_relD(6) [OF assms(2), of i] im_key_of_correct [OF assms(2), of i]
    by (auto simp: gv_try_key_of_def checked_sub_iff nth_opt_def split: option.split)
qed

lemma floor_plus: "nl_names slots0 dead0 l slots dead K \<Longrightarrow> nl_id_floor l + of_nat (length (nl_keys l)) = of_nat (length slots)"
  using nl_namesD(1,2) [of slots0 dead0 l slots dead K] by (metis of_nat_add of_nat_unat_eq)

lemma gv_id_bound_correct:
  assumes "gv_layer v = Some l" "nl_names slots0 dead0 l slots dead K"
  shows "gv_id_bound v = of_nat (length slots)"
  using assms(1) floor_plus [OF assms(2)] by (simp add: gv_id_bound_def)

lemma nl_insert_correct:
  assumes "nl_names slots0 dead0 l slots dead K" "K key = None" "Suc (length slots) < 2 ^ 32"
  shows "fst (nl_insert l key lab) = of_nat (length slots)"
    "nl_names slots0 dead0 (snd (nl_insert l key lab)) (slots @ [key]) dead (K(key \<mapsto> of_nat (length slots)))"
proof -
  note D = nl_namesD [OF assms(1)]
  let ?n = "of_nat (length slots) :: u32"
  note n = floor_plus [OF assms(1)]
  have u: "unat ?n = length slots" using assms(3) by (intro unat_of_len) simp
  show "fst (nl_insert l key lab) = ?n" by (simp add: nl_insert_def Let_def n)
  have live: "live_keys (slots @ [key]) dead (K(key \<mapsto> ?n))" by (rule live_keys_push) (use D(6,7) assms in auto)
  have slot: "(slots @ [key]) ! unat i = (if unat i < length slots0
        then case map_of (nl_renamed l) i of Some key \<Rightarrow> key | None \<Rightarrow> slots0 ! unat i else (nl_keys l @ [key]) ! (unat i - length slots0))"
    if "unat i < Suc (length slots)" for i
    using that D(2) D(4) [of i] by (auto simp: nth_append less_Suc_eq)
  have keyed: "((map_of (nl_by_key l))(key \<mapsto> ?n)) k = Some i \<longleftrightarrow>
      (K(key \<mapsto> ?n)) k = Some i \<and> (length slots0 \<le> unat i \<or> map_of (nl_renamed l) i \<noteq> None)" for k i
    using D(2) D(8) [of k i] u assms(2) by auto
  show "nl_names slots0 dead0 (snd (nl_insert l key lab)) (slots @ [key]) dead (K(key \<mapsto> ?n))"
    unfolding nl_names_def
    using D(1,2,5) live slot keyed assms(3) D(6,10) by (auto simp: nl_insert_def Let_def n update_conv' less_SucI)
qed

lemma drop_own_by_key: "map_of (nl_by_key (drop_own l key i)) = (if map_of (nl_by_key l) key = Some i then (map_of (nl_by_key l))(key := None) else map_of (nl_by_key l))"
  by (auto simp: drop_own_def delete_conv')

lemma drop_own_same [simp]:
  "nl_id_floor (drop_own l key i) = nl_id_floor l" "nl_keys (drop_own l key i) = nl_keys l" "nl_labels (drop_own l key i) = nl_labels l"
  "nl_deleted (drop_own l key i) = nl_deleted l" "nl_relabeled (drop_own l key i) = nl_relabeled l" "nl_renamed (drop_own l key i) = nl_renamed l"
  "nl_sym_floor (drop_own l key i) = nl_sym_floor l" "nl_syms (drop_own l key i) = nl_syms l" "nl_by_sym (drop_own l key i) = nl_by_sym l"
  by (simp_all add: drop_own_def)

lemma nl_delete_correct:
  assumes "nl_names slots0 dead0 l slots dead K" "K key = Some i"
  shows "nl_names slots0 dead0 (nl_delete l key i) slots (insert i dead) (K(key := None))"
proof -
  note D = nl_namesD [OF assms(1)]
  have keyed: "map_of (nl_by_key (drop_own l key i)) k = Some j \<longleftrightarrow>
      (K(key := None)) k = Some j \<and> (length slots0 \<le> unat j \<or> map_of (nl_renamed l) j \<noteq> None)" for k j
    using D(8) [of k j] D(8) [of key i] assms(2) by (auto simp: drop_own_by_key)
  show ?thesis
    unfolding nl_names_def using D(1-4,5) D(6,10) keyed D(9) [of key i] assms(2) live_keys_delete [OF D(7) assms(2)] by (auto simp: nl_delete_def Let_def)
qed

lemma nl_rename_correct:
  assumes "nl_names slots0 dead0 l slots dead K" "K old = Some i" "K new = None"
  shows "\<exists>l'. nl_rename l i old new = Some l' \<and> nl_names slots0 dead0 l' (slots[unat i := new]) dead (K(old := None, new \<mapsto> i))"
proof -
  note D = nl_namesD [OF assms(1)]
  have i: "unat i < length slots" "slots ! unat i = old" "i \<notin> dead" using D(9) [of old i] assms(2) by auto
  have eq: "unat j = unat i \<longleftrightarrow> j = i" for j by (simp add: word_unat_eq_iff)
  have live: "live_keys (slots[unat i := new]) dead (K(old := None, new \<mapsto> i))" by (rule live_keys_rename [OF D(7) assms(2,3)])
  have drop: "map_of (nl_by_key (drop_own l old i)) k = Some j \<longleftrightarrow>
      (K(old := None)) k = Some j \<and> (length slots0 \<le> unat j \<or> map_of (nl_renamed l) j \<noteq> None)" for k j
    using D(8) [of k j] D(8) [of old i] assms(2) by (auto simp: drop_own_by_key)
  have only: "(K(old := None)) k \<noteq> Some i" for k using D(9) [of k i] i by auto
  show ?thesis
  proof (cases "unat i < length slots0")
    case True
    let ?l = "drop_own l old i \<lparr> nl_renamed := AList.update i new (nl_renamed l), nl_by_key := AList.update new i (nl_by_key (drop_own l old i)) \<rparr>"
    have "nl_rename l i old new = Some ?l" using True D(1) by (simp add: nl_rename_def checked_sub_iff)
    moreover have slot: "slots[unat i := new] ! unat j = (if unat j < length slots0
        then case ((map_of (nl_renamed l))(i \<mapsto> new)) j of Some key \<Rightarrow> key | None \<Rightarrow> slots0 ! unat j else nl_keys l ! (unat j - length slots0))"
      if "unat j < length slots" for j
      using that D(4) [OF that] eq [of j] i True by (cases "j = i") simp_all
    have keyed: "((map_of (nl_by_key (drop_own l old i)))(new \<mapsto> i)) k = Some j \<longleftrightarrow> (K(old := None, new \<mapsto> i)) k = Some j \<and>
        (length slots0 \<le> unat j \<or> ((map_of (nl_renamed l))(i \<mapsto> new)) j \<noteq> None)" for k j
      using drop [of k j] only [of k] by (cases "j = i") (auto split: if_splits)
    have "nl_names slots0 dead0 ?l (slots[unat i := new]) dead (K(old := None, new \<mapsto> i))"
      unfolding nl_names_def using D(1-3,5) D(6,10) live i(3) slot keyed by (auto simp: update_conv')
    ultimately show ?thesis by blast
  next
    case False
    let ?k = "unat i - length slots0"
    let ?l = "drop_own l old i \<lparr> nl_keys := (nl_keys l)[?k := new], nl_by_key := AList.update new i (nl_by_key (drop_own l old i)) \<rparr>"
    have "nl_rename l i old new = Some ?l" using False D(1,2) i by (auto simp: nl_rename_def checked_sub_iff)
    moreover have slot: "slots[unat i := new] ! unat j = (if unat j < length slots0
        then case map_of (nl_renamed l) j of Some key \<Rightarrow> key | None \<Rightarrow> slots0 ! unat j else (nl_keys l)[?k := new] ! (unat j - length slots0))"
      if "unat j < length slots" for j
    proof (cases "j = i")
      case True
      then show ?thesis using False i D(2) by simp
    next
      case ne: False
      then have "unat j \<noteq> unat i" using eq by simp
      moreover from this have "\<not> unat j < length slots0 \<Longrightarrow> unat j - length slots0 \<noteq> ?k" using False by auto
      ultimately show ?thesis using D(4) [OF that] by auto
    qed
    have keyed: "((map_of (nl_by_key (drop_own l old i)))(new \<mapsto> i)) k = Some j \<longleftrightarrow> (K(old := None, new \<mapsto> i)) k = Some j \<and>
        (length slots0 \<le> unat j \<or> map_of (nl_renamed l) j \<noteq> None)" for k j
      using drop [of k j] False by auto
    have "nl_names slots0 dead0 ?l (slots[unat i := new]) dead (K(old := None, new \<mapsto> i))"
      unfolding nl_names_def using D(1-3,5) D(6,10) live slot keyed by (auto simp: update_conv')
    ultimately show ?thesis by blast
  qed
qed

section \<open>The symbols of a layer\<close>

definition nl_symbols :: "interner \<Rightarrow> node_layer \<Rightarrow> string list \<Rightarrow> bool" where
  "nl_symbols t l S \<longleftrightarrow> in_inv t \<and> unat (nl_sym_floor l) = in_len t \<and> S = in_to_str t @ nl_syms l \<and> length S < 2 ^ 32 \<and> distinct S \<and>
     (\<forall>s i. map_of (nl_by_sym l) s = Some i \<longleftrightarrow> in_len t \<le> unat i \<and> unat i < length S \<and> S ! unat i = s)"

lemma in_inv_distinct: "in_inv t \<Longrightarrow> distinct (in_to_str t)"
proof (unfold distinct_conv_nth, intro allI impI)
  fix i j assume t: "in_inv t" and ij: "i < length (in_to_str t)" "j < length (in_to_str t)" "i \<noteq> j"
  have u: "unat (of_nat k :: u32) = k" if "k < length (in_to_str t)" for k using that t by (intro unat_of_len) (simp add: in_inv_def)
  show "in_to_str t ! i \<noteq> in_to_str t ! j"
    using in_invD [OF t, of "in_to_str t ! i" "of_nat i"] in_invD [OF t, of "in_to_str t ! i" "of_nat j"] u ij by (metis option.inject)
qed

lemma nl_new_symbols: "in_inv t \<Longrightarrow> in_len t < 2 ^ 32 \<Longrightarrow> nl_symbols t (nl_new m t) (in_to_str t)"
  using unat_of_len [of "in_len t"] by (auto simp: nl_symbols_def nl_new_def in_len_def in_inv_distinct)

lemma layer_sym:
  assumes "nl_symbols t l S"
  shows "(case in_get t name of Some s \<Rightarrow> Some s | None \<Rightarrow> map_of (nl_by_sym l) name) = Some i \<longleftrightarrow> nth_opt S (unat i) = Some name"
proof -
  have D: "in_inv t" "S = in_to_str t @ nl_syms l" "distinct S"
    "\<And>s i. map_of (nl_by_sym l) s = Some i \<longleftrightarrow> in_len t \<le> unat i \<and> unat i < length S \<and> S ! unat i = s"
    using assms by (auto simp: nl_symbols_def)
  show ?thesis
  proof (cases "in_get t name")
    case None
    then have "\<not> (unat i < in_len t \<and> in_to_str t ! unat i = name)" using in_invD [OF D(1), of name i] by (simp add: in_len_def)
    then show ?thesis using None D(2,4) by (auto simp: nth_opt_def nth_append in_len_def)
  next
    case (Some j)
    then have j: "unat j < length (in_to_str t)" "in_to_str t ! unat j = name" using in_invD [OF D(1), of name j] by auto
    have "nth_opt S (unat i) = Some name \<longleftrightarrow> i = j"
    proof
      assume "nth_opt S (unat i) = Some name"
      then have "unat i < length S" "S ! unat i = S ! unat j" using j D(2) by (auto simp: nth_opt_def nth_append split: if_splits)
      then have "unat i = unat j" using D(2,3) j by (simp add: nth_eq_iff_index_eq)
      then show "i = j" by (simp add: word_unat_eq_iff)
    qed (use j D(2) in \<open>auto simp: nth_opt_def nth_append\<close>)
    then show ?thesis using Some by auto
  qed
qed

lemma gv_sym_correct:
  "gv_layer v = Some l \<Longrightarrow> nl_symbols (gv_syms v) l S \<Longrightarrow> gv_sym v name = Some i \<longleftrightarrow> nth_opt S (unat i) = Some name"
  using layer_sym [of "gv_syms v" l S name i] by (cases "in_get (gv_syms v) name") (simp_all add: gv_sym_def)

lemma gv_sym_name_correct:
  assumes "gv_layer v = Some l" "nl_symbols (gv_syms v) l S"
  shows "gv_sym_name v i = nth_opt S (unat i)"
  using assms by (auto simp: nl_symbols_def gv_sym_name_def checked_sub_iff in_resolve_def nth_opt_def nth_append in_len_def)

lemma nl_intern_correct:
  assumes "nl_symbols t l S" "Suc (length S) < 2 ^ 32" "S' = (if name \<in> set S then S else S @ [name])"
  shows "\<exists>i l'. nl_intern l t name = (i, l') \<and> nl_symbols t l' S' \<and> nth_opt S' (unat i) = Some name \<and>
    l' = l \<lparr> nl_syms := nl_syms l', nl_by_sym := nl_by_sym l' \<rparr>"
proof -
  let ?find = "case in_get t name of Some s \<Rightarrow> Some s | None \<Rightarrow> map_of (nl_by_sym l) name"
  show ?thesis
  proof (cases ?find)
    case (Some i)
    then have "nth_opt S (unat i) = Some name" using layer_sym [OF assms(1), of name i] by simp
    moreover from this have "name \<in> set S" by (auto simp: nth_opt_def split: if_splits)
    moreover have "nl_intern l t name = (i, l)" using Some by (auto simp: nl_intern_def split: option.splits)
    ultimately show ?thesis using assms(1,3) by simp
  next
    case None
    have D: "in_inv t" "unat (nl_sym_floor l) = in_len t" "S = in_to_str t @ nl_syms l" "distinct S"
      "\<And>s i. map_of (nl_by_sym l) s = Some i \<longleftrightarrow> in_len t \<le> unat i \<and> unat i < length S \<and> S ! unat i = s"
      using assms(1) by (auto simp: nl_symbols_def)
    have u: "unat (of_nat k :: u32) = k" if "k \<le> length S" for k using that assms(2) by (intro unat_of_len) simp
    have new: "name \<notin> set S"
    proof
      assume "name \<in> set S"
      then obtain k where "k < length S" "S ! k = name" by (auto simp: in_set_conv_nth)
      then show False using layer_sym [OF assms(1), of name "of_nat k"] None u [of k] by (simp add: nth_opt_def)
    qed
    let ?n = "of_nat (length S) :: u32"
    have n: "nl_sym_floor l + of_nat (length (nl_syms l)) = ?n" using D(2,3) by (metis of_nat_add of_nat_unat_eq in_len_def length_append)
    let ?l = "l \<lparr> nl_syms := nl_syms l @ [name], nl_by_sym := AList.update name ?n (nl_by_sym l) \<rparr>"
    have i: "nl_intern l t name = (?n, ?l)" using None n by (auto simp: nl_intern_def Let_def split: option.splits)
    have eq: "unat i = length S \<longleftrightarrow> i = ?n" for i using u [of "length S"] by (simp add: word_unat_eq_iff)
    have "((map_of (nl_by_sym l))(name \<mapsto> ?n)) s = Some i \<longleftrightarrow> in_len t \<le> unat i \<and> unat i < length (S @ [name]) \<and> (S @ [name]) ! unat i = s" for s i
      using D(3) D(5) [of s i] eq [of i] new by (auto simp: nth_append less_Suc_eq in_len_def dest: nth_mem)
    then have "nl_symbols t ?l (S @ [name])" using D(1-4) assms(2) new by (auto simp: nl_symbols_def update_conv')
    then show ?thesis using i new assms(3) u [of "length S"] by (auto simp: nth_opt_def)
  qed
qed

section \<open>The labels of a layer\<close>

definition layer_fits :: "graph_view \<Rightarrow> node_layer \<Rightarrow> bool" where
  "layer_fits v l \<longleftrightarrow> length (nl_labels l) = length (nl_keys l) \<and> length (gv_labels v) \<le> unat (nl_id_floor l) \<and>
     unat (nl_id_floor l) + length (nl_keys l) < 2 ^ 32"

definition as_label :: "u32 \<Rightarrow> u32 option" where
  "as_label s = (if s = U32_MAX then None else Some s)"

lemma gv_label_sym_layer:
  assumes "gv_layer v = Some l"
  shows "gv_label_sym v i = (if i \<in> fset (nl_deleted l) then None
    else if unat (nl_id_floor l) \<le> unat i then nth_opt (nl_labels l) (unat i - unat (nl_id_floor l)) \<bind> as_label
    else nth_opt (gv_labels v) (unat i) \<bind> (\<lambda>s. as_label (case map_of (nl_relabeled l) i of Some s \<Rightarrow> s | None \<Rightarrow> s)))"
  using assms by (auto simp: gv_label_sym_def checked_sub_iff below_label_def as_label_def nth_opt_def split: option.split)

lemma nl_insert_label:
  assumes "gv_layer v = Some l" "layer_fits v l" "unat (nl_id_floor l) + length (nl_keys l) = n" "n < 2 ^ 32" "\<And>i. i |\<in>| nl_deleted l \<Longrightarrow> unat i < n"
  shows "gv_label_sym (v \<lparr> gv_layer := Some (snd (nl_insert l key lab)) \<rparr>) = (gv_label_sym v)(of_nat n := as_label lab)"
proof
  fix i :: u32
  have u: "unat (of_nat n :: u32) = n" using assms(4) by (rule unat_of_len)
  have eq: "unat i = n \<longleftrightarrow> i = of_nat n" by (simp add: word_unat_eq_iff u)
  show "gv_label_sym (v \<lparr> gv_layer := Some (snd (nl_insert l key lab)) \<rparr>) i = ((gv_label_sym v)(of_nat n := as_label lab)) i"
    using assms(1-3) assms(5) [of i] eq u
    by (auto simp: gv_label_sym_layer [OF assms(1)] gv_label_sym_layer nl_insert_def Let_def layer_fits_def nth_opt_def nth_append)
qed

lemma nl_relabel_label:
  assumes "gv_layer v = Some l" "layer_fits v l" "i |\<notin>| nl_deleted l" "unat i < unat (nl_id_floor l) + length (nl_keys l)"
    "unat i < unat (nl_id_floor l) \<Longrightarrow> unat i < length (gv_labels v)"
  shows "\<exists>l'. nl_relabel l i lab = Some l' \<and> gv_label_sym (v \<lparr> gv_layer := Some l' \<rparr>) = (gv_label_sym v)(i := as_label lab) \<and>
    l' = l \<lparr> nl_labels := nl_labels l', nl_relabeled := nl_relabeled l' \<rparr> \<and> length (nl_labels l') = length (nl_labels l)"
proof (cases "unat (nl_id_floor l) \<le> unat i")
  case True
  let ?l = "l \<lparr> nl_labels := (nl_labels l)[unat i - unat (nl_id_floor l) := lab] \<rparr>"
  have "nl_relabel l i lab = Some ?l" using True assms(2,4) by (auto simp: nl_relabel_def checked_sub_iff layer_fits_def)
  moreover have eq: "unat j - unat (nl_id_floor l) = unat i - unat (nl_id_floor l) \<longleftrightarrow> j = i" if "unat (nl_id_floor l) \<le> unat j" for j
    using that True word_unat_eq_iff [of j i] by auto
  have "gv_label_sym (v \<lparr> gv_layer := Some ?l \<rparr>) j = ((gv_label_sym v)(i := as_label lab)) j" for j
    using True assms(2-4) eq [of j] gv_label_sym_layer [OF assms(1), of j] gv_label_sym_layer [of "v \<lparr> gv_layer := Some ?l \<rparr>" ?l j]
    by (auto simp: nth_opt_def layer_fits_def)
  then have "gv_label_sym (v \<lparr> gv_layer := Some ?l \<rparr>) = (gv_label_sym v)(i := as_label lab)" ..
  ultimately show ?thesis by (intro exI [of _ ?l]) simp
next
  case False
  let ?l = "l \<lparr> nl_relabeled := AList.update i lab (nl_relabeled l) \<rparr>"
  have "nl_relabel l i lab = Some ?l" using False by (simp add: nl_relabel_def checked_sub_iff)
  moreover have "gv_label_sym (v \<lparr> gv_layer := Some ?l \<rparr>) = (gv_label_sym v)(i := as_label lab)"
    using False assms(3,5) by (auto simp: fun_eq_iff gv_label_sym_layer [OF assms(1)] gv_label_sym_layer nth_opt_def update_conv')
  ultimately show ?thesis by (intro exI [of _ ?l]) simp
qed

lemma nl_delete_label:
  "gv_layer v = Some l \<Longrightarrow> gv_label_sym (v \<lparr> gv_layer := Some (nl_delete l key i) \<rparr>) = (gv_label_sym v)(i := None)"
  by (auto simp: fun_eq_iff gv_label_sym_layer nl_delete_def Let_def)

lemma nl_rename_label:
  "gv_layer v = Some l \<Longrightarrow> nl_rename l i old new = Some l' \<Longrightarrow> gv_label_sym (v \<lparr> gv_layer := Some l' \<rparr>) = gv_label_sym v"
  by (auto simp: fun_eq_iff gv_label_sym_layer nl_rename_def split: option.splits if_splits)

section \<open>Scans\<close>

text \<open>The symbol a scan meets at slot \<open>i\<close>.\<close>

definition slot_sym :: "graph_view \<Rightarrow> nat \<Rightarrow> u32" where
  "slot_sym v i = (case gv_label_sym v (of_nat i) of None \<Rightarrow> U32_MAX | Some s \<Rightarrow> s)"

lemma ls_collect_layer:
  assumes "gv_layer v = Some l" "layer_fits v l"
  shows "ls_collect (gv_label_syms v) = map (slot_sym v) [0..<unat (nl_id_floor l) + length (nl_keys l)]"
proof -
  let ?N = "unat (nl_id_floor l) + length (nl_keys l)"
  have fits: "length (nl_labels l) = length (nl_keys l)" "length (gv_labels v) \<le> unat (nl_id_floor l)" "?N < 2 ^ 32"
    using assms(2) by (auto simp: layer_fits_def)
  have u: "unat (of_nat k :: u32) = k" if "k < ?N" for k using that fits(3) by (intro unat_of_len) simp
  have "ls_collect \<lparr> ls_below = drop k (gv_labels v), ls_layer = Some l, ls_at = k \<rparr> = map (slot_sym v) [k..<?N]" if "k \<le> ?N" for k
    using that
  proof (induction "?N - k" arbitrary: k)
    case 0
    then show ?case using fits by (subst ls_collect.simps) (simp add: ls_next_def Let_def nth_opt_def)
  next
    case (Suc d)
    have k: "k < ?N" using Suc by simp
    have step: "ls_next \<lparr> ls_below = drop k (gv_labels v), ls_layer = Some l, ls_at = k \<rparr> =
        (Some (slot_sym v k), \<lparr> ls_below = drop (Suc k) (gv_labels v), ls_layer = Some l, ls_at = Suc k \<rparr>)"
    proof (cases "k < length (gv_labels v)")
      case True
      then show ?thesis using fits u [OF k]
        by (auto simp: ls_next_def Let_def Cons_nth_drop_Suc [symmetric] slot_sym_def gv_label_sym_layer [OF assms(1)] as_label_def nth_opt_def below_label_def split: option.split)
    next
      case False
      then show ?thesis using fits k u [OF k]
        by (auto simp: ls_next_def Let_def slot_sym_def gv_label_sym_layer [OF assms(1)] as_label_def nth_opt_def)
    qed
    have "ls_collect \<lparr> ls_below = drop (Suc k) (gv_labels v), ls_layer = Some l, ls_at = Suc k \<rparr> = map (slot_sym v) [Suc k..<?N]"
      using Suc by (intro Suc(1)) auto
    then show ?case using step k by (subst ls_collect.simps) (simp add: upt_conv_Cons)
  qed
  from this [of 0] show ?thesis using assms(1) by (simp add: gv_label_syms_def)
qed

definition slot_count :: "graph_view \<Rightarrow> nat" where
  "slot_count v = (case gv_layer v of None \<Rightarrow> length (gv_labels v) | Some l \<Rightarrow> unat (nl_id_floor l) + length (nl_keys l))"

definition view_fits :: "graph_view \<Rightarrow> bool" where
  "view_fits v = (case gv_layer v of None \<Rightarrow> length (gv_labels v) < 2 ^ 32 | Some l \<Rightarrow> layer_fits v l)"

lemma enumerate_upt: "enumerate 0 (map f [0..<n]) = map (\<lambda>i. (i, f i)) [0..<n]"
  by (induction n) (simp_all add: enumerate_append_eq)

lemma slots_where_eq:
  assumes "view_fits v"
  shows "slots_where v p = map of_nat (filter (\<lambda>i. p (of_nat i) (slot_sym v i)) [0..<slot_count v])"
proof -
  have "(case gv_layer v of None \<Rightarrow> gv_labels v | Some _ \<Rightarrow> ls_collect (gv_label_syms v)) = map (slot_sym v) [0..<slot_count v]"
  proof (cases "gv_layer v")
    case None
    then have "gv_labels v ! i = slot_sym v i" if "i < length (gv_labels v)" for i
      using that assms unat_of_len [of i] by (simp add: slot_sym_def gv_label_sym_def nth_opt_def view_fits_def)
    then show ?thesis using None by (intro nth_equalityI) (simp_all add: slot_count_def)
  next
    case (Some l)
    then show ?thesis using assms ls_collect_layer [of v l] by (simp add: view_fits_def slot_count_def)
  qed
  then show ?thesis by (simp add: slots_where_def enumerate_upt filter_map comp_def)
qed

lemma slot_count_small: "view_fits v \<Longrightarrow> slot_count v < 2 ^ 32"
  by (auto simp: view_fits_def slot_count_def layer_fits_def split: option.splits)

lemma labelled_slot: "view_fits v \<Longrightarrow> gv_label_sym v i = Some s \<Longrightarrow> unat i < slot_count v"
proof (cases "gv_layer v")
  case (Some l)
  then show "view_fits v \<Longrightarrow> gv_label_sym v i = Some s \<Longrightarrow> unat i < slot_count v"
    unfolding gv_label_sym_layer [OF Some] by (auto simp: view_fits_def slot_count_def layer_fits_def nth_opt_def split: if_splits bind_splits)
qed (auto simp: slot_count_def gv_label_sym_def nth_opt_def split: if_splits bind_splits)

lemma slots_where_set:
  assumes "view_fits v" "\<And>i. \<not> p i U32_MAX"
  shows "set (slots_where v p) = {i. \<exists>s. gv_label_sym v i = Some s \<and> p i s}" "strict (slots_where v p)"
proof -
  have u: "unat (of_nat k :: u32) = k" if "k < slot_count v" for k using that slot_count_small [OF assms(1)] by (intro unat_of_len) simp
  show "set (slots_where v p) = {i. \<exists>s. gv_label_sym v i = Some s \<and> p i s}"
  proof (intro equalityI subsetI)
    fix i assume "i \<in> set (slots_where v p)"
    then obtain k where "k < slot_count v" "i = of_nat k" "p i (slot_sym v k)" unfolding slots_where_eq [OF assms(1)] by auto
    then show "i \<in> {i. \<exists>s. gv_label_sym v i = Some s \<and> p i s}" using assms(2) by (auto simp: slot_sym_def split: option.splits)
  next
    fix i assume "i \<in> {i. \<exists>s. gv_label_sym v i = Some s \<and> p i s}"
    then obtain s where s: "gv_label_sym v i = Some s" "p i s" by auto
    then have "unat i < slot_count v" "slot_sym v (unat i) = s" using labelled_slot [OF assms(1)] by (simp_all add: slot_sym_def)
    then show "i \<in> set (slots_where v p)" unfolding slots_where_eq [OF assms(1)] using s by (auto intro!: image_eqI [of _ _ "unat i"])
  qed
  have "strict (map of_nat (filter q [0..<slot_count v]) :: u32 list)" for q
    unfolding sorted_wrt_map
    by (rule sorted_wrt_mono_rel [OF _ sorted_wrt_filter [OF sorted_wrt_upt]]) (auto simp: word_less_nat_alt u)
  then show "strict (slots_where v p)" unfolding slots_where_eq [OF assms(1)] .
qed

lemma gv_nodes_with_label_correct:
  assumes "view_fits v" "gv_sym v label \<noteq> Some U32_MAX"
  shows "set (gv_nodes_with_label v label) = {i. \<exists>s. gv_sym v label = Some s \<and> gv_label_sym v i = Some s}" "strict (gv_nodes_with_label v label)"
proof -
  have "set (gv_nodes_with_label v label) = {i. \<exists>s. gv_sym v label = Some s \<and> gv_label_sym v i = Some s} \<and> strict (gv_nodes_with_label v label)"
  proof (cases "gv_sym v label")
    case (Some symb)
    then show ?thesis using slots_where_set [OF assms(1), of "\<lambda>_ s. s = symb"] assms(2) by (auto simp: gv_nodes_with_label_def)
  qed (simp add: gv_nodes_with_label_def)
  then show "set (gv_nodes_with_label v label) = {i. \<exists>s. gv_sym v label = Some s \<and> gv_label_sym v i = Some s}" "strict (gv_nodes_with_label v label)"
    by simp_all
qed

lemma gv_nodes_all_correct:
  assumes "view_fits v"
  shows "set (gv_nodes_all v) = {i. gv_label_sym v i \<noteq> None \<and> gv_visible v i}" "strict (gv_nodes_all v)"
proof -
  have "gv_label_sym v i \<noteq> Some U32_MAX" for i by (auto simp: gv_label_sym_def split: bind_splits option.splits if_splits)
  then show "set (gv_nodes_all v) = {i. gv_label_sym v i \<noteq> None \<and> gv_visible v i}" "strict (gv_nodes_all v)"
    using slots_where_set [OF assms, of "\<lambda>i s. s \<noteq> U32_MAX \<and> gv_visible v i"] by (auto simp: gv_nodes_all_def)
qed

section \<open>Who names nodes\<close>

text \<open>
  A provider of node names gives ids to keys, renames and retires them. The key table of the writer is one, a layer over such a table as a reader
  sees it another; their states stand for the slots handed out, the retired ids and the live keys.
\<close>

datatype name_op = NewName string u32 | NewKey string string | DropName string

type_synonym names = "string list \<times> u32 set \<times> (string \<rightharpoonup> u32)"

fun names_spec :: "name_op \<Rightarrow> names \<Rightarrow> names" where
  "names_spec (NewName key _) (slots, dead, K) =
     (if K key = None then (slots @ [key], dead, K(key \<mapsto> of_nat (length slots))) else (slots, dead, K))"
| "names_spec (NewKey old new) (slots, dead, K) =
     (case K old of
        Some i \<Rightarrow> if K new = None then (slots[unat i := new], dead, K(old := None, new \<mapsto> i)) else (slots, dead, K)
      | None \<Rightarrow> (slots, dead, K))"
| "names_spec (DropName key) (slots, dead, K) =
     (case K key of Some i \<Rightarrow> (slots, insert i dead, K(key := None)) | None \<Rightarrow> (slots, dead, K))"

fun name_step :: "('s \<Rightarrow> string \<Rightarrow> u32 option) \<Rightarrow> ('s \<Rightarrow> string \<Rightarrow> u32 \<Rightarrow> 's option) \<Rightarrow> ('s \<Rightarrow> u32 \<Rightarrow> string \<Rightarrow> string \<Rightarrow> 's option)
    \<Rightarrow> ('s \<Rightarrow> string \<Rightarrow> u32 \<Rightarrow> 's option) \<Rightarrow> name_op \<Rightarrow> 's \<Rightarrow> 's option" where
  "name_step get new ren del (NewName key lab) s = (case get s key of Some _ \<Rightarrow> Some s | None \<Rightarrow> new s key lab)"
| "name_step get new ren del (NewKey old key) s =
     (case get s old of Some i \<Rightarrow> if get s key = None then ren s i old key else Some s | None \<Rightarrow> Some s)"
| "name_step get new ren del (DropName key) s = (case get s key of Some i \<Rightarrow> del s key i | None \<Rightarrow> Some s)"

fun run_all :: "('op \<Rightarrow> 's \<Rightarrow> 's option) \<Rightarrow> 'op list \<Rightarrow> 's \<Rightarrow> 's option" where
  "run_all step [] s = Some s"
| "run_all step (op # ops) s = step op s \<bind> run_all step ops"

locale node_names =
  fixes rel :: "'s \<Rightarrow> string list \<Rightarrow> u32 set \<Rightarrow> (string \<rightharpoonup> u32) \<Rightarrow> bool"
    and get :: "'s \<Rightarrow> string \<Rightarrow> u32 option"
    and key_of :: "'s \<Rightarrow> u32 \<Rightarrow> string option option"
    and new :: "'s \<Rightarrow> string \<Rightarrow> u32 \<Rightarrow> 's option"
    and ren :: "'s \<Rightarrow> u32 \<Rightarrow> string \<Rightarrow> string \<Rightarrow> 's option"
    and del :: "'s \<Rightarrow> string \<Rightarrow> u32 \<Rightarrow> 's option"
  assumes get_law: "rel s slots dead K \<Longrightarrow> get s key = K key"
    and key_law: "rel s slots dead K \<Longrightarrow> key_of s i = Some (if i \<in> dead then None else nth_opt slots (unat i))"
    and new_law: "rel s slots dead K \<Longrightarrow> K key = None \<Longrightarrow> Suc (length slots) < 2 ^ 32 \<Longrightarrow>
      \<exists>s'. new s key lab = Some s' \<and> rel s' (slots @ [key]) dead (K(key \<mapsto> of_nat (length slots)))"
    and ren_law: "rel s slots dead K \<Longrightarrow> K old = Some i \<Longrightarrow> K key = None \<Longrightarrow>
      \<exists>s'. ren s i old key = Some s' \<and> rel s' (slots[unat i := key]) dead (K(old := None, key \<mapsto> i))"
    and del_law: "rel s slots dead K \<Longrightarrow> K key = Some i \<Longrightarrow> \<exists>s'. del s key i = Some s' \<and> rel s' slots (insert i dead) (K(key := None))"
begin

lemma step_law:
  assumes "rel s slots dead K" "Suc (length slots) < 2 ^ 32" "names_spec op (slots, dead, K) = (slots', dead', K')"
  shows "\<exists>s'. name_step get new ren del op s = Some s' \<and> rel s' slots' dead' K' \<and> length slots' \<le> Suc (length slots)"
proof (cases op)
  case (NewName key lab)
  then show ?thesis using assms new_law [OF assms(1) _ assms(2), of key lab] get_law [OF assms(1), of key] by (cases "K key") auto
next
  case (NewKey old key)
  then show ?thesis using assms ren_law [OF assms(1), of old _ key] get_law [OF assms(1)] by (cases "K old"; cases "K key") auto
next
  case (DropName key)
  then show ?thesis using assms del_law [OF assms(1), of key] get_law [OF assms(1), of key] by (cases "K key") auto
qed

lemma run_law:
  "rel s slots dead K \<Longrightarrow> length slots + length ops < 2 ^ 32 \<Longrightarrow> fold names_spec ops (slots, dead, K) = (slots', dead', K') \<Longrightarrow>
     \<exists>s'. run_all (name_step get new ren del) ops s = Some s' \<and> rel s' slots' dead' K'"
proof (induction ops arbitrary: s slots dead K)
  case (Cons op ops)
  obtain slots1 dead1 K1 where n: "names_spec op (slots, dead, K) = (slots1, dead1, K1)" by (metis prod_cases3)
  obtain s1 where s1: "name_step get new ren del op s = Some s1" "rel s1 slots1 dead1 K1" "length slots1 \<le> Suc (length slots)"
    using step_law [OF Cons(2) _ n] Cons(3) by auto
  have "length slots1 + length ops < 2 ^ 32" using s1(3) Cons(3) by simp
  then show ?case using Cons(1) [OF s1(2)] Cons(4) n s1(1) by simp
qed simp

end

definition writer_new :: "hash_fn \<Rightarrow> id_map \<Rightarrow> string \<Rightarrow> u32 \<Rightarrow> id_map option" where
  "writer_new hash m key lab = map_option snd (im_get_or_insert hash m key)"

definition writer_ren :: "hash_fn \<Rightarrow> id_map \<Rightarrow> u32 \<Rightarrow> string \<Rightarrow> string \<Rightarrow> id_map option" where
  "writer_ren hash m i old key = map_option snd (im_rename hash m old key)"

definition writer_del :: "hash_fn \<Rightarrow> id_map \<Rightarrow> string \<Rightarrow> u32 \<Rightarrow> id_map option" where
  "writer_del hash m key i = map_option snd (im_delete hash m key)"

definition writer_rel :: "hash_fn \<Rightarrow> id_map \<Rightarrow> string list \<Rightarrow> u32 set \<Rightarrow> (string \<rightharpoonup> u32) \<Rightarrow> bool" where
  "writer_rel hash m slots dead K \<longleftrightarrow> im_rel hash m slots dead K \<and> length slots < 2 ^ 32"

interpretation writer: node_names "writer_rel hash" "im_get hash" im_key_of "writer_new hash" "writer_ren hash" "writer_del hash" for hash
proof
  fix s slots dead K assume "writer_rel hash s slots dead K"
  then have r: "im_rel hash s slots dead K" "length slots < 2 ^ 32" by (simp_all add: writer_rel_def)
  show "im_get hash s key = K key" for key by (rule im_get_correct [OF r(1)])
  show "im_key_of s i = Some (if i \<in> dead then None else nth_opt slots (unat i))" for i by (rule im_key_of_correct [OF r(1)])
  show "\<exists>s'. writer_new hash s key lab = Some s' \<and> writer_rel hash s' (slots @ [key]) dead (K(key \<mapsto> of_nat (length slots)))"
    if "K key = None" "Suc (length slots) < 2 ^ 32" for key lab
    using that im_try_insert_correct [OF r(1), of key] by (auto simp: writer_new_def writer_rel_def im_get_or_insert_def)
  show "\<exists>s'. writer_ren hash s i old key = Some s' \<and> writer_rel hash s' (slots[unat i := key]) dead (K(old := None, key \<mapsto> i))"
    if "K old = Some i" "K key = None" for i old key
    using that r(2) im_rename_correct [OF r(1), where old = old and new = key] by (auto simp: writer_ren_def writer_rel_def)
  show "\<exists>s'. writer_del hash s key i = Some s' \<and> writer_rel hash s' slots (insert i dead) (K(key := None))" if "K key = Some i" for key i
    using that r(2) im_delete_correct [OF r(1), of key] by (auto simp: writer_del_def writer_rel_def)
qed

text \<open>A view with a layer, written through the layer.\<close>

definition on_layer :: "graph_view \<Rightarrow> (node_layer \<Rightarrow> node_layer option) \<Rightarrow> graph_view option" where
  "on_layer v f = gv_layer v \<bind> f \<bind> (\<lambda>l. Some (v \<lparr> gv_layer := Some l \<rparr>))"

definition reader_rel :: "hash_fn \<Rightarrow> graph_view \<Rightarrow> string list \<Rightarrow> u32 set \<Rightarrow> (string \<rightharpoonup> u32) \<Rightarrow> bool" where
  "reader_rel hash v slots dead K \<longleftrightarrow>
     (\<exists>l slots0 dead0 K0. gv_layer v = Some l \<and> im_rel hash (gv_ids v) slots0 dead0 K0 \<and> nl_names slots0 dead0 l slots dead K)"

lemma reader_relE:
  assumes "reader_rel hash v slots dead K"
  obtains l slots0 dead0 K0 where "gv_layer v = Some l" "im_rel hash (gv_ids v) slots0 dead0 K0" "nl_names slots0 dead0 l slots dead K"
  using assms by (auto simp: reader_rel_def)

interpretation reader: node_names "reader_rel hash" "gv_node_id hash" gv_try_key_of
  "\<lambda>v key lab. on_layer v (\<lambda>l. Some (snd (nl_insert l key lab)))" "\<lambda>v i old key. on_layer v (\<lambda>l. nl_rename l i old key)"
  "\<lambda>v key i. on_layer v (\<lambda>l. Some (nl_delete l key i))" for hash
proof
  fix s slots dead K assume "reader_rel hash s slots dead K"
  then obtain l slots0 dead0 K0 where r: "gv_layer s = Some l" "im_rel hash (gv_ids s) slots0 dead0 K0" "nl_names slots0 dead0 l slots dead K"
    by (rule reader_relE)
  show "gv_node_id hash s key = K key" for key by (rule gv_node_id_correct [OF r])
  show "gv_try_key_of s i = Some (if i \<in> dead then None else nth_opt slots (unat i))" for i by (rule gv_try_key_of_correct [OF r])
  show "\<exists>s'. on_layer s (\<lambda>l. Some (snd (nl_insert l key lab))) = Some s' \<and> reader_rel hash s' (slots @ [key]) dead (K(key \<mapsto> of_nat (length slots)))"
    if "K key = None" "Suc (length slots) < 2 ^ 32" for key lab
    using nl_insert_correct(2) [OF r(3) that, of lab] r by (auto simp: on_layer_def reader_rel_def)
  show "\<exists>s'. on_layer s (\<lambda>l. nl_rename l i old key) = Some s' \<and> reader_rel hash s' (slots[unat i := key]) dead (K(old := None, key \<mapsto> i))"
    if "K old = Some i" "K key = None" for i old key
  proof -
    note names = that
    obtain l' where l': "nl_rename l i old key = Some l'" "nl_names slots0 dead0 l' (slots[unat i := key]) dead (K(old := None, key \<mapsto> i))"
      using nl_rename_correct [OF r(3) names] by blast
    then have "reader_rel hash (s \<lparr> gv_layer := Some l' \<rparr>) (slots[unat i := key]) dead (K(old := None, key \<mapsto> i))"
      unfolding reader_rel_def using r(2) by (intro exI [of _ l'] exI [of _ slots0] exI [of _ dead0] exI [of _ K0]) simp
    then show ?thesis using l'(1) r(1) by (simp add: on_layer_def)
  qed
  show "\<exists>s'. on_layer s (\<lambda>l. Some (nl_delete l key i)) = Some s' \<and> reader_rel hash s' slots (insert i dead) (K(key := None))" if "K key = Some i" for key i
    using nl_delete_correct [OF r(3) that] r by (auto simp: on_layer_def reader_rel_def)
qed

section \<open>Properties\<close>

text \<open>C17: a layer shows the names the table itself would have. Over any key table, any sequence of inserts, renames and deletes, each with the checks
  its callers make, gives through the layer the same answers as the same changes to the table: the id of every key, the key of every id, retired
  ids included, and the number of ids handed out; no step panics.\<close>

theorem node_layer_agrees_with_table:
  assumes "im_rel hash (gv_ids v) slots dead K" "length slots + length ops < 2 ^ 32" "gv_layer v = Some (nl_new (gv_ids v) (gv_syms v))"
  shows "\<exists>m' v'.
    run_all (name_step (im_get hash) (writer_new hash) (writer_ren hash) (writer_del hash)) ops (gv_ids v) = Some m' \<and>
    run_all (name_step (gv_node_id hash) (\<lambda>v key lab. on_layer v (\<lambda>l. Some (snd (nl_insert l key lab)))) (\<lambda>v i old key. on_layer v (\<lambda>l. nl_rename l i old key))
      (\<lambda>v key i. on_layer v (\<lambda>l. Some (nl_delete l key i)))) ops v = Some v' \<and>
    (\<forall>key. gv_node_id hash v' key = im_get hash m' key) \<and> (\<forall>i. gv_try_key_of v' i = im_key_of m' i \<and> im_key_of m' i \<noteq> None) \<and>
    gv_id_bound v' = of_nat (im_len m')"
proof -
  obtain slots' dead' K' where n: "fold names_spec ops (slots, dead, K) = (slots', dead', K')" by (metis prod_cases3)
  have len: "length slots < 2 ^ 32" using assms(2) by simp
  have start: "writer_rel hash (gv_ids v) slots dead K" "reader_rel hash v slots dead K"
    using assms(1,3) len nl_new_names [OF assms(1) len] by (auto simp: writer_rel_def reader_rel_def)
  obtain m' where m': "run_all (name_step (im_get hash) (writer_new hash) (writer_ren hash) (writer_del hash)) ops (gv_ids v) = Some m'"
    "writer_rel hash m' slots' dead' K'" using writer.run_law [OF start(1) assms(2) n] by blast
  obtain v' where v': "run_all (name_step (gv_node_id hash) (\<lambda>v key lab. on_layer v (\<lambda>l. Some (snd (nl_insert l key lab))))
      (\<lambda>v i old key. on_layer v (\<lambda>l. nl_rename l i old key)) (\<lambda>v key i. on_layer v (\<lambda>l. Some (nl_delete l key i)))) ops v = Some v'"
    "reader_rel hash v' slots' dead' K'" using reader.run_law [OF start(2) assms(2) n] by blast
  have "gv_id_bound v' = of_nat (length slots')" using v'(2) gv_id_bound_correct by (auto elim!: reader_relE)
  moreover have "im_len m' = length slots'" using m'(2) im_relD(1,2) [of hash m' slots' dead' K'] cv_len_iter [of "im_to_key m'"] by (simp add: writer_rel_def im_len_def)
  ultimately show ?thesis
    using m'(1) v'(1) writer.get_law [OF m'(2)] writer.key_law [OF m'(2)] reader.get_law [OF v'(2)] reader.key_law [OF v'(2)]
    by (intro exI [of _ m'] exI [of _ v']) simp
qed

definition bare_view :: "id_map \<Rightarrow> interner \<Rightarrow> graph_view" where
  "bare_view ids syms = \<lparr> gv_ids = ids, gv_syms = syms, gv_labels = [], gv_props = cw_owned cs_new, gv_topo = tv_owned topo_new,
     gv_edge_props = ev_owned ep_new, gv_mask = None, gv_layer = Some (nl_new ids syms) \<rparr>"

theorem node_layer_agrees_with_table_witness:
  "let ops = [NewName ''a'' 0, NewKey ''a'' ''b'', DropName ''b'', NewName ''b'' 0] in
   \<exists>m' v'. run_all (name_step (im_get (\<lambda>_. 5)) (writer_new (\<lambda>_. 5)) (writer_ren (\<lambda>_. 5)) (writer_del (\<lambda>_. 5))) ops im_new = Some m' \<and>
     gv_node_id (\<lambda>_. 5) v' ''b'' = im_get (\<lambda>_. 5) m' ''b'' \<and> gv_try_key_of v' 0 = im_key_of m' 0 \<and> gv_id_bound v' = of_nat (im_len m')"
  using node_layer_agrees_with_table [of "\<lambda>_. 5" "bare_view im_new in_new" "[]" "{}" Map.empty "[NewName ''a'' 0, NewKey ''a'' ''b'', DropName ''b'', NewName ''b'' 0]"]
    im_new_rel [of "\<lambda>_. 5"]
  unfolding Let_def by (auto simp: bare_view_def simp del: run_all.simps)

end
