(* ===== verification/Wal.thy ===== *)
theory Wal
  imports Value_Types
begin

text \<open>
  The write-ahead log (\<open>crates/core-storage/src/wal.rs\<close>): its records, the framing of one record and
  the decoder of a log that may end in a torn or corrupt frame. The checksum of \<open>crc32fast\<close> and the
  serialiser and deserialiser of \<open>bincode\<close> are parameters. A frame is a length and a checksum, each
  four little-endian bytes, and the payload.
\<close>

datatype wal_record =
    InsertNode string string "(string \<times> val) list"
  | InsertEdge string string string
  | SetProp string string val
  | CreateRule bytes
  | DeleteRule string
  | RemoveProp string string
  | DeleteEdge string string string
  | DeleteNode string
  | Batch "wal_record list"
  | RebuildRule string
  | CreateView bytes
  | DeleteView string
  | EnableFulltext string string
  | DisableFulltext string string
  | InsertNodeId u32 string "(u32 \<times> val) list"
  | SetPropId u32 u32 val
  | InsertEdgeId u32 u32 u32
  | Intern u32 string
  | DerivedEdgeAdded string string string string
  | DerivedEdgeRetracted string string string string
  | RenameNode string string
  | EnableIndex string string
  | DisableIndex string string
  | SetEdgeCount u32 u32 u32 u64
  | CreateConstraint string string string
  | DropConstraint string
  | EnableRangeIndex string string string
  | DisableRangeIndex string
  | SetEdgePropId u32 u32 u32 u32 val
  | RemoveEdgePropId u32 u32 u32 u32

definition MULTIPLICITY_ENABLED :: wal_record where
  "MULTIPLICITY_ENABLED = SetEdgeCount (- 1) (- 1) (- 1) 0"

definition is_multiplicity_decl :: "wal_record \<Rightarrow> bool" where
  "is_multiplicity_decl r \<longleftrightarrow> (case r of SetEdgeCount _ _ _ n \<Rightarrow> n = 0 | _ \<Rightarrow> False)"

fun carries_null :: "wal_record \<Rightarrow> bool" where
  "carries_null (InsertNode _ _ props) = list_ex (\<lambda>p. contains_null (snd p)) props"
| "carries_null (InsertNodeId _ _ props) = list_ex (\<lambda>p. contains_null (snd p)) props"
| "carries_null (SetProp _ _ v) = contains_null v"
| "carries_null (SetPropId _ _ v) = contains_null v"
| "carries_null (SetEdgePropId _ _ _ _ v) = contains_null v"
| "carries_null (Batch inner) = list_ex carries_null inner"
| "carries_null _ = False"

fun is_batch :: "wal_record \<Rightarrow> bool" where
  "is_batch (Batch _) = True"
| "is_batch _ = False"

text \<open>A batch that holds a batch, which the decoder treats as a corrupt frame.\<close>

definition nested_batch :: "wal_record \<Rightarrow> bool" where
  "nested_batch r \<longleftrightarrow> (case r of Batch inner \<Rightarrow> list_ex is_batch inner | _ \<Rightarrow> False)"

section \<open>Framing\<close>

definition frame :: "(bytes \<Rightarrow> u32) \<Rightarrow> bytes \<Rightarrow> bytes" where
  "frame crc payload = u32_le (of_nat (length payload)) @ u32_le (crc payload) @ payload"

definition try_encode_record :: "(bytes \<Rightarrow> u32) \<Rightarrow> (wal_record \<Rightarrow> bytes option) \<Rightarrow> wal_record \<Rightarrow> graph_error + bytes" where
  "try_encode_record crc ser r =
     (if carries_null r then Inl (Corrupt ''refusing to write a WAL frame whose property value holds a null'')
      else case ser r of
        None \<Rightarrow> Inl (Corrupt ''WAL record failed to encode'')
      | Some payload \<Rightarrow> Inr (frame crc payload))"

text \<open>\<open>encode_record\<close> panics where the other returns an error.\<close>

definition encode_record :: "(bytes \<Rightarrow> u32) \<Rightarrow> (wal_record \<Rightarrow> bytes option) \<Rightarrow> wal_record \<Rightarrow> bytes option" where
  "encode_record crc ser r = (case try_encode_record crc ser r of Inl _ \<Rightarrow> None | Inr bs \<Rightarrow> Some bs)"

text \<open>The loop of \<open>decode_all\<close>: the records so far and the position of the next frame.\<close>

function decode_loop :: "(bytes \<Rightarrow> u32) \<Rightarrow> (bytes \<Rightarrow> wal_record option) \<Rightarrow> bytes \<Rightarrow> wal_record list \<Rightarrow> nat
    \<Rightarrow> wal_record list \<times> nat" where
  "decode_loop crc de bs recs pos =
     (if length bs < pos + 8 then (recs, pos)
      else
        let len = unat (le_u32 (take 4 (drop pos bs)));
            sum = le_u32 (take 4 (drop (pos + 4) bs));
            start = pos + 8
        in if length bs < start + len then (recs, pos)
           else
             let payload = take len (drop start bs)
             in if crc payload \<noteq> sum then (recs, pos)
                else case de payload of
                  None \<Rightarrow> (recs, pos)
                | Some r \<Rightarrow>
                    if nested_batch r then (recs, pos)
                    else decode_loop crc de bs (recs @ [r]) (start + len))"
  by pat_completeness auto
termination
  by (relation "measure (\<lambda>(crc, de, bs, recs, pos). length bs - pos)") auto

declare decode_loop.simps [simp del]

definition decode_all :: "(bytes \<Rightarrow> u32) \<Rightarrow> (bytes \<Rightarrow> wal_record option) \<Rightarrow> bytes \<Rightarrow> wal_record list \<times> nat" where
  "decode_all crc de bs = decode_loop crc de bs [] 0"

definition wal_commits :: "(bytes \<Rightarrow> u32) \<Rightarrow> (bytes \<Rightarrow> wal_record option) \<Rightarrow> bytes \<Rightarrow> u64" where
  "wal_commits crc de bs = of_nat (length (fst (decode_all crc de bs)))"

section \<open>The decoder frame by frame\<close>

text \<open>The first frame of a log, with the bytes after it; \<open>None\<close> when the decoder stops there.\<close>

definition first_frame :: "(bytes \<Rightarrow> u32) \<Rightarrow> (bytes \<Rightarrow> wal_record option) \<Rightarrow> bytes \<Rightarrow> (wal_record \<times> nat) option" where
  "first_frame crc de bs =
     (if length bs < 8 then None
      else
        let len = unat (le_u32 (take 4 bs)); payload = take len (drop 8 bs)
        in if length bs < 8 + len \<or> crc payload \<noteq> le_u32 (take 4 (drop 4 bs)) then None
           else case de payload of None \<Rightarrow> None | Some r \<Rightarrow> if nested_batch r then None else Some (r, 8 + len))"

lemma first_frame_length: "first_frame crc de bs = Some (r, n) \<Longrightarrow> 8 \<le> n \<and> n \<le> length bs"
  by (auto simp: first_frame_def Let_def split: if_splits option.splits)

lemma decode_loop_step:
  "decode_loop crc de bs recs pos = (case first_frame crc de (drop pos bs) of
     None \<Rightarrow> (recs, pos) | Some (r, n) \<Rightarrow> decode_loop crc de bs (recs @ [r]) (pos + n))"
  by (subst decode_loop.simps) (auto simp: first_frame_def Let_def add.assoc add.commute split: option.split)

lemma decode_loop_shift:
  "decode_loop crc de bs recs pos = (recs @ fst (decode_all crc de (drop pos bs)), pos + snd (decode_all crc de (drop pos bs)))"
proof -
  have gen: "decode_loop crc de (drop p bs) rs q = (rs @ fst (decode_loop crc de (drop (p + q) bs) [] 0), q + snd (decode_loop crc de (drop (p + q) bs) [] 0))"
    for p q rs
  proof (induction "length bs - (p + q)" arbitrary: p q rs rule: less_induct)
    case less
    show ?case
    proof (cases "first_frame crc de (drop (p + q) bs)")
      case None
      then show ?thesis
        using decode_loop_step [of crc de "drop p bs" rs q] decode_loop_step [of crc de "drop (p + q) bs" "[]" 0]
        by (simp add: add.commute)
    next
      case (Some f)
      obtain r n where f: "f = (r, n)" by (cases f)
      have n: "8 \<le> n" "n \<le> length bs - (p + q)" using first_frame_length Some f by force+
      then have dec: "length bs - (p + (q + n)) < length bs - (p + q)" by simp
      note a = less.hyps [OF dec, of "rs @ [r]"]
      have dec': "length bs - ((p + q) + n) < length bs - (p + q)" using n by simp
      note b = less.hyps [OF dec', of "[r]"]
      show ?thesis
        using decode_loop_step [of crc de "drop p bs" rs q] decode_loop_step [of crc de "drop (p + q) bs" "[]" 0] Some f a b
        by (simp add: add.commute add.left_commute)
    qed
  qed
  show ?thesis using gen [of 0 recs pos] by (simp add: decode_all_def)
qed

lemma decode_all_rec:
  "decode_all crc de bs = (case first_frame crc de bs of None \<Rightarrow> ([], 0)
     | Some (r, n) \<Rightarrow> (r # fst (decode_all crc de (drop n bs)), n + snd (decode_all crc de (drop n bs))))"
proof (cases "first_frame crc de bs")
  case (Some f)
  then show ?thesis using decode_loop_step [of crc de bs "[]" 0] decode_loop_shift [of crc de bs "[fst f]" "snd f"]
    by (cases f) (simp add: decode_all_def [of crc de bs])
qed (use decode_loop_step [of crc de bs "[]" 0] in \<open>simp add: decode_all_def\<close>)

lemma decode_all_induct [case_names Stop Frame]:
  assumes stop: "\<And>bs. first_frame crc de bs = None \<Longrightarrow> P bs"
    and frame: "\<And>bs r n. first_frame crc de bs = Some (r, n) \<Longrightarrow> P (drop n bs) \<Longrightarrow> P bs"
  shows "P bs"
proof (induction "length bs" arbitrary: bs rule: less_induct)
  case less
  show ?case
  proof (cases "first_frame crc de bs")
    case (Some f)
    then obtain r n where f: "first_frame crc de bs = Some (r, n)" by (cases f) auto
    then have "length (drop n bs) < length bs" using first_frame_length [OF f] by (simp only: length_drop) linarith
    then show ?thesis using less f frame by blast
  qed (rule stop)
qed

text \<open>A frame is decided by its own bytes.\<close>

lemma first_frame_take:
  assumes "first_frame crc de bs = Some (r, n)" and "n \<le> k"
  shows "first_frame crc de (take k bs) = Some (r, n)"
proof -
  have n: "8 \<le> n" "n \<le> length bs" using first_frame_length [OF assms(1)] by auto
  define len where "len = unat (le_u32 (take 4 bs))"
  have n8: "n = 8 + len" using assms(1) by (auto simp: first_frame_def Let_def len_def split: if_splits option.splits)
  have "take 4 (take k bs) = take 4 bs" "take 4 (drop 4 (take k bs)) = take 4 (drop 4 bs)"
    "take len (drop 8 (take k bs)) = take len (drop 8 bs)" "length (take k bs) \<ge> 8 + len"
    using n assms(2) n8 by (simp_all add: drop_take min_def)
  then show ?thesis using assms(1) n8 by (simp add: first_frame_def Let_def flip: len_def) (auto split: option.splits if_splits)
qed

lemma first_frame_append: "first_frame crc de bs = Some (r, n) \<Longrightarrow> first_frame crc de (bs @ more') = Some (r, n)"
  by (auto simp: first_frame_def Let_def take_append drop_append split: if_splits option.splits)

section \<open>Recovery\<close>

lemma first_frame_cut:
  assumes "first_frame crc de (bs @ more') = Some (r, n)" and "n > length bs"
  shows "first_frame crc de bs = None"
proof (rule ccontr)
  assume "first_frame crc de bs \<noteq> None"
  then obtain f where "first_frame crc de bs = Some f" by blast
  then show False using first_frame_append [of crc de bs "fst f" "snd f" more'] first_frame_length [of crc de bs "fst f" "snd f"] assms
    by (cases f) auto
qed

lemma decode_all_length: "snd (decode_all crc de bs) \<le> length bs"
proof (induction bs rule: decode_all_induct [of crc de])
  case (Frame bs r n)
  then show ?case using first_frame_length [OF Frame(1)] by (subst decode_all_rec) auto
qed (subst decode_all_rec, simp)

text \<open>The valid prefix decodes to the same records, and more valid frames may follow it.\<close>

lemma decode_all_valid:
  "decode_all crc de (take (snd (decode_all crc de bs)) bs @ more')
    = (fst (decode_all crc de bs) @ fst (decode_all crc de more'), snd (decode_all crc de bs) + snd (decode_all crc de more'))"
proof (induction bs rule: decode_all_induct [of crc de])
  case (Stop bs)
  then show ?case by (subst (1 2 4) decode_all_rec) simp
next
  case (Frame bs r n)
  let ?d = "decode_all crc de (drop n bs)"
  have d: "decode_all crc de bs = (r # fst ?d, n + snd ?d)" using Frame(1) decode_all_rec [of crc de bs] by simp
  have n: "n \<le> length bs" using first_frame_length [OF Frame(1)] by simp
  have t: "take (n + snd ?d) bs = take n bs @ take (snd ?d) (drop n bs)" by (simp add: take_add)
  have "first_frame crc de (take n bs) = Some (r, n)" using first_frame_take [OF Frame(1), of n] by simp
  then have "first_frame crc de (take n bs @ take (snd ?d) (drop n bs) @ more') = Some (r, n)" by (rule first_frame_append)
  then show ?case using decode_all_rec [of crc de "take n bs @ take (snd ?d) (drop n bs) @ more'"] Frame(2) d t n by simp
qed

lemma first_frame_frame:
  assumes "length p < 2 ^ 32" and "de p = Some r" and "\<not> nested_batch r"
  shows "first_frame crc de (frame crc p @ more') = Some (r, length (frame crc p))"
proof -
  have u: "unat (of_nat (length p) :: u32) = length p" using assms(1) by (simp add: unsigned_of_nat take_bit_nat_eq_self)
  show ?thesis using assms(2,3) by (simp add: first_frame_def frame_def byte_simps u Let_def)
qed

text \<open>The log a sequence of commits writes: the frames one after the other.\<close>

fun wal_bytes :: "(bytes \<Rightarrow> u32) \<Rightarrow> (wal_record \<Rightarrow> bytes option) \<Rightarrow> wal_record list \<Rightarrow> bytes option" where
  "wal_bytes crc ser [] = Some []"
| "wal_bytes crc ser (r # rs) = (case try_encode_record crc ser r of Inl _ \<Rightarrow> None
     | Inr f \<Rightarrow> map_option (\<lambda>rest. f @ rest) (wal_bytes crc ser rs))"

text \<open>What the write path guarantees of a record it frames.\<close>

definition writable :: "(wal_record \<Rightarrow> bytes option) \<Rightarrow> wal_record \<Rightarrow> bool" where
  "writable ser r \<longleftrightarrow> \<not> carries_null r \<and> \<not> nested_batch r \<and> (\<exists>p. ser r = Some p \<and> length p < 2 ^ 32)"

text \<open>\<open>bincode\<close> reads back what it wrote.\<close>

definition bincode_reads_back :: "(wal_record \<Rightarrow> bytes option) \<Rightarrow> (bytes \<Rightarrow> wal_record option) \<Rightarrow> bool" where
  "bincode_reads_back ser de \<longleftrightarrow> (\<forall>r p. ser r = Some p \<longrightarrow> de p = Some r)"

lemma wal_bytes_decode:
  assumes "list_all (writable ser) rs" and "bincode_reads_back ser de"
  shows "\<exists>bs. wal_bytes crc ser rs = Some bs
    \<and> decode_all crc de (bs @ tail) = (rs @ fst (decode_all crc de tail), length bs + snd (decode_all crc de tail))"
  using assms(1)
proof (induction rs)
  case (Cons r rs)
  obtain p where p: "try_encode_record crc ser r = Inr (frame crc p)" "de p = Some r" "length p < 2 ^ 32" "\<not> nested_batch r"
    using Cons.prems assms(2) by (auto simp: writable_def try_encode_record_def bincode_reads_back_def)
  obtain bs where bs: "wal_bytes crc ser rs = Some bs"
    "decode_all crc de (bs @ tail) = (rs @ fst (decode_all crc de tail), length bs + snd (decode_all crc de tail))"
    using Cons by auto
  have "first_frame crc de (frame crc p @ bs @ tail) = Some (r, length (frame crc p))" using p by (intro first_frame_frame) auto
  then have "decode_all crc de (frame crc p @ bs @ tail)
      = (r # rs @ fst (decode_all crc de tail), length (frame crc p) + (length bs + snd (decode_all crc de tail)))"
    using decode_all_rec [of crc de "frame crc p @ bs @ tail"] bs(2) by simp
  then show ?case using p(1) bs(1) by simp
qed simp

lemma first_frame_torn:
  assumes "length p < 2 ^ 32" and "k < length (frame crc p)"
  shows "first_frame crc de (take k (frame crc p)) = None"
proof (cases "k < 8")
  case True
  then show ?thesis by (simp add: first_frame_def min_def)
next
  case False
  have u: "unat (of_nat (length p) :: u32) = length p" using assms(1) by (simp add: unsigned_of_nat take_bit_nat_eq_self)
  have "take 4 (take k (frame crc p)) = u32_le (of_nat (length p))" using False by (simp add: frame_def byte_simps min_def)
  moreover have "length (take k (frame crc p)) < 8 + length p" using assms(2) by (simp add: frame_def byte_simps)
  moreover have "unat (le_u32 (u32_le (of_nat (length p)))) = length p" by (simp add: byte_simps u)
  ultimately show ?thesis unfolding first_frame_def Let_def by (simp only: if_True if_cancel disj.assoc simp_thms split: if_split)
qed

text \<open>
  C3: a log written record by record and torn anywhere inside the frame of one more record decodes
  to exactly the records before it, and the length it reports is the end of the last whole frame, so
  no commit before the torn one is lost and no part of it is replayed. A log that was not torn
  decodes to all its records.
\<close>

theorem wal_recovers_torn_append:
  assumes "bincode_reads_back ser de"
    and "list_all (writable ser) rs" and "writable ser r"
  shows "\<exists>bs f. wal_bytes crc ser rs = Some bs \<and> try_encode_record crc ser r = Inr f
    \<and> decode_all crc de bs = (rs, length bs)
    \<and> (\<forall>k. k < length f \<longrightarrow> decode_all crc de (bs @ take k f) = (rs, length bs))
    \<and> decode_all crc de (bs @ f) = (rs @ [r], length (bs @ f))"
proof -
  obtain p where p: "try_encode_record crc ser r = Inr (frame crc p)" "de p = Some r" "length p < 2 ^ 32" "\<not> nested_batch r"
    using assms(1,3) by (auto simp: writable_def try_encode_record_def bincode_reads_back_def)
  obtain bs where bs: "wal_bytes crc ser rs = Some bs" using wal_bytes_decode [OF assms(2,1)] by blast
  have dec: "decode_all crc de (bs @ tail) = (rs @ fst (decode_all crc de tail), length bs + snd (decode_all crc de tail))" for tail
    using wal_bytes_decode [OF assms(2,1), of crc tail] bs by auto
  have nil: "decode_all crc de [] = ([], 0)" by (subst decode_all_rec) (simp add: first_frame_def)
  have torn: "decode_all crc de (bs @ take k (frame crc p)) = (rs, length bs)" if "k < length (frame crc p)" for k
    unfolding dec using first_frame_torn [OF p(3) that] by (subst (1 2) decode_all_rec) simp
  have "first_frame crc de (frame crc p) = Some (r, length (frame crc p))" using first_frame_frame [where more' = "[]"] p by simp
  then have whole: "decode_all crc de (frame crc p) = ([r], length (frame crc p))" using decode_all_rec [of crc de "frame crc p"] nil by simp
  show ?thesis using bs p(1) dec [of "[]"] nil torn dec [of "frame crc p"] whole by auto
qed

text \<open>
  Truncating a log of any bytes, however damaged, at the length the decoder reports is safe:
  what is left decodes to the same records, and whatever is appended to it decodes after them as
  it would on its own. The reported length never exceeds the log.
\<close>

theorem wal_truncation_keeps_records:
  "snd (decode_all crc de bs) \<le> length bs
    \<and> decode_all crc de (take (snd (decode_all crc de bs)) bs) = decode_all crc de bs
    \<and> decode_all crc de (take (snd (decode_all crc de bs)) bs @ appended)
       = (fst (decode_all crc de bs) @ fst (decode_all crc de appended),
          snd (decode_all crc de bs) + snd (decode_all crc de appended))"
proof -
  have nil: "decode_all crc de [] = ([], 0)" by (subst decode_all_rec) (simp add: first_frame_def)
  show ?thesis using decode_all_length [of crc de bs] decode_all_valid [of crc de bs "[]"] decode_all_valid [of crc de bs appended] nil
    by simp
qed

text \<open>
  a frame whose payload was damaged stops the decoder in front of it, whatever follows: when the
  checksum of the damaged payload differs, nothing of it or after it is replayed.
\<close>

theorem wal_stops_at_damage:
  assumes "bincode_reads_back ser de"
    and "list_all (writable ser) rs" and "length p < 2 ^ 32" and "length p' = length p" and crc_differs: "crc p' \<noteq> crc p"
  shows "\<exists>bs. wal_bytes crc ser rs = Some bs
    \<and> decode_all crc de (bs @ take 8 (frame crc p) @ p' @ rest) = (rs, length bs)"
proof -
  obtain bs where bs: "wal_bytes crc ser rs = Some bs"
    "decode_all crc de (bs @ take 8 (frame crc p) @ p' @ rest) = (rs @ fst (decode_all crc de (take 8 (frame crc p) @ p' @ rest)),
       length bs + snd (decode_all crc de (take 8 (frame crc p) @ p' @ rest)))"
    using wal_bytes_decode [OF assms(2,1), of crc "take 8 (frame crc p) @ p' @ rest"] by auto
  have u: "unat (of_nat (length p) :: u32) = length p" using assms(3) by (simp add: unsigned_of_nat take_bit_nat_eq_self)
  have "first_frame crc de (take 8 (frame crc p) @ p' @ rest) = None"
    using assms(4,5) by (simp add: first_frame_def frame_def byte_simps u Let_def)
  then show ?thesis using bs decode_all_rec [of crc de "take 8 (frame crc p) @ p' @ rest"] by simp
qed

section \<open>What is never framed\<close>

lemma carries_null_nth: "carries_null (Batch rs) \<longleftrightarrow> (\<exists>i<length rs. carries_null (rs ! i))"
  by (simp add: list_ex_length)

text \<open>
  no frame is ever built for a record that carries a null at any depth of a property value, in a
  batch or on its own; every other record is framed exactly when it serialises, with the length of
  its payload, its checksum and its payload. The declaration of multiplicity is recognised.
\<close>

theorem wal_frames_no_null:
  "(try_encode_record crc ser r = Inr f \<longleftrightarrow> \<not> carries_null r \<and> (\<exists>p. ser r = Some p \<and> f = frame crc p))
    \<and> (encode_record crc ser r = None \<longleftrightarrow> carries_null r \<or> ser r = None)
    \<and> (carries_null (Batch rs) \<longleftrightarrow> (\<exists>i<length rs. carries_null (rs ! i)))
    \<and> (carries_null (SetProp k field v) \<longleftrightarrow> inside VNull v)
    \<and> is_multiplicity_decl MULTIPLICITY_ENABLED"
  unfolding carries_null_nth
  by (auto simp: try_encode_record_def encode_record_def contains_null_inside is_multiplicity_decl_def MULTIPLICITY_ENABLED_def
      split: option.splits)

section \<open>Witnesses\<close>

text \<open>A serialiser of two records and a checksum, enough to run the decoder.\<close>

definition wit_ser :: "wal_record \<Rightarrow> bytes option" where
  "wit_ser r = (if r = DeleteNode ''a'' then Some [1] else if r = Batch [DeleteNode ''a''] then Some [2, 3] else None)"

definition wit_de :: "bytes \<Rightarrow> wal_record option" where
  "wit_de p = (if p = [1] then Some (DeleteNode ''a'') else if p = [2, 3] then Some (Batch [DeleteNode ''a'']) else None)"

definition wit_crc :: "bytes \<Rightarrow> u32" where "wit_crc p = of_nat (le_nat p)"

lemma wit_reads_back: "bincode_reads_back wit_ser wit_de"
  by (auto simp: bincode_reads_back_def wit_ser_def wit_de_def split: if_splits)

lemma wit_writable: "writable wit_ser (DeleteNode ''a'')" "writable wit_ser (Batch [DeleteNode ''a''])"
  by (simp_all add: writable_def wit_ser_def nested_batch_def)

theorem wal_recovers_torn_append_witness:
  "\<exists>bs f. wal_bytes wit_crc wit_ser [DeleteNode ''a''] = Some bs
    \<and> try_encode_record wit_crc wit_ser (Batch [DeleteNode ''a'']) = Inr f
    \<and> decode_all wit_crc wit_de (bs @ f) = ([DeleteNode ''a'', Batch [DeleteNode ''a'']], length (bs @ f))"
  using wal_recovers_torn_append [OF wit_reads_back, of "[DeleteNode ''a'']" "Batch [DeleteNode ''a'']" wit_crc] wit_writable
  by auto

theorem wal_stops_at_damage_witness:
  "\<exists>bs. wal_bytes wit_crc wit_ser [DeleteNode ''a''] = Some bs
    \<and> decode_all wit_crc wit_de (bs @ take 8 (frame wit_crc [2, 3]) @ [2, 4] @ [9]) = ([DeleteNode ''a''], length bs)"
  using wal_stops_at_damage [OF wit_reads_back, of "[DeleteNode ''a'']" "[2, 3]" "[2, 4]" wit_crc "[9]"] wit_writable
  by (auto simp: wit_crc_def)

end
