(* ===== verification/Delta_Layer.thy ===== *)
theory Delta_Layer
  imports Graph_View Wal
begin

text \<open>
  The changes since a fold, as one layer over it (\<open>crates/core-api/src/layer.rs\<close>): what a reader snapshot reads its unfolded commits through, and
  what a transaction lays its own writes on. Every log record is laid over the names, properties, edges and edge properties below, which are
  never copied. The sections of a mapped base are given decoded, as the source reads them after their checksums were verified at open; \<open>de\<close> is
  \<open>bincode\<close>'s decoder of an edge's property blob. Of an error only its kind and fixed words are kept.
\<close>

section \<open>The state below\<close>

record frozen_overlay =
  fo_ids :: id_map
  fo_syms :: interner
  fo_topo :: topology
  fo_props :: column_store
  fo_labels :: "u32 list"
  fo_edge_props :: edge_props

record mapped_base =
  mb_topology :: csr_data
  mb_columns :: "field_entry list"
  mb_strings :: "string list option"
  mb_edge_props :: "edge_prop_entry list"

definition build_tv :: "topology \<Rightarrow> mapped_base option \<Rightarrow> topology_view" where
  "build_tv topo base = (case base of None \<Rightarrow> tv_owned topo | Some b \<Rightarrow> tv_with_base topo (mb_topology b))"

definition build_cv :: "column_store \<Rightarrow> mapped_base option \<Rightarrow> columns_view" where
  "build_cv props base =
     (case base of None \<Rightarrow> cw_owned props | Some b \<Rightarrow> cw_with_shared_strings (cw_with_base props (mb_columns b)) (mb_strings b))"

definition build_epv :: "edge_props \<Rightarrow> mapped_base option \<Rightarrow> edge_props_view" where
  "build_epv ep base = (case base of None \<Rightarrow> ev_owned ep | Some b \<Rightarrow> ev_with_base ep (mb_edge_props b))"

section \<open>The layer\<close>

record delta_layer =
  dl_nodes :: node_layer
  dl_topo :: topology
  dl_props :: prop_layer
  dl_edge_props :: edge_props

record commit_delta =
  cd_records :: "wal_record list"
  cd_derived_inserts :: "(u32 \<times> u32 \<times> u32) list"
  cd_derived_deletes :: "(u32 \<times> u32 \<times> u32) list"
  cd_view_values :: "(u32 \<times> string \<times> val option) list"
  cd_edge_props :: "(edge_key \<times> (props option \<times> bool)) list"

definition dl_new :: "frozen_overlay \<Rightarrow> delta_layer" where
  "dl_new st = \<lparr> dl_nodes = nl_new (fo_ids st) (fo_syms st), dl_topo = topo_new, dl_props = pl_new, dl_edge_props = ep_new \<rparr>"

definition dl_view :: "delta_layer \<Rightarrow> frozen_overlay \<Rightarrow> mapped_base option \<Rightarrow> visible_set option \<Rightarrow> graph_view" where
  "dl_view l st base vis = \<lparr> gv_ids = fo_ids st, gv_syms = fo_syms st, gv_labels = fo_labels st,
     gv_props = cw_with_layer (build_cv (fo_props st) base) (dl_props l),
     gv_topo = tv_with_layer (build_tv (fo_topo st) base) (dl_topo l),
     gv_edge_props = ev_with_layer (build_epv (fo_edge_props st) base) (dl_edge_props l),
     gv_mask = vis, gv_layer = Some (dl_nodes l) \<rparr>"

text \<open>A step leaves a layer and, when it failed, the error it returned; \<open>None\<close> is a panic.\<close>

type_synonym outcome = "(delta_layer \<times> graph_error option) option"

definition done_ok :: "delta_layer \<Rightarrow> outcome" where "done_ok l = Some (l, None)"

definition failed :: "delta_layer \<Rightarrow> string \<Rightarrow> outcome" where "failed l detail = Some (l, Some (Corrupt detail))"

text \<open>\<open>remove_edge\<close>: from the layer's own adjacency, then a tombstone over what is below.\<close>

definition dl_remove_edge :: "delta_layer \<Rightarrow> edge_key \<Rightarrow> delta_layer option" where
  "dl_remove_edge l k = (case k of (etype, src, dst) \<Rightarrow> do {
     (_, t) \<leftarrow> remove_overlay_edge (dl_topo l) etype src dst;
     (_, t) \<leftarrow> remove_edge t etype src dst;
     Some (l \<lparr> dl_topo := t \<rparr>) })"

definition dl_add_edge :: "delta_layer \<Rightarrow> u32 \<Rightarrow> u32 \<Rightarrow> u32 \<Rightarrow> delta_layer option" where
  "dl_add_edge l etype src dst = do { (_, t) \<leftarrow> add_edge (dl_topo l) etype src dst; Some (l \<lparr> dl_topo := t \<rparr>) }"

definition dl_insert_node :: "hash_fn \<Rightarrow> frozen_overlay \<Rightarrow> mapped_base option \<Rightarrow> delta_layer \<Rightarrow> string \<Rightarrow> u32 \<Rightarrow> (u32 \<times> delta_layer) option" where
  "dl_insert_node hash st base l key label_sym =
     (case gv_node_id hash (dl_view l st base None) key of
        Some i \<Rightarrow> do { nodes \<leftarrow> nl_relabel (dl_nodes l) i label_sym; Some (i, l \<lparr> dl_nodes := nodes \<rparr>) }
      | None \<Rightarrow> (case nl_insert (dl_nodes l) key label_sym of (i, nodes) \<Rightarrow> Some (i, l \<lparr> dl_nodes := nodes \<rparr>)))"

text \<open>The edges of a node, from every layer: the loops of \<open>delete_node\<close>.\<close>

definition doomed_edges :: "graph_view \<Rightarrow> u32 \<Rightarrow> edge_key list" where
  "doomed_edges v i = concat (map (\<lambda>etype.
     map (\<lambda>dst. (etype, i, dst)) (tv_neighbors (gv_topo v) etype Out i) @
     map (\<lambda>src. (etype, src, i)) (filter (\<lambda>src. src \<noteq> i) (tv_neighbors (gv_topo v) etype In i))) (tv_etypes (gv_topo v)))"

fun sweep_edges :: "edge_key list \<Rightarrow> delta_layer \<Rightarrow> delta_layer option" where
  "sweep_edges [] l = Some l"
| "sweep_edges (k # ks) l = do { l \<leftarrow> dl_remove_edge l k; sweep_edges ks (l \<lparr> dl_edge_props := ep_remove_edge (dl_edge_props l) k \<rparr>) }"

definition dl_delete_node :: "hash_fn \<Rightarrow> frozen_overlay \<Rightarrow> mapped_base option \<Rightarrow> delta_layer \<Rightarrow> string \<Rightarrow> delta_layer option" where
  "dl_delete_node hash st base l key =
     (let v = dl_view l st base None in
      case gv_node_id hash v key of
        None \<Rightarrow> Some l
      | Some i \<Rightarrow>
          let doomed = doomed_edges v i
          in sweep_edges doomed (l \<lparr> dl_nodes := nl_delete (dl_nodes l) key i, dl_props := pl_remove_all (dl_props l) i \<rparr>))"

definition dl_remove_edge_prop :: "(bytes \<Rightarrow> props option) \<Rightarrow> frozen_overlay \<Rightarrow> mapped_base option \<Rightarrow> delta_layer \<Rightarrow> edge_key \<Rightarrow> string \<Rightarrow> delta_layer" where
  "dl_remove_edge_prop de st base l k field =
     (let props = ev_props_of de (gv_edge_props (dl_view l st base None)) k in
      if fmlookup props field \<noteq> None then l \<lparr> dl_edge_props := ep_replace (dl_edge_props l) k (fmdrop field props) \<rparr> else l)"

definition dl_write_edge_prop :: "hash_fn \<Rightarrow> (bytes \<Rightarrow> props option) \<Rightarrow> frozen_overlay \<Rightarrow> mapped_base option \<Rightarrow> delta_layer
    \<Rightarrow> string \<times> string \<times> string \<Rightarrow> string \<Rightarrow> val option \<Rightarrow> delta_layer" where
  "dl_write_edge_prop hash de st base l k field value =
     (case k of (edge_type, src_key, dst_key) \<Rightarrow>
       let v = dl_view l st base None in
       case (gv_sym v edge_type, gv_node_id hash v src_key, gv_node_id hash v dst_key) of
         (Some etype, Some src, Some dst) \<Rightarrow>
           (case value of
              Some x \<Rightarrow> l \<lparr> dl_edge_props := ep_set (dl_edge_props l) (etype, src, dst) field x \<rparr>
            | None \<Rightarrow> dl_remove_edge_prop de st base l (etype, src, dst) field)
       | _ \<Rightarrow> l)"

definition EDGE_COUNT_PROP :: string where "EDGE_COUNT_PROP = ''count''"

definition dl_intern :: "frozen_overlay \<Rightarrow> delta_layer \<Rightarrow> string \<Rightarrow> u32 \<times> delta_layer" where
  "dl_intern st l name = (case nl_intern (dl_nodes l) (fo_syms st) name of (s, nodes) \<Rightarrow> (s, l \<lparr> dl_nodes := nodes \<rparr>))"

text \<open>The properties of a new node, by field symbol or by name.\<close>

fun set_sym_props :: "frozen_overlay \<Rightarrow> mapped_base option \<Rightarrow> u32 \<Rightarrow> (u32 \<times> val) list \<Rightarrow> delta_layer \<Rightarrow> outcome" where
  "set_sym_props st base i [] l = done_ok l"
| "set_sym_props st base i ((field_sym, value) # ps) l =
     (case gv_sym_name (dl_view l st base None) field_sym of
        None \<Rightarrow> failed l ''mvcc delta: unknown field sym''
      | Some field \<Rightarrow> set_sym_props st base i ps (l \<lparr> dl_props := pl_set (dl_props l) i field value \<rparr>))"

fun set_props :: "u32 \<Rightarrow> (string \<times> val) list \<Rightarrow> delta_layer \<Rightarrow> delta_layer" where
  "set_props i [] l = l"
| "set_props i ((field, value) # ps) l = set_props i ps (l \<lparr> dl_props := pl_set (dl_props l) i field value \<rparr>)"

section \<open>Laying a record over the layer\<close>

fun dl_apply :: "hash_fn \<Rightarrow> (bytes \<Rightarrow> props option) \<Rightarrow> frozen_overlay \<Rightarrow> mapped_base option \<Rightarrow> wal_record \<Rightarrow> delta_layer \<Rightarrow> outcome"
  and dl_apply_all :: "hash_fn \<Rightarrow> (bytes \<Rightarrow> props option) \<Rightarrow> frozen_overlay \<Rightarrow> mapped_base option \<Rightarrow> wal_record list \<Rightarrow> delta_layer \<Rightarrow> outcome" where
  "dl_apply hash de st base (Intern i text) l =
     (case dl_intern st l text of (got, l) \<Rightarrow> if got \<noteq> i then failed l ''mvcc delta intern mismatch'' else done_ok l)"
| "dl_apply hash de st base (InsertNodeId label key props) l =
     (if gv_sym_name (dl_view l st base None) label = None then failed l ''mvcc delta: unknown label sym''
      else do {
        (i, l) \<leftarrow> dl_insert_node hash st base l key label;
        set_sym_props st base i props l })"
| "dl_apply hash de st base (InsertNode label key props) l =
     (case dl_intern st l label of (label_sym, l) \<Rightarrow> do {
        (i, l) \<leftarrow> dl_insert_node hash st base l key label_sym;
        done_ok (set_props i props l) })"
| "dl_apply hash de st base (SetPropId i field value) l =
     (case gv_sym_name (dl_view l st base None) field of
        Some field \<Rightarrow> done_ok (l \<lparr> dl_props := pl_set (dl_props l) i field value \<rparr>)
      | None \<Rightarrow> done_ok l)"
| "dl_apply hash de st base (SetProp key field value) l =
     (case gv_node_id hash (dl_view l st base None) key of
        Some i \<Rightarrow> done_ok (l \<lparr> dl_props := pl_set (dl_props l) i field value \<rparr>)
      | None \<Rightarrow> done_ok l)"
| "dl_apply hash de st base (RemoveProp key field) l =
     (case gv_node_id hash (dl_view l st base None) key of
        Some i \<Rightarrow> done_ok (l \<lparr> dl_props := pl_remove (dl_props l) i field \<rparr>)
      | None \<Rightarrow> done_ok l)"
| "dl_apply hash de st base (DeleteNode key) l = dl_delete_node hash st base l key \<bind> done_ok"
| "dl_apply hash de st base (InsertEdgeId etype src dst) l = dl_add_edge l etype src dst \<bind> done_ok"
| "dl_apply hash de st base (InsertEdge edge_type src_key dst_key) l =
     (case dl_intern st l edge_type of (etype, l) \<Rightarrow>
        let v = dl_view l st base None in
        case (gv_node_id hash v src_key, gv_node_id hash v dst_key) of
          (Some src, Some dst) \<Rightarrow> dl_add_edge l etype src dst \<bind> done_ok
        | _ \<Rightarrow> done_ok l)"
| "dl_apply hash de st base (DeleteEdge edge_type src_key dst_key) l =
     (let v = dl_view l st base None in
      case (gv_sym v edge_type, gv_node_id hash v src_key, gv_node_id hash v dst_key) of
        (Some etype, Some src, Some dst) \<Rightarrow> dl_remove_edge l (etype, src, dst) \<bind> done_ok
      | _ \<Rightarrow> done_ok l)"
| "dl_apply hash de st base (SetEdgeCount etype src dst count) l =
     (if count > 0 then done_ok (l \<lparr> dl_edge_props := ep_set (dl_edge_props l) (etype, src, dst) EDGE_COUNT_PROP (VInt (sint count)) \<rparr>) else done_ok l)"
| "dl_apply hash de st base (SetEdgePropId etype src dst field value) l =
     (case gv_sym_name (dl_view l st base None) field of
        None \<Rightarrow> failed l ''mvcc delta: unknown field sym''
      | Some name \<Rightarrow> done_ok (l \<lparr> dl_edge_props := ep_set (dl_edge_props l) (etype, src, dst) name value \<rparr>))"
| "dl_apply hash de st base (RemoveEdgePropId etype src dst field) l =
     (case gv_sym_name (dl_view l st base None) field of
        None \<Rightarrow> failed l ''mvcc delta: unknown field sym''
      | Some name \<Rightarrow> done_ok (dl_remove_edge_prop de st base l (etype, src, dst) name))"
| "dl_apply hash de st base (RenameNode old_key new_key) l =
     (let v = dl_view l st base None in
      case gv_node_id hash v old_key of
        None \<Rightarrow> done_ok l
      | Some i \<Rightarrow>
          if gv_node_id hash v new_key \<noteq> None then failed l ''mvcc delta RenameNode failed''
          else nl_rename (dl_nodes l) i old_key new_key \<bind> (\<lambda>nodes. done_ok (l \<lparr> dl_nodes := nodes \<rparr>)))"
| "dl_apply hash de st base (Batch inner) l = dl_apply_all hash de st base inner l"
| "dl_apply hash de st base (CreateRule _) l = done_ok l"
| "dl_apply hash de st base (DeleteRule _) l = done_ok l"
| "dl_apply hash de st base (RebuildRule _) l = done_ok l"
| "dl_apply hash de st base (CreateView _) l = done_ok l"
| "dl_apply hash de st base (DeleteView _) l = done_ok l"
| "dl_apply hash de st base (EnableIndex _ _) l = done_ok l"
| "dl_apply hash de st base (DisableIndex _ _) l = done_ok l"
| "dl_apply hash de st base (EnableRangeIndex _ _ _) l = done_ok l"
| "dl_apply hash de st base (DisableRangeIndex _) l = done_ok l"
| "dl_apply hash de st base (CreateConstraint _ _ _) l = done_ok l"
| "dl_apply hash de st base (DropConstraint _) l = done_ok l"
| "dl_apply hash de st base (DerivedEdgeAdded _ _ _ _) l = done_ok l"
| "dl_apply hash de st base (DerivedEdgeRetracted _ _ _ _) l = done_ok l"
| "dl_apply hash de st base (EnableFulltext _ _) l = done_ok l"
| "dl_apply hash de st base (DisableFulltext _ _) l = done_ok l"
| "dl_apply_all hash de st base [] l = done_ok l"
| "dl_apply_all hash de st base (r # rs) l = do {
     (l, err) \<leftarrow> dl_apply hash de st base r l;
     if err = None then dl_apply_all hash de st base rs l else Some (l, err) }"

text \<open>The rest of a committed delta: rule-derived edges, view values and the edge properties written without a record.\<close>

fun try_fold :: "('a \<Rightarrow> 's \<Rightarrow> 's option) \<Rightarrow> 'a list \<Rightarrow> 's \<Rightarrow> 's option" where
  "try_fold f [] s = Some s"
| "try_fold f (x # xs) s = f x s \<bind> try_fold f xs"

definition set_view_value :: "u32 \<times> string \<times> val option \<Rightarrow> delta_layer \<Rightarrow> delta_layer" where
  "set_view_value w l = (case w of (node, view_prop, value) \<Rightarrow>
     l \<lparr> dl_props := (case value of Some x \<Rightarrow> pl_set (dl_props l) node view_prop x | None \<Rightarrow> pl_remove (dl_props l) node view_prop) \<rparr>)"

definition restore_edge_props :: "edge_key \<times> (props option \<times> bool) \<Rightarrow> delta_layer \<Rightarrow> delta_layer" where
  "restore_edge_props w l = (case w of (k, entry) \<Rightarrow> l \<lparr> dl_edge_props := ep_restore_entry (dl_edge_props l) k entry \<rparr>)"

definition dl_apply_delta :: "hash_fn \<Rightarrow> (bytes \<Rightarrow> props option) \<Rightarrow> frozen_overlay \<Rightarrow> mapped_base option \<Rightarrow> commit_delta \<Rightarrow> delta_layer \<Rightarrow> outcome" where
  "dl_apply_delta hash de st base c l = do {
     (l, err) \<leftarrow> dl_apply_all hash de st base (cd_records c) l;
     if err \<noteq> None then Some (l, err)
     else do {
       l \<leftarrow> try_fold (\<lambda>(etype, src, dst) l. dl_add_edge l etype src dst) (cd_derived_inserts c) l;
       l \<leftarrow> try_fold (\<lambda>k l. dl_remove_edge l k) (cd_derived_deletes c) l;
       l \<leftarrow> Some (fold set_view_value (cd_view_values c) l);
       done_ok (fold restore_edge_props (cd_edge_props c) l) } }"

fun dl_extend :: "hash_fn \<Rightarrow> (bytes \<Rightarrow> props option) \<Rightarrow> frozen_overlay \<Rightarrow> mapped_base option \<Rightarrow> commit_delta list \<Rightarrow> delta_layer \<Rightarrow> outcome" where
  "dl_extend hash de st base [] l = done_ok l"
| "dl_extend hash de st base (c # cs) l = do {
     (l, err) \<leftarrow> dl_apply_delta hash de st base c l;
     if err = None then dl_extend hash de st base cs l else Some (l, err) }"

text \<open>\<open>from_deltas\<close> gives a layer or an error.\<close>

definition dl_from_deltas :: "hash_fn \<Rightarrow> (bytes \<Rightarrow> props option) \<Rightarrow> frozen_overlay \<Rightarrow> mapped_base option \<Rightarrow> commit_delta list \<Rightarrow> (graph_error + delta_layer) option" where
  "dl_from_deltas hash de st base deltas = map_option (\<lambda>(l, err). case err of Some e \<Rightarrow> Inl e | None \<Rightarrow> Inr l) (dl_extend hash de st base deltas (dl_new st))"

section \<open>The graph a layer shows\<close>

record graph =
  g_slots :: "string list"
  g_dead :: "u32 set"
  g_keys :: "string \<rightharpoonup> u32"
  g_labels :: "u32 \<Rightarrow> u32 option"
  g_syms :: "string list"
  g_props :: node_props
  g_edges :: "edge_key set"
  g_eprops :: "edge_key \<Rightarrow> props"

definition g_sym :: "graph \<Rightarrow> string \<Rightarrow> u32 option" where
  "g_sym G name = map_option of_nat (position (\<lambda>s. s = name) (g_syms G))"

definition g_intern :: "string \<Rightarrow> graph \<Rightarrow> graph" where
  "g_intern name G = (if name \<in> set (g_syms G) then G else G \<lparr> g_syms := g_syms G @ [name] \<rparr>)"

definition g_insert :: "string \<Rightarrow> u32 \<Rightarrow> graph \<Rightarrow> u32 \<times> graph" where
  "g_insert key lab G =
     (case g_keys G key of
        Some i \<Rightarrow> (i, G \<lparr> g_labels := (g_labels G)(i := as_label lab) \<rparr>)
      | None \<Rightarrow>
          let i = of_nat (length (g_slots G))
          in (i, G \<lparr> g_slots := g_slots G @ [key], g_keys := (g_keys G)(key \<mapsto> i), g_labels := (g_labels G)(i := as_label lab) \<rparr>))"

definition g_set :: "u32 \<Rightarrow> string \<Rightarrow> val option \<Rightarrow> graph \<Rightarrow> graph" where
  "g_set i field x G = G \<lparr> g_props := (g_props G)(i := (g_props G i)(field := x)) \<rparr>"

definition g_eset :: "edge_key \<Rightarrow> props \<Rightarrow> graph \<Rightarrow> graph" where
  "g_eset k m G = G \<lparr> g_eprops := (g_eprops G)(k := m) \<rparr>"

definition at_node :: "u32 \<Rightarrow> edge_key \<Rightarrow> bool" where
  "at_node i k = (case k of (_, src, dst) \<Rightarrow> src = i \<or> dst = i)"

definition g_delete :: "string \<Rightarrow> graph \<Rightarrow> graph" where
  "g_delete key G =
     (case g_keys G key of
        None \<Rightarrow> G
      | Some i \<Rightarrow> G \<lparr> g_dead := insert i (g_dead G), g_keys := (g_keys G)(key := None), g_labels := (g_labels G)(i := None),
          g_edges := {k \<in> g_edges G. \<not> at_node i k}, g_eprops := (\<lambda>k. if k \<in> g_edges G \<and> at_node i k then fmempty else g_eprops G k) \<rparr>)"

fun g_set_syms :: "u32 \<Rightarrow> (u32 \<times> val) list \<Rightarrow> graph \<Rightarrow> graph option" where
  "g_set_syms i [] G = Some G"
| "g_set_syms i ((s, x) # ps) G = (case nth_opt (g_syms G) (unat s) of None \<Rightarrow> None | Some field \<Rightarrow> g_set_syms i ps (g_set i field (Some x) G))"

text \<open>A record as a change of the graph; \<open>None\<close> for a record that does not fit it.\<close>

fun g_apply :: "wal_record \<Rightarrow> graph \<Rightarrow> graph option" and g_apply_all :: "wal_record list \<Rightarrow> graph \<Rightarrow> graph option" where
  "g_apply (Intern i text) G = (let G = g_intern text G in if g_sym G text = Some i then Some G else None)"
| "g_apply (InsertNodeId label key props) G =
     (if unat label < length (g_syms G) then case g_insert key label G of (i, G) \<Rightarrow> g_set_syms i props G else None)"
| "g_apply (InsertNode label key props) G =
     (let G = g_intern label G in case g_insert key (the (g_sym G label)) G of (i, G) \<Rightarrow> Some (fold (\<lambda>(f, x). g_set i f (Some x)) props G))"
| "g_apply (SetPropId i field x) G = (case nth_opt (g_syms G) (unat field) of Some f \<Rightarrow> Some (g_set i f (Some x) G) | None \<Rightarrow> Some G)"
| "g_apply (SetProp key field x) G = (case g_keys G key of Some i \<Rightarrow> Some (g_set i field (Some x) G) | None \<Rightarrow> Some G)"
| "g_apply (RemoveProp key field) G = (case g_keys G key of Some i \<Rightarrow> Some (g_set i field None G) | None \<Rightarrow> Some G)"
| "g_apply (DeleteNode key) G = Some (g_delete key G)"
| "g_apply (InsertEdgeId etype src dst) G = Some (G \<lparr> g_edges := insert (etype, src, dst) (g_edges G) \<rparr>)"
| "g_apply (InsertEdge edge_type src dst) G =
     (let G = g_intern edge_type G in
      case (g_keys G src, g_keys G dst) of
        (Some s, Some d) \<Rightarrow> Some (G \<lparr> g_edges := insert (the (g_sym G edge_type), s, d) (g_edges G) \<rparr>) | _ \<Rightarrow> Some G)"
| "g_apply (DeleteEdge edge_type src dst) G =
     (case (g_sym G edge_type, g_keys G src, g_keys G dst) of
        (Some e, Some s, Some d) \<Rightarrow> Some (G \<lparr> g_edges := g_edges G - {(e, s, d)} \<rparr>) | _ \<Rightarrow> Some G)"
| "g_apply (SetEdgeCount etype src dst count) G =
     Some (if count > 0 then g_eset (etype, src, dst) (fmupd ''count'' (VInt (sint count)) (g_eprops G (etype, src, dst))) G else G)"
| "g_apply (SetEdgePropId etype src dst field x) G =
     (case nth_opt (g_syms G) (unat field) of
        Some f \<Rightarrow> Some (g_eset (etype, src, dst) (fmupd f x (g_eprops G (etype, src, dst))) G) | None \<Rightarrow> None)"
| "g_apply (RemoveEdgePropId etype src dst field) G =
     (case nth_opt (g_syms G) (unat field) of
        Some f \<Rightarrow> Some (g_eset (etype, src, dst) (fmdrop f (g_eprops G (etype, src, dst))) G) | None \<Rightarrow> None)"
| "g_apply (RenameNode old new) G =
     (case g_keys G old of
        None \<Rightarrow> Some G
      | Some i \<Rightarrow>
          if g_keys G new \<noteq> None then None
          else Some (G \<lparr> g_slots := (g_slots G)[unat i := new], g_keys := (g_keys G)(old := None, new \<mapsto> i) \<rparr>))"
| "g_apply (Batch inner) G = g_apply_all inner G"
| "g_apply (CreateRule _) G = Some G"
| "g_apply (DeleteRule _) G = Some G"
| "g_apply (RebuildRule _) G = Some G"
| "g_apply (CreateView _) G = Some G"
| "g_apply (DeleteView _) G = Some G"
| "g_apply (EnableIndex _ _) G = Some G"
| "g_apply (DisableIndex _ _) G = Some G"
| "g_apply (EnableRangeIndex _ _ _) G = Some G"
| "g_apply (DisableRangeIndex _) G = Some G"
| "g_apply (CreateConstraint _ _ _) G = Some G"
| "g_apply (DropConstraint _) G = Some G"
| "g_apply (DerivedEdgeAdded _ _ _ _) G = Some G"
| "g_apply (DerivedEdgeRetracted _ _ _ _) G = Some G"
| "g_apply (EnableFulltext _ _) G = Some G"
| "g_apply (DisableFulltext _ _) G = Some G"
| "g_apply_all [] G = Some G"
| "g_apply_all (r # rs) G = g_apply r G \<bind> g_apply_all rs"

text \<open>How many names and symbols a record can add at most.\<close>

fun weight :: "wal_record \<Rightarrow> nat" where
  "weight (Batch inner) = sum_list (map weight inner)"
| "weight _ = 1"

section \<open>A layer and the graph it shows\<close>

text \<open>What is below: the key table with its slots and retired ids, a label slot for every live node, and the edges.\<close>

definition ground :: "hash_fn \<Rightarrow> frozen_overlay \<Rightarrow> mapped_base option \<Rightarrow> string list \<Rightarrow> u32 set \<Rightarrow> bool" where
  "ground hash st base slots0 dead0 \<longleftrightarrow> (\<exists>K0. im_rel hash (fo_ids st) slots0 dead0 K0) \<and> length (fo_labels st) \<le> length slots0 \<and>
     (\<forall>i. unat i < length slots0 \<longrightarrow> i \<notin> dead0 \<longrightarrow> unat i < length (fo_labels st)) \<and> view_ok (build_tv (fo_topo st) base)"

definition dl_rel :: "(bytes \<Rightarrow> props option) \<Rightarrow> frozen_overlay \<Rightarrow> mapped_base option \<Rightarrow> string list \<Rightarrow> u32 set \<Rightarrow> node_props \<Rightarrow> delta_layer \<Rightarrow> graph \<Rightarrow> bool" where
  "dl_rel de st base slots0 dead0 below l G \<longleftrightarrow>
     nl_names slots0 dead0 (dl_nodes l) (g_slots G) (g_dead G) (g_keys G) \<and>
     length (nl_labels (dl_nodes l)) = length (nl_keys (dl_nodes l)) \<and> gv_label_sym (dl_view l st base None) = g_labels G \<and>
     nl_symbols (fo_syms st) (dl_nodes l) (g_syms G) \<and>
     topo_ok (dl_topo l) \<and> view_edges (gv_topo (dl_view l st base None)) = g_edges G \<and>
     ev_props_of de (gv_edge_props (dl_view l st base None)) = g_eprops G \<and>
     (\<forall>i f. i \<notin> g_dead G \<longrightarrow> (case pl_get (dl_props l) i f of Some own \<Rightarrow> own | None \<Rightarrow> below i f) = g_props G i f)"

lemma dl_view_sel [simp]:
  "gv_ids (dl_view l st base m) = fo_ids st" "gv_syms (dl_view l st base m) = fo_syms st" "gv_labels (dl_view l st base m) = fo_labels st"
  "gv_layer (dl_view l st base m) = Some (dl_nodes l)" "gv_mask (dl_view l st base m) = m"
  "gv_topo (dl_view l st base m) = tv_with_layer (build_tv (fo_topo st) base) (dl_topo l)"
  "gv_edge_props (dl_view l st base m) = ev_with_layer (build_epv (fo_edge_props st) base) (dl_edge_props l)"
  "gv_props (dl_view l st base m) = cw_with_layer (build_cv (fo_props st) base) (dl_props l)"
  by (simp_all add: dl_view_def)

lemma label_nodes: "gv_label_sym (dl_view l st base m) = gv_label_sym (dl_view l' st base m' \<lparr> gv_layer := Some (dl_nodes l) \<rparr>)"
  by (simp add: fun_eq_iff gv_label_sym_def dl_view_def split: option.split)

lemma layer_edges: "view_edges (tv_with_layer w t) = (below_edges (w \<lparr> tv_layer := None \<rparr>) - tombs t) \<union> edges t"
  by (simp add: view_edges_def below_edges_def tv_with_layer_def split: option.split)

lemma layer_eprops: "ev_props_of de (ev_with_layer w p) k = laid_over p k (ev_props_of de (w \<lparr> ev_layer := None \<rparr>) k)"
  by (simp add: ev_props_laid ev_with_layer_def)

lemma dl_relD:
  assumes "dl_rel de st base slots0 dead0 below l G"
  shows "nl_names slots0 dead0 (dl_nodes l) (g_slots G) (g_dead G) (g_keys G)" "length (nl_labels (dl_nodes l)) = length (nl_keys (dl_nodes l))"
    "gv_label_sym (dl_view l st base None) = g_labels G" "nl_symbols (fo_syms st) (dl_nodes l) (g_syms G)" "topo_ok (dl_topo l)"
    "view_edges (gv_topo (dl_view l st base None)) = g_edges G" "ev_props_of de (gv_edge_props (dl_view l st base None)) = g_eprops G"
    "i \<notin> g_dead G \<Longrightarrow> (case pl_get (dl_props l) i f of Some own \<Rightarrow> own | None \<Rightarrow> below i f) = g_props G i f"
  using assms unfolding dl_rel_def by blast+

subsection \<open>Reading names\<close>

lemma node_id_correct:
  assumes "ground hash st base slots0 dead0" "dl_rel de st base slots0 dead0 below l G"
  shows "gv_node_id hash (dl_view l st base m) key = g_keys G key"
  using assms(1) gv_node_id_correct [OF dl_view_sel(4) _ dl_relD(1) [OF assms(2)]] by (auto simp: ground_def)

lemma symbol_at:
  assumes "nl_symbols t l S"
  shows "(nth_opt S (unat (i :: u32)) = Some name) = (map_option of_nat (position (\<lambda>s. s = name) S) = Some i)"
proof -
  have S: "distinct S" "length S < 2 ^ 32" using assms by (auto simp: nl_symbols_def)
  show ?thesis
  proof
    assume i: "nth_opt S (unat i) = Some name"
    then have "unat i < length S" "S ! unat i = name" by (auto simp: nth_opt_def split: if_splits)
    moreover from this obtain k where k: "position (\<lambda>s. s = name) S = Some k" using position_None_iff [of "\<lambda>s. s = name" S] by (metis nth_mem not_None_eq)
    ultimately have "k = unat i" using position_Some [OF k] S(1) by (metis nth_eq_iff_index_eq)
    then show "map_option of_nat (position (\<lambda>s. s = name) S) = Some i" using k by simp
  next
    assume "map_option of_nat (position (\<lambda>s. s = name) S) = Some i"
    then obtain k where "position (\<lambda>s. s = name) S = Some k" "i = of_nat k" by auto
    then show "nth_opt S (unat i) = Some name" using position_Some [of "\<lambda>s. s = name" S k] S(2) unat_of_len [of k] by (simp add: nth_opt_def)
  qed
qed

lemma sym_correct:
  assumes "dl_rel de st base slots0 dead0 below l G"
  shows "gv_sym (dl_view l st base m) name = g_sym G name" "gv_sym_name (dl_view l st base m) s = nth_opt (g_syms G) (unat s)"
proof -
  have S: "nl_symbols (gv_syms (dl_view l st base m)) (dl_nodes l) (g_syms G)" using dl_relD(4) [OF assms] by simp
  have "gv_sym (dl_view l st base m) name = Some i \<longleftrightarrow> g_sym G name = Some i" for i
    unfolding gv_sym_correct [OF dl_view_sel(4) S] symbol_at [OF S] by (simp add: g_sym_def)
  then show "gv_sym (dl_view l st base m) name = g_sym G name" by (metis not_None_eq)
  show "gv_sym_name (dl_view l st base m) s = nth_opt (g_syms G) (unat s)" by (rule gv_sym_name_correct [OF dl_view_sel(4) S])
qed

subsection \<open>Writing one part of the layer\<close>

lemma rel_props:
  assumes "dl_rel de st base slots0 dead0 below l G"
    and "\<And>i f. i \<notin> g_dead G \<Longrightarrow> (case pl_get p i f of Some own \<Rightarrow> own | None \<Rightarrow> below i f) = q i f"
  shows "dl_rel de st base slots0 dead0 below (l \<lparr> dl_props := p \<rparr>) (G \<lparr> g_props := q \<rparr>)"
  using assms label_nodes [of "l \<lparr> dl_props := p \<rparr>" st base None l None] label_nodes [of l st base None l None] by (simp add: dl_rel_def)

lemma rel_set:
  assumes "dl_rel de st base slots0 dead0 below l G"
  shows "dl_rel de st base slots0 dead0 below (l \<lparr> dl_props := pl_set (dl_props l) i f x \<rparr>) (g_set i f (Some x) G)"
    "dl_rel de st base slots0 dead0 below (l \<lparr> dl_props := pl_remove (dl_props l) i f \<rparr>) (g_set i f None G)"
  unfolding g_set_def pl_set_def pl_remove_def using dl_relD(8) [OF assms] by (auto simp: pl_get_entry intro!: rel_props [OF assms])

lemma rel_edges:
  assumes "dl_rel de st base slots0 dead0 below l G" "topo_ok t" "view_edges (tv_with_layer (build_tv (fo_topo st) base) t) = E"
  shows "dl_rel de st base slots0 dead0 below (l \<lparr> dl_topo := t \<rparr>) (G \<lparr> g_edges := E \<rparr>)"
  using assms label_nodes [of "l \<lparr> dl_topo := t \<rparr>" st base None l None] label_nodes [of l st base None l None] by (simp add: dl_rel_def)

lemma rel_eprops:
  assumes "dl_rel de st base slots0 dead0 below l G" "\<And>k. ev_props_of de (ev_with_layer (build_epv (fo_edge_props st) base) p) k = q k"
  shows "dl_rel de st base slots0 dead0 below (l \<lparr> dl_edge_props := p \<rparr>) (G \<lparr> g_eprops := q \<rparr>)"
  using assms label_nodes [of "l \<lparr> dl_edge_props := p \<rparr>" st base None l None] label_nodes [of l st base None l None] by (simp add: dl_rel_def fun_eq_iff)

lemma rel_eset:
  assumes "dl_rel de st base slots0 dead0 below l G"
  shows "dl_rel de st base slots0 dead0 below (l \<lparr> dl_edge_props := ep_set (dl_edge_props l) k f x \<rparr>) (g_eset k (fmupd f x (g_eprops G k)) G)"
    "dl_rel de st base slots0 dead0 below (l \<lparr> dl_edge_props := ep_replace (dl_edge_props l) k m \<rparr>) (g_eset k m G)"
proof -
  have G: "ev_props_of de (ev_with_layer (build_epv (fo_edge_props st) base) (dl_edge_props l)) = g_eprops G" using dl_relD(7) [OF assms] by simp
  show "dl_rel de st base slots0 dead0 below (l \<lparr> dl_edge_props := ep_set (dl_edge_props l) k f x \<rparr>) (g_eset k (fmupd f x (g_eprops G k)) G)"
    "dl_rel de st base slots0 dead0 below (l \<lparr> dl_edge_props := ep_replace (dl_edge_props l) k m \<rparr>) (g_eset k m G)"
    unfolding g_eset_def by (rule rel_eprops [OF assms], simp add: G [symmetric] layer_eprops laid_over_simps)+
qed

lemma rel_eremove:
  assumes "dl_rel de st base slots0 dead0 below l G"
  shows "dl_rel de st base slots0 dead0 below (dl_remove_edge_prop de st base l k f) (g_eset k (fmdrop f (g_eprops G k)) G)"
proof (cases "fmlookup (g_eprops G k) f")
  case None
  then have "fmdrop f (g_eprops G k) = g_eprops G k" by (intro fmap_ext) auto
  then show ?thesis using None assms dl_relD(7) [OF assms] by (simp add: dl_remove_edge_prop_def Let_def g_eset_def)
next
  case (Some x)
  then show ?thesis using rel_eset(2) [OF assms, of k "fmdrop f (g_eprops G k)"] dl_relD(7) [OF assms] by (simp add: dl_remove_edge_prop_def Let_def)
qed

lemma rel_add:
  assumes "dl_rel de st base slots0 dead0 below l G"
  shows "\<exists>l'. dl_add_edge l e s d = Some l' \<and> dl_rel de st base slots0 dead0 below l' (G \<lparr> g_edges := insert (e, s, d) (g_edges G) \<rparr>)"
proof -
  obtain t where t: "add_edge (dl_topo l) e s d = Some ((e, s, d) \<notin> edges (dl_topo l), t)" "topo_ok t"
    "edges t = insert (e, s, d) (edges (dl_topo l))" "tombs t = tombs (dl_topo l)" using add_edge_correct [OF dl_relD(5) [OF assms], of e s d] by blast
  have "view_edges (tv_with_layer (build_tv (fo_topo st) base) t) = insert (e, s, d) (g_edges G)"
    using dl_relD(6) [OF assms] unfolding dl_view_sel layer_edges t(3,4) by blast
  then show ?thesis using rel_edges [OF assms t(2)] t(1) by (simp add: dl_add_edge_def)
qed

lemma rel_remove:
  assumes "dl_rel de st base slots0 dead0 below l G"
  shows "\<exists>t. dl_remove_edge l k = Some (l \<lparr> dl_topo := t \<rparr>) \<and> dl_rel de st base slots0 dead0 below (l \<lparr> dl_topo := t \<rparr>) (G \<lparr> g_edges := g_edges G - {k} \<rparr>)"
proof -
  obtain e s d where k: "k = (e, s, d)" by (metis prod_cases3)
  obtain t1 where t1: "remove_overlay_edge (dl_topo l) e s d = Some (k \<in> edges (dl_topo l), t1)" "topo_ok t1" "edges t1 = edges (dl_topo l) - {k}"
    "out_tombstones t1 = out_tombstones (dl_topo l)" using remove_overlay_correct [OF dl_relD(5) [OF assms], of e s d] unfolding k by blast
  obtain t where t: "remove_edge t1 e s d = Some (TombstonedBase, t)" "topo_ok t" "edges t = edges t1 - {k}" "tombs t = insert k (tombs t1)"
    using remove_edge_correct [OF t1(2), of e s d] t1(3) unfolding k by auto
  have "tombs t1 = tombs (dl_topo l)" by (simp add: tombs_def t1(4))
  then have "view_edges (tv_with_layer (build_tv (fo_topo st) base) t) = g_edges G - {k}"
    using dl_relD(6) [OF assms] unfolding dl_view_sel layer_edges t(3,4) t1(3) by blast
  then show ?thesis using rel_edges [OF assms t(2)] t1(1) t(1) by (auto simp: dl_remove_edge_def k)
qed

subsection \<open>Writing names\<close>

lemma rel_nodes:
  assumes "dl_rel de st base slots0 dead0 below l G" "nl_names slots0 dead0 n slots dead K" "length (nl_labels n) = length (nl_keys n)"
    "gv_label_sym (dl_view l st base None \<lparr> gv_layer := Some n \<rparr>) = L" "nl_symbols (fo_syms st) n S" "g_dead G \<subseteq> dead"
  shows "dl_rel de st base slots0 dead0 below (l \<lparr> dl_nodes := n \<rparr>)
    (G \<lparr> g_slots := slots, g_dead := dead, g_keys := K, g_labels := L, g_syms := S \<rparr>)"
  using assms label_nodes [of "l \<lparr> dl_nodes := n \<rparr>" st base None l None] unfolding dl_rel_def by auto

lemma graph_same [simp]: "G \<lparr> g_slots := g_slots G \<rparr> = G" "G \<lparr> g_dead := g_dead G \<rparr> = G" "G \<lparr> g_keys := g_keys G \<rparr> = G"
  "G \<lparr> g_labels := g_labels G \<rparr> = G" "G \<lparr> g_syms := g_syms G \<rparr> = G"
  by (cases G; simp)+

lemma layer_fits_rel:
  assumes "ground hash st base slots0 dead0" "dl_rel de st base slots0 dead0 below l G"
  shows "layer_fits (dl_view l st base None) (dl_nodes l)"
  using assms(1) nl_namesD(1-3) [OF dl_relD(1) [OF assms(2)]] dl_relD(2) [OF assms(2)] by (simp add: layer_fits_def ground_def)

lemma nl_names_labels:
  "nl_names slots0 dead0 (l \<lparr> nl_labels := a, nl_relabeled := b \<rparr>) = nl_names slots0 dead0 l"
  "nl_names slots0 dead0 (l \<lparr> nl_syms := c, nl_by_sym := d \<rparr>) = nl_names slots0 dead0 l"
  by (simp_all add: nl_names_def fun_eq_iff)

lemma label_same:
  assumes "gv_layer v = Some l"
    "nl_deleted n = nl_deleted l" "nl_id_floor n = nl_id_floor l" "nl_labels n = nl_labels l" "nl_relabeled n = nl_relabeled l"
  shows "gv_label_sym (v \<lparr> gv_layer := Some n \<rparr>) = gv_label_sym v"
  using assms(2-5) by (simp add: fun_eq_iff gv_label_sym_layer [OF assms(1)] gv_label_sym_layer)

lemma nl_symbols_names:
  "nl_sym_floor l' = nl_sym_floor l \<Longrightarrow> nl_syms l' = nl_syms l \<Longrightarrow> nl_by_sym l' = nl_by_sym l \<Longrightarrow> nl_symbols t l' S = nl_symbols t l S"
  by (simp add: nl_symbols_def)

lemma rel_intern:
  assumes "dl_rel de st base slots0 dead0 below l G" "Suc (length (g_syms G)) < 2 ^ 32"
  shows "\<exists>i l'. dl_intern st l name = (i, l') \<and> dl_rel de st base slots0 dead0 below l' (g_intern name G) \<and> g_sym (g_intern name G) name = Some i"
proof -
  let ?S = "if name \<in> set (g_syms G) then g_syms G else g_syms G @ [name]"
  obtain i n where n: "nl_intern (dl_nodes l) (fo_syms st) name = (i, n)" "nl_symbols (fo_syms st) n ?S" "nth_opt ?S (unat i) = Some name"
    "n = dl_nodes l \<lparr> nl_syms := nl_syms n, nl_by_sym := nl_by_sym n \<rparr>" using nl_intern_correct [OF dl_relD(4) [OF assms(1)] assms(2) refl] by blast
  have G: "g_intern name G = G \<lparr> g_syms := ?S \<rparr>" by (simp add: g_intern_def)
  have lab: "gv_label_sym (dl_view l st base None \<lparr> gv_layer := Some n \<rparr>) = g_labels G"
    unfolding dl_relD(3) [OF assms(1), symmetric] by (rule label_same [OF dl_view_sel(4)]) (subst n(4), simp)+
  have len: "nl_labels n = nl_labels (dl_nodes l)" "nl_keys n = nl_keys (dl_nodes l)" by (subst n(4), simp)+
  have names: "nl_names slots0 dead0 n (g_slots G) (g_dead G) (g_keys G)"
    by (subst n(4)) (simp add: nl_names_labels dl_relD(1) [OF assms(1)])
  have "dl_rel de st base slots0 dead0 below (l \<lparr> dl_nodes := n \<rparr>) (g_intern name G)"
    unfolding G using rel_nodes [OF assms(1) names _ lab n(2)] dl_relD(2) [OF assms(1)] len by simp
  moreover have "g_sym (g_intern name G) name = Some i" using n(3) symbol_at [OF n(2), of i name] unfolding G by (simp add: g_sym_def)
  ultimately show ?thesis using n(1) by (simp add: dl_intern_def)
qed

lemma rel_insert:
  assumes g: "ground hash st base slots0 dead0" and r: "dl_rel de st base slots0 dead0 below l G" and "Suc (length (g_slots G)) < 2 ^ 32"
  shows "\<exists>l'. dl_insert_node hash st base l key lab = Some (fst (g_insert key lab G), l') \<and> dl_rel de st base slots0 dead0 below l' (snd (g_insert key lab G))"
proof (cases "g_keys G key")
  case None
  let ?n = "snd (nl_insert (dl_nodes l) key lab)" and ?i = "of_nat (length (g_slots G)) :: u32"
  note N = dl_relD(1) [OF r] and ins = nl_insert_correct [OF dl_relD(1) [OF r] None assms(3), of lab]
  have sym: "nl_symbols (fo_syms st) ?n (g_syms G)" using dl_relD(4) [OF r] by (subst nl_symbols_names [of _ "dl_nodes l"]) (simp_all add: nl_insert_def Let_def)
  have len: "length (nl_labels ?n) = length (nl_keys ?n)" using dl_relD(2) [OF r] by (simp add: nl_insert_def Let_def)
  have "unat i < length (g_slots G)" if "i |\<in>| nl_deleted (dl_nodes l)" for i using nl_namesD(5) [OF N] nl_namesD(6) [OF N, of i] that by auto
  then have lab: "gv_label_sym (dl_view l st base None \<lparr> gv_layer := Some ?n \<rparr>) = (g_labels G)(?i := as_label lab)"
    using nl_insert_label [OF dl_view_sel(4) layer_fits_rel [OF g r], where n = "length (g_slots G)" and key = key and lab = lab] nl_namesD(1,2) [OF N] assms(3) dl_relD(3) [OF r] by simp
  show ?thesis
    using rel_nodes [OF r ins(2) len lab sym] None ins(1) node_id_correct [OF g r]
    by (auto simp: dl_insert_node_def g_insert_def Let_def split: prod.splits)
next
  case (Some i)
  note N = nl_namesD [OF dl_relD(1) [OF r]]
  have i: "unat i < length (g_slots G)" "i \<notin> g_dead G" using N(9) [of key i] Some by auto
  have below: "unat i < length (fo_labels st)" if "unat i < unat (nl_id_floor (dl_nodes l))" using that g i N(1,5) by (auto simp: ground_def)
  obtain n where n: "nl_relabel (dl_nodes l) i lab = Some n" "gv_label_sym (dl_view l st base None \<lparr> gv_layer := Some n \<rparr>) = (g_labels G)(i := as_label lab)"
    "n = dl_nodes l \<lparr> nl_labels := nl_labels n, nl_relabeled := nl_relabeled n \<rparr>" "length (nl_labels n) = length (nl_labels (dl_nodes l))"
    using nl_relabel_label [OF dl_view_sel(4) layer_fits_rel [OF g r], of i lab] i N(1,2,5) below dl_relD(3) [OF r] by auto
  have "nl_sym_floor n = nl_sym_floor (dl_nodes l)" "nl_syms n = nl_syms (dl_nodes l)" "nl_by_sym n = nl_by_sym (dl_nodes l)" by (subst n(3), simp)+
  then have same: "nl_symbols (fo_syms st) n (g_syms G)" using dl_relD(4) [OF r] nl_symbols_names [of n "dl_nodes l"] by simp
  have names: "nl_keys n = nl_keys (dl_nodes l)" "nl_names slots0 dead0 n (g_slots G) (g_dead G) (g_keys G)"
    using dl_relD(1) [OF r] by (subst n(3), simp add: nl_names_labels)+
  have "dl_rel de st base slots0 dead0 below (l \<lparr> dl_nodes := n \<rparr>) (G \<lparr> g_labels := (g_labels G)(i := as_label lab) \<rparr>)"
    using rel_nodes [OF r names(2) _ n(2) same] n(4) names(1) dl_relD(2) [OF r] by simp
  then show ?thesis using n(1) Some node_id_correct [OF g r] by (simp add: dl_insert_node_def g_insert_def)
qed

lemma rel_rename:
  assumes r: "dl_rel de st base slots0 dead0 below l G" and "g_keys G old = Some i" "g_keys G new = None"
  shows "\<exists>n. nl_rename (dl_nodes l) i old new = Some n \<and> dl_rel de st base slots0 dead0 below (l \<lparr> dl_nodes := n \<rparr>)
    (G \<lparr> g_slots := (g_slots G)[unat i := new], g_keys := (g_keys G)(old := None, new \<mapsto> i) \<rparr>)"
proof -
  obtain n where n: "nl_rename (dl_nodes l) i old new = Some n" "nl_names slots0 dead0 n ((g_slots G)[unat i := new]) (g_dead G) ((g_keys G)(old := None, new \<mapsto> i))"
    using nl_rename_correct [OF dl_relD(1) [OF r] assms(2,3)] by blast
  have "nl_sym_floor n = nl_sym_floor (dl_nodes l)" "nl_syms n = nl_syms (dl_nodes l)" "nl_by_sym n = nl_by_sym (dl_nodes l)"
    "nl_labels n = nl_labels (dl_nodes l)" "length (nl_keys n) = length (nl_keys (dl_nodes l))"
    using n(1) by (auto simp: nl_rename_def split: option.splits if_splits)
  then have same: "nl_labels n = nl_labels (dl_nodes l)" "length (nl_keys n) = length (nl_keys (dl_nodes l))" "nl_symbols (fo_syms st) n (g_syms G)"
    using dl_relD(4) [OF r] nl_symbols_names [of n "dl_nodes l"] by simp_all
  have "gv_label_sym (dl_view l st base None \<lparr> gv_layer := Some n \<rparr>) = g_labels G"
    using nl_rename_label [OF dl_view_sel(4) n(1)] dl_relD(3) [OF r] by simp
  then show ?thesis using rel_nodes [OF r n(2) _ _ same(3)] n(1) same dl_relD(2) [OF r] by simp
qed

lemma rel_sweep:
  "dl_rel de st base slots0 dead0 below l G \<Longrightarrow> \<exists>l'. sweep_edges ks l = Some l' \<and> dl_rel de st base slots0 dead0 below l'
     (G \<lparr> g_edges := g_edges G - set ks, g_eprops := (\<lambda>k. if k \<in> set ks then fmempty else g_eprops G k) \<rparr>)"
proof (induction ks arbitrary: l G)
  case Nil
  then show ?case by simp
next
  case (Cons k ks)
  obtain t where t: "dl_remove_edge l k = Some (l \<lparr> dl_topo := t \<rparr>)"
    "dl_rel de st base slots0 dead0 below (l \<lparr> dl_topo := t \<rparr>) (G \<lparr> g_edges := g_edges G - {k} \<rparr>)" using rel_remove [OF Cons(2)] by blast
  let ?p = "ep_remove_edge (dl_edge_props l) k" and ?q = "\<lambda>k'. if k' = k then fmempty else g_eprops G k'"
  have E: "ev_props_of de (ev_with_layer (build_epv (fo_edge_props st) base) (dl_edge_props l)) = g_eprops G" using dl_relD(7) [OF Cons(2)] by simp
  have "dl_rel de st base slots0 dead0 below (l \<lparr> dl_topo := t, dl_edge_props := ?p \<rparr>) (G \<lparr> g_edges := g_edges G - {k}, g_eprops := ?q \<rparr>)"
    by (rule rel_eprops [OF t(2)]) (simp add: E [symmetric] layer_eprops laid_over_simps)
  from Cons(1) [OF this] obtain l' where l': "sweep_edges ks (l \<lparr> dl_topo := t, dl_edge_props := ?p \<rparr>) = Some l'"
    "dl_rel de st base slots0 dead0 below l' (G \<lparr> g_edges := g_edges G - {k} - set ks, g_eprops := (\<lambda>k'. if k' \<in> set ks then fmempty else ?q k') \<rparr>)" by (auto cong: if_cong)
  moreover have "g_edges G - {k} - set ks = g_edges G - set (k # ks)"
    "(\<lambda>k'. if k' \<in> set ks then fmempty else ?q k') = (\<lambda>k'. if k' \<in> set (k # ks) then fmempty else g_eprops G k')" by auto
  ultimately show ?case using t(1) by simp
qed

lemma doomed_set:
  assumes "view_ok (gv_topo v)"
  shows "set (doomed_edges v i) = {k \<in> view_edges (gv_topo v). at_node i k}"
proof -
  have n: "set (tv_neighbors (gv_topo v) e Out i) = {d. (e, i, d) \<in> view_edges (gv_topo v)}" "set (tv_neighbors (gv_topo v) e In i) = {s. (e, s, i) \<in> view_edges (gv_topo v)}" for e
    using tv_neighbors_correct [OF assms] by (simp_all add: star_def)
  show ?thesis unfolding doomed_edges_def using tv_etypes_cover by (fastforce simp: n at_node_def)
qed

lemma view_ok_layer: "view_ok (build_tv t base) \<Longrightarrow> topo_ok tx \<Longrightarrow> view_ok (tv_with_layer (build_tv t base) tx)"
  by (simp add: view_ok_def tv_with_layer_def)

lemma rel_delete:
  assumes g: "ground hash st base slots0 dead0" and r: "dl_rel de st base slots0 dead0 below l G"
  shows "\<exists>l'. dl_delete_node hash st base l key = Some l' \<and> dl_rel de st base slots0 dead0 below l' (g_delete key G)"
proof (cases "g_keys G key")
  case None
  then show ?thesis using r node_id_correct [OF g r] by (simp add: dl_delete_node_def g_delete_def Let_def)
next
  case (Some i)
  let ?v = "dl_view l st base None" and ?n = "nl_delete (dl_nodes l) key i"
  let ?G = "G \<lparr> g_dead := insert i (g_dead G), g_keys := (g_keys G)(key := None), g_labels := (g_labels G)(i := None) \<rparr>"
  have doomed: "set (doomed_edges ?v i) = {k \<in> g_edges G. at_node i k}"
    using doomed_set [of ?v i] view_ok_layer [OF _ dl_relD(5) [OF r]] g dl_relD(6) [OF r] by (simp add: ground_def)
  have same: "nl_labels ?n = nl_labels (dl_nodes l)" "nl_keys ?n = nl_keys (dl_nodes l)" "nl_symbols (fo_syms st) ?n (g_syms G)"
    using dl_relD(4) [OF r] nl_symbols_names [of ?n "dl_nodes l"] by (simp_all add: nl_delete_def Let_def)
  have lab: "gv_label_sym (?v \<lparr> gv_layer := Some ?n \<rparr>) = (g_labels G)(i := None)" using nl_delete_label [OF dl_view_sel(4)] dl_relD(3) [OF r] by simp
  have "dl_rel de st base slots0 dead0 below (l \<lparr> dl_nodes := ?n \<rparr>) ?G"
    using rel_nodes [OF r nl_delete_correct [OF dl_relD(1) [OF r] Some] _ lab same(3)] same dl_relD(2) [OF r] by auto
  from rel_props [OF this, of "pl_remove_all (dl_props l) i" "g_props G"]
  have "dl_rel de st base slots0 dead0 below (l \<lparr> dl_nodes := ?n, dl_props := pl_remove_all (dl_props l) i \<rparr>) ?G"
    using dl_relD(8) [OF r] by (simp add: pl_get_remove_all)
  from rel_sweep [OF this, of "doomed_edges ?v i"] show ?thesis
    using Some node_id_correct [OF g r] unfolding doomed
    by (auto simp: dl_delete_node_def g_delete_def Let_def set_diff_eq cong: conj_cong if_cong)
qed

subsection \<open>Records\<close>

text \<open>A step shows the changed graph, with at most \<open>w\<close> more names and symbols, or reports an error where the graph has no change.\<close>

definition displays :: "(delta_layer \<Rightarrow> graph \<Rightarrow> bool) \<Rightarrow> nat \<Rightarrow> graph \<Rightarrow> outcome \<Rightarrow> graph option \<Rightarrow> bool" where
  "displays rel w G out H \<longleftrightarrow> (\<exists>l err. out = Some (l, err) \<and>
     (case H of
        Some G' \<Rightarrow> err = None \<and> rel l G' \<and> length (g_slots G') \<le> length (g_slots G) + w \<and> length (g_syms G') \<le> length (g_syms G) + w
      | None \<Rightarrow> err \<noteq> None))"

lemma displays_ok: "rel l G' \<Longrightarrow> length (g_slots G') \<le> length (g_slots G) + w \<Longrightarrow> length (g_syms G') \<le> length (g_syms G) + w \<Longrightarrow> displays rel w G (done_ok l) (Some G')"
  by (simp add: displays_def done_ok_def)

lemma displays_failed: "displays rel w G (failed l detail) None"
  by (simp add: displays_def failed_def)

lemma displays_weaken: "displays rel w H out K \<Longrightarrow> length (g_slots H) + w \<le> length (g_slots G) + v \<Longrightarrow> length (g_syms H) + w \<le> length (g_syms G) + v \<Longrightarrow> displays rel v G out K"
  by (auto simp: displays_def split: option.splits)

lemma displays_bind:
  assumes "displays rel w G out H" "\<And>l G'. H = Some G' \<Longrightarrow> rel l G' \<Longrightarrow> length (g_slots G') \<le> length (g_slots G) + w \<Longrightarrow>
    length (g_syms G') \<le> length (g_syms G) + w \<Longrightarrow> displays rel v G' (f l) (g G')"
  shows "displays rel (w + v) G (do { (l, err) \<leftarrow> out; if err = None then f l else Some (l, err) }) (H \<bind> g)"
proof (cases H)
  case None
  then show ?thesis using assms(1) by (auto simp: displays_def)
next
  case (Some G')
  then obtain l where l: "out = Some (l, None)" "rel l G'" "length (g_slots G') \<le> length (g_slots G) + w" "length (g_syms G') \<le> length (g_syms G) + w"
    using assms(1) by (auto simp: displays_def)
  show ?thesis using displays_weaken [OF assms(2) [OF Some l(2-4)]] l Some by simp
qed

lemma g_sizes [simp]:
  "g_slots (g_set i f x G) = g_slots G" "g_syms (g_set i f x G) = g_syms G" "g_slots (g_eset k m G) = g_slots G" "g_syms (g_eset k m G) = g_syms G"
  "g_slots (g_delete key G) = g_slots G" "g_syms (g_delete key G) = g_syms G" "g_slots (g_intern name G) = g_slots G" "g_keys (g_intern name G) = g_keys G"
  "g_edges (g_intern name G) = g_edges G" "g_syms (snd (g_insert key lab G)) = g_syms G"
  by (simp_all add: g_set_def g_eset_def g_delete_def g_intern_def g_insert_def Let_def split: option.split)

lemma g_grow: "length (g_syms (g_intern name G)) \<le> Suc (length (g_syms G))" "length (g_slots (snd (g_insert key lab G))) \<le> Suc (length (g_slots G))"
  by (simp_all add: g_intern_def g_insert_def Let_def split: option.split)

lemma set_props_correct: "dl_rel de st base slots0 dead0 below l G \<Longrightarrow> dl_rel de st base slots0 dead0 below (set_props i ps l) (fold (\<lambda>(f, x). g_set i f (Some x)) ps G)"
proof (induction ps arbitrary: l G)
  case (Cons p ps)
  then show ?case using rel_set(1) [OF Cons(2), of i "fst p" "snd p"] by (cases p) simp
qed simp

lemma fold_set_sizes [simp]:
  "g_slots (fold (\<lambda>(f, x). g_set i f (Some x)) ps G) = g_slots G" "g_syms (fold (\<lambda>(f, x). g_set i f (Some x)) ps G) = g_syms G"
  by (induction ps arbitrary: G) (auto split: prod.split)

lemma set_sym_props_correct: "dl_rel de st base slots0 dead0 below l G \<Longrightarrow> displays (dl_rel de st base slots0 dead0 below) 0 G (set_sym_props st base i ps l) (g_set_syms i ps G)"
proof (induction ps arbitrary: l G)
  case Nil
  then show ?case by (simp add: displays_ok)
next
  case (Cons p ps)
  obtain s x where p: "p = (s, x)" by fastforce
  show ?case
  proof (cases "nth_opt (g_syms G) (unat s)")
    case None
    then show ?thesis using sym_correct(2) [OF Cons(2)] by (simp add: p displays_failed)
  next
    case (Some f)
    then show ?thesis using displays_weaken [OF Cons(1) [OF rel_set(1) [OF Cons(2), of i f x]], of G 0] sym_correct(2) [OF Cons(2)] by (simp add: p)
  qed
qed

lemma apply_flat:
  assumes g: "ground hash st base slots0 dead0" and r: "dl_rel de st base slots0 dead0 below l G" and "\<not> is_batch rec"
    and n: "Suc (length (g_slots G)) < 2 ^ 32" "Suc (length (g_syms G)) < 2 ^ 32"
  shows "displays (dl_rel de st base slots0 dead0 below) 1 G (dl_apply hash de st base rec l) (g_apply rec G)"
proof -
  let ?rel = "dl_rel de st base slots0 dead0 below"
  note names = node_id_correct [OF g r] and syms = sym_correct [OF r]
  obtain s l1 where intern: "dl_intern st l name = (s name, l1 name)" "?rel (l1 name) (g_intern name G)" "g_sym (g_intern name G) name = Some (s name)" for name
    using rel_intern [OF r n(2)] by metis
  show ?thesis
  proof (cases rec)
    case (Intern i name)
    then show ?thesis using intern [of name] g_grow(1) [of name G] by (simp add: Let_def displays_ok displays_failed)
  next
    case (InsertNodeId label key props)
    show ?thesis
    proof (cases "unat label < length (g_syms G)")
      case True
      obtain l' where l': "dl_insert_node hash st base l key label = Some (fst (g_insert key label G), l')" "?rel l' (snd (g_insert key label G))"
        using rel_insert [OF g r n(1)] by blast
      have "displays ?rel 1 G (set_sym_props st base (fst (g_insert key label G)) props l') (g_set_syms (fst (g_insert key label G)) props (snd (g_insert key label G)))"
        by (rule displays_weaken [OF set_sym_props_correct [OF l'(2)]]) (use g_grow(2) [of key label G] in simp_all)
      then show ?thesis using InsertNodeId True l'(1) syms(2) by (auto simp: nth_opt_def split: prod.splits)
    qed (use InsertNodeId syms(2) in \<open>simp add: nth_opt_def displays_failed\<close>)
  next
    case (InsertNode label key props)
    let ?G = "g_intern label G"
    obtain l' where l': "dl_insert_node hash st base (l1 label) key (s label) = Some (fst (g_insert key (s label) ?G), l')" "?rel l' (snd (g_insert key (s label) ?G))"
      using rel_insert [OF g intern(2)] n(1) by fastforce
    have "displays ?rel 1 G (done_ok (set_props i props l')) (Some (fold (\<lambda>(f, x). g_set i f (Some x)) props (snd (g_insert key (s label) ?G))))" for i
      using set_props_correct [OF l'(2), of i props] g_grow(2) [of key "s label" ?G] g_grow(1) [of label G] by (intro displays_ok) simp_all
    then show ?thesis using InsertNode intern(1,3) l'(1) by (auto simp: Let_def split: prod.splits)
  next
    case (SetPropId i f x)
    then show ?thesis using syms(2) r rel_set(1) [OF r] by (auto simp: displays_ok split: option.split)
  next
    case (SetProp key f x)
    then show ?thesis using names r rel_set(1) [OF r] by (auto simp: displays_ok split: option.split)
  next
    case (RemoveProp key f)
    then show ?thesis using names r rel_set(2) [OF r] by (auto simp: displays_ok split: option.split)
  next
    case (DeleteNode key)
    then show ?thesis using rel_delete [OF g r, of key] by (auto simp: displays_ok)
  next
    case (InsertEdgeId e src dst)
    then show ?thesis using rel_add [OF r, of e src dst] by (auto simp: displays_ok)
  next
    case (InsertEdge ty src dst)
    obtain l' where "dl_add_edge (l1 ty) (s ty) a b = Some (l' a b)" "?rel (l' a b) (g_intern ty G \<lparr> g_edges := insert (s ty, a, b) (g_edges G) \<rparr>)" for a b
      using rel_add [OF intern(2) [of ty]] by (metis g_sizes(9))
    then show ?thesis using InsertEdge intern [of ty] node_id_correct [OF g intern(2) [of ty]] g_grow(1) [of ty G]
      by (auto simp: Let_def displays_ok split: option.split)
  next
    case (DeleteEdge ty src dst)
    obtain t where "dl_remove_edge l k = Some (l \<lparr> dl_topo := t k \<rparr>)" "?rel (l \<lparr> dl_topo := t k \<rparr>) (G \<lparr> g_edges := g_edges G - {k} \<rparr>)" for k
      using rel_remove [OF r] by metis
    then show ?thesis using DeleteEdge r names syms(1) by (auto simp: Let_def displays_ok split: option.split)
  next
    case (SetEdgeCount e src dst c)
    then show ?thesis using r rel_eset(1) [OF r] by (simp add: displays_ok EDGE_COUNT_PROP_def)
  next
    case (SetEdgePropId e src dst f x)
    then show ?thesis using syms(2) rel_eset(1) [OF r] by (auto simp: displays_ok displays_failed split: option.split)
  next
    case (RemoveEdgePropId e src dst f)
    then show ?thesis using syms(2) rel_eremove [OF r] by (auto simp: displays_ok displays_failed split: option.split)
  next
    case (RenameNode old key)
    then show ?thesis using names r rel_rename [OF r, of old _ key] by (cases "g_keys G old"; cases "g_keys G key") (auto simp: Let_def displays_ok displays_failed)
  qed (use r assms(3) in \<open>simp_all add: displays_ok\<close>)
qed

lemma apply_each:
  assumes "\<And>r l G. r \<in> set rs \<Longrightarrow> dl_rel de st base slots0 dead0 below l G \<Longrightarrow> length (g_slots G) + weight r < 2 ^ 32 \<Longrightarrow> length (g_syms G) + weight r < 2 ^ 32 \<Longrightarrow>
      displays (dl_rel de st base slots0 dead0 below) (weight r) G (dl_apply hash de st base r l) (g_apply r G)"
    and "dl_rel de st base slots0 dead0 below l G" "length (g_slots G) + sum_list (map weight rs) < 2 ^ 32" "length (g_syms G) + sum_list (map weight rs) < 2 ^ 32"
  shows "displays (dl_rel de st base slots0 dead0 below) (sum_list (map weight rs)) G (dl_apply_all hash de st base rs l) (g_apply_all rs G)"
  using assms
proof (induction rs arbitrary: l G)
  case Nil
  then show ?case by (simp add: displays_ok)
next
  case (Cons r rs)
  have first: "displays (dl_rel de st base slots0 dead0 below) (weight r) G (dl_apply hash de st base r l) (g_apply r G)" using Cons(2-5) by simp
  show ?case
    unfolding list.map sum_list.Cons dl_apply_all.simps g_apply_all.simps
    by (rule displays_bind [OF first], rule Cons(1)) (use Cons(2-5) in auto)
qed

lemma dl_apply_correct:
  assumes g: "ground hash st base slots0 dead0"
  shows "dl_rel de st base slots0 dead0 below l G \<Longrightarrow> length (g_slots G) + weight r < 2 ^ 32 \<Longrightarrow> length (g_syms G) + weight r < 2 ^ 32 \<Longrightarrow>
    displays (dl_rel de st base slots0 dead0 below) (weight r) G (dl_apply hash de st base r l) (g_apply r G)"
proof (induction r arbitrary: l G)
  case (Batch rs)
  then show ?case using apply_each [of rs] by simp
qed (use apply_flat [OF g] in \<open>simp_all del: dl_apply.simps g_apply.simps\<close>)

subsection \<open>Commits\<close>

text \<open>What an entry of the edge properties shows over the properties below.\<close>

definition g_restore :: "(edge_key \<Rightarrow> props) \<Rightarrow> edge_key \<times> (props option \<times> bool) \<Rightarrow> graph \<Rightarrow> graph" where
  "g_restore eb w G = (case w of (k, own, hides) \<Rightarrow> g_eset k (if hides then unwrap_or_empty own else eb k ++\<^sub>f unwrap_or_empty own) G)"

definition g_delta :: "(edge_key \<Rightarrow> props) \<Rightarrow> commit_delta \<Rightarrow> graph \<Rightarrow> graph option" where
  "g_delta eb c G = do {
     G \<leftarrow> g_apply_all (cd_records c) G;
     G \<leftarrow> Some (G \<lparr> g_edges := (g_edges G \<union> set (cd_derived_inserts c)) - set (cd_derived_deletes c) \<rparr>);
     G \<leftarrow> Some (fold (\<lambda>(i, f, x). g_set i f x) (cd_view_values c) G);
     Some (fold (g_restore eb) (cd_edge_props c) G) }"

fun g_deltas :: "(edge_key \<Rightarrow> props) \<Rightarrow> commit_delta list \<Rightarrow> graph \<Rightarrow> graph option" where
  "g_deltas eb [] G = Some G"
| "g_deltas eb (c # cs) G = g_delta eb c G \<bind> g_deltas eb cs"

definition delta_weight :: "commit_delta \<Rightarrow> nat" where
  "delta_weight c = sum_list (map weight (cd_records c))"

lemma laid_restore:
  "laid_over (ep_restore_entry p k e) k' below =
     (if k' = k then if snd e then unwrap_or_empty (fst e) else below ++\<^sub>f unwrap_or_empty (fst e) else laid_over p k' below)"
  by (auto simp: laid_over_def ep_restore_entry_def unwrap_or_empty_def split: option.split)

lemma graph_edges_same [simp]: "G \<lparr> g_edges := g_edges G \<rparr> = G"
  by (cases G) simp

lemma rel_adds: "dl_rel de st base slots0 dead0 below l G \<Longrightarrow>
  \<exists>l'. try_fold (\<lambda>(etype, src, dst) l. dl_add_edge l etype src dst) ks l = Some l' \<and> dl_rel de st base slots0 dead0 below l' (G \<lparr> g_edges := g_edges G \<union> set ks \<rparr>)"
proof (induction ks arbitrary: l G)
  case (Cons k ks)
  obtain e s d where k: "k = (e, s, d)" by (metis prod_cases3)
  obtain l1 where l1: "dl_add_edge l e s d = Some l1" "dl_rel de st base slots0 dead0 below l1 (G \<lparr> g_edges := insert k (g_edges G) \<rparr>)"
    using rel_add [OF Cons(2), of e s d] k by blast
  then show ?case using Cons(1) [OF l1(2)] by (simp add: k)
qed simp

lemma rel_removes: "dl_rel de st base slots0 dead0 below l G \<Longrightarrow>
  \<exists>l'. try_fold (\<lambda>k l. dl_remove_edge l k) ks l = Some l' \<and> dl_rel de st base slots0 dead0 below l' (G \<lparr> g_edges := g_edges G - set ks \<rparr>)"
proof (induction ks arbitrary: l G)
  case (Cons k ks)
  obtain l1 where l1: "dl_remove_edge l k = Some l1" "dl_rel de st base slots0 dead0 below l1 (G \<lparr> g_edges := g_edges G - {k} \<rparr>)"
    using rel_remove [OF Cons(2), of k] by blast
  moreover have "g_edges G - {k} - set ks = g_edges G - set (k # ks)" by auto
  ultimately show ?case using Cons(1) [OF l1(2)] by simp
qed simp

lemma rel_view_values:
  "dl_rel de st base slots0 dead0 below l G \<Longrightarrow> dl_rel de st base slots0 dead0 below (fold set_view_value vs l) (fold (\<lambda>(i, f, x). g_set i f x) vs G)"
proof (induction vs arbitrary: l G)
  case (Cons w vs)
  obtain i f x where w: "w = (i, f, x)" by (metis prod_cases3)
  have "dl_rel de st base slots0 dead0 below (set_view_value w l) (g_set i f x G)"
    using rel_set [OF Cons(2), of i f] by (cases x) (simp_all add: w set_view_value_def)
  then show ?case using Cons(1) w by simp
qed simp

lemma rel_restores:
  assumes "eb = ev_props_of de (build_epv (fo_edge_props st) base)"
  shows "dl_rel de st base slots0 dead0 below l G \<Longrightarrow> dl_rel de st base slots0 dead0 below (fold restore_edge_props es l) (fold (g_restore eb) es G)"
proof (induction es arbitrary: l G)
  case (Cons w es)
  obtain k own hides where w: "w = (k, own, hides)" by (metis prod_cases3)
  have E: "ev_props_of de (ev_with_layer (build_epv (fo_edge_props st) base) (dl_edge_props l)) = g_eprops G" using dl_relD(7) [OF Cons(2)] by simp
  have none: "build_epv (fo_edge_props st) base \<lparr> ev_layer := None \<rparr> = build_epv (fo_edge_props st) base"
    by (simp add: build_epv_def ev_owned_def ev_with_base_def split: option.split)
  have "dl_rel de st base slots0 dead0 below (restore_edge_props w l) (g_restore eb w G)"
    unfolding w restore_edge_props_def g_restore_def g_eset_def prod.case
    by (rule rel_eprops [OF Cons(2)]) (simp add: E [symmetric] layer_eprops laid_restore none assms)
  then show ?case using Cons(1) by simp
qed simp

lemma fold_sizes [simp]:
  "g_slots (fold (\<lambda>(i, f, x). g_set i f x) vs G) = g_slots G" "g_syms (fold (\<lambda>(i, f, x). g_set i f x) vs G) = g_syms G"
  "g_slots (fold (g_restore eb) es G) = g_slots G" "g_syms (fold (g_restore eb) es G) = g_syms G"
  by (induction vs arbitrary: G, auto split: prod.split) (induction es arbitrary: G, auto simp: g_restore_def split: prod.split)+

lemma dl_apply_delta_correct:
  assumes g: "ground hash st base slots0 dead0" and r: "dl_rel de st base slots0 dead0 below l G"
    and "length (g_slots G) + delta_weight c < 2 ^ 32" "length (g_syms G) + delta_weight c < 2 ^ 32" "eb = ev_props_of de (build_epv (fo_edge_props st) base)"
  shows "displays (dl_rel de st base slots0 dead0 below) (delta_weight c) G (dl_apply_delta hash de st base c l) (g_delta eb c G)"
proof -
  let ?rel = "dl_rel de st base slots0 dead0 below"
  have recs: "displays ?rel (delta_weight c) G (dl_apply_all hash de st base (cd_records c) l) (g_apply_all (cd_records c) G)"
    unfolding delta_weight_def by (rule apply_each [OF dl_apply_correct [OF g] r]) (use assms(3,4) in \<open>simp_all add: delta_weight_def\<close>)
  show ?thesis
  proof (cases "g_apply_all (cd_records c) G")
    case None
    then show ?thesis using recs by (auto simp: displays_def g_delta_def dl_apply_delta_def)
  next
    case (Some H)
    then obtain l1 where l1: "dl_apply_all hash de st base (cd_records c) l = Some (l1, None)" "?rel l1 H"
      "length (g_slots H) \<le> length (g_slots G) + delta_weight c" "length (g_syms H) \<le> length (g_syms G) + delta_weight c" using recs by (auto simp: displays_def)
    obtain l2 where l2: "try_fold (\<lambda>(etype, src, dst) l. dl_add_edge l etype src dst) (cd_derived_inserts c) l1 = Some l2"
      "?rel l2 (H \<lparr> g_edges := g_edges H \<union> set (cd_derived_inserts c) \<rparr>)" using rel_adds [OF l1(2)] by blast
    obtain l3 where l3: "try_fold (\<lambda>k l. dl_remove_edge l k) (cd_derived_deletes c) l2 = Some l3"
      "?rel l3 (H \<lparr> g_edges := g_edges H \<union> set (cd_derived_inserts c) - set (cd_derived_deletes c) \<rparr>)" using rel_removes [OF l2(2)] by auto
    show ?thesis
      using Some l1 l2(1) l3(1) rel_restores [OF assms(5) rel_view_values [OF l3(2)]] by (simp add: dl_apply_delta_def g_delta_def displays_ok)
  qed
qed

lemma dl_extend_correct:
  assumes g: "ground hash st base slots0 dead0" and "eb = ev_props_of de (build_epv (fo_edge_props st) base)"
  shows "dl_rel de st base slots0 dead0 below l G \<Longrightarrow> length (g_slots G) + sum_list (map delta_weight cs) < 2 ^ 32 \<Longrightarrow>
    length (g_syms G) + sum_list (map delta_weight cs) < 2 ^ 32 \<Longrightarrow>
    displays (dl_rel de st base slots0 dead0 below) (sum_list (map delta_weight cs)) G (dl_extend hash de st base cs l) (g_deltas eb cs G)"
proof (induction cs arbitrary: l G)
  case (Cons c cs)
  have first: "displays (dl_rel de st base slots0 dead0 below) (delta_weight c) G (dl_apply_delta hash de st base c l) (g_delta eb c G)"
    using dl_apply_delta_correct [OF g Cons(2) _ _ assms(2)] Cons(3,4) by simp
  show ?case
    unfolding list.map sum_list.Cons dl_extend.simps g_deltas.simps by (rule displays_bind [OF first], rule Cons(1)) (use Cons(3,4) in auto)
qed (simp add: displays_ok)

text \<open>A transaction's write of a relationship property, named by its type and end keys.\<close>

lemma rel_write_edge_prop:
  assumes "ground hash st base slots0 dead0" "dl_rel de st base slots0 dead0 below l G"
  shows "dl_rel de st base slots0 dead0 below (dl_write_edge_prop hash de st base l (ty, src, dst) f x)
    (case (g_sym G ty, g_keys G src, g_keys G dst) of
       (Some e, Some a, Some b) \<Rightarrow> g_eset (e, a, b) (case x of Some x \<Rightarrow> fmupd f x (g_eprops G (e, a, b)) | None \<Rightarrow> fmdrop f (g_eprops G (e, a, b))) G | _ \<Rightarrow> G)"
  using assms(2) node_id_correct [OF assms] sym_correct(1) [OF assms(2)] rel_eset(1) [OF assms(2)] rel_eremove [OF assms(2)]
  by (auto simp: dl_write_edge_prop_def Let_def split: option.split)

section \<open>Properties\<close>

text \<open>The graph of a fold over its base; \<open>P\<close> are its node properties.\<close>

definition fold_graph :: "(bytes \<Rightarrow> props option) \<Rightarrow> frozen_overlay \<Rightarrow> mapped_base option \<Rightarrow> string list \<Rightarrow> u32 set \<Rightarrow> (string \<rightharpoonup> u32) \<Rightarrow> node_props \<Rightarrow> graph" where
  "fold_graph de st base slots dead K P = \<lparr> g_slots = slots, g_dead = dead, g_keys = K, g_labels = (\<lambda>i. nth_opt (fo_labels st) (unat i) \<bind> as_label),
     g_syms = in_to_str (fo_syms st), g_props = P, g_edges = view_edges (build_tv (fo_topo st) base), g_eprops = ev_props_of de (build_epv (fo_edge_props st) base) \<rparr>"

lemma build_layers:
  "tv_layer (build_tv t base) = None" "ev_layer (build_epv p base) = None" "cw_layer (build_cv c base) = None" "cw_overlay (build_cv c base) = c"
  by (simp_all add: build_tv_def tv_owned_def tv_with_base_def build_epv_def ev_owned_def ev_with_base_def build_cv_def cw_owned_def cw_with_base_def
      cw_with_shared_strings_def split: option.split)

lemma dl_new_rel:
  assumes "ground hash st base slots dead" "im_rel hash (fo_ids st) slots dead K" "length slots < 2 ^ 32" "in_inv (fo_syms st)" "in_len (fo_syms st) < 2 ^ 32"
  shows "dl_rel de st base slots dead P (dl_new st) (fold_graph de st base slots dead K P)"
proof -
  have floor: "unat (nl_id_floor (nl_new (fo_ids st) (fo_syms st))) = length slots" using nl_namesD(1) [OF nl_new_names [OF assms(2,3)]] .
  have "gv_label_sym (dl_view (dl_new st) st base None) = (\<lambda>i. nth_opt (fo_labels st) (unat i) \<bind> as_label)"
    unfolding fun_eq_iff gv_label_sym_layer [OF dl_view_sel(4)] using floor assms(1)
    by (auto simp: dl_new_def nl_new_def nth_opt_def ground_def)
  moreover have "below_edges (build_tv (fo_topo st) base \<lparr> tv_layer := None \<rparr>) = view_edges (build_tv (fo_topo st) base)"
    by (simp add: view_edges_def build_layers below_edges_def split: option.split)
  ultimately show ?thesis
    using nl_new_names [OF assms(2,3), of "fo_syms st"] nl_new_symbols [OF assms(4,5), of "fo_ids st"] topo_new_ok
    by (simp add: dl_rel_def fold_graph_def dl_new_def nl_new_def layer_edges fun_eq_iff layer_eprops pl_get_def pl_new_def)
      (simp add: build_layers ev_props_laid)
qed

lemma layered_below:
  "layered de (cw_with_layer (build_cv c base) p) M T i f = (case pl_get p i f of Some own \<Rightarrow> own | None \<Rightarrow> layered de (build_cv c base) M T i f)"
  by (simp add: layered_def cw_with_layer_def build_layers split: option.split)

text \<open>What a view of a layer answers when it shows the graph \<open>G\<close>: names both ways, labels, symbols both ways, neighbours, edge properties and the
  properties of the nodes that are not retired.\<close>

definition answers :: "hash_fn \<Rightarrow> (bytes \<Rightarrow> props option) \<Rightarrow> column_decoder \<Rightarrow> graph_view \<Rightarrow> graph \<Rightarrow> bool" where
  "answers hash de dc v G \<longleftrightarrow>
     (\<forall>key. gv_node_id hash v key = g_keys G key) \<and> (\<forall>i. gv_try_key_of v i = Some (if i \<in> g_dead G then None else nth_opt (g_slots G) (unat i))) \<and>
     (\<forall>i. gv_label_sym v i = g_labels G i) \<and> (\<forall>name. gv_sym v name = g_sym G name) \<and> (\<forall>s. gv_sym_name v s = nth_opt (g_syms G) (unat s)) \<and>
     (\<forall>e i. tv_neighbors (gv_topo v) e Out i = sorted_list_of_set {d. (e, i, d) \<in> g_edges G} \<and>
        tv_neighbors (gv_topo v) e In i = sorted_list_of_set {s. (e, s, i) \<in> g_edges G}) \<and>
     (\<forall>k. ev_props_of de (gv_edge_props v) k = g_eprops G k) \<and>
     (\<forall>i f. i \<notin> g_dead G \<longrightarrow> (\<exists>cache. gv_prop dc v None i f = Some (g_props G i f, cache)))"

lemma layer_answers:
  assumes g: "ground hash st base slots0 dead0" and "im_rel hash (fo_ids st) slots0 dead0 K0"
    and r: "dl_rel de st base slots0 dead0 (layered dc (build_cv (fo_props st) base) M T) l G" and "cs_rel hash n (fo_props st) M T"
  shows "answers hash de dc (dl_view l st base m) G"
proof -
  have cs: "cs_rel hash n (cw_overlay (cw_with_layer (build_cv (fo_props st) base) (dl_props l))) M T" using assms(4) by (simp add: cw_with_layer_def build_layers)
  have ok: "view_ok (tv_with_layer (build_tv (fo_topo st) base) (dl_topo l))" using view_ok_layer dl_relD(5) [OF r] g by (simp add: ground_def)
  have lab: "gv_label_sym (dl_view l st base m) = g_labels G"
    using dl_relD(3) [OF r] label_nodes [of l st base m l None] label_nodes [of l st base None l None] by simp
  have "\<exists>cache. gv_prop dc (dl_view l st base m) None i f = Some (g_props G i f, cache)" if "i \<notin> g_dead G" for i f
    using cw_get_correct [OF cs, of dc None i f] dl_relD(8) [OF r that, of f] by (auto simp: gv_prop_def layered_below cache_ok_def)
  then show ?thesis
    unfolding answers_def using node_id_correct [OF g r] gv_try_key_of_correct [OF dl_view_sel(4) _ dl_relD(1) [OF r]] assms(2) lab sym_correct [OF r]
      tv_neighbors_correct [OF ok] dl_relD(6,7) [OF r] by (auto simp: star_def)
qed

text \<open>C4: a reader sees the graph its commits make. Over a fold whose key table, symbols, edges and columns are in order, laying any commits over it,
  each with its records, derived edges, view values and edge properties, never panics. It fails exactly when a record does not fit the graph: a
  symbol under another number, an unknown symbol, a rename onto a live key. Otherwise the view through the layer answers for the graph after those
  commits: names of nodes both ways, labels, symbols, neighbours in order, edge properties, and the properties of every node that is not retired;
  a deleted node's edges and their properties are gone.\<close>

theorem reader_sees_commits:
  assumes "ground hash st base slots dead" "im_rel hash (fo_ids st) slots dead K" "in_inv (fo_syms st)"
    and "length slots + sum_list (map delta_weight cs) < 2 ^ 32" "in_len (fo_syms st) + sum_list (map delta_weight cs) < 2 ^ 32"
    and "length ops \<le> 2 ^ 32" "run_props (cs_step hash) ops cs_new = Some (fo_props st)"
  shows "case g_deltas (ev_props_of de (build_epv (fo_edge_props st) base)) cs (fold_graph de st base slots dead K
      (layered dc (build_cv (fo_props st) base) (fold props_spec ops (\<lambda>_. Map.empty)) (fold tombs_spec ops {}))) of
      Some G \<Rightarrow> \<exists>l. dl_from_deltas hash de st base cs = Some (Inr l) \<and> answers hash de dc (dl_view l st base m) G
    | None \<Rightarrow> \<exists>e. dl_from_deltas hash de st base cs = Some (Inl e)"
proof -
  let ?M = "fold props_spec ops (\<lambda>_. Map.empty)" and ?T = "fold tombs_spec ops {}"
  let ?P = "layered dc (build_cv (fo_props st) base) ?M ?T" and ?eb = "ev_props_of de (build_epv (fo_edge_props st) base)"
  have cs: "cs_rel hash (length ops) (fo_props st) ?M ?T" using cs.run_start [OF assms(6), of hash] assms(7) by simp
  have new: "dl_rel de st base slots dead ?P (dl_new st) (fold_graph de st base slots dead K ?P)" using dl_new_rel [OF assms(1,2) _ assms(3)] assms(4,5) by simp
  have "displays (dl_rel de st base slots dead ?P) (sum_list (map delta_weight cs)) (fold_graph de st base slots dead K ?P)
      (dl_extend hash de st base cs (dl_new st)) (g_deltas ?eb cs (fold_graph de st base slots dead K ?P))"
    by (rule dl_extend_correct [OF assms(1) refl new]) (use assms(4,5) in \<open>simp_all add: fold_graph_def in_len_def\<close>)
  then show ?thesis
    using layer_answers [OF assms(1,2) _ cs]
    by (cases "g_deltas ?eb cs (fold_graph de st base slots dead K ?P)") (auto simp: displays_def dl_from_deltas_def)
qed

definition empty_fold :: frozen_overlay where
  "empty_fold = \<lparr> fo_ids = im_new, fo_syms = in_new, fo_topo = topo_new, fo_props = cs_new, fo_labels = [], fo_edge_props = ep_new \<rparr>"

definition small_commit :: commit_delta where
  "small_commit = \<lparr> cd_records = [Intern 0 ''L'', InsertNodeId 0 ''a'' [(0, VInt 7)], InsertNode ''L'' ''b'' [], InsertEdgeId 0 0 1, RenameNode ''b'' ''c'', DeleteNode ''a''],
     cd_derived_inserts = [(0, 1, 1)], cd_derived_deletes = [], cd_view_values = [(1, ''seen'', Some (VInt 1))], cd_edge_props = [] \<rparr>"

theorem reader_sees_commits_witness:
  "\<exists>l. dl_from_deltas (\<lambda>_. 5) (\<lambda>_. None) empty_fold None [small_commit] = Some (Inr l) \<and>
     (let v = dl_view l empty_fold None None in gv_node_id (\<lambda>_. 5) v ''c'' = Some 1 \<and> gv_node_id (\<lambda>_. 5) v ''a'' = None \<and> gv_try_key_of v 0 = Some None \<and>
        gv_label_sym v 1 = Some 0 \<and> tv_neighbors (gv_topo v) 0 In 1 = [1] \<and> (\<exists>cache. gv_prop (\<lambda>_. None) v None 1 ''seen'' = Some (Some (VInt 1), cache)))"
proof -
  let ?P = "layered (\<lambda>_. None) (build_cv (fo_props empty_fold) None) (fold props_spec [] (\<lambda>_. Map.empty)) (fold tombs_spec [] {})"
  let ?eb = "ev_props_of (\<lambda>_. None) (build_epv (fo_edge_props empty_fold) None)" and ?G = "fold_graph (\<lambda>_. None) empty_fold None [] {} Map.empty ?P"
  have ok: "ground (\<lambda>_. 5) empty_fold None [] {}" "im_rel (\<lambda>_. 5) (fo_ids empty_fold) [] {} Map.empty"
    using im_new_rel [of "\<lambda>_. 5"] topo_new_ok by (auto simp: ground_def empty_fold_def build_tv_def tv_owned_def view_ok_def)
  have small: "in_inv (fo_syms empty_fold)" "in_len (fo_syms empty_fold) = 0" "delta_weight small_commit = 6" "fo_props empty_fold = cs_new"
    using in_new_inv by (simp_all add: empty_fold_def in_len_def in_new_def delta_weight_def small_commit_def)
  have none: "view_edges (tv_owned topo_new) = {}" using topo_new_ok by (simp add: view_edges_def below_edges_def tv_owned_def)
  have "\<exists>G. g_deltas ?eb [small_commit] ?G = Some G \<and> g_keys G ''c'' = Some 1 \<and> g_keys G ''a'' = None \<and> 0 \<in> g_dead G \<and> 1 \<notin> g_dead G \<and> g_labels G 1 = Some 0 \<and>
      g_edges G = {(0, 1, 1)} \<and> g_props G 1 ''seen'' = Some (VInt 1)"
    by (auto simp: g_delta_def small_commit_def fold_graph_def empty_fold_def in_new_def g_intern_def g_sym_def g_insert_def g_set_def g_delete_def at_node_def Let_def
        as_label_def U32_MAX_def nth_opt_def none build_tv_def)
  then obtain G where G: "g_deltas ?eb [small_commit] ?G = Some G" "g_keys G ''c'' = Some 1" "g_keys G ''a'' = None" "0 \<in> g_dead G" "1 \<notin> g_dead G" "g_labels G 1 = Some 0"
    "g_edges G = {(0, 1, 1)}" "g_props G 1 ''seen'' = Some (VInt 1)" by blast
  have "\<exists>l. dl_from_deltas (\<lambda>_. 5) (\<lambda>_. None) empty_fold None [small_commit] = Some (Inr l) \<and> answers (\<lambda>_. 5) (\<lambda>_. None) (\<lambda>_. None) (dl_view l empty_fold None None) G"
    using reader_sees_commits [OF ok, where cs = "[small_commit]" and ops = "[]" and de = "\<lambda>_. None" and dc = "\<lambda>_. None" and m = None] small
    unfolding G(1) by simp
  then obtain l where l: "dl_from_deltas (\<lambda>_. 5) (\<lambda>_. None) empty_fold None [small_commit] = Some (Inr l)"
    "answers (\<lambda>_. 5) (\<lambda>_. None) (\<lambda>_. None) (dl_view l empty_fold None None) G" by blast
  have "\<exists>cache. gv_prop (\<lambda>_. None) (dl_view l empty_fold None None) None 1 ''seen'' = Some (Some (VInt 1), cache)"
    using l(2) G(5,8) unfolding answers_def by metis
  moreover have "{s. (0, s, 1) \<in> g_edges G} = {1}" using G(7) by auto
  ultimately show ?thesis using l G(2-6) by (auto simp: answers_def)
qed

end
