(* ===== verification/Traverse.thy ===== *)
theory Traverse
  imports Graph_View
begin

text \<open>
  Expansion of a node and the breadth-first neighbourhood of one (\<open>crates/core-query/src/traverse.rs\<close>) over a view. An \<open>EdgeRef\<close> is the triple of
  its type and ends, in the order its fields compare; a \<open>BTreeSet\<close> is a finite set.
\<close>

datatype dir = DOut | DIn | DBoth

type_synonym edge_ref = "u32 \<times> u32 \<times> u32"

definition push_unique :: "edge_ref \<Rightarrow> edge_ref list \<times> edge_ref fset \<Rightarrow> edge_ref list \<times> edge_ref fset" where
  "push_unique e st = (case st of (out, seen) \<Rightarrow> if e |\<in>| seen then (out, seen) else (out @ [e], finsert e seen))"

definition expand_types :: "graph_view \<Rightarrow> u32 list option \<Rightarrow> u32 list" where
  "expand_types v tys = (case tys of Some ts \<Rightarrow> sort_dedup ts | None \<Rightarrow> tv_etypes (gv_topo v))"

definition expand_type :: "graph_view \<Rightarrow> u32 \<Rightarrow> dir \<Rightarrow> u32 \<Rightarrow> edge_ref list \<times> edge_ref fset \<Rightarrow> edge_ref list \<times> edge_ref fset" where
  "expand_type v i dir etype st =
     (let st = (if dir = DOut \<or> dir = DBoth then fold (\<lambda>dst. push_unique (etype, i, dst)) (tv_neighbors (gv_topo v) etype Out i) st else st)
      in if dir = DIn \<or> dir = DBoth then fold (\<lambda>src. push_unique (etype, src, i)) (tv_neighbors (gv_topo v) etype In i) st else st)"

definition expand :: "graph_view \<Rightarrow> u32 \<Rightarrow> u32 list option \<Rightarrow> dir \<Rightarrow> edge_ref list" where
  "expand v i tys dir = fst (fold (expand_type v i dir) (expand_types v tys) ([], {||}))"

record neighborhood =
  nh_nodes :: "(u32 \<times> u32) list"
  nh_edges :: "edge_ref list"

text \<open>The state of the search, and one edge of the node it is at.\<close>

record walk =
  visited :: "u32 fset"
  queue :: "(u32 \<times> u32) list"
  found :: "(u32 \<times> u32) list"
  taken :: "edge_ref fset"

definition other_end :: "u32 \<Rightarrow> edge_ref \<Rightarrow> u32" where
  "other_end i e = (case e of (_, src, dst) \<Rightarrow> if src = i then dst else src)"

definition follow :: "graph_view \<Rightarrow> u32 \<Rightarrow> u32 \<Rightarrow> edge_ref \<Rightarrow> walk \<Rightarrow> walk" where
  "follow v i d e s =
     (let nbr = other_end i e in
      if \<not> gv_visible v nbr then s
      else
        let s = s \<lparr> taken := finsert e (taken s) \<rparr> in
        if nbr |\<in>| visited s then s
        else let nd = d + 1 in s \<lparr> visited := finsert nbr (visited s), found := found s @ [(nbr, nd)], queue := queue s @ [(nbr, nd)] \<rparr>)"

text \<open>One turn of the loop.\<close>

definition search_turn :: "graph_view \<Rightarrow> u32 \<Rightarrow> u32 list option \<Rightarrow> dir \<Rightarrow> walk \<Rightarrow> walk" where
  "search_turn v depth tys dir s =
     (case queue s of
        [] \<Rightarrow> s
      | (i, d) # rest \<Rightarrow>
          let s = s \<lparr> queue := rest \<rparr> in
          if d \<ge> depth then s else fold (follow v i d) (expand v i tys dir) s)"

section \<open>The loop ends\<close>

lemma card_u32: "card (fset (A :: u32 fset)) \<le> 2 ^ 32"
proof -
  have "card (fset A) \<le> card (UNIV :: u32 set)" by (rule card_mono) simp_all
  then show ?thesis by (simp add: card_word)
qed

text \<open>Every node waiting has been visited once, so the queue grows only as the visited nodes do.\<close>

lemma follow_balance: "length (queue (follow v i d e s)) + card (fset (visited s)) = length (queue s) + card (fset (visited (follow v i d e s)))"
  by (simp add: follow_def Let_def)

lemma follows_balance:
  "length (queue (fold (follow v i d) es s)) + card (fset (visited s)) = length (queue s) + card (fset (visited (fold (follow v i d) es s)))"
proof (induction es arbitrary: s)
  case (Cons e es)
  show ?case using follow_balance [of v i d e s] Cons [of "follow v i d e s"] by simp
qed simp

lemma search_turn_balance:
  "queue s \<noteq> [] \<Longrightarrow>
     Suc (length (queue (search_turn v depth tys dir s)) + card (fset (visited s))) = length (queue s) + card (fset (visited (search_turn v depth tys dir s)))"
proof -
  assume "queue s \<noteq> []"
  then obtain i d rest where q: "queue s = (i, d) # rest" by (metis list.exhaust prod.collapse)
  then show ?thesis using follows_balance [of v i d "expand v i tys dir" "s \<lparr> queue := rest \<rparr>"] by (auto simp: search_turn_def Let_def)
qed

function search_loop :: "graph_view \<Rightarrow> u32 \<Rightarrow> u32 list option \<Rightarrow> dir \<Rightarrow> walk \<Rightarrow> walk" where
  "search_loop v depth tys dir s = (if queue s = [] then s else search_loop v depth tys dir (search_turn v depth tys dir s))"
  by pat_completeness auto
termination
proof (relation "measure (\<lambda>(v, depth, tys, dir, s). length (queue s) + (2 ^ 32 - card (fset (visited s))))")
  fix v depth tys dir and s :: walk assume "queue s \<noteq> []"
  then show "((v, depth, tys, dir, search_turn v depth tys dir s), (v, depth, tys, dir, s)) \<in>
      measure (\<lambda>(v, depth, tys, dir, s). length (queue s) + (2 ^ 32 - card (fset (visited s))))"
    using search_turn_balance [of s v depth tys dir] card_u32 [of "visited s"] card_u32 [of "visited (search_turn v depth tys dir s)"] by simp
qed simp

declare search_loop.simps [simp del]

definition neighborhood_start :: "u32 \<Rightarrow> walk" where
  "neighborhood_start start = \<lparr> visited = {|start|}, queue = [(start, 0)], found = [], taken = {||} \<rparr>"

definition neighborhood_of :: "graph_view \<Rightarrow> u32 \<Rightarrow> u32 \<Rightarrow> u32 list option \<Rightarrow> dir \<Rightarrow> neighborhood" where
  "neighborhood_of v start depth tys dir =
     (let s = search_loop v depth tys dir (neighborhood_start start)
      in \<lparr> nh_nodes = found s, nh_edges = sorted_list_of_fset (taken s) \<rparr>)"

section \<open>What an expansion lists\<close>

definition pushed :: "edge_ref list \<times> edge_ref fset \<Rightarrow> bool" where
  "pushed st \<longleftrightarrow> distinct (fst st) \<and> fset (snd st) = set (fst st)"

lemma pushes: "pushed st \<Longrightarrow> pushed (fold (\<lambda>x. push_unique (f x)) xs st) \<and> set (fst (fold (\<lambda>x. push_unique (f x)) xs st)) = set (fst st) \<union> f ` set xs"
proof (induction xs arbitrary: st)
  case (Cons x xs)
  have "pushed (push_unique (f x) st)" "set (fst (push_unique (f x) st)) = insert (f x) (set (fst st))"
    using Cons(2) by (auto simp: pushed_def push_unique_def split: prod.split)
  then show ?case using Cons(1) [of "push_unique (f x) st"] by auto
qed simp

definition of_type :: "u32 list option \<Rightarrow> u32 \<Rightarrow> bool" where
  "of_type tys e = (case tys of None \<Rightarrow> True | Some ts \<Rightarrow> e \<in> set ts)"

fun leads :: "dir \<Rightarrow> u32 \<Rightarrow> edge_ref \<Rightarrow> bool" where
  "leads dir i (_, src, dst) \<longleftrightarrow> dir \<noteq> DIn \<and> src = i \<or> dir \<noteq> DOut \<and> dst = i"

lemma expand_type_set:
  assumes "view_ok (gv_topo v)" "pushed st"
  shows "pushed (expand_type v i dir etype st)"
    "set (fst (expand_type v i dir etype st)) = set (fst st) \<union> {e \<in> view_edges (gv_topo v). fst e = etype \<and> leads dir i e}"
proof -
  let ?out = "\<lambda>dst. (etype, i, dst)" and ?inn = "\<lambda>src. (etype, src, i)" and ?n = "tv_neighbors (gv_topo v) etype"
  have n: "set (?n Out i) = {d. (etype, i, d) \<in> view_edges (gv_topo v)}" "set (?n In i) = {s. (etype, s, i) \<in> view_edges (gv_topo v)}"
    using tv_neighbors_correct [OF assms(1)] by (simp_all add: star_def)
  define st1 where "st1 = (if dir = DOut \<or> dir = DBoth then fold (\<lambda>x. push_unique (?out x)) (?n Out i) st else st)"
  have st1: "pushed st1" "set (fst st1) = set (fst st) \<union> (if dir = DIn then {} else ?out ` set (?n Out i))"
    using pushes [OF assms(2), of ?out "?n Out i"] assms(2) by (cases dir; simp add: st1_def)+
  have r: "expand_type v i dir etype st = (if dir = DIn \<or> dir = DBoth then fold (\<lambda>x. push_unique (?inn x)) (?n In i) st1 else st1)"
    by (simp add: expand_type_def st1_def Let_def)
  show "pushed (expand_type v i dir etype st)" unfolding r using pushes [OF st1(1), of ?inn "?n In i"] st1(1) by auto
  have "set (fst (expand_type v i dir etype st)) = set (fst st1) \<union> (if dir = DOut then {} else ?inn ` set (?n In i))"
    unfolding r using pushes [OF st1(1), of ?inn "?n In i"] by (cases dir) auto
  then show "set (fst (expand_type v i dir etype st)) = set (fst st) \<union> {e \<in> view_edges (gv_topo v). fst e = etype \<and> leads dir i e}"
    unfolding st1(2) n by (cases dir) auto
qed

lemma expand_set:
  assumes "view_ok (gv_topo v)"
  shows "distinct (expand v i tys dir)" "set (expand v i tys dir) = {e \<in> view_edges (gv_topo v). of_type tys (fst e) \<and> leads dir i e}"
proof -
  have run: "pushed (fold (expand_type v i dir) ts st) \<and>
      set (fst (fold (expand_type v i dir) ts st)) = set (fst st) \<union> {e \<in> view_edges (gv_topo v). fst e \<in> set ts \<and> leads dir i e}"
    if "pushed st" for ts st
    using that
  proof (induction ts arbitrary: st)
    case (Cons t ts)
    then show ?case using expand_type_set [OF assms Cons(2), of i dir t] Cons(1) [of "expand_type v i dir t st"] by auto
  qed simp
  have "fst e \<in> set (expand_types v tys) \<longleftrightarrow> of_type tys (fst e)" if "e \<in> view_edges (gv_topo v)" for e
    using that tv_etypes_cover by (cases e) (auto simp: expand_types_def of_type_def split: option.split)
  moreover have "pushed ([], {||})" by (simp add: pushed_def)
  ultimately show "distinct (expand v i tys dir)" "set (expand v i tys dir) = {e \<in> view_edges (gv_topo v). of_type tys (fst e) \<and> leads dir i e}"
    using run [of "([], {||})" "expand_types v tys"] unfolding expand_def by (auto simp: pushed_def)
qed

section \<open>Distances\<close>

definition distance :: "('a \<times> 'a) set \<Rightarrow> 'a \<Rightarrow> 'a \<Rightarrow> nat \<Rightarrow> bool" where
  "distance R s y k \<longleftrightarrow> (s, y) \<in> R ^^ k \<and> (\<forall>j<k. (s, y) \<notin> R ^^ j)"

lemma distance_unique: "distance R s y k \<Longrightarrow> distance R s y j \<Longrightarrow> k = j"
  unfolding distance_def by (metis nat_neq_iff)

lemma distance_start: "distance R s y 0 \<longleftrightarrow> y = s"
  by (auto simp: distance_def)

lemma distance_le: "(s, y) \<in> R ^^ j \<Longrightarrow> \<exists>k\<le>j. distance R s y k"
proof -
  assume j: "(s, y) \<in> R ^^ j"
  have "distance R s y (LEAST k. (s, y) \<in> R ^^ k)" unfolding distance_def using LeastI [of "\<lambda>k. (s, y) \<in> R ^^ k", OF j] not_less_Least by blast
  then show ?thesis using Least_le [of "\<lambda>k. (s, y) \<in> R ^^ k", OF j] by blast
qed

lemma distance_pred:
  assumes "distance R s y (Suc k)"
  shows "\<exists>x. distance R s x k \<and> (x, y) \<in> R"
proof -
  obtain x where x: "(s, x) \<in> R ^^ k" "(x, y) \<in> R" using assms by (auto simp: distance_def)
  have "(s, x) \<notin> R ^^ j" if "j < k" for j
    using that assms x(2) relpow_Suc_I [of s x j R y] by (auto simp: distance_def)
  then show ?thesis using x by (auto simp: distance_def)
qed

section \<open>The search\<close>

definition hops :: "graph_view \<Rightarrow> u32 list option \<Rightarrow> dir \<Rightarrow> (u32 \<times> u32) set" where
  "hops v tys dir = {(x, y). gv_visible v y \<and> (\<exists>e\<in>set (expand v x tys dir). other_end x e = y)}"

lemma follows:
  "\<exists>new. distinct new \<and> set new = {y. gv_visible v y \<and> (\<exists>e\<in>set es. other_end i e = y)} - fset (visited s) \<and>
     fset (visited (fold (follow v i d) es s)) = fset (visited s) \<union> set new \<and>
     found (fold (follow v i d) es s) = found s @ map (\<lambda>y. (y, d + 1)) new \<and> queue (fold (follow v i d) es s) = queue s @ map (\<lambda>y. (y, d + 1)) new \<and>
     fset (taken (fold (follow v i d) es s)) = fset (taken s) \<union> {e \<in> set es. gv_visible v (other_end i e)}"
proof (induction es arbitrary: s)
  case (Cons e es)
  let ?s = "follow v i d e s" and ?y = "other_end i e"
  obtain new where new: "distinct new" "set new = {y. gv_visible v y \<and> (\<exists>e\<in>set es. other_end i e = y)} - fset (visited ?s)"
    "fset (visited (fold (follow v i d) es ?s)) = fset (visited ?s) \<union> set new"
    "found (fold (follow v i d) es ?s) = found ?s @ map (\<lambda>y. (y, d + 1)) new" "queue (fold (follow v i d) es ?s) = queue ?s @ map (\<lambda>y. (y, d + 1)) new"
    "fset (taken (fold (follow v i d) es ?s)) = fset (taken ?s) \<union> {e \<in> set es. gv_visible v (other_end i e)}" using Cons [of ?s] by blast
  show ?case
  proof (cases "gv_visible v ?y \<and> ?y |\<notin>| visited s")
    case True
    then have "fset (visited ?s) = insert ?y (fset (visited s))" "found ?s = found s @ [(?y, d + 1)]" "queue ?s = queue s @ [(?y, d + 1)]"
      "fset (taken ?s) = insert e (fset (taken s))" by (simp_all add: follow_def Let_def)
    then show ?thesis using new True by (intro exI [of _ "?y # new"]) auto
  next
    case False
    then have "visited ?s = visited s" "found ?s = found s" "queue ?s = queue s"
      "fset (taken ?s) = fset (taken s) \<union> (if gv_visible v ?y then {e} else {})" by (simp_all add: follow_def Let_def)
    then show ?thesis using new False by (intro exI [of _ new]) auto
  qed
qed simp

text \<open>The nodes the loop is done with have had their neighbours visited, and wait for nothing.\<close>

definition done_with :: "walk \<Rightarrow> u32 set" where
  "done_with s = fset (visited s) - fst ` set (queue s)"

definition walk_inv :: "graph_view \<Rightarrow> u32 \<Rightarrow> u32 \<Rightarrow> u32 list option \<Rightarrow> dir \<Rightarrow> walk \<Rightarrow> bool" where
  "walk_inv v start depth tys dir s \<longleftrightarrow>
     start |\<in>| visited s \<and> (\<forall>y\<in>fset (visited s). \<exists>k\<le>unat depth. distance (hops v tys dir) start y k) \<and>
     (\<forall>y d. (y, d) \<in> set (queue s) \<longrightarrow> y |\<in>| visited s \<and> distance (hops v tys dir) start y (unat d)) \<and>
     distinct (map fst (queue s)) \<and> sorted (map snd (queue s)) \<and>
     (\<forall>x k. x \<in> done_with s \<longrightarrow> distance (hops v tys dir) start x k \<longrightarrow> k < unat depth \<longrightarrow> hops v tys dir `` {x} \<subseteq> fset (visited s)) \<and>
     fst ` set (found s) = fset (visited s) - {start} \<and> distinct (map fst (found s)) \<and>
     (\<forall>y d. (y, d) \<in> set (found s) \<longrightarrow> distance (hops v tys dir) start y (unat d)) \<and> sorted (map snd (found s)) \<and>
     (\<forall>i c rest y d. queue s = (i, c) # rest \<longrightarrow> (y, d) \<in> set (queue s) \<union> set (found s) \<longrightarrow> unat d \<le> Suc (unat c)) \<and>
     fset (taken s) = {e. \<exists>x k. x \<in> done_with s \<and> k < unat depth \<and> distance (hops v tys dir) start x k \<and>
       e \<in> set (expand v x tys dir) \<and> gv_visible v (other_end x e)}"

lemma walk_invD:
  assumes "walk_inv v start depth tys dir s"
  shows "start |\<in>| visited s" "y |\<in>| visited s \<Longrightarrow> \<exists>k\<le>unat depth. distance (hops v tys dir) start y k"
    "(y, d) \<in> set (queue s) \<Longrightarrow> y |\<in>| visited s \<and> distance (hops v tys dir) start y (unat d)"
    "distinct (map fst (queue s))" "sorted (map snd (queue s))"
    "x \<in> done_with s \<Longrightarrow> distance (hops v tys dir) start x k \<Longrightarrow> k < unat depth \<Longrightarrow> hops v tys dir `` {x} \<subseteq> fset (visited s)"
    "fst ` set (found s) = fset (visited s) - {start}" "distinct (map fst (found s))" "(y, d) \<in> set (found s) \<Longrightarrow> distance (hops v tys dir) start y (unat d)"
    "sorted (map snd (found s))" "queue s = (i, c) # rest \<Longrightarrow> (y, d) \<in> set (queue s) \<union> set (found s) \<Longrightarrow> unat d \<le> Suc (unat c)"
    "fset (taken s) = {e. \<exists>x k. x \<in> done_with s \<and> k < unat depth \<and> distance (hops v tys dir) start x k \<and>
       e \<in> set (expand v x tys dir) \<and> gv_visible v (other_end x e)}"
  using assms unfolding walk_inv_def by - (elim conjE, simp only: | blast)+

text \<open>Whatever is no further than the bound \<open>n\<close> has been visited, once everything nearer is done with.\<close>

lemma near_visited:
  assumes "walk_inv v start depth tys dir s" "n \<le> unat depth" "\<And>y d. (y, d) \<in> set (queue s) \<Longrightarrow> n \<le> unat d"
  shows "distance (hops v tys dir) start y k \<Longrightarrow> k \<le> n \<Longrightarrow> y |\<in>| visited s"
proof (induction k arbitrary: y)
  case 0
  then show ?case using walk_invD(1) [OF assms(1)] by (simp add: distance_start)
next
  case (Suc k)
  obtain x where x: "distance (hops v tys dir) start x k" "(x, y) \<in> hops v tys dir" using distance_pred [OF Suc(2)] by blast
  have "x |\<in>| visited s" using Suc x by simp
  moreover have "x \<notin> fst ` set (queue s)"
  proof
    assume "x \<in> fst ` set (queue s)"
    then obtain d where d: "(x, d) \<in> set (queue s)" by auto
    then have "k = unat d" using walk_invD(3) [OF assms(1) d] distance_unique [OF x(1)] by simp
    then show False using assms(3) [OF d] Suc(3) by simp
  qed
  ultimately have "x \<in> done_with s" by (simp add: done_with_def)
  then show ?case using walk_invD(6) [OF assms(1) _ x(1)] x(2) Suc(3) assms(2) by auto
qed

lemma walk_start: "walk_inv v start depth tys dir (neighborhood_start start)"
  by (auto simp: walk_inv_def Let_def neighborhood_start_def done_with_def distance_start)

lemma unat_less_32: "unat (x :: u32) < 2 ^ 32"
  using unsigned_less [of x] by simp

lemma done_pop:
  assumes "walk_inv v start depth tys dir s" "queue s = (i, d) # rest"
  shows "fset (visited s) - fst ` set rest = insert i (done_with s)" "i \<notin> done_with s"
  using walk_invD(3,4) [OF assms(1)] assms(2) by (auto simp: done_with_def)

lemma rest_depths:
  assumes "walk_inv v start depth tys dir s" "queue s = (i, d) # rest" "(y, c) \<in> set rest"
  shows "unat d \<le> unat c"
  using walk_invD(5) [OF assms(1)] assms(2,3) by (force simp: word_le_nat_alt)

lemma walk_skip:
  assumes inv: "walk_inv v start depth tys dir s" and q: "queue s = (i, d) # rest" and "depth \<le> d"
  shows "walk_inv v start depth tys dir (s \<lparr> queue := rest \<rparr>)"
proof -
  note D = walk_invD [OF inv] and pop = done_pop [OF inv q]
  have i: "distance (hops v tys dir) start i (unat d)" using D(3) q by simp
  have far: "\<not> k < unat depth" if "distance (hops v tys dir) start i k" for k
    using distance_unique [OF i that] assms(3) by (simp add: word_le_nat_alt)
  have dw: "done_with (s \<lparr> queue := rest \<rparr>) = insert i (done_with s)" using pop(1) by (simp add: done_with_def)
  have head: "unat c' \<le> Suc (unat c)" if "rest = (j, c) # rest'" "(y, c') \<in> set rest \<union> set (found s)" for j c rest' y c'
    using that D(11) [OF q, of y c'] rest_depths [OF inv q, of j c] q by fastforce
  have taken: "fset (taken s) = {e. \<exists>x k. x \<in> insert i (done_with s) \<and> k < unat depth \<and> distance (hops v tys dir) start x k \<and>
       e \<in> set (expand v x tys dir) \<and> gv_visible v (other_end x e)}"
    unfolding D(12) using far by blast
  have sub: "hops v tys dir `` {x} \<subseteq> fset (visited s)" if "x \<in> insert i (done_with s)" "distance (hops v tys dir) start x k" "k < unat depth" for x k
    using that far [of k] D(6) by blast
  show ?thesis
    unfolding walk_inv_def dw
  proof (intro conjI allI impI)
    show "fset (taken (s \<lparr> queue := rest \<rparr>)) = {e. \<exists>x k. x \<in> insert i (done_with s) \<and> k < unat depth \<and> distance (hops v tys dir) start x k \<and>
       e \<in> set (expand v x tys dir) \<and> gv_visible v (other_end x e)}" using taken by simp
    show "unat c' \<le> Suc (unat c)" if "queue (s \<lparr> queue := rest \<rparr>) = (j, c) # rest'"
      "(y, c') \<in> set (queue (s \<lparr> queue := rest \<rparr>)) \<union> set (found (s \<lparr> queue := rest \<rparr>))" for j c rest' y c' using that head [of j c rest' y c'] by simp
    show "y |\<in>| visited (s \<lparr> queue := rest \<rparr>)" "distance (hops v tys dir) start y (unat c)" if "(y, c) \<in> set (queue (s \<lparr> queue := rest \<rparr>))" for y c
      using that D(3) [of y c] q by simp_all
    show "hops v tys dir `` {x} \<subseteq> fset (visited (s \<lparr> queue := rest \<rparr>))" if "x \<in> insert i (done_with s)" "distance (hops v tys dir) start x k" "k < unat depth" for x k
      using sub [OF that] by simp
  qed (use D(1,2,4,5,7-10) q in simp_all)
qed

lemma walk_expand:
  assumes inv: "walk_inv v start depth tys dir s" and q: "queue s = (i, d) # rest" and d: "d < depth"
  shows "walk_inv v start depth tys dir (fold (follow v i d) (expand v i tys dir) (s \<lparr> queue := rest \<rparr>))" (is "walk_inv _ _ _ _ _ ?s")
proof -
  let ?R = "hops v tys dir"
  note D = walk_invD [OF inv] and pop = done_pop [OF inv q]
  obtain new where new: "distinct new" "set new = ?R `` {i} - fset (visited s)" "fset (visited ?s) = fset (visited s) \<union> set new"
    "found ?s = found s @ map (\<lambda>y. (y, d + 1)) new" "queue ?s = rest @ map (\<lambda>y. (y, d + 1)) new"
    "fset (taken ?s) = fset (taken s) \<union> {e \<in> set (expand v i tys dir). gv_visible v (other_end i e)}"
    using follows [where v = v and es = "expand v i tys dir" and i = i and s = "s \<lparr> queue := rest \<rparr>" and d = d] by (auto simp: hops_def)
  have d1: "unat (d + 1) = Suc (unat d)" "unat d < unat depth" using d unat_less_32 [of depth] by (auto simp: word_less_nat_alt unat_word_ariths)
  have i: "distance ?R start i (unat d)" "i |\<in>| visited s" using D(3) [of i d] q by simp_all
  have fresh: "distance ?R start y (Suc (unat d))" if "y \<in> set new" for y
  proof -
    have "(start, y) \<in> ?R ^^ Suc (unat d)" using i(1) that new(2) by (auto simp: distance_def intro: relpow_Suc_I)
    moreover have "(start, y) \<notin> ?R ^^ j" if "j \<le> unat d" for j
    proof
      assume "(start, y) \<in> ?R ^^ j"
      then obtain k where "k \<le> j" "distance ?R start y k" using distance_le by metis
      moreover have "unat d \<le> unat c" if "(z, c) \<in> set (queue s)" for z c using that q rest_depths [OF inv q] by auto
      ultimately have "y |\<in>| visited s" using near_visited [OF inv, of "unat d" y k] that d1(2) by auto
      then show False using \<open>y \<in> set new\<close> new(2) by simp
    qed
    ultimately show ?thesis by (auto simp: distance_def less_Suc_eq_le)
  qed
  have dw: "done_with ?s = insert i (done_with s)"
    using pop(1) new(2,3) by (auto simp: done_with_def new(5) image_Un image_image)
  have head: "unat c' \<le> Suc (unat c)" if "queue ?s = (j, c) # rest'" "(y, c') \<in> set (queue ?s) \<union> set (found ?s)" for j c rest' y c'
  proof -
    have "unat c' \<le> Suc (unat d)" using that(2) D(11) [OF q, of y c'] q d1(1) by (auto simp: new(4,5))
    moreover have "(j, c) \<in> set (queue ?s)" using that(1) by simp
    then have "unat d \<le> unat c" using rest_depths [OF inv q, of j c] d1(1) by (auto simp: new(5))
    ultimately show ?thesis by simp
  qed
  have le: "c \<le> d + 1" if "(y, c) \<in> set (queue s) \<union> set (found s)" for y c
    using D(11) [OF q that] d1(1) by (simp add: word_le_nat_alt)
  then have le: "\<forall>p\<in>set rest. snd p \<le> d + 1" "\<forall>p\<in>set (found s). snd p \<le> d + 1" unfolding q by fastforce+
  have flat: "sorted (map (\<lambda>_. d + 1) new)" by (simp add: sorted_map sorted_wrt_iff_nth_less)
  have sub: "?R `` {x} \<subseteq> fset (visited ?s)" if "x \<in> insert i (done_with s)" "distance ?R start x k" "k < unat depth" for x k
    using that D(6) new(2,3) by blast
  show ?thesis
    unfolding walk_inv_def dw
  proof (intro conjI allI impI)
    show "\<forall>y\<in>fset (visited ?s). \<exists>k\<le>unat depth. distance ?R start y k" using D(2) fresh Suc_leI [OF d1(2)] unfolding new(3) by blast
    show "sorted (map snd (queue ?s))" "sorted (map snd (found ?s))"
      using D(5,10) q flat le by (auto simp: new(4,5) sorted_append comp_def)
    have "y |\<in>| visited s" if "(y, c) \<in> set rest" for y c using that D(3) [of y c] q by simp
    then have "fst ` set rest \<inter> set new = {}" unfolding new(2) by fastforce
    then show "distinct (map fst (queue ?s))" using D(4) new(1) q by (simp add: new(5) comp_def)
    show "distinct (map fst (found ?s))" using D(7,8) new(1,2) by (auto simp: new(4) comp_def)
    show "fst ` set (found ?s) = fset (visited ?s) - {start}" using D(1,7) new(2) by (auto simp: new(3,4) image_Un image_image)
    show "fset (taken ?s) = {e. \<exists>x k. x \<in> insert i (done_with s) \<and> k < unat depth \<and> distance ?R start x k \<and>
       e \<in> set (expand v x tys dir) \<and> gv_visible v (other_end x e)}"
      unfolding new(6) D(12) using i(1) d1(2) by blast
  qed (use D(1,3,9) q fresh d1(1) sub head in \<open>auto simp: new(3-5)\<close>)
qed

lemma walk_turn: "walk_inv v start depth tys dir s \<Longrightarrow> walk_inv v start depth tys dir (search_turn v depth tys dir s)"
  using walk_skip [of v start depth tys dir s] walk_expand [of v start depth tys dir s]
  by (auto simp: search_turn_def Let_def not_le split: list.split)

lemma walk_loop: "walk_inv v start depth tys dir s \<Longrightarrow>
  walk_inv v start depth tys dir (search_loop v depth tys dir s) \<and> queue (search_loop v depth tys dir s) = []"
proof (induction v depth tys dir s rule: search_loop.induct)
  case (1 v depth tys dir s)
  then show ?case by (subst (1 2) search_loop.simps) (simp add: walk_turn)
qed

lemma search_loop_visits: "fset (visited s) \<subseteq> fset (visited (search_loop v depth tys dir s))"
proof (induction v depth tys dir s rule: search_loop.induct)
  case (1 v depth tys dir s)
  have "fset (visited s) \<subseteq> fset (visited (search_turn v depth tys dir s))"
  proof (cases "queue s")
    case (Cons a rest)
    then show ?thesis
      using follows [where v = v and i = "fst a" and d = "snd a" and es = "expand v (fst a) tys dir" and s = "s \<lparr> queue := rest \<rparr>"]
      by (auto simp: search_turn_def Let_def split: prod.split)
  qed (simp add: search_turn_def)
  then show ?case using 1 by (subst search_loop.simps) auto
qed

lemma search_turns:
  "length (queue s) + card (fset (visited (search_loop v depth tys dir s))) = k + card (fset (visited s)) \<Longrightarrow>
     queue ((search_turn v depth tys dir ^^ n) s) = [] \<longleftrightarrow> k \<le> n"
proof (induction v depth tys dir s arbitrary: k n rule: search_loop.induct)
  case (1 v depth tys dir s)
  let ?t = "search_turn v depth tys dir"
  show ?case
  proof (cases "queue s = []")
    case True
    then have "?t s = s" by (simp add: search_turn_def)
    then have "(?t ^^ n) s = s" by (induction n) simp_all
    then show ?thesis using True 1(2) by (simp add: search_loop.simps)
  next
    case False
    let ?f = "search_loop v depth tys dir (?t s)"
    have loop: "search_loop v depth tys dir s = ?f" using False by (simp add: search_loop.simps [of v depth tys dir s])
    have "card (fset (visited (?t s))) \<le> card (fset (visited ?f))" by (intro card_mono search_loop_visits) simp
    moreover have "Suc (length (queue (?t s)) + card (fset (visited s))) = length (queue s) + card (fset (visited (?t s)))"
      by (rule search_turn_balance [OF False])
    ultimately have "k \<noteq> 0" "Suc (length (queue (?t s)) + card (fset (visited ?f))) = k + card (fset (visited (?t s)))"
      using 1(2) unfolding loop by linarith+
    then obtain k' where k: "k = Suc k'" "length (queue (?t s)) + card (fset (visited ?f)) = k' + card (fset (visited (?t s)))"
      by (cases k) auto
    show ?thesis
    proof (cases n)
      case (Suc m)
      then show ?thesis using 1(1) [OF False k(2), of m] k(1) by (simp add: funpow_swap1)
    qed (use False k in simp)
  qed
qed

section \<open>Properties\<close>

lemma hops_edges:
  "view_ok (gv_topo v) \<Longrightarrow> hops v tys dir =
     {(x, y). gv_visible v y \<and> (\<exists>e\<in>view_edges (gv_topo v). of_type tys (fst e) \<and> leads dir x e \<and> other_end x e = y)}"
  unfolding hops_def by (simp only: expand_set(2)) blast

text \<open>C18: the neighbourhood of a node is its breadth-first neighbourhood in the edges the view shows. With a hop along an edge of an allowed type in an
  allowed direction to a visible node, the nodes listed are those other than the start within the given number of hops, each once, with its
  distance, nearest first; the edges listed, in order and without repetition, are those by which a node at less than that number of hops reaches a
  visible one. A hidden node is neither listed nor passed through.\<close>

theorem neighborhood_is_breadth_first:
  assumes "view_ok (gv_topo v)"
  shows "let r = neighborhood_of v start depth tys dir; E = view_edges (gv_topo v);
     near = distance {(x, y). gv_visible v y \<and> (\<exists>e\<in>E. of_type tys (fst e) \<and> leads dir x e \<and> other_end x e = y)} start in
   set (nh_nodes r) = {(y, d). y \<noteq> start \<and> d \<le> depth \<and> near y (unat d)} \<and> distinct (map fst (nh_nodes r)) \<and> sorted (map snd (nh_nodes r)) \<and>
   set (nh_edges r) = {e \<in> E. of_type tys (fst e) \<and> (\<exists>x k. k < unat depth \<and> near x k \<and> leads dir x e \<and> gv_visible v (other_end x e))} \<and> strict (nh_edges r)"
proof -
  let ?s = "search_loop v depth tys dir (neighborhood_start start)" and ?near = "distance (hops v tys dir) start"
  have inv: "walk_inv v start depth tys dir ?s" and q: "queue ?s = []" using walk_loop [OF walk_start] by blast+
  note D = walk_invD [OF inv]
  have dw: "done_with ?s = fset (visited ?s)" by (simp add: done_with_def q)
  have vis: "y |\<in>| visited ?s \<longleftrightarrow> (\<exists>k\<le>unat depth. ?near y k)" for y
    using D(2) [of y] near_visited [OF inv, of "unat depth" y] q by auto
  have "set (found ?s) = {(y, d). y \<noteq> start \<and> d \<le> depth \<and> ?near y (unat d)}"
  proof (intro set_eqI iffI; clarify)
    fix y d assume yd: "(y, d) \<in> set (found ?s)"
    then have "y \<in> fset (visited ?s) - {start}" using D(7) by force
    moreover obtain k where "k \<le> unat depth" "?near y k" using calculation D(2) by auto
    ultimately show "y \<noteq> start \<and> d \<le> depth \<and> ?near y (unat d)"
      using D(9) [OF yd] distance_unique [of "hops v tys dir" start y k "unat d"] by (auto simp: word_le_nat_alt)
  next
    fix y d assume y: "y \<noteq> start" "d \<le> depth" "?near y (unat d)"
    then have "y \<in> fst ` set (found ?s)" unfolding D(7) using vis [of y] by (auto simp: word_le_nat_alt)
    then obtain d' where d': "(y, d') \<in> set (found ?s)" by auto
    then have "unat d' = unat d" using D(9) [OF d'] distance_unique y(3) by metis
    then show "(y, d) \<in> set (found ?s)" using d' by (simp add: word_unat_eq_iff [symmetric])
  qed
  moreover have "fset (taken ?s) = {e \<in> view_edges (gv_topo v). of_type tys (fst e) \<and>
      (\<exists>x k. k < unat depth \<and> ?near x k \<and> leads dir x e \<and> gv_visible v (other_end x e))}"
    unfolding D(12) dw using vis by (auto simp: expand_set(2) [OF assms]) (metis less_imp_le)+
  ultimately show ?thesis
    using D(8,10) unfolding Let_def hops_edges [OF assms, symmetric] by (simp add: neighborhood_of_def Let_def sorted_list_of_fset.rep_eq)
qed

text \<open>C19: the search ends, after one turn of its loop for the start and one for each node it lists, and not before.\<close>

theorem neighborhood_search_ends:
  "queue ((search_turn v depth tys dir ^^ n) (neighborhood_start start)) = [] \<longleftrightarrow> Suc (length (nh_nodes (neighborhood_of v start depth tys dir))) \<le> n"
proof -
  let ?s = "search_loop v depth tys dir (neighborhood_start start)"
  have inv: "walk_inv v start depth tys dir ?s" using walk_loop [OF walk_start] by blast
  have "length (found ?s) = card (fset (visited ?s) - {start})" using walk_invD(7,8) [OF inv] by (metis distinct_card length_map set_map)
  then have len: "Suc (length (found ?s)) = card (fset (visited ?s))"
    using walk_invD(1) [OF inv] card_Suc_Diff1 [of "fset (visited ?s)" start] by simp
  show ?thesis
    unfolding neighborhood_of_def Let_def neighborhood.simps len
    using search_turns [of "neighborhood_start start" v depth tys dir "card (fset (visited ?s))" n]
    by (simp add: neighborhood_start_def)
qed

theorem neighborhood_is_breadth_first_witness:
  "let v = (bare_view im_new in_new) \<lparr> gv_topo := wit_view, gv_layer := None \<rparr>; r = neighborhood_of v 1 1 None DOut in
   (2, 1) \<in> set (nh_nodes r) \<and> (5, 1) \<in> set (nh_nodes r) \<and> (3, 1, 5) \<in> set (nh_edges r)"
proof -
  obtain tx where tx: "add_edge topo_new 3 1 5 = Some (True, tx)" "topo_ok tx" "edges tx = {(3, 1, 5)}" "tombs tx = {}"
    using add_edge_correct [OF topo_new_ok(1), of 3 1 5] topo_new_ok by auto
  have ok: "view_ok wit_view" using tx topo_new_ok wit_csr_ok by (simp add: view_ok_def wit_view_def tv_with_layer_def tv_with_base_def)
  have E: "view_edges wit_view = {(3, 1, 2), (3, 1, 5)}"
    using tx topo_new_ok wit_csr_edges by (auto simp: view_edges_def below_edges_def wit_view_def tv_with_layer_def tv_with_base_def)
  have one: "distance R 1 y 1 \<longleftrightarrow> (1, y) \<in> R \<and> y \<noteq> 1" for R and y :: u32 unfolding One_nat_def by (auto simp: distance_def)
  show ?thesis
    using neighborhood_is_breadth_first [of "(bare_view im_new in_new) \<lparr> gv_topo := wit_view, gv_layer := None \<rparr>" 1 1 None DOut] ok
    by (auto simp: Let_def E one [unfolded One_nat_def] of_type_def other_end_def gv_visible_def bare_view_def distance_start intro!: exI [of _ "1 :: u32"] exI [of _ "0 :: nat"])
qed

end
