(* ===== verification/Commit_Times.thy ===== *)
theory Commit_Times
  imports Value_Types
begin

text \<open>
  The commit-to-time sidecar (\<open>crates/core-storage/src/commit_times.rs\<close>): the map from commits to
  wall-clock times, its file format, and the resolution of an instant to a commit. A time is an \<open>i64\<close>
  number of milliseconds, kept as its 64-bit pattern on disk. The words of the error details are
  shortened.
\<close>

definition COMMIT_TIMES_MAGIC :: bytes where "COMMIT_TIMES_MAGIC = [0x4D, 0x54, 0x4D, 0x53]"
definition COMMIT_TIMES_VERSION :: u16 where "COMMIT_TIMES_VERSION = 2"
definition COMMIT_TIMES_SUPERSEDED_VERSIONS :: "u16 list" where "COMMIT_TIMES_SUPERSEDED_VERSIONS = [1]"
definition HEADER_LEN :: nat where "HEADER_LEN = 4 + 2 + 8"
definition ENTRY_LEN :: nat where "ENTRY_LEN = 8 + 8"

definition superseded_version :: "bytes \<Rightarrow> u16 option" where
  "superseded_version bs =
     (if length bs < HEADER_LEN \<or> take 4 bs \<noteq> COMMIT_TIMES_MAGIC then None
      else let version = le_u16 [bs ! 4, bs ! 5]
           in if version \<in> set COMMIT_TIMES_SUPERSEDED_VERSIONS then Some version else None)"

record commit_times =
  floor_commit :: u64
  ct_entries :: "(u64 \<times> int) list"

definition ct_default :: commit_times where "ct_default = \<lparr> floor_commit = 0, ct_entries = [] \<rparr>"

definition floor_ms :: "commit_times \<Rightarrow> int option" where
  "floor_ms t = (case ct_entries t of [] \<Rightarrow> None | e # _ \<Rightarrow> Some (snd e))"

definition newest_commit :: "commit_times \<Rightarrow> u64 option" where
  "newest_commit t = (if ct_entries t = [] then None else Some (fst (last (ct_entries t))))"

definition ct_len :: "commit_times \<Rightarrow> nat" where "ct_len t = length (ct_entries t)"
definition ct_is_empty :: "commit_times \<Rightarrow> bool" where "ct_is_empty t \<longleftrightarrow> ct_entries t = []"

definition max_ms :: "commit_times \<Rightarrow> int option" where
  "max_ms t = (if ct_entries t = [] then None else Some (fold max (map snd (ct_entries t)) (snd (hd (ct_entries t)))))"

definition time_of :: "commit_times \<Rightarrow> u64 \<Rightarrow> int option" where
  "time_of t commit =
     (case binary_search (map fst (ct_entries t)) commit of
        Found i \<Rightarrow> Some (snd (ct_entries t ! i)) | Missing _ \<Rightarrow> None)"

definition ct_push :: "commit_times \<Rightarrow> u64 \<Rightarrow> int \<Rightarrow> commit_times" where
  "ct_push t commit unix_ms =
     (case newest_commit t of
        Some newest \<Rightarrow> if commit \<le> newest then t else t \<lparr> ct_entries := ct_entries t @ [(commit, unix_ms)] \<rparr>
      | None \<Rightarrow> \<lparr> floor_commit = commit, ct_entries = ct_entries t @ [(commit, unix_ms)] \<rparr>)"

definition truncate_below :: "commit_times \<Rightarrow> u64 \<Rightarrow> commit_times" where
  "truncate_below t commit =
     (let es = filter (\<lambda>e. commit \<le> fst e) (ct_entries t)
      in \<lparr> floor_commit = (case es of [] \<Rightarrow> commit | e # _ \<Rightarrow> fst e), ct_entries = es \<rparr>)"

definition resolve_instant :: "commit_times \<Rightarrow> int \<Rightarrow> u64 \<Rightarrow> graph_error + u64" where
  "resolve_instant t unix_ms wal_horizon_floor =
     (case ct_entries t of
        [] \<Rightarrow> Inl NoRecordedTime
      | (c, first_ms) # _ \<Rightarrow>
          if unix_ms < first_ms then Inl (TimeBeforeFloor first_ms (floor_commit t))
          else
            let answer = foldl (\<lambda>answer (commit, ms). if ms \<le> unix_ms then commit else answer) c (ct_entries t)
            in if answer < wal_horizon_floor
               then Inl (CommitOutOfRange answer (case newest_commit t of Some n \<Rightarrow> n + 1 | None \<Rightarrow> 0) wal_horizon_floor)
               else Inr answer)"

section \<open>The file\<close>

definition i64_le :: "int \<Rightarrow> bytes" where "i64_le n = u64_le (word_of_int n)"
definition le_i64 :: "bytes \<Rightarrow> int" where "le_i64 bs = sint (le_u64 bs)"

definition encode_entry :: "u64 \<Rightarrow> int \<Rightarrow> bytes" where
  "encode_entry commit unix_ms = u64_le commit @ i64_le unix_ms"

definition ct_encode :: "commit_times \<Rightarrow> bytes" where
  "ct_encode t = COMMIT_TIMES_MAGIC @ u16_le COMMIT_TIMES_VERSION @ u64_le (floor_commit t)
     @ concat (map (\<lambda>(commit, ms). encode_entry commit ms) (ct_entries t))"

fun decode_entries :: "bytes list \<Rightarrow> u64 option \<Rightarrow> graph_error + (u64 \<times> int) list" where
  "decode_entries [] prev = Inr []"
| "decode_entries (chunk # chunks) prev =
     (let commit = le_u64 (take 8 chunk); ms = le_i64 (drop 8 chunk)
      in if (case prev of Some p \<Rightarrow> commit \<le> p | None \<Rightarrow> False)
         then Inl (Corrupt ''commit_times: entries must ascend by commit'')
         else case decode_entries chunks (Some commit) of Inl e \<Rightarrow> Inl e | Inr es \<Rightarrow> Inr ((commit, ms) # es))"

definition ct_decode :: "bytes \<Rightarrow> graph_error + commit_times" where
  "ct_decode bs =
     (if length bs < HEADER_LEN then Inl (Corrupt ''commit_times: shorter than the header'')
      else if take 4 bs \<noteq> COMMIT_TIMES_MAGIC then Inl (Corrupt ''commit_times: bad magic'')
      else if le_u16 [bs ! 4, bs ! 5] \<noteq> COMMIT_TIMES_VERSION then Inl (Corrupt ''commit_times: unsupported version'')
      else
        let floor = le_u64 (take 8 (drop 6 bs)); body = drop HEADER_LEN bs
        in if length body mod ENTRY_LEN \<noteq> 0 then Inl (Corrupt ''commit_times: a torn append'')
           else case decode_entries (chunks_of ENTRY_LEN body) None of
             Inl e \<Rightarrow> Inl e
           | Inr es \<Rightarrow> Inr \<lparr> floor_commit = floor, ct_entries = es \<rparr>)"

section \<open>The invariant\<close>

definition ct_ok :: "commit_times \<Rightarrow> bool" where
  "ct_ok t \<longleftrightarrow> strict (map fst (ct_entries t)) \<and> (\<forall>e\<in>set (ct_entries t). floor_commit t \<le> fst e)
     \<and> (\<forall>e\<in>set (ct_entries t). try_i64 (snd e) = Some (snd e))"

lemma strict_snoc: "strict (xs @ [x]) \<longleftrightarrow> strict xs \<and> (xs = [] \<or> last xs < x)"
proof (cases xs rule: rev_cases)
  case (snoc ys y)
  then show ?thesis by (auto simp: strict_simps)
qed simp

lemma ct_push_ok: "ct_ok t \<Longrightarrow> try_i64 ms = Some ms \<Longrightarrow> ct_ok (ct_push t c ms)"
proof (cases "ct_entries t" rule: rev_cases)
  case (snoc es e)
  assume ok: "ct_ok t" "try_i64 ms = Some ms"
  then show ?thesis using snoc
    by (auto simp: ct_ok_def ct_push_def newest_commit_def strict_simps intro: order_trans [OF _ less_imp_le] less_trans split: if_splits)
next
  case Nil
  assume "ct_ok t" "try_i64 ms = Some ms"
  with Nil show ?thesis by (simp add: ct_ok_def ct_push_def newest_commit_def)
qed

lemma truncate_below_ok: "ct_ok t \<Longrightarrow> ct_ok (truncate_below t c)"
proof -
  assume ok: "ct_ok t"
  let ?es = "filter (\<lambda>e. c \<le> fst e) (ct_entries t)"
  have "map fst ?es = filter (\<lambda>x. c \<le> x) (map fst (ct_entries t))" by (simp add: filter_map o_def)
  then have st: "strict (map fst ?es)" using ok by (simp add: ct_ok_def sorted_wrt_filter)
  show ?thesis
  proof (cases ?es)
    case Nil
    then show ?thesis by (simp add: ct_ok_def truncate_below_def Let_def)
  next
    case (Cons e es)
    then have "\<forall>x\<in>set es. fst e < fst x" using st by (auto simp: strict_simps)
    moreover have "set ?es \<subseteq> set (ct_entries t)" by simp
    ultimately show ?thesis using st Cons ok by (auto simp: ct_ok_def truncate_below_def Let_def intro: less_imp_le)
  qed
qed

lemma le_i64_inverse: "try_i64 n = Some n \<Longrightarrow> le_i64 (i64_le n) = n"
  by (auto simp: le_i64_def i64_le_def byte_simps try_i64_def signed_of_int signed_take_bit_int_eq_self split: if_splits)

lemma length_encode_entry: "length (encode_entry c ms) = ENTRY_LEN"
  by (simp add: encode_entry_def i64_le_def byte_simps ENTRY_LEN_def)

lemma decode_encode_entries:
  assumes "strict (map fst es)" and "\<forall>e\<in>set es. try_i64 (snd e) = Some (snd e)" and "case prev of Some p \<Rightarrow> es = [] \<or> p < fst (hd es) | None \<Rightarrow> True"
  shows "decode_entries (map (\<lambda>(c, ms). encode_entry c ms) es) prev = Inr es"
  using assms
proof (induction es arbitrary: prev)
  case (Cons e es)
  obtain c ms where e: "e = (c, ms)" by (cases e)
  have "es = [] \<or> c < fst (hd es)" using Cons.prems(1) e by (cases es) auto
  then have "decode_entries (map (\<lambda>(c, ms). encode_entry c ms) es) (Some c) = Inr es" using Cons by (intro Cons.IH) auto
  moreover have "\<not> (case prev of Some p \<Rightarrow> c \<le> p | None \<Rightarrow> False)" using Cons.prems(3) e by (auto split: option.splits)
  ultimately show ?case using Cons.prems(2) by (simp add: e encode_entry_def byte_simps le_i64_inverse)
qed simp

section \<open>The file reads back\<close>

lemma chunks_encoded: "chunks_of ENTRY_LEN (concat (map (\<lambda>(c, ms). encode_entry c ms) es)) = map (\<lambda>(c, ms). encode_entry c ms) es"
proof (induction es)
  case (Cons e es)
  then show ?case using length_encode_entry by (cases e) (simp add: chunks_of_exact_append ENTRY_LEN_def)
qed simp

lemma length_encoded: "length (concat (map (\<lambda>(c, ms). encode_entry c ms) es)) = length es * ENTRY_LEN"
  by (induction es) (auto simp: length_encode_entry)

text \<open>The header and body of a file, taken apart.\<close>

lemma ct_decode_header:
  fixes f :: u64
  shows "ct_decode (COMMIT_TIMES_MAGIC @ u16_le COMMIT_TIMES_VERSION @ u64_le f @ body) =
     (if length body mod ENTRY_LEN \<noteq> 0 then Inl (Corrupt ''commit_times: a torn append'')
      else case decode_entries (chunks_of ENTRY_LEN body) None of Inl e \<Rightarrow> Inl e
        | Inr es \<Rightarrow> Inr \<lparr> floor_commit = f, ct_entries = es \<rparr>)"
proof -
  let ?bs = "COMMIT_TIMES_MAGIC @ u16_le COMMIT_TIMES_VERSION @ u64_le f @ body"
  have m: "length COMMIT_TIMES_MAGIC = 4" by (simp add: COMMIT_TIMES_MAGIC_def)
  have l: "\<not> length ?bs < HEADER_LEN" by (simp add: m byte_simps HEADER_LEN_def)
  obtain a b where ab: "u16_le COMMIT_TIMES_VERSION = [a, b]" using length_u16_le [of COMMIT_TIMES_VERSION]
    by (metis (no_types) One_nat_def Suc_1 length_0_conv length_Suc_conv)
  have "[?bs ! 4, ?bs ! 5] = u16_le COMMIT_TIMES_VERSION" using m ab by (simp add: nth_append)
  then have v: "le_u16 [?bs ! 4, ?bs ! 5] = COMMIT_TIMES_VERSION" using le_u16_inverse [of COMMIT_TIMES_VERSION] by simp
  have t: "take 4 ?bs = COMMIT_TIMES_MAGIC" "take 8 (drop 6 ?bs) = u64_le f" "drop HEADER_LEN ?bs = body"
    using m by (simp_all add: byte_simps HEADER_LEN_def)
  have f: "le_u64 (u64_le f) = f" by (simp add: byte_simps)
  show ?thesis unfolding ct_decode_def Let_def t v f using l by (simp add: byte_simps)
qed

lemma ct_decode_file:
  assumes "ct_ok (t \<lparr> ct_entries := es \<rparr>)"
  shows "ct_decode (COMMIT_TIMES_MAGIC @ u16_le COMMIT_TIMES_VERSION @ u64_le (floor_commit t) @ concat (map (\<lambda>(c, ms). encode_entry c ms) es))
    = Inr (t \<lparr> ct_entries := es \<rparr>)"
proof -
  have "decode_entries (map (\<lambda>(c, ms). encode_entry c ms) es) None = Inr es"
    using assms by (intro decode_encode_entries) (auto simp: ct_ok_def)
  then show ?thesis unfolding ct_decode_header length_encoded chunks_encoded by simp
qed

text \<open>
  The sidecar reads back as the map it was written from; appending the bytes of one newer entry
  to the file of a map with entries gives the file of the map with that entry pushed, so a commit
  can stamp itself without rewriting; and an append torn anywhere is refused as corrupt, never
  silently dropped. Pushing and truncating keep the map sorted by commit above its floor.
\<close>

theorem commit_times_file:
  assumes "ct_ok t" and "ct_entries t \<noteq> []" and "fst (last (ct_entries t)) < c" and "try_i64 ms = Some ms"
  shows "ct_decode (ct_encode t) = Inr t
    \<and> ct_decode (ct_encode t @ encode_entry c ms) = Inr (ct_push t c ms)
    \<and> (\<forall>k. 0 < k \<and> k < ENTRY_LEN \<longrightarrow>
        ct_decode (ct_encode t @ take k (encode_entry c ms)) = Inl (Corrupt ''commit_times: a torn append''))
    \<and> ct_ok (ct_push t c ms) \<and> ct_ok (truncate_below t c)"
proof -
  have same: "t \<lparr> ct_entries := ct_entries t \<rparr> = t" by simp
  have push: "ct_push t c ms = t \<lparr> ct_entries := ct_entries t @ [(c, ms)] \<rparr>"
    using assms(2,3) by (simp add: ct_push_def newest_commit_def)
  have r1: "ct_decode (ct_encode t) = Inr t"
    using ct_decode_file [where t = t and es = "ct_entries t"] assms(1) by (simp add: ct_encode_def)
  have okp: "ct_ok (ct_push t c ms)" by (rule ct_push_ok [OF assms(1,4)])
  have r2: "ct_decode (ct_encode t @ encode_entry c ms) = Inr (ct_push t c ms)"
    using ct_decode_file [where t = t and es = "ct_entries t @ [(c, ms)]"] okp by (simp add: ct_encode_def push)
  have torn: "ct_decode (ct_encode t @ take k (encode_entry c ms)) = Inl (Corrupt ''commit_times: a torn append'')"
    if "0 < k \<and> k < ENTRY_LEN" for k
  proof -
    have "length (concat (map (\<lambda>(c, ms). encode_entry c ms) (ct_entries t)) @ take k (encode_entry c ms)) mod ENTRY_LEN \<noteq> 0"
      using that by (simp add: length_encoded length_encode_entry)
    then show ?thesis unfolding ct_encode_def append_assoc ct_decode_header by simp
  qed
  show ?thesis using r1 r2 torn okp truncate_below_ok [OF assms(1)] by blast
qed

theorem commit_times_file_witness:
  "ct_decode (ct_encode (ct_push ct_default 7 (- 5)) @ encode_entry 9 1700000000000) = Inr (ct_push (ct_push ct_default 7 (- 5)) 9 1700000000000)"
  using commit_times_file [of "ct_push ct_default 7 (- 5)" 9 1700000000000]
  by (auto simp: ct_push_def ct_default_def newest_commit_def ct_ok_def try_i64_def)

section \<open>Resolution\<close>

lemma foldl_last: "foldl (\<lambda>a (c, m). if P m then c else a) d es = (if filter (\<lambda>e. P (snd e)) es = [] then d else fst (last (filter (\<lambda>e. P (snd e)) es)))"
proof (induction es rule: rev_induct)
  case (snoc e es)
  then show ?case by (cases e) auto
qed simp

lemma strict_last_Max: "strict xs \<Longrightarrow> xs \<noteq> [] \<Longrightarrow> Max (set xs) = (last xs :: 'a::linorder)"
  by (intro Max_eqI; cases xs rule: rev_cases) (auto simp: strict_simps intro: less_imp_le)

lemma resolve_Max:
  assumes "ct_ok t" and "ct_entries t = (c, m) # es" and "m \<le> ms"
  shows "foldl (\<lambda>a (c, m). if m \<le> ms then c else a) c (ct_entries t) = Max {c. \<exists>m. (c, m) \<in> set (ct_entries t) \<and> m \<le> ms}"
proof -
  let ?f = "filter (\<lambda>e. snd e \<le> ms) (ct_entries t)"
  have ne: "?f \<noteq> []" using assms(2,3) by simp
  have "strict (map fst ?f)"
    using assms(1) unfolding ct_ok_def sorted_wrt_map by (simp add: sorted_wrt_filter)
  then have "Max (set (map fst ?f)) = last (map fst ?f)" using ne by (intro strict_last_Max) auto
  moreover have "set (map fst ?f) = {c. \<exists>m. (c, m) \<in> set (ct_entries t) \<and> m \<le> ms}" by force
  ultimately show ?thesis using ne by (simp add: foldl_last last_map)
qed

lemma time_of_map: "ct_ok t \<Longrightarrow> time_of t c = map_of (ct_entries t) c"
proof -
  assume "ct_ok t"
  then have st: "strict (map fst (ct_entries t))" by (simp add: ct_ok_def)
  show ?thesis
  proof (cases "binary_search (map fst (ct_entries t)) c")
    case (Found i)
    have i: "i < length (ct_entries t)" "fst (ct_entries t ! i) = c"
      using binary_search_Found [OF Found strict_sorted [OF st]] by auto
    then have "(c, snd (ct_entries t ! i)) \<in> set (ct_entries t)" by (metis nth_mem prod.collapse)
    then have "map_of (ct_entries t) c = Some (snd (ct_entries t ! i))" using strict_distinct [OF st] by (simp add: map_of_eq_Some_iff)
    then show ?thesis using Found by (simp add: time_of_def)
  next
    case (Missing i)
    then have "c \<notin> set (map fst (ct_entries t))" using binary_search_Found_iff [OF st, of c] by auto
    then have "map_of (ct_entries t) c = None" by (simp add: map_of_eq_None_iff)
    then show ?thesis using Missing by (simp add: time_of_def)
  qed
qed

text \<open>
  C31: an instant resolves to the greatest commit whose recorded time is at or before it, whatever
  order the clock recorded the times in, and only to a commit the log can still replay. The three
  refusals are exactly: nothing recorded, an instant before the oldest entry, and a commit below the
  horizon. A recorded time is found by its commit.
\<close>

theorem commit_times_resolution:
  assumes "ct_ok t"
  shows "(resolve_instant t ms horizon = Inr a \<longleftrightarrow>
      ct_entries t \<noteq> [] \<and> snd (hd (ct_entries t)) \<le> ms \<and> horizon \<le> a
        \<and> a = Max {c. \<exists>m. (c, m) \<in> set (ct_entries t) \<and> m \<le> ms})
    \<and> (resolve_instant t ms horizon = Inl NoRecordedTime \<longleftrightarrow> ct_entries t = [])
    \<and> ((\<exists>f c. resolve_instant t ms horizon = Inl (TimeBeforeFloor f c)) \<longleftrightarrow> (\<exists>f. floor_ms t = Some f \<and> ms < f))
    \<and> time_of t c = map_of (ct_entries t) c"
proof (cases "ct_entries t")
  case Nil
  then show ?thesis using time_of_map [OF assms, of c] by (simp add: resolve_instant_def floor_ms_def)
next
  case (Cons e es)
  obtain c0 m0 where e: "e = (c0, m0)" by (cases e)
  have E: "ct_entries t = (c0, m0) # es" using Cons e by simp
  let ?M = "Max {c. \<exists>m. (c, m) \<in> set (ct_entries t) \<and> m \<le> ms}"
  have r: "resolve_instant t ms horizon = (if ms < m0 then Inl (TimeBeforeFloor m0 (floor_commit t))
      else if ?M < horizon then Inl (CommitOutOfRange ?M (case newest_commit t of Some n \<Rightarrow> n + 1 | None \<Rightarrow> 0) horizon) else Inr ?M)"
  proof (cases "ms < m0")
    case False
    then show ?thesis using resolve_Max [OF assms E, of ms] unfolding resolve_instant_def E by (simp add: Let_def)
  qed (simp add: resolve_instant_def E)
  have h: "floor_ms t = Some m0" "snd (hd (ct_entries t)) = m0" "ct_entries t \<noteq> []" by (simp_all add: floor_ms_def E)
  show ?thesis unfolding r h time_of_map [OF assms] using h(3) by auto
qed

theorem commit_times_resolution_witness:
  "(let t = ct_push (ct_push (ct_push ct_default 10 1000) 20 500) 30 3000 in resolve_instant t 1500 0) = Inr 20"
proof -
  let ?t = "ct_push (ct_push (ct_push ct_default 10 1000) 20 500) 30 3000"
  have E: "ct_entries ?t = [(10, 1000), (20, 500), (30, 3000)]" by (simp add: ct_push_def ct_default_def newest_commit_def)
  have ok: "ct_ok ?t" by (intro ct_push_ok) (simp_all add: ct_ok_def ct_default_def try_i64_def)
  have "{c. \<exists>m. (c, m) \<in> set (ct_entries ?t) \<and> m \<le> 1500} = {10, 20}" unfolding E by auto
  then show ?thesis using commit_times_resolution [OF ok, of 1500 0 20] E by auto
qed

end
