(* ===== verification/Rfc3339.thy ===== *)
theory Rfc3339
  imports Duration
begin

text \<open>
  The parser of RFC 3339 instants (\<open>parse_rfc3339_ms\<close> and \<open>parse_rfc3339_end_ms\<close> in
  \<open>crates/core-storage/src/commit_times.rs\<close>). The arithmetic is on \<open>i64\<close> and wraps, as a release build
  does; sums and products wrap once, at the end. A string is its UTF-8 bytes.
\<close>

definition wrap_i64 :: "int \<Rightarrow> int" where "wrap_i64 n = (n + 2 ^ 63) mod 2 ^ 64 - 2 ^ 63"

text \<open>Rust's integer division truncates.\<close>

definition trunc_div :: "int \<Rightarrow> int \<Rightarrow> int" where
  "trunc_div a b = (if 0 \<le> a then a div b else - ((- a) div b))"

definition rfc_days_from_civil :: "int \<Rightarrow> int \<Rightarrow> int \<Rightarrow> int" where
  "rfc_days_from_civil y m d =
     (let y = (if m \<le> 2 then y - 1 else y);
          era = trunc_div (if y \<ge> 0 then y else y - 399) 400;
          yoe = y - era * 400;
          mp = (m + 9) mod 12;
          doy = (153 * mp + 2) div 5 + d - 1;
          doe = yoe * 365 + yoe div 4 - yoe div 100 + doy
      in era * 146097 + doe - 719468)"

definition digits :: "string \<Rightarrow> int option" where
  "digits s = (if s = [] \<or> \<not> list_all is_ascii_digit s then None else try_i64 (int (digits_val s)))"

text \<open>\<open>str::split\<close> on one character.\<close>

fun split_on :: "char \<Rightarrow> string \<Rightarrow> string list" where
  "split_on c [] = [[]]"
| "split_on c (x # xs) =
     (if x = c then [] # split_on c xs
      else case split_on c xs of p # ps \<Rightarrow> (x # p) # ps | [] \<Rightarrow> [[x]])"

definition split_once :: "char \<Rightarrow> string \<Rightarrow> (string \<times> string) option" where
  "split_once c s =
     (let a = takeWhile (\<lambda>x. x \<noteq> c) s
      in if length a = length s then None else Some (a, drop (Suc (length a)) s))"

text \<open>\<open>str::trim\<close>: the Unicode white space, each as the UTF-8 bytes of its character.\<close>

definition WHITE_SPACE :: "string list" where
  "WHITE_SPACE = map (map char_of)
     ([[9], [10], [11], [12], [13], [32], [0xC2, 0x85], [0xC2, 0xA0], [0xE1, 0x9A, 0x80],
       [0xE2, 0x80, 0xA8], [0xE2, 0x80, 0xA9], [0xE2, 0x80, 0xAF], [0xE2, 0x81, 0x9F], [0xE3, 0x80, 0x80]]
      @ map (\<lambda>n. [0xE2, 0x80, n]) [0x80..<0x8B :: nat])"

function trim_start :: "string list \<Rightarrow> string \<Rightarrow> string" where
  "trim_start ws s =
     (case find (\<lambda>w. w \<noteq> [] \<and> take (length w) s = w) ws of
        None \<Rightarrow> s | Some w \<Rightarrow> trim_start ws (drop (length w) s))"
  by pat_completeness auto
termination
proof (relation "measure (\<lambda>(ws, s). length s)", goal_cases)
  case (2 ws s w)
  then have "w \<noteq> []" "take (length w) s = w" by (auto simp: find_Some_iff)
  then have "s \<noteq> []" by auto
  then show ?case using \<open>w \<noteq> []\<close> by simp
qed simp

declare trim_start.simps [simp del]

definition trim :: "string \<Rightarrow> string" where
  "trim s = rev (trim_start (map rev WHITE_SPACE) (rev (trim_start WHITE_SPACE s)))"

definition is_sep :: "char \<Rightarrow> bool" where "is_sep c \<longleftrightarrow> c = CHR ''T'' \<or> c = CHR ''t'' \<or> c = CHR '' ''"

text \<open>The date before the separator, and the offset off the time of day.\<close>

definition parse_date :: "string \<Rightarrow> int option" where
  "parse_date date =
     (case split_on CHR ''-'' date of
        [y, mo, d] \<Rightarrow> do {
          y \<leftarrow> digits y; mo \<leftarrow> digits mo; d \<leftarrow> digits d;
          if \<not> (1 \<le> mo \<and> mo \<le> 12) \<or> \<not> (1 \<le> d \<and> d \<le> 31) \<or> y < 1 then None
          else Some (rfc_days_from_civil y mo d) }
      | _ \<Rightarrow> None)"

text \<open>
  A slice that does not begin at a character panics: the two halves of a four-byte offset are cut at
  byte 2 without looking at the characters. The outer \<open>None\<close> is that panic.
\<close>

definition char_boundary :: "string \<Rightarrow> nat \<Rightarrow> bool" where
  "char_boundary s i \<longleftrightarrow> i = length s \<or> (i < length s \<and> \<not> ((128 :: nat) \<le> of_char (s ! i) \<and> of_char (s ! i) < (192 :: nat)))"

definition offset_fields :: "string \<Rightarrow> (int \<times> int) option option" where
  "offset_fields off =
     (case split_once CHR '':'' off of
        Some (a, b) \<Rightarrow> Some (do { oh \<leftarrow> digits a; om \<leftarrow> digits b; Some (oh, om) })
      | None \<Rightarrow>
          if length off \<noteq> 4 then Some None
          else if \<not> char_boundary off 2 then None
          else Some (do { oh \<leftarrow> digits (take 2 off); om \<leftarrow> digits (drop 2 off); Some (oh, om) }))"

definition split_offset :: "string \<Rightarrow> (string \<times> int) option option" where
  "split_offset rest =
     (if rest \<noteq> [] \<and> (last rest = CHR ''Z'' \<or> last rest = CHR ''z'') then Some (Some (butlast rest, 0))
      else
        let tail_len = length (takeWhile (\<lambda>c. c \<noteq> CHR ''+'' \<and> c \<noteq> CHR ''-'') (rev rest))
        in if tail_len = length rest then Some (Some (rest, 0))
           else
             let i = length rest - tail_len - 1;
                 sign = (if rest ! i = CHR ''-'' then - 1 else 1);
                 off = drop (Suc i) rest
             in case offset_fields off of
                  None \<Rightarrow> None
                | Some None \<Rightarrow> Some None
                | Some (Some (oh, om)) \<Rightarrow>
                    if \<not> (0 \<le> oh \<and> oh \<le> 23) \<or> \<not> (0 \<le> om \<and> om \<le> 59) then Some None
                    else Some (Some (take i rest, sign * (oh * 3600000 + om * 60000))))"

definition frac_millis :: "string \<Rightarrow> int" where
  "frac_millis frac = (\<Sum>i\<leftarrow>[0..<min 3 (length frac)]. int (digit_val (frac ! i)) * 10 ^ (2 - i))"

definition parse_second_field :: "string \<Rightarrow> (int \<times> int) option" where
  "parse_second_field sec_field =
     (case split_once CHR ''.'' sec_field of
        None \<Rightarrow> do { s \<leftarrow> digits sec_field; Some (s, 0) }
      | Some (whole, frac) \<Rightarrow>
          if frac = [] \<or> \<not> list_all is_ascii_digit frac then None
          else do { s \<leftarrow> digits whole; Some (s, frac_millis frac) })"

definition parse_clock :: "string \<Rightarrow> int option" where
  "parse_clock time =
     (case split_on CHR '':'' time of
        h # mi # tp \<Rightarrow> do {
          h \<leftarrow> digits h; mi \<leftarrow> digits mi;
          (sec, frac_ms) \<leftarrow> (case tp of [] \<Rightarrow> Some (0, 0) | sec_field # _ \<Rightarrow> parse_second_field sec_field);
          if length tp > 1 then None
          else if \<not> (0 \<le> h \<and> h \<le> 23) \<or> \<not> (0 \<le> mi \<and> mi \<le> 59) \<or> \<not> (0 \<le> sec \<and> sec \<le> 60) then None
          else Some (h * 3600000 + mi * 60000 + sec * 1000 + frac_ms) }
      | _ \<Rightarrow> None)"

definition parse_rfc3339_ms :: "string \<Rightarrow> int option option" where
  "parse_rfc3339_ms s =
     (let s = trim s; date = takeWhile (\<lambda>c. \<not> is_sep c) s
      in case parse_date date of
           None \<Rightarrow> Some None
         | Some days \<Rightarrow>
             if length date = length s then Some (Some (wrap_i64 (days * 86400000)))
             else
               (case split_offset (drop (Suc (length date)) s) of
                  None \<Rightarrow> None
                | Some None \<Rightarrow> Some None
                | Some (Some (time, offset_ms)) \<Rightarrow>
                    Some (map_option (\<lambda>clock. wrap_i64 (days * 86400000 + clock - offset_ms)) (parse_clock time))))"

definition parse_rfc3339_end_ms :: "string \<Rightarrow> int option option" where
  "parse_rfc3339_end_ms s =
     (let t = trim s
      in map_option (map_option (\<lambda>ms. if list_ex is_sep t then ms else wrap_i64 (ms + 86400000 - 1))) (parse_rfc3339_ms t))"

section \<open>Pieces of the text\<close>

lemma split_on_none: "c \<notin> set a \<Longrightarrow> split_on c a = [a]"
  by (induction a) auto

lemma split_on_append: "c \<notin> set a \<Longrightarrow> split_on c (a @ c # b) = a # split_on c b"
  by (induction a) auto

lemma split_once_none: "c \<notin> set a \<Longrightarrow> split_once c a = None"
proof -
  assume "c \<notin> set a"
  then have "takeWhile (\<lambda>x. x \<noteq> c) a = a" by (intro takeWhile_eq_all_conv [THEN iffD2]) auto
  then show ?thesis unfolding split_once_def Let_def by (simp only: simp_thms if_True)
qed

lemma split_once_append: "c \<notin> set a \<Longrightarrow> split_once c (a @ c # b) = Some (a, b)"
proof -
  assume "c \<notin> set a"
  then have "takeWhile (\<lambda>x. x \<noteq> c) (a @ c # b) = a" by (subst takeWhile_append2) auto
  then show ?thesis by (simp add: split_once_def)
qed

lemma digits_pad: "n < 2 ^ 63 \<Longrightarrow> digits (pad w n) = Some (int n)"
  using pad_digits [of w n] by (simp add: digits_def pad_nonempty try_i64_def)

lemma pad_chars: "c \<in> set (pad w n) \<Longrightarrow> is_ascii_digit c"
  using pad_digits [of w n] by (simp add: list_all_iff)

lemma not_in_pad [simp]: "CHR ''-'' \<notin> set (pad w n)" "CHR '':'' \<notin> set (pad w n)" "CHR ''.'' \<notin> set (pad w n)"
  "CHR ''+'' \<notin> set (pad w n)" "CHR ''T'' \<notin> set (pad w n)" "CHR ''t'' \<notin> set (pad w n)" "CHR '' '' \<notin> set (pad w n)"
  using pad_chars by (fastforce simp: is_ascii_digit_def)+

lemma digits_val_less: "list_all is_ascii_digit s \<Longrightarrow> digits_val s < 10 ^ length s"
proof (induction s rule: rev_induct)
  case (snoc c s)
  then have "digit_val c < 10" by (auto simp: digit_val_def is_ascii_digit_def)
  then show ?case using snoc by (simp add: digits_val_snoc)
qed (simp add: digits_val_def)

lemma frac_millis_pad:
  assumes "n < 10 ^ 6" shows "frac_millis (pad 6 n) = int (n div 1000)"
proof -
  let ?p = "pad 6 n"
  have l: "length ?p = 6" using assms by (intro length_pad) simp_all
  obtain a b c r where p: "?p = a # b # c # r" using l by (cases ?p; cases "tl ?p"; cases "tl (tl ?p)") auto
  have r: "length r = 3" using l p by simp
  have "n = digits_val ([a, b, c] @ r)" using pad_val [of 6 n] p by simp
  then have n: "n = digits_val [a, b, c] * 1000 + digits_val r" using digits_val_append [of "[a, b, c]" r] by (simp add: r)
  have "digits_val r < 1000" using digits_val_less [of r] pad_digits [of 6 n] p r by simp
  then have "n div 1000 = digits_val [a, b, c]" using n by simp
  moreover have "frac_millis ?p = int (digits_val [a, b, c])"
    by (simp add: frac_millis_def p digits_val_def upt_rec)
  ultimately show ?thesis by simp
qed

section \<open>Trimming\<close>

definition ws_ends :: "nat set" where "ws_ends = {9..13} \<union> {32} \<union> {127..255}"

lemma ws_all: "list_all (\<lambda>w. w \<noteq> [] \<and> (of_char (hd w) \<le> (32 :: nat) \<or> (127 :: nat) < of_char (hd w))
    \<and> (of_char (last w) \<le> (32 :: nat) \<or> (127 :: nat) < of_char (last w))) WHITE_SPACE"
  by (simp add: WHITE_SPACE_def upt_rec)

lemma trim_start_id:
  assumes "\<forall>w\<in>set ws. w \<noteq> [] \<longrightarrow> s = [] \<or> hd w \<noteq> hd s"
  shows "trim_start ws s = s"
proof -
  have "find (\<lambda>w. w \<noteq> [] \<and> take (length w) s = w) ws = None"
    unfolding find_None_iff
  proof (rule notI, elim exE conjE)
    fix w
    assume w: "w \<in> set ws" "w \<noteq> []" "take (length w) s = w"
    then have "s \<noteq> []" by auto
    moreover have "hd w = hd s" using w by (metis hd_take length_greater_0_conv)
    ultimately show False using assms w by blast
  qed
  then show ?thesis by (subst trim_start.simps) simp
qed

text \<open>Text that starts and ends in a printable character is not trimmed.\<close>

lemma trim_id:
  assumes "s \<noteq> []" and "(32 :: nat) < of_char (hd s)" "of_char (hd s) \<le> (127 :: nat)"
    and "(32 :: nat) < of_char (last s)" "of_char (last s) \<le> (127 :: nat)"
  shows "trim s = s"
proof -
  have "trim_start WHITE_SPACE s = s"
    using ws_all assms(2,3) by (intro trim_start_id) (fastforce simp: list_all_iff)
  moreover have "trim_start (map rev WHITE_SPACE) (rev s) = rev s"
    using ws_all assms(1,4,5) by (intro trim_start_id) (fastforce simp: list_all_iff hd_rev)
  ultimately show ?thesis by (simp add: trim_def)
qed

section \<open>Days\<close>

lemma rfc_days: "0 < y \<Longrightarrow> 1 \<le> m \<Longrightarrow> m \<le> 12 \<Longrightarrow> rfc_days_from_civil y m d = days_from_civil y m d"
proof -
  assume a: "0 < y" "1 \<le> m" "m \<le> 12"
  let ?y = "if m \<le> 2 then y - 1 else y"
  have y: "0 \<le> ?y" using a by simp
  have mp: "(m + 9) mod 12 = (if m > 2 then m - 3 else m + 9)"
  proof (cases "m > 2")
    case True
    have "(m + 9) mod 12 = (m - 3 + 12) mod 12" by (rule arg_cong [where f = "\<lambda>x. x mod 12"]) simp
    also have "\<dots> = m - 3" using a True by (subst mod_add_self2) (simp add: mod_pos_pos_trivial)
    finally show ?thesis using True by simp
  qed (use a in simp)
  have "?y - ?y div 400 * 400 = ?y mod 400" by (simp add: minus_div_mult_eq_mod)
  then show ?thesis using y unfolding rfc_days_from_civil_def days_from_civil_def Let_def mp trunc_div_def by simp
qed

lemma parse_date_format:
  assumes "civil_from_days days = (y, m, d)" and "1 \<le> y" and "y \<le> 9999"
  shows "format_civil days = pad 4 (nat y) @ ''-'' @ pad 2 (nat m) @ ''-'' @ pad 2 (nat d)"
    and "parse_date (format_civil days) = Some days"
proof -
  have v: "valid_civil y m d" and days: "days_from_civil y m d = days" by (rule days_of_civil [OF assms(1)])+
  have md: "1 \<le> m" "m \<le> 12" "1 \<le> d" "d \<le> 31" using v by (auto simp: valid_civil_def days_in_month_def split: if_splits)
  show f: "format_civil days = pad 4 (nat y) @ ''-'' @ pad 2 (nat m) @ ''-'' @ pad 2 (nat d)"
    using assms by (simp add: format_civil_def)
  have sp: "split_on CHR ''-'' (format_civil days) = [pad 4 (nat y), pad 2 (nat m), pad 2 (nat d)]"
    unfolding f using split_on_append [of "CHR ''-''" "pad 4 (nat y)"] split_on_append [of "CHR ''-''" "pad 2 (nat m)"]
    by (simp add: split_on_none)
  have g: "digits (pad 4 (nat y)) = Some y" "digits (pad 2 (nat m)) = Some m" "digits (pad 2 (nat d)) = Some d"
    using assms md by (simp_all add: digits_pad)
  show "parse_date (format_civil days) = Some days"
    unfolding parse_date_def sp using g md assms(2) rfc_days [of y m d] days by simp
qed

section \<open>Clock and offset\<close>

definition clock_text :: "nat \<Rightarrow> nat \<Rightarrow> string" where
  "clock_text sod sub = pad 2 (sod div 3600) @ '':'' @ pad 2 (sod div 60 mod 60) @ '':'' @ pad 2 (sod mod 60)
     @ (if sub = 0 then [] else ''.'' @ pad 6 sub)"

lemma second_field:
  assumes "n < 60" and "sub < 10 ^ 6"
  shows "parse_second_field (pad 2 n @ (if sub = 0 then [] else ''.'' @ pad 6 sub)) = Some (int n, int (sub div 1000))"
proof (cases "sub = 0")
  case True
  then show ?thesis using assms(1) by (simp add: parse_second_field_def split_once_none digits_pad)
next
  case False
  have sp: "split_once CHR ''.'' (pad 2 n @ CHR ''.'' # pad 6 sub) = Some (pad 2 n, pad 6 sub)" by (rule split_once_append) simp
  show ?thesis using False assms pad_digits [of 6 sub]
    by (simp add: parse_second_field_def sp digits_pad pad_nonempty frac_millis_pad)
qed

lemma parse_clock_text:
  assumes "sod < 86400" and "sub < 10 ^ 6"
  shows "parse_clock (clock_text sod sub) = Some (int sod * 1000 + int (sub div 1000))"
proof -
  define f where "f = pad 2 (sod mod 60) @ (if sub = 0 then [] else ''.'' @ pad 6 sub)"
  have nf: "CHR '':'' \<notin> set f" by (simp add: f_def)
  have sp: "split_on CHR '':'' (clock_text sod sub) = [pad 2 (sod div 3600), pad 2 (sod div 60 mod 60), f]"
    using split_on_append [of "CHR '':''" "pad 2 (sod div 3600)" "pad 2 (sod div 60 mod 60) @ '':'' @ f"]
      split_on_append [of "CHR '':''" "pad 2 (sod div 60 mod 60)" f] split_on_none [OF nf]
    by (simp add: clock_text_def f_def)
  have h: "sod div 3600 < 24" using assms(1) by simp
  have ds: "digits (pad 2 (sod div 3600)) = Some (int (sod div 3600))" "digits (pad 2 (sod div 60 mod 60)) = Some (int (sod div 60 mod 60))"
    using h by (simp_all add: digits_pad)
  have sf: "parse_second_field f = Some (int (sod mod 60), int (sub div 1000))"
    unfolding f_def using assms(2) by (intro second_field) simp_all
  have "int (sod div 3600) * 3600000 + int (sod div 60 mod 60) * 60000 + int (sod mod 60) * 1000 = int sod * 1000"
    using arg_cong [OF hms_sum [of sod], of int] by simp
  moreover have "int (sod div 3600) \<le> 23" "int (sod div 60 mod 60) \<le> 59" "int (sod mod 60) \<le> 60" using h by simp_all
  ultimately show ?thesis unfolding parse_clock_def sp using ds sf by simp
qed

definition offset_text :: "int \<Rightarrow> string" where
  "offset_text off = (if off < 0 then ''-'' else ''+'') @ pad 2 (nat \<bar>off\<bar> div 3600) @ '':'' @ pad 2 (nat \<bar>off\<bar> div 60 mod 60)"

lemma split_offset_text:
  assumes "off mod 60 = 0" and "\<bar>off\<bar> \<le> MAX_OFFSET_SECONDS"
  shows "split_offset (t @ offset_text off) = Some (Some (t, off * 1000))"
proof -
  define a where "a = nat \<bar>off\<bar>"
  define tail where "tail = pad 2 (a div 3600) @ '':'' @ pad 2 (a div 60 mod 60)"
  define c where "c = (if off < 0 then CHR ''-'' else CHR ''+'')"
  have r: "t @ offset_text off = t @ c # tail" by (simp add: offset_text_def a_def tail_def c_def)
  have tl: "last (t @ c # tail) = last (pad 2 (a div 60 mod 60))" by (simp add: tail_def pad_nonempty)
  have "is_ascii_digit (last (pad 2 (a div 60 mod 60)))" using pad_chars [OF last_in_set [OF pad_nonempty]] .
  then have z: "last (t @ c # tail) \<noteq> CHR ''Z''" "last (t @ c # tail) \<noteq> CHR ''z''" unfolding tl by (auto simp: is_ascii_digit_def)
  have none: "\<forall>x\<in>set tail. x \<noteq> CHR ''+'' \<and> x \<noteq> CHR ''-''" by (auto simp: tail_def dest: pad_chars)
  have tw: "takeWhile (\<lambda>x. x \<noteq> CHR ''+'' \<and> x \<noteq> CHR ''-'') (rev (t @ c # tail)) = rev tail"
    using none by (simp add: takeWhile_append c_def)
  have i: "length (t @ c # tail) - length (rev tail) - 1 = length t" "(t @ c # tail) ! length t = c" "drop (Suc (length t)) (t @ c # tail) = tail"
    by (simp_all add: nth_append)
  have so: "split_once CHR '':'' tail = Some (pad 2 (a div 3600), pad 2 (a div 60 mod 60))"
    unfolding tail_def using split_once_append [of "CHR '':''" "pad 2 (a div 3600)"] by simp
  have a: "a \<le> 64800" using assms(2) by (simp add: a_def MAX_OFFSET_SECONDS_def)
  have bounds: "a div 3600 < 24" "a div 60 mod 60 < 60" using a by simp_all
  have m0: "a mod 60 = 0"
  proof -
    have "int a mod 60 = 0" unfolding a_def using assms(1) by (cases "off < 0") (simp_all add: zmod_zminus1_eq_if)
    then show ?thesis by (metis of_nat_eq_0_iff of_nat_mod of_nat_numeral)
  qed
  have sum: "int (a div 3600) * 3600000 + int (a div 60 mod 60) * 60000 = int a * 1000"
    using arg_cong [OF hms_sum [of a], of int] m0 by simp
  have sgn: "(if c = CHR ''-'' then - 1 else 1) * (int a * 1000) = off * 1000" by (simp add: a_def c_def)
  show ?thesis
    unfolding r split_offset_def Let_def tw i using z bounds sum sgn
    by (simp add: offset_fields_def so digits_pad)
qed

section \<open>Instants\<close>

lemma wrap_i64_id: "- (2 ^ 63) \<le> n \<Longrightarrow> n < 2 ^ 63 \<Longrightarrow> wrap_i64 n = n"
  by (simp add: wrap_i64_def)

lemma date_text_ends:
  assumes "civil_from_days days = (y, m, d)" and "1 \<le> y" and "y \<le> 9999"
  shows "\<forall>c\<in>set (format_civil days). \<not> is_sep c" and "format_civil days \<noteq> []"
    and "is_ascii_digit (hd (format_civil days @ rest))" and "is_ascii_digit (last (format_civil days))"
proof -
  note f = parse_date_format(1) [OF assms]
  show "\<forall>c\<in>set (format_civil days). \<not> is_sep c" unfolding f by (auto simp: is_sep_def)
  show "format_civil days \<noteq> []" unfolding f by simp
  show "is_ascii_digit (hd (format_civil days @ rest))" unfolding f using hd_pad_digit [of 4] by simp
  show "is_ascii_digit (last (format_civil days))" unfolding f using pad_chars [OF last_in_set [OF pad_nonempty]] by (simp add: pad_nonempty)
qed

lemma digit_printable: "is_ascii_digit c \<Longrightarrow> (32 :: nat) < of_char c \<and> of_char c \<le> (127 :: nat)"
  by (simp add: is_ascii_digit_def)

lemma day_bound:
  assumes "civil_from_days days = (y, m, d)" and "1 \<le> y" and "y \<le> 9999"
  shows "\<bar>days\<bar> < 10 ^ 8"
proof -
  have v: "valid_civil y m d" and days: "days_from_civil y m d = days" by (rule days_of_civil [OF assms(1)])+
  have md: "1 \<le> m" "m \<le> 12" "1 \<le> d" "d \<le> 31" using v by (auto simp: valid_civil_def days_in_month_def split: if_splits)
  define y' where "y' = (if m \<le> 2 then y - 1 else y)"
  define mp where "mp = (if m > 2 then m - 3 else m + 9)"
  have mp: "0 \<le> mp" "mp \<le> 11" using md by (auto simp: mp_def)
  have y': "0 \<le> y'" "y' \<le> 9999" using assms by (auto simp: y'_def)
  define e r q k where "e = y' div 400" and "r = y' mod 400" and "q = r div 4 - r div 100" and "k = (153 * mp + 2) div 5"
  have days': "days = e * 146097 + (r * 365 + q + (k + d - 1)) - 719468"
    using days by (simp add: days_from_civil_def Let_def y'_def mp_def e_def r_def q_def k_def)
  have e: "0 \<le> e" "e \<le> 24" and r: "0 \<le> r" "r < 400" using y' by (simp_all add: e_def r_def)
  have "0 \<le> r div 4" "r div 4 < 100" "0 \<le> r div 100" "r div 100 < 4" using r by simp_all
  then have q: "- 4 \<le> q" "q \<le> 100" by (simp_all add: q_def)
  have k: "0 \<le> k" "k < 400" using mp by (simp_all add: k_def)
  show ?thesis unfolding days' using e r q k md by (simp add: abs_less_iff)
qed

lemma parse_bare_date:
  assumes "civil_from_days days = (y, m, d)" and "1 \<le> y" and "y \<le> 9999"
  shows "parse_rfc3339_ms (format_civil days) = Some (Some (days * 86400000))"
    and "parse_rfc3339_end_ms (format_civil days) = Some (Some (days * 86400000 + 86399999))"
proof -
  note e = date_text_ends [OF assms] and p = parse_date_format(2) [OF assms] and b = day_bound [OF assms]
  have t: "trim (format_civil days) = format_civil days"
    using trim_id [OF e(2)] digit_printable [OF e(3) [of "[]"]] digit_printable [OF e(4)] by simp
  have tw: "takeWhile (\<lambda>c. \<not> is_sep c) (format_civil days) = format_civil days"
    using e(1) by (intro takeWhile_eq_all_conv [THEN iffD2]) auto
  have w: "wrap_i64 (days * 86400000) = days * 86400000" "wrap_i64 (days * 86400000 + 86400000 - 1) = days * 86400000 + 86399999"
    using b by (simp_all add: wrap_i64_id abs_less_iff)
  show r: "parse_rfc3339_ms (format_civil days) = Some (Some (days * 86400000))"
    by (simp add: parse_rfc3339_ms_def Let_def t tw p w)
  have "\<not> list_ex is_sep (format_civil days)" using e(1) by (auto simp: list_ex_iff)
  then show "parse_rfc3339_end_ms (format_civil days) = Some (Some (days * 86400000 + 86399999))"
    using w(2) by (simp add: parse_rfc3339_end_ms_def Let_def t r)
qed

lemma parse_instant:
  assumes "civil_from_days days = (y, m, d)" and "1 \<le> y" and "y \<le> 9999" and "sod < 86400" and "sub < 10 ^ 6"
    and "off mod 60 = 0" and "\<bar>off\<bar> \<le> MAX_OFFSET_SECONDS"
  shows "parse_rfc3339_ms (format_civil days @ ''T'' @ clock_text sod sub @ offset_text off)
      = Some (Some (days * 86400000 + int sod * 1000 + int (sub div 1000) - off * 1000))"
    and "parse_rfc3339_end_ms (format_civil days @ ''T'' @ clock_text sod sub @ offset_text off)
      = Some (Some (days * 86400000 + int sod * 1000 + int (sub div 1000) - off * 1000))"
proof -
  let ?s = "format_civil days @ ''T'' @ clock_text sod sub @ offset_text off"
  note e = date_text_ends [OF assms(1-3)] and p = parse_date_format(2) [OF assms(1-3)] and b = day_bound [OF assms(1-3)]
  have l: "is_ascii_digit (last ?s)" using pad_chars [OF last_in_set [OF pad_nonempty]] by (simp add: offset_text_def pad_nonempty)
  have t: "trim ?s = ?s"
    using trim_id [of ?s] digit_printable [OF e(3) [of "''T'' @ clock_text sod sub @ offset_text off"]] digit_printable [OF l] by simp
  have tw: "takeWhile (\<lambda>c. \<not> is_sep c) ?s = format_civil days"
    using e(1) by (subst takeWhile_append2) (auto simp: is_sep_def)
  have off: "\<bar>off\<bar> \<le> 64800" using assms(7) by (simp add: MAX_OFFSET_SECONDS_def)
  have "sub div 1000 < 1000" using assms(5) by simp
  then have w: "wrap_i64 (days * 86400000 + (int sod * 1000 + int (sub div 1000)) - off * 1000)
      = days * 86400000 + int sod * 1000 + int (sub div 1000) - off * 1000"
    using b off assms(4) by (subst wrap_i64_id) (simp_all add: abs_less_iff abs_le_iff)
  have d: "drop (Suc (length (format_civil days))) ?s = clock_text sod sub @ offset_text off" by simp
  show r: "parse_rfc3339_ms ?s = Some (Some (days * 86400000 + int sod * 1000 + int (sub div 1000) - off * 1000))"
    unfolding parse_rfc3339_ms_def Let_def t tw d using w
    by (simp add: p split_offset_text [OF assms(6,7)] parse_clock_text [OF assms(4,5)])
  have "list_ex is_sep ?s" by (simp add: is_sep_def)
  then show "parse_rfc3339_end_ms ?s = Some (Some (days * 86400000 + int sod * 1000 + int (sub div 1000) - off * 1000))"
    unfolding parse_rfc3339_end_ms_def Let_def t r by simp
qed

lemma millis_split: "n div 1000000 * 1000 + n mod 1000000 div 1000 = n div 1000" for n :: nat
proof -
  have "n mod (1000 * 1000) = 1000 * (n div 1000 mod 1000) + n mod 1000" by (rule mod_mult2_eq)
  then have "n mod 1000000 div 1000 = n div 1000 mod 1000" by simp
  moreover have "n div (1000 * 1000) = n div 1000 div 1000" by (rule div_mult2_eq)
  ultimately show ?thesis by simp
qed

lemma datetime_text_exists: "\<bar>off\<bar> \<le> MAX_OFFSET_SECONDS \<Longrightarrow> \<exists>s. datetime_to_iso8601 micros off = Some s"
  by (simp add: datetime_to_iso8601_def Let_def)

lemma datetime_text:
  assumes "datetime_to_iso8601 micros off = Some s" and "off mod 60 = 0"
  defines "loc \<equiv> micros + off * 1000000"
  shows "s = format_civil (loc div 86400000000) @ ''T'' @ clock_text (nat (loc mod 86400000000) div 1000000) (nat (loc mod 86400000000) mod 1000000)
      @ offset_text off" and "\<bar>off\<bar> \<le> MAX_OFFSET_SECONDS"
proof -
  show b: "\<bar>off\<bar> \<le> MAX_OFFSET_SECONDS" using assms(1) by (simp add: datetime_to_iso8601_def split: if_splits)
  have "int (nat \<bar>off\<bar>) mod 60 = 0" using assms(2) by (cases "off < 0") (simp_all add: zmod_zminus1_eq_if)
  then have m0: "nat \<bar>off\<bar> mod 60 = 0" by (metis of_nat_eq_0_iff of_nat_mod of_nat_numeral)
  show "s = format_civil (loc div 86400000000) @ ''T'' @ clock_text (nat (loc mod 86400000000) div 1000000) (nat (loc mod 86400000000) mod 1000000)
      @ offset_text off"
    using assms(1) b m0
    by (simp add: datetime_to_iso8601_def Let_def format_local_micros_def SECONDS_PER_DAY_def MICROS_PER_SECOND_def
        clock_text_def offset_text_def loc_def)
qed

text \<open>
  the parser of dates and instants agrees with the store's own printer: a date of the years 1 to
  9999 denotes its midnight, and as an end the last millisecond of its day; a zoned date-time whose
  offset is in whole minutes denotes its instant, rounded down to the millisecond, whatever the
  offset.
\<close>

theorem rfc3339_reads_printed_times:
  assumes "1 \<le> fst (civil_from_days days) \<and> fst (civil_from_days days) \<le> 9999"
    and "1 \<le> fst (civil_from_days ((micros + off * 1000000) div 86400000000))
      \<and> fst (civil_from_days ((micros + off * 1000000) div 86400000000)) \<le> 9999"
    and "datetime_to_iso8601 micros off = Some s" and "off mod 60 = 0"
  shows "parse_rfc3339_ms (date_to_iso8601 days) = Some (Some (days * 86400000))
    \<and> parse_rfc3339_end_ms (date_to_iso8601 days) = Some (Some (days * 86400000 + 86399999))
    \<and> parse_rfc3339_ms s = Some (Some (micros div 1000)) \<and> parse_rfc3339_end_ms s = Some (Some (micros div 1000))"
proof -
  let ?loc = "micros + off * 1000000" and ?D = "86400000000 :: int"
  let ?n = "nat (?loc mod ?D)"
  obtain y m d where c: "civil_from_days days = (y, m, d)" by (cases "civil_from_days days") auto
  obtain y' m' d' where c': "civil_from_days (?loc div ?D) = (y', m', d')" by (cases "civil_from_days (?loc div ?D)") auto
  have y: "1 \<le> y" "y \<le> 9999" "1 \<le> y'" "y' \<le> 9999" using assms(1,2) c c' by auto
  note s = datetime_text [OF assms(3,4)]
  have sod: "?n div 1000000 < 86400" by (simp add: div_less_iff_less_mult)
  have n: "int (?n div 1000000) * 1000 + int (?n mod 1000000 div 1000) = ?loc mod ?D div 1000"
  proof -
    have "int (?n div 1000000) * 1000 + int (?n mod 1000000 div 1000) = int (?n div 1000)"
      using arg_cong [OF millis_split [of ?n], of int] by simp
    also have "\<dots> = ?loc mod ?D div 1000" by (simp add: zdiv_int)
    finally show ?thesis .
  qed
  have "?loc div ?D * ?D + ?loc mod ?D = ?loc" by (rule div_mult_mod_eq)
  then have "?loc div 1000 = (?loc div ?D * 86400000 * 1000 + ?loc mod ?D) div 1000" by simp
  also have "\<dots> = ?loc div ?D * 86400000 + ?loc mod ?D div 1000" by (subst div_mult_self3) simp_all
  finally have "?loc div ?D * 86400000 + ?loc mod ?D div 1000 = ?loc div 1000" by simp
  moreover have "?loc div 1000 = micros div 1000 + off * 1000"
    using div_mult_self1 [of 1000 micros "off * 1000"] by (simp add: mult.assoc)
  ultimately have r: "?loc div ?D * 86400000 + int (?n div 1000000) * 1000 + int (?n mod 1000000 div 1000) - off * 1000 = micros div 1000"
    using n by linarith
  have i: "parse_rfc3339_ms s = Some (Some (micros div 1000))" "parse_rfc3339_end_ms s = Some (Some (micros div 1000))"
    using parse_instant [OF c' y(3,4) sod _ assms(4) s(2), of "?n mod 1000000"] unfolding s(1) r by simp_all
  show ?thesis using i parse_bare_date [OF c y(1,2)] by (simp add: date_to_iso8601_def)
qed

theorem rfc3339_reads_printed_times_witness:
  "parse_rfc3339_ms (date_to_iso8601 19000) = Some (Some 1641600000000)
   \<and> datetime_to_iso8601 1700000000123456 (- 19800) \<bind> parse_rfc3339_ms = Some (Some 1700000000123)"
proof -
  have c: "1 \<le> fst (civil_from_days 19000) \<and> fst (civil_from_days 19000) \<le> 9999"
    "1 \<le> fst (civil_from_days ((1700000000123456 + (- 19800) * 1000000) div 86400000000))
      \<and> fst (civil_from_days ((1700000000123456 + (- 19800) * 1000000) div 86400000000)) \<le> 9999"
    by code_simp+
  obtain s where s: "datetime_to_iso8601 1700000000123456 (- 19800) = Some s"
    using datetime_text_exists [of "- 19800" 1700000000123456] by (auto simp: MAX_OFFSET_SECONDS_def)
  show ?thesis using rfc3339_reads_printed_times [OF c s] s by auto
qed


end
