(* ===== verification/Bolt_Framing.thy ===== *)
theory Bolt_Framing
  imports Pack
begin

text \<open>
  The outer layers of a Bolt connection: the chunked message framing of
  \<open>crates/bolt/src/framing.rs\<close> and the version handshake of \<open>crates/bolt/src/handshake.rs\<close>. Integers
  on this wire are big-endian.
\<close>

unbundle bit_operations_syntax

section \<open>Big-endian integers\<close>

definition u16_be :: "u16 \<Rightarrow> bytes" where "u16_be w = rev (u16_le w)"
definition u32_be :: "u32 \<Rightarrow> bytes" where "u32_be w = rev (u32_le w)"
definition u64_be :: "u64 \<Rightarrow> bytes" where "u64_be w = rev (u64_le w)"
definition be_u16 :: "bytes \<Rightarrow> u16" where "be_u16 bs = le_u16 (rev bs)"
definition be_u32 :: "bytes \<Rightarrow> u32" where "be_u32 bs = le_u32 (rev bs)"
definition be_u64 :: "bytes \<Rightarrow> u64" where "be_u64 bs = le_u64 (rev bs)"

lemma length_be [byte_simps]: "length (u16_be w) = 2" "length (u32_be x) = 4" "length (u64_be y) = 8"
  by (simp_all add: u16_be_def u32_be_def u64_be_def byte_simps)

lemma be_inverse [byte_simps]: "be_u16 (u16_be w) = w" "be_u32 (u32_be x) = x" "be_u64 (u64_be y) = y"
  by (simp_all add: u16_be_def u32_be_def u64_be_def be_u16_def be_u32_def be_u64_def byte_simps)

section \<open>Chunked framing\<close>

definition MAX_CHUNK :: nat where "MAX_CHUNK = 65535"

datatype frame_error = FrameIncomplete

definition bolt_frame :: "bytes \<Rightarrow> bytes \<Rightarrow> bytes" where
  "bolt_frame msg buf =
     foldl (\<lambda>buf chunk. buf @ u16_be (of_nat (length chunk)) @ chunk) buf (chunks_of MAX_CHUNK msg) @ [0, 0]"

function deframe_loop :: "bytes \<Rightarrow> bytes \<Rightarrow> nat \<Rightarrow> frame_error + bytes \<times> nat" where
  "deframe_loop stream message pos =
     (if pos + 2 > length stream then Inl FrameIncomplete
      else let len = unat (be_u16 (take 2 (drop pos stream)));
               pos = pos + 2
      in if len = 0 then
           (if message = [] then deframe_loop stream message pos else Inr (message, pos))
         else if pos + len > length stream then Inl FrameIncomplete
         else deframe_loop stream (message @ take len (drop pos stream)) (pos + len))"
  by pat_completeness auto
termination by (relation "measure (\<lambda>(s, m, p). length s - p)") auto

declare deframe_loop.simps [simp del]

definition deframe :: "bytes \<Rightarrow> frame_error + bytes \<times> nat" where
  "deframe stream = deframe_loop stream [] 0"

subsection \<open>What the reader has settled\<close>

lemma take_drop_agree:
  assumes "take n t = take n s" and "q + j \<le> n"
  shows "take j (drop q t) = take j (drop q s)"
proof -
  have "take (j + q) t = take (j + q) (take n t)" "take (j + q) s = take (j + q) (take n s)"
    using assms(2) by (simp_all add: min_absorb1)
  then show ?thesis using assms(1) by (simp add: take_drop)
qed

text \<open>The bytes of the chunk at a position, and one turn of the loop over it.\<close>

definition chunk_len :: "bytes \<Rightarrow> nat \<Rightarrow> nat" where
  "chunk_len s p = unat (be_u16 (take 2 (drop p s)))"

lemma deframe_loop_step:
  "deframe_loop s m p =
     (if p + 2 + chunk_len s p > length s \<or> p + 2 > length s then Inl FrameIncomplete
      else if chunk_len s p = 0 \<and> m \<noteq> [] then Inr (m, p + 2)
      else deframe_loop s (m @ take (chunk_len s p) (drop (p + 2) s)) (p + 2 + chunk_len s p))"
  by (subst deframe_loop.simps) (simp add: Let_def chunk_len_def)

lemma deframe_loop_range:
  "deframe_loop s m p = Inr (r, n) \<Longrightarrow> r \<noteq> [] \<and> p + 2 \<le> n \<and> n \<le> length s"
proof (induction s m p rule: deframe_loop.induct)
  case (1 s m p)
  show ?case
  proof (cases "chunk_len s p = 0")
    case True
    then show ?thesis using 1 by (auto simp: deframe_loop_step [of s m p] chunk_len_def split: if_splits)
  next
    case False
    then show ?thesis
      using 1(2) [OF _ refl refl, folded chunk_len_def] 1(3)
      by (auto simp: deframe_loop_step [of s m p] split: if_splits)
  qed
qed

text \<open>What is read depends only on the bytes up to its end, and before them the reader asks for more.\<close>

lemma deframe_loop_prefix:
  "deframe_loop s m p = Inr (r, n) \<Longrightarrow> n \<le> length t \<Longrightarrow> take n t = take n s \<Longrightarrow> deframe_loop t m p = Inr (r, n)"
proof (induction s m p rule: deframe_loop.induct)
  case (1 s m p)
  have n: "p + 2 \<le> n" "n \<le> length s" using deframe_loop_range [OF 1(3)] by simp_all
  have c: "chunk_len t p = chunk_len s p"
    unfolding chunk_len_def using take_drop_agree [OF 1(5), of p 2] n by simp
  show ?case
  proof (cases "chunk_len s p = 0")
    case True
    then show ?thesis using 1 n c
      by (auto simp: deframe_loop_step [of s m p] deframe_loop_step [of t m p] chunk_len_def [symmetric] split: if_splits)
  next
    case False
    let ?m = "m @ take (chunk_len s p) (drop (p + 2) s)" and ?p = "p + 2 + chunk_len s p"
    have rec: "deframe_loop s ?m ?p = Inr (r, n)" and fit: "?p \<le> length s"
      using 1(3) False by (auto simp: deframe_loop_step [of s m p] split: if_splits)
    have n': "?p + 2 \<le> n" using deframe_loop_range [OF rec] by simp
    have "deframe_loop t ?m ?p = Inr (r, n)"
      using 1(2) [OF _ refl refl, folded chunk_len_def] rec fit False 1(4,5) n by simp
    moreover have "take (chunk_len s p) (drop (p + 2) t) = take (chunk_len s p) (drop (p + 2) s)"
      using take_drop_agree [OF 1(5), of "p + 2" "chunk_len s p"] n' by simp
    ultimately show ?thesis using c False n' 1(4) by (simp add: deframe_loop_step [of t m p])
  qed
qed

lemma deframe_loop_cut:
  "deframe_loop s m p = Inr (r, n) \<Longrightarrow> k < n \<Longrightarrow> deframe_loop (take k s) m p = Inl FrameIncomplete"
proof (induction s m p rule: deframe_loop.induct)
  case (1 s m p)
  have n: "p + 2 \<le> n" "n \<le> length s" using deframe_loop_range [OF 1(3)] by simp_all
  show ?case
  proof (cases "p + 2 \<le> k")
    case False
    then show ?thesis using n by (simp add: deframe_loop_step [of "take k s" m p])
  next
    case True
    have c: "chunk_len (take k s) p = chunk_len s p"
      unfolding chunk_len_def using take_drop_agree [of k "take k s" s p 2] True by simp
    show ?thesis
    proof (cases "chunk_len s p = 0")
      case True
      then show ?thesis using 1 n c
        by (auto simp: deframe_loop_step [of s m p] deframe_loop_step [of "take k s" m p] chunk_len_def [symmetric] split: if_splits)
    next
      case False
      let ?m = "m @ take (chunk_len s p) (drop (p + 2) s)" and ?p = "p + 2 + chunk_len s p"
      have rec: "deframe_loop s ?m ?p = Inr (r, n)" and fit: "?p \<le> length s"
        using 1(3) False by (auto simp: deframe_loop_step [of s m p] split: if_splits)
      have "deframe_loop (take k s) ?m ?p = Inl FrameIncomplete"
        using 1(2) [OF _ refl refl, folded chunk_len_def] rec fit False 1(4) n by simp
      moreover have "?p \<le> k \<Longrightarrow> take (chunk_len s p) (drop (p + 2) (take k s)) = take (chunk_len s p) (drop (p + 2) s)"
        using take_drop_agree [of k "take k s" s "p + 2" "chunk_len s p"] by simp
      ultimately show ?thesis using c False n 1(4) by (simp add: deframe_loop_step [of "take k s" m p])
    qed
  qed
qed

subsection \<open>What the writer appends\<close>

definition chunk_bytes :: "bytes \<Rightarrow> bytes" where
  "chunk_bytes c = u16_be (of_nat (length c)) @ c"

lemma bolt_frame_chunks: "bolt_frame msg buf = buf @ concat (map chunk_bytes (chunks_of MAX_CHUNK msg)) @ [0, 0]"
proof -
  have "foldl (\<lambda>buf chunk. buf @ u16_be (of_nat (length chunk)) @ chunk) b cs = b @ concat (map chunk_bytes cs)" for b cs
    by (induction cs arbitrary: b) (simp_all add: chunk_bytes_def)
  then show ?thesis by (simp add: bolt_frame_def)
qed

definition chunk_ok :: "bytes \<Rightarrow> bool" where "chunk_ok c \<longleftrightarrow> c \<noteq> [] \<and> length c \<le> MAX_CHUNK"

lemma chunks_of_ok: "\<forall>c\<in>set (chunks_of MAX_CHUNK msg). chunk_ok c"
proof -
  have "0 < n \<Longrightarrow> \<forall>c\<in>set (chunks_of n msg). c \<noteq> [] \<and> length c \<le> n" for n
  proof (induction n msg rule: chunks_of.induct)
    case (1 n xs)
    then show ?case by (cases "xs = []") (simp_all add: chunks_of_step [of xs n])
  qed
  from this [of MAX_CHUNK] show ?thesis by (simp add: chunk_ok_def) (simp add: MAX_CHUNK_def)
qed

lemma chunk_len_at:
  assumes "chunk_ok c"
  shows "chunk_len (pre @ chunk_bytes c @ post) (length pre) = length c"
proof -
  have "length c < 2 ^ 16" using assms by (simp add: chunk_ok_def MAX_CHUNK_def)
  then have "unat (of_nat (length c) :: u16) = length c" by (simp add: unat_of_nat)
  then show ?thesis by (simp add: chunk_len_def chunk_bytes_def byte_simps)
qed

lemma deframe_loop_chunk:
  assumes "chunk_ok c"
  shows "deframe_loop (pre @ chunk_bytes c @ post) m (length pre)
    = deframe_loop ((pre @ chunk_bytes c) @ post) (m @ c) (length (pre @ chunk_bytes c))"
proof -
  have "take (length c) (drop (length pre + 2) (pre @ chunk_bytes c @ post)) = c"
    by (simp add: chunk_bytes_def byte_simps)
  moreover have "length (chunk_bytes c) = 2 + length c" by (simp add: chunk_bytes_def byte_simps)
  ultimately show ?thesis using assms chunk_len_at [OF assms, of pre post]
    by (subst deframe_loop_step) (simp add: chunk_ok_def add.assoc)
qed

lemma chunk_len_zero: "chunk_len (pre @ 0 # 0 # post) (length pre) = 0"
  by (simp add: chunk_len_def be_u16_def le_u16_def)

lemma deframe_loop_chunks:
  assumes "\<forall>c\<in>set cs. chunk_ok c" and "m @ concat cs \<noteq> []"
  shows "deframe_loop (pre @ concat (map chunk_bytes cs) @ [0, 0] @ post) m (length pre)
    = Inr (m @ concat cs, length pre + length (concat (map chunk_bytes cs)) + 2)"
  using assms
proof (induction cs arbitrary: pre m)
  case Nil
  then show ?case by (subst deframe_loop_step) (simp add: chunk_len_zero)
next
  case (Cons c cs)
  have "deframe_loop ((pre @ chunk_bytes c) @ concat (map chunk_bytes cs) @ [0, 0] @ post) (m @ c) (length (pre @ chunk_bytes c))
      = Inr ((m @ c) @ concat cs, length (pre @ chunk_bytes c) + length (concat (map chunk_bytes cs)) + 2)"
    using Cons.prems by (intro Cons.IH) simp_all
  then show ?case
    using deframe_loop_chunk [of c pre "concat (map chunk_bytes cs) @ [0, 0] @ post" m] Cons.prems(1) by (simp add: add.assoc)
qed

text \<open>Keep-alives in front are passed over.\<close>

lemma deframe_loop_noop:
  "deframe_loop (pre @ 0 # 0 # post) [] (length pre) = deframe_loop ((pre @ [0, 0]) @ post) [] (length (pre @ [0, 0]))"
  using chunk_len_zero [of pre post] by (subst deframe_loop_step) simp

lemma deframe_loop_noops:
  "deframe_loop (pre @ concat (replicate k [0, 0]) @ post) [] (length pre)
    = deframe_loop ((pre @ concat (replicate k [0, 0])) @ post) [] (length pre + 2 * k)"
proof (induction k arbitrary: pre)
  case (Suc k)
  show ?case using deframe_loop_noop [of pre "concat (replicate k [0, 0]) @ post"] Suc [of "pre @ [0, 0]"] by simp
qed simp

lemma length_noops: "length (concat (replicate k [0, 0])) = 2 * k"
  by (induction k) simp_all

lemma deframe_bolt_frame:
  assumes "msg \<noteq> []"
  shows "deframe (concat (replicate k [0, 0]) @ bolt_frame msg [] @ rest) = Inr (msg, 2 * k + length (bolt_frame msg []))"
proof -
  have "concat (chunks_of MAX_CHUNK msg) = msg" by (simp add: concat_chunks_of MAX_CHUNK_def)
  then have "deframe_loop (concat (replicate k [0, 0]) @ concat (map chunk_bytes (chunks_of MAX_CHUNK msg)) @ [0, 0] @ rest)
      [] (length (concat (replicate k [0, 0::u8])))
    = Inr (msg, 2 * k + length (bolt_frame msg []))"
    using assms deframe_loop_chunks [OF chunks_of_ok, of "[]" msg "concat (replicate k [0, 0])" rest]
    by (simp add: bolt_frame_chunks length_noops)
  then show ?thesis using deframe_loop_noops [of "[]" k] by (simp add: deframe_def bolt_frame_chunks length_noops)
qed

lemma deframe_noops: "deframe (concat (replicate k [0, 0])) = Inl FrameIncomplete"
proof -
  have "deframe_loop s [] (length s) = Inl FrameIncomplete" for s by (subst deframe_loop_step) simp
  from this [of "concat (replicate k [0, 0])"] show ?thesis
    using deframe_loop_noops [of "[]" k "[]"] by (simp add: deframe_def length_noops)
qed

text \<open>
  A framed message reads back, through any number of keep-alives in front and whatever follows,
  with the bytes it occupied; a message that is read is never empty and every shorter part of the
  stream asks for more bytes, whoever wrote it and in whatever chunks. The frame of an empty message
  is a keep-alive: a stream of those alone never gives a message.
\<close>

theorem bolt_framing:
  "(msg \<noteq> [] \<longrightarrow> deframe (concat (replicate k [0, 0]) @ bolt_frame msg [] @ rest)
      = Inr (msg, 2 * k + length (bolt_frame msg [])))
   \<and> bolt_frame msg buf = buf @ bolt_frame msg []
   \<and> deframe (concat (replicate k (bolt_frame [] []))) = Inl FrameIncomplete
   \<and> (deframe stream = Inr (got, used) \<longrightarrow> got \<noteq> [] \<and> used \<le> length stream
        \<and> deframe (take used stream @ more_bytes) = Inr (got, used)
        \<and> (\<forall>cut<used. deframe (take cut stream) = Inl FrameIncomplete))"
proof -
  have "deframe (take used stream @ more_bytes) = Inr (got, used) \<and> (\<forall>cut<used. deframe (take cut stream) = Inl FrameIncomplete)
      \<and> got \<noteq> [] \<and> used \<le> length stream"
    if "deframe stream = Inr (got, used)"
    using that deframe_loop_range [of stream "[]" 0 got used] deframe_loop_cut [of stream "[]" 0 got used]
      deframe_loop_prefix [of stream "[]" 0 got used "take used stream @ more_bytes"]
    by (auto simp: deframe_def)
  then show ?thesis
    using deframe_bolt_frame [of msg k rest] deframe_noops [of k] by (auto simp: bolt_frame_chunks)
qed

theorem bolt_framing_witness:
  "deframe ([0, 0] @ bolt_frame [7] [] @ [9]) = Inr ([7], 7) \<and> deframe [0, 0] = Inl FrameIncomplete
   \<and> deframe [0, 0, 0, 1, 7, 0] = Inl FrameIncomplete"
proof -
  have "chunks_of MAX_CHUNK [7 :: u8] = [[7]]" by (simp add: chunks_of_step MAX_CHUNK_def)
  moreover have "u16_be 1 = [0, 1]" by code_simp
  ultimately have f: "bolt_frame [7] [] = [0, 1, 7, 0, 0]" "bolt_frame [] [] = [0, 0]"
    by (simp_all add: bolt_frame_chunks chunk_bytes_def)
  have r: "deframe ([0, 0] @ bolt_frame [7] [] @ [9]) = Inr ([7], 7)"
    using bolt_framing [of "[7]" 1 "[9]" "[]" "[]" "[]" 0 "[]"] by (simp add: f)
  moreover have "deframe [0, 0] = Inl FrameIncomplete"
    using bolt_framing [of "[7]" 1 "[9]" "[]" "[]" "[]" 0 "[]"] by (simp add: f)
  moreover have "\<forall>cut<7. deframe (take cut ([0, 0] @ bolt_frame [7] [] @ [9])) = Inl FrameIncomplete"
    using bolt_framing [of "[7]" 1 "[9]" "[]" "[0, 0] @ bolt_frame [7] [] @ [9]" "[7]" 7 "[]"] r by blast
  then have "deframe (take 6 ([0, 0] @ bolt_frame [7] [] @ [9])) = Inl FrameIncomplete" by (rule allE [of _ 6]) simp
  then have "deframe [0, 0, 0, 1, 7, 0] = Inl FrameIncomplete" by (simp add: f)
  ultimately show ?thesis by simp
qed

section \<open>The version handshake\<close>

definition MAGIC :: bytes where "MAGIC = [0x60, 0x60, 0xB0, 0x17]"
definition HANDSHAKE_LEN :: nat where "HANDSHAKE_LEN = 20"
definition MANIFEST_SLOT :: u32 where "MANIFEST_SLOT = 0x1FF"
definition SERVER_VERSIONS :: "(u8 \<times> u8) list" where "SERVER_VERSIONS = [(5, 0), (4, 4)]"
definition SERVER_OFFER :: "u32 list" where "SERVER_OFFER = [0x5, 0x404, 0, 0]"

datatype handshake_error = HandshakeIncomplete | BadMagic

definition parse_request :: "bytes \<Rightarrow> handshake_error + u32 list" where
  "parse_request bytes =
     (if length bytes < HANDSHAKE_LEN then Inl HandshakeIncomplete
      else if take 4 bytes \<noteq> MAGIC then Inl BadMagic
      else Inr (map (\<lambda>index. let at = 4 + index * 4
        in be_u32 [bytes ! at, bytes ! (at + 1), bytes ! (at + 2), bytes ! (at + 3)]) [0..<4]))"

text \<open>The \<open>i16\<close> values are integers: both are bytes, so their difference stays in range.\<close>

fun negotiate_slot :: "u32 \<Rightarrow> (u8 \<times> u8) list \<Rightarrow> (u8 \<times> u8) option" where
  "negotiate_slot slot [] = None"
| "negotiate_slot slot ((server_major, server_minor) # versions) =
     (let rng = uint (drop_bit 16 slot AND 0xFF);
          minor = uint (drop_bit 8 slot AND 0xFF);
          major = (ucast (slot AND 0xFF) :: u8);
          server_minor_wide = uint server_minor
      in if server_major = major \<and> server_minor_wide \<le> minor \<and> server_minor_wide \<ge> minor - rng
         then Some (server_major, server_minor)
         else negotiate_slot slot versions)"

fun negotiate :: "u32 list \<Rightarrow> (u8 \<times> u8) option" where
  "negotiate [] = None"
| "negotiate (slot # offer) =
     (if slot = MANIFEST_SLOT \<or> slot = 0 then negotiate offer
      else case negotiate_slot slot SERVER_VERSIONS of
        Some v \<Rightarrow> Some v
      | None \<Rightarrow> negotiate offer)"

fun response :: "(u8 \<times> u8) option \<Rightarrow> bytes" where
  "response (Some (major, minor)) = [0, 0, minor, major]"
| "response None = [0, 0, 0, 0]"

text \<open>A slot as its four bytes, and the versions it accepts.\<close>

type_synonym slot_bytes = "u8 \<times> u8 \<times> u8 \<times> u8"

fun slot_word :: "slot_bytes \<Rightarrow> bytes" where
  "slot_word (pad, rng, minor, major) = [pad, rng, minor, major]"

fun accepts :: "slot_bytes \<Rightarrow> u8 \<times> u8 \<Rightarrow> bool" where
  "accepts (pad, rng, minor, major) (M, m) \<longleftrightarrow>
     major = M \<and> unat m \<le> unat minor \<and> unat minor \<le> unat m + unat rng"

lemma unat_be_u32:
  fixes a b c d :: u8
  shows "unat (be_u32 [a, b, c, d]) = unat d + 256 * (unat c + 256 * (unat b + 256 * unat a))"
proof -
  have inv: "n < 2 ^ 32 \<Longrightarrow> unat (of_nat n :: u32) = n" for n by (simp add: unat_of_nat)
  have "le_nat [d, c, b, a] < 2 ^ 32" using le_nat_less [of "[d, c, b, a]"] by simp
  from inv [OF this] show ?thesis by (simp only: be_u32_def le_u32_def rev.simps append.simps le_nat.simps mult_0_right add_0_right)
qed

lemma base256_digits:
  fixes d c b a :: nat
  assumes "d < 256" "c < 256" "b < 256"
  shows "(d + 256 * (c + 256 * (b + 256 * a))) div 65536 mod 256 = b"
    "(d + 256 * (c + 256 * (b + 256 * a))) div 256 mod 256 = c"
    "(d + 256 * (c + 256 * (b + 256 * a))) mod 256 = d"
proof -
  have q: "x < 256 \<Longrightarrow> (x + 256 * y) div 256 = y" and r: "x < 256 \<Longrightarrow> (x + 256 * y) mod 256 = x" for x y :: nat by simp_all
  have "(d + 256 * (c + 256 * (b + 256 * a))) div 65536 = (d + 256 * (c + 256 * (b + 256 * a))) div 256 div 256"
    by (simp only: div_mult2_eq [symmetric] numeral_times_numeral semiring_norm)
  then show "(d + 256 * (c + 256 * (b + 256 * a))) div 65536 mod 256 = b" using assms by (simp only: q r)
  show "(d + 256 * (c + 256 * (b + 256 * a))) div 256 mod 256 = c" using assms by (simp only: q r)
  show "(d + 256 * (c + 256 * (b + 256 * a))) mod 256 = d" using assms by (simp only: r)
qed

lemma and_FF: "(x :: u32) AND 0xFF = take_bit 8 x"
  by (simp add: take_bit_eq_mask mask_eq_exp_minus_1)

lemma slot_fields:
  fixes a b c d :: u8
  shows "unat (drop_bit 16 (be_u32 [a, b, c, d]) AND 0xFF) = unat b"
    "unat (drop_bit 8 (be_u32 [a, b, c, d]) AND 0xFF) = unat c"
    "unat (be_u32 [a, b, c, d] AND 0xFF) = unat d"
proof -
  have lt: "unat x < 256" for x :: u8 using unsigned_less [of x] by simp
  have m: "unat (drop_bit n x AND 0xFF) = unat x div 2 ^ n mod 256" for n and x :: u32
  proof -
    have "unat (drop_bit n x AND 0xFF) = take_bit 8 (drop_bit n (unat x))"
      using take_bit_nat_eq_self [OF unsigned_less [of x]]
      unfolding and_FF unsigned_take_bit_eq unsigned_drop_bit_eq by simp
    then show ?thesis by (simp add: take_bit_eq_mod drop_bit_eq_div)
  qed
  note dg = base256_digits [OF lt [of d] lt [of c] lt [of b], of "unat a"]
  show "unat (drop_bit 16 (be_u32 [a, b, c, d]) AND 0xFF) = unat b" using dg(1) unfolding m unat_be_u32 by simp
  show "unat (drop_bit 8 (be_u32 [a, b, c, d]) AND 0xFF) = unat c" using dg(2) unfolding m unat_be_u32 by simp
  show "unat (be_u32 [a, b, c, d] AND 0xFF) = unat d" using dg(3) m [of 0 "be_u32 [a, b, c, d]"] unfolding unat_be_u32 by simp
qed

text \<open>Trying the server's versions against a slot is trying them against its bytes.\<close>

lemma negotiate_slot_find:
  "negotiate_slot (be_u32 (slot_word s)) versions = find (accepts s) versions"
proof -
  obtain a b c d where s: "s = (a, b, c, d)" by (cases s) auto
  have mj: "(ucast (be_u32 [a, b, c, d] AND 0xFF) :: u8) = d"
    using slot_fields(3) [of a b c d] take_bit_nat_eq_self [OF unsigned_less [of d]] by (simp add: word_eq_iff_unsigned [where 'a = nat] unsigned_ucast_eq)
  have u: "uint x = int (unat x)" for x :: "'z::len word" by simp
  have f: "uint (drop_bit 16 (be_u32 [a, b, c, d]) AND 0xFF) = int (unat b)"
    "uint (drop_bit 8 (be_u32 [a, b, c, d]) AND 0xFF) = int (unat c)"
    using slot_fields(1,2) [of a b c d] u [of "drop_bit 16 (be_u32 [a, b, c, d]) AND 0xFF"]
      u [of "drop_bit 8 (be_u32 [a, b, c, d]) AND 0xFF"] by argo+
  have g: "(int m \<ge> int y - int z) = (y \<le> m + z)" for m y z by linarith
  show ?thesis
  proof (induction versions)
    case (Cons v vs)
    obtain M m where v: "v = (M, m)" by (cases v) auto
    show ?case using Cons unfolding s v
      by (simp only: negotiate_slot.simps Let_def mj f u [of m] g of_nat_le_iff slot_word.simps find.simps accepts.simps eq_commute [of M d])
  qed simp
qed

text \<open>No server version has major 0 or 255, so skipping the empty and the manifest slots loses nothing.\<close>

lemma negotiate_find:
  "negotiate (map (\<lambda>s. be_u32 (slot_word s)) ss)
    = find_map (\<lambda>s. find (accepts s) SERVER_VERSIONS) ss"
proof (induction ss)
  case (Cons s ss)
  obtain a b c d where s: "s = (a, b, c, d)" by (cases s) auto
  have m: "unat (be_u32 [a, b, c, d] AND 0xFF) = unat d" by (rule slot_fields)
  have "find (accepts s) SERVER_VERSIONS = None" if "be_u32 (slot_word s) = MANIFEST_SLOT \<or> be_u32 (slot_word s) = 0"
  proof -
    have "unat d = 255 \<or> unat d = 0" using that m unfolding s by (auto simp: MANIFEST_SLOT_def)
    then have "d \<noteq> 5 \<and> d \<noteq> 4" by auto
    then show ?thesis unfolding s by (simp add: SERVER_VERSIONS_def)
  qed
  then show ?case using Cons negotiate_slot_find [of s SERVER_VERSIONS] by (auto split: option.split)
qed simp

lemma parse_request_reads:
  "parse_request (MAGIC @ slot_word s0 @ slot_word s1 @ slot_word s2 @ slot_word s3 @ rest)
    = Inr (map (\<lambda>s. be_u32 (slot_word s)) [s0, s1, s2, s3])"
  by (cases s0; cases s1; cases s2; cases s3) (simp add: parse_request_def MAGIC_def HANDSHAKE_LEN_def upt_rec)

text \<open>
  The handshake reads the four slots after the magic, refuses a short request and one without the
  magic, and agrees on the first version, slots in the client's order and versions in the server's,
  that the slot accepts: the same major and a minor from \<open>minor - range\<close> to \<open>minor\<close>, whatever the
  padding byte. The reply names that version, or is zero exactly when no slot accepts any, which the
  client can tell apart; a client that offers the server's own slots gets its first version.
\<close>

theorem bolt_handshake:
  "parse_request (MAGIC @ slot_word s0 @ slot_word s1 @ slot_word s2 @ slot_word s3 @ rest)
      = Inr (map (\<lambda>s. be_u32 (slot_word s)) [s0, s1, s2, s3])
   \<and> (parse_request bytes = Inl HandshakeIncomplete \<longleftrightarrow> length bytes < 20)
   \<and> (parse_request bytes = Inl BadMagic \<longleftrightarrow> 20 \<le> length bytes \<and> take 4 bytes \<noteq> MAGIC)
   \<and> negotiate (map (\<lambda>s. be_u32 (slot_word s)) [s0, s1, s2, s3])
      = find_map (\<lambda>s. find (accepts s) [(5, 0), (4, 4)]) [s0, s1, s2, s3]
   \<and> (response (negotiate (map (\<lambda>s. be_u32 (slot_word s)) [s0, s1, s2, s3])) = [0, 0, 0, 0]
      \<longleftrightarrow> (\<forall>s\<in>{s0, s1, s2, s3}. \<forall>v\<in>{(5, 0), (4, 4)}. \<not> accepts s v))
   \<and> negotiate SERVER_OFFER = Some (5, 0)"
proof (intro conjI)
  let ?ss = "[s0, s1, s2, s3]"
  show "parse_request (MAGIC @ slot_word s0 @ slot_word s1 @ slot_word s2 @ slot_word s3 @ rest)
      = Inr (map (\<lambda>s. be_u32 (slot_word s)) ?ss)" by (rule parse_request_reads)
  show "parse_request bytes = Inl HandshakeIncomplete \<longleftrightarrow> length bytes < 20"
    and "parse_request bytes = Inl BadMagic \<longleftrightarrow> 20 \<le> length bytes \<and> take 4 bytes \<noteq> MAGIC"
    by (auto simp: parse_request_def HANDSHAKE_LEN_def)
  show n: "negotiate (map (\<lambda>s. be_u32 (slot_word s)) ?ss) = find_map (\<lambda>s. find (accepts s) [(5, 0), (4, 4)]) ?ss"
    by (simp only: negotiate_find SERVER_VERSIONS_def)
  show "response (negotiate (map (\<lambda>s. be_u32 (slot_word s)) ?ss)) = [0, 0, 0, 0]
      \<longleftrightarrow> (\<forall>s\<in>{s0, s1, s2, s3}. \<forall>v\<in>{(5, 0), (4, 4)}. \<not> accepts s v)"
    unfolding n by (auto split: if_splits option.splits)
  show "negotiate SERVER_OFFER = Some (5, 0)" by code_simp
qed

theorem bolt_handshake_witness:
  "parse_request (MAGIC @ [0, 0, 1, 0xFF, 0, 8, 8, 5, 0, 2, 4, 4, 0, 0, 0, 3])
     = Inr (map (\<lambda>s. be_u32 (slot_word s)) [(0, 0, 1, 0xFF), (0, 8, 8, 5), (0, 2, 4, 4), (0, 0, 0, 3)])
   \<and> response (negotiate (map (\<lambda>s. be_u32 (slot_word s)) [(0, 0, 0, 3), (0, 0, 0, 3), (0, 0, 0, 3), (0, 0, 0, 3)])) = [0, 0, 0, 0]
   \<and> parse_request [] = Inl HandshakeIncomplete"
  using bolt_handshake [of "(0, 0, 1, 0xFF)" "(0, 8, 8, 5)" "(0, 2, 4, 4)" "(0, 0, 0, 3)" "[]" "[]"]
    bolt_handshake [of "(0, 0, 0, 3)" "(0, 0, 0, 3)" "(0, 0, 0, 3)" "(0, 0, 0, 3)" "[]" "[]"] by simp

end
