(* ===== verification/Packstream.thy ===== *)
theory Packstream
  imports Bolt_Framing
begin

text \<open>
  PackStream (\<open>crates/bolt/src/packstream.rs\<close>), the serialization of every Bolt message. An \<open>i64\<close> is a
  word read with \<^const>\<open>sint\<close>, an \<open>f64\<close> its bit pattern, a string the bytes of its UTF-8 form as elsewhere.
  The cursor is the buffer and a position; the decoder recurses to at most the depth the source checks.
\<close>

unbundle bit_operations_syntax

section \<open>Values\<close>

definition TAG_NODE :: u8 where "TAG_NODE = 0x4E"
definition TAG_RELATIONSHIP :: u8 where "TAG_RELATIONSHIP = 0x52"
definition TAG_PATH :: u8 where "TAG_PATH = 0x50"
definition PS_MAX_DEPTH :: nat where "PS_MAX_DEPTH = 128"

datatype pack_value =
    PNull
  | PBool bool
  | PInt u64
  | PFloat u64
  | PBytes bytes
  | PString string
  | PList "pack_value list"
  | PMap "(string \<times> pack_value) list"
  | PStruct u8 "pack_value list"

definition ps_node :: "u64 \<Rightarrow> string list \<Rightarrow> (string \<times> pack_value) list \<Rightarrow> pack_value" where
  "ps_node nid labels properties = PStruct TAG_NODE [PInt nid, PList (map PString labels), PMap properties]"

definition ps_relationship :: "u64 \<Rightarrow> u64 \<Rightarrow> u64 \<Rightarrow> string \<Rightarrow> (string \<times> pack_value) list \<Rightarrow> pack_value" where
  "ps_relationship rid start end_id rel_type properties =
     PStruct TAG_RELATIONSHIP [PInt rid, PInt start, PInt end_id, PString rel_type, PMap properties]"

definition ps_path :: "pack_value list \<Rightarrow> pack_value list \<Rightarrow> u64 list \<Rightarrow> pack_value" where
  "ps_path nodes rels sequence = PStruct TAG_PATH [PList nodes, PList rels, PList (map PInt sequence)]"

datatype pack_error = Truncated | ReservedMarker u8 | InvalidUtf8 | NonStringKey | TooDeep

section \<open>Encoding\<close>

definition pack_int :: "u64 \<Rightarrow> bytes \<Rightarrow> bytes" where
  "pack_int i buf =
     (if -16 \<le> sint i \<and> sint i \<le> 127 then buf @ [ucast i]
      else if - (2 ^ 7) \<le> sint i \<and> sint i < 2 ^ 7 then buf @ [0xC8, ucast i]
      else if - (2 ^ 15) \<le> sint i \<and> sint i < 2 ^ 15 then buf @ [0xC9] @ u16_be (ucast i)
      else if - (2 ^ 31) \<le> sint i \<and> sint i < 2 ^ 31 then buf @ [0xCA] @ u32_be (ucast i)
      else buf @ [0xCB] @ u64_be i)"

definition pack_size :: "nat \<Rightarrow> u8 \<times> u8 \<times> u8 \<Rightarrow> u8 option \<Rightarrow> bytes \<Rightarrow> bytes" where
  "pack_size len markers tiny buf =
     (case markers of (m0, m1, m2) \<Rightarrow>
      if tiny \<noteq> None \<and> len < 16 then buf @ [the tiny OR of_nat len]
      else if len \<le> 0xFF then buf @ [m0, of_nat len]
      else if len \<le> 0xFFFF then buf @ [m1] @ u16_be (of_nat len)
      else buf @ [m2] @ u32_be (of_nat len))"

definition pack_string :: "string \<Rightarrow> bytes \<Rightarrow> bytes" where
  "pack_string s buf = pack_size (length (str_bytes s)) (0xD0, 0xD1, 0xD2) (Some 0x80) buf @ str_bytes s"

definition pack_struct_size :: "nat \<Rightarrow> bytes \<Rightarrow> bytes" where
  "pack_struct_size n buf =
     (if n < 16 then buf @ [0xB0 OR of_nat n]
      else if n \<le> 0xFF then buf @ [0xDC, of_nat n]
      else buf @ [0xDD] @ u16_be (of_nat n))"

fun ps_pack :: "pack_value \<Rightarrow> bytes \<Rightarrow> bytes" where
  "ps_pack PNull buf = buf @ [0xC0]"
| "ps_pack (PBool b) buf = buf @ [if b then 0xC3 else 0xC2]"
| "ps_pack (PInt i) buf = pack_int i buf"
| "ps_pack (PFloat x) buf = buf @ [0xC1] @ u64_be x"
| "ps_pack (PBytes b) buf = pack_size (length b) (0xCC, 0xCD, 0xCE) None buf @ b"
| "ps_pack (PString s) buf = pack_string s buf"
| "ps_pack (PList items) buf =
     foldl (\<lambda>buf item. ps_pack item buf) (pack_size (length items) (0xD4, 0xD5, 0xD6) (Some 0x90) buf) items"
| "ps_pack (PMap entries) buf =
     foldl (\<lambda>buf (key, value). ps_pack value (pack_string key buf))
       (pack_size (length entries) (0xD8, 0xD9, 0xDA) (Some 0xA0) buf) entries"
| "ps_pack (PStruct tag flds) buf =
     foldl (\<lambda>buf fld. ps_pack fld buf) (pack_struct_size (length flds) buf @ [tag]) flds"

section \<open>Decoding\<close>

definition ps_take :: "bytes \<Rightarrow> nat \<Rightarrow> nat \<Rightarrow> pack_error + bytes \<times> nat" where
  "ps_take buf n pos =
     (if pos + n > USIZE_MAX then Inl Truncated
      else if pos + n > length buf then Inl Truncated
      else Inr (take n (drop pos buf), pos + n))"

definition ps_byte :: "bytes \<Rightarrow> nat \<Rightarrow> pack_error + u8 \<times> nat" where
  "ps_byte buf pos = and_then (ps_take buf 1 pos) (\<lambda>(s, pos). Inr (s ! 0, pos))"

definition ps_uint :: "bytes \<Rightarrow> nat \<Rightarrow> nat \<Rightarrow> pack_error + nat \<times> nat" where
  "ps_uint buf width pos =
     and_then (ps_take buf width pos) (\<lambda>(bs, pos).
     let n = foldl (\<lambda>acc b. push_bit 8 acc OR ucast b) (0 :: u64) bs
     in if unat n > USIZE_MAX then Inl Truncated else Inr (unat n, pos))"

definition ps_sized :: "bytes \<Rightarrow> u8 \<Rightarrow> u8 \<times> u8 \<times> u8 \<Rightarrow> nat \<Rightarrow> pack_error + nat \<times> nat" where
  "ps_sized buf marker markers pos =
     (case markers of (m0, m1, m2) \<Rightarrow>
      ps_uint buf (if marker = m0 then 1 else if marker = m1 then 2 else 4) pos)"

definition ps_string :: "bytes \<Rightarrow> nat \<Rightarrow> nat \<Rightarrow> pack_error + string \<times> nat" where
  "ps_string buf len pos =
     and_then (ps_take buf len pos) (\<lambda>(bs, pos).
     case from_utf8 bs of None \<Rightarrow> Inl InvalidUtf8 | Some s \<Rightarrow> Inr (s, pos))"

definition check_count :: "bytes \<Rightarrow> nat \<Rightarrow> nat \<Rightarrow> pack_error + unit" where
  "check_count buf count pos = (if count > length buf - pos then Inl Truncated else Inr ())"

text \<open>
  \<open>value\<close> with the loops of \<open>list\<close> and \<open>structure\<close> (both the same) and of \<open>map\<close>.
\<close>

function ps_value :: "bytes \<Rightarrow> nat \<Rightarrow> nat \<Rightarrow> pack_error + pack_value \<times> nat"
  and ps_items :: "bytes \<Rightarrow> nat \<Rightarrow> nat \<Rightarrow> nat \<Rightarrow> pack_error + pack_value list \<times> nat"
  and ps_entries :: "bytes \<Rightarrow> nat \<Rightarrow> nat \<Rightarrow> nat \<Rightarrow> pack_error + (string \<times> pack_value) list \<times> nat"
where
  "ps_value buf depth pos =
     (if depth > PS_MAX_DEPTH then Inl TooDeep
      else and_then (ps_byte buf pos) (\<lambda>(marker, pos).
        let list = (\<lambda>count pos. and_then (check_count buf count pos) (\<lambda>_.
              and_then (ps_items buf depth count pos) (\<lambda>(items, pos). Inr (PList items, pos))));
            map = (\<lambda>count pos. and_then (check_count buf count pos) (\<lambda>_.
              and_then (ps_entries buf depth count pos) (\<lambda>(entries, pos). Inr (PMap entries, pos))));
            structure = (\<lambda>count pos. and_then (ps_byte buf pos) (\<lambda>(tag, pos).
              and_then (check_count buf count pos) (\<lambda>_.
              and_then (ps_items buf depth count pos) (\<lambda>(flds, pos). Inr (PStruct tag flds, pos)))))
        in
        if marker \<le> 0x7F then Inr (PInt (ucast marker), pos)
        else if 0xF0 \<le> marker then Inr (PInt (scast marker), pos)
        else if marker \<le> 0x8F then
          and_then (ps_string buf (unat (marker AND 0x0F)) pos) (\<lambda>(s, pos). Inr (PString s, pos))
        else if marker \<le> 0x9F then list (unat (marker AND 0x0F)) pos
        else if marker \<le> 0xAF then map (unat (marker AND 0x0F)) pos
        else if marker \<le> 0xBF then structure (unat (marker AND 0x0F)) pos
        else if marker = 0xC0 then Inr (PNull, pos)
        else if marker = 0xC1 then
          and_then (ps_take buf 8 pos) (\<lambda>(b, pos). Inr (PFloat (be_u64 b), pos))
        else if marker = 0xC2 then Inr (PBool False, pos)
        else if marker = 0xC3 then Inr (PBool True, pos)
        else if marker = 0xC8 then
          and_then (ps_byte buf pos) (\<lambda>(b, pos). Inr (PInt (scast b), pos))
        else if marker = 0xC9 then
          and_then (ps_take buf 2 pos) (\<lambda>(b, pos). Inr (PInt (scast (be_u16 b)), pos))
        else if marker = 0xCA then
          and_then (ps_take buf 4 pos) (\<lambda>(b, pos). Inr (PInt (scast (be_u32 b)), pos))
        else if marker = 0xCB then
          and_then (ps_take buf 8 pos) (\<lambda>(b, pos). Inr (PInt (be_u64 b), pos))
        else if 0xCC \<le> marker \<and> marker \<le> 0xCE then
          and_then (ps_sized buf marker (0xCC, 0xCD, 0xCE) pos) (\<lambda>(len, pos).
          and_then (ps_take buf len pos) (\<lambda>(b, pos). Inr (PBytes b, pos)))
        else if 0xD0 \<le> marker \<and> marker \<le> 0xD2 then
          and_then (ps_sized buf marker (0xD0, 0xD1, 0xD2) pos) (\<lambda>(len, pos).
          and_then (ps_string buf len pos) (\<lambda>(s, pos). Inr (PString s, pos)))
        else if 0xD4 \<le> marker \<and> marker \<le> 0xD6 then
          and_then (ps_sized buf marker (0xD4, 0xD5, 0xD6) pos) (\<lambda>(count, pos). list count pos)
        else if 0xD8 \<le> marker \<and> marker \<le> 0xDA then
          and_then (ps_sized buf marker (0xD8, 0xD9, 0xDA) pos) (\<lambda>(count, pos). map count pos)
        else if marker = 0xDC then
          and_then (ps_uint buf 1 pos) (\<lambda>(count, pos). structure count pos)
        else if marker = 0xDD then
          and_then (ps_uint buf 2 pos) (\<lambda>(count, pos). structure count pos)
        else Inl (ReservedMarker marker)))"
| "ps_items buf depth 0 pos = Inr ([], pos)"
| "ps_items buf depth (Suc count) pos =
     and_then (ps_value buf (depth + 1) pos) (\<lambda>(v, pos).
     and_then (ps_items buf depth count pos) (\<lambda>(vs, pos). Inr (v # vs, pos)))"
| "ps_entries buf depth 0 pos = Inr ([], pos)"
| "ps_entries buf depth (Suc count) pos =
     and_then (ps_value buf (depth + 1) pos) (\<lambda>(k, pos).
     case k of
       PString key \<Rightarrow>
         and_then (ps_value buf (depth + 1) pos) (\<lambda>(v, pos).
         and_then (ps_entries buf depth count pos) (\<lambda>(es, pos). Inr ((key, v) # es, pos)))
     | _ \<Rightarrow> Inl NonStringKey)"
  by pat_completeness auto
termination
  by (relation "measures
      [case_sum (\<lambda>(b, d, p). PS_MAX_DEPTH + 1 - d) (case_sum (\<lambda>(b, d, c, p). PS_MAX_DEPTH - d) (\<lambda>(b, d, c, p). PS_MAX_DEPTH - d)),
       case_sum (\<lambda>_. 0) (case_sum (\<lambda>(b, d, c, p). Suc c) (\<lambda>(b, d, c, p). Suc c))]")
    auto

declare ps_value.simps [simp del]

definition ps_unpack :: "bytes \<Rightarrow> pack_error + pack_value \<times> nat" where
  "ps_unpack buf = ps_value buf 0 0"

section \<open>What the encoder appends\<close>

abbreviation enc :: "pack_value \<Rightarrow> bytes" where "enc v \<equiv> ps_pack v []"
abbreviation enc_str :: "string \<Rightarrow> bytes" where "enc_str s \<equiv> pack_string s []"
abbreviation enc_entry :: "string \<times> pack_value \<Rightarrow> bytes" where "enc_entry e \<equiv> enc_str (fst e) @ enc (snd e)"

lemma pack_int_appends: "pack_int i buf = buf @ pack_int i []"
  by (simp add: pack_int_def)

lemma pack_size_appends: "pack_size n ms t buf = buf @ pack_size n ms t []"
  by (cases ms) (simp add: pack_size_def)

lemma pack_string_appends: "pack_string s buf = buf @ pack_string s []"
  unfolding pack_string_def by (subst pack_size_appends) simp

lemma pack_struct_size_appends: "pack_struct_size n buf = buf @ pack_struct_size n []"
  by (simp add: pack_struct_size_def)

lemma foldl_appends:
  assumes "\<And>x buf. x \<in> set xs \<Longrightarrow> f buf x = buf @ g x"
  shows "foldl f buf xs = buf @ concat (map g xs)"
  using assms by (induction xs arbitrary: buf) simp_all

lemma ps_pack_appends: "ps_pack v buf = buf @ enc v"
proof (induction v arbitrary: buf)
  case (PList xs)
  then have "foldl (\<lambda>buf x. ps_pack x buf) b xs = b @ concat (map enc xs)" for b by (intro foldl_appends) blast
  then show ?case using pack_size_appends [of _ _ _ buf] by simp
next
  case (PMap es)
  have "ps_pack v (pack_string k b) = b @ enc_str k @ enc v" if "(k, v) \<in> set es" for k v b
    using PMap [of "(k, v)" v "pack_string k b"] that pack_string_appends [of k b] by simp
  then have "foldl (\<lambda>buf (k, v). ps_pack v (pack_string k buf)) b es = b @ concat (map enc_entry es)" for b
    by (intro foldl_appends) auto
  then show ?case using pack_size_appends [of _ _ _ buf] by simp
next
  case (PStruct t xs)
  then have "foldl (\<lambda>buf x. ps_pack x buf) b xs = b @ concat (map enc xs)" for b by (intro foldl_appends) blast
  then show ?case using pack_struct_size_appends [of _ buf] by simp
next
  case (PInt i)
  show ?case using pack_int_appends [of i buf] by simp
next
  case (PString s)
  show ?case using pack_string_appends [of s buf] by simp
next
  case (PBytes b)
  show ?case using pack_size_appends [of _ _ _ buf] by simp
qed simp_all

lemma enc_PList: "enc (PList xs) = pack_size (length xs) (0xD4, 0xD5, 0xD6) (Some 0x90) [] @ concat (map enc xs)"
  using foldl_appends [of xs "\<lambda>buf x. ps_pack x buf" enc, OF ps_pack_appends] by simp

lemma enc_PStruct: "enc (PStruct t xs) = pack_struct_size (length xs) [] @ [t] @ concat (map enc xs)"
  using foldl_appends [of xs "\<lambda>buf x. ps_pack x buf" enc, OF ps_pack_appends] by simp

lemma enc_PMap: "enc (PMap es) = pack_size (length es) (0xD8, 0xD9, 0xDA) (Some 0xA0) [] @ concat (map enc_entry es)"
proof -
  have "ps_pack v (pack_string k b) = b @ enc_str k @ enc v" for k v b
    using ps_pack_appends [of v "pack_string k b"] pack_string_appends [of k b] by simp
  then have "foldl (\<lambda>buf (k, v). ps_pack v (pack_string k buf)) b es = b @ concat (map enc_entry es)" for b
    by (intro foldl_appends) auto
  then show ?thesis by simp
qed

lemmas enc_simps = ps_pack.simps(1-6) enc_PList enc_PMap enc_PStruct

section \<open>What the cursor reads\<close>

definition has :: "bytes \<Rightarrow> nat \<Rightarrow> bytes \<Rightarrow> bool" where
  "has buf pos bs \<longleftrightarrow> pos + length bs \<le> length buf \<and> take (length bs) (drop pos buf) = bs"

lemma has_append: "has buf pos (xs @ ys) \<longleftrightarrow> has buf pos xs \<and> has buf (pos + length xs) ys"
proof -
  have "take (length xs + length ys) (drop pos buf)
      = take (length xs) (drop pos buf) @ take (length ys) (drop (pos + length xs) buf)"
    by (simp add: take_add add.commute)
  moreover have "pos + length xs \<le> length buf \<Longrightarrow> length (take (length xs) (drop pos buf)) = length xs" by simp
  ultimately show ?thesis unfolding has_def by (auto simp: append_eq_append_conv)
qed

lemma has_Cons: "has buf pos (b # bs) \<longleftrightarrow> has buf pos [b] \<and> has buf (pos + 1) bs"
  using has_append [of buf pos "[b]" bs] by simp

lemma has_Nil: "has buf pos [] \<longleftrightarrow> pos \<le> length buf"
  by (simp add: has_def)

lemma has_self: "has (pre @ bs @ post) (length pre) bs"
  by (simp add: has_def)

lemma ps_take_has: "slice_ok buf \<Longrightarrow> has buf pos bs \<Longrightarrow> ps_take buf (length bs) pos = Inr (bs, pos + length bs)"
  by (simp add: ps_take_def has_def)

lemma ps_byte_has: "slice_ok buf \<Longrightarrow> has buf pos [b] \<Longrightarrow> ps_byte buf pos = Inr (b, pos + 1)"
  using ps_take_has [of buf pos "[b]"] by (simp add: ps_byte_def)

lemma shift_or: "push_bit 8 acc OR ucast (b :: u8) = 256 * acc + (ucast b :: u64)"
proof -
  have "push_bit 8 acc + (ucast b :: u64) = push_bit 8 acc OR ucast b"
    by (rule disjunctive_add) (auto simp: bit_push_bit_iff bit_ucast_iff dest: bit_imp_le_length)
  then show ?thesis by (simp add: push_bit_eq_mult mult.commute)
qed

lemma shift_fold: "foldl (\<lambda>acc b. push_bit 8 acc OR ucast b) (0 :: u64) bs = of_nat (le_nat (rev bs))"
  by (induction bs rule: rev_induct) (simp_all add: shift_or)

lemma ps_uint_has:
  assumes "slice_ok buf" "has buf pos bs" "length bs \<le> 8"
  shows "ps_uint buf (length bs) pos = Inr (le_nat (rev bs), pos + length bs)"
proof -
  have "le_nat (rev bs) < 256 ^ length bs" using le_nat_less [of "rev bs"] by simp
  also have "(256 :: nat) ^ length bs \<le> 256 ^ 8" using assms(3) by (intro power_increasing) simp_all
  finally have "unat (of_nat (le_nat (rev bs)) :: u64) = le_nat (rev bs) \<and> le_nat (rev bs) \<le> USIZE_MAX"
    by (simp add: unat_of_nat USIZE_MAX_def)
  then show ?thesis using ps_take_has [OF assms(1,2)] by (simp add: ps_uint_def shift_fold Let_def)
qed

lemma ps_uint_sizes:
  assumes "slice_ok buf"
  shows "n \<le> 0xFF \<Longrightarrow> has buf pos [of_nat n] \<Longrightarrow> ps_uint buf 1 pos = Inr (n, pos + 1)"
    "n \<le> 0xFFFF \<Longrightarrow> has buf pos (u16_be (of_nat n)) \<Longrightarrow> ps_uint buf 2 pos = Inr (n, pos + 2)"
    "n < 2 ^ 32 \<Longrightarrow> has buf pos (u32_be (of_nat n)) \<Longrightarrow> ps_uint buf 4 pos = Inr (n, pos + 4)"
proof -
  assume n: "n \<le> 0xFF" and h: "has buf pos [of_nat n]"
  have "unat (of_nat n :: u8) = n" using n by (simp add: unat_of_nat)
  then show "ps_uint buf 1 pos = Inr (n, pos + 1)" using ps_uint_has [OF assms h] by simp
next
  assume n: "n \<le> 0xFFFF" and h: "has buf pos (u16_be (of_nat n))"
  have "unat (of_nat n :: u16) = n" using n by (simp add: unat_of_nat)
  then show "ps_uint buf 2 pos = Inr (n, pos + 2)"
    using ps_uint_has [OF assms h] n by (simp add: u16_be_def u16_le_def)
next
  assume n: "n < 2 ^ 32" and h: "has buf pos (u32_be (of_nat n))"
  have "unat (of_nat n :: u32) = n" using n by (simp add: unat_of_nat)
  then show "ps_uint buf 4 pos = Inr (n, pos + 4)"
    using ps_uint_has [OF assms h] n by (simp add: u32_be_def u32_le_def)
qed

lemma ps_string_has:
  assumes "slice_ok buf" "has buf pos (str_bytes s)" "utf8_valid (str_bytes s)"
  shows "ps_string buf (length (str_bytes s)) pos = Inr (s, pos + length (str_bytes s))"
  using ps_take_has [OF assms(1,2)] assms(3) by (simp add: ps_string_def from_utf8_def)

text \<open>What follows each marker.\<close>

definition ps_list_body :: "bytes \<Rightarrow> nat \<Rightarrow> nat \<Rightarrow> nat \<Rightarrow> pack_error + pack_value \<times> nat" where
  "ps_list_body buf depth n pos = and_then (check_count buf n pos) (\<lambda>_.
     and_then (ps_items buf depth n pos) (\<lambda>(items, pos). Inr (PList items, pos)))"

definition ps_map_body :: "bytes \<Rightarrow> nat \<Rightarrow> nat \<Rightarrow> nat \<Rightarrow> pack_error + pack_value \<times> nat" where
  "ps_map_body buf depth n pos = and_then (check_count buf n pos) (\<lambda>_.
     and_then (ps_entries buf depth n pos) (\<lambda>(entries, pos). Inr (PMap entries, pos)))"

definition ps_struct_body :: "bytes \<Rightarrow> nat \<Rightarrow> nat \<Rightarrow> nat \<Rightarrow> pack_error + pack_value \<times> nat" where
  "ps_struct_body buf depth n pos = and_then (ps_byte buf pos) (\<lambda>(tag, pos).
     and_then (check_count buf n pos) (\<lambda>_.
     and_then (ps_items buf depth n pos) (\<lambda>(flds, pos). Inr (PStruct tag flds, pos))))"

lemma ps_value_step:
  assumes "slice_ok buf" "has buf pos [m]" "d \<le> PS_MAX_DEPTH"
  shows "ps_value buf d pos =
    (if m \<le> 0x7F then Inr (PInt (ucast m), pos + 1)
     else if 0xF0 \<le> m then Inr (PInt (scast m), pos + 1)
     else if m \<le> 0x8F then and_then (ps_string buf (unat (m AND 0x0F)) (pos + 1)) (\<lambda>(s, pos). Inr (PString s, pos))
     else if m \<le> 0x9F then ps_list_body buf d (unat (m AND 0x0F)) (pos + 1)
     else if m \<le> 0xAF then ps_map_body buf d (unat (m AND 0x0F)) (pos + 1)
     else if m \<le> 0xBF then ps_struct_body buf d (unat (m AND 0x0F)) (pos + 1)
     else if m = 0xC0 then Inr (PNull, pos + 1)
     else if m = 0xC1 then and_then (ps_take buf 8 (pos + 1)) (\<lambda>(b, pos). Inr (PFloat (be_u64 b), pos))
     else if m = 0xC2 then Inr (PBool False, pos + 1)
     else if m = 0xC3 then Inr (PBool True, pos + 1)
     else if m = 0xC8 then and_then (ps_byte buf (pos + 1)) (\<lambda>(b, pos). Inr (PInt (scast b), pos))
     else if m = 0xC9 then and_then (ps_take buf 2 (pos + 1)) (\<lambda>(b, pos). Inr (PInt (scast (be_u16 b)), pos))
     else if m = 0xCA then and_then (ps_take buf 4 (pos + 1)) (\<lambda>(b, pos). Inr (PInt (scast (be_u32 b)), pos))
     else if m = 0xCB then and_then (ps_take buf 8 (pos + 1)) (\<lambda>(b, pos). Inr (PInt (be_u64 b), pos))
     else if 0xCC \<le> m \<and> m \<le> 0xCE then and_then (ps_sized buf m (0xCC, 0xCD, 0xCE) (pos + 1)) (\<lambda>(len, pos).
       and_then (ps_take buf len pos) (\<lambda>(b, pos). Inr (PBytes b, pos)))
     else if 0xD0 \<le> m \<and> m \<le> 0xD2 then and_then (ps_sized buf m (0xD0, 0xD1, 0xD2) (pos + 1)) (\<lambda>(len, pos).
       and_then (ps_string buf len pos) (\<lambda>(s, pos). Inr (PString s, pos)))
     else if 0xD4 \<le> m \<and> m \<le> 0xD6 then
       and_then (ps_sized buf m (0xD4, 0xD5, 0xD6) (pos + 1)) (\<lambda>(n, pos). ps_list_body buf d n pos)
     else if 0xD8 \<le> m \<and> m \<le> 0xDA then
       and_then (ps_sized buf m (0xD8, 0xD9, 0xDA) (pos + 1)) (\<lambda>(n, pos). ps_map_body buf d n pos)
     else if m = 0xDC then and_then (ps_uint buf 1 (pos + 1)) (\<lambda>(n, pos). ps_struct_body buf d n pos)
     else if m = 0xDD then and_then (ps_uint buf 2 (pos + 1)) (\<lambda>(n, pos). ps_struct_body buf d n pos)
     else Inl (ReservedMarker m))"
  using assms(3) ps_byte_has [OF assms(1,2)]
  unfolding ps_list_body_def [abs_def] ps_map_body_def [abs_def] ps_struct_body_def [abs_def]
  by (subst ps_value.simps) (simp only: Let_def and_then_simps split_conv if_False not_less [symmetric])

lemma tiny_markers:
  assumes "n < 16"
  shows "let m = 0x80 OR (of_nat n :: u8) in \<not> m \<le> 0x7F \<and> \<not> 0xF0 \<le> m \<and> m \<le> 0x8F \<and> unat (m AND 0x0F) = n"
    and "let m = 0x90 OR (of_nat n :: u8) in \<not> m \<le> 0x7F \<and> \<not> 0xF0 \<le> m \<and> \<not> m \<le> 0x8F \<and> m \<le> 0x9F
      \<and> unat (m AND 0x0F) = n"
    and "let m = 0xA0 OR (of_nat n :: u8) in \<not> m \<le> 0x7F \<and> \<not> 0xF0 \<le> m \<and> \<not> m \<le> 0x8F \<and> \<not> m \<le> 0x9F \<and> m \<le> 0xAF
      \<and> unat (m AND 0x0F) = n"
    and "let m = 0xB0 OR (of_nat n :: u8) in \<not> m \<le> 0x7F \<and> \<not> 0xF0 \<le> m \<and> \<not> m \<le> 0x8F \<and> \<not> m \<le> 0x9F \<and> \<not> m \<le> 0xAF
      \<and> m \<le> 0xBF \<and> unat (m AND 0x0F) = n"
proof -
  have "\<forall>n\<in>set [0..<16]. let m = 0x80 OR (of_nat n :: u8) in
      \<not> m \<le> 0x7F \<and> \<not> 0xF0 \<le> m \<and> m \<le> 0x8F \<and> unat (m AND 0x0F) = n" by code_simp
  moreover have "\<forall>n\<in>set [0..<16]. let m = 0x90 OR (of_nat n :: u8) in
      \<not> m \<le> 0x7F \<and> \<not> 0xF0 \<le> m \<and> \<not> m \<le> 0x8F \<and> m \<le> 0x9F \<and> unat (m AND 0x0F) = n" by code_simp
  moreover have "\<forall>n\<in>set [0..<16]. let m = 0xA0 OR (of_nat n :: u8) in
      \<not> m \<le> 0x7F \<and> \<not> 0xF0 \<le> m \<and> \<not> m \<le> 0x8F \<and> \<not> m \<le> 0x9F \<and> m \<le> 0xAF \<and> unat (m AND 0x0F) = n" by code_simp
  moreover have "\<forall>n\<in>set [0..<16]. let m = 0xB0 OR (of_nat n :: u8) in
      \<not> m \<le> 0x7F \<and> \<not> 0xF0 \<le> m \<and> \<not> m \<le> 0x8F \<and> \<not> m \<le> 0x9F \<and> \<not> m \<le> 0xAF \<and> m \<le> 0xBF \<and> unat (m AND 0x0F) = n" by code_simp
  moreover have "n \<in> set [0..<16]" using assms by simp
  ultimately show "let m = 0x80 OR (of_nat n :: u8) in \<not> m \<le> 0x7F \<and> \<not> 0xF0 \<le> m \<and> m \<le> 0x8F \<and> unat (m AND 0x0F) = n"
    and "let m = 0x90 OR (of_nat n :: u8) in \<not> m \<le> 0x7F \<and> \<not> 0xF0 \<le> m \<and> \<not> m \<le> 0x8F \<and> m \<le> 0x9F
      \<and> unat (m AND 0x0F) = n"
    and "let m = 0xA0 OR (of_nat n :: u8) in \<not> m \<le> 0x7F \<and> \<not> 0xF0 \<le> m \<and> \<not> m \<le> 0x8F \<and> \<not> m \<le> 0x9F \<and> m \<le> 0xAF
      \<and> unat (m AND 0x0F) = n"
    and "let m = 0xB0 OR (of_nat n :: u8) in \<not> m \<le> 0x7F \<and> \<not> 0xF0 \<le> m \<and> \<not> m \<le> 0x8F \<and> \<not> m \<le> 0x9F \<and> \<not> m \<le> 0xAF
      \<and> m \<le> 0xBF \<and> unat (m AND 0x0F) = n"
    by blast+
qed

lemma ps_value_sized:
  assumes "slice_ok buf" "has buf pos [m]" "d \<le> PS_MAX_DEPTH"
  shows "m \<in> {0xCC, 0xCD, 0xCE} \<Longrightarrow> ps_value buf d pos = and_then (ps_sized buf m (0xCC, 0xCD, 0xCE) (pos + 1)) (\<lambda>(len, pos).
       and_then (ps_take buf len pos) (\<lambda>(b, pos). Inr (PBytes b, pos)))"
    and "m \<in> {0xD0, 0xD1, 0xD2} \<Longrightarrow> ps_value buf d pos = and_then (ps_sized buf m (0xD0, 0xD1, 0xD2) (pos + 1)) (\<lambda>(len, pos).
       and_then (ps_string buf len pos) (\<lambda>(s, pos). Inr (PString s, pos)))"
    and "m \<in> {0xD4, 0xD5, 0xD6} \<Longrightarrow> ps_value buf d pos =
       and_then (ps_sized buf m (0xD4, 0xD5, 0xD6) (pos + 1)) (\<lambda>(n, pos). ps_list_body buf d n pos)"
    and "m \<in> {0xD8, 0xD9, 0xDA} \<Longrightarrow> ps_value buf d pos =
       and_then (ps_sized buf m (0xD8, 0xD9, 0xDA) (pos + 1)) (\<lambda>(n, pos). ps_map_body buf d n pos)"
  unfolding ps_value_step [OF assms] by (elim insertE emptyE, simp, simp, simp)+

text \<open>The sizes the encoder writes, as the decoder meets them.\<close>

lemma ps_sized_has:
  assumes "slice_ok buf" "n < 2 ^ 32" "has buf pos (pack_size n (m0, m1, m2) None [])" "m0 \<noteq> m1" "m0 \<noteq> m2" "m1 \<noteq> m2"
  shows "\<exists>m. m \<in> {m0, m1, m2} \<and> has buf pos [m] \<and> ps_sized buf m (m0, m1, m2) (pos + 1)
    = Inr (n, pos + length (pack_size n (m0, m1, m2) None []))"
proof -
  consider "n \<le> 0xFF" | "0xFF < n" "n \<le> 0xFFFF" | "0xFFFF < n" by linarith
  then show ?thesis
  proof cases
    case 1
    then have "has buf pos [m0]" "has buf (pos + 1) [of_nat n]" using assms(3) by (simp_all add: pack_size_def has_Cons [of buf pos m0 "[_]"])
    then show ?thesis using 1 ps_uint_sizes(1) [OF assms(1) 1, of "pos + 1"]
      by (intro exI [of _ m0]) (simp add: ps_sized_def pack_size_def)
  next
    case 2
    then have "has buf pos [m1]" "has buf (pos + 1) (u16_be (of_nat n))"
      using assms(3) by (simp_all add: pack_size_def has_Cons [of buf pos m1 "u16_be _"])
    then show ?thesis using 2 assms(4-6) ps_uint_sizes(2) [OF assms(1) 2(2), of "pos + 1"]
      by (intro exI [of _ m1]) (simp add: ps_sized_def pack_size_def byte_simps)
  next
    case 3
    then have "has buf pos [m2]" "has buf (pos + 1) (u32_be (of_nat n))"
      using assms(3) by (simp_all add: pack_size_def has_Cons [of buf pos m2 "u32_be _"])
    then show ?thesis using 3 assms(4-6) ps_uint_sizes(3) [OF assms(1,2), of "pos + 1"]
      by (intro exI [of _ m2]) (simp add: ps_sized_def pack_size_def byte_simps)
  qed
qed

lemma pack_size_tiny: "n < 16 \<Longrightarrow> pack_size n ms (Some b) [] = [b OR of_nat n]"
  and pack_size_wide: "\<not> n < 16 \<Longrightarrow> pack_size n ms (Some b) [] = pack_size n ms None []"
  by (cases ms; simp add: pack_size_def)+

lemma ps_value_list_header:
  assumes "slice_ok buf" "d \<le> PS_MAX_DEPTH" "n < 2 ^ 32" "has buf pos (pack_size n (0xD4, 0xD5, 0xD6) (Some 0x90) [])"
  shows "ps_value buf d pos = ps_list_body buf d n (pos + length (pack_size n (0xD4, 0xD5, 0xD6) (Some 0x90) []))"
proof (cases "n < 16")
  case True
  have h: "has buf pos [0x90 OR of_nat n]" using assms(4) by (simp only: pack_size_tiny [OF True])
  show ?thesis using ps_value_step [OF assms(1) h assms(2)] tiny_markers(2) [OF True]
    by (simp add: pack_size_tiny [OF True] Let_def)
next
  case False
  obtain m where m: "m \<in> {0xD4, 0xD5, 0xD6}" "has buf pos [m]"
      "ps_sized buf m (0xD4, 0xD5, 0xD6) (pos + 1) = Inr (n, pos + length (pack_size n (0xD4, 0xD5, 0xD6) None []))"
    using ps_sized_has [OF assms(1,3), of pos "0xD4" "0xD5" "0xD6"] assms(4) unfolding pack_size_wide [OF False] by auto
  show ?thesis using ps_value_sized(3) [OF assms(1) m(2) assms(2) m(1)] m(3) unfolding pack_size_wide [OF False] by simp
qed

lemma ps_value_map_header:
  assumes "slice_ok buf" "d \<le> PS_MAX_DEPTH" "n < 2 ^ 32" "has buf pos (pack_size n (0xD8, 0xD9, 0xDA) (Some 0xA0) [])"
  shows "ps_value buf d pos = ps_map_body buf d n (pos + length (pack_size n (0xD8, 0xD9, 0xDA) (Some 0xA0) []))"
proof (cases "n < 16")
  case True
  have h: "has buf pos [0xA0 OR of_nat n]" using assms(4) by (simp only: pack_size_tiny [OF True])
  show ?thesis using ps_value_step [OF assms(1) h assms(2)] tiny_markers(3) [OF True]
    by (simp add: pack_size_tiny [OF True] Let_def)
next
  case False
  obtain m where m: "m \<in> {0xD8, 0xD9, 0xDA}" "has buf pos [m]"
      "ps_sized buf m (0xD8, 0xD9, 0xDA) (pos + 1) = Inr (n, pos + length (pack_size n (0xD8, 0xD9, 0xDA) None []))"
    using ps_sized_has [OF assms(1,3), of pos "0xD8" "0xD9" "0xDA"] assms(4) unfolding pack_size_wide [OF False] by auto
  show ?thesis using ps_value_sized(4) [OF assms(1) m(2) assms(2) m(1)] m(3) unfolding pack_size_wide [OF False] by simp
qed

lemma ps_value_string:
  assumes "slice_ok buf" "d \<le> PS_MAX_DEPTH" "length (str_bytes s) < 2 ^ 32" "utf8_valid (str_bytes s)" "has buf pos (enc_str s)"
  shows "ps_value buf d pos = Inr (PString s, pos + length (enc_str s))"
proof -
  let ?n = "length (str_bytes s)" and ?h = "pack_size (length (str_bytes s)) (0xD0, 0xD1, 0xD2) (Some 0x80) []"
  have hs: "has buf pos ?h" "has buf (pos + length ?h) (str_bytes s)"
    using assms(5) unfolding pack_string_def has_append by simp_all
  have str: "ps_string buf ?n (pos + length ?h) = Inr (s, pos + length ?h + ?n)"
    by (rule ps_string_has [OF assms(1) hs(2) assms(4)])
  show ?thesis
  proof (cases "?n < 16")
    case True
    have h: "has buf pos [0x80 OR of_nat ?n]" using hs(1) by (simp only: pack_size_tiny [OF True])
    show ?thesis using ps_value_step [OF assms(1) h assms(2)] tiny_markers(1) [OF True] str
      by (simp add: pack_size_tiny [OF True] Let_def pack_string_def)
  next
    case False
    obtain m where m: "m \<in> {0xD0, 0xD1, 0xD2}" "has buf pos [m]"
        "ps_sized buf m (0xD0, 0xD1, 0xD2) (pos + 1) = Inr (?n, pos + length (pack_size ?n (0xD0, 0xD1, 0xD2) None []))"
      using ps_sized_has [OF assms(1,3), of pos "0xD0" "0xD1" "0xD2"] hs(1) unfolding pack_size_wide [OF False] by auto
    show ?thesis using ps_value_sized(2) [OF assms(1) m(2) assms(2) m(1)] m(3) str
      unfolding pack_string_def pack_size_wide [OF False] by simp
  qed
qed

lemma ps_value_bytes:
  assumes "slice_ok buf" "d \<le> PS_MAX_DEPTH" "length b < 2 ^ 32" "has buf pos (enc (PBytes b))"
  shows "ps_value buf d pos = Inr (PBytes b, pos + length (enc (PBytes b)))"
proof -
  let ?h = "pack_size (length b) (0xCC, 0xCD, 0xCE) None []"
  have hs: "has buf pos ?h" "has buf (pos + length ?h) b" using assms(4) by (simp_all add: has_append)
  obtain m where m: "m \<in> {0xCC, 0xCD, 0xCE}" "has buf pos [m]"
      "ps_sized buf m (0xCC, 0xCD, 0xCE) (pos + 1) = Inr (length b, pos + length ?h)"
    using ps_sized_has [OF assms(1,3) hs(1)] by auto
  show ?thesis using ps_value_sized(1) [OF assms(1) m(2) assms(2) m(1)] m(3) ps_take_has [OF assms(1) hs(2)] by simp
qed

lemma ps_value_struct_header:
  assumes "slice_ok buf" "d \<le> PS_MAX_DEPTH" "n < 2 ^ 16" "has buf pos (pack_struct_size n [])"
  shows "ps_value buf d pos = ps_struct_body buf d n (pos + length (pack_struct_size n []))"
proof -
  consider "n < 16" | "\<not> n < 16" "n \<le> 0xFF" | "\<not> n < 16" "\<not> n \<le> 0xFF" by blast
  then show ?thesis
  proof cases
    case 1
    then have h: "has buf pos [0xB0 OR of_nat n]" using assms(4) by (simp add: pack_struct_size_def)
    show ?thesis using ps_value_step [OF assms(1) h assms(2)] tiny_markers(4) [OF 1] 1
      by (simp add: pack_struct_size_def Let_def)
  next
    case 2
    then have h: "has buf pos [0xDC]" "has buf (pos + 1) [of_nat n]"
      using assms(4) by (simp_all add: pack_struct_size_def has_Cons [of buf pos "0xDC" "[_]"])
    show ?thesis using ps_value_step [OF assms(1) h(1) assms(2)] ps_uint_sizes(1) [OF assms(1) 2(2) h(2)] 2
      by (simp add: pack_struct_size_def)
  next
    case 3
    then have h: "has buf pos [0xDD]" "has buf (pos + 1) (u16_be (of_nat n))"
      using assms(4) by (simp_all add: pack_struct_size_def has_Cons [of buf pos "0xDD" "u16_be _"])
    have "n \<le> 0xFFFF" using assms(3) by simp
    then show ?thesis using ps_value_step [OF assms(1) h(1) assms(2)] ps_uint_sizes(2) [OF assms(1) _ h(2)] 3
      by (simp add: pack_struct_size_def byte_simps numeral_3_eq_3)
  qed
qed

text \<open>Narrowing a 64-bit integer that fits and widening it again gives it back.\<close>

lemma sint_narrow:
  assumes "- (2 ^ (LENGTH('k::len) - 1)) \<le> sint (i :: u64)" "sint i < 2 ^ (LENGTH('k) - 1)" "LENGTH('k) \<le> 64"
  shows "sint (ucast i :: 'k word) = sint i"
proof -
  have "min (LENGTH('k) - 1) 63 = LENGTH('k) - 1" using assms(3) by (simp add: min_def)
  then have "signed_take_bit (LENGTH('k) - 1) (signed_take_bit 63 (uint i)) = signed_take_bit (LENGTH('k) - 1) (uint i)"
    by (simp add: signed_take_bit_signed_take_bit del: One_nat_def)
  moreover have "sint (ucast i :: 'k word) = signed_take_bit (LENGTH('k) - 1) (uint i)" by (simp add: signed_ucast_eq)
  moreover have "signed_take_bit 63 (uint i) = sint i" by (simp add: sint_uint)
  ultimately show ?thesis using assms(1,2) by (simp add: signed_take_bit_int_eq_self)
qed

lemma scast_narrow:
  assumes "- (2 ^ (LENGTH('k::len) - 1)) \<le> sint (i :: u64)" "sint i < 2 ^ (LENGTH('k) - 1)" "LENGTH('k) \<le> 64"
  shows "scast (ucast i :: 'k word) = i"
proof -
  have "sint (scast (ucast i :: 'k word) :: u64) = signed_take_bit 63 (sint i)"
    using sint_narrow [OF assms] by (simp add: signed_scast_eq)
  also have "\<dots> = sint i" by (simp add: sint_uint)
  finally show ?thesis by (rule signed_word_eqI)
qed

lemma sint_u8: "sint (m :: u8) = (if uint m < 128 then uint m else uint m - 256)"
proof -
  have "0 \<le> uint m" "uint m < 256" using unsigned_less [where 'a = int, of m] by simp_all
  moreover have "sint m = (uint m + 128) mod 256 - 128"
    by (simp add: sint_uint signed_take_bit_eq_take_bit_shift take_bit_eq_mod)
  moreover have "(uint m + 128) mod 256 = uint m + 128 - 256" if "128 \<le> uint m" "uint m < 256"
    using that by (subst minus_mod_self2 [symmetric], intro mod_pos_pos_trivial) simp_all
  ultimately show ?thesis using mod_pos_pos_trivial [of "uint m + 128" 256] by simp
qed

lemma byte_sign:
  "(m \<le> 0x7F \<longleftrightarrow> 0 \<le> sint (m :: u8)) \<and> (0xF0 \<le> m \<longleftrightarrow> -16 \<le> sint m \<and> sint m < 0)
   \<and> (m \<le> 0x7F \<longrightarrow> (ucast m :: u64) = scast m)"
proof -
  have "0 \<le> uint m" "uint m < 256" using unsigned_less [where 'a = int, of m] by simp_all
  moreover have "(ucast m :: u64) = scast m" if "sint m = uint m"
  proof -
    have "(ucast m :: u64) = of_int (uint m)" "(scast m :: u64) = of_int (sint m)" by simp_all
    then show ?thesis using that by argo
  qed
  ultimately show ?thesis by (auto simp: word_le_def sint_u8)
qed

lemma ps_value_int:
  assumes "slice_ok buf" "d \<le> PS_MAX_DEPTH" "has buf pos (pack_int i [])"
  shows "ps_value buf d pos = Inr (PInt i, pos + length (pack_int i []))"
proof -
  consider (tiny) "-16 \<le> sint i \<and> sint i \<le> 127"
    | (i8) "\<not> (-16 \<le> sint i \<and> sint i \<le> 127)" "- (2 ^ 7) \<le> sint i \<and> sint i < 2 ^ 7"
    | (i16) "\<not> (-16 \<le> sint i \<and> sint i \<le> 127)" "\<not> (- (2 ^ 7) \<le> sint i \<and> sint i < 2 ^ 7)" "- (2 ^ 15) \<le> sint i \<and> sint i < 2 ^ 15"
    | (i32) "\<not> (-16 \<le> sint i \<and> sint i \<le> 127)" "\<not> (- (2 ^ 7) \<le> sint i \<and> sint i < 2 ^ 7)" "\<not> (- (2 ^ 15) \<le> sint i \<and> sint i < 2 ^ 15)"
        "- (2 ^ 31) \<le> sint i \<and> sint i < 2 ^ 31"
    | (i64) "\<not> (-16 \<le> sint i \<and> sint i \<le> 127)" "\<not> (- (2 ^ 7) \<le> sint i \<and> sint i < 2 ^ 7)" "\<not> (- (2 ^ 15) \<le> sint i \<and> sint i < 2 ^ 15)"
        "\<not> (- (2 ^ 31) \<le> sint i \<and> sint i < 2 ^ 31)" by blast
  then show ?thesis
  proof cases
    case tiny
    then have p: "pack_int i [] = [ucast i]" by (simp only: pack_int_def append_Nil if_True simp_thms)
    have n: "sint (ucast i :: u8) = sint i" "scast (ucast i :: u8) = i"
      using tiny by (intro sint_narrow scast_narrow; simp)+
    show ?thesis
      using ps_value_step [OF assms(1) assms(3)[unfolded p] assms(2)] byte_sign [of "ucast i"] tiny n unfolding p by auto
  next
    case i8
    then have p: "pack_int i [] = [0xC8, ucast i]" by (simp only: pack_int_def append_Nil if_True if_False simp_thms)
    then have h: "has buf pos [0xC8]" "has buf (pos + 1) [ucast i]" using assms(3) has_Cons [of buf pos "0xC8" "[ucast i]"] by simp_all
    have "scast (ucast i :: u8) = i" using i8 by (intro scast_narrow) simp_all
    then show ?thesis using ps_value_step [OF assms(1) h(1) assms(2)] ps_byte_has [OF assms(1) h(2)] unfolding p by simp
  next
    case i16
    then have p: "pack_int i [] = 0xC9 # u16_be (ucast i)" by (simp only: pack_int_def append_Nil append_Cons if_True if_False simp_thms)
    then have h: "has buf pos [0xC9]" "has buf (pos + 1) (u16_be (ucast i))" using assms(3) has_Cons [of buf pos "0xC9" "u16_be (ucast i)"] by simp_all
    have "scast (ucast i :: u16) = i" using i16 by (intro scast_narrow) simp_all
    then show ?thesis using ps_value_step [OF assms(1) h(1) assms(2)] ps_take_has [OF assms(1) h(2)] unfolding p by (simp add: byte_simps)
  next
    case i32
    then have p: "pack_int i [] = 0xCA # u32_be (ucast i)" by (simp only: pack_int_def append_Nil append_Cons if_True if_False simp_thms)
    then have h: "has buf pos [0xCA]" "has buf (pos + 1) (u32_be (ucast i))" using assms(3) has_Cons [of buf pos "0xCA" "u32_be (ucast i)"] by simp_all
    have "scast (ucast i :: u32) = i" using i32 by (intro scast_narrow) simp_all
    then show ?thesis using ps_value_step [OF assms(1) h(1) assms(2)] ps_take_has [OF assms(1) h(2)] unfolding p by (simp add: byte_simps)
  next
    case i64
    then have p: "pack_int i [] = 0xCB # u64_be i" by (simp only: pack_int_def append_Nil append_Cons if_False simp_thms)
    then have h: "has buf pos [0xCB]" "has buf (pos + 1) (u64_be i)" using assms(3) has_Cons [of buf pos "0xCB" "u64_be i"] by simp_all
    then show ?thesis using ps_value_step [OF assms(1) h(1) assms(2)] ps_take_has [OF assms(1) h(2)] unfolding p by (simp add: byte_simps)
  qed
qed

section \<open>Round trip\<close>

text \<open>How deep the decoder goes for a value, and what the length fields and strings can carry.\<close>

fun nesting :: "pack_value \<Rightarrow> nat" where
  "nesting (PList xs) = foldr max (map (\<lambda>x. Suc (nesting x)) xs) 0"
| "nesting (PMap es) = foldr max (map (\<lambda>(k, v). Suc (nesting v)) es) 0"
| "nesting (PStruct t xs) = foldr max (map (\<lambda>x. Suc (nesting x)) xs) 0"
| "nesting _ = 0"

definition fits_str :: "string \<Rightarrow> bool" where
  "fits_str s \<longleftrightarrow> length (str_bytes s) < 2 ^ 32 \<and> utf8_valid (str_bytes s)"

fun fits :: "pack_value \<Rightarrow> bool" where
  "fits (PBytes b) \<longleftrightarrow> length b < 2 ^ 32"
| "fits (PString s) \<longleftrightarrow> fits_str s"
| "fits (PList xs) \<longleftrightarrow> length xs < 2 ^ 32 \<and> (\<forall>x\<in>set xs. fits x)"
| "fits (PMap es) \<longleftrightarrow> length es < 2 ^ 32 \<and> (\<forall>(k, v)\<in>set es. fits_str k \<and> fits v)"
| "fits (PStruct t xs) \<longleftrightarrow> length xs < 2 ^ 16 \<and> (\<forall>x\<in>set xs. fits x)"
| "fits _ \<longleftrightarrow> True"

lemma foldr_max_le: "d + foldr max ns 0 \<le> b \<longleftrightarrow> d \<le> b \<and> (\<forall>n\<in>set ns. d + n \<le> b)" for b :: nat
  by (induction ns) (auto simp: max_def)

lemma pack_size_pos: "1 \<le> length (pack_size n ms t [])"
  by (cases ms) (simp add: pack_size_def)

lemma enc_str_pos: "1 \<le> length (enc_str s)"
  using pack_size_pos [of "length (str_bytes s)" "(0xD0, 0xD1, 0xD2)" "Some 0x80"]
  by (simp only: pack_string_def length_append)

lemma enc_pos: "1 \<le> length (enc v)"
proof (cases v)
  case (PMap es)
  then show ?thesis using pack_size_pos by (simp only: enc_PMap length_append) (rule trans_le_add1)
next
  case (PList xs)
  then show ?thesis using pack_size_pos by (simp only: enc_PList length_append) (rule trans_le_add1)
next
  case (PString s)
  then show ?thesis using enc_str_pos by simp
next
  case (PBytes b)
  then show ?thesis using pack_size_pos by (simp only: ps_pack.simps length_append) (rule trans_le_add1)
next
  case (PStruct t xs)
  show ?thesis unfolding PStruct enc_PStruct by simp
qed (simp_all add: pack_int_def)

lemma length_concat_pos: "(\<And>x. 1 \<le> length (f x)) \<Longrightarrow> length xs \<le> length (concat (map f xs))"
proof (induction xs)
  case (Cons x xs)
  have "1 \<le> length (f x)" by (rule Cons.prems)
  moreover have "length xs \<le> length (concat (map f xs))" by (rule Cons.IH) (rule Cons.prems)
  ultimately show ?case by simp
qed simp

text \<open>The value at a position is read back at any depth that leaves room for its nesting.\<close>

definition reads_back :: "bytes \<Rightarrow> nat \<Rightarrow> pack_value \<Rightarrow> bool" where
  "reads_back buf d v \<longleftrightarrow> (\<forall>pos. has buf pos (enc v) \<longrightarrow>
     ps_value buf d pos = (if d + nesting v \<le> PS_MAX_DEPTH then Inr (v, pos + length (enc v)) else Inl TooDeep))"

lemma ps_value_deep: "PS_MAX_DEPTH < d \<Longrightarrow> ps_value buf d pos = Inl TooDeep"
  by (subst ps_value.simps) simp

lemma ps_items_back:
  assumes "\<forall>x\<in>set xs. reads_back buf (d + 1) x" and "has buf pos (concat (map enc xs))"
  shows "ps_items buf d (length xs) pos =
    (if \<forall>x\<in>set xs. d + Suc (nesting x) \<le> PS_MAX_DEPTH then Inr (xs, pos + length (concat (map enc xs))) else Inl TooDeep)"
  using assms
proof (induction xs arbitrary: pos)
  case (Cons x xs)
  have h: "has buf pos (enc x)" "has buf (pos + length (enc x)) (concat (map enc xs))"
    using Cons.prems(2) by (simp_all add: has_append)
  have v: "ps_value buf (d + 1) pos = (if d + Suc (nesting x) \<le> PS_MAX_DEPTH then Inr (x, pos + length (enc x)) else Inl TooDeep)"
    using Cons.prems(1) h(1) by (simp add: reads_back_def)
  show ?case using Cons.IH [OF _ h(2)] Cons.prems(1) v by (simp add: add.assoc)
qed simp

lemma ps_entries_back:
  assumes "\<forall>(k, v)\<in>set es. reads_back buf (d + 1) v \<and> reads_back buf (d + 1) (PString k)" and "has buf pos (concat (map enc_entry es))"
  shows "ps_entries buf d (length es) pos =
    (if \<forall>(k, v)\<in>set es. d + Suc (nesting v) \<le> PS_MAX_DEPTH then Inr (es, pos + length (concat (map enc_entry es))) else Inl TooDeep)"
  using assms
proof (induction es arbitrary: pos)
  case (Cons e es)
  obtain k v where e: "e = (k, v)" by (cases e)
  let ?p = "pos + length (enc_str k)"
  have h: "has buf pos (enc_str k)" "has buf ?p (enc v)" "has buf (?p + length (enc v)) (concat (map enc_entry es))"
    using Cons.prems(2) by (simp_all add: has_append e add.assoc)
  have kv: "ps_value buf (d + 1) pos = (if d + 1 \<le> PS_MAX_DEPTH then Inr (PString k, ?p) else Inl TooDeep)"
    "ps_value buf (d + 1) ?p = (if d + Suc (nesting v) \<le> PS_MAX_DEPTH then Inr (v, ?p + length (enc v)) else Inl TooDeep)"
    using Cons.prems(1) h by (simp_all add: reads_back_def e)
  have "d + Suc (nesting v) \<le> PS_MAX_DEPTH \<Longrightarrow> d + 1 \<le> PS_MAX_DEPTH" by simp
  then show ?case using Cons.IH [OF _ h(3)] Cons.prems(1) kv by (simp add: e add.assoc)
qed simp

lemma check_count_has: "has buf pos bs \<Longrightarrow> n \<le> length bs \<Longrightarrow> check_count buf n pos = Inr ()"
  by (auto simp: check_count_def has_def)

lemma reads_back_node:
  assumes "\<And>pos. has buf pos (enc v) \<Longrightarrow> d \<le> PS_MAX_DEPTH \<Longrightarrow> ps_value buf d pos
    = (if d + nesting v \<le> PS_MAX_DEPTH then Inr (v, pos + length (enc v)) else Inl TooDeep)"
  shows "reads_back buf d v"
  using assms ps_value_deep [of d buf] by (cases "d \<le> PS_MAX_DEPTH") (simp_all add: reads_back_def)

lemma reads_back_leaf:
  assumes "nesting v = 0" and "\<And>pos. d \<le> PS_MAX_DEPTH \<Longrightarrow> has buf pos (enc v) \<Longrightarrow> ps_value buf d pos = Inr (v, pos + length (enc v))"
  shows "reads_back buf d v"
  using assms ps_value_deep [of d buf] by (simp add: reads_back_def)

lemma reads_back_string: "slice_ok buf \<Longrightarrow> fits_str s \<Longrightarrow> reads_back buf d (PString s)"
  by (rule reads_back_leaf) (simp_all add: ps_value_string fits_str_def)

lemma reads_back_list:
  assumes "slice_ok buf" "length xs < 2 ^ 32" "\<forall>x\<in>set xs. reads_back buf (d + 1) x"
  shows "reads_back buf d (PList xs)"
proof -
  let ?h = "pack_size (length xs) (0xD4, 0xD5, 0xD6) (Some 0x90) []"
  have "ps_value buf d pos = (if d + nesting (PList xs) \<le> PS_MAX_DEPTH then Inr (PList xs, pos + length (enc (PList xs))) else Inl TooDeep)"
    if h: "has buf pos (enc (PList xs))" and d: "d \<le> PS_MAX_DEPTH" for pos
  proof -
    have h1: "has buf pos ?h" and h2: "has buf (pos + length ?h) (concat (map enc xs))"
      using h unfolding enc_PList has_append by simp_all
    from ps_items_back [OF assms(3) h2] show ?thesis
      using ps_value_list_header [OF assms(1) d assms(2) h1] check_count_has [OF h2 length_concat_pos [OF enc_pos]] d
      unfolding enc_PList by (simp add: ps_list_body_def foldr_max_le add.assoc)
  qed
  then show ?thesis by (rule reads_back_node)
qed

lemma reads_back_map:
  assumes "slice_ok buf" "length es < 2 ^ 32" "\<forall>(k, v)\<in>set es. fits_str k \<and> reads_back buf (d + 1) v"
  shows "reads_back buf d (PMap es)"
proof -
  let ?h = "pack_size (length es) (0xD8, 0xD9, 0xDA) (Some 0xA0) []"
  have "ps_value buf d pos = (if d + nesting (PMap es) \<le> PS_MAX_DEPTH then Inr (PMap es, pos + length (enc (PMap es))) else Inl TooDeep)"
    if h: "has buf pos (enc (PMap es))" and d: "d \<le> PS_MAX_DEPTH" for pos
  proof -
    have h1: "has buf pos ?h" and h2: "has buf (pos + length ?h) (concat (map enc_entry es))"
      using h unfolding enc_PMap has_append by simp_all
    have "\<forall>(k, v)\<in>set es. reads_back buf (d + 1) v \<and> reads_back buf (d + 1) (PString k)"
      using assms(3) reads_back_string [OF assms(1)] by auto
    moreover have "1 \<le> length (enc_entry e)" for e using enc_pos [of "snd e"] by simp
    ultimately show ?thesis
      using ps_entries_back [OF _ h2] ps_value_map_header [OF assms(1) d assms(2) h1] check_count_has [OF h2 length_concat_pos] d
      unfolding enc_PMap by (simp add: ps_map_body_def foldr_max_le case_prod_beta add.assoc)
  qed
  then show ?thesis by (rule reads_back_node)
qed

lemma reads_back_struct:
  assumes "slice_ok buf" "length xs < 2 ^ 16" "\<forall>x\<in>set xs. reads_back buf (d + 1) x"
  shows "reads_back buf d (PStruct t xs)"
proof -
  let ?h = "pack_struct_size (length xs) []"
  have "ps_value buf d pos = (if d + nesting (PStruct t xs) \<le> PS_MAX_DEPTH then Inr (PStruct t xs, pos + length (enc (PStruct t xs))) else Inl TooDeep)"
    if h: "has buf pos (enc (PStruct t xs))" and d: "d \<le> PS_MAX_DEPTH" for pos
  proof -
    have h1: "has buf pos ?h" and ht: "has buf (pos + length ?h) [t]" and h2: "has buf (pos + length ?h + 1) (concat (map enc xs))"
      using h unfolding enc_PStruct has_append by simp_all
    from ps_items_back [OF assms(3) h2] show ?thesis
      using ps_value_struct_header [OF assms(1) d assms(2) h1] ps_byte_has [OF assms(1) ht] check_count_has [OF h2 length_concat_pos [OF enc_pos]] d
      unfolding enc_PStruct by (simp add: ps_struct_body_def foldr_max_le add.assoc)
  qed
  then show ?thesis by (rule reads_back_node)
qed

lemma fits_reads_back:
  assumes "slice_ok buf"
  shows "fits v \<Longrightarrow> reads_back buf d v"
proof (induction v arbitrary: d)
  case (PInt i)
  show ?case by (rule reads_back_leaf) (simp_all add: ps_value_int [OF assms])
next
  case (PBytes b)
  show ?case using PBytes ps_value_bytes [OF assms] by (intro reads_back_leaf) simp_all
next
  case (PString s)
  then show ?case using reads_back_string [OF assms] by simp
next
  case PNull
  show ?case using ps_value_step [OF assms, of _ "0xC0"] by (intro reads_back_leaf) simp_all
next
  case (PBool b)
  show ?case using ps_value_step [OF assms, of _ "if b then 0xC3 else 0xC2"] by (intro reads_back_leaf) simp_all
next
  case (PFloat x)
  show ?case
  proof (rule reads_back_leaf)
    fix pos assume d: "d \<le> PS_MAX_DEPTH" and h: "has buf pos (enc (PFloat x))"
    then have "has buf pos [0xC1]" "has buf (pos + 1) (u64_be x)" using has_Cons [of buf pos "0xC1" "u64_be x"] by simp_all
    then show "ps_value buf d pos = Inr (PFloat x, pos + length (enc (PFloat x)))"
      using ps_value_step [OF assms _ d] ps_take_has [OF assms, of "pos + 1" "u64_be x"] by (simp add: byte_simps)
  qed simp
next
  case (PList xs)
  then show ?case by (intro reads_back_list [OF assms]) simp_all
next
  case (PMap es)
  then show ?case by (intro reads_back_map [OF assms]) fastforce+
next
  case (PStruct t xs)
  then show ?case by (intro reads_back_struct [OF assms]) simp_all
qed

text \<open>
  C28: Every PackStream value that fits its length fields, with well-formed strings, is decoded again
  from what the encoder appends, from any place in a buffer, with the bytes it took: integers of every
  width, floats bit for bit, entries of maps in their order, structures of unknown tags too. Nesting past
  128 levels is the only refusal, as \<open>TooDeep\<close>, although the encoder writes such values.
\<close>

theorem packstream_roundtrip:
  assumes "fits v" and "slice_ok (ps_pack v [] @ rest)"
  shows "ps_unpack (ps_pack v [] @ rest)
      = (if nesting v \<le> 128 then Inr (v, length (ps_pack v [])) else Inl TooDeep)
    \<and> ps_pack v buf = buf @ ps_pack v []"
  using fits_reads_back [OF assms(2,1), of 0] has_self [of "[]" "enc v" rest] ps_pack_appends [of v buf]
  by (simp add: reads_back_def ps_unpack_def PS_MAX_DEPTH_def)

theorem packstream_roundtrip_witness:
  "let v = PList [PInt (- 17), PMap [(''a'', PBool True)], ps_node 1 [] []] in
   ps_unpack (ps_pack v [] @ [7]) = Inr (v, 12)"
proof -
  let ?v = "PList [PInt (- 17), PMap [(''a'', PBool True)], ps_node 1 [] []]"
  have "length (ps_pack ?v []) = 12" "nesting ?v = 2" by code_simp+
  moreover have "fits ?v" by (simp add: fits_str_def str_bytes_def ps_node_def)
  ultimately show ?thesis using packstream_roundtrip [of ?v "[7]" "[]"] by (simp only: Let_def) (simp add: USIZE_MAX_def)
qed

end
