(* ===== verification/Packstream_Decoder.thy ===== *)
theory Packstream_Decoder
  imports Packstream
begin

text \<open>
  The PackStream decoder on any bytes: what it has settled is not changed by the bytes after it, a cut
  is always reported as truncation, and what it accepts is never shorter than what the encoder writes.
\<close>

named_theorems settled_intros "readers whose result depends only on the bytes they consume"

text \<open>
  A reader is settled when it consumes at least \<open>m\<close> bytes, reads the same from every buffer that agrees
  up to its end, and runs out of bytes on every cut before it.
\<close>

definition settled :: "nat \<Rightarrow> (bytes \<Rightarrow> nat \<Rightarrow> pack_error + 'a \<times> nat) \<Rightarrow> bool" where
  "settled m r \<longleftrightarrow> (\<forall>buf pos x p. slice_ok buf \<longrightarrow> pos \<le> length buf \<longrightarrow> r buf pos = Inr (x, p) \<longrightarrow>
     pos + m \<le> p \<and> p \<le> length buf
     \<and> (\<forall>t. slice_ok t \<longrightarrow> p \<le> length t \<longrightarrow> take p t = take p buf \<longrightarrow> r t pos = Inr (x, p))
     \<and> (\<forall>k. pos \<le> k \<longrightarrow> k < p \<longrightarrow> r (take k buf) pos = Inl Truncated))"

lemma settledI:
  assumes "\<And>buf pos x p. slice_ok buf \<Longrightarrow> pos \<le> length buf \<Longrightarrow> r buf pos = Inr (x, p) \<Longrightarrow> pos + m \<le> p \<and> p \<le> length buf"
    and "\<And>buf pos x p t. slice_ok buf \<Longrightarrow> pos \<le> length buf \<Longrightarrow> r buf pos = Inr (x, p) \<Longrightarrow> slice_ok t \<Longrightarrow> p \<le> length t
      \<Longrightarrow> take p t = take p buf \<Longrightarrow> r t pos = Inr (x, p)"
    and "\<And>buf pos x p k. slice_ok buf \<Longrightarrow> pos \<le> length buf \<Longrightarrow> r buf pos = Inr (x, p) \<Longrightarrow> pos \<le> k \<Longrightarrow> k < p
      \<Longrightarrow> r (take k buf) pos = Inl Truncated"
  shows "settled m r"
  unfolding settled_def using assms by blast

lemma settledD:
  assumes "settled m r" "slice_ok buf" "pos \<le> length buf" "r buf pos = Inr (x, p)"
  shows "pos + m \<le> p" "p \<le> length buf"
    "slice_ok t \<Longrightarrow> p \<le> length t \<Longrightarrow> take p t = take p buf \<Longrightarrow> r t pos = Inr (x, p)"
    "pos \<le> k \<Longrightarrow> k < p \<Longrightarrow> r (take k buf) pos = Inl Truncated"
  using assms unfolding settled_def by blast+

lemma settled_return [settled_intros]: "settled 0 (\<lambda>buf pos. Inr (x, pos))"
  by (simp add: settled_def)

lemma settled_error [settled_intros]: "settled m (\<lambda>buf pos. Inl e)"
  by (simp add: settled_def)

lemma settled_if [settled_intros]:
  "settled m r \<Longrightarrow> settled m s \<Longrightarrow> settled m (\<lambda>buf pos. if c then r buf pos else s buf pos)"
  by (cases c) simp_all

lemma settled_less: "settled m r \<Longrightarrow> n \<le> m \<Longrightarrow> settled n r"
  unfolding settled_def by (meson add_left_mono order_trans)

lemma take_agree: "take p t = take p s \<Longrightarrow> q \<le> p \<Longrightarrow> take q t = take q s"
  by (metis min.absorb1 take_take)

lemma settled_bind:
  assumes "settled a r" "\<And>x. settled b (f x)"
  shows "settled (a + b) (\<lambda>buf pos. and_then (r buf pos) (\<lambda>(x, pos). f x buf pos))"
proof (rule settledI)
  fix buf pos z p assume buf: "slice_ok buf" "pos \<le> length buf" and "and_then (r buf pos) (\<lambda>(x, pos). f x buf pos) = Inr (z, p)"
  then obtain x q where r: "r buf pos = Inr (x, q)" and f: "f x buf q = Inr (z, p)" by (auto simp: and_then_Inr_iff)
  note R = settledD [OF assms(1) buf r]
  note F = settledD [OF assms(2) buf(1) R(2) f]
  show "pos + (a + b) \<le> p \<and> p \<le> length buf" using R(1) F(1,2) by simp
  show "and_then (r t pos) (\<lambda>(x, pos). f x t pos) = Inr (z, p)"
    if "slice_ok t" "p \<le> length t" "take p t = take p buf" for t
    using R(3) [of t] F(1,3) that take_agree [of p t buf q] by simp
  show "and_then (r (take k buf) pos) (\<lambda>(x, pos). f x (take k buf) pos) = Inl Truncated" if "pos \<le> k" "k < p" for k
  proof (cases "k < q")
    case True
    then show ?thesis using R(4) that by simp
  next
    case False
    then have "r (take k buf) pos = Inr (x, q)" using R(2) R(3) [of "take k buf"] buf F(2) that by (simp add: min_def)
    then show ?thesis using F(4) False that by simp
  qed
qed

lemma settled_bind0 [settled_intros]:
  "settled 0 r \<Longrightarrow> (\<And>x. settled 0 (f x)) \<Longrightarrow> settled 0 (\<lambda>buf pos. and_then (r buf pos) (\<lambda>(x, pos). f x buf pos))"
  using settled_bind [of 0 r 0 f] by simp

lemma settled_map [settled_intros]:
  "settled n r \<Longrightarrow> settled n (\<lambda>buf pos. and_then (r buf pos) (\<lambda>(x, pos). Inr (g x, pos)))"
  using settled_bind [of n r 0 "\<lambda>x buf pos. Inr (g x, pos)"] by (simp add: settled_return)

text \<open>The count check refuses only what would run out of bytes anyway.\<close>

lemma settled_count [settled_intros]:
  assumes "settled n r"
  shows "settled 0 (\<lambda>buf pos. and_then (check_count buf n pos) (\<lambda>_. r buf pos))"
proof (rule settledI)
  fix buf pos z p assume buf: "slice_ok buf" "pos \<le> length buf" and "and_then (check_count buf n pos) (\<lambda>_. r buf pos) = Inr (z, p)"
  then have r: "r buf pos = Inr (z, p)" by (auto simp: check_count_def split: if_splits)
  note R = settledD [OF assms buf r]
  show "pos + 0 \<le> p \<and> p \<le> length buf" using R(1,2) by simp
  show "and_then (check_count t n pos) (\<lambda>_. r t pos) = Inr (z, p)" if "slice_ok t" "p \<le> length t" "take p t = take p buf" for t
    using R(1) R(3) [OF that] that(2) by (simp add: check_count_def)
  show "and_then (check_count (take k buf) n pos) (\<lambda>_. r (take k buf) pos) = Inl Truncated" if "pos \<le> k" "k < p" for k
    using R(4) [OF that] by (simp add: check_count_def)
qed

lemma settled_take: "settled n (\<lambda>buf. ps_take buf n)"
proof (rule settledI)
  fix buf pos z p assume buf: "slice_ok buf" "pos \<le> length buf" and "ps_take buf n pos = Inr (z, p)"
  then have z: "z = take n (drop pos buf)" "p = pos + n" "pos + n \<le> length buf" by (auto simp: ps_take_def split: if_splits)
  show "pos + n \<le> p \<and> p \<le> length buf" using z by simp
  show "ps_take t n pos = Inr (z, p)" if "slice_ok t" "p \<le> length t" "take p t = take p buf" for t
    using z that take_drop_agree [of p t buf pos n] by (simp add: ps_take_def)
  show "ps_take (take k buf) n pos = Inl Truncated" if "pos \<le> k" "k < p" for k
    using z that by (simp add: ps_take_def)
qed

lemma settled_take0 [settled_intros]: "settled 0 (\<lambda>buf. ps_take buf n)"
  using settled_take by (rule settled_less) simp

lemma settled_byte: "settled 1 (\<lambda>buf. ps_byte buf)"
  unfolding ps_byte_def [abs_def] by (intro settled_map settled_take)

lemma settled_byte0 [settled_intros]: "settled 0 (\<lambda>buf. ps_byte buf)"
  using settled_byte by (rule settled_less) simp

lemma settled_uint [settled_intros]: "settled 0 (\<lambda>buf. ps_uint buf w)"
  unfolding ps_uint_def [abs_def] Let_def by (intro settled_intros)

lemma settled_sized [settled_intros]: "settled 0 (\<lambda>buf. ps_sized buf m ms)"
  by (cases ms) (simp add: ps_sized_def [abs_def] settled_uint)

lemma settled_string [settled_intros]: "settled 0 (\<lambda>buf. ps_string buf n)"
proof -
  have "settled 0 (\<lambda>buf pos. case ox of None \<Rightarrow> Inl InvalidUtf8 | Some s \<Rightarrow> Inr (s, pos))" for ox :: "string option"
    by (cases ox) (simp_all add: settled_error settled_return)
  then show ?thesis unfolding ps_string_def [abs_def] by (intro settled_bind0 settled_take0)
qed

text \<open>The loops, over a settled reader of one element.\<close>

lemma settled_items:
  assumes "settled 1 (\<lambda>buf. ps_value buf (d + 1))"
  shows "settled n (\<lambda>buf. ps_items buf d n)"
proof (induction n)
  case 0
  show ?case using settled_return by simp
next
  case (Suc n)
  have "settled n (\<lambda>buf pos. and_then (ps_items buf d n pos) (\<lambda>(vs, pos). Inr (v # vs, pos)))" for v
    using Suc by (rule settled_map)
  from settled_bind [OF assms this] show ?case by simp
qed

lemma settled_entries:
  assumes "settled 1 (\<lambda>buf. ps_value buf (d + 1))"
  shows "settled n (\<lambda>buf. ps_entries buf d n)"
proof (induction n)
  case 0
  show ?case using settled_return by simp
next
  case (Suc n)
  have "settled n (\<lambda>buf pos. and_then (ps_entries buf d n pos) (\<lambda>(es, pos). Inr ((key, v) # es, pos)))" for key v
    using Suc by (rule settled_map)
  from settled_bind [OF assms this]
  have "settled n (\<lambda>buf pos. and_then (ps_value buf (d + 1) pos) (\<lambda>(v, pos).
      and_then (ps_entries buf d n pos) (\<lambda>(es, pos). Inr ((key, v) # es, pos))))" for key
    by (rule settled_less) simp
  then have "settled n (\<lambda>buf pos. case k of PString key \<Rightarrow> and_then (ps_value buf (d + 1) pos) (\<lambda>(v, pos).
      and_then (ps_entries buf d n pos) (\<lambda>(es, pos). Inr ((key, v) # es, pos))) | _ \<Rightarrow> Inl NonStringKey)" for k
    by (cases k) (simp_all add: settled_error)
  from settled_bind [OF assms this] show ?case by simp
qed

lemma settled_value: "settled 1 (\<lambda>buf. ps_value buf d)"
proof (induction "PS_MAX_DEPTH + 1 - d" arbitrary: d rule: less_induct)
  case less
  show ?case
  proof (cases "d \<le> PS_MAX_DEPTH")
    case False
    then have "(\<lambda>buf. ps_value buf d) = (\<lambda>buf pos. Inl TooDeep)" by (simp add: ps_value_deep fun_eq_iff)
    then show ?thesis using settled_error by simp
  next
    case True
    then have IH: "settled 1 (\<lambda>buf. ps_value buf (d + 1))" by (intro less) simp
    have deep: "(PS_MAX_DEPTH < d) = False" using True by simp
    have first: "settled 1 (\<lambda>buf pos. and_then (ps_byte buf pos) (\<lambda>(m, pos). f m buf pos))"
      if "\<And>m. settled 0 (f m)" for f :: "u8 \<Rightarrow> bytes \<Rightarrow> nat \<Rightarrow> pack_error + pack_value \<times> nat"
      using settled_bind [OF settled_byte that] by simp
    show ?thesis unfolding ps_value.simps [abs_def] Let_def deep if_False
      by (intro first settled_intros settled_items [OF IH] settled_entries [OF IH])
  qed
qed

section \<open>What is accepted\<close>

text \<open>
  A result is fair when its value can be encoded, lies within the depth, and its encoding is no longer than
  the bytes it was read from.
\<close>

definition fair :: "nat \<Rightarrow> nat \<Rightarrow> pack_error + pack_value \<times> nat \<Rightarrow> bool" where
  "fair d pos r \<longleftrightarrow> (\<forall>v p. r = Inr (v, p) \<longrightarrow> fits v \<and> d + nesting v \<le> PS_MAX_DEPTH \<and> pos + length (enc v) \<le> p)"

lemma fair_if: "(c \<Longrightarrow> fair d pos r) \<Longrightarrow> (\<not> c \<Longrightarrow> fair d pos s) \<Longrightarrow> fair d pos (if c then r else s)"
  by simp

lemma fair_error: "fair d pos (Inl e)"
  by (simp add: fair_def)

lemma fair_leaf:
  "d \<le> PS_MAX_DEPTH \<Longrightarrow> fits v \<Longrightarrow> nesting v = 0 \<Longrightarrow> pos + length (enc v) \<le> p \<Longrightarrow> fair d pos (Inr (v, p))"
  by (simp add: fair_def)

lemma fair_bind:
  "(\<And>x q. r = Inr (x, q) \<Longrightarrow> fair d pos (f x q)) \<Longrightarrow> fair d pos (and_then r (\<lambda>(x, q). f x q))"
  by (cases r) (auto simp: fair_error)

subsection \<open>Sizes and strings\<close>

lemma ps_take_Inr: "ps_take buf n pos = Inr (bs, p) \<Longrightarrow> p = pos + n \<and> length bs = n"
  by (auto simp: ps_take_def split: if_splits)

lemma ps_byte_Inr: "ps_byte buf pos = Inr (b, p) \<Longrightarrow> p = pos + 1 \<and> has buf pos [b]"
  by (auto simp: ps_byte_def ps_take_def has_def and_then_Inr_iff take_Suc_conv_app_nth numeral_eq_Suc drop_eq_Nil
      split: if_splits intro!: nth_equalityI)

lemma ps_uint_Inr:
  assumes "ps_uint buf w pos = Inr (n, p)"
  shows "p = pos + w \<and> n < 256 ^ w"
proof -
  obtain bs where "length bs = w" "p = pos + w" "n = unat (of_nat (le_nat (rev bs)) :: u64)"
    using assms by (auto simp: ps_uint_def and_then_Inr_iff shift_fold Let_def dest!: ps_take_Inr split: if_splits)
  moreover have "unat (of_nat k :: u64) \<le> k" for k by (simp add: unat_of_nat)
  ultimately show ?thesis using le_nat_less [of "rev bs"] by (metis le_less_trans length_rev)
qed

lemma pack_size_le:
  "n < 16 \<Longrightarrow> length (pack_size n ms (Some b) []) = 1"
  "n < 256 \<Longrightarrow> length (pack_size n ms t []) \<le> 2"
  "n < 65536 \<Longrightarrow> length (pack_size n ms t []) \<le> 3"
  "length (pack_size n ms t []) \<le> 5"
  by (cases ms; simp add: pack_size_def byte_simps)+

lemma ps_sized_Inr:
  assumes "ps_sized buf m ms pos = Inr (n, p)"
  shows "n < 2 ^ 32 \<and> pos + length (pack_size n ms' t []) \<le> p + 1"
proof -
  consider "ps_uint buf 1 pos = Inr (n, p)" | "ps_uint buf 2 pos = Inr (n, p)" | "ps_uint buf 4 pos = Inr (n, p)"
    using assms by (cases ms) (auto simp: ps_sized_def split: if_splits)
  then show ?thesis
  proof cases
    case 1
    then show ?thesis using ps_uint_Inr [OF 1] pack_size_le(2) [of n ms' t] by simp
  next
    case 2
    then show ?thesis using ps_uint_Inr [OF 2] pack_size_le(3) [of n ms' t] by simp
  next
    case 3
    then show ?thesis using ps_uint_Inr [OF 3] pack_size_le(4) [of n ms' t] by simp
  qed
qed

lemma str_bytes_bytes_str: "str_bytes (bytes_str bs) = bs"
proof (induction bs)
  case (Cons b bs)
  have "unat b mod 256 = unat b" using unsigned_less [where 'a = nat, of b] by simp
  then show ?case using Cons by (simp add: str_bytes_def bytes_str_def)
qed (simp add: str_bytes_def bytes_str_def)

lemma ps_string_Inr: "ps_string buf n pos = Inr (s, p) \<Longrightarrow> p = pos + n \<and> length (str_bytes s) = n \<and> utf8_valid (str_bytes s)"
  by (auto simp: ps_string_def and_then_Inr_iff from_utf8_def str_bytes_bytes_str dest!: ps_take_Inr split: if_splits)

lemma unat_and_F: "unat (m AND 0x0F :: u8) < 16"
proof -
  have "m AND 0x0F = take_bit 4 m" by (simp add: take_bit_eq_mask mask_eq_exp_minus_1)
  then show ?thesis using take_bit_nat_less_exp [of 4 "unat m"] by (simp add: unsigned_take_bit_eq)
qed

subsection \<open>Integers\<close>

lemma pack_int_le:
  "-16 \<le> sint i \<Longrightarrow> sint i \<le> 127 \<Longrightarrow> length (pack_int i []) = 1"
  "- (2 ^ 7) \<le> sint i \<Longrightarrow> sint i < 2 ^ 7 \<Longrightarrow> length (pack_int i []) \<le> 2"
  "- (2 ^ 15) \<le> sint i \<Longrightarrow> sint i < 2 ^ 15 \<Longrightarrow> length (pack_int i []) \<le> 3"
  "- (2 ^ 31) \<le> sint i \<Longrightarrow> sint i < 2 ^ 31 \<Longrightarrow> length (pack_int i []) \<le> 5"
  "length (pack_int i []) \<le> 9"
  by (simp_all add: pack_int_def byte_simps)

lemma sint_widen: "LENGTH('k::len) \<le> 64 \<Longrightarrow> sint (scast (w :: 'k word) :: u64) = sint w"
proof -
  assume "LENGTH('k) \<le> 64"
  then have le: "(2 :: int) ^ (LENGTH('k) - 1) \<le> 2 ^ 63" by (intro power_increasing) simp_all
  have "- (2 ^ 63) \<le> sint w" "sint w < 2 ^ 63"
    using le sint_ge [of w] sint_lt [of w] by simp_all
  then show ?thesis by (simp add: signed_scast_eq signed_take_bit_int_eq_self)
qed

lemma widened_le:
  "length (pack_int (scast (a :: u8)) []) \<le> 2" "length (pack_int (scast (b :: u16)) []) \<le> 3" "length (pack_int (scast (c :: u32)) []) \<le> 5"
  using pack_int_le(2-4) sint_widen [of a] sint_widen [of b] sint_widen [of c]
    sint_ge [of a] sint_lt [of a] sint_ge [of b] sint_lt [of b] sint_ge [of c] sint_lt [of c] by simp_all

lemma tiny_int_le:
  "m \<le> 0x7F \<Longrightarrow> length (pack_int (ucast (m :: u8)) []) = 1" "0xF0 \<le> m \<Longrightarrow> length (pack_int (scast m) []) = 1"
  using byte_sign [of m] sint_widen [of m] sint_lt [of m] pack_int_le(1) [of "scast m"] by auto

subsection \<open>Containers\<close>

text \<open>The elements one level down are fair.\<close>

definition fair_below :: "bytes \<Rightarrow> nat \<Rightarrow> bool" where
  "fair_below buf d \<longleftrightarrow> (\<forall>pos. fair (d + 1) pos (ps_value buf (d + 1) pos))"

lemma fair_belowD:
  assumes "fair_below buf d" "ps_value buf (Suc d) pos = Inr (v, p)"
  shows "fits v" "d + Suc (nesting v) \<le> PS_MAX_DEPTH" "pos + length (enc v) \<le> p"
  using assms unfolding fair_below_def fair_def by force+

lemma ps_items_fair:
  "fair_below buf d \<Longrightarrow> ps_items buf d n pos = Inr (xs, p) \<Longrightarrow>
     length xs = n \<and> (\<forall>x\<in>set xs. fits x \<and> d + Suc (nesting x) \<le> PS_MAX_DEPTH) \<and> pos + length (concat (map enc xs)) \<le> p"
proof (induction n arbitrary: pos xs)
  case (Suc n)
  then obtain v q vs where v: "ps_value buf (Suc d) pos = Inr (v, q)" and vs: "ps_items buf d n q = Inr (vs, p)" "xs = v # vs"
    by (auto simp: and_then_Inr_iff)
  show ?case using Suc.IH [OF Suc.prems(1) vs(1)] fair_belowD [OF Suc.prems(1) v] vs(2) by simp
qed simp

lemma ps_entries_fair:
  "fair_below buf d \<Longrightarrow> ps_entries buf d n pos = Inr (es, p) \<Longrightarrow>
     length es = n \<and> (\<forall>(k, v)\<in>set es. fits_str k \<and> fits v \<and> d + Suc (nesting v) \<le> PS_MAX_DEPTH)
     \<and> pos + length (concat (map enc_entry es)) \<le> p"
proof (induction n arbitrary: pos es)
  case (Suc n)
  then obtain k' q where kq: "ps_value buf (Suc d) pos = Inr (k', q)" by (auto simp: and_then_Inr_iff)
  then obtain key v r vs where k: "ps_value buf (Suc d) pos = Inr (PString key, q)" and v: "ps_value buf (Suc d) q = Inr (v, r)"
    and vs: "ps_entries buf d n r = Inr (vs, p)" "es = (key, v) # vs"
    using Suc.prems(2) by (cases k') (auto simp: and_then_Inr_iff)
  show ?case using Suc.IH [OF Suc.prems(1) vs(1)] fair_belowD [OF Suc.prems(1) k] fair_belowD [OF Suc.prems(1) v] vs(2) by simp
qed simp

lemma fair_list_body:
  assumes "fair_below buf d" "d \<le> PS_MAX_DEPTH" "n < 2 ^ 32" "pos + length (pack_size n (0xD4, 0xD5, 0xD6) (Some 0x90) []) \<le> q"
  shows "fair d pos (ps_list_body buf d n q)"
  using assms(2-4) ps_items_fair [OF assms(1), of n q]
  by (fastforce simp: fair_def ps_list_body_def and_then_Inr_iff enc_PList foldr_max_le simp del: ps_pack.simps)

lemma fair_map_body:
  assumes "fair_below buf d" "d \<le> PS_MAX_DEPTH" "n < 2 ^ 32" "pos + length (pack_size n (0xD8, 0xD9, 0xDA) (Some 0xA0) []) \<le> q"
  shows "fair d pos (ps_map_body buf d n q)"
  using assms(2-4) ps_entries_fair [OF assms(1), of n q]
  by (fastforce simp: fair_def ps_map_body_def and_then_Inr_iff enc_PMap foldr_max_le simp del: ps_pack.simps)

lemma fair_struct_body:
  assumes "fair_below buf d" "d \<le> PS_MAX_DEPTH" "n < 2 ^ 16" "pos + length (pack_struct_size n []) \<le> q"
  shows "fair d pos (ps_struct_body buf d n q)"
  using assms(2-4) ps_items_fair [OF assms(1), of n "q + 1"]
  by (fastforce simp: fair_def ps_struct_body_def and_then_Inr_iff enc_PStruct foldr_max_le simp del: ps_pack.simps dest: ps_byte_Inr)

lemma fair_string:
  assumes "d \<le> PS_MAX_DEPTH" "n < 2 ^ 32" "pos + length (pack_size n (0xD0, 0xD1, 0xD2) (Some 0x80) []) \<le> q"
  shows "fair d pos (and_then (ps_string buf n q) (\<lambda>(s, p). Inr (PString s, p)))"
proof (rule fair_bind)
  fix s p assume "ps_string buf n q = Inr (s, p)"
  with assms show "fair d pos (Inr (PString s, p))"
    by (intro fair_leaf) (auto simp: fits_str_def pack_string_def dest: ps_string_Inr)
qed

lemma fair_bytes:
  assumes "d \<le> PS_MAX_DEPTH" "n < 2 ^ 32" "pos + length (pack_size n (0xCC, 0xCD, 0xCE) None []) \<le> q"
  shows "fair d pos (and_then (ps_take buf n q) (\<lambda>(b, p). Inr (PBytes b, p)))"
proof (rule fair_bind)
  fix b p assume "ps_take buf n q = Inr (b, p)"
  with assms show "fair d pos (Inr (PBytes b, p))" by (intro fair_leaf) (auto dest: ps_take_Inr)
qed

lemma fair_take_int:
  assumes "d \<le> PS_MAX_DEPTH" "\<And>b. length (pack_int (f b) []) \<le> n + 1"
  shows "fair d pos (and_then (ps_take buf n (pos + 1)) (\<lambda>(b, p). Inr (PInt (f b), p)))"
proof (rule fair_bind)
  fix b p assume "ps_take buf n (pos + 1) = Inr (b, p)"
  then show "fair d pos (Inr (PInt (f b), p))" using assms(1) assms(2) [of b] by (intro fair_leaf) (auto dest: ps_take_Inr)
qed

lemma fair_take_float:
  assumes "d \<le> PS_MAX_DEPTH"
  shows "fair d pos (and_then (ps_take buf 8 (pos + 1)) (\<lambda>(b, p). Inr (PFloat (be_u64 b), p)))"
proof (rule fair_bind)
  fix b p assume "ps_take buf 8 (pos + 1) = Inr (b, p)"
  then show "fair d pos (Inr (PFloat (be_u64 b), p))" using assms by (intro fair_leaf) (auto simp: byte_simps dest: ps_take_Inr)
qed

lemma fair_byte_int:
  assumes "d \<le> PS_MAX_DEPTH"
  shows "fair d pos (and_then (ps_byte buf (pos + 1)) (\<lambda>(b, p). Inr (PInt (scast b), p)))"
proof (rule fair_bind)
  fix b p assume "ps_byte buf (pos + 1) = Inr (b, p)"
  then show "fair d pos (Inr (PInt (scast b), p))" using assms widened_le(1) [of b] by (intro fair_leaf) (auto dest: ps_byte_Inr)
qed

lemma pack_struct_size_le:
  "n < 16 \<Longrightarrow> length (pack_struct_size n []) = 1" "n < 256 \<Longrightarrow> length (pack_struct_size n []) \<le> 2" "length (pack_struct_size n []) \<le> 3"
  by (simp_all add: pack_struct_size_def byte_simps)

lemma sized_branches:
  assumes "fair_below buf d" "d \<le> PS_MAX_DEPTH"
  shows "fair d pos (and_then (ps_sized buf m (0xCC, 0xCD, 0xCE) (pos + 1)) (\<lambda>(n, q). and_then (ps_take buf n q) (\<lambda>(b, p). Inr (PBytes b, p))))"
    "fair d pos (and_then (ps_sized buf m (0xD0, 0xD1, 0xD2) (pos + 1)) (\<lambda>(n, q). and_then (ps_string buf n q) (\<lambda>(s, p). Inr (PString s, p))))"
    "fair d pos (and_then (ps_sized buf m (0xD4, 0xD5, 0xD6) (pos + 1)) (\<lambda>(n, q). ps_list_body buf d n q))"
    "fair d pos (and_then (ps_sized buf m (0xD8, 0xD9, 0xDA) (pos + 1)) (\<lambda>(n, q). ps_map_body buf d n q))"
    "fair d pos (and_then (ps_uint buf 1 (pos + 1)) (\<lambda>(n, q). ps_struct_body buf d n q))"
    "fair d pos (and_then (ps_uint buf 2 (pos + 1)) (\<lambda>(n, q). ps_struct_body buf d n q))"
proof -
  have sz: "n < 2 ^ 32 \<and> pos + length (pack_size n ms' t []) \<le> q" if "ps_sized buf m ms (pos + 1) = Inr (n, q)" for ms ms' n q t
    using ps_sized_Inr [OF that, of ms' t] by simp
  have st: "n < 2 ^ 16 \<and> pos + length (pack_struct_size n []) \<le> q"
    if "ps_uint buf 1 (pos + 1) = Inr (n, q) \<or> ps_uint buf 2 (pos + 1) = Inr (n, q)" for n q
    using that pack_struct_size_le(2,3) [of n] by (auto dest!: ps_uint_Inr)
  show "fair d pos (and_then (ps_sized buf m (0xCC, 0xCD, 0xCE) (pos + 1)) (\<lambda>(n, q). and_then (ps_take buf n q) (\<lambda>(b, p). Inr (PBytes b, p))))"
    by (rule fair_bind) (use sz assms in \<open>blast intro: fair_bytes\<close>)
  show "fair d pos (and_then (ps_sized buf m (0xD0, 0xD1, 0xD2) (pos + 1)) (\<lambda>(n, q). and_then (ps_string buf n q) (\<lambda>(s, p). Inr (PString s, p))))"
    by (rule fair_bind) (use sz assms in \<open>blast intro: fair_string\<close>)
  show "fair d pos (and_then (ps_sized buf m (0xD4, 0xD5, 0xD6) (pos + 1)) (\<lambda>(n, q). ps_list_body buf d n q))"
    by (rule fair_bind) (use sz assms in \<open>blast intro: fair_list_body\<close>)
  show "fair d pos (and_then (ps_sized buf m (0xD8, 0xD9, 0xDA) (pos + 1)) (\<lambda>(n, q). ps_map_body buf d n q))"
    by (rule fair_bind) (use sz assms in \<open>blast intro: fair_map_body\<close>)
  show "fair d pos (and_then (ps_uint buf 1 (pos + 1)) (\<lambda>(n, q). ps_struct_body buf d n q))"
    and "fair d pos (and_then (ps_uint buf 2 (pos + 1)) (\<lambda>(n, q). ps_struct_body buf d n q))"
    by (rule fair_bind, use st assms in \<open>blast intro: fair_struct_body\<close>)+
qed

text \<open>Every marker gives a fair result.\<close>

lemma fair_value: "slice_ok buf \<Longrightarrow> fair d pos (ps_value buf d pos)"
proof (induction "PS_MAX_DEPTH + 1 - d" arbitrary: d pos rule: less_induct)
  case less
  show ?case
  proof (cases "d \<le> PS_MAX_DEPTH \<and> (\<exists>m p. ps_byte buf pos = Inr (m, p))")
    case False
    then show ?thesis by (cases "ps_byte buf pos") (auto simp: ps_value.simps [of buf d pos] fair_error)
  next
    case True
    then obtain m where d: "d \<le> PS_MAX_DEPTH" and h: "has buf pos [m]" using ps_byte_Inr by blast
    have below: "fair_below buf d" unfolding fair_below_def using less d by simp
    have F: "unat (m AND 0x0F) < 16" by (rule unat_and_F)
    then have F': "unat (m AND 0x0F) < 2 ^ 32" "unat (m AND 0x0F) < 2 ^ 16" by simp_all
    have ints: "m \<le> 0x7F \<Longrightarrow> fair d pos (Inr (PInt (ucast m), pos + 1))" "0xF0 \<le> m \<Longrightarrow> fair d pos (Inr (PInt (scast m), pos + 1))"
      using tiny_int_le [of m] d by (auto intro!: fair_leaf)
    have plain: "fair d pos (Inr (PNull, pos + 1))" "fair d pos (Inr (PBool b, pos + 1))" for b
      using d by (auto intro!: fair_leaf)
    have tiny: "fair d pos (and_then (ps_string buf (unat (m AND 0x0F)) (pos + 1)) (\<lambda>(s, p). Inr (PString s, p)))"
      "fair d pos (ps_list_body buf d (unat (m AND 0x0F)) (pos + 1))" "fair d pos (ps_map_body buf d (unat (m AND 0x0F)) (pos + 1))"
      "fair d pos (ps_struct_body buf d (unat (m AND 0x0F)) (pos + 1))"
      using pack_size_le(1) [OF F] pack_struct_size_le(1) [OF F]
      by (intro fair_string [OF d F'(1)] fair_list_body [OF below d F'(1)] fair_map_body [OF below d F'(1)] fair_struct_body [OF below d F'(2)]; simp)+
    note wide = sized_branches [OF below d]
    show ?thesis unfolding ps_value_step [OF less(2) h d]
      by (intro fair_if) (rule ints plain tiny wide fair_error fair_byte_int [OF d] fair_take_float [OF d]
        fair_take_int [OF d] | assumption | simp add: widened_le pack_int_le(5))+
  qed
qed

text \<open>
  C29: Whatever bytes the decoder accepts, minimal or not, it has read a value that fits the format and is at
  most 128 levels deep, from at least as many bytes as the encoder writes for it (the encoder is minimal) and at most
  those there are; other bytes after them change nothing, and every proper prefix is refused as truncated and as
  nothing else. The value read encodes to bytes that decode to it.
\<close>

theorem packstream_decoder:
  assumes "slice_ok buf" and "ps_unpack buf = Inr (v, n)"
  shows "fits v \<and> nesting v \<le> 128 \<and> length (ps_pack v []) \<le> n \<and> n \<le> length buf
    \<and> (slice_ok (take n buf @ rest) \<longrightarrow> ps_unpack (take n buf @ rest) = Inr (v, n))
    \<and> (\<forall>cut<n. ps_unpack (take cut buf) = Inl Truncated)
    \<and> ps_unpack (ps_pack v []) = Inr (v, length (ps_pack v []))"
proof -
  have v: "ps_value buf 0 0 = Inr (v, n)" using assms(2) by (simp add: ps_unpack_def)
  note S = settledD [OF settled_value assms(1) _ v]
  have f: "fits v" "nesting v \<le> PS_MAX_DEPTH" "length (enc v) \<le> n"
    using fair_value [OF assms(1), of 0 0] v by (simp_all add: fair_def)
  have "slice_ok (enc v)" using f(3) S(2) assms(1) by simp
  then have "ps_unpack (enc v) = Inr (v, length (enc v))"
    using fits_reads_back [of "enc v" v 0] f has_self [of "[]" "enc v" "[]"] by (simp add: reads_back_def ps_unpack_def)
  then show ?thesis using f S(2) S(3) [of "take n buf @ rest"] S(4) by (simp add: ps_unpack_def PS_MAX_DEPTH_def)
qed

theorem packstream_decoder_witness:
  "ps_unpack (take 2 [0xC9, 0, 1, 5]) = Inl Truncated \<and> ps_unpack (take 3 [0xC9, 0, 1, 5] @ [9]) = Inr (PInt 1, 3)
   \<and> length (ps_pack (PInt 1) []) \<le> 3"
proof -
  have "slice_ok [0xC9, 0, 1, 5]" "slice_ok (take 3 [0xC9, 0, 1, 5] @ [9])" by (simp_all add: USIZE_MAX_def)
  moreover have "ps_unpack [0xC9, 0, 1, 5] = Inr (PInt 1, 3)"
  proof -
    have "has [0xC9, 0, 1, 5] 0 [0xC9]" by (simp add: has_def)
    moreover have "ps_take [0xC9, 0, 1, 5] 2 1 = Inr ([0, 1], 3)" by (simp add: ps_take_def USIZE_MAX_def)
    moreover have "scast (be_u16 [0, 1]) = (1 :: u64)" by code_simp
    ultimately show ?thesis using ps_value_step [of "[0xC9, 0, 1, 5]" 0 "0xC9" 0] by (simp add: ps_unpack_def USIZE_MAX_def)
  qed
  ultimately have r: "\<forall>cut<3. ps_unpack (take cut [0xC9, 0, 1, 5]) = Inl Truncated"
      "ps_unpack (take 3 [0xC9, 0, 1, 5] @ [9]) = Inr (PInt 1, 3)" "length (ps_pack (PInt 1) []) \<le> 3"
    using packstream_decoder [of "[0xC9, 0, 1, 5]" "PInt 1" 3 "[9]"] by blast+
  show ?thesis using r(1) [rule_format, of 2] r(2,3) by simp
qed

end
