(* ===== verification/Bolt_Messages.thy ===== *)
theory Bolt_Messages
  imports Packstream_Decoder Iso8601
begin

text \<open>
  The messages of the Bolt protocol over PackStream: errors (\<open>crates/bolt/src/error.rs\<close>), requests and
  replies (\<open>messages/mod.rs\<close>), and the fields of \<open>HELLO\<close>, \<open>RUN\<close>, \<open>PULL\<close>, \<open>BEGIN\<close> and \<open>ROUTE\<close>
  (\<open>messages/hello.rs\<close>, \<open>run.rs\<close>, \<open>tx.rs\<close>, \<open>route.rs\<close>). An error carries its text as pieces: the fixed
  words, and the strings the source prints with \<open>{:?}\<close>, whose escaping follows the Unicode tables and is a
  parameter where text is rendered.
\<close>

section \<open>Errors\<close>

datatype piece = Lit string | Quoted string

type_synonym err_text = "piece list"

datatype bolt_error =
    Unauthorized
  | Forbidden err_text
  | ConstraintValidation err_text
  | SyntaxError err_text
  | TransactionTimedOut
  | DatabaseNotFound err_text
  | Conflict err_text
  | Unavailable err_text
  | Invalid err_text
  | TooLarge err_text
  | NotSupported err_text
  | Internal err_text

datatype classification = ClientClass | TransientClass | DatabaseClass

definition CLIENT :: string where "CLIENT = ''Neo.ClientError''"
definition TRANSIENT :: string where "TRANSIENT = ''Neo.TransientError''"
definition DATABASE :: string where "DATABASE = ''Neo.DatabaseError''"

fun err_code :: "bolt_error \<Rightarrow> string" where
  "err_code Unauthorized = CLIENT @ ''.'' @ ''Security.Unauthorized''"
| "err_code (Forbidden _) = CLIENT @ ''.'' @ ''Security.Forbidden''"
| "err_code (ConstraintValidation _) = CLIENT @ ''.'' @ ''Schema.ConstraintValidationFailed''"
| "err_code (SyntaxError _) = CLIENT @ ''.'' @ ''Statement.SyntaxError''"
| "err_code TransactionTimedOut = CLIENT @ ''.'' @ ''Transaction.TransactionTimedOut''"
| "err_code (DatabaseNotFound _) = CLIENT @ ''.'' @ ''Database.DatabaseNotFound''"
| "err_code (Conflict _) = TRANSIENT @ ''.'' @ ''Transaction.DeadlockDetected''"
| "err_code (Unavailable _) = TRANSIENT @ ''.'' @ ''General.DatabaseUnavailable''"
| "err_code (Invalid _) = CLIENT @ ''.'' @ ''Request.Invalid''"
| "err_code (TooLarge _) = CLIENT @ ''.'' @ ''Request.Invalid''"
| "err_code (NotSupported _) = DATABASE @ ''.'' @ ''General.UnknownError''"
| "err_code (Internal _) = DATABASE @ ''.'' @ ''General.UnknownError''"

fun err_class :: "bolt_error \<Rightarrow> classification" where
  "err_class (Conflict _) = TransientClass"
| "err_class (Unavailable _) = TransientClass"
| "err_class (NotSupported _) = DatabaseClass"
| "err_class (Internal _) = DatabaseClass"
| "err_class _ = ClientClass"

definition render :: "(string \<Rightarrow> string) \<Rightarrow> err_text \<Rightarrow> string" where
  "render dbg t = concat (map (\<lambda>p. case p of Lit s \<Rightarrow> s | Quoted s \<Rightarrow> dbg s) t)"

fun err_message :: "bolt_error \<Rightarrow> err_text" where
  "err_message Unauthorized = [Lit ''The client is unauthorized due to authentication failure.'']"
| "err_message TransactionTimedOut = [Lit ''The transaction was idle past its timeout and has been rolled back.'']"
| "err_message (Forbidden m) = m"
| "err_message (ConstraintValidation m) = m"
| "err_message (SyntaxError m) = m"
| "err_message (DatabaseNotFound m) = m"
| "err_message (Conflict m) = m"
| "err_message (Unavailable m) = m"
| "err_message (Invalid m) = m"
| "err_message (TooLarge m) = m"
| "err_message (NotSupported m) = m"
| "err_message (Internal m) = m"

section \<open>Requests\<close>

definition TAG_HELLO :: u8 where "TAG_HELLO = 0x01"
definition TAG_GOODBYE :: u8 where "TAG_GOODBYE = 0x02"
definition TAG_RESET :: u8 where "TAG_RESET = 0x0F"
definition TAG_RUN :: u8 where "TAG_RUN = 0x10"
definition TAG_BEGIN :: u8 where "TAG_BEGIN = 0x11"
definition TAG_COMMIT :: u8 where "TAG_COMMIT = 0x12"
definition TAG_ROLLBACK :: u8 where "TAG_ROLLBACK = 0x13"
definition TAG_DISCARD :: u8 where "TAG_DISCARD = 0x2F"
definition TAG_PULL :: u8 where "TAG_PULL = 0x3F"
definition TAG_ROUTE :: u8 where "TAG_ROUTE = 0x66"
definition TAG_SUCCESS :: u8 where "TAG_SUCCESS = 0x70"
definition TAG_RECORD :: u8 where "TAG_RECORD = 0x71"
definition TAG_IGNORED :: u8 where "TAG_IGNORED = 0x7E"
definition TAG_FAILURE :: u8 where "TAG_FAILURE = 0x7F"

datatype message_kind = Run | Begin | Commit | Rollback | Discard | Pull | Route

datatype auth_token =
    Basic "string option" string
  | Bearer string
  | NoAuth
  | UnknownAuth

record hello =
  user_agent :: "string option"
  auth :: auth_token

datatype client_message =
    Hello hello
  | Goodbye
  | Reset
  | Other message_kind "pack_value list"

type_synonym pack_map = "(string \<times> pack_value) list"

text \<open>\<open>map_get\<close>, and \<open>find\<close> by key elsewhere: the first entry of a key.\<close>

definition map_get :: "pack_map \<Rightarrow> string \<Rightarrow> pack_value option" where
  "map_get m key = map_option snd (find (\<lambda>(k, _). k = key) m)"

definition string_field :: "pack_map \<Rightarrow> string \<Rightarrow> string option" where
  "string_field m key = (case map_get m key of Some (PString s) \<Rightarrow> Some s | _ \<Rightarrow> None)"

definition hello_auth :: "pack_map \<Rightarrow> auth_token" where
  "hello_auth extra =
     (let credentials = string_field extra ''credentials'' in
      case string_field extra ''scheme'' of
        None \<Rightarrow> UnknownAuth
      | Some scheme \<Rightarrow>
          if scheme = ''basic'' then
            (case credentials of Some c \<Rightarrow> Basic (string_field extra ''principal'') c | None \<Rightarrow> UnknownAuth)
          else if scheme = ''bearer'' then
            (case credentials of Some c \<Rightarrow> Bearer c | None \<Rightarrow> UnknownAuth)
          else if scheme = ''none'' then NoAuth
          else UnknownAuth)"

fun hello_from_fields :: "pack_value list \<Rightarrow> bolt_error + hello" where
  "hello_from_fields [PMap extra] =
     Inr \<lparr> user_agent = string_field extra ''user_agent'', auth = hello_auth extra \<rparr>"
| "hello_from_fields _ = Inl (Invalid [Lit ''HELLO takes exactly one map field''])"

text \<open>Two upper-case hexadecimal digits: \<open>{:02X}\<close> of a byte.\<close>

definition hex_digit :: "nat \<Rightarrow> char" where
  "hex_digit d = (if d < 10 then char_of (48 + d) else char_of (55 + d))"

definition hex2 :: "u8 \<Rightarrow> string" where "hex2 b = [hex_digit (unat b div 16), hex_digit (unat b mod 16)]"

fun pack_error_text :: "pack_error \<Rightarrow> string" where
  "pack_error_text Truncated = ''packstream: buffer ended inside a value''"
| "pack_error_text (ReservedMarker m) = ''packstream: reserved marker 0x'' @ hex2 m"
| "pack_error_text InvalidUtf8 = ''packstream: string is not valid UTF-8''"
| "pack_error_text NonStringKey = ''packstream: map key is not a string''"
| "pack_error_text TooDeep = ''packstream: nesting deeper than 128''"

definition expect_no_fields :: "pack_value list \<Rightarrow> string \<Rightarrow> bolt_error + unit" where
  "expect_no_fields flds name = (if flds = [] then Inr () else Inl (Invalid [Lit (name @ '' takes no fields'')]))"

definition message_kind_of :: "u8 \<Rightarrow> message_kind option" where
  "message_kind_of tag =
     (if tag = TAG_RUN then Some Run else if tag = TAG_BEGIN then Some Begin
      else if tag = TAG_COMMIT then Some Commit else if tag = TAG_ROLLBACK then Some Rollback
      else if tag = TAG_DISCARD then Some Discard else if tag = TAG_PULL then Some Pull
      else if tag = TAG_ROUTE then Some Route else None)"

definition decode_message :: "bytes \<Rightarrow> bolt_error + client_message" where
  "decode_message bytes =
     (case ps_unpack bytes of
        Inl e \<Rightarrow> Inl (Invalid [Lit (''malformed message: '' @ pack_error_text e)])
      | Inr (v, used) \<Rightarrow>
          if used \<noteq> length bytes then Inl (Invalid [Lit ''malformed message: bytes after the structure''])
          else case v of
            PStruct tag flds \<Rightarrow>
              if tag = TAG_HELLO then and_then (hello_from_fields flds) (\<lambda>h. Inr (Hello h))
              else if tag = TAG_GOODBYE then and_then (expect_no_fields flds ''GOODBYE'') (\<lambda>_. Inr Goodbye)
              else if tag = TAG_RESET then and_then (expect_no_fields flds ''RESET'') (\<lambda>_. Inr Reset)
              else (case message_kind_of tag of
                  Some kind \<Rightarrow> Inr (Other kind flds)
                | None \<Rightarrow> Inl (Invalid [Lit (''unknown message tag 0x'' @ hex2 tag)]))
          | _ \<Rightarrow> Inl (Invalid [Lit ''a message must be a structure'']))"

section \<open>Replies\<close>

datatype server_message =
    Success pack_map
  | Record "pack_value list"
  | Failure bolt_error
  | Ignored

definition MAX_PACK_LEN :: nat where "MAX_PACK_LEN = 4294967295"
definition MAX_STRUCT_FIELDS :: nat where "MAX_STRUCT_FIELDS = 65535"

fun to_pack :: "(string \<Rightarrow> string) \<Rightarrow> server_message \<Rightarrow> pack_value" where
  "to_pack dbg (Success meta) = PStruct TAG_SUCCESS [PMap meta]"
| "to_pack dbg (Record values) = PStruct TAG_RECORD [PList values]"
| "to_pack dbg Ignored = PStruct TAG_IGNORED []"
| "to_pack dbg (Failure err) = PStruct TAG_FAILURE
     [PMap [(''code'', PString (err_code err)), (''message'', PString (render dbg (err_message err)))]]"

definition too_large :: "string \<Rightarrow> bolt_error" where
  "too_large what = TooLarge [Lit (''result value cannot be sent over Bolt: '' @ what @ '' exceeds the PackStream size limit'')]"

text \<open>\<open>try_for_each\<close>: the first error, or success.\<close>

fun try_each :: "('a \<Rightarrow> bolt_error + unit) \<Rightarrow> 'a list \<Rightarrow> bolt_error + unit" where
  "try_each f [] = Inr ()"
| "try_each f (x # xs) = (case f x of Inl e \<Rightarrow> Inl e | Inr _ \<Rightarrow> try_each f xs)"

lemma try_each_cong [fundef_cong]: "xs = ys \<Longrightarrow> (\<And>x. x \<in> set ys \<Longrightarrow> f x = g x) \<Longrightarrow> try_each f xs = try_each g ys"
  by (induction ys arbitrary: xs) (auto split: sum.split)

fun check_depth :: "pack_value \<Rightarrow> nat \<Rightarrow> nat \<Rightarrow> bolt_error + unit" where
  "check_depth v max_len depth =
     (if depth > PS_MAX_DEPTH then Inl (too_large ''nesting'')
      else case v of
        PBytes b \<Rightarrow> if length b > max_len then Inl (too_large ''a byte array'') else Inr ()
      | PString s \<Rightarrow> if length (str_bytes s) > max_len then Inl (too_large ''a string'') else Inr ()
      | PList items \<Rightarrow>
          if length items > max_len then Inl (too_large ''a list'')
          else try_each (\<lambda>v. check_depth v max_len (depth + 1)) items
      | PMap entries \<Rightarrow>
          if length entries > max_len then Inl (too_large ''a map'')
          else try_each (\<lambda>(key, v). if length (str_bytes key) > max_len then Inl (too_large ''a map key'')
                                    else check_depth v max_len (depth + 1)) entries
      | PStruct tag flds \<Rightarrow>
          if length flds > MAX_STRUCT_FIELDS then Inl (too_large ''a structure'')
          else try_each (\<lambda>v. check_depth v max_len (depth + 1)) flds
      | _ \<Rightarrow> Inr ())"

declare check_depth.simps [simp del]

definition check_encodable :: "pack_value \<Rightarrow> nat \<Rightarrow> bolt_error + unit" where
  "check_encodable v max_len = check_depth v max_len 0"

definition encode_with_limit :: "(string \<Rightarrow> string) \<Rightarrow> server_message \<Rightarrow> nat \<Rightarrow> bolt_error + bytes" where
  "encode_with_limit dbg msg max_len =
     (let v = to_pack dbg msg in and_then (check_encodable v max_len) (\<lambda>_. Inr (ps_pack v [])))"

definition encode_message :: "(string \<Rightarrow> string) \<Rightarrow> server_message \<Rightarrow> bolt_error + bytes" where
  "encode_message dbg msg = encode_with_limit dbg msg MAX_PACK_LEN"

definition encode_or_failure :: "(string \<Rightarrow> string) \<Rightarrow> server_message \<Rightarrow> bytes" where
  "encode_or_failure dbg msg =
     (case encode_message dbg msg of
        Inr bytes \<Rightarrow> bytes
      | Inl err \<Rightarrow> (case encode_message dbg (Failure (TooLarge (err_message err))) of
          Inr bytes \<Rightarrow> bytes
        | Inl _ \<Rightarrow> []))"

section \<open>What the send path lets through\<close>

text \<open>A Rust \<open>String\<close> is well-formed UTF-8; a value is well-formed when its strings are.\<close>

fun utf8_ok :: "pack_value \<Rightarrow> bool" where
  "utf8_ok (PString s) \<longleftrightarrow> utf8_valid (str_bytes s)"
| "utf8_ok (PList xs) \<longleftrightarrow> (\<forall>x\<in>set xs. utf8_ok x)"
| "utf8_ok (PMap es) \<longleftrightarrow> (\<forall>(k, v)\<in>set es. utf8_valid (str_bytes k) \<and> utf8_ok v)"
| "utf8_ok (PStruct t xs) \<longleftrightarrow> (\<forall>x\<in>set xs. utf8_ok x)"
| "utf8_ok _ \<longleftrightarrow> True"

lemma try_each_ok: "try_each f xs = Inr () \<longleftrightarrow> (\<forall>x\<in>set xs. f x = Inr ())"
  by (induction xs) (auto split: sum.split)

lemma pack_len_iff: "n \<le> MAX_PACK_LEN \<longleftrightarrow> n < 2 ^ 32" "n \<le> MAX_STRUCT_FIELDS \<longleftrightarrow> n < 2 ^ 16"
  unfolding MAX_PACK_LEN_def MAX_STRUCT_FIELDS_def by auto

lemma check_depth_ok:
  "check_depth (PList xs) m d = Inr () \<longleftrightarrow> d \<le> PS_MAX_DEPTH \<and> length xs \<le> m \<and> (\<forall>x\<in>set xs. check_depth x m (d + 1) = Inr ())"
  "check_depth (PStruct t xs) m d = Inr () \<longleftrightarrow>
     d \<le> PS_MAX_DEPTH \<and> length xs \<le> MAX_STRUCT_FIELDS \<and> (\<forall>x\<in>set xs. check_depth x m (d + 1) = Inr ())"
  "check_depth (PMap es) m d = Inr () \<longleftrightarrow> d \<le> PS_MAX_DEPTH \<and> length es \<le> m
     \<and> (\<forall>(k, v)\<in>set es. length (str_bytes k) \<le> m \<and> check_depth v m (d + 1) = Inr ())"
  by (auto simp: check_depth.simps [of "PList xs"] check_depth.simps [of "PStruct t xs"] check_depth.simps [of "PMap es"]
      try_each_ok split: if_splits)

text \<open>The check before sending accepts exactly the values the decoder reads back.\<close>

lemma check_depth_iff:
  "utf8_ok v \<Longrightarrow> check_depth v MAX_PACK_LEN d = Inr () \<longleftrightarrow> fits v \<and> d + nesting v \<le> PS_MAX_DEPTH"
proof (induction v arbitrary: d)
  case (PList xs)
  then show ?case by (auto simp: check_depth_ok pack_len_iff foldr_max_le)
next
  case (PMap es)
  have "check_depth v MAX_PACK_LEN (d + 1) = Inr () \<longleftrightarrow> fits v \<and> d + Suc (nesting v) \<le> PS_MAX_DEPTH" if "(k, v) \<in> set es" for k v
    using PMap.IH [of "(k, v)" v "d + 1"] PMap.prems that by auto
  moreover have "length (str_bytes k) \<le> MAX_PACK_LEN \<longleftrightarrow> fits_str k" if "(k, v) \<in> set es" for k v
    using PMap.prems that by (auto simp: fits_str_def pack_len_iff)
  ultimately have "(\<forall>(k, v)\<in>set es. length (str_bytes k) \<le> MAX_PACK_LEN \<and> check_depth v MAX_PACK_LEN (d + 1) = Inr ())
      \<longleftrightarrow> (\<forall>(k, v)\<in>set es. fits_str k \<and> fits v) \<and> (\<forall>(k, v)\<in>set es. d + Suc (nesting v) \<le> PS_MAX_DEPTH)"
    by fastforce
  then show ?case by (simp only: check_depth_ok pack_len_iff fits.simps nesting.simps foldr_max_le) force
next
  case (PStruct t xs)
  then show ?case by (auto simp: check_depth_ok pack_len_iff foldr_max_le)
qed (auto simp: check_depth.simps fits_str_def not_le [symmetric] pack_len_iff)

text \<open>Packing through the guard, and reading the packed bytes back.\<close>

lemma encode_message_Inr:
  assumes "utf8_ok (to_pack dbg msg)" "encode_message dbg msg = Inr bytes" "slice_ok bytes"
  shows "bytes = enc (to_pack dbg msg) \<and> ps_unpack bytes = Inr (to_pack dbg msg, length bytes)"
proof -
  let ?v = "to_pack dbg msg"
  have c: "check_depth ?v MAX_PACK_LEN 0 = Inr ()" and b: "bytes = enc ?v"
    using assms(2) by (auto simp: encode_message_def encode_with_limit_def check_encodable_def Let_def and_then_Inr_iff)
  have "fits ?v" "nesting ?v \<le> PS_MAX_DEPTH" using check_depth_iff [OF assms(1), of 0] c by simp_all
  then show ?thesis using fits_reads_back [of bytes ?v 0] assms(3) has_self [of "[]" "enc ?v" "[]"]
    by (simp add: b reads_back_def ps_unpack_def)
qed

text \<open>The refusal of an oversized reply has fixed words, so it always goes out.\<close>

definition refusals :: "bolt_error set" where
  "refusals = too_large ` {''nesting'', ''a byte array'', ''a string'', ''a list'', ''a map'', ''a map key'', ''a structure''}"

lemma try_each_err: "try_each f xs = Inl e \<Longrightarrow> \<exists>x\<in>set xs. f x = Inl e"
  by (induction xs) (auto split: sum.splits)

lemma check_depth_err: "check_depth v m d = Inl e \<Longrightarrow> e \<in> refusals"
proof (induction v arbitrary: d)
  case (PMap es)
  have "e \<in> refusals" if "(k, v) \<in> set es" "(if length (str_bytes k) > m then Inl (too_large ''a map key'') else check_depth v m (d + 1)) = Inl e" for k v
    using that PMap.IH [of "(k, v)" v "d + 1"] by (auto simp: refusals_def split: if_splits)
  then show ?case using PMap.prems
    by (auto simp: check_depth.simps [of "PMap es"] refusals_def dest!: try_each_err split: if_splits)
next
  case (PList xs)
  then show ?case by (auto simp: check_depth.simps [of "PList xs"] refusals_def dest!: try_each_err split: if_splits)
next
  case (PStruct t xs)
  then show ?case by (auto simp: check_depth.simps [of "PStruct t xs"] refusals_def dest!: try_each_err split: if_splits)
qed (auto simp: check_depth.simps refusals_def split: if_splits)

lemma ascii_utf8: "list_all (\<lambda>c. of_char c \<le> (127 :: nat)) s \<Longrightarrow> utf8_valid (str_bytes s)"
proof (induction s)
  case (Cons c s)
  then have "(of_nat (of_char c) :: u8) \<le> 0x7F" by (simp add: word_le_nat_alt unat_of_nat)
  then show ?case using Cons by (simp add: str_bytes_def)
qed (simp add: str_bytes_def)

lemma refusal_encodes:
  assumes "e \<in> refusals"
  shows "encode_message dbg (Failure (TooLarge (err_message e))) = Inr (enc (to_pack dbg (Failure (TooLarge (err_message e)))))
    \<and> utf8_ok (to_pack dbg (Failure (TooLarge (err_message e))))"
proof -
  let ?v = "to_pack dbg (Failure (TooLarge (err_message e)))"
  have u: "utf8_ok ?v"
    using assms by (auto simp: refusals_def too_large_def render_def CLIENT_def intro!: ascii_utf8)
  have "fits ?v \<and> nesting ?v \<le> PS_MAX_DEPTH"
    using assms u by (auto simp: refusals_def too_large_def render_def CLIENT_def fits_str_def str_bytes_def PS_MAX_DEPTH_def)
  then have "check_depth ?v MAX_PACK_LEN 0 = Inr ()" using check_depth_iff [OF u, of 0] by simp
  then show ?thesis using u by (simp add: encode_message_def encode_with_limit_def check_encodable_def Let_def)
qed

text \<open>The bytes \<open>send\<close> writes for the replies to a batch.\<close>

definition send_out :: "(string \<Rightarrow> string) \<Rightarrow> server_message list \<Rightarrow> bytes" where
  "send_out dbg responses = foldl (\<lambda>out response. bolt_frame (encode_or_failure dbg response) out) [] responses"

lemma send_out_frames: "send_out dbg rs = concat (map (\<lambda>r. bolt_frame (encode_or_failure dbg r) []) rs)"
proof -
  have "bolt_frame m out = out @ bolt_frame m []" for m out by (simp add: bolt_frame_chunks)
  then have "foldl (\<lambda>out r. bolt_frame (encode_or_failure dbg r) out) out rs = out @ concat (map (\<lambda>r. bolt_frame (encode_or_failure dbg r) []) rs)" for out
    by (intro foldl_appends) blast
  from this [of "[]"] show ?thesis by (simp add: send_out_def)
qed

lemma length_frame: "length m \<le> length (bolt_frame m [])"
proof -
  have "length (concat cs) \<le> length (concat (map chunk_bytes cs))" for cs
    by (induction cs) (simp_all add: chunk_bytes_def)
  from this [of "chunks_of MAX_CHUNK m"] show ?thesis
    by (simp add: bolt_frame_chunks concat_chunks_of MAX_CHUNK_def)
qed

text \<open>What goes out for a reply: itself, or a refusal when it does not fit.\<close>

definition sendable :: "(string \<Rightarrow> string) \<Rightarrow> server_message \<Rightarrow> bool" where
  "sendable dbg r \<longleftrightarrow> fits (to_pack dbg r) \<and> nesting (to_pack dbg r) \<le> 128"

lemma encode_sendable: "utf8_ok (to_pack dbg r) \<Longrightarrow> sendable dbg r \<longleftrightarrow> encode_message dbg r = Inr (enc (to_pack dbg r))"
  using check_depth_iff [of "to_pack dbg r" 0]
  by (cases "check_depth (to_pack dbg r) MAX_PACK_LEN 0")
    (auto simp: sendable_def encode_message_def encode_with_limit_def check_encodable_def Let_def PS_MAX_DEPTH_def)

lemma encode_or_failure_reads:
  assumes "utf8_ok (to_pack dbg r)" "slice_ok (encode_or_failure dbg r)"
  shows "\<exists>v. ps_unpack (encode_or_failure dbg r) = Inr (v, length (encode_or_failure dbg r))
    \<and> (if sendable dbg r then v = to_pack dbg r else \<exists>why. v = to_pack dbg (Failure (TooLarge why)))"
proof (cases "encode_message dbg r")
  case (Inr bytes)
  then have "sendable dbg r" using encode_sendable [OF assms(1)]
    by (auto simp: encode_message_def encode_with_limit_def Let_def and_then_Inr_iff)
  then show ?thesis using encode_message_Inr [OF assms(1) Inr] assms(2) Inr by (auto simp: encode_or_failure_def)
next
  case (Inl e)
  then have "check_depth (to_pack dbg r) MAX_PACK_LEN 0 = Inl e"
    by (cases "check_depth (to_pack dbg r) MAX_PACK_LEN 0")
      (auto simp: encode_message_def encode_with_limit_def check_encodable_def Let_def)
  note E = refusal_encodes [OF check_depth_err [OF this], of dbg]
  have out: "encode_or_failure dbg r = enc (to_pack dbg (Failure (TooLarge (err_message e))))"
    using Inl E by (simp add: encode_or_failure_def)
  have "\<not> sendable dbg r" using encode_sendable [OF assms(1)] Inl by simp
  moreover have "ps_unpack (encode_or_failure dbg r) = Inr (to_pack dbg (Failure (TooLarge (err_message e))), length (encode_or_failure dbg r))"
    using encode_message_Inr [OF conjunct2 [OF E] conjunct1 [OF E]] assms(2) by (simp add: out)
  ultimately show ?thesis by auto
qed

lemma encode_or_failure_nonempty: "encode_or_failure dbg r \<noteq> []"
proof (cases "encode_message dbg r")
  case (Inr bytes)
  then show ?thesis using enc_pos [of "to_pack dbg r"]
    by (auto simp: encode_or_failure_def encode_message_def encode_with_limit_def Let_def and_then_Inr_iff)
next
  case (Inl e)
  then have "check_depth (to_pack dbg r) MAX_PACK_LEN 0 = Inl e"
    by (cases "check_depth (to_pack dbg r) MAX_PACK_LEN 0")
      (auto simp: encode_message_def encode_with_limit_def check_encodable_def Let_def)
  then show ?thesis using refusal_encodes [OF check_depth_err, of "to_pack dbg r" MAX_PACK_LEN 0 e dbg] Inl
      enc_pos [of "to_pack dbg (Failure (TooLarge (err_message e)))"] by (auto simp: encode_or_failure_def)
qed

text \<open>
  C37: Every reply reaches the client as one message it can decode: from the bytes written for a batch of
  replies, deframing gives the first reply's message and leaves exactly the bytes of the others, and that message is
  the reply itself when it fits the format, and a well-formed \<open>FAILURE\<close> otherwise. The size check on the
  send path therefore refuses exactly what could not be read back, and no reply is lost, truncated or merged with the next.
\<close>

theorem bolt_replies_delivered:
  assumes "utf8_ok (to_pack dbg r)" and "slice_ok (send_out dbg (r # rs))"
  shows "\<exists>used v. deframe (send_out dbg (r # rs)) = Inr (encode_or_failure dbg r, used)
    \<and> drop used (send_out dbg (r # rs)) = send_out dbg rs
    \<and> ps_unpack (encode_or_failure dbg r) = Inr (v, length (encode_or_failure dbg r))
    \<and> (if fits (to_pack dbg r) \<and> nesting (to_pack dbg r) \<le> 128 then v = to_pack dbg r
       else \<exists>why. v = to_pack dbg (Failure (TooLarge why)))"
proof -
  let ?m = "encode_or_failure dbg r"
  have s: "send_out dbg (r # rs) = bolt_frame ?m [] @ send_out dbg rs" by (simp add: send_out_frames)
  have "slice_ok ?m" using length_frame [of ?m] assms(2) unfolding s by simp
  then obtain v where "ps_unpack ?m = Inr (v, length ?m)"
      "if sendable dbg r then v = to_pack dbg r else \<exists>why. v = to_pack dbg (Failure (TooLarge why))"
    using encode_or_failure_reads [OF assms(1)] by blast
  moreover have "deframe (bolt_frame ?m [] @ send_out dbg rs) = Inr (?m, length (bolt_frame ?m []))"
    using deframe_bolt_frame [OF encode_or_failure_nonempty, of 0 dbg r "send_out dbg rs"] by simp
  ultimately show ?thesis unfolding s sendable_def by (intro exI [of _ "length (bolt_frame ?m [])"] exI [of _ v]) simp
qed

theorem bolt_replies_delivered_witness:
  "\<exists>used v. deframe (send_out (\<lambda>s. s) [Ignored, Success []]) = Inr (encode_or_failure (\<lambda>s. s) Ignored, used)
    \<and> drop used (send_out (\<lambda>s. s) [Ignored, Success []]) = send_out (\<lambda>s. s) [Success []]
    \<and> ps_unpack (encode_or_failure (\<lambda>s. s) Ignored) = Inr (v, length (encode_or_failure (\<lambda>s. s) Ignored))
    \<and> v = PStruct TAG_IGNORED []"
proof -
  have e: "encode_or_failure dbg Ignored = [0xB0, 0x7E]" "encode_or_failure dbg (Success []) = [0xB1, 0x70, 0xA0]" for dbg
    by (simp_all add: encode_or_failure_def encode_message_def encode_with_limit_def check_encodable_def check_depth.simps
        TAG_IGNORED_def TAG_SUCCESS_def pack_struct_size_def pack_size_def MAX_STRUCT_FIELDS_def PS_MAX_DEPTH_def)
  have "chunks_of MAX_CHUNK [a, b] = [[a, b]]" "chunks_of MAX_CHUNK [a, b, c] = [[a, b, c]]" for a b c :: u8
    by (simp_all add: chunks_of_step MAX_CHUNK_def)
  then have "slice_ok (send_out (\<lambda>s. s) [Ignored, Success []])"
    by (simp add: send_out_frames e bolt_frame_chunks chunk_bytes_def byte_simps USIZE_MAX_def)
  then show ?thesis using bolt_replies_delivered [of "\<lambda>s. s" Ignored "[Success []]"] by simp
qed

end
