(* ===== verification/Access_Keys.thy ===== *)
theory Access_Keys
  imports Bolt_Messages
begin

text \<open>
  Who a client is: the key set of \<open>crates/core-api/src/access_keys.rs\<close> and the credentials of a Bolt
  connection (\<open>crates/bolt/src/messages/hello.rs\<close>). The blake3 digest and its hexadecimal form are
  parameters; a digest is its bytes. Reading the file, its permissions and its JSON form are outside the model:
  a load gives the entries, or an error.
\<close>

section \<open>The key table\<close>

definition MIN_TOKEN_BYTES :: nat where "MIN_TOKEN_BYTES = 32"

datatype key_tier = AdminTier | WriteTier | ReadTier string


type_synonym key_table = "(bytes \<times> key_tier) list"

datatype key_refusal =
    PlaintextToken nat
  | BadHash nat
  | RepeatedHash nat
  | EmptyName nat
  | RepeatedName nat
  | ReadNeedsRole nat
  | OnlyReadTakesRole nat
  | UnknownTier nat
  | ShortToken
  | NoFile
  | NoName







section \<open>The shared key set\<close>

record access_keys =
  table :: key_table
  ever_populated :: bool
  has_path :: bool

definition keys_with :: "key_table \<Rightarrow> bool \<Rightarrow> access_keys" where
  "keys_with t path = \<lparr> table = t, ever_populated = (t \<noteq> []), has_path = path \<rparr>"

definition keys_reload :: "key_refusal + key_table \<Rightarrow> access_keys \<Rightarrow> (key_refusal + nat) \<times> access_keys" where
  "keys_reload read_table k =
     (if \<not> has_path k then (Inl NoFile, k)
      else case read_table of
        Inl e \<Rightarrow> (Inl e, k)
      | Inr t \<Rightarrow> (Inr (length t), k \<lparr> table := t, ever_populated := (ever_populated k \<or> length t > 0) \<rparr>))"

definition keys_resolve :: "(bytes \<Rightarrow> bytes) \<Rightarrow> access_keys \<Rightarrow> string \<Rightarrow> key_tier option" where
  "keys_resolve b3 k presented =
     (if length (str_bytes presented) < MIN_TOKEN_BYTES then None
      else let digest = b3 (str_bytes presented)
        in foldl (\<lambda>found (hash, tier). if digest = hash then Some tier else found) None (table k))"

definition has_admin :: "access_keys \<Rightarrow> bool" where
  "has_admin k = list_ex (\<lambda>(_, tier). tier = AdminTier) (table k)"

definition enforcing :: "access_keys \<Rightarrow> bool" where
  "enforcing k \<longleftrightarrow> ever_populated k \<or> table k \<noteq> []"

section \<open>Credentials\<close>

datatype identity = Full | WriteKey | Role string | ReadOnlyRole string

record authenticator =
  full_token :: "string option"
  role_tokens :: "(string \<times> string) list"
  access_keys :: "access_keys option"
  role_check :: "(string \<Rightarrow> bool) option"

definition auth_new :: "string option \<Rightarrow> (string \<times> string) list \<Rightarrow> authenticator" where
  "auth_new full roles =
     \<lparr> full_token = (case full of Some t \<Rightarrow> if t \<noteq> [] then Some t else None | None \<Rightarrow> None),
       role_tokens = roles, access_keys = None, role_check = None \<rparr>"

fun diff_loop :: "u8 \<Rightarrow> bytes \<Rightarrow> bytes \<Rightarrow> u8" where
  "diff_loop diff (x # xs) (y # ys) = diff_loop (or diff (xor x y)) xs ys"
| "diff_loop diff _ _ = diff"

definition constant_time_eq :: "bytes \<Rightarrow> bytes \<Rightarrow> bool" where
  "constant_time_eq a b = (if length a \<noteq> length b then False else diff_loop 0 a b = 0)"

definition is_open :: "authenticator \<Rightarrow> bool" where
  "is_open a \<longleftrightarrow> full_token a = None \<and> role_tokens a = []
     \<and> \<not> (case access_keys a of Some k \<Rightarrow> enforcing k | None \<Rightarrow> False)"

definition role_exists :: "authenticator \<Rightarrow> string \<Rightarrow> bool" where
  "role_exists a name = (case role_check a of None \<Rightarrow> True | Some f \<Rightarrow> f name)"

definition role_identity :: "authenticator \<Rightarrow> string \<Rightarrow> bolt_error + identity" where
  "role_identity a name = (if role_exists a name then Inr (Role name) else Inl Unauthorized)"

definition resolve_token :: "(bytes \<Rightarrow> bytes) \<Rightarrow> authenticator \<Rightarrow> string \<Rightarrow> bolt_error + identity" where
  "resolve_token b3 a presented =
     (if presented = [] then Inl Unauthorized
      else
        let full = (case full_token a of Some t \<Rightarrow> constant_time_eq (str_bytes presented) (str_bytes t) | None \<Rightarrow> False);
            role = foldl (\<lambda>role (token, name).
                if constant_time_eq (str_bytes presented) (str_bytes token) then Some name else role) None (role_tokens a)
        in if full then Inr Full
           else case role of
             Some name \<Rightarrow> role_identity a name
           | None \<Rightarrow>
               (case Option.bind (access_keys a) (\<lambda>k. keys_resolve b3 k presented) of
                  Some AdminTier \<Rightarrow> Inr Full
                | Some WriteTier \<Rightarrow> Inr WriteKey
                | Some (ReadTier name) \<Rightarrow> if role_exists a name then Inr (ReadOnlyRole name) else Inl Unauthorized
                | None \<Rightarrow> Inl Unauthorized))"

definition authenticate :: "(bytes \<Rightarrow> bytes) \<Rightarrow> authenticator \<Rightarrow> auth_token \<Rightarrow> bolt_error + identity" where
  "authenticate b3 a tok =
     (if is_open a then Inr Full
      else case tok of
        Basic _ credentials \<Rightarrow> resolve_token b3 a credentials
      | Bearer credentials \<Rightarrow> resolve_token b3 a credentials
      | NoAuth \<Rightarrow> Inl Unauthorized
      | UnknownAuth \<Rightarrow> Inl Unauthorized)"

section \<open>The table a file gives\<close>





text \<open>The loops that look at every candidate, as lookups.\<close>

lemma foldl_last_match:
  "distinct (map fst ps) \<Longrightarrow> foldl (\<lambda>found (k, v). if x = k then Some v else found) acc ps
     = (case map_of ps x of Some v \<Rightarrow> Some v | None \<Rightarrow> acc)"
proof (induction ps arbitrary: acc)
  case (Cons p ps)
  obtain k v where p: "p = (k, v)" by (cases p)
  have "x = k \<Longrightarrow> map_of ps x = None" using Cons.prems by (simp add: p map_of_eq_None_iff)
  then show ?case using Cons by (auto simp: p split: option.split)
qed simp

lemma keys_resolve_map:
  "distinct (map fst (table k)) \<Longrightarrow> keys_resolve b3 k p
    = (if length (str_bytes p) < 32 then None else map_of (table k) (b3 (str_bytes p)))"
  by (simp add: keys_resolve_def MIN_TOKEN_BYTES_def foldl_last_match split: option.split)




section \<open>Authentication\<close>

lemma diff_loop_zero: "length a = length b \<Longrightarrow> diff_loop d a b = 0 \<longleftrightarrow> d = 0 \<and> a = b"
proof (induction d a b rule: diff_loop.induct)
  case (1 d x xs y ys)
  have "or d (xor x y) = 0 \<longleftrightarrow> d = 0 \<and> x = y"
    by (auto simp: bit_eq_iff bit_or_iff bit_xor_iff)
  then show ?case using 1 by auto
qed auto

lemma constant_time_eq_iff: "constant_time_eq a b \<longleftrightarrow> a = b"
  using diff_loop_zero [of a b 0] by (auto simp: constant_time_eq_def)

lemma str_bytes_inj: "str_bytes s = str_bytes t \<longleftrightarrow> s = t"
  by (metis str_bytes_inverse)

text \<open>The token a client presents.\<close>

fun presented :: "auth_token \<Rightarrow> string option" where
  "presented (Basic _ c) = Some c"
| "presented (Bearer c) = Some c"
| "presented _ = None"

text \<open>Who a token stands for, read off the three sets of tokens.\<close>

definition stands_for :: "(bytes \<Rightarrow> bytes) \<Rightarrow> authenticator \<Rightarrow> string \<Rightarrow> identity option" where
  "stands_for b3 a tok =
     (if tok = [] then None
      else if full_token a = Some tok then Some Full
      else case map_of (role_tokens a) tok of
        Some name \<Rightarrow> if role_exists a name then Some (Role name) else None
      | None \<Rightarrow>
          (case access_keys a of
             None \<Rightarrow> None
           | Some k \<Rightarrow>
               if length (str_bytes tok) < 32 then None
               else case map_of (table k) (b3 (str_bytes tok)) of
                 Some AdminTier \<Rightarrow> Some Full
               | Some WriteTier \<Rightarrow> Some WriteKey
               | Some (ReadTier name) \<Rightarrow> if role_exists a name then Some (ReadOnlyRole name) else None
               | None \<Rightarrow> None))"

definition auth_ok :: "authenticator \<Rightarrow> bool" where
  "auth_ok a \<longleftrightarrow> distinct (map fst (role_tokens a)) \<and> (\<forall>k. access_keys a = Some k \<longrightarrow> distinct (map fst (table k)))"

lemma resolve_token_spec:
  assumes "auth_ok a"
  shows "resolve_token b3 a tok = (case stands_for b3 a tok of Some who \<Rightarrow> Inr who | None \<Rightarrow> Inl Unauthorized)"
proof (cases "access_keys a")
  case None
  then show ?thesis using assms
    by (auto simp: resolve_token_def stands_for_def auth_ok_def Let_def constant_time_eq_iff str_bytes_inj foldl_last_match role_identity_def
        split: option.splits)
next
  case (Some k)
  then have "keys_resolve b3 k tok = (if length (str_bytes tok) < 32 then None else map_of (table k) (b3 (str_bytes tok)))"
    using assms by (intro keys_resolve_map) (simp add: auth_ok_def)
  then show ?thesis using assms Some
    by (auto simp: resolve_token_def stands_for_def auth_ok_def Let_def constant_time_eq_iff str_bytes_inj foldl_last_match role_identity_def
        split: option.splits key_tier.splits)
qed

text \<open>
  C35: A client is who its token stands for and nobody otherwise: with no token of any kind configured everyone is full; else the presented token
  is looked up as the full token, then as a role's token, then by its digest among the keys, the role must exist, and every failure, whatever
  its cause, is the same \<open>Unauthorized\<close>. The comparisons that look at every candidate in constant time give what direct lookups give.
\<close>

theorem authentication:
  assumes "auth_ok a"
  shows "authenticate b3 a tok =
    (if is_open a then Inr Full
     else case Option.bind (presented tok) (stands_for b3 a) of Some who \<Rightarrow> Inr who | None \<Rightarrow> Inl Unauthorized)
    \<and> (constant_time_eq x y \<longleftrightarrow> x = y)"
  using resolve_token_spec [OF assms] by (cases tok) (auto simp: authenticate_def constant_time_eq_iff)

theorem authentication_witness:
  "let a = auth_new (Some ''secret'') [(''t'', ''reader'')] in
   authenticate (\<lambda>b. b) a (Bearer ''secret'') = Inr Full \<and> authenticate (\<lambda>b. b) a (Basic None ''t'') = Inr (Role ''reader'')
   \<and> authenticate (\<lambda>b. b) a NoAuth = Inl Unauthorized"
proof -
  let ?a = "auth_new (Some ''secret'') [(''t'', ''reader'')]"
  have ok: "auth_ok ?a" "\<not> is_open ?a" by (simp_all add: auth_ok_def auth_new_def is_open_def)
  have "stands_for (\<lambda>b. b) ?a ''secret'' = Some Full" "stands_for (\<lambda>b. b) ?a ''t'' = Some (Role ''reader'')"
    by (simp_all add: stands_for_def auth_new_def role_exists_def)
  then show ?thesis
    using authentication [OF ok(1), of "\<lambda>b. b" "Bearer ''secret''"] authentication [OF ok(1), of "\<lambda>b. b" "Basic None ''t''"]
      authentication [OF ok(1), of "\<lambda>b. b" NoAuth] ok(2) by (simp add: Let_def)
qed

text \<open>A history of reloads, each with what reading the file gave.\<close>

definition reloads :: "(key_refusal + key_table) list \<Rightarrow> access_keys \<Rightarrow> access_keys" where
  "reloads reads k = foldl (\<lambda>k r. snd (keys_reload r k)) k reads"

lemma reloads_enforcing: "ever_populated k \<Longrightarrow> ever_populated (reloads reads k)"
  unfolding reloads_def
proof (induction reads arbitrary: k)
  case (Cons r reads)
  have "ever_populated (snd (keys_reload r k))" using Cons.prems by (auto simp: keys_reload_def split: sum.split)
  then show ?case using Cons.IH by simp
qed simp

text \<open>
  Removing keys locks the door instead of opening it: once a loaded set has held a key it enforces authentication after any sequence of reloads, also one that
  leaves it empty, and then a server with no other token refuses every client. A reload that fails, or of a set with no file, leaves the table in force.
\<close>

theorem key_set_stays_locked:
  assumes "t \<noteq> []" and "k = reloads reads (keys_with t path)"
  shows "enforcing k
    \<and> \<not> is_open \<lparr> full_token = full, role_tokens = roles, access_keys = Some k, role_check = rc \<rparr>
    \<and> (table k = [] \<longrightarrow> authenticate b3 \<lparr> full_token = None, role_tokens = [], access_keys = Some k, role_check = rc \<rparr> tok = Inl Unauthorized)
    \<and> (\<forall>e. snd (keys_reload (Inl e) k) = k) \<and> (\<not> path \<longrightarrow> k = keys_with t path)"
proof -
  have e: "ever_populated k" using assms reloads_enforcing by (simp add: keys_with_def)
  then have en: "enforcing k" by (simp add: enforcing_def)
  have "authenticate b3 \<lparr> full_token = None, role_tokens = [], access_keys = Some k, role_check = rc \<rparr> tok = Inl Unauthorized" if "table k = []"
    using en that by (cases tok) (auto simp: authenticate_def is_open_def resolve_token_def keys_resolve_def Let_def)
  moreover have "\<not> path \<Longrightarrow> reloads reads (keys_with t path) = keys_with t path"
    unfolding reloads_def by (induction reads) (simp_all add: keys_reload_def keys_with_def)
  ultimately show ?thesis using en assms(2) by (simp add: is_open_def keys_reload_def)
qed

theorem key_set_stays_locked_witness:
  "authenticate (\<lambda>b. b) \<lparr> full_token = None, role_tokens = [],
      access_keys = Some (reloads [Inr [], Inl NoFile] (keys_with [([1], AdminTier)] True)), role_check = None \<rparr> NoAuth = Inl Unauthorized"
proof -
  have "[([1], AdminTier)] \<noteq> []" by simp
  from key_set_stays_locked [OF this refl, of "[Inr [], Inl NoFile]" True None "[]" None "\<lambda>b. b" NoAuth]
  show ?thesis by (simp add: reloads_def keys_reload_def keys_with_def)
qed

end
