(* ===== verification/Bolt_Requests.thy ===== *)
theory Bolt_Requests
  imports Access_Keys
begin

text \<open>
  The requests of a Bolt client: bookmarks and the fields of \<open>RUN\<close>, \<open>PULL\<close> and \<open>DISCARD\<close>
  (\<open>crates/bolt/src/messages/run.rs\<close>), \<open>BEGIN\<close> (\<open>messages/tx.rs\<close>) and \<open>ROUTE\<close> (\<open>messages/route.rs\<close>). A
  parser that can refuse on two grounds returns the protocol violation on the left and, on the right, the request
  or its fault. How the routing configuration is built from addresses is not modelled.
\<close>

section \<open>Bookmarks\<close>

definition BOOKMARK_PREFIX :: string where "BOOKMARK_PREFIX = ''mushroomdb:commit:''"

definition format_bookmark :: "u64 \<Rightarrow> string" where
  "format_bookmark seq = BOOKMARK_PREFIX @ show_nat (unat seq)"

text \<open>\<open>str::parse::<u64>\<close>: digits after an optional plus sign, within range.\<close>

definition parse_u64 :: "string \<Rightarrow> u64 option" where
  "parse_u64 s =
     (let ds = (case s of c # r \<Rightarrow> if c = CHR ''+'' then r else s | [] \<Rightarrow> []) in
      if ds \<noteq> [] \<and> list_all is_ascii_digit ds \<and> digits_val ds < 2 ^ 64 then Some (of_nat (digits_val ds)) else None)"

definition strip_prefix_str :: "string \<Rightarrow> string \<Rightarrow> string option" where
  "strip_prefix_str p s = (if take (length p) s = p then Some (drop (length p) s) else None)"

definition parse_bookmark :: "string \<Rightarrow> bolt_error + u64" where
  "parse_bookmark txt =
     (case Option.bind (strip_prefix_str BOOKMARK_PREFIX txt) parse_u64 of
        Some n \<Rightarrow> Inr n
      | None \<Rightarrow> Inl (Invalid [Lit ''unrecognised bookmark '', Quoted txt]))"

text \<open>\<open>collect\<close> into a \<open>Result\<close>: the first error, or every value.\<close>

fun try_map :: "('a \<Rightarrow> bolt_error + 'b) \<Rightarrow> 'a list \<Rightarrow> bolt_error + 'b list" where
  "try_map f [] = Inr []"
| "try_map f (x # xs) = and_then (f x) (\<lambda>y. and_then (try_map f xs) (\<lambda>ys. Inr (y # ys)))"

definition bookmark_item :: "pack_value \<Rightarrow> bolt_error + u64" where
  "bookmark_item item = (case item of PString txt \<Rightarrow> parse_bookmark txt | _ \<Rightarrow> Inl (Invalid [Lit ''a bookmark must be a string'']))"

definition bookmarks_field :: "string \<Rightarrow> pack_map \<Rightarrow> bolt_error + u64 list" where
  "bookmarks_field what extra =
     (case map_get extra ''bookmarks'' of
        None \<Rightarrow> Inr []
      | Some PNull \<Rightarrow> Inr []
      | Some (PList items) \<Rightarrow> try_map bookmark_item items
      | Some _ \<Rightarrow> Inl (Invalid [Lit (what @ '' bookmarks must be a list of strings'')]))"

definition db_field :: "string \<Rightarrow> pack_map \<Rightarrow> bolt_error + string option" where
  "db_field what extra =
     (case map_get extra ''db'' of
        None \<Rightarrow> Inr None
      | Some PNull \<Rightarrow> Inr None
      | Some (PString name) \<Rightarrow> Inr (Some name)
      | Some _ \<Rightarrow> Inl (Invalid [Lit (what @ '' db must be a string'')]))"

section \<open>RUN\<close>

record run_request =
  rr_query :: string
  rr_parameters :: pack_map
  rr_database :: "string option"
  rr_bookmarks :: "u64 list"

fun run_from_fields :: "pack_value list \<Rightarrow> bolt_error + run_request" where
  "run_from_fields [PString query, PMap parameters, PMap extra] =
     and_then (db_field ''RUN'' extra) (\<lambda>database.
     and_then (bookmarks_field ''RUN'' extra) (\<lambda>bookmarks.
     Inr \<lparr> rr_query = query, rr_parameters = parameters, rr_database = database, rr_bookmarks = bookmarks \<rparr>))"
| "run_from_fields _ = Inl (Invalid [Lit ''RUN takes a query string, a parameter map and an extra map''])"

section \<open>PULL and DISCARD\<close>

record stream_request =
  sr_limit :: "nat option"
  sr_qid :: int

definition show_int :: "int \<Rightarrow> string" where
  "show_int i = (if i < 0 then ''-'' @ show_nat (nat (- i)) else show_nat (nat i))"

definition stream_limit :: "int \<Rightarrow> bolt_error + nat option" where
  "stream_limit n =
     (if n = -1 then Inr None
      else if n > 0 then Inr (Some (nat n))
      else Inl (Invalid [Lit (''n must be -1 or positive, got '' @ show_int n)]))"

definition qid_field :: "pack_map \<Rightarrow> bolt_error + int" where
  "qid_field extra =
     (case map_get extra ''qid'' of
        None \<Rightarrow> Inr (-1)
      | Some PNull \<Rightarrow> Inr (-1)
      | Some (PInt qid) \<Rightarrow> Inr (sint qid)
      | Some _ \<Rightarrow> Inl (Invalid [Lit ''qid must be an integer'']))"

fun stream_from_fields :: "pack_value list \<Rightarrow> bolt_error + (bolt_error + stream_request)" where
  "stream_from_fields [PMap extra] =
     (case map_get extra ''n'' of
        Some (PInt n) \<Rightarrow>
          and_then (qid_field extra) (\<lambda>qid.
          Inr (and_then (stream_limit (sint n)) (\<lambda>limit. Inr \<lparr> sr_limit = limit, sr_qid = qid \<rparr>)))
      | _ \<Rightarrow> Inl (Invalid [Lit ''PULL and DISCARD need an integer n'']))"
| "stream_from_fields _ = Inl (Invalid [Lit ''PULL and DISCARD take exactly one map field''])"

section \<open>BEGIN\<close>

record begin_request =
  br_database :: "string option"
  br_bookmarks :: "u64 list"
  br_read_only :: bool

definition mode_field :: "pack_map \<Rightarrow> bolt_error + bool" where
  "mode_field extra =
     (case map_get extra ''mode'' of
        None \<Rightarrow> Inr False
      | Some PNull \<Rightarrow> Inr False
      | Some (PString m) \<Rightarrow>
          if m = ''w'' then Inr False else if m = ''r'' then Inr True
          else Inl (Invalid [Lit ''BEGIN mode must be \"r\" or \"w\"''])
      | Some _ \<Rightarrow> Inl (Invalid [Lit ''BEGIN mode must be \"r\" or \"w\"'']))"

definition tx_timeout_field :: "pack_map \<Rightarrow> bolt_error + unit" where
  "tx_timeout_field extra =
     (case map_get extra ''tx_timeout'' of
        None \<Rightarrow> Inr ()
      | Some PNull \<Rightarrow> Inr ()
      | Some (PInt ms) \<Rightarrow> if sint ms \<ge> 0 then Inr () else Inl (Invalid [Lit ''BEGIN tx_timeout must be a non-negative integer''])
      | Some _ \<Rightarrow> Inl (Invalid [Lit ''BEGIN tx_timeout must be a non-negative integer'']))"

definition tx_metadata_field :: "pack_map \<Rightarrow> bolt_error + unit" where
  "tx_metadata_field extra =
     (case map_get extra ''tx_metadata'' of
        None \<Rightarrow> Inr ()
      | Some PNull \<Rightarrow> Inr ()
      | Some (PMap _) \<Rightarrow> Inr ()
      | Some _ \<Rightarrow> Inl (Invalid [Lit ''BEGIN tx_metadata must be a map'']))"

definition imp_user_field :: "pack_map \<Rightarrow> bolt_error + (bolt_error + unit)" where
  "imp_user_field extra =
     (case map_get extra ''imp_user'' of
        None \<Rightarrow> Inr (Inr ())
      | Some PNull \<Rightarrow> Inr (Inr ())
      | Some (PString _) \<Rightarrow> Inr (Inl (Forbidden [Lit ''this server does not support impersonation'']))
      | Some _ \<Rightarrow> Inl (Invalid [Lit ''BEGIN imp_user must be a string'']))"

fun begin_from_fields :: "pack_value list \<Rightarrow> bolt_error + (bolt_error + begin_request)" where
  "begin_from_fields [PMap extra] =
     and_then (db_field ''BEGIN'' extra) (\<lambda>database.
     and_then (bookmarks_field ''BEGIN'' extra) (\<lambda>bookmarks.
     and_then (mode_field extra) (\<lambda>read_only.
     and_then (tx_timeout_field extra) (\<lambda>_.
     and_then (tx_metadata_field extra) (\<lambda>_.
     and_then (imp_user_field extra) (\<lambda>imp.
     Inr (and_then imp (\<lambda>_. Inr \<lparr> br_database = database, br_bookmarks = bookmarks, br_read_only = read_only \<rparr>))))))))"
| "begin_from_fields _ = Inl (Invalid [Lit ''BEGIN takes exactly one map field''])"

section \<open>ROUTE\<close>

definition ROUTING_TTL_SECONDS :: u64 where "ROUTING_TTL_SECONDS = 300"
definition DRIVER_DEFAULT_DATABASE :: string where "DRIVER_DEFAULT_DATABASE = ''neo4j''"

record routing_config =
  advertised :: string
  host :: string
  store_name :: string

definition lower_ascii :: "char \<Rightarrow> char" where
  "lower_ascii c = (let n = of_char c :: nat in if 65 \<le> n \<and> n \<le> 90 then char_of (n + 32) else c)"

definition eq_ignore_ascii_case :: "string \<Rightarrow> string \<Rightarrow> bool" where
  "eq_ignore_ascii_case a b \<longleftrightarrow> map lower_ascii a = map lower_ascii b"

definition not_found :: "string \<Rightarrow> bolt_error" where
  "not_found name = DatabaseNotFound [Lit ''database '', Quoted name, Lit '' does not exist'']"

definition check_database :: "routing_config \<Rightarrow> string option \<Rightarrow> bolt_error + unit" where
  "check_database r requested =
     (case requested of
        None \<Rightarrow> Inr ()
      | Some name \<Rightarrow>
          if name = [] then Inr ()
          else if eq_ignore_ascii_case name DRIVER_DEFAULT_DATABASE \<or> eq_ignore_ascii_case name (store_name r) then Inr ()
          else Inl (not_found name))"

definition route_reply :: "routing_config \<Rightarrow> string option \<Rightarrow> bolt_error + server_message" where
  "route_reply r requested =
     and_then (check_database r requested) (\<lambda>_.
     let server = (\<lambda>role. PMap [(''addresses'', PList [PString (advertised r)]), (''role'', PString role)]);
         rt = PMap [(''ttl'', PInt ROUTING_TTL_SECONDS), (''db'', PString (store_name r)),
                    (''servers'', PList [server ''WRITE'', server ''READ'', server ''ROUTE''])]
     in Inr (Success [(''rt'', rt)]))"

definition malformed_route :: bolt_error where "malformed_route = Invalid [Lit ''malformed ROUTE request'']"

fun requested_database :: "pack_value list \<Rightarrow> bolt_error + string option" where
  "requested_database [PMap _, PList _, third] =
     (case third of
        PNull \<Rightarrow> Inr None
      | PString name \<Rightarrow> Inr (Some name)
      | PMap extra \<Rightarrow>
          (case map_get extra ''db'' of
             None \<Rightarrow> Inr None
           | Some PNull \<Rightarrow> Inr None
           | Some (PString name) \<Rightarrow> Inr (Some name)
           | Some _ \<Rightarrow> Inl malformed_route)
      | _ \<Rightarrow> Inl malformed_route)"
| "requested_database _ = Inl malformed_route"

definition select_database :: "routing_config option \<Rightarrow> string option \<Rightarrow> bolt_error + unit" where
  "select_database routing requested =
     (case routing of
        Some r \<Rightarrow> check_database r requested
      | None \<Rightarrow> (case requested of
          None \<Rightarrow> Inr ()
        | Some name \<Rightarrow> if name = [] then Inr () else Inl (not_found name)))"

section \<open>Bookmarks read back\<close>

lemma parse_show_u64: "parse_u64 (show_nat (unat n)) = Some n"
proof -
  have p: "list_all is_ascii_digit (show_nat (unat n))" "digits_val (show_nat (unat n)) = unat n" "show_nat (unat n) \<noteq> []"
    using show_nat_props by blast+
  obtain c r where c: "show_nat (unat n) = c # r" using p(3) by (cases "show_nat (unat n)") auto
  have "c \<noteq> CHR ''+''" using p(1) by (auto simp: c is_ascii_digit_def)
  moreover have "unat n < 2 ^ 64" using unsigned_less [where 'a = nat, of n] by simp
  ultimately show ?thesis using p by (simp add: parse_u64_def c)
qed

lemma parse_format_bookmark: "parse_bookmark (format_bookmark n) = Inr n"
  by (simp add: parse_bookmark_def format_bookmark_def strip_prefix_str_def parse_show_u64)

end
