(* ===== verification/Bolt_Connection.thy ===== *)
theory Bolt_Connection
  imports Bolt_Requests
begin

text \<open>
  The state machine of a Bolt connection (\<open>crates/bolt/src/connection.rs\<close>): one request, the replies to it and the state
  after it. The two traits of the source, an open transaction and a result cursor, and the query service over the store are a record of
  operations that the model takes as given and leaves free: they act on a world of any type. The clock, the reading task that raises the
  interrupt flag and the key set of the moment come with each request. A panic is \<open>None\<close>.
\<close>

section \<open>State\<close>

record ('tx, 'cur, 'w) backend =
  tx_rollback :: "'tx \<Rightarrow> 'w \<Rightarrow> 'w"
  tx_commit :: "'tx \<Rightarrow> 'w \<Rightarrow> (bolt_error + u64) \<times> 'w"
  cur_fields :: "'cur \<Rightarrow> string list"
  cur_take :: "'cur \<Rightarrow> nat option \<Rightarrow> u8 \<times> u8 \<Rightarrow> (bolt_error + pack_value list list) \<times> 'cur"
  cur_discard :: "'cur \<Rightarrow> nat option \<Rightarrow> 'cur"
  cur_has_more :: "'cur \<Rightarrow> bool"
  cur_summary :: "'cur \<Rightarrow> pack_map"
  sv_begin :: "identity \<Rightarrow> begin_request \<Rightarrow> 'w \<Rightarrow> (bolt_error + 'tx) \<times> 'w"
  sv_run_auto_commit :: "identity \<Rightarrow> run_request \<Rightarrow> 'w \<Rightarrow> (bolt_error + 'cur) \<times> 'w"
  sv_run_in_tx :: "identity \<Rightarrow> 'tx \<Rightarrow> run_request \<Rightarrow> 'w \<Rightarrow> (bolt_error + 'cur) \<times> 'tx \<times> 'w"

text \<open>Open results by \<open>qid\<close> are a sorted map; instants are natural numbers.\<close>

datatype ('tx, 'cur) connection_state =
    NotAuthenticated
  | Ready
  | Streaming 'cur nat
  | InTx 'tx nat nat "(int, 'cur) omap"
  | Failed
  | Interrupted
  | Defunct

fun state_name :: "('tx, 'cur) connection_state \<Rightarrow> string" where
  "state_name NotAuthenticated = ''NotAuthenticated''"
| "state_name Ready = ''Ready''"
| "state_name (Streaming _ _) = ''Streaming''"
| "state_name (InTx _ _ _ cursors) = (if cursors = [] then ''InTx'' else ''InTxStreaming'')"
| "state_name Failed = ''Failed''"
| "state_name Interrupted = ''Interrupted''"
| "state_name Defunct = ''Defunct''"

record ('tx, 'cur) connection =
  c_state :: "('tx, 'cur) connection_state"
  c_identity :: "identity option"
  c_auth_token :: "auth_token option"
  c_tx_timeout :: nat
  c_connection_id :: string
  c_version :: "u8 \<times> u8"
  c_pending_failure :: "bolt_error option"
  c_routing :: "routing_config option"
  c_has_service :: bool
  c_last_qid :: int
  c_interrupted :: bool

text \<open>What a request meets: the clock when it is handled, later readings of it, whether the reading task has raised the flag by the time it is
  looked at, and the authenticator with its present keys.\<close>

record moment =
  mo_now :: nat
  mo_later :: nat
  mo_elapsed :: u64
  mo_raised :: bool
  mo_auth :: authenticator

type_synonym ('tx, 'cur, 'w) outcome = "server_message list \<times> ('tx, 'cur) connection \<times> 'w"

definition conn_new :: "nat \<Rightarrow> string \<Rightarrow> u8 \<times> u8 \<Rightarrow> routing_config option \<Rightarrow> bool \<Rightarrow> ('tx, 'cur) connection" where
  "conn_new tx_timeout connection_id version routing service =
     \<lparr> c_state = NotAuthenticated, c_identity = None, c_auth_token = None, c_tx_timeout = tx_timeout,
       c_connection_id = connection_id, c_version = version, c_pending_failure = None, c_routing = routing,
       c_has_service = service, c_last_qid = -1, c_interrupted = False \<rparr>"

section \<open>Leaving a state\<close>

definition discard_work :: "('tx, 'cur, 'w) backend \<Rightarrow> ('tx, 'cur) connection \<Rightarrow> 'w \<Rightarrow> ('tx, 'cur) connection \<times> 'w" where
  "discard_work B c w =
     (c \<lparr> c_state := Failed \<rparr>, case c_state c of InTx tx _ _ _ \<Rightarrow> tx_rollback B tx w | _ \<Rightarrow> w)"

definition violate :: "('tx, 'cur, 'w) backend \<Rightarrow> bolt_error \<Rightarrow> ('tx, 'cur) connection \<Rightarrow> 'w \<Rightarrow> ('tx, 'cur, 'w) outcome" where
  "violate B err c w = (case discard_work B c w of (c, w) \<Rightarrow> ([Failure err], c \<lparr> c_state := Defunct \<rparr>, w))"

definition fail_with :: "('tx, 'cur, 'w) backend \<Rightarrow> bolt_error \<Rightarrow> ('tx, 'cur) connection \<Rightarrow> 'w \<Rightarrow> ('tx, 'cur, 'w) outcome" where
  "fail_with B err c w = (case discard_work B c w of (c, w) \<Rightarrow> ([Failure err], c \<lparr> c_state := Failed \<rparr>, w))"

definition interrupt :: "('tx, 'cur, 'w) backend \<Rightarrow> ('tx, 'cur) connection \<Rightarrow> 'w \<Rightarrow> ('tx, 'cur) connection \<times> 'w" where
  "interrupt B c w =
     (case c_state c of
        NotAuthenticated \<Rightarrow> (c, w)
      | Defunct \<Rightarrow> (c, w)
      | Interrupted \<Rightarrow> (c, w)
      | _ \<Rightarrow> (case discard_work B c w of (c, w) \<Rightarrow> (c \<lparr> c_state := Interrupted \<rparr>, w)))"

definition result_timed_out :: bolt_error where
  "result_timed_out = Invalid [Lit ''the result was idle past its timeout and has been closed'']"

definition check_timeout :: "('tx, 'cur, 'w) backend \<Rightarrow> nat \<Rightarrow> ('tx, 'cur) connection \<Rightarrow> 'w \<Rightarrow> bool \<times> ('tx, 'cur) connection \<times> 'w" where
  "check_timeout B now c w =
     (let idle = (\<lambda>seen. now - seen \<ge> c_tx_timeout c);
          failure = (case c_state c of
              InTx _ _ seen _ \<Rightarrow> if idle seen then Some TransactionTimedOut else None
            | Streaming _ seen \<Rightarrow> if idle seen then Some result_timed_out else None
            | _ \<Rightarrow> None)
      in case failure of
           None \<Rightarrow> (False, c, w)
         | Some e \<Rightarrow> (case discard_work B c w of (c, w) \<Rightarrow>
             (True, c \<lparr> c_state := Failed, c_pending_failure := Some e \<rparr>, w)))"

section \<open>Requests by state\<close>

definition hello_success :: "string \<Rightarrow> string \<Rightarrow> server_message" where
  "hello_success pkg_version connection_id = Success
     [(''server'', PString (''MushroomDB/'' @ pkg_version)), (''connection_id'', PString connection_id), (''hints'', PMap [])]"

definition reset_success :: server_message where "reset_success = Success []"

text \<open>\<open>pkg_version\<close> is the crate's version, which the build supplies, and \<open>b3\<close> the digest of keys.\<close>

definition handle_connected :: "(bytes \<Rightarrow> bytes) \<Rightarrow> string \<Rightarrow> moment \<Rightarrow> client_message \<Rightarrow> ('tx, 'cur) connection \<Rightarrow> 'w \<Rightarrow> ('tx, 'cur, 'w) outcome" where
  "handle_connected b3 pkg_version mo msg c w =
     (case msg of
        Hello h \<Rightarrow>
          (case authenticate b3 (mo_auth mo) (auth h) of
             Inr who \<Rightarrow>
               ([hello_success pkg_version (c_connection_id c)],
                c \<lparr> c_auth_token := (case auth h of Basic _ _ \<Rightarrow> Some (auth h) | Bearer _ \<Rightarrow> Some (auth h) | _ \<Rightarrow> None),
                    c_identity := Some who, c_state := Ready \<rparr>, w)
           | Inl err \<Rightarrow> ([Failure err], c \<lparr> c_state := Defunct \<rparr>, w))
      | Goodbye \<Rightarrow> ([], c \<lparr> c_state := Defunct \<rparr>, w)
      | _ \<Rightarrow> ([Failure (Invalid [Lit ''the first message must be HELLO''])], c \<lparr> c_state := Defunct \<rparr>, w))"

definition handle_failed :: "client_message \<Rightarrow> ('tx, 'cur) connection \<Rightarrow> 'w \<Rightarrow> ('tx, 'cur, 'w) outcome" where
  "handle_failed msg c w =
     (case msg of
        Reset \<Rightarrow> ([reset_success], c \<lparr> c_pending_failure := None, c_interrupted := False, c_state := Ready \<rparr>, w)
      | Goodbye \<Rightarrow> ([], c \<lparr> c_state := Defunct \<rparr>, w)
      | _ \<Rightarrow> (case c_pending_failure c of
          Some err \<Rightarrow> ([Failure err], c \<lparr> c_pending_failure := None \<rparr>, w)
        | None \<Rightarrow> ([Ignored], c, w)))"

text \<open>The flag is read here and in \<open>handle_batch\<close>; \<open>mo_raised\<close> says whether another task has set it by then.\<close>

definition ignored_if_interrupted :: "('tx, 'cur, 'w) backend \<Rightarrow> moment \<Rightarrow> ('tx, 'cur) connection \<Rightarrow> 'w \<Rightarrow> ('tx, 'cur, 'w) outcome option" where
  "ignored_if_interrupted B mo c w =
     (if \<not> (c_interrupted c \<or> mo_raised mo) then None
      else case interrupt B (c \<lparr> c_interrupted := True \<rparr>) w of (c, w) \<Rightarrow> Some ([Ignored], c, w))"

definition recheck_key :: "(bytes \<Rightarrow> bytes) \<Rightarrow> moment \<Rightarrow> ('tx, 'cur) connection \<Rightarrow> (bolt_error + unit) \<times> ('tx, 'cur) connection" where
  "recheck_key b3 mo c =
     (case c_auth_token c of
        None \<Rightarrow> (Inr (), c)
      | Some tok \<Rightarrow>
          (case authenticate b3 (mo_auth mo) tok of
             Inl err \<Rightarrow> (Inl err, c)
           | Inr who \<Rightarrow>
               let c' = c \<lparr> c_identity := Some who \<rparr> in
               if (case c_state c of InTx _ _ _ _ \<Rightarrow> True | _ \<Rightarrow> False) \<and> c_identity c \<noteq> Some who
               then (Inl (Forbidden [Lit ''key identity changed: start a new transaction'']), c')
               else (Inr (), c')))"

definition handle_route :: "('tx, 'cur, 'w) backend \<Rightarrow> pack_value list \<Rightarrow> ('tx, 'cur) connection \<Rightarrow> 'w \<Rightarrow> ('tx, 'cur, 'w) outcome" where
  "handle_route B flds c w =
     (case c_routing c of
        None \<Rightarrow> fail_with B (NotSupported [Lit ''ROUTE is not supported on this listener'']) c w
      | Some routing \<Rightarrow>
          (case requested_database flds of
             Inl err \<Rightarrow> violate B err c w
           | Inr requested \<Rightarrow>
               (case route_reply routing requested of
                  Inr reply \<Rightarrow> ([reply], c, w)
                | Inl err \<Rightarrow> fail_with B err c w)))"

definition enter_tx :: "'tx \<Rightarrow> nat \<Rightarrow> ('tx, 'cur) connection \<Rightarrow> ('tx, 'cur) connection option" where
  "enter_tx tx now c = (if c_state c \<noteq> Ready then None else Some (c \<lparr> c_state := InTx tx now now [] \<rparr>))"

definition handle_begin :: "('tx, 'cur, 'w) backend \<Rightarrow> (bytes \<Rightarrow> bytes) \<Rightarrow> moment \<Rightarrow> pack_value list \<Rightarrow> ('tx, 'cur) connection \<Rightarrow> 'w
    \<Rightarrow> ('tx, 'cur, 'w) outcome" where
  "handle_begin B b3 mo flds c w =
     (case recheck_key b3 mo c of
        (Inl err, c) \<Rightarrow> fail_with B err c w
      | (Inr _, c) \<Rightarrow>
          (case (c_has_service c, c_identity c) of
             (True, Some who) \<Rightarrow>
               (case begin_from_fields flds of
                  Inl err \<Rightarrow> violate B err c w
                | Inr (Inl err) \<Rightarrow> fail_with B err c w
                | Inr (Inr request) \<Rightarrow>
                    (case select_database (c_routing c) (br_database request) of
                       Inl err \<Rightarrow> fail_with B err c w
                     | Inr _ \<Rightarrow>
                         (case sv_begin B who request w of
                            (Inl err, w) \<Rightarrow>
                              (case ignored_if_interrupted B mo c w of Some out \<Rightarrow> out | None \<Rightarrow> fail_with B err c w)
                          | (Inr tx, w) \<Rightarrow>
                              let c = c \<lparr> c_last_qid := -1 \<rparr> in
                              (case enter_tx tx (mo_later mo) c of
                                 Some c \<Rightarrow> ([Success []], c, w)
                               | None \<Rightarrow> violate B (Invalid [Lit ''BEGIN needs the Ready state'']) c (tx_rollback B tx w)))))
           | _ \<Rightarrow> fail_with B (NotSupported [Lit ''BEGIN is not supported on a connection with no database'']) c w))"

definition take_tx :: "('tx, 'cur) connection \<Rightarrow> ('tx \<times> ('tx, 'cur) connection) option" where
  "take_tx c = (case c_state c of InTx tx _ _ _ \<Rightarrow> Some (tx, c \<lparr> c_state := Failed \<rparr>) | _ \<Rightarrow> None)"

definition handle_commit :: "('tx, 'cur, 'w) backend \<Rightarrow> (bytes \<Rightarrow> bytes) \<Rightarrow> moment \<Rightarrow> pack_value list \<Rightarrow> ('tx, 'cur) connection \<Rightarrow> 'w
    \<Rightarrow> ('tx, 'cur, 'w) outcome" where
  "handle_commit B b3 mo flds c w =
     (if flds \<noteq> [] then violate B (Invalid [Lit ''COMMIT takes no fields'']) c w
      else case recheck_key b3 mo c of
        (Inl err, c) \<Rightarrow> fail_with B err c w
      | (Inr _, c) \<Rightarrow>
          (case take_tx c of
             None \<Rightarrow> violate B (Invalid [Lit ''COMMIT needs a transaction'']) c w
           | Some (tx, c) \<Rightarrow>
               (case tx_commit B tx w of
                  (Inr seq, w) \<Rightarrow> ([Success [(''bookmark'', PString (format_bookmark seq))]], c \<lparr> c_state := Ready \<rparr>, w)
                | (Inl err, w) \<Rightarrow> ([Failure err], c, w))))"

definition handle_rollback :: "('tx, 'cur, 'w) backend \<Rightarrow> pack_value list \<Rightarrow> ('tx, 'cur) connection \<Rightarrow> 'w \<Rightarrow> ('tx, 'cur, 'w) outcome" where
  "handle_rollback B flds c w =
     (if flds \<noteq> [] then violate B (Invalid [Lit ''ROLLBACK takes no fields'']) c w
      else case take_tx c of
        None \<Rightarrow> violate B (Invalid [Lit ''ROLLBACK needs a transaction'']) c w
      | Some (tx, c) \<Rightarrow> ([Success []], c \<lparr> c_state := Ready \<rparr>, tx_rollback B tx w))"

definition run_meta :: "('tx, 'cur, 'w) backend \<Rightarrow> 'cur \<Rightarrow> u64 \<Rightarrow> pack_map" where
  "run_meta B cur elapsed = [(''fields'', PList (map PString (cur_fields B cur))), (''t_first'', PInt elapsed)]"

definition handle_run :: "('tx, 'cur, 'w) backend \<Rightarrow> (bytes \<Rightarrow> bytes) \<Rightarrow> moment \<Rightarrow> pack_value list \<Rightarrow> ('tx, 'cur) connection \<Rightarrow> 'w
    \<Rightarrow> ('tx, 'cur, 'w) outcome option" where
  "handle_run B b3 mo flds c w =
     (case recheck_key b3 mo c of
        (Inl err, c) \<Rightarrow> Some (fail_with B err c w)
      | (Inr _, c) \<Rightarrow>
          (case (c_has_service c, c_identity c) of
             (True, Some who) \<Rightarrow>
               (case run_from_fields flds of
                  Inl err \<Rightarrow> Some (violate B err c w)
                | Inr request \<Rightarrow>
                    (case select_database (c_routing c) (rr_database request) of
                       Inl err \<Rightarrow> Some (fail_with B err c w)
                     | Inr _ \<Rightarrow>
                         (case c_state c of
                            Ready \<Rightarrow>
                              (case sv_run_auto_commit B who request w of
                                 (Inl err, w) \<Rightarrow>
                                   Some (case ignored_if_interrupted B mo c w of Some out \<Rightarrow> out | None \<Rightarrow> fail_with B err c w)
                               | (Inr cur, w) \<Rightarrow>
                                   Some ([Success (run_meta B cur (mo_elapsed mo))], c \<lparr> c_state := Streaming cur (mo_later mo) \<rparr>, w))
                          | InTx tx opened seen cursors \<Rightarrow>
                              (case sv_run_in_tx B who tx request w of
                                 (Inl err, tx, w) \<Rightarrow>
                                   let c = c \<lparr> c_state := InTx tx opened seen cursors \<rparr> in
                                   Some (case ignored_if_interrupted B mo c w of Some out \<Rightarrow> out | None \<Rightarrow> fail_with B err c w)
                               | (Inr cur, tx, w) \<Rightarrow>
                                   let qid = c_last_qid c + 1 in
                                   Some ([Success (run_meta B cur (mo_elapsed mo) @ [(''qid'', PInt (of_int qid))])],
                                     c \<lparr> c_last_qid := qid, c_state := InTx tx opened seen (om_insert qid cur cursors) \<rparr>, w))
                          | _ \<Rightarrow> None)))
           | _ \<Rightarrow> Some (fail_with B (NotSupported [Lit ''RUN is not supported on a connection with no database'']) c w)))"

text \<open>The open result a \<open>PULL\<close> or \<open>DISCARD\<close> addresses, with its \<open>qid\<close> in a transaction.\<close>

definition find_cursor :: "('tx, 'cur) connection_state \<Rightarrow> int \<Rightarrow> ('cur \<times> int option) option" where
  "find_cursor st qid =
     (case st of
        Streaming cur _ \<Rightarrow> if qid = -1 then Some (cur, None) else None
      | InTx _ _ _ cursors \<Rightarrow>
          let target = (if qid = -1 then (if cursors = [] then None else Some (last (om_keys cursors))) else Some qid)
          in Option.bind target (\<lambda>q. map_option (\<lambda>cur. (cur, Some q)) (map_of cursors q))
      | _ \<Rightarrow> None)"

definition put_cursor :: "('tx, 'cur) connection_state \<Rightarrow> 'cur \<Rightarrow> int option \<Rightarrow> ('tx, 'cur) connection_state" where
  "put_cursor st cur tx_qid =
     (case (st, tx_qid) of
        (InTx tx opened seen cursors, Some q) \<Rightarrow> InTx tx opened seen (om_insert q cur cursors)
      | (Streaming _ seen, _) \<Rightarrow> Streaming cur seen
      | _ \<Rightarrow> st)"

definition end_cursor :: "('tx, 'cur) connection_state \<Rightarrow> int option \<Rightarrow> ('tx, 'cur) connection_state" where
  "end_cursor st tx_qid =
     (case (st, tx_qid) of
        (InTx tx opened seen cursors, Some q) \<Rightarrow> InTx tx opened seen (om_remove q cursors)
      | _ \<Rightarrow> Ready)"

definition stream_reply :: "('tx, 'cur, 'w) backend \<Rightarrow> server_message list \<Rightarrow> 'cur \<Rightarrow> int option \<Rightarrow> ('tx, 'cur) connection \<Rightarrow> 'w
    \<Rightarrow> ('tx, 'cur, 'w) outcome" where
  "stream_reply B out cur tx_qid c w =
     (if cur_has_more B cur
      then (out @ [Success [(''has_more'', PBool True)]], c \<lparr> c_state := put_cursor (c_state c) cur tx_qid \<rparr>, w)
      else (out @ [Success (cur_summary B cur)], c \<lparr> c_state := end_cursor (c_state c) tx_qid \<rparr>, w))"

definition handle_stream :: "('tx, 'cur, 'w) backend \<Rightarrow> pack_value list \<Rightarrow> bool \<Rightarrow> ('tx, 'cur) connection \<Rightarrow> 'w \<Rightarrow> ('tx, 'cur, 'w) outcome" where
  "handle_stream B flds discard c w =
     (case stream_from_fields flds of
        Inl err \<Rightarrow> violate B err c w
      | Inr (Inl err) \<Rightarrow> fail_with B err c w
      | Inr (Inr request) \<Rightarrow>
          (case find_cursor (c_state c) (sr_qid request) of
             None \<Rightarrow> fail_with B (Invalid [Lit (''no open result has qid '' @ show_int (sr_qid request))]) c w
           | Some (cur, tx_qid) \<Rightarrow>
               if discard then stream_reply B [] (cur_discard B cur (sr_limit request)) tx_qid c w
               else (case cur_take B cur (sr_limit request) (c_version c) of
                   (Inl err, _) \<Rightarrow> fail_with B err c w
                 | (Inr rows, cur) \<Rightarrow> stream_reply B (map Record rows) cur tx_qid c w)))"

definition allows :: "('tx, 'cur) connection_state \<Rightarrow> message_kind \<Rightarrow> bool" where
  "allows st kind =
     (case st of
        Ready \<Rightarrow> kind \<in> {Run, Begin, Route}
      | Streaming _ _ \<Rightarrow> kind \<in> {Pull, Discard}
      | InTx _ _ _ cursors \<Rightarrow> if cursors = [] then kind \<in> {Run, Commit, Rollback} else kind \<in> {Run, Pull, Discard}
      | _ \<Rightarrow> False)"

fun kind_name :: "message_kind \<Rightarrow> string" where
  "kind_name Run = ''Run''" | "kind_name Begin = ''Begin''" | "kind_name Commit = ''Commit''"
| "kind_name Rollback = ''Rollback''" | "kind_name Discard = ''Discard''" | "kind_name Pull = ''Pull''" | "kind_name Route = ''Route''"

definition touch :: "nat \<Rightarrow> ('tx, 'cur) connection_state \<Rightarrow> ('tx, 'cur) connection_state" where
  "touch now st =
     (case st of InTx tx opened _ cursors \<Rightarrow> InTx tx opened now cursors | Streaming cur _ \<Rightarrow> Streaming cur now | _ \<Rightarrow> st)"

definition handle_active :: "('tx, 'cur, 'w) backend \<Rightarrow> (bytes \<Rightarrow> bytes) \<Rightarrow> moment \<Rightarrow> client_message \<Rightarrow> ('tx, 'cur) connection \<Rightarrow> 'w
    \<Rightarrow> ('tx, 'cur, 'w) outcome option" where
  "handle_active B b3 mo msg c w =
     (let c = c \<lparr> c_state := touch (mo_now mo) (c_state c) \<rparr> in
      case msg of
        Goodbye \<Rightarrow> (case discard_work B c w of (c, w) \<Rightarrow> Some ([], c \<lparr> c_state := Defunct \<rparr>, w))
      | Reset \<Rightarrow> (case discard_work B c w of (c, w) \<Rightarrow> Some ([reset_success], c \<lparr> c_interrupted := False, c_state := Ready \<rparr>, w))
      | Hello _ \<Rightarrow> Some (violate B (Invalid [Lit (''HELLO is not allowed in state '' @ state_name (c_state c))]) c w)
      | Other kind flds \<Rightarrow>
          if \<not> allows (c_state c) kind
          then Some (violate B (Invalid [Lit (kind_name kind @ '' is not allowed in state '' @ state_name (c_state c))]) c w)
          else (case kind of
              Route \<Rightarrow> Some (handle_route B flds c w)
            | Begin \<Rightarrow> Some (handle_begin B b3 mo flds c w)
            | Commit \<Rightarrow> Some (handle_commit B b3 mo flds c w)
            | Rollback \<Rightarrow> Some (handle_rollback B flds c w)
            | Run \<Rightarrow> handle_run B b3 mo flds c w
            | Pull \<Rightarrow> Some (handle_stream B flds False c w)
            | Discard \<Rightarrow> Some (handle_stream B flds True c w)))"

definition handle_at :: "('tx, 'cur, 'w) backend \<Rightarrow> (bytes \<Rightarrow> bytes) \<Rightarrow> string \<Rightarrow> moment \<Rightarrow> client_message \<Rightarrow> ('tx, 'cur) connection \<Rightarrow> 'w
    \<Rightarrow> ('tx, 'cur, 'w) outcome option" where
  "handle_at B b3 pkg_version mo msg c w =
     (case check_timeout B (mo_now mo) c w of
        (_, c, w) \<Rightarrow>
          (case c_state c of
             Defunct \<Rightarrow> Some ([], c, w)
           | NotAuthenticated \<Rightarrow> Some (handle_connected b3 pkg_version mo msg c w)
           | Failed \<Rightarrow> Some (handle_failed msg c w)
           | Interrupted \<Rightarrow> Some (handle_failed msg c w)
           | _ \<Rightarrow> handle_active B b3 mo msg c w))"

definition handle_malformed :: "('tx, 'cur, 'w) backend \<Rightarrow> bolt_error \<Rightarrow> ('tx, 'cur) connection \<Rightarrow> 'w \<Rightarrow> ('tx, 'cur, 'w) outcome" where
  "handle_malformed B err c w = (if c_state c = Defunct then ([], c, w) else violate B err c w)"

section \<open>A batch of requests\<close>

definition handle_item :: "('tx, 'cur, 'w) backend \<Rightarrow> (bytes \<Rightarrow> bytes) \<Rightarrow> string \<Rightarrow> moment \<Rightarrow> bool \<Rightarrow> bolt_error + client_message
    \<Rightarrow> ('tx, 'cur) connection \<Rightarrow> 'w \<Rightarrow> ('tx, 'cur, 'w) outcome option" where
  "handle_item B b3 pkg_version mo raised item c w =
     (let c = c \<lparr> c_interrupted := c_interrupted c \<or> raised \<rparr> in
      case (if c_interrupted c then interrupt B c w else (c, w)) of
        (c, w) \<Rightarrow>
          (case item of
             Inr msg \<Rightarrow> handle_at B b3 pkg_version mo msg c w
           | Inl err \<Rightarrow> Some (handle_malformed B err c w)))"

fun handle_batch :: "('tx, 'cur, 'w) backend \<Rightarrow> (bytes \<Rightarrow> bytes) \<Rightarrow> string \<Rightarrow> (moment \<times> bool \<times> (bolt_error + client_message)) list
    \<Rightarrow> ('tx, 'cur) connection \<Rightarrow> 'w \<Rightarrow> ('tx, 'cur, 'w) outcome option" where
  "handle_batch B b3 pkg_version [] c w = Some ([], c, w)"
| "handle_batch B b3 pkg_version ((mo, raised, item) # items) c w =
     Option.bind (handle_item B b3 pkg_version mo raised item c w) (\<lambda>(out, c, w).
     Option.bind (handle_batch B b3 pkg_version items c w) (\<lambda>(outs, c, w). Some (out @ outs, c, w)))"

section \<open>The invariant and the shape of replies\<close>

definition cursors_ok :: "int \<Rightarrow> (int, 'cur) omap \<Rightarrow> bool" where
  "cursors_ok last_qid cursors \<longleftrightarrow> om_wf cursors \<and> (\<forall>q\<in>fst ` set cursors. 0 \<le> q \<and> q \<le> last_qid) \<and> -1 \<le> last_qid"

definition conn_ok :: "('tx, 'cur) connection \<Rightarrow> bool" where
  "conn_ok c \<longleftrightarrow>
     (case c_state c of
        NotAuthenticated \<Rightarrow> c_identity c = None \<and> c_pending_failure c = None
      | Ready \<Rightarrow> c_identity c \<noteq> None \<and> c_pending_failure c = None
      | Streaming _ _ \<Rightarrow> c_identity c \<noteq> None \<and> c_pending_failure c = None
      | InTx _ _ _ cursors \<Rightarrow> c_identity c \<noteq> None \<and> c_pending_failure c = None \<and> cursors_ok (c_last_qid c) cursors
      | Failed \<Rightarrow> c_identity c \<noteq> None
      | Interrupted \<Rightarrow> c_identity c \<noteq> None
      | Defunct \<Rightarrow> True)"

text \<open>A request is answered by records and one message that is not a record.\<close>

fun is_record :: "server_message \<Rightarrow> bool" where
  "is_record (Record _) = True" | "is_record _ = False"

definition one_reply :: "server_message list \<Rightarrow> bool" where
  "one_reply out \<longleftrightarrow> out \<noteq> [] \<and> \<not> is_record (last out) \<and> list_all is_record (butlast out)"

definition sound :: "('tx, 'cur, 'w) outcome \<Rightarrow> bool" where
  "sound r \<longleftrightarrow> (case r of (out, c, w) \<Rightarrow> conn_ok c \<and> one_reply out)"

text \<open>No panic, and a sound outcome.\<close>

definition returns :: "('tx, 'cur, 'w) outcome option \<Rightarrow> bool" where
  "returns r \<longleftrightarrow> r \<noteq> None \<and> sound (the r)"

lemma returns_Some [simp]: "returns (Some r) \<longleftrightarrow> sound r"
  by (simp add: returns_def)

lemma one_reply_single: "one_reply [s] \<longleftrightarrow> \<not> is_record s"
  by (simp add: one_reply_def)

lemma one_reply_rows: "\<not> is_record s \<Longrightarrow> one_reply (map Record rows @ [s])"
  by (induction rows) (simp_all add: one_reply_def)

named_theorems sound_intros "handlers that keep the invariant and reply once"

lemma sound_fail [sound_intros]: "c_identity c \<noteq> None \<Longrightarrow> sound (fail_with B err c w)"
  by (simp add: sound_def fail_with_def discard_work_def conn_ok_def one_reply_single)

lemma sound_violate [sound_intros]: "sound (violate B err c w)"
  by (simp add: sound_def violate_def discard_work_def conn_ok_def one_reply_single)

text \<open>The states in which requests are acted on.\<close>

definition active :: "('tx, 'cur) connection_state \<Rightarrow> bool" where
  "active st \<longleftrightarrow> (case st of Ready \<Rightarrow> True | Streaming _ _ \<Rightarrow> True | InTx _ _ _ _ \<Rightarrow> True | _ \<Rightarrow> False)"

lemma conn_ok_active: "conn_ok c \<Longrightarrow> active (c_state c) \<Longrightarrow> c_identity c \<noteq> None \<and> c_pending_failure c = None"
  by (auto simp: conn_ok_def active_def split: connection_state.splits)

lemma recheck_key_keeps:
  assumes "recheck_key b3 mo c = (r, c')" "conn_ok c" "active (c_state c)"
  shows "conn_ok c' \<and> c_state c' = c_state c \<and> c_identity c' \<noteq> None"
  using assms(1,2) conn_ok_active [OF assms(2,3)] assms(3)
  by (auto simp: recheck_key_def conn_ok_def active_def Let_def split: option.splits sum.splits if_splits connection_state.splits)

lemma sound_ignored [sound_intros]:
  "active (c_state c) \<Longrightarrow> c_identity c \<noteq> None \<Longrightarrow> sound (case ignored_if_interrupted B mo c w of Some out \<Rightarrow> out | None \<Rightarrow> fail_with B err c w)"
  by (auto simp: ignored_if_interrupted_def interrupt_def discard_work_def active_def sound_def conn_ok_def one_reply_single
      fail_with_def split: connection_state.splits)

lemma sound_route: "c_identity c \<noteq> None \<Longrightarrow> conn_ok c \<Longrightarrow> sound (handle_route B flds c w)"
  by (auto simp: handle_route_def route_reply_def and_then_Inr_iff Let_def sound_def [of "(_, c, w)"] one_reply_single
      intro: sound_intros split: option.split sum.split)

lemma sound_begin:
  assumes "conn_ok c" "c_state c = Ready"
  shows "sound (handle_begin B b3 mo flds c w)"
proof -
  obtain r c1 where k: "recheck_key b3 mo c = (r, c1)" by (cases "recheck_key b3 mo c") auto
  have c1: "conn_ok c1" "c_state c1 = Ready" "c_identity c1 \<noteq> None"
    using recheck_key_keeps [OF k assms(1)] assms(2) by (auto simp: active_def)
  have ign: "sound (case ignored_if_interrupted B mo c1 w' of Some out \<Rightarrow> out | None \<Rightarrow> fail_with B err c1 w')" for err w'
    using c1 by (intro sound_ignored) (simp_all add: active_def)
  have "sound ([Success []], c1 \<lparr> c_last_qid := - 1, c_state := InTx tx t t [] \<rparr>, w')" for tx t w'
    using c1 by (auto simp: sound_def conn_ok_def cursors_ok_def one_reply_single)
  then show ?thesis using c1 ign
    by (auto simp: handle_begin_def k enter_tx_def Let_def intro: sound_intros split: sum.split option.split bool.split prod.split)
qed

lemma sound_commit:
  assumes "conn_ok c" "active (c_state c)"
  shows "sound (handle_commit B b3 mo flds c w)"
proof -
  obtain r c1 where k: "recheck_key b3 mo c = (r, c1)" by (cases "recheck_key b3 mo c") auto
  have c1: "conn_ok c1" "c_state c1 = c_state c" "c_identity c1 \<noteq> None" using recheck_key_keeps [OF k assms] by auto
  have p: "c_pending_failure c1 = None" using conn_ok_active [OF c1(1)] c1(2) assms(2) by simp
  have "sound ([Success m], c1 \<lparr> c_state := Ready \<rparr>, w')" "sound ([Failure e], c1 \<lparr> c_state := Failed \<rparr>, w')" for m e w'
    using c1(3) p by (auto simp: sound_def conn_ok_def one_reply_single)
  then show ?thesis using c1
    by (auto simp: handle_commit_def k take_tx_def intro: sound_intros split: sum.split option.split prod.split connection_state.split)
qed

lemma sound_rollback:
  assumes "conn_ok c" "active (c_state c)"
  shows "sound (handle_rollback B flds c w)"
proof -
  have "sound ([Success []], c \<lparr> c_state := Ready \<rparr>, w')" for w'
    using conn_ok_active [OF assms] by (auto simp: sound_def conn_ok_def one_reply_single)
  then show ?thesis by (auto simp: handle_rollback_def take_tx_def intro: sound_intros split: connection_state.split)
qed

lemma cursors_ok_insert:
  "cursors_ok n cs \<Longrightarrow> cursors_ok (n + 1) (om_insert (n + 1) cur cs)"
  "cursors_ok n cs \<Longrightarrow> q \<in> fst ` set cs \<Longrightarrow> cursors_ok n (om_insert q cur cs)"
  "cursors_ok n cs \<Longrightarrow> cursors_ok n (om_remove q cs)"
  by (auto simp: cursors_ok_def set_keys_insert set_keys_remove simp del: set_map)

lemma returns_run:
  assumes "conn_ok c" "allows (c_state c) Run"
  shows "returns (handle_run B b3 mo flds c w)"
proof -
  obtain r c1 where k: "recheck_key b3 mo c = (r, c1)" by (cases "recheck_key b3 mo c") auto
  have act: "active (c_state c)" using assms(2) by (auto simp: allows_def active_def split: connection_state.splits)
  have c1: "conn_ok c1" "c_state c1 = c_state c" "c_identity c1 \<noteq> None" using recheck_key_keeps [OF k assms(1) act] by auto
  have p: "c_pending_failure c1 = None" using conn_ok_active [OF c1(1)] c1(2) act by simp
  have ready: "sound ([Success m], c1 \<lparr> c_state := Streaming cur t \<rparr>, w')" for m cur t w'
    using c1(3) p by (auto simp: sound_def conn_ok_def one_reply_single)
  have ign: "sound (case ignored_if_interrupted B mo c1 w' of Some out \<Rightarrow> out | None \<Rightarrow> fail_with B err c1 w')" for err w'
    using c1 act by (intro sound_ignored) simp_all
  have ign': "sound (case ignored_if_interrupted B mo (c1 \<lparr> c_state := InTx tx o1 s1 cs \<rparr>) w' of Some out \<Rightarrow> out
      | None \<Rightarrow> fail_with B err (c1 \<lparr> c_state := InTx tx o1 s1 cs \<rparr>) w')" for err w' tx o1 s1 cs
    using c1 by (intro sound_ignored) (simp_all add: active_def)
  have intx: "sound ([Success m], c1 \<lparr> c_last_qid := c_last_qid c1 + 1, c_state := InTx tx o1 s1 (om_insert (c_last_qid c1 + 1) cur cs) \<rparr>, w')"
    if "c_state c1 = InTx tx0 o0 s0 cs" for m tx o1 s1 cur cs w' tx0 o0 s0
  proof -
    have "cursors_ok (c_last_qid c1) cs" using c1(1) that by (simp add: conn_ok_def)
    then show ?thesis using c1(3) p by (simp add: sound_def conn_ok_def one_reply_single cursors_ok_insert)
  qed
  consider "c_state c1 = Ready" | tx o1 s1 cs where "c_state c1 = InTx tx o1 s1 cs"
    using assms(2) c1(2) by (auto simp: allows_def split: connection_state.splits)
  then show ?thesis
  proof cases
    case 1
    then show ?thesis using ready ign sound_fail [OF c1(3)] sound_violate
      by (auto simp: handle_run_def k split: sum.split option.split bool.split prod.split)
  next
    case 2
    then show ?thesis using intx [OF 2] ign' sound_fail [OF c1(3)] sound_violate
      by (auto simp: handle_run_def k Let_def split: sum.split option.split bool.split prod.split)
  qed
qed

lemma sound_stream_reply:
  assumes "conn_ok c" "active (c_state c)" "find_cursor (c_state c) q = Some (cur0, tq)"
  shows "sound (stream_reply B (map Record rows) cur tq c w)"
proof (cases "c_state c")
  case (InTx tx o1 s1 cs)
  obtain k where k: "tq = Some k" "k \<in> fst ` set cs"
    using assms(3) InTx by (force simp: find_cursor_def Let_def bind_eq_Some_conv split: if_splits dest!: map_of_SomeD)
  have "cursors_ok (c_last_qid c) cs" using assms(1) InTx by (simp add: conn_ok_def)
  then show ?thesis using assms(1) InTx k
    by (auto simp: stream_reply_def put_cursor_def end_cursor_def sound_def conn_ok_def cursors_ok_insert one_reply_rows)
qed (use assms in \<open>auto simp: stream_reply_def put_cursor_def end_cursor_def find_cursor_def active_def sound_def conn_ok_def one_reply_rows
       split: if_splits\<close>)

lemma sound_stream:
  assumes "conn_ok c" "active (c_state c)"
  shows "sound (handle_stream B flds d c w)"
proof -
  have i: "c_identity c \<noteq> None" using conn_ok_active [OF assms] by simp
  show ?thesis using i sound_stream_reply [OF assms, where rows = "[]"] sound_stream_reply [OF assms]
    by (auto simp: handle_stream_def intro: sound_intros split: sum.split option.split prod.split)
qed

text \<open>Only a connection that is closed gives no answer.\<close>

definition is_settled :: "('tx, 'cur, 'w) outcome option \<Rightarrow> bool" where
  "is_settled r \<longleftrightarrow> returns r \<or> (\<exists>c w. r = Some ([], c, w) \<and> c_state c = Defunct)"

lemma settled_violate [simp]: "is_settled (Some (violate B err c w))"
  by (simp add: is_settled_def sound_violate)

lemma settled_tuple [simp]: "is_settled (Some (out, c, w)) \<longleftrightarrow> conn_ok c \<and> one_reply out \<or> out = [] \<and> c_state c = Defunct"
  by (auto simp: is_settled_def sound_def)

lemma settled_returns: "returns r \<Longrightarrow> is_settled r"
  by (simp add: is_settled_def)

lemma conn_ok_touch: "conn_ok c \<Longrightarrow> conn_ok (c \<lparr> c_state := touch t (c_state c) \<rparr>)" "active (touch t st) = active st"
  by (auto simp: conn_ok_def touch_def active_def split: connection_state.splits)

lemma settled_other:
  assumes "conn_ok c" "allows (c_state c) kind"
  shows "returns (case kind of
              Route \<Rightarrow> Some (handle_route B flds c w)
            | Begin \<Rightarrow> Some (handle_begin B b3 mo flds c w)
            | Commit \<Rightarrow> Some (handle_commit B b3 mo flds c w)
            | Rollback \<Rightarrow> Some (handle_rollback B flds c w)
            | Run \<Rightarrow> handle_run B b3 mo flds c w
            | Pull \<Rightarrow> Some (handle_stream B flds False c w)
            | Discard \<Rightarrow> Some (handle_stream B flds True c w))"
proof -
  have act: "active (c_state c)" using assms(2) by (auto simp: allows_def active_def split: connection_state.splits)
  have i: "c_identity c \<noteq> None" using conn_ok_active [OF assms(1) act] by simp
  have "kind = Begin \<Longrightarrow> c_state c = Ready" using assms(2) by (auto simp: allows_def split: connection_state.splits if_splits)
  then show ?thesis using assms returns_run
    by (cases kind) (simp_all add: sound_route [OF i] sound_begin sound_commit [OF _ act] sound_rollback [OF _ act] sound_stream [OF _ act])
qed

lemma settled_active:
  assumes "conn_ok c" "active (c_state c)"
  shows "is_settled (handle_active B b3 mo msg c w)"
proof -
  let ?c = "c \<lparr> c_state := touch (mo_now mo) (c_state c) \<rparr>"
  have ok: "conn_ok ?c" "active (c_state ?c)" using assms by (simp_all add: conn_ok_touch)
  have i: "c_identity c \<noteq> None" "c_pending_failure c = None" using conn_ok_active [OF assms] by auto
  show ?thesis
  proof (cases msg)
    case (Other kind flds)
    then show ?thesis by (simp add: handle_active_def Let_def settled_returns [OF settled_other [OF ok(1)], simplified])
  qed (use i in \<open>auto simp: handle_active_def Let_def discard_work_def conn_ok_def one_reply_single reset_success_def\<close>)
qed

lemma conn_ok_defunct: "c_state c = Defunct \<Longrightarrow> conn_ok c"
  by (simp add: conn_ok_def)

lemma settled_at:
  assumes "conn_ok c"
  shows "is_settled (handle_at B b3 v mo msg c w)"
proof -
  obtain b c1 w1 where t: "check_timeout B (mo_now mo) c w = (b, c1, w1)" by (cases "check_timeout B (mo_now mo) c w") auto
  have c1: "conn_ok c1" using t assms
    by (auto simp: check_timeout_def Let_def conn_ok_def discard_work_def split: connection_state.splits if_splits)
  have f: "is_settled (Some (handle_failed msg c1 w1))" if "c_state c1 = Failed \<or> c_state c1 = Interrupted" using that c1
    by (auto simp: handle_failed_def conn_ok_def one_reply_single reset_success_def
        split: client_message.split option.split)
  have h: "is_settled (Some (handle_connected b3 v mo msg c1 w1))" if "c_state c1 = NotAuthenticated" using that c1
    by (auto simp: handle_connected_def conn_ok_def one_reply_single hello_success_def
        split: client_message.split sum.split)
  show ?thesis using c1 f h settled_active [OF c1]
    by (cases "c_state c1") (simp_all add: handle_at_def t active_def)
qed

lemma settled_item:
  assumes "conn_ok c"
  shows "is_settled (handle_item B b3 v mo raised item c w)"
proof -
  let ?c = "c \<lparr> c_interrupted := c_interrupted c \<or> raised \<rparr>"
  obtain c1 w1 where t: "(if c_interrupted ?c then interrupt B ?c w else (?c, w)) = (c1, w1)" by fastforce
  have ok: "conn_ok c1" using t assms
    by (auto simp: interrupt_def conn_ok_def discard_work_def split: connection_state.splits if_splits)
  show ?thesis
  proof (cases item)
    case (Inl err)
    then show ?thesis using t by (auto simp: handle_item_def Let_def handle_malformed_def)
  next
    case (Inr msg)
    then show ?thesis using t settled_at [OF ok] by (simp add: handle_item_def Let_def)
  qed
qed

lemma defunct_stays:
  "c_state c = Defunct \<Longrightarrow> \<exists>c'. handle_item B b3 v mo raised item c w = Some ([], c', w) \<and> c_state c' = Defunct"
  by (cases item) (simp_all add: handle_item_def Let_def interrupt_def handle_at_def handle_malformed_def check_timeout_def)

lemma defunct_batch:
  "c_state c = Defunct \<Longrightarrow> \<exists>c'. handle_batch B b3 v items c w = Some ([], c', w) \<and> c_state c' = Defunct"
proof (induction items arbitrary: c)
  case (Cons i items)
  obtain mo r item where i: "i = (mo, r, item)" by (cases i) auto
  from defunct_stays [OF Cons.prems, of B b3 v mo r item w]
  obtain c1 where c1: "handle_item B b3 v mo r item c w = Some ([], c1, w)" "c_state c1 = Defunct" by blast
  then show ?case using Cons.IH [OF c1(2)] i by auto
qed simp

lemma count_one_reply: "one_reply out \<Longrightarrow> length (filter (\<lambda>s. \<not> is_record s) out) = 1"
proof -
  assume a: "one_reply out"
  then obtain xs x where out: "out = xs @ [x]" "\<not> is_record x" "list_all is_record xs"
    unfolding one_reply_def by (metis append_butlast_last_id)
  then have "filter (\<lambda>s. \<not> is_record s) xs = []" by (simp add: filter_empty_conv list_all_iff)
  then show ?thesis using out by simp
qed

lemma batch_settles:
  "conn_ok c \<Longrightarrow> \<exists>out c' w'. handle_batch B b3 v items c w = Some (out, c', w') \<and> conn_ok c' \<and>
     length (filter (\<lambda>s. \<not> is_record s) out) \<le> length items \<and>
     (c_state c' \<noteq> Defunct \<longrightarrow> length (filter (\<lambda>s. \<not> is_record s) out) = length items)"
proof (induction items arbitrary: c w)
  case (Cons i items)
  obtain mo r item where i: "i = (mo, r, item)" by (cases i) auto
  have st: "is_settled (handle_item B b3 v mo r item c w)" by (rule settled_item [OF Cons.prems])
  then obtain out1 c1 w1 where h: "handle_item B b3 v mo r item c w = Some (out1, c1, w1)"
    by (cases "handle_item B b3 v mo r item c w") (auto simp: is_settled_def returns_def)
  show ?case
  proof (cases "c_state c1 = Defunct")
    case True
    have "length (filter (\<lambda>s. \<not> is_record s) out1) \<le> 1" using st h count_one_reply by fastforce
    with defunct_batch [OF True, of B b3 v items w1] h i show ?thesis by (fastforce simp: conn_ok_defunct)
  next
    case False
    then have o1: "conn_ok c1" "length (filter (\<lambda>s. \<not> is_record s) out1) = 1" using st h count_one_reply by auto
    from Cons.IH [OF o1(1), of w1] h i o1(2) show ?thesis by fastforce
  qed
qed simp

end
