(* ===== verification/Bolt_Serve.thy ===== *)
theory Bolt_Serve
  imports Bolt_Connection
begin

text \<open>
  The message loop of a Bolt connection (\<open>serve_connection_with\<close> of \<open>crates/bolt/src/connection.rs\<close>): what it takes out of its
  buffer, how a \<open>RESET\<close> interrupts the requests in front of it, and the histories of a connection, of which the properties speak.
  The socket and its deadlines are not modelled.
\<close>

section \<open>The buffer\<close>

fun keepalive_len :: "bytes \<Rightarrow> nat" where
  "keepalive_len (a # b # buf) = (if a = 0 \<and> b = 0 then 2 + keepalive_len buf else 0)"
| "keepalive_len _ = 0"

text \<open>The loop over complete messages: what was decoded, whether a message was too large, and the bytes left. The model drops the bytes that
  the source steps over.\<close>

function drain_messages :: "nat \<Rightarrow> bytes \<Rightarrow> (bolt_error + client_message) list \<times> bool \<times> bytes" where
  "drain_messages cap buf =
     (let buf = drop (keepalive_len buf) buf in
      case deframe buf of
        Inl FrameIncomplete \<Rightarrow> ([], False, buf)
      | Inr (message, used) \<Rightarrow>
          if length message > cap then ([], True, drop used buf)
          else (case drain_messages cap (drop used buf) of (decoded, oversized, rest) \<Rightarrow> (decode_message message # decoded, oversized, rest)))"
  by pat_completeness auto
termination
proof (relation "measure (\<lambda>(cap, buf). length buf)")
  fix cap buf buf' and r :: "frame_error + bytes \<times> nat" and p message used
  assume a: "buf' = drop (keepalive_len buf) buf" "deframe buf' = Inr p" "(message, used) = p"
  then have "2 \<le> used \<and> used \<le> length buf'" using deframe_loop_range [of buf' "[]" 0 message used] by (simp add: deframe_def)
  then show "((cap, drop used buf'), (cap, buf)) \<in> measure (\<lambda>(cap, buf). length buf)" using a(1) by auto
qed simp

declare drain_messages.simps [simp del]

function holds_reset :: "bytes \<Rightarrow> nat \<Rightarrow> bool \<times> nat" where
  "holds_reset buf scanned =
     (let from = scanned + keepalive_len (drop scanned buf) in
      case deframe (drop from buf) of
        Inl FrameIncomplete \<Rightarrow> (False, from)
      | Inr (message, used) \<Rightarrow>
          (case holds_reset buf (from + used) of (found, scanned) \<Rightarrow> (message = [0xB0, 0x0F] \<or> found, scanned)))"
  by pat_completeness auto
termination
proof (relation "measure (\<lambda>(buf, scanned). length buf - scanned)")
  fix buf :: bytes and scanned start :: nat and p message used
  assume a: "start = scanned + keepalive_len (drop scanned buf)" "deframe (drop start buf) = Inr p" "(message, used) = p"
  then have "2 \<le> used \<and> used \<le> length (drop start buf)"
    using deframe_loop_range [of "drop start buf" "[]" 0 message used] by (simp add: deframe_def)
  then show "((buf, start + used), (buf, scanned)) \<in> measure (\<lambda>(buf, scanned). length buf - scanned)" using a(1) by auto
qed simp

declare holds_reset.simps [simp del]

section \<open>One turn of the loop\<close>

definition cap_of :: "nat \<Rightarrow> nat \<Rightarrow> ('tx, 'cur) connection \<Rightarrow> nat" where
  "cap_of max_message_bytes pre_auth_max_message_bytes c =
     (if c_identity c \<noteq> None then max_message_bytes else pre_auth_max_message_bytes)"

text \<open>Each decoded message comes with the moment it is handled at; a \<open>RESET\<close> among them interrupts first.\<close>

definition serve_round :: "('tx, 'cur, 'w) backend \<Rightarrow> (bytes \<Rightarrow> bytes) \<Rightarrow> string \<Rightarrow> (moment \<times> bool \<times> (bolt_error + client_message)) list
    \<Rightarrow> ('tx, 'cur) connection \<Rightarrow> 'w \<Rightarrow> ('tx, 'cur, 'w) outcome option" where
  "serve_round B b3 pkg_version items c w =
     (case (if \<exists>i\<in>set items. snd (snd i) = Inr Reset then interrupt B c w else (c, w)) of
        (c, w) \<Rightarrow> handle_batch B b3 pkg_version items c w)"

text \<open>The turns of the loop: a tick of the clock, or a round. The loop ends at a defunct connection.\<close>

inductive serve_step :: "('tx, 'cur, 'w) backend \<Rightarrow> (bytes \<Rightarrow> bytes) \<Rightarrow> string
    \<Rightarrow> ('tx, 'cur) connection \<times> 'w \<Rightarrow> nat \<times> server_message list \<Rightarrow> ('tx, 'cur) connection \<times> 'w \<Rightarrow> bool"
  for B b3 v where
  tick: "c_state c \<noteq> Defunct \<Longrightarrow> check_timeout B now c w = (expired, c', w') \<Longrightarrow> serve_step B b3 v (c, w) (0, []) (c', w')"
| round: "c_state c \<noteq> Defunct \<Longrightarrow> serve_round B b3 v items c w = Some (out, c', w')
    \<Longrightarrow> serve_step B b3 v (c, w) (length items, out) (c', w')"

inductive_cases serve_stepE: "serve_step B b3 v (c, w) (k, outs) s'"

text \<open>A history from a new connection: how many requests it has decoded and what it has answered.\<close>

inductive served :: "('tx, 'cur, 'w) backend \<Rightarrow> (bytes \<Rightarrow> bytes) \<Rightarrow> string \<Rightarrow> ('tx, 'cur) connection \<times> 'w
    \<Rightarrow> nat \<Rightarrow> server_message list \<Rightarrow> ('tx, 'cur) connection \<times> 'w \<Rightarrow> bool"
  for B b3 v s0 where
  start: "served B b3 v s0 0 [] s0"
| turn: "served B b3 v s0 n out s \<Longrightarrow> serve_step B b3 v s (k, outs) s' \<Longrightarrow> served B b3 v s0 (n + k) (out @ outs) s'"

section \<open>Every request is answered\<close>

definition answers :: "server_message list \<Rightarrow> nat" where
  "answers out = length (filter (\<lambda>s. \<not> is_record s) out)"

lemma answers_simps [simp]: "answers [] = 0" "answers (xs @ ys) = answers xs + answers ys"
  by (simp_all add: answers_def)

lemma conn_ok_interrupt: "conn_ok c \<Longrightarrow> interrupt B c w = (c', w') \<Longrightarrow> conn_ok c'"
  by (auto simp: interrupt_def conn_ok_def discard_work_def split: connection_state.splits)

lemma conn_ok_timeout: "conn_ok c \<Longrightarrow> check_timeout B now c w = (b, c', w') \<Longrightarrow> conn_ok c' \<and> (c_state c' = Defunct \<longleftrightarrow> c_state c = Defunct)"
  by (auto simp: check_timeout_def Let_def conn_ok_def discard_work_def split: connection_state.splits if_splits)

lemma round_settles:
  assumes "conn_ok c"
  obtains out c' w' where "serve_round B b3 v items c w = Some (out, c', w')" "conn_ok c'" "answers out \<le> length items"
    "c_state c' = Defunct \<or> answers out = length items"
proof -
  obtain c1 w1 where t: "(if \<exists>i\<in>set items. snd (snd i) = Inr Reset then interrupt B c w else (c, w)) = (c1, w1)" by fastforce
  then have "conn_ok c1" using assms conn_ok_interrupt [OF assms, of B w] by (auto split: if_splits)
  from batch_settles [OF this, of B b3 v items w1] t that show ?thesis by (fastforce simp: serve_round_def answers_def)
qed

lemma served_ok:
  assumes "served B b3 v (c0, w0) n out s" "conn_ok c0"
  shows "conn_ok (fst s) \<and> answers out \<le> n \<and> (c_state (fst s) = Defunct \<or> answers out = n)"
  using assms(1)
proof (induction rule: served.induct)
  case start
  then show ?case using assms(2) by simp
next
  case (turn n out s k outs s')
  obtain c w where s: "s = (c, w)" by (cases s)
  from turn(2) [unfolded s] show ?case
  proof (rule serve_stepE)
    fix now expired c' w'
    assume "k = 0" "outs = []" "s' = (c', w')" "check_timeout B now c w = (expired, c', w')"
    then show ?thesis using turn(3) s conn_ok_timeout [of c B now w] by auto
  next
    fix items c' w'
    assume "k = length items" "s' = (c', w')" "c_state c \<noteq> Defunct" "serve_round B b3 v items c w = Some (outs, c', w')"
    then show ?thesis using turn(3) s by (auto elim: round_settles [of c B b3 v items w])
  qed
qed

lemma conn_ok_new: "conn_ok (conn_new t name ver routing service)"
  by (simp add: conn_ok_def conn_new_def)

text \<open>C5: over any history of a connection the state keeps its invariant (a connection that acts on requests has an identity and no failure
  left to report; the results open in a transaction have distinct ids between zero and the last one given out), no request makes the server
  panic, and as long as the connection is not closed every request so far has been answered by exactly one message that is not a record.\<close>

theorem connection_answers_every_request:
  assumes "served B b3 v (conn_new t name ver routing service, w0) n out (c, w)"
  shows "conn_ok c \<and> answers out \<le> n \<and> (c_state c = Defunct \<or> answers out = n) \<and>
     (\<exists>outs c' w'. serve_round B b3 v items c w = Some (outs, c', w') \<and> conn_ok c' \<and> (c_state c' = Defunct \<or> answers outs = length items))"
  using served_ok [OF assms conn_ok_new] round_settles [of c B b3 v items w] by (metis fst_conv)

section \<open>A RESET recovers the connection\<close>

text \<open>What is answered before the \<open>RESET\<close>: a failure that was not reported yet, and then \<open>IGNORED\<close>.\<close>

definition before_reset :: "bolt_error option \<Rightarrow> nat \<Rightarrow> server_message list" where
  "before_reset pending n = (case pending of Some err \<Rightarrow> if n = 0 then [] else Failure err # replicate (n - 1) Ignored | None \<Rightarrow> replicate n Ignored)"

definition rolled_back :: "('tx, 'cur, 'w) backend \<Rightarrow> ('tx, 'cur) connection \<Rightarrow> 'w \<Rightarrow> 'w" where
  "rolled_back B c w = (case c_state c of InTx tx _ _ _ \<Rightarrow> tx_rollback B tx w | _ \<Rightarrow> w)"

definition passed_over :: "bolt_error + client_message \<Rightarrow> bool" where
  "passed_over item = (case item of Inr Goodbye \<Rightarrow> False | Inr Reset \<Rightarrow> False | Inr _ \<Rightarrow> True | Inl _ \<Rightarrow> False)"

lemma interrupted_item:
  assumes "c_state c = Interrupted"
  shows "passed_over item \<Longrightarrow> \<exists>c'. handle_item B b3 v mo r item c w = Some (before_reset (c_pending_failure c) 1, c', w) \<and>
       c_state c' = Interrupted \<and> c_pending_failure c' = None \<and> c_identity c' = c_identity c"
    and "\<exists>c'. handle_item B b3 v mo r (Inr Reset) c w = Some ([Success []], c', w) \<and>
       c_state c' = Ready \<and> c_pending_failure c' = None \<and> \<not> c_interrupted c' \<and> c_identity c' = c_identity c"
  using assms
  by (auto simp: handle_item_def Let_def interrupt_def handle_at_def check_timeout_def handle_failed_def passed_over_def before_reset_def
      reset_success_def split: sum.splits client_message.splits option.splits)

lemma before_reset_Suc: "before_reset p (Suc n) = before_reset p 1 @ before_reset None n"
  by (simp add: before_reset_def split: option.split)

lemma interrupted_batch:
  "c_state c = Interrupted \<Longrightarrow> \<forall>i\<in>set pre. passed_over (snd (snd i)) \<Longrightarrow> \<exists>c'. handle_batch B b3 v (pre @ [(mo, r, Inr Reset)]) c w
     = Some (before_reset (c_pending_failure c) (length pre) @ [Success []], c', w) \<and>
     c_state c' = Ready \<and> c_pending_failure c' = None \<and> \<not> c_interrupted c' \<and> c_identity c' = c_identity c"
proof (induction pre arbitrary: c)
  case Nil
  with interrupted_item(2) [of c B b3 v mo r w] show ?case by (auto simp: before_reset_def split: option.split)
next
  case (Cons i pre)
  obtain m q item where i: "i = (m, q, item)" by (cases i) auto
  from interrupted_item(1) [OF Cons.prems(1), of item B b3 v m q w] Cons.prems(2) i
  obtain c1 where c1: "handle_item B b3 v m q item c w = Some (before_reset (c_pending_failure c) 1, c1, w)"
    "c_state c1 = Interrupted" "c_pending_failure c1 = None" "c_identity c1 = c_identity c" by auto
  have "\<exists>c'. handle_batch B b3 v (pre @ [(mo, r, Inr Reset)]) c1 w = Some (before_reset None (length pre) @ [Success []], c', w) \<and>
     c_state c' = Ready \<and> c_pending_failure c' = None \<and> \<not> c_interrupted c' \<and> c_identity c' = c_identity c"
    using Cons.IH [OF c1(2)] Cons.prems(2) c1(3,4) by simp
  then show ?case using c1(1) i by (auto simp: before_reset_Suc [of "c_pending_failure c" "length pre"])
qed

text \<open>C13: a \<open>RESET\<close> behind any number of well-formed requests other than \<open>GOODBYE\<close> always brings an authenticated connection that is
  not closed back to \<open>Ready\<close>, whatever it was doing: the open transaction is rolled back first, none of the requests in front reaches
  the store, each is answered by \<open>IGNORED\<close> (the first by a failure that was still to be reported), and the \<open>RESET\<close> by an empty
  \<open>SUCCESS\<close>.\<close>

theorem reset_recovers:
  assumes "c_state c \<notin> {NotAuthenticated, Defunct}" "\<forall>i\<in>set pre. passed_over (snd (snd i))"
  shows "\<exists>c'. serve_round B b3 v (pre @ [(mo, r, Inr Reset)]) c w
     = Some (before_reset (c_pending_failure c) (length pre) @ [Success []], c', rolled_back B c w) \<and>
     c_state c' = Ready \<and> c_pending_failure c' = None \<and> \<not> c_interrupted c' \<and> c_identity c' = c_identity c"
proof -
  obtain c1 where c1: "interrupt B c w = (c1, rolled_back B c w)" "c_state c1 = Interrupted"
    "c_pending_failure c1 = c_pending_failure c" "c_identity c1 = c_identity c"
    using assms(1) by (cases "c_state c") (auto simp: interrupt_def discard_work_def rolled_back_def)
  from interrupted_batch [OF c1(2) assms(2), of B b3 v mo r "rolled_back B c w"] c1 show ?thesis
    by (auto simp: serve_round_def)
qed

section \<open>Who reaches the store\<close>

definition idle_state :: "('tx, 'cur) connection_state \<Rightarrow> bool" where
  "idle_state st = (case st of NotAuthenticated \<Rightarrow> True | Failed \<Rightarrow> True | Interrupted \<Rightarrow> True | Defunct \<Rightarrow> True | _ \<Rightarrow> False)"

lemma interrupt_idle:
  "idle_state (c_state c) \<Longrightarrow> \<exists>st. interrupt B c w = (c \<lparr> c_state := st \<rparr>, w) \<and> (st = c_state c \<or> c_state c = Failed \<and> st = Interrupted)"
  by (cases "c_state c") (auto simp: interrupt_def discard_work_def idle_state_def intro: exI [of _ "c_state c"])

lemma timeout_idle: "idle_state (c_state c) \<Longrightarrow> check_timeout B now c w = (False, c, w)"
  by (cases "c_state c") (simp_all add: check_timeout_def idle_state_def)

text \<open>C12: the store is reached only by an authenticated connection that has not failed. In any other state no request, well-formed or not,
  changes the world; such a state is left for \<open>Ready\<close> by a \<open>RESET\<close> after a failure or by a \<open>HELLO\<close> whose credentials
  the authenticator accepts, and then the connection has the identity of these credentials. Any other first message closes the connection.\<close>

theorem store_needs_authentication:
  assumes "idle_state (c_state c)"
  shows "\<exists>out c'. handle_item B b3 v mo raised item c w = Some (out, c', w) \<and>
     (if c_state c = NotAuthenticated
      then c_state c' = Defunct \<or> c_state c' = Ready \<and>
        (\<exists>h. item = Inr (Hello h) \<and> map_option Inr (c_identity c') = Some (authenticate b3 (mo_auth mo) (auth h)))
      else idle_state (c_state c') \<or> c_state c' = Ready \<and> item = Inr Reset \<and> c_identity c' = c_identity c)"
proof -
  let ?c = "c \<lparr> c_interrupted := c_interrupted c \<or> raised \<rparr>"
  obtain st where t: "(if c_interrupted ?c then interrupt B ?c w else (?c, w)) = (?c \<lparr> c_state := st \<rparr>, w)"
    and st: "st = c_state c \<or> c_state c = Failed \<and> st = Interrupted"
    using interrupt_idle [of ?c B w] assms by (cases "c_interrupted ?c") (auto intro: that [of "c_state c"])
  have i: "idle_state st" using st assms by (auto simp: idle_state_def)
  have h: "handle_item B b3 v mo raised item c w = (case item of
      Inr msg \<Rightarrow> handle_at B b3 v mo msg (?c \<lparr> c_state := st \<rparr>) w | Inl err \<Rightarrow> Some (handle_malformed B err (?c \<lparr> c_state := st \<rparr>) w))"
    unfolding handle_item_def Let_def t by simp
  show ?thesis
  proof (cases item)
    case (Inl err)
    then show ?thesis using st assms unfolding h
      by (cases "c_state c") (auto simp: handle_malformed_def violate_def discard_work_def idle_state_def)
  next
    case (Inr msg)
    show ?thesis using i st Inr timeout_idle [of "?c \<lparr> c_state := st \<rparr>" B "mo_now mo" w] unfolding h
      by (cases "c_state c"; cases msg) (auto simp: handle_at_def handle_connected_def handle_failed_def idle_state_def
          split: sum.splits option.splits)
  qed
qed

text \<open>C8: a key that no longer proves the identity a transaction was opened with stops it: whatever \<open>RUN\<close> or \<open>COMMIT\<close> is sent,
  the answer is not a success, the transaction is rolled back and nothing else reaches the store.\<close>

theorem revoked_key_stops_transaction:
  assumes "c_state c = InTx tx opened seen cursors" "c_auth_token c = Some tok" "c_identity c = Some who"
    and "authenticate b3 (mo_auth mo) tok \<noteq> Inr who" "kind \<in> {Run, Commit}"
  shows "\<exists>reply c'. handle_item B b3 v mo raised (Inr (Other kind flds)) c w = Some ([reply], c', tx_rollback B tx w) \<and>
     (reply = Ignored \<or> (\<exists>err. reply = Failure err)) \<and> idle_state (c_state c')"
proof -
  let ?c = "c \<lparr> c_interrupted := True \<rparr>"
  have rk: "\<exists>e c1. recheck_key b3 mo c2 = (Inl e, c1) \<and> c_state c1 = c_state c2"
    if "c_state c2 = InTx tx o1 s1 cs" "c_auth_token c2 = Some tok" "c_identity c2 = Some who"
    for c2 :: "('a, 'b) connection" and o1 s1 cs
    using that assms(4) by (auto simp: recheck_key_def Let_def split: sum.split)
  let ?t = "c \<lparr> c_interrupted := False, c_state := InTx tx opened (mo_now mo) cursors \<rparr>"
  from rk [of ?t] assms(2,3) obtain e c1 where e: "recheck_key b3 mo ?t = (Inl e, c1)"
    "c_state c1 = InTx tx opened (mo_now mo) cursors" by auto
  show ?thesis
  proof (cases "c_interrupted c \<or> raised")
    case True
    then show ?thesis using assms(1)
      by (cases "c_pending_failure c") (simp_all add: handle_item_def Let_def interrupt_def discard_work_def handle_at_def check_timeout_def
          handle_failed_def idle_state_def)
  next
    case False
    show ?thesis
    proof (cases "c_tx_timeout c \<le> mo_now mo - seen")
      case True
      then show ?thesis using assms(1) False
        by (simp add: handle_item_def Let_def discard_work_def handle_at_def check_timeout_def handle_failed_def idle_state_def)
    next
      case ok: False
      then have "handle_item B b3 v mo raised (Inr (Other kind flds)) c w = handle_active B b3 mo (Other kind flds) (c \<lparr> c_interrupted := False \<rparr>) w"
        using assms(1) False by (simp add: handle_item_def Let_def handle_at_def check_timeout_def)
      then show ?thesis using assms(1,5) e
        by (auto simp: handle_active_def touch_def Let_def allows_def violate_def fail_with_def discard_work_def idle_state_def
            handle_run_def handle_commit_def)
    qed
  qed
qed

section \<open>No transaction is leaked\<close>

text \<open>What the store says of its open transactions: \<open>live\<close> is the set of their names, \<open>tid\<close> the name of a transaction. Beginning
  one adds a fresh name, committing or rolling back takes it away, running a statement changes neither.\<close>

definition ledger :: "('tx, 'cur, 'w) backend \<Rightarrow> ('w \<Rightarrow> 'n set) \<Rightarrow> ('tx \<Rightarrow> 'n) \<Rightarrow> bool" where
  "ledger B live tid \<longleftrightarrow>
     (\<forall>tx w. live (tx_rollback B tx w) = live w - {tid tx}) \<and>
     (\<forall>tx w. live (snd (tx_commit B tx w)) = live w - {tid tx}) \<and>
     (\<forall>who q w. case sv_begin B who q w of
        (Inl _, w') \<Rightarrow> live w' = live w | (Inr tx, w') \<Rightarrow> tid tx \<notin> live w \<and> live w' = insert (tid tx) (live w)) \<and>
     (\<forall>who q w. live (snd (sv_run_auto_commit B who q w)) = live w) \<and>
     (\<forall>who tx q w. case sv_run_in_tx B who tx q w of (_, tx', w') \<Rightarrow> tid tx' = tid tx \<and> live w' = live w)"

definition held :: "('tx \<Rightarrow> 'n) \<Rightarrow> ('tx, 'cur) connection \<Rightarrow> 'n set" where
  "held tid c = (case c_state c of InTx tx _ _ _ \<Rightarrow> {tid tx} | _ \<Rightarrow> {})"

text \<open>The transactions open in the store are those of others and the one the connection holds.\<close>

definition balanced :: "('w \<Rightarrow> 'n set) \<Rightarrow> ('tx \<Rightarrow> 'n) \<Rightarrow> 'n set \<Rightarrow> ('tx, 'cur) connection \<Rightarrow> 'w \<Rightarrow> bool" where
  "balanced live tid others c w \<longleftrightarrow> live w = others \<union> held tid c \<and> others \<inter> held tid c = {}"

lemma ledger_rollback: "ledger B live tid \<Longrightarrow> live (tx_rollback B tx w) = live w - {tid tx}"
  by (simp add: ledger_def)

lemma ledger_commit: "ledger B live tid \<Longrightarrow> tx_commit B tx w = (r, w') \<Longrightarrow> live w' = live w - {tid tx}"
  unfolding ledger_def by (metis snd_conv)

lemma ledger_begin:
  assumes "ledger B live tid" "sv_begin B who q w = (r, w')"
  shows "case r of Inl _ \<Rightarrow> live w' = live w | Inr tx \<Rightarrow> tid tx \<notin> live w \<and> live w' = insert (tid tx) (live w)"
  using assms(1) [unfolded ledger_def, THEN conjunct2, THEN conjunct2, THEN conjunct1, THEN spec [of _ who], THEN spec [of _ q], THEN spec [of _ w]] assms(2) by simp

lemma ledger_auto: "ledger B live tid \<Longrightarrow> sv_run_auto_commit B who q w = (r, w') \<Longrightarrow> live w' = live w"
  unfolding ledger_def by (metis snd_conv)

lemma ledger_run:
  assumes "ledger B live tid" "sv_run_in_tx B who tx q w = (r, tx', w')"
  shows "tid tx' = tid tx \<and> live w' = live w"
  using assms(1) [unfolded ledger_def, THEN conjunct2, THEN conjunct2, THEN conjunct2, THEN conjunct2, THEN spec [of _ who], THEN spec [of _ tx], THEN spec [of _ q], THEN spec [of _ w]] assms(2) by simp

text \<open>An outcome of a balanced request is balanced.\<close>

definition keeps :: "('w \<Rightarrow> 'n set) \<Rightarrow> ('tx \<Rightarrow> 'n) \<Rightarrow> 'n set \<Rightarrow> ('tx, 'cur, 'w) outcome \<Rightarrow> bool" where
  "keeps live tid others r \<longleftrightarrow> (case r of (out, c, w) \<Rightarrow> balanced live tid others c w)"

lemma keeps_tuple: "keeps live tid others (out, c, w) \<longleftrightarrow> balanced live tid others c w"
  by (simp add: keeps_def)

lemma balanced_more [simp]: "balanced live tid others (c \<lparr> c_interrupted := b \<rparr>) w = balanced live tid others c w"
  "balanced live tid others (c \<lparr> c_last_qid := q \<rparr>) w = balanced live tid others c w"
  by (simp_all add: balanced_def held_def)

lemma balanced_idle: "held tid c = {} \<Longrightarrow> balanced live tid others c w \<longleftrightarrow> live w = others"
  by (simp add: balanced_def)

lemma held_states [simp]: "held tid (c \<lparr> c_state := Ready \<rparr>) = {}" "held tid (c \<lparr> c_state := Failed \<rparr>) = {}"
  "held tid (c \<lparr> c_state := Interrupted \<rparr>) = {}" "held tid (c \<lparr> c_state := Defunct \<rparr>) = {}"
  "held tid (c \<lparr> c_state := Streaming cur t \<rparr>) = {}" "held tid (c \<lparr> c_pending_failure := p \<rparr>) = held tid c"
  by (simp_all add: held_def)

lemma ledger_discard:
  "ledger B live tid \<Longrightarrow> balanced live tid others c w \<Longrightarrow> discard_work B c w = (c', w') \<Longrightarrow> live w' = others"
  by (auto simp: balanced_def held_def discard_work_def ledger_rollback split: connection_state.splits)

named_theorems ledger_intros "requests that keep the ledger"

lemma keeps_fail [ledger_intros]:
  "ledger B live tid \<Longrightarrow> balanced live tid others c w \<Longrightarrow> keeps live tid others (fail_with B err c w)"
  "ledger B live tid \<Longrightarrow> balanced live tid others c w \<Longrightarrow> keeps live tid others (violate B err c w)"
  using ledger_discard [of B live tid others c w]
  by (auto simp: keeps_def fail_with_def violate_def balanced_idle split: prod.split)

lemma keeps_interrupt:
  assumes "ledger B live tid" "balanced live tid others c w" "interrupt B c w = (c', w')"
  shows "balanced live tid others c' w'"
  using assms(2,3) ledger_discard [OF assms(1,2)]
  by (auto simp: interrupt_def balanced_idle split: connection_state.splits prod.splits)

lemma keeps_timeout:
  assumes "ledger B live tid" "balanced live tid others c w" "check_timeout B now c w = (b, c', w')"
  shows "balanced live tid others c' w'"
  using assms(2,3) ledger_discard [OF assms(1,2)]
  by (auto simp: check_timeout_def Let_def balanced_idle split: option.splits prod.splits)

lemma keeps_ignored [ledger_intros]:
  assumes "ledger B live tid" "balanced live tid others c w"
  shows "keeps live tid others (case ignored_if_interrupted B mo c w of Some out \<Rightarrow> out | None \<Rightarrow> fail_with B err c w)"
proof (cases "c_interrupted c \<or> mo_raised mo")
  case True
  obtain c1 w1 where i: "interrupt B (c \<lparr> c_interrupted := True \<rparr>) w = (c1, w1)" by fastforce
  then have "balanced live tid others c1 w1" using keeps_interrupt [OF assms(1) _ i] assms(2) by simp
  then show ?thesis using True i by (simp add: ignored_if_interrupted_def keeps_tuple)
qed (simp add: ignored_if_interrupted_def keeps_fail assms)

lemma balanced_recheck:
  "recheck_key b3 mo c = (r, c') \<Longrightarrow> c_state c' = c_state c"
  "recheck_key b3 mo c = (r, c') \<Longrightarrow> balanced live tid others c' w = balanced live tid others c w"
  by (auto simp: recheck_key_def balanced_def held_def Let_def split: option.splits sum.splits if_splits)

lemma keeps_route: "ledger B live tid \<Longrightarrow> balanced live tid others c w \<Longrightarrow> keeps live tid others (handle_route B flds c w)"
  by (auto simp: handle_route_def keeps_tuple intro: ledger_intros split: option.split sum.split)

lemma keeps_begin:
  assumes L: "ledger B live tid" and "balanced live tid others c w" "c_state c = Ready"
  shows "keeps live tid others (handle_begin B b3 mo flds c w)"
proof -
  obtain r c1 where k: "recheck_key b3 mo c = (r, c1)" by (cases "recheck_key b3 mo c") auto
  have c1: "balanced live tid others c1 w" "c_state c1 = Ready" using assms by (simp_all add: balanced_recheck [OF k])
  then have w: "live w = others" by (simp add: balanced_def held_def)
  have e: "balanced live tid others c1 w'" if "sv_begin B who q w = (Inl err, w')" for who q err w'
    using ledger_begin [OF L that] c1 w by (simp add: balanced_def held_def)
  have b: "balanced live tid others (c1 \<lparr> c_last_qid := - 1, c_state := InTx tx t t [] \<rparr>) w'"
    if "sv_begin B who q w = (Inr tx, w')" for who q tx w' t
    using ledger_begin [OF L that] w by (auto simp: balanced_def held_def)
  show ?thesis using c1 e b keeps_ignored [OF L] keeps_fail [OF L]
    by (cases "c_identity c1") (auto simp: handle_begin_def k enter_tx_def Let_def keeps_tuple split: sum.split bool.split prod.split)
qed

lemma balanced_take:
  "balanced live tid others c w \<Longrightarrow> take_tx c = Some (tx, c') \<Longrightarrow> live w - {tid tx} = others \<and> held tid c' = {}"
  by (auto simp: take_tx_def balanced_def held_def split: connection_state.splits)

lemma keeps_commit:
  assumes L: "ledger B live tid" and "balanced live tid others c w"
  shows "keeps live tid others (handle_commit B b3 mo flds c w)"
proof -
  obtain r c1 where k: "recheck_key b3 mo c = (r, c1)" by (cases "recheck_key b3 mo c") auto
  have c1: "balanced live tid others c1 w" using assms(2) by (simp add: balanced_recheck [OF k])
  have "balanced live tid others (c2 \<lparr> c_state := Ready \<rparr>) w' \<and> balanced live tid others c2 w'"
    if "take_tx c1 = Some (tx, c2)" "tx_commit B tx w = (res, w')" for tx c2 res w'
    using balanced_take [OF c1 that(1)] ledger_commit [OF L that(2)] by (simp add: balanced_idle)
  then show ?thesis using c1 assms keeps_fail [OF L]
    by (auto simp: handle_commit_def k keeps_tuple split: sum.split option.split prod.split)
qed

lemma keeps_rollback:
  assumes L: "ledger B live tid" and b: "balanced live tid others c w"
  shows "keeps live tid others (handle_rollback B flds c w)"
  using balanced_take [OF b] ledger_rollback [OF L] keeps_fail [OF L b]
  by (auto simp: handle_rollback_def keeps_tuple balanced_idle split: option.split)

lemma keeps_run:
  assumes L: "ledger B live tid" and b: "balanced live tid others c w" and r: "handle_run B b3 mo flds c w = Some r"
  shows "keeps live tid others r"
proof -
  obtain q c1 where k: "recheck_key b3 mo c = (q, c1)" by (cases "recheck_key b3 mo c") auto
  have c1: "balanced live tid others c1 w" using b by (simp add: balanced_recheck [OF k])
  have a1: "balanced live tid others c1 w'" if "sv_run_auto_commit B who req w = (res, w')" for who req res w'
    using c1 ledger_auto [OF L that] by (simp add: balanced_def)
  have a2: "balanced live tid others (c1 \<lparr> c_state := Streaming cur t \<rparr>) w'"
    if "c_state c1 = Ready" "sv_run_auto_commit B who req w = (res, w')" for who req res w' cur t
    using c1 ledger_auto [OF L that(2)] that(1) by (simp add: balanced_def held_def)
  have t: "balanced live tid others (c1 \<lparr> c_state := InTx tx' o1 s1 cs' \<rparr>) w'
      \<and> balanced live tid others (c1 \<lparr> c_last_qid := n, c_state := InTx tx' o1 s1 cs' \<rparr>) w'"
    if "c_state c1 = InTx tx o0 s0 cs" "sv_run_in_tx B who tx req w = (res, tx', w')" for tx o0 s0 o1 s1 cs cs' who req res tx' w' n
    using c1 that(1) ledger_run [OF L that(2)] by (simp add: balanced_def held_def)
  note intros = keeps_ignored [OF L] keeps_fail [OF L c1]
  show ?thesis
  proof (cases "c_state c1")
    case Ready
    then show ?thesis using r a1 a2 intros
      by (cases "c_identity c1") (auto simp: handle_run_def k keeps_tuple split: sum.splits bool.splits prod.splits)
  next
    case (InTx tx o0 s0 cs)
    then show ?thesis using r t intros
      by (cases "c_identity c1") (auto simp: handle_run_def k Let_def keeps_tuple split: sum.splits bool.splits prod.splits)
  qed (use r intros in \<open>auto simp: handle_run_def k split: sum.splits bool.splits option.split_asm\<close>)
qed

lemma held_stream:
  assumes "find_cursor (c_state c) q = Some (cur, tq)"
  shows "held tid (c \<lparr> c_state := put_cursor (c_state c) cur' tq \<rparr>) = held tid c" "held tid (c \<lparr> c_state := end_cursor (c_state c) tq \<rparr>) = held tid c"
  using assms by (auto simp: find_cursor_def put_cursor_def end_cursor_def held_def Let_def bind_eq_Some_conv
      split: connection_state.splits if_splits)

lemma keeps_stream:
  assumes L: "ledger B live tid" and b: "balanced live tid others c w"
  shows "keeps live tid others (handle_stream B flds d c w)"
proof -
  have s: "keeps live tid others (stream_reply B out cur' tq c w)" if "find_cursor (c_state c) q = Some (cur, tq)" for out cur' tq q cur
    using b by (simp add: stream_reply_def keeps_tuple balanced_def held_stream [OF that])
  show ?thesis using keeps_fail [OF L b]
    by (auto simp: handle_stream_def intro: s split: sum.split option.split prod.split)
qed

lemma balanced_touch: "balanced live tid others (c \<lparr> c_state := touch t (c_state c) \<rparr>) w = balanced live tid others c w"
  by (cases "c_state c") (simp_all add: balanced_def held_def touch_def)

lemma keeps_active:
  assumes L: "ledger B live tid" and "balanced live tid others c w" and r: "handle_active B b3 mo msg c w = Some r"
  shows "keeps live tid others r"
proof -
  let ?c = "c \<lparr> c_state := touch (mo_now mo) (c_state c) \<rparr>"
  have b: "balanced live tid others ?c w" using assms(2) by (simp add: balanced_touch)
  obtain c' w' where d: "discard_work B ?c w = (c', w')" by fastforce
  have w': "live w' = others" by (rule ledger_discard [OF L b d])
  show ?thesis
  proof (cases msg)
    case (Other kind flds)
    have "kind = Begin \<Longrightarrow> allows (c_state ?c) kind \<Longrightarrow> c_state ?c = Ready"
      by (auto simp: allows_def split: connection_state.splits if_splits)
    then show ?thesis using r Other keeps_fail(2) [OF L b] keeps_run [OF L b] keeps_begin [OF L b]
      by (cases kind) (auto simp: handle_active_def Let_def keeps_route [OF L b] keeps_commit [OF L b] keeps_rollback [OF L b]
          keeps_stream [OF L b] split: if_splits)
  qed (use r d w' keeps_fail(2) [OF L b] in \<open>auto simp: handle_active_def Let_def keeps_tuple balanced_idle\<close>)
qed

lemma keeps_at:
  assumes L: "ledger B live tid" and b: "balanced live tid others c w" and r: "handle_at B b3 v mo msg c w = Some r"
  shows "keeps live tid others r"
proof -
  obtain e c1 w1 where t: "check_timeout B (mo_now mo) c w = (e, c1, w1)" by (cases "check_timeout B (mo_now mo) c w") auto
  have b1: "balanced live tid others c1 w1" by (rule keeps_timeout [OF L b t])
  have h: "keeps live tid others (handle_connected b3 v mo msg c1 w1)" if "c_state c1 = NotAuthenticated"
    using that b1 by (auto simp: handle_connected_def keeps_tuple balanced_def held_def split: client_message.split sum.split)
  have f: "keeps live tid others (handle_failed msg c1 w1)" if "c_state c1 = Failed \<or> c_state c1 = Interrupted"
    using that b1 by (auto simp: handle_failed_def keeps_tuple balanced_def held_def split: client_message.split option.split)
  show ?thesis using r b1 h f keeps_active [OF L b1, of b3 mo msg r]
    by (cases "c_state c1") (auto simp: handle_at_def t keeps_tuple)
qed

lemma keeps_item:
  assumes L: "ledger B live tid" and b: "balanced live tid others c w" and r: "handle_item B b3 v mo raised item c w = Some r"
  shows "keeps live tid others r"
proof -
  let ?c = "c \<lparr> c_interrupted := c_interrupted c \<or> raised \<rparr>"
  obtain c1 w1 where t: "(if c_interrupted ?c then interrupt B ?c w else (?c, w)) = (c1, w1)" by fastforce
  have b1: "balanced live tid others c1 w1"
    using t b keeps_interrupt [OF L, of others ?c w c1 w1] by (auto split: if_splits)
  have "handle_item B b3 v mo raised item c w =
      (case item of Inr msg \<Rightarrow> handle_at B b3 v mo msg c1 w1 | Inl err \<Rightarrow> Some (handle_malformed B err c1 w1))"
    unfolding handle_item_def Let_def t by simp
  then show ?thesis using r keeps_at [OF L b1] keeps_fail(2) [OF L b1] b1
    by (auto simp: handle_malformed_def keeps_tuple split: sum.splits if_splits)
qed

lemma keeps_batch:
  "ledger B live tid \<Longrightarrow> balanced live tid others c w \<Longrightarrow> handle_batch B b3 v items c w = Some (out, c', w') \<Longrightarrow> balanced live tid others c' w'"
proof (induction items arbitrary: c w out)
  case (Cons i items)
  obtain mo q item where i: "i = (mo, q, item)" by (cases i) auto
  from Cons.prems(3) i obtain out1 c1 w1 out2 where h: "handle_item B b3 v mo q item c w = Some (out1, c1, w1)"
    "handle_batch B b3 v items c1 w1 = Some (out2, c', w')" by (auto simp: bind_eq_Some_conv)
  then show ?case using Cons.IH [OF Cons.prems(1) _ h(2)] keeps_item [OF Cons.prems(1,2) h(1)] by (simp add: keeps_tuple)
qed simp

lemma keeps_round:
  assumes L: "ledger B live tid" and b: "balanced live tid others c w" and r: "serve_round B b3 v items c w = Some (out, c', w')"
  shows "balanced live tid others c' w'"
proof -
  obtain c1 w1 where t: "(if \<exists>i\<in>set items. snd (snd i) = Inr Reset then interrupt B c w else (c, w)) = (c1, w1)" by fastforce
  have "balanced live tid others c1 w1" using t b keeps_interrupt [OF L b, of c1 w1] by (auto split: if_splits)
  then show ?thesis using keeps_batch [OF L _, of others c1 w1 b3 v items out c' w'] r t by (simp add: serve_round_def)
qed

lemma served_balanced:
  assumes L: "ledger B live tid" and "served B b3 v (c0, w0) n out s" "balanced live tid others c0 w0"
  shows "balanced live tid others (fst s) (snd s)"
  using assms(2)
proof (induction rule: served.induct)
  case start
  then show ?case using assms(3) by simp
next
  case (turn n out s k outs s')
  obtain c w where s: "s = (c, w)" by (cases s)
  from turn(2) [unfolded s] show ?case
  proof (rule serve_stepE)
    fix now expired c' w'
    assume "s' = (c', w')" "check_timeout B now c w = (expired, c', w')"
    then show ?thesis using turn(3) s keeps_timeout [OF L, of others c w now expired c' w'] by simp
  next
    fix items c' w'
    assume "s' = (c', w')" "serve_round B b3 v items c w = Some (outs, c', w')"
    then show ?thesis using turn(3) s keeps_round [OF L, of others c w b3 v items outs c' w'] by simp
  qed
qed

text \<open>C6: no transaction is leaked. Over any history of a connection, with a store that keeps its ledger of open transactions, the transactions
  open in the store are those that were open before the connection and the one the connection is in; in particular none is left when the
  connection is \<open>Ready\<close>, has failed or is closed.\<close>

theorem no_transaction_leaks:
  assumes "ledger B live tid" "served B b3 v (conn_new t name ver routing service, w0) n out (c, w)"
  shows "live w = live w0 \<union> held tid c \<and> live w0 \<inter> held tid c = {}"
proof -
  have "balanced live tid (live w0) (conn_new t name ver routing service) w0" by (simp add: balanced_def held_def conn_new_def)
  from served_balanced [OF assms this] show ?thesis by (simp add: balanced_def)
qed

section \<open>The buffer and the client's messages\<close>

lemma keepalive_noops: "keepalive_len (concat (replicate k [0, 0]) @ buf) = 2 * k + keepalive_len buf"
  by (induction k) simp_all

lemma keepalive_frame:
  assumes "msg \<noteq> []"
  shows "keepalive_len (bolt_frame msg [] @ rest) = 0"
proof -
  obtain c cs where cs: "chunks_of MAX_CHUNK msg = c # cs" using assms by (cases "chunks_of MAX_CHUNK msg") (auto simp: chunks_of_step [of msg] MAX_CHUNK_def)
  let ?n = "of_nat (length c) :: u16"
  have c: "chunk_ok c" using chunks_of_ok [of msg] cs by simp
  then have n: "?n \<noteq> 0" using chunk_len_at [OF c, of "[]" "[]"] by (auto simp: chunk_len_def chunk_bytes_def chunk_ok_def byte_simps)
  obtain a b where ab: "u16_be ?n = [a, b]" using length_be(1) [of ?n] by (auto simp: numeral_2_eq_2 length_Suc_conv)
  have "\<not> (a = 0 \<and> b = 0)" using n be_inverse(1) [of ?n] unfolding ab by (auto simp: be_u16_def le_u16_def)
  then show ?thesis by (auto simp: bolt_frame_chunks cs chunk_bytes_def ab)
qed

text \<open>What a client writes: keep-alives and framed messages.\<close>

definition client_bytes :: "(nat \<times> bytes) list \<Rightarrow> bytes" where
  "client_bytes ms = concat (map (\<lambda>(k, m). concat (replicate k [0, 0]) @ bolt_frame m []) ms)"

lemma client_bytes_Cons: "client_bytes ((k, m) # ms) = concat (replicate k [0, 0]) @ bolt_frame m [] @ client_bytes ms"
  by (simp add: client_bytes_def)

lemma drain_client:
  assumes "deframe (drop (keepalive_len unread) unread) = Inl FrameIncomplete"
  shows "\<forall>m\<in>snd ` set ms. m \<noteq> [] \<and> length m \<le> cap \<Longrightarrow>
    drain_messages cap (client_bytes ms @ unread) = (map (decode_message \<circ> snd) ms, False, drop (keepalive_len unread) unread)"
proof (induction ms)
  case Nil
  then show ?case using assms by (simp add: client_bytes_def drain_messages.simps [of cap unread])
next
  case (Cons km ms)
  obtain k m where km: "km = (k, m)" by (cases km)
  have m: "m \<noteq> []" "length m \<le> cap" using Cons.prems km by auto
  let ?buf = "client_bytes (km # ms) @ unread" and ?rest = "client_bytes ms @ unread"
  have b: "drop (keepalive_len ?buf) ?buf = bolt_frame m [] @ ?rest"
    by (simp add: km client_bytes_Cons keepalive_noops keepalive_frame [OF m(1)] length_noops)
  have "deframe (bolt_frame m [] @ ?rest) = Inr (m, length (bolt_frame m []))"
    using deframe_bolt_frame [OF m(1), of 0] by simp
  moreover have "drain_messages cap ?rest = (map (decode_message \<circ> snd) ms, False, drop (keepalive_len unread) unread)"
    using Cons by simp
  ultimately show ?case using m(2) unfolding drain_messages.simps [of cap ?buf] Let_def b by (simp add: km)
qed

lemma holds_reset_client:
  assumes "deframe (drop (keepalive_len unread) unread) = Inl FrameIncomplete"
  shows "\<forall>m\<in>snd ` set ms. m \<noteq> [] \<Longrightarrow>
    fst (holds_reset (pre @ client_bytes ms @ unread) (length pre)) \<longleftrightarrow> [0xB0, 0x0F] \<in> snd ` set ms"
proof (induction ms arbitrary: pre)
  case Nil
  then show ?case using assms by (subst holds_reset.simps) (simp add: client_bytes_def)
next
  case (Cons km ms)
  obtain k m where km: "km = (k, m)" by (cases km)
  have m: "m \<noteq> []" using Cons.prems km by auto
  let ?rest = "client_bytes ms @ unread" and ?pre = "pre @ concat (replicate k [0, 0]) @ bolt_frame m []"
  have d: "deframe (bolt_frame m [] @ ?rest) = Inr (m, length (bolt_frame m []))"
    using deframe_bolt_frame [OF m, of 0] by simp
  have ih: "fst (holds_reset (?pre @ ?rest) (length ?pre)) \<longleftrightarrow> [0xB0, 0x0F] \<in> snd ` set ms"
    using Cons.prems by (intro Cons.IH) simp
  have l: "length pre + keepalive_len (drop (length pre) (?pre @ ?rest)) = length pre + 2 * k"
    by (simp add: keepalive_noops keepalive_frame [OF m])
  have dr: "drop (length pre + 2 * k) (?pre @ ?rest) = bolt_frame m [] @ ?rest" by (simp add: length_noops)
  have n: "length ?pre = length pre + 2 * k + length (bolt_frame m [])" by (simp add: length_noops)
  have "fst (holds_reset (?pre @ ?rest) (length pre)) \<longleftrightarrow>
      m = [0xB0, 0x0F] \<or> fst (holds_reset (?pre @ ?rest) (length pre + 2 * k + length (bolt_frame m [])))"
    unfolding holds_reset.simps [of "?pre @ ?rest" "length pre"] Let_def l dr d by (simp add: case_prod_unfold)
  then have "fst (holds_reset (?pre @ ?rest) (length pre)) \<longleftrightarrow> m = [0xB0, 0x0F] \<or> [0xB0, 0x0F] \<in> snd ` set ms"
    using ih unfolding n by blast
  then show ?case by (auto simp: km client_bytes_Cons)
qed

lemma long_reset: "decode_message [0xDC, 0x00, 0x0F] = Inr Reset"
proof -
  have h: "has [0xDC, 0x00, 0x0F] 0 [0xDC]" by (simp add: has_def)
  have "ps_unpack [0xDC, 0x00, 0x0F] = Inr (PStruct 0x0F [], 3)"
  proof -
    have l: "slice_ok [0xDC, 0x00, 0x0F]" by (simp add: USIZE_MAX_def)
    have "ps_uint [0xDC, 0x00, 0x0F] 1 1 = Inr (0, 2)" "ps_struct_body [0xDC, 0x00, 0x0F] 0 0 2 = Inr (PStruct 0x0F [], 3)"
      by (simp_all add: ps_uint_def ps_struct_body_def ps_byte_def ps_take_def check_count_def USIZE_MAX_def ps_items.simps)
    then show ?thesis using ps_value_step [OF l h, of 0] by (simp add: ps_unpack_def)
  qed
  then show ?thesis
    by (simp add: decode_message_def TAG_HELLO_def TAG_GOODBYE_def TAG_RESET_def expect_no_fields_def)
qed

text \<open>C38: the buffer gives back exactly the messages the client framed, through any keep-alives, in order and each decoded, and keeps the
  unfinished bytes behind them. The scan that runs while a batch is handled notices a \<open>RESET\<close> only in its two-byte encoding: a structure
  of the longer form with tag \<open>0x0F\<close> decodes to a \<open>RESET\<close> all the same and is not noticed.\<close>

theorem buffer_gives_messages_back:
  assumes "\<forall>m\<in>snd ` set ms. m \<noteq> [] \<and> length m \<le> cap" "deframe (drop (keepalive_len unread) unread) = Inl FrameIncomplete"
  shows "drain_messages cap (client_bytes ms @ unread) = (map (decode_message \<circ> snd) ms, False, drop (keepalive_len unread) unread)
   \<and> (fst (holds_reset (client_bytes ms @ unread) 0) \<longleftrightarrow> [0xB0, 0x0F] \<in> snd ` set ms)
   \<and> decode_message [0xDC, 0x00, 0x0F] = Inr Reset"
  using drain_client [OF assms(2,1)] holds_reset_client [OF assms(2), of ms "[]"] assms(1) long_reset by auto

theorem buffer_gives_messages_back_witness:
  "drain_messages 8 (client_bytes [(1, [0xDC, 0x00, 0x0F])] @ [0]) = ([Inr Reset], False, [0])
   \<and> \<not> fst (holds_reset (client_bytes [(1, [0xDC, 0x00, 0x0F])] @ [0]) 0)"
proof -
  have "deframe [0] = Inl FrameIncomplete" by (simp add: deframe_def deframe_loop_step [of "[0]"])
  then show ?thesis using buffer_gives_messages_back [of "[(1, [0xDC, 0x00, 0x0F])]" 8 "[0]"] by simp
qed

section \<open>A store to try the properties on\<close>

text \<open>Transactions and results are numbers: the world holds the open transactions and the next name; a result is the number of its rows
  left. Committing gives the name as the sequence number.\<close>

definition try_store :: "(nat, nat, nat list \<times> nat) backend" where
  "try_store = \<lparr> tx_rollback = (\<lambda>tx (open, n). (removeAll tx open, n)),
     tx_commit = (\<lambda>tx (open, n). (Inr (of_nat tx), (removeAll tx open, n))),
     cur_fields = (\<lambda>_. [''x'']),
     cur_take = (\<lambda>cur limit _. let k = (case limit of None \<Rightarrow> cur | Some n \<Rightarrow> min n cur) in (Inr (replicate k [PNull]), cur - k)),
     cur_discard = (\<lambda>cur limit. case limit of None \<Rightarrow> 0 | Some n \<Rightarrow> cur - n),
     cur_has_more = (\<lambda>cur. cur \<noteq> 0), cur_summary = (\<lambda>_. []),
     sv_begin = (\<lambda>_ _ (open, n). (Inr (Suc (foldr max open n)), (Suc (foldr max open n) # open, Suc n))),
     sv_run_auto_commit = (\<lambda>_ _ w. (Inr 2, w)),
     sv_run_in_tx = (\<lambda>_ tx _ w. (Inr 1, tx, w)) \<rparr>"

definition try_now :: "authenticator \<Rightarrow> nat \<Rightarrow> moment" where
  "try_now a t = \<lparr> mo_now = t, mo_later = t, mo_elapsed = 0, mo_raised = False, mo_auth = a \<rparr>"

abbreviation try_conn :: "(nat, nat) connection" where
  "try_conn \<equiv> conn_new 60 ''bolt-1'' (5, 4) None True"

abbreviation try_hello :: "nat \<Rightarrow> moment \<times> bool \<times> (bolt_error + client_message)" where
  "try_hello t \<equiv> (try_now (auth_new None []) t, False, Inr (Hello \<lparr> user_agent = None, auth = NoAuth \<rparr>))"

abbreviation try_begin :: "nat \<Rightarrow> moment \<times> bool \<times> (bolt_error + client_message)" where
  "try_begin t \<equiv> (try_now (auth_new None []) t, False, Inr (Other Begin [PMap []]))"

lemma try_ledger: "ledger try_store (\<lambda>w. set (fst w)) (\<lambda>tx. tx)"
proof -
  have "x \<in> set xs \<Longrightarrow> x \<le> foldr max xs n" for x n :: nat and xs by (induction xs) auto
  then have "Suc (foldr max xs n) \<notin> set xs" for xs and n :: nat by (metis Suc_n_not_le_n)
  then show ?thesis by (auto simp: ledger_def try_store_def)
qed

lemma try_begin_request: "begin_from_fields [PMap []] = Inr (Inr \<lparr> br_database = None, br_bookmarks = [], br_read_only = False \<rparr>)"
  by (simp add: db_field_def bookmarks_field_def mode_field_def tx_timeout_field_def tx_metadata_field_def imp_user_field_def map_get_def)

lemma try_round:
  "\<exists>c. serve_round try_store (\<lambda>b. b) ''1'' [try_hello 5, try_begin 6] try_conn ([], 3)
     = Some ([hello_success ''1'' ''bolt-1'', Success []], c, ([4], 4)) \<and> c_state c = InTx 4 6 6 []"
  by (simp add: serve_round_def handle_item_def handle_at_def check_timeout_def conn_new_def handle_connected_def authenticate_def is_open_def
      auth_new_def try_now_def handle_active_def touch_def allows_def handle_begin_def recheck_key_def
      try_begin_request select_database_def enter_tx_def try_store_def Let_def del: begin_from_fields.simps)

lemma try_served:
  "\<exists>c. served try_store (\<lambda>b. b) ''1'' (try_conn, ([], 3)) 2 [hello_success ''1'' ''bolt-1'', Success []] (c, ([4], 4)) \<and> c_state c = InTx 4 6 6 []"
proof -
  obtain c where c: "serve_round try_store (\<lambda>b. b) ''1'' [try_hello 5, try_begin 6] try_conn ([], 3)
     = Some ([hello_success ''1'' ''bolt-1'', Success []], c, ([4], 4))" "c_state c = InTx 4 6 6 []" using try_round by blast
  have "c_state try_conn \<noteq> Defunct" by (simp add: conn_new_def)
  from served.turn [OF served.start serve_step.round [OF this c(1)]] c(2) show ?thesis by (auto simp: numeral_2_eq_2)
qed

theorem connection_answers_every_request_witness:
  "\<exists>c. served try_store (\<lambda>b. b) ''1'' (try_conn, ([], 3)) 2 [hello_success ''1'' ''bolt-1'', Success []] (c, ([4], 4)) \<and>
     conn_ok c \<and> answers [hello_success ''1'' ''bolt-1'', Success []] = 2"
proof -
  obtain c where c: "served try_store (\<lambda>b. b) ''1'' (try_conn, ([], 3)) 2 [hello_success ''1'' ''bolt-1'', Success []] (c, ([4], 4))"
    "c_state c = InTx 4 6 6 []" using try_served by blast
  then show ?thesis using connection_answers_every_request [OF c(1), of "[]"] by auto
qed

theorem no_transaction_leaks_witness:
  "\<exists>c. served try_store (\<lambda>b. b) ''1'' (try_conn, ([], 3)) 2 [hello_success ''1'' ''bolt-1'', Success []] (c, ([4], 4)) \<and>
     {4} = held (\<lambda>tx. tx) c"
proof -
  obtain c where c: "served try_store (\<lambda>b. b) ''1'' (try_conn, ([], 3)) 2 [hello_success ''1'' ''bolt-1'', Success []] (c, ([4], 4))"
    using try_served by blast
  then show ?thesis using no_transaction_leaks [OF try_ledger c] by auto
qed

abbreviation try_in_tx :: "(nat, nat) connection" where
  "try_in_tx \<equiv> try_conn \<lparr> c_state := InTx 4 6 6 [], c_identity := Some Full, c_auth_token := Some (Bearer ''old'') \<rparr>"

theorem reset_recovers_witness:
  "\<exists>c'. serve_round try_store (\<lambda>b. b) ''1'' [try_begin 7, (try_now (auth_new None []) 8, False, Inr Reset)] try_in_tx ([4], 4)
     = Some ([Ignored, Success []], c', ([], 4)) \<and> c_state c' = Ready"
  using reset_recovers [of try_in_tx "[try_begin 7]" try_store "\<lambda>b. b" "''1''" "try_now (auth_new None []) 8" False "([4], 4)"]
  by (auto simp: passed_over_def before_reset_def rolled_back_def conn_new_def try_store_def)

theorem store_needs_authentication_witness:
  "\<exists>out c'. handle_item try_store (\<lambda>b. b) ''1'' (try_now (auth_new None []) 5) False (Inr (Other Begin [PMap []])) try_conn ([], 3)
     = Some (out, c', ([], 3)) \<and> c_state c' = Defunct"
  using store_needs_authentication [of try_conn try_store "\<lambda>b. b" "''1''" "try_now (auth_new None []) 5" False "Inr (Other Begin [PMap []])" "([], 3)"]
  by (auto simp: conn_new_def idle_state_def)

theorem revoked_key_stops_transaction_witness:
  "\<exists>reply c'. handle_item try_store (\<lambda>b. b) ''1'' (try_now (auth_new (Some ''new'') []) 9) False (Inr (Other Commit [])) try_in_tx ([4], 4)
     = Some ([reply], c', ([], 4)) \<and> (reply = Ignored \<or> (\<exists>err. reply = Failure err)) \<and> idle_state (c_state c')"
proof -
  have "authenticate (\<lambda>b. b) (mo_auth (try_now (auth_new (Some ''new'') []) 9)) (Bearer ''old'') \<noteq> Inr Full" by code_simp
  from revoked_key_stops_transaction [of try_in_tx 4 6 6 "[]" "Bearer ''old''" Full "\<lambda>b. b", OF _ _ _ this, of Commit try_store "''1''" False "[]" "([4], 4)"]
  show ?thesis by (simp add: try_store_def conn_new_def)
qed

end
