(* ===== verification/Bolt_Values.thy ===== *)
theory Bolt_Values
  imports Bolt_Requests
begin

text \<open>
  Engine values over Bolt: what a result value is on the wire (\<open>pack_value\<close> of \<open>crates/bolt/src/messages/run.rs\<close>) and what a
  parameter structure stands for (\<open>param_value\<close> there, \<open>crates/bolt/src/messages/values.rs\<close>). Values hold integers of the width of
  their field; a wire integer is a 64-bit word.
\<close>

section \<open>Structures\<close>

definition TAG_UNBOUND_RELATIONSHIP :: u8 where "TAG_UNBOUND_RELATIONSHIP = 0x72"
definition BOLT_TAG_DATE :: u8 where "BOLT_TAG_DATE = 0x44"
definition BOLT_TAG_LOCAL_DATE_TIME :: u8 where "BOLT_TAG_LOCAL_DATE_TIME = 0x64"
definition BOLT_TAG_DATE_TIME :: u8 where "BOLT_TAG_DATE_TIME = 0x49"
definition BOLT_TAG_LEGACY_DATE_TIME :: u8 where "BOLT_TAG_LEGACY_DATE_TIME = 0x46"
definition BOLT_TAG_DATE_TIME_ZONE_ID :: u8 where "BOLT_TAG_DATE_TIME_ZONE_ID = 0x69"
definition BOLT_TAG_LEGACY_DATE_TIME_ZONE_ID :: u8 where "BOLT_TAG_LEGACY_DATE_TIME_ZONE_ID = 0x66"
definition BOLT_TAG_DURATION :: u8 where "BOLT_TAG_DURATION = 0x45"
definition BOLT_TAG_TIME :: u8 where "BOLT_TAG_TIME = 0x54"
definition BOLT_TAG_LOCAL_TIME :: u8 where "BOLT_TAG_LOCAL_TIME = 0x74"
definition BOLT_TAG_POINT_2D :: u8 where "BOLT_TAG_POINT_2D = 0x58"
definition BOLT_TAG_POINT_3D :: u8 where "BOLT_TAG_POINT_3D = 0x59"
definition WIRE_MICROS_PER_SECOND :: int where "WIRE_MICROS_PER_SECOND = 1000000"
definition WIRE_NANOS_PER_MICRO :: int where "WIRE_NANOS_PER_MICRO = 1000"
definition WIRE_NANOS_PER_SECOND :: int where "WIRE_NANOS_PER_SECOND = 1000000000"
definition WIRE_MAX_OFFSET_SECONDS :: int where "WIRE_MAX_OFFSET_SECONDS = 64800"

lemmas tag_defs = TAG_UNBOUND_RELATIONSHIP_def BOLT_TAG_DATE_def BOLT_TAG_LOCAL_DATE_TIME_def BOLT_TAG_DATE_TIME_def BOLT_TAG_LEGACY_DATE_TIME_def
  BOLT_TAG_DATE_TIME_ZONE_ID_def BOLT_TAG_LEGACY_DATE_TIME_ZONE_ID_def BOLT_TAG_DURATION_def BOLT_TAG_TIME_def BOLT_TAG_LOCAL_TIME_def BOLT_TAG_POINT_2D_def
  BOLT_TAG_POINT_3D_def TAG_NODE_def TAG_RELATIONSHIP_def TAG_PATH_def

lemmas unit_defs = WIRE_MICROS_PER_SECOND_def WIRE_NANOS_PER_MICRO_def WIRE_NANOS_PER_SECOND_def WIRE_MAX_OFFSET_SECONDS_def

type_synonym version = "u8 \<times> u8"

definition uses_utc_date_time :: "version \<Rightarrow> bool" where "uses_utc_date_time version \<longleftrightarrow> version \<ge> (5, 0)"

definition bad_param :: "string \<Rightarrow> err_text \<Rightarrow> bolt_error" where
  "bad_param name why = Invalid ([Lit ''parameter '', Quoted name, Lit '': ''] @ why)"

fun describe_kind :: "pack_value \<Rightarrow> string" where
  "describe_kind PNull = ''null''"
| "describe_kind (PBool _) = ''boolean''"
| "describe_kind (PInt _) = ''integer''"
| "describe_kind (PFloat _) = ''float''"
| "describe_kind (PBytes _) = ''bytes''"
| "describe_kind (PString _) = ''string''"
| "describe_kind (PList _) = ''list''"
| "describe_kind (PMap _) = ''map''"
| "describe_kind (PStruct _ _) = ''structure''"

fun join :: "string \<Rightarrow> string list \<Rightarrow> string" where
  "join sep [] = []"
| "join sep [x] = x"
| "join sep (x # xs) = x @ sep @ join sep xs"

definition describe :: "pack_value list \<Rightarrow> string" where
  "describe flds = ''('' @ join '', '' (map describe_kind flds) @ '')''"

definition ints :: "nat \<Rightarrow> string \<Rightarrow> pack_value list \<Rightarrow> string \<Rightarrow> bolt_error + int list" where
  "ints n name flds kind =
     (if length flds = n \<and> list_all (\<lambda>f. case f of PInt _ \<Rightarrow> True | _ \<Rightarrow> False) flds
      then Inr (map (\<lambda>f. case f of PInt i \<Rightarrow> sint i | _ \<Rightarrow> 0) flds)
      else Inl (bad_param name [Lit (''malformed '' @ kind @ '' structure: expected '' @ show_nat n @ '' integer field''
        @ (if n = 1 then '''' else ''s'') @ '', got '' @ describe flds)]))"

definition out_of_range :: "string \<Rightarrow> string \<Rightarrow> string \<Rightarrow> bolt_error" where
  "out_of_range name kind why = bad_param name [Lit (kind @ '' is out of range: '' @ why)]"

definition or_range :: "string \<Rightarrow> string \<Rightarrow> string \<Rightarrow> int option \<Rightarrow> bolt_error + int" where
  "or_range name kind why r = (case r of Some i \<Rightarrow> Inr i | None \<Rightarrow> Inl (out_of_range name kind why))"

definition micros :: "string \<Rightarrow> string \<Rightarrow> int \<Rightarrow> int \<Rightarrow> bolt_error + int" where
  "micros name kind seconds nanos =
     (if \<not> (0 \<le> nanos \<and> nanos < WIRE_NANOS_PER_SECOND)
      then Inl (bad_param name [Lit (''malformed '' @ kind @ '' structure: nanoseconds '' @ show_int nanos @ '' are outside 0..=999999999'')])
      else if nanos mod WIRE_NANOS_PER_MICRO \<noteq> 0
      then Inl (bad_param name [Lit (kind @ '' has sub-microsecond precision ('' @ show_int nanos
        @ '' ns); mushroomdb keeps microseconds and does not round'')])
      else or_range name kind ''the microsecond count overflows 64 bits'' (try_i64 (seconds * WIRE_MICROS_PER_SECOND + nanos div WIRE_NANOS_PER_MICRO)))"

definition check_offset :: "string \<Rightarrow> int \<Rightarrow> bolt_error + int" where
  "check_offset name offset =
     (if \<bar>offset\<bar> > \<bar>WIRE_MAX_OFFSET_SECONDS\<bar>
      then Inl (out_of_range name ''DateTime'' (''UTC offset '' @ show_int offset @ '' s is beyond '' @ [CHR 0xC2, CHR 0xB1] @ ''18:00''))
      else Inr offset)"

definition date_time :: "string \<Rightarrow> int \<Rightarrow> int \<Rightarrow> int \<Rightarrow> bolt_error + val" where
  "date_time name seconds_utc nanos offset =
     and_then (check_offset name offset) (\<lambda>offset_seconds.
     and_then (micros name ''DateTime'' seconds_utc nanos) (\<lambda>micros_utc. Inr (VDateTime micros_utc offset_seconds)))"

definition unsupported_name :: "u8 \<Rightarrow> string option" where
  "unsupported_name tag =
     (if tag = BOLT_TAG_DATE_TIME_ZONE_ID \<or> tag = BOLT_TAG_LEGACY_DATE_TIME_ZONE_ID
      then Some ''DateTime with a named time zone (only a UTC offset is kept)''
      else if tag = BOLT_TAG_TIME then Some ''Time'' else if tag = BOLT_TAG_LOCAL_TIME then Some ''LocalTime''
      else if tag = BOLT_TAG_POINT_2D then Some ''Point2D'' else if tag = BOLT_TAG_POINT_3D then Some ''Point3D''
      else if tag = TAG_NODE then Some ''Node'' else if tag = TAG_RELATIONSHIP then Some ''Relationship''
      else if tag = TAG_UNBOUND_RELATIONSHIP then Some ''UnboundRelationship''
      else if tag = TAG_PATH then Some ''Path'' else None)"

text \<open>\<open>local_seconds.checked_sub\<close> is the difference when it fits 64 bits.\<close>

definition struct_param :: "string \<Rightarrow> u8 \<Rightarrow> pack_value list \<Rightarrow> version \<Rightarrow> bolt_error + val" where
  "struct_param name tag flds version =
     (let utc = uses_utc_date_time version in
      if tag = BOLT_TAG_DATE then
        and_then (ints 1 name flds ''Date'') (\<lambda>xs.
        and_then (or_range name ''Date'' ''the day count does not fit 32 bits'' (try_i32 (xs ! 0))) (\<lambda>days. Inr (VDate days)))
      else if tag = BOLT_TAG_LOCAL_DATE_TIME then
        and_then (ints 2 name flds ''LocalDateTime'') (\<lambda>xs.
        and_then (micros name ''LocalDateTime'' (xs ! 0) (xs ! 1)) (\<lambda>us. Inr (VLocalDateTime us)))
      else if tag = BOLT_TAG_DATE_TIME \<and> utc then
        and_then (ints 3 name flds ''DateTime'') (\<lambda>xs. date_time name (xs ! 0) (xs ! 1) (xs ! 2))
      else if tag = BOLT_TAG_LEGACY_DATE_TIME \<and> \<not> utc then
        and_then (ints 3 name flds ''DateTime'') (\<lambda>xs.
        and_then (check_offset name (xs ! 2)) (\<lambda>offset_checked.
        and_then (or_range name ''DateTime'' ''the instant overflows'' (try_i64 (xs ! 0 - offset_checked))) (\<lambda>seconds.
        date_time name seconds (xs ! 1) (xs ! 2))))
      else if tag = BOLT_TAG_DATE_TIME \<or> tag = BOLT_TAG_LEGACY_DATE_TIME then
        Inl (bad_param name [Lit (''DateTime structure 0x'' @ hex2 tag @ '' is not the form Bolt '' @ show_nat (unat (fst version)) @ ''.''
          @ show_nat (unat (snd version)) @ '' uses (expected 0x'' @ hex2 (if utc then BOLT_TAG_DATE_TIME else BOLT_TAG_LEGACY_DATE_TIME) @ '')'')])
      else if tag = BOLT_TAG_DURATION then
        and_then (ints 4 name flds ''Duration'') (\<lambda>xs.
        and_then (or_range name ''Duration'' ''months do not fit 32 bits'' (try_i32 (xs ! 0))) (\<lambda>months.
        and_then (or_range name ''Duration'' ''days do not fit 32 bits'' (try_i32 (xs ! 1))) (\<lambda>days.
        and_then (or_range name ''Duration'' ''seconds and nanoseconds overflow 64 bits'' (try_i64 (xs ! 2 * WIRE_NANOS_PER_SECOND + xs ! 3)))
          (\<lambda>nanos. Inr (VDuration months days nanos)))))
      else Inl (bad_param name (case unsupported_name tag of
          Some kind \<Rightarrow> [Lit (kind @ '' values are not supported'')]
        | None \<Rightarrow> [Lit (''unknown structure tag 0x'' @ hex2 tag)])))"

section \<open>Parameters and results\<close>

lemma try_map_cong [fundef_cong]: "xs = ys \<Longrightarrow> (\<And>x. x \<in> set ys \<Longrightarrow> f x = g x) \<Longrightarrow> try_map f xs = try_map g ys"
  by (induction ys arbitrary: xs) auto

text \<open>Collecting entries into a \<open>BTreeMap\<close>: the last value of a key wins.\<close>

definition btree_collect :: "(string \<times> 'v) list \<Rightarrow> (string, 'v) omap" where
  "btree_collect es = foldl (\<lambda>m (k, v). om_insert k v m) [] es"

fun param_value :: "string \<Rightarrow> pack_value \<Rightarrow> version \<Rightarrow> nat \<Rightarrow> bolt_error + val" where
  "param_value name v version depth =
     (if depth > PS_MAX_DEPTH then Inl (Invalid [Lit ''parameter '', Quoted name, Lit '' is nested too deeply''])
      else case v of
        PNull \<Rightarrow> Inr VNull
      | PBool b \<Rightarrow> Inr (VBool b)
      | PInt i \<Rightarrow> Inr (VInt (sint i))
      | PFloat f \<Rightarrow> Inr (VFloat f)
      | PString s \<Rightarrow> Inr (VStr s)
      | PBytes b \<Rightarrow> Inr (VBinary b)
      | PList items \<Rightarrow> and_then (try_map (\<lambda>item. param_value name item version (depth + 1)) items) (\<lambda>vs. Inr (VList vs))
      | PMap entries \<Rightarrow>
          and_then (try_map (\<lambda>(k, v). and_then (param_value name v version (depth + 1)) (\<lambda>x. Inr (k, x))) entries)
            (\<lambda>es. Inr (VMap (btree_collect es)))
      | PStruct tag flds \<Rightarrow> struct_param name tag flds version)"

declare param_value.simps [simp del]

definition run_params :: "run_request \<Rightarrow> version \<Rightarrow> bolt_error + (string, val) omap" where
  "run_params r version =
     and_then (try_map (\<lambda>(name, v). and_then (param_value name v version 0) (\<lambda>x. Inr (name, x))) (rr_parameters r))
       (\<lambda>es. Inr (btree_collect es))"

abbreviation wire_int :: "int \<Rightarrow> pack_value" where "wire_int i \<equiv> PInt (of_int i)"

fun value_to_pack :: "val \<Rightarrow> version \<Rightarrow> nat \<Rightarrow> bolt_error + pack_value" where
  "value_to_pack v version depth =
     (if depth > PS_MAX_DEPTH
      then Inl (TooLarge [Lit ''result value cannot be sent over Bolt: nesting exceeds the PackStream depth limit''])
      else case v of
        VInt i \<Rightarrow> Inr (wire_int i)
      | VFloat f \<Rightarrow> Inr (PFloat f)
      | VStr s \<Rightarrow> Inr (PString s)
      | VBool b \<Rightarrow> Inr (PBool b)
      | VList items \<Rightarrow> and_then (try_map (\<lambda>v. value_to_pack v version (depth + 1)) items) (\<lambda>ps. Inr (PList ps))
      | VMap entries \<Rightarrow>
          and_then (try_map (\<lambda>(k, v). and_then (value_to_pack v version (depth + 1)) (\<lambda>p. Inr (k, p))) entries) (\<lambda>ps. Inr (PMap ps))
      | VBinary b \<Rightarrow> Inr (PBytes b)
      | VNull \<Rightarrow> Inr PNull
      | VDate days \<Rightarrow> Inr (PStruct BOLT_TAG_DATE [wire_int days])
      | VLocalDateTime us \<Rightarrow>
          Inr (PStruct BOLT_TAG_LOCAL_DATE_TIME [wire_int (us div WIRE_MICROS_PER_SECOND), wire_int (us mod WIRE_MICROS_PER_SECOND * 1000)])
      | VDateTime micros_utc offset_seconds \<Rightarrow>
          let seconds = micros_utc div WIRE_MICROS_PER_SECOND; nanos = micros_utc mod WIRE_MICROS_PER_SECOND * 1000 in
          Inr (if uses_utc_date_time version then PStruct BOLT_TAG_DATE_TIME [wire_int seconds, wire_int nanos, wire_int offset_seconds]
               else PStruct BOLT_TAG_LEGACY_DATE_TIME [wire_int (seconds + offset_seconds), wire_int nanos, wire_int offset_seconds])
      | VDuration months days nanos \<Rightarrow>
          Inr (PStruct BOLT_TAG_DURATION [wire_int months, wire_int days, wire_int (nanos div WIRE_NANOS_PER_SECOND), wire_int (nanos mod WIRE_NANOS_PER_SECOND)]))"

declare value_to_pack.simps [simp del]

section \<open>Well-formed values\<close>

text \<open>A value of the engine: every integer in the range of its field, maps in key order, offsets within eighteen hours.\<close>

definition i32 :: "int \<Rightarrow> bool" where "i32 n \<longleftrightarrow> - (2 ^ 31) \<le> n \<and> n < 2 ^ 31"
definition i64 :: "int \<Rightarrow> bool" where "i64 n \<longleftrightarrow> - (2 ^ 63) \<le> n \<and> n < 2 ^ 63"

fun val_ok :: "val \<Rightarrow> bool" where
  "val_ok (VInt i) \<longleftrightarrow> i64 i"
| "val_ok (VList xs) \<longleftrightarrow> (\<forall>x\<in>set xs. val_ok x)"
| "val_ok (VMap es) \<longleftrightarrow> om_wf es \<and> (\<forall>(k, v)\<in>set es. val_ok v)"
| "val_ok (VDate d) \<longleftrightarrow> i32 d"
| "val_ok (VLocalDateTime us) \<longleftrightarrow> i64 us"
| "val_ok (VDateTime us offset) \<longleftrightarrow> i64 us \<and> \<bar>offset\<bar> \<le> WIRE_MAX_OFFSET_SECONDS"
| "val_ok (VDuration months days nanos) \<longleftrightarrow> i32 months \<and> i32 days \<and> i64 nanos"
| "val_ok _ \<longleftrightarrow> True"

fun val_depth :: "val \<Rightarrow> nat" where
  "val_depth (VList xs) = foldr max (map (\<lambda>x. Suc (val_depth x)) xs) 0"
| "val_depth (VMap es) = foldr max (map (\<lambda>(k, v). Suc (val_depth v)) es) 0"
| "val_depth _ = 0"

definition too_deep :: bolt_error where
  "too_deep = TooLarge [Lit ''result value cannot be sent over Bolt: nesting exceeds the PackStream depth limit'']"

lemma try_int [simp]: "try_i32 n = (if i32 n then Some n else None)" "try_i64 n = (if i64 n then Some n else None)"
  by (simp_all add: try_i32_def try_i64_def i32_def i64_def)

lemma sint_of_i64: "i64 n \<Longrightarrow> sint (of_int n :: u64) = n"
  by (simp add: i64_def signed_of_int signed_take_bit_int_eq_self)

lemma i64_sint [simp]: "i64 (sint (w :: u64))"
  using sint_ge [of w] sint_lt [of w] by (simp add: i64_def)

lemma i32_i64: "i32 n \<Longrightarrow> i64 n"
  by (auto simp: i32_def i64_def)

lemma try_map_inverse: "\<forall>x\<in>set xs. \<exists>y. f x = Inr y \<and> g y = Inr x \<Longrightarrow> \<exists>ys. try_map f xs = Inr ys \<and> try_map g ys = Inr xs"
proof (induction xs)
  case (Cons x xs)
  then obtain y ys where "f x = Inr y" "g y = Inr x" "try_map f xs = Inr ys" "try_map g ys = Inr xs" by fastforce
  then show ?case by (intro exI [of _ "y # ys"]) simp
qed simp

lemma try_map_refused: "\<forall>x\<in>set xs. f x = Inl e \<or> (\<exists>y. f x = Inr y) \<Longrightarrow> x \<in> set xs \<Longrightarrow> f x = Inl e \<Longrightarrow> try_map f xs = Inl e"
proof (induction xs)
  case (Cons a xs)
  show ?case
  proof (cases "f a = Inl e")
    case False
    then have "x \<in> set xs" "\<exists>y. f a = Inr y" using Cons.prems by auto
    then show ?thesis using Cons by auto
  qed simp
qed simp

lemma btree_collect_wf: "om_wf es \<Longrightarrow> btree_collect es = es"
proof -
  have "om_wf (acc @ es) \<Longrightarrow> foldl (\<lambda>m (k, v). om_insert k v m) acc es = acc @ es" for acc
  proof (induction es arbitrary: acc)
    case (Cons e es)
    obtain k v where e: "e = (k, v)" by (cases e)
    have "om_insert k v acc = acc @ [(k, v)]"
      using om_insert_right_of [of acc k v "[]"] Cons.prems e by (force simp: strict_simps)
    then show ?case using Cons.IH [of "acc @ [(k, v)]"] Cons.prems e by simp
  qed simp
  from this [of "[]"] show "om_wf es \<Longrightarrow> btree_collect es = es" by (simp add: btree_collect_def)
qed

lemma btree_collect_ok: "om_wf (btree_collect es)" "set (btree_collect es) \<subseteq> set es"
proof -
  have "om_wf acc \<Longrightarrow> om_wf (foldl (\<lambda>m (k, v). om_insert k v m) acc es) \<and> set (foldl (\<lambda>m (k, v). om_insert k v m) acc es) \<subseteq> set acc \<union> set es"
    for acc :: "(string, 'a) omap"
  proof (induction es arbitrary: acc)
    case (Cons e es)
    obtain k v where e: "e = (k, v)" by (cases e)
    have "set (om_insert k v acc) \<subseteq> insert (k, v) (set acc)" by (induction acc) auto
    then show ?case using Cons.IH [of "om_insert k v acc"] Cons.prems e by auto
  qed simp
  from this [of "[]"] show "om_wf (btree_collect es)" "set (btree_collect es) \<subseteq> set es" by (simp_all add: btree_collect_def)
qed

section \<open>Round trips\<close>

lemma i64_parts:
  assumes "i64 us"
  shows "i64 (us div WIRE_MICROS_PER_SECOND)" "i64 (us mod WIRE_MICROS_PER_SECOND * 1000)" "i64 (us div WIRE_NANOS_PER_SECOND)" "i64 (us mod WIRE_NANOS_PER_SECOND)"
    "\<bar>offset\<bar> \<le> WIRE_MAX_OFFSET_SECONDS \<Longrightarrow> i64 (us div WIRE_MICROS_PER_SECOND + offset)" "\<bar>offset\<bar> \<le> WIRE_MAX_OFFSET_SECONDS \<Longrightarrow> i64 offset"
proof -
  have m: "0 \<le> us mod 1000000" "us mod 1000000 < 1000000" "0 \<le> us mod 1000000000" "us mod 1000000000 < 1000000000" by simp_all
  have d: "us = 1000000 * (us div 1000000) + us mod 1000000" "us = 1000000000 * (us div 1000000000) + us mod 1000000000" by simp_all
  have u: "- 9223372036854775808 \<le> us" "us < 9223372036854775808" using assms by (simp_all add: i64_def)
  note facts = m d u
  show "i64 (us div WIRE_MICROS_PER_SECOND)" unfolding i64_def unit_defs using facts by (intro conjI) (simp; linarith)+
  show "i64 (us mod WIRE_MICROS_PER_SECOND * 1000)" unfolding i64_def unit_defs using m by (intro conjI) (simp; linarith)+
  show "i64 (us div WIRE_NANOS_PER_SECOND)" unfolding i64_def unit_defs using facts by (intro conjI) (simp; linarith)+
  show "i64 (us mod WIRE_NANOS_PER_SECOND)" unfolding i64_def unit_defs using m by (intro conjI) (simp; linarith)+
  show "\<bar>offset\<bar> \<le> WIRE_MAX_OFFSET_SECONDS \<Longrightarrow> i64 offset" unfolding i64_def unit_defs by (simp add: abs_le_iff)
  show "i64 (us div WIRE_MICROS_PER_SECOND + offset)" if "\<bar>offset\<bar> \<le> WIRE_MAX_OFFSET_SECONDS"
  proof -
    have "- 64800 \<le> offset" "offset \<le> 64800" using that by (simp_all add: unit_defs abs_le_iff)
    moreover have "- 9223372036855 \<le> us div 1000000" "us div 1000000 < 9223372036855" using facts by linarith+
    ultimately show ?thesis by (simp add: i64_def unit_defs)
  qed
qed

lemma micros_read:
  assumes "i64 us"
  shows "micros name kind (us div WIRE_MICROS_PER_SECOND) (us mod WIRE_MICROS_PER_SECOND * 1000) = Inr us"
proof -
  have "us mod 1000000 * 1000 < 1000000000" "us mod 1000000 * 1000 mod 1000 = 0" "us mod 1000000 * 1000 div 1000 = us mod 1000000" by simp_all
  then show ?thesis using assms by (simp add: micros_def unit_defs or_range_def)
qed

lemma check_offset_ok: "\<bar>offset\<bar> \<le> WIRE_MAX_OFFSET_SECONDS \<Longrightarrow> check_offset name offset = Inr offset"
  by (simp add: check_offset_def WIRE_MAX_OFFSET_SECONDS_def)

lemma date_time_read:
  "i64 us \<Longrightarrow> \<bar>offset\<bar> \<le> WIRE_MAX_OFFSET_SECONDS \<Longrightarrow>
   date_time name (us div WIRE_MICROS_PER_SECOND) (us mod WIRE_MICROS_PER_SECOND * 1000) offset = Inr (VDateTime us offset)"
  by (simp add: date_time_def check_offset_ok micros_read)

fun temporal :: "val \<Rightarrow> bool" where
  "temporal (VDate _) = True" | "temporal (VLocalDateTime _) = True" | "temporal (VDateTime _ _) = True" | "temporal (VDuration _ _ _) = True"
| "temporal _ = False"

lemma temporal_roundtrip:
  assumes "val_ok v" "temporal v" "d \<le> PS_MAX_DEPTH"
  shows "\<exists>p. value_to_pack v ver d = Inr p \<and> param_value name p ver d = Inr v"
proof (cases v)
  case (VDate days)
  then show ?thesis using assms
    by (simp add: value_to_pack.simps [of "VDate days"] param_value.simps struct_param_def ints_def tag_defs or_range_def sint_of_i64 i32_i64)
next
  case (VLocalDateTime us)
  then show ?thesis using assms i64_parts [of us]
    by (simp add: value_to_pack.simps [of "VLocalDateTime us"] param_value.simps struct_param_def ints_def tag_defs sint_of_i64 micros_read del: of_int_mult of_int_add)
next
  case (VDateTime us offset)
  then have o: "i64 us" "\<bar>offset\<bar> \<le> WIRE_MAX_OFFSET_SECONDS" using assms by simp_all
  note s = sint_of_i64 [OF i64_parts(1) [OF o(1)]] sint_of_i64 [OF i64_parts(2) [OF o(1)]] sint_of_i64 [OF i64_parts(5) [OF o]]
    sint_of_i64 [OF i64_parts(6) [OF o]]
  show ?thesis using assms(3) VDateTime o s
    by (simp add: value_to_pack.simps [of "VDateTime us offset"] param_value.simps struct_param_def ints_def tag_defs date_time_read check_offset_ok
        or_range_def i64_parts Let_def del: of_int_mult of_int_add)
next
  case (VDuration months days nanos)
  then have o: "i32 months" "i32 days" "i64 nanos" using assms by simp_all
  note s = sint_of_i64 [OF i32_i64 [OF o(1)]] sint_of_i64 [OF i32_i64 [OF o(2)]] sint_of_i64 [OF i64_parts(3) [OF o(3)]]
    sint_of_i64 [OF i64_parts(4) [OF o(3)]]
  have "nanos div WIRE_NANOS_PER_SECOND * WIRE_NANOS_PER_SECOND + nanos mod WIRE_NANOS_PER_SECOND = nanos" by simp
  then show ?thesis using assms(3) VDuration o s
    by (simp add: value_to_pack.simps [of "VDuration months days nanos"] param_value.simps struct_param_def ints_def tag_defs or_range_def Let_def)
qed (use assms in simp_all)

text \<open>A value at a depth is carried when it packs and reads back, or is refused as nested too deeply.\<close>

definition carried :: "string \<Rightarrow> version \<Rightarrow> nat \<Rightarrow> val \<Rightarrow> bool" where
  "carried name ver d v \<longleftrightarrow>
     (if d + val_depth v \<le> PS_MAX_DEPTH then \<exists>p. value_to_pack v ver d = Inr p \<and> param_value name p ver d = Inr v
      else value_to_pack v ver d = Inl too_deep)"

lemma carried_pack: "carried name ver d v \<Longrightarrow> value_to_pack v ver d = Inl too_deep \<or> (\<exists>p. value_to_pack v ver d = Inr p)"
  by (auto simp: carried_def split: if_splits)

lemma carried_deep: "carried name ver d v \<Longrightarrow> \<not> d + val_depth v \<le> PS_MAX_DEPTH \<Longrightarrow> value_to_pack v ver d = Inl too_deep"
  by (simp add: carried_def)

lemma carried_read:
  "carried name ver d v \<Longrightarrow> d + val_depth v \<le> PS_MAX_DEPTH \<Longrightarrow> \<exists>p. value_to_pack v ver d = Inr p \<and> param_value name p ver d = Inr v"
  by (simp add: carried_def)

lemma too_deep_here: "PS_MAX_DEPTH < d \<Longrightarrow> carried name ver d v"
  by (simp add: carried_def value_to_pack.simps too_deep_def)

lemma carried_list:
  assumes c: "\<forall>x\<in>set xs. carried name ver (d + 1) x"
  shows "carried name ver d (VList xs)"
proof (cases "d \<le> PS_MAX_DEPTH")
  case d: True
  show ?thesis
  proof (cases "d + val_depth (VList xs) \<le> PS_MAX_DEPTH")
    case True
    then have "\<forall>x\<in>set xs. d + 1 + val_depth x \<le> PS_MAX_DEPTH" by (auto simp: foldr_max_le)
    then have "\<forall>x\<in>set xs. \<exists>p. value_to_pack x ver (d + 1) = Inr p \<and> param_value name p ver (d + 1) = Inr x"
      using c carried_read by blast
    from try_map_inverse [OF this] True d show ?thesis
      by (auto simp: carried_def value_to_pack.simps [of "VList xs"] param_value.simps [of _ "PList _"] not_less)
  next
    case False
    then obtain x where x: "x \<in> set xs" "\<not> d + 1 + val_depth x \<le> PS_MAX_DEPTH" using d by (auto simp: foldr_max_le)
    have "try_map (\<lambda>v. value_to_pack v ver (d + 1)) xs = Inl too_deep"
      using c carried_pack carried_deep x by (intro try_map_refused [OF _ x(1)]) blast+
    then show ?thesis using d False by (simp add: carried_def value_to_pack.simps [of "VList xs"] not_less)
  qed
qed (simp add: too_deep_here)

lemma carried_map:
  assumes "om_wf es" and c: "\<forall>e\<in>set es. carried name ver (d + 1) (snd e)"
  shows "carried name ver d (VMap es)"
proof (cases "d \<le> PS_MAX_DEPTH")
  case d: True
  let ?f = "\<lambda>(k, v). and_then (value_to_pack v ver (d + 1)) (\<lambda>p. Inr (k, p))"
    and ?g = "\<lambda>(k, v). and_then (param_value name v ver (d + 1)) (\<lambda>x. Inr (k, x))"
  show ?thesis
  proof (cases "d + val_depth (VMap es) \<le> PS_MAX_DEPTH")
    case True
    then have "\<forall>e\<in>set es. d + 1 + val_depth (snd e) \<le> PS_MAX_DEPTH" by (force simp: foldr_max_le)
    then have "\<forall>e\<in>set es. \<exists>p. value_to_pack (snd e) ver (d + 1) = Inr p \<and> param_value name p ver (d + 1) = Inr (snd e)"
      using c carried_read by blast
    then have "\<forall>e\<in>set es. \<exists>p. ?f e = Inr p \<and> ?g p = Inr e" by fastforce
    from try_map_inverse [OF this] True d assms(1) show ?thesis
      by (auto simp: carried_def value_to_pack.simps [of "VMap es"] param_value.simps [of _ "PMap _"] not_less btree_collect_wf)
  next
    case False
    then obtain e where e: "e \<in> set es" "\<not> d + 1 + val_depth (snd e) \<le> PS_MAX_DEPTH" using d by (force simp: foldr_max_le)
    have "?f x = Inl too_deep \<or> (\<exists>y. ?f x = Inr y)" if "x \<in> set es" for x
      using carried_pack [OF c [rule_format, OF that]] by (cases x) auto
    moreover have "?f e = Inl too_deep" using carried_deep [OF c [rule_format, OF e(1)] e(2)] by (cases e) simp
    ultimately have "try_map ?f es = Inl too_deep" by (intro try_map_refused [OF _ e(1)]) blast+
    then show ?thesis using d False by (simp add: carried_def value_to_pack.simps [of "VMap es"] not_less)
  qed
qed (simp add: too_deep_here)

lemma val_ok_carried: "val_ok v \<Longrightarrow> carried name ver d v"
proof (induction v arbitrary: d)
  case (VList xs)
  then show ?case by (intro carried_list) simp
next
  case (VMap es)
  have "carried name ver (d + 1) (snd e)" if "e \<in> set es" for e
    using VMap.IH [OF that, of "snd e" "d + 1"] VMap.prems that by (cases e) auto
  then show ?case using VMap.prems by (intro carried_map) auto
next
  case (VInt i)
  then show ?case by (simp add: carried_def value_to_pack.simps param_value.simps too_deep_def sint_of_i64)
qed (use temporal_roundtrip too_deep_here in
    \<open>auto simp: carried_def value_to_pack.simps [of "VFloat _"] value_to_pack.simps [of "VStr _"] value_to_pack.simps [of "VBool _"]
      value_to_pack.simps [of "VBinary _"] value_to_pack.simps [of VNull] param_value.simps too_deep_def\<close>)

text \<open>C33: every engine value is carried by Bolt both ways, in either protocol version: a well-formed value whose nesting leaves room is sent as
  a PackStream value that reads back, as a parameter, as the same value: dates, instants before and after the epoch, durations of any mix
  of signs and all integers included. A value nested past 128 levels is refused, and nothing else is.\<close>

theorem bolt_values_roundtrip:
  assumes "val_ok v"
  shows "(case value_to_pack v ver d of
            Inr p \<Rightarrow> param_value name p ver d = Inr v \<and> d + val_depth v \<le> PS_MAX_DEPTH
          | Inl err \<Rightarrow> err = too_deep \<and> d + val_depth v > PS_MAX_DEPTH)"
  using val_ok_carried [OF assms, of name ver d] by (auto simp: carried_def split: if_splits)

section \<open>What a parameter can be\<close>

lemma try_map_Inr: "try_map f xs = Inr ys \<Longrightarrow> y \<in> set ys \<Longrightarrow> \<exists>x\<in>set xs. f x = Inr y"
  by (induction xs arbitrary: ys) (auto simp: and_then_Inr_iff)

lemma or_range_Inr: "or_range name kind why r = Inr i \<longleftrightarrow> r = Some i"
  by (auto simp: or_range_def split: option.splits)

lemma micros_Inr: "micros name kind s n = Inr us \<Longrightarrow> i64 us"
  by (auto simp: micros_def or_range_Inr split: if_splits)

lemma check_offset_Inr: "check_offset name offset = Inr o' \<Longrightarrow> o' = offset \<and> \<bar>o'\<bar> \<le> WIRE_MAX_OFFSET_SECONDS"
  by (auto simp: check_offset_def WIRE_MAX_OFFSET_SECONDS_def split: if_splits)

lemma date_time_Inr: "date_time name s n offset = Inr v \<Longrightarrow> val_ok v \<and> val_depth v = 0"
  by (auto simp: date_time_def and_then_Inr_iff dest!: micros_Inr check_offset_Inr)

lemma struct_param_ok: "struct_param name tag flds ver = Inr v \<Longrightarrow> val_ok v \<and> val_depth v = 0"
  by (auto simp: struct_param_def Let_def and_then_Inr_iff or_range_Inr split: if_splits dest: micros_Inr date_time_Inr)

lemma param_value_ok:
  "param_value name p ver d = Inr v \<Longrightarrow> val_ok v \<and> d + val_depth v \<le> PS_MAX_DEPTH"
proof (induction p arbitrary: d v)
  case (PList ps)
  then obtain vs where d: "d \<le> PS_MAX_DEPTH" and vs: "try_map (\<lambda>p. param_value name p ver (d + 1)) ps = Inr vs" "v = VList vs"
    by (auto simp: param_value.simps [of _ "PList ps"] and_then_Inr_iff split: if_splits)
  have "val_ok x \<and> d + 1 + val_depth x \<le> PS_MAX_DEPTH" if "x \<in> set vs" for x
    using try_map_Inr [OF vs(1) that] PList.IH by blast
  then show ?case using d vs(2) by (auto simp: foldr_max_le)
next
  case (PMap es)
  let ?f = "\<lambda>(k, p). and_then (param_value name p ver (d + 1)) (\<lambda>x. Inr (k, x))"
  from PMap.prems obtain vs where d: "d \<le> PS_MAX_DEPTH" and vs: "try_map ?f es = Inr vs" "v = VMap (btree_collect vs)"
    by (auto simp: param_value.simps [of _ "PMap es"] and_then_Inr_iff split: if_splits)
  have "val_ok (snd x) \<and> d + 1 + val_depth (snd x) \<le> PS_MAX_DEPTH" if "x \<in> set (btree_collect vs)" for x
  proof -
    have "x \<in> set vs" using btree_collect_ok(2) that by blast
    from try_map_Inr [OF vs(1) this] obtain k p where kp: "(k, p) \<in> set es" "?f (k, p) = Inr x" by auto
    then have "param_value name p ver (d + 1) = Inr (snd x)" by (auto simp: and_then_Inr_iff)
    from PMap.IH [OF kp(1) _ this] show ?thesis by simp
  qed
  then show ?case using d vs(2) btree_collect_ok(1) [of vs] by (fastforce simp: foldr_max_le)
next
  case (PStruct t ps)
  then show ?case using struct_param_ok [of name t ps ver v] by (auto simp: param_value.simps [of _ "PStruct t ps"] split: if_splits)
qed (auto simp: param_value.simps split: if_splits)

text \<open>C34: whatever a client sends as the parameters of a statement, those that are accepted are values of the engine: every integer in the
  range of its field, offsets within eighteen hours, maps in key order without repeated keys, nested at most 128 levels; and the
  parameter names are in order without repetition.\<close>

theorem bolt_parameters_typed:
  assumes "run_params r ver = Inr ps"
  shows "om_wf ps \<and> (\<forall>(name, v)\<in>set ps. val_ok v \<and> val_depth v \<le> PS_MAX_DEPTH)"
proof -
  let ?f = "\<lambda>(name, v). and_then (param_value name v ver 0) (\<lambda>x. Inr (name, x))"
  obtain vs where vs: "try_map ?f (rr_parameters r) = Inr vs" "ps = btree_collect vs"
    using assms by (auto simp: run_params_def and_then_Inr_iff)
  have "val_ok v \<and> val_depth v \<le> PS_MAX_DEPTH" if "(name, v) \<in> set ps" for name v
  proof -
    have "(name, v) \<in> set vs" using btree_collect_ok(2) that vs(2) by blast
    from try_map_Inr [OF vs(1) this] obtain k p where "?f (k, p) = Inr (name, v)" by auto
    then have "param_value k p ver 0 = Inr v" by (auto simp: and_then_Inr_iff)
    then show ?thesis using param_value_ok by fastforce
  qed
  then show ?thesis using btree_collect_ok(1) [of vs] vs(2) by auto
qed

theorem bolt_values_roundtrip_witness:
  "value_to_pack (VLocalDateTime (- 1)) (5, 0) 0 = Inr (PStruct BOLT_TAG_LOCAL_DATE_TIME [PInt (- 1), PInt 999999000])
   \<and> param_value ''p'' (PStruct BOLT_TAG_LOCAL_DATE_TIME [PInt (- 1), PInt 999999000]) (5, 0) 0 = Inr (VLocalDateTime (- 1))"
proof -
  have p: "value_to_pack (VLocalDateTime (- 1)) (5, 0) 0 = Inr (PStruct BOLT_TAG_LOCAL_DATE_TIME [PInt (- 1), PInt 999999000])"
    by (simp add: value_to_pack.simps WIRE_MICROS_PER_SECOND_def)
  have "val_ok (VLocalDateTime (- 1))" by (simp add: i64_def)
  from bolt_values_roundtrip [OF this, where ver = "(5, 0)" and d = 0 and name = "''p''"] show ?thesis by (simp add: p)
qed

theorem bolt_parameters_typed_witness:
  "\<exists>ps. run_params \<lparr> rr_query = [], rr_parameters = [(''b'', PInt 1), (''a'', PNull), (''b'', PBool True)], rr_database = None, rr_bookmarks = [] \<rparr> (5, 0)
      = Inr ps \<and> ps = [(''a'', VNull), (''b'', VBool True)] \<and> om_wf ps"
proof -
  let ?r = "\<lparr> rr_query = [], rr_parameters = [(''b'', PInt 1), (''a'', PNull), (''b'', PBool True)], rr_database = None, rr_bookmarks = [] \<rparr>"
  have "run_params ?r (5, 0) = Inr [(''a'', VNull), (''b'', VBool True)]"
    by (simp add: run_params_def param_value.simps btree_collect_def)
  then show ?thesis using bolt_parameters_typed [of ?r "(5, 0)" "[(''a'', VNull), (''b'', VBool True)]"] by simp
qed

end
