(* ===== verification/Bolt_Streams.thy ===== *)
theory Bolt_Streams
  imports Bolt_Connection
begin

text \<open>
  What a connection relies on in the cursor of a result, as an interface: pulling takes the next rows, in order, and there is more until none is
  left. A client that pulls a number of rows at a time then gets all of them and the connection back, whatever the cursor is.
\<close>

text \<open>A client that pulls until its result is closed: the requests are handled one after the other.\<close>

fun pull_times :: "('tx, 'cur, 'w) backend \<Rightarrow> pack_value list \<Rightarrow> nat \<Rightarrow> ('tx, 'cur) connection \<Rightarrow> 'w \<Rightarrow> ('tx, 'cur, 'w) outcome" where
  "pull_times B flds 0 c w = ([], c, w)"
| "pull_times B flds (Suc k) c w =
     (case c_state c of
        Streaming _ _ \<Rightarrow> (case handle_stream B flds False c w of (out, c, w) \<Rightarrow> case pull_times B flds k c w of (outs, c, w) \<Rightarrow> (out @ outs, c, w))
      | _ \<Rightarrow> ([], c, w))"

abbreviation pull_fields :: "u64 \<Rightarrow> pack_value list" where
  "pull_fields n \<equiv> [PMap [(''n'', PInt n)]]"

lemma pull_request: "0 < sint n \<Longrightarrow> stream_from_fields (pull_fields n) = Inr (Inr \<lparr> sr_limit = Some (nat (sint n)), sr_qid = - 1 \<rparr>)"
  by (simp add: map_get_def qid_field_def stream_limit_def)

lemma pull_times_Ready: "c_state c = Ready \<Longrightarrow> pull_times B flds k c w = ([], c, w)"
  by (cases k) simp_all

lemma filter_records: "filter is_record (map Record rows) = map Record rows"
  by (induction rows) simp_all

locale row_source =
  fixes take_rows :: "'cur \<Rightarrow> nat option \<Rightarrow> u8 \<times> u8 \<Rightarrow> (bolt_error + pack_value list list) \<times> 'cur"
    and more_rows :: "'cur \<Rightarrow> bool"
    and advance :: "nat \<Rightarrow> 'cur \<Rightarrow> 'cur"
    and left :: "u8 \<times> u8 \<Rightarrow> 'cur \<Rightarrow> pack_value list list"
    and ready :: "u8 \<times> u8 \<Rightarrow> 'cur \<Rightarrow> bool"
  assumes take_law: "ready v cur \<Longrightarrow> take_rows cur (Some n) v = (Inr (take n (left v cur)), advance (min n (length (left v cur))) cur)"
    and more_law: "ready v cur \<Longrightarrow> more_rows cur \<longleftrightarrow> left v cur \<noteq> []"
    and advance_law: "ready v cur \<Longrightarrow> n \<le> length (left v cur) \<Longrightarrow> ready v (advance n cur) \<and> left v (advance n cur) = drop n (left v cur)"
    and advance_add: "advance m (advance n cur) = advance (n + m) cur"
begin

lemma pull_step:
  assumes "cur_take B = take_rows" "cur_has_more B = more_rows"
    and st: "c_state c = Streaming cur seen" and r: "ready (c_version c) cur" and n: "0 < sint n"
  shows "let rows = left (c_version c) cur; m = nat (sint n) in handle_stream B (pull_fields n) False c w =
    (if m < length rows
     then (map Record (take m rows) @ [Success [(''has_more'', PBool True)]], c \<lparr> c_state := Streaming (advance m cur) seen \<rparr>, w)
     else (map Record rows @ [Success (cur_summary B (advance (length rows) cur))], c \<lparr> c_state := Ready \<rparr>, w))"
proof -
  let ?rows = "left (c_version c) cur" and ?m = "nat (sint n)"
  have a: "ready (c_version c) (advance (min ?m (length ?rows)) cur)"
    "left (c_version c) (advance (min ?m (length ?rows)) cur) = drop (min ?m (length ?rows)) ?rows"
    using advance_law [OF r, of "min ?m (length ?rows)"] by simp_all
  have "more_rows (advance (min ?m (length ?rows)) cur) \<longleftrightarrow> ?m < length ?rows" using more_law [OF a(1)] a(2) by auto
  then show ?thesis using st unfolding handle_stream_def pull_request [OF n]
    by (simp add: find_cursor_def assms(1,2) take_law [OF r] stream_reply_def put_cursor_def end_cursor_def Let_def)
qed

lemma pulls_drain:
  assumes ops: "cur_take B = take_rows" "cur_has_more B = more_rows" and n: "0 < sint n"
  shows "c_state c = Streaming cur seen \<Longrightarrow> ready (c_version c) cur \<Longrightarrow> length (left (c_version c) cur) \<le> k * nat (sint n) \<Longrightarrow> 0 < k \<Longrightarrow>
    \<exists>out c'. pull_times B (pull_fields n) k c w = (out, c', w) \<and> c_state c' = Ready \<and>
      filter is_record out = map Record (left (c_version c) cur) \<and>
      last out = Success (cur_summary B (advance (length (left (c_version c) cur)) cur)) \<and> out \<noteq> []"
proof (induction k arbitrary: c cur)
  case (Suc k)
  let ?rows = "left (c_version c) cur" and ?m = "nat (sint n)"
  note step = pull_step [OF ops Suc.prems(1,2) n, of w, unfolded Let_def]
  show ?case
  proof (cases "?m < length ?rows")
    case False
    then show ?thesis using step Suc.prems(1) by (simp add: pull_times_Ready filter_records)
  next
    case True
    let ?cur = "advance ?m cur" let ?c = "c \<lparr> c_state := Streaming ?cur seen \<rparr>"
    have a: "ready (c_version c) ?cur" "left (c_version c) ?cur = drop ?m ?rows" using advance_law [OF Suc.prems(2), of ?m] True by simp_all
    have k: "length (drop ?m ?rows) \<le> k * ?m" "0 < k" using Suc.prems(3) True by (auto intro: gr0I)
    have s: "advance (length ?rows - ?m) ?cur = advance (length ?rows) cur" using True by (simp add: advance_add)
    obtain out c' where ih: "pull_times B (pull_fields n) k ?c w = (out, c', w)" "c_state c' = Ready"
      "filter is_record out = map Record (drop ?m ?rows)" "last out = Success (cur_summary B (advance (length ?rows) cur))" "out \<noteq> []"
      using Suc.IH [of ?c ?cur] a k s by auto
    have "map Record (take ?m ?rows) @ map Record (drop ?m ?rows) = map Record ?rows" by (simp flip: map_append)
    then show ?thesis using step True ih Suc.prems(1) by (simp add: filter_records)
  qed
qed simp

end

end
