(* ===== verification/Bolt_Results.thy ===== *)
theory Bolt_Results
  imports Bolt_Values Bolt_Streams
begin

text \<open>
  Results over Bolt: a result table with the graph elements behind its cells (\<open>crates/core-query/src/result.rs\<close>), nodes, relationships and
  paths as Bolt structures (\<open>crates/bolt/src/messages/graph.rs\<close>), and the cursor a result is pulled from
  (\<open>RowCursor\<close> of \<open>crates/bolt/src/messages/run.rs\<close>). The kinds of columns are not modelled: only the resolved elements are read here.
\<close>

section \<open>Graph elements\<close>

definition node_element_id :: "string \<Rightarrow> string" where "node_element_id key = ''n:'' @ key"

text \<open>\<open>str::replace\<close> of one character.\<close>

definition replace_char :: "char \<Rightarrow> string \<Rightarrow> string \<Rightarrow> string" where
  "replace_char c by_text s = concat (map (\<lambda>x. if x = c then by_text else [x]) s)"

definition escape_part :: "string \<Rightarrow> string" where
  "escape_part part = replace_char CHR ''|'' [CHR 0x5C, CHR ''|''] (replace_char CHR 0x5C [CHR 0x5C, CHR 0x5C] part)"

definition relationship_element_id :: "string \<Rightarrow> string \<Rightarrow> string \<Rightarrow> string" where
  "relationship_element_id rel_type start end_key =
     ''r:'' @ escape_part rel_type @ ''|'' @ escape_part start @ ''|'' @ escape_part end_key"

record node_entity =
  ne_id :: u32
  ne_key :: string
  ne_label :: string
  ne_properties :: "(string, val) omap"

record relationship_entity =
  re_type :: string
  re_start :: string
  re_end :: string
  re_start_id :: u32
  re_end_id :: u32
  re_properties :: "(string, val) omap"

record path_entity =
  pe_nodes :: "node_entity list"
  pe_relationships :: "relationship_entity list"

datatype entity =
    ENode node_entity
  | ERelationship relationship_entity
  | EPath path_entity
  | EList "entity option list"

datatype entity_tree =
    TNode node_entity
  | TRelationship relationship_entity
  | TPath path_entity
  | TList "entity_tree option list"
  | TMap "(string \<times> entity_tree) list"

record write_stats =
  nodes_created :: int
  nodes_deleted :: int
  relationships_created :: int
  relationships_deleted :: int
  properties_set :: int
  labels_added :: int
  indexes_added :: int
  indexes_removed :: int
  constraints_added :: int
  constraints_removed :: int

definition no_stats :: write_stats where
  "no_stats = \<lparr> nodes_created = 0, nodes_deleted = 0, relationships_created = 0, relationships_deleted = 0, properties_set = 0,
     labels_added = 0, indexes_added = 0, indexes_removed = 0, constraints_added = 0, constraints_removed = 0 \<rparr>"

definition contains_updates :: "write_stats \<Rightarrow> bool" where "contains_updates s \<longleftrightarrow> s \<noteq> no_stats"

section \<open>Structures\<close>

definition has_element_ids :: "version \<Rightarrow> bool" where "has_element_ids version \<longleftrightarrow> version \<ge> (5, 0)"

definition MAX_SAFE_ID :: u64 where "MAX_SAFE_ID = 9007199254740991"

definition relationship_id :: "string \<Rightarrow> u64" where
  "relationship_id element_id =
     and (foldl (\<lambda>h b. xor h (ucast b) * 0x100000001B3) 0xCBF29CE484222325 (str_bytes element_id)) MAX_SAFE_ID"

definition properties_pack :: "(string, val) omap \<Rightarrow> version \<Rightarrow> nat \<Rightarrow> bolt_error + pack_value" where
  "properties_pack props version depth =
     and_then (try_map (\<lambda>(k, v). and_then (value_to_pack v version (depth + 1)) (\<lambda>p. Inr (k, p))) props) (\<lambda>ps. Inr (PMap ps))"

definition node_labels :: "node_entity \<Rightarrow> pack_value list" where
  "node_labels node = (if ne_label node = [] then [] else [PString (ne_label node)])"

definition pack_node :: "node_entity \<Rightarrow> version \<Rightarrow> nat \<Rightarrow> bolt_error + pack_value" where
  "pack_node node version depth =
     and_then (properties_pack (ne_properties node) version (depth + 1)) (\<lambda>props.
     Inr (PStruct TAG_NODE ([PInt (ucast (ne_id node)), PList (node_labels node), props]
       @ (if has_element_ids version then [PString (node_element_id (ne_key node))] else []))))"

definition rel_element_id :: "relationship_entity \<Rightarrow> string" where
  "rel_element_id rel = relationship_element_id (re_type rel) (re_start rel) (re_end rel)"

definition pack_relationship :: "relationship_entity \<Rightarrow> version \<Rightarrow> nat \<Rightarrow> bolt_error + pack_value" where
  "pack_relationship rel version depth =
     and_then (properties_pack (re_properties rel) version (depth + 1)) (\<lambda>props.
     Inr (PStruct TAG_RELATIONSHIP ([PInt (relationship_id (rel_element_id rel)), PInt (ucast (re_start_id rel)), PInt (ucast (re_end_id rel)),
         PString (re_type rel), props]
       @ (if has_element_ids version then [PString (rel_element_id rel), PString (node_element_id (re_start rel)), PString (node_element_id (re_end rel))]
          else []))))"

definition pack_unbound :: "relationship_entity \<Rightarrow> version \<Rightarrow> nat \<Rightarrow> bolt_error + pack_value" where
  "pack_unbound rel version depth =
     and_then (properties_pack (re_properties rel) version (depth + 1)) (\<lambda>props.
     Inr (PStruct TAG_UNBOUND_RELATIONSHIP ([PInt (relationship_id (rel_element_id rel)), PString (re_type rel), props]
       @ (if has_element_ids version then [PString (rel_element_id rel)] else []))))"

definition position :: "('a \<Rightarrow> bool) \<Rightarrow> 'a list \<Rightarrow> nat option" where
  "position p xs = (let i = length (takeWhile (\<lambda>x. \<not> p x) xs) in if i < length xs then Some i else None)"

definition position_or_push :: "('a \<Rightarrow> 'a \<Rightarrow> bool) \<Rightarrow> 'a list \<Rightarrow> 'a \<Rightarrow> nat \<times> 'a list" where
  "position_or_push same items item =
     (case position (\<lambda>x. same x item) items of Some i \<Rightarrow> (i, items) | None \<Rightarrow> (length items, items @ [item]))"

abbreviation same_node :: "node_entity \<Rightarrow> node_entity \<Rightarrow> bool" where "same_node a b \<equiv> ne_key a = ne_key b"

abbreviation same_rel :: "relationship_entity \<Rightarrow> relationship_entity \<Rightarrow> bool" where
  "same_rel a b \<equiv> (re_type a, re_start a, re_end a) = (re_type b, re_start b, re_end b)"

text \<open>The loop over the hops, from the hop's number on: distinct nodes and relationships so far, and the indices.\<close>

fun path_loop :: "node_entity list \<Rightarrow> nat \<Rightarrow> relationship_entity list \<Rightarrow> node_entity list \<Rightarrow> relationship_entity list \<Rightarrow> int list
    \<Rightarrow> node_entity list \<times> relationship_entity list \<times> int list" where
  "path_loop walk hop [] nodes rels indices = (nodes, rels, indices)"
| "path_loop walk hop (rel # more_rels) nodes rels indices =
     (case (nth_opt walk hop, nth_opt walk (hop + 1)) of
        (Some from_node, Some to_node) \<Rightarrow>
          (case position_or_push same_rel rels rel of (r, rels) \<Rightarrow>
           let rel_index = int r + 1;
               forward = (re_start rel = ne_key from_node \<and> re_end rel = ne_key to_node)
           in case position_or_push same_node nodes to_node of (n, nodes) \<Rightarrow>
             path_loop walk (hop + 1) more_rels nodes rels (indices @ [if forward then rel_index else - rel_index, int n]))
      | _ \<Rightarrow> (nodes, rels, indices))"

definition path_parts :: "path_entity \<Rightarrow> node_entity list \<times> relationship_entity list \<times> int list" where
  "path_parts path =
     path_loop (pe_nodes path) 0 (pe_relationships path) (case pe_nodes path of [] \<Rightarrow> [] | first # _ \<Rightarrow> [first]) [] []"

definition pack_path :: "path_entity \<Rightarrow> version \<Rightarrow> nat \<Rightarrow> bolt_error + pack_value" where
  "pack_path path version depth =
     (case path_parts path of (nodes, rels, indices) \<Rightarrow>
      and_then (try_map (\<lambda>n. pack_node n version (depth + 2)) nodes) (\<lambda>ns.
      and_then (try_map (\<lambda>r. pack_unbound r version (depth + 2)) rels) (\<lambda>rs.
      Inr (PStruct TAG_PATH [PList ns, PList rs, PList (map wire_int indices)]))))"

definition stats_map :: "write_stats \<Rightarrow> pack_value option" where
  "stats_map s =
     (if \<not> contains_updates s then None
      else Some (PMap (map (\<lambda>(name, n). (name, wire_int n)) (filter (\<lambda>(_, n). n \<noteq> 0)
        [(''nodes-created'', nodes_created s), (''nodes-deleted'', nodes_deleted s), (''relationships-created'', relationships_created s),
         (''relationships-deleted'', relationships_deleted s), (''properties-set'', properties_set s), (''labels-added'', labels_added s),
         (''indexes-added'', indexes_added s), (''indexes-removed'', indexes_removed s), (''constraints-added'', constraints_added s),
         (''constraints-removed'', constraints_removed s)]))))"

section \<open>Cells\<close>

function pack_cell :: "entity option \<Rightarrow> val option \<Rightarrow> version \<Rightarrow> nat \<Rightarrow> bolt_error + pack_value" where
  "pack_cell e v version depth =
     (case (e, v) of
        (Some (ENode node), _) \<Rightarrow> pack_node node version depth
      | (Some (ERelationship rel), _) \<Rightarrow> pack_relationship rel version depth
      | (Some (EPath path), _) \<Rightarrow> pack_path path version depth
      | (Some (EList items), Some (VList vs)) \<Rightarrow>
          if length items = length vs
          then and_then (try_map (\<lambda>(item, v). pack_cell item (Some v) version (depth + 1)) (zip items vs)) (\<lambda>ps. Inr (PList ps))
          else value_to_pack (VList vs) version depth
      | (_, Some v) \<Rightarrow> value_to_pack v version depth
      | (_, None) \<Rightarrow> Inr PNull)"
  by pat_completeness auto
termination
proof (relation "measure (\<lambda>(e, _). size_option size e)", goal_cases)
  case (2 e v version depth p q e' items v' vs x item w)
  then have "item \<in> set items" "e = Some (EList items)" by (auto dest: set_zip_leftD)
  then show ?case using size_list_estimation' [of item items "size_option size item" "size_option size"] by (simp add: less_Suc_eq_le le_SucI)
qed simp

declare pack_cell.simps [simp del]

function pack_cell_with_entity_tree :: "entity_tree \<Rightarrow> val option \<Rightarrow> version \<Rightarrow> nat \<Rightarrow> bolt_error + pack_value" where
  "pack_cell_with_entity_tree tree v version depth =
     (case tree of
        TNode node \<Rightarrow> pack_node node version depth
      | TRelationship rel \<Rightarrow> pack_relationship rel version depth
      | TPath path \<Rightarrow> pack_path path version depth
      | TList items \<Rightarrow>
          let vs = (case v of Some (VList vs) \<Rightarrow> vs | _ \<Rightarrow> []) in
          and_then (try_map (\<lambda>(i, item). case item of
              Some t \<Rightarrow> pack_cell_with_entity_tree t (nth_opt vs i) version (depth + 1)
            | None \<Rightarrow> value_to_pack (case nth_opt vs i of Some x \<Rightarrow> x | None \<Rightarrow> VNull) version (depth + 1)) (zip [0..<length items] items))
            (\<lambda>ps. Inr (PList ps))
      | TMap flds \<Rightarrow>
          let entries = (case v of Some (VMap m) \<Rightarrow> m | _ \<Rightarrow> []) in
          and_then (try_map (\<lambda>(k, x). and_then (case map_of flds k of
              Some t \<Rightarrow> pack_cell_with_entity_tree t (Some x) version (depth + 1)
            | None \<Rightarrow> value_to_pack x version (depth + 1)) (\<lambda>p. Inr (k, p))) entries)
            (\<lambda>ps. Inr (PMap ps)))"
  by pat_completeness auto
termination
proof (relation "measure (\<lambda>(tree, _). size tree)", goal_cases)
  case (2 tree v version depth items vs x i item t)
  then have "Some t \<in> set items" by (auto dest: set_zip_rightD)
  then show ?case using 2(1) size_list_estimation' [of "Some t" items "size_option size (Some t)" "size_option size"] by (simp add: less_Suc_eq_le)
next
  case (3 tree v version depth flds entries x k y t)
  then have "(k, t) \<in> set flds" by (auto dest: map_of_SomeD)
  then show ?case using 3(1) size_list_estimation' [of "(k, t)" flds "Suc (size t)" "size_prod (\<lambda>_. 0) size"] by (simp add: less_Suc_eq_le)
qed simp

declare pack_cell_with_entity_tree.simps [simp del]

section \<open>Result tables and cursors\<close>

record result_set =
  rs_columns :: "string list"
  rs_rows :: "val option list list"
  rs_entities :: "entity option list option"
  rs_trees :: "entity_tree option list option"
  rs_stats :: "write_stats option"

definition rs_new :: "string list \<Rightarrow> result_set" where
  "rs_new columns = \<lparr> rs_columns = columns, rs_rows = [], rs_entities = None, rs_trees = None, rs_stats = None \<rparr>"

text \<open>\<open>Vec::resize\<close> with a default. A row of the wrong length is a panic.\<close>

definition resize :: "nat \<Rightarrow> 'a \<Rightarrow> 'a list \<Rightarrow> 'a list" where
  "resize n x xs = take n xs @ replicate (n - length xs) x"

definition push_row :: "result_set \<Rightarrow> val option list \<Rightarrow> result_set option" where
  "push_row r row =
     (if length row \<noteq> length (rs_columns r) then None
      else let rows = rs_rows r @ [row]; cells = length rows * length (rs_columns r) in
        Some (r \<lparr> rs_rows := rows, rs_entities := map_option (resize cells None) (rs_entities r),
                  rs_trees := map_option (resize cells None) (rs_trees r) \<rparr>))"

definition rs_entity :: "result_set \<Rightarrow> nat \<Rightarrow> nat \<Rightarrow> entity option" where
  "rs_entity r row col =
     (if col \<ge> length (rs_columns r) then None
      else Option.bind (Option.bind (rs_entities r) (\<lambda>es. nth_opt es (row * length (rs_columns r) + col))) (\<lambda>e. e))"

definition value_entity_tree :: "result_set \<Rightarrow> nat \<Rightarrow> nat \<Rightarrow> entity_tree option" where
  "value_entity_tree r row col =
     (if col \<ge> length (rs_columns r) then None
      else Option.bind (Option.bind (rs_trees r) (\<lambda>ts. nth_opt ts (row * length (rs_columns r) + col))) (\<lambda>t. t))"

definition set_entities :: "result_set \<Rightarrow> entity option list \<Rightarrow> result_set option" where
  "set_entities r es = (if length es \<noteq> length (rs_rows r) * length (rs_columns r) then None else Some (r \<lparr> rs_entities := Some es \<rparr>))"

record row_cursor =
  rc_fields :: "string list"
  rc_result :: result_set
  rc_position :: nat
  rc_is_write :: bool
  rc_bookmark :: "string option"
  rc_max_len :: nat
  rc_committed :: bool
  rc_schema :: bool
  rc_plan :: "pack_value option"

definition rc_new :: "result_set \<Rightarrow> bool \<Rightarrow> string option \<Rightarrow> row_cursor" where
  "rc_new r is_write bookmark =
     \<lparr> rc_fields = rs_columns r, rc_result = r, rc_position = 0, rc_is_write = is_write, rc_bookmark = bookmark, rc_max_len = MAX_PACK_LEN,
       rc_committed = (is_write \<and> bookmark \<noteq> None), rc_schema = False, rc_plan = None \<rparr>"

definition with_schema :: "row_cursor \<Rightarrow> bool \<Rightarrow> row_cursor" where "with_schema c schema = c \<lparr> rc_schema := schema \<rparr>"

definition committed_note :: "row_cursor \<Rightarrow> bolt_error \<Rightarrow> bolt_error" where
  "committed_note c err =
     (case err of
        TooLarge m \<Rightarrow> if rc_committed c
          then TooLarge (m @ [Lit ''. The statement had already committed; only the returned rows could not be sent'']) else err
      | _ \<Rightarrow> err)"

definition end_of :: "row_cursor \<Rightarrow> nat option \<Rightarrow> nat" where
  "end_of c limit =
     (case limit of
        Some n \<Rightarrow> min (min (rc_position c + n) USIZE_MAX) (length (rs_rows (rc_result c)))
      | None \<Rightarrow> length (rs_rows (rc_result c)))"

definition check_row :: "pack_value list \<Rightarrow> nat \<Rightarrow> bolt_error + unit" where
  "check_row row max_len =
     (if length row > max_len
      then Inl (TooLarge [Lit ''result row cannot be sent over Bolt: it has more fields than PackStream can count''])
      else try_each (\<lambda>v. check_depth v max_len 1) row)"

definition map_err :: "('e \<Rightarrow> 'f) \<Rightarrow> 'e + 'a \<Rightarrow> 'f + 'a" where
  "map_err f r = (case r of Inl e \<Rightarrow> Inl (f e) | Inr x \<Rightarrow> Inr x)"

definition pack_result_cell :: "result_set \<Rightarrow> nat \<Rightarrow> version \<Rightarrow> nat \<times> val option \<Rightarrow> bolt_error + pack_value" where
  "pack_result_cell r index version cell =
     (case cell of (col, v) \<Rightarrow>
        case value_entity_tree r index col of
          Some tree \<Rightarrow> pack_cell_with_entity_tree tree v version 0
        | None \<Rightarrow> pack_cell (rs_entity r index col) v version 0)"

definition pack_row :: "row_cursor \<Rightarrow> version \<Rightarrow> nat \<Rightarrow> bolt_error + pack_value list" where
  "pack_row c version index =
     (let row = rs_rows (rc_result c) ! index in
      and_then (map_err (committed_note c) (try_map (pack_result_cell (rc_result c) index version) (zip [0..<length row] row))) (\<lambda>row.
      and_then (map_err (committed_note c) (check_row row (rc_max_len c))) (\<lambda>_. Inr row)))"

definition rc_take :: "row_cursor \<Rightarrow> nat option \<Rightarrow> version \<Rightarrow> (bolt_error + pack_value list list) \<times> row_cursor" where
  "rc_take c limit version =
     (let stop = end_of c limit in
      case try_map (pack_row c version) [rc_position c..<stop] of
        Inl err \<Rightarrow> (Inl err, c)
      | Inr rows \<Rightarrow> (Inr rows, c \<lparr> rc_position := stop \<rparr>))"

definition rc_discard :: "row_cursor \<Rightarrow> nat option \<Rightarrow> row_cursor" where
  "rc_discard c limit = c \<lparr> rc_position := end_of c limit \<rparr>"

definition rc_has_more :: "row_cursor \<Rightarrow> bool" where
  "rc_has_more c \<longleftrightarrow> rc_position c < length (rs_rows (rc_result c))"

text \<open>\<open>t_last\<close> is the time since the cursor was opened, in milliseconds.\<close>

definition rc_summary :: "u64 \<Rightarrow> row_cursor \<Rightarrow> pack_map" where
  "rc_summary t_last c =
     [(''type'', PString (if rc_schema c then ''s'' else if rc_is_write c then ''w'' else ''r'')), (''t_last'', PInt t_last)]
     @ (case Option.bind (rs_stats (rc_result c)) stats_map of Some stats \<Rightarrow> [(''stats'', stats)] | None \<Rightarrow> [])
     @ (case rc_plan c of Some plan \<Rightarrow> [(''plan'', plan)] | None \<Rightarrow> [])
     @ (case rc_bookmark c of Some bookmark \<Rightarrow> [(''bookmark'', PString bookmark)] | None \<Rightarrow> [])"

section \<open>Identifiers of elements\<close>

lemma replace_char_append: "replace_char c t (a @ b) = replace_char c t a @ replace_char c t b"
  by (simp add: replace_char_def)

text \<open>What escaping does to each character.\<close>

definition esc1 :: "char \<Rightarrow> string" where
  "esc1 x = (if x = CHR 0x5C then [CHR 0x5C, CHR 0x5C] else if x = CHR ''|'' then [CHR 0x5C, CHR ''|''] else [x])"

lemma escape_part_chars: "escape_part s = concat (map esc1 s)"
  by (induction s) (simp_all add: escape_part_def replace_char_def esc1_def)

text \<open>An escaped part ends at the first bar that is not escaped, so the parts can be told apart.\<close>

lemma escaped_split:
  "concat (map esc1 a) @ CHR ''|'' # x = concat (map esc1 b) @ CHR ''|'' # y \<Longrightarrow> a = b \<and> x = y"
proof (induction a arbitrary: b)
  case Nil
  then show ?case by (cases b) (auto simp: esc1_def split: if_splits)
next
  case (Cons c a)
  show ?case
  proof (cases b)
    case Nil
    then show ?thesis using Cons.prems by (auto simp: esc1_def split: if_splits)
  next
    case (Cons c' b')
    then show ?thesis using Cons.prems Cons.IH [of b'] by (auto simp: esc1_def split: if_splits)
  qed
qed

lemma escaped_inj: "concat (map esc1 a) = concat (map esc1 b) \<Longrightarrow> a = b"
  using escaped_split [of a "[]" b "[]"] by simp

text \<open>Element ids name elements. Two relationships have the same element id only when their types and both their end keys agree, whatever
  bars and backslashes these hold; two nodes only when their keys agree; no node and relationship share one. A relationship's integer
  id fits 53 bits.\<close>

theorem element_ids_name_elements:
  "(relationship_element_id t s e = relationship_element_id t' s' e' \<longleftrightarrow> t = t' \<and> s = s' \<and> e = e')
   \<and> (node_element_id k = node_element_id k' \<longleftrightarrow> k = k')
   \<and> node_element_id k \<noteq> relationship_element_id t s e
   \<and> unat (relationship_id i) < 2 ^ 53 \<and> 0 \<le> sint (relationship_id i)"
proof -
  have "relationship_element_id t s e = relationship_element_id t' s' e' \<Longrightarrow> t = t' \<and> s = s' \<and> e = e'"
    by (auto simp: relationship_element_id_def escape_part_chars dest!: escaped_split escaped_inj)
  moreover have b: "unat (relationship_id i) < 2 ^ 53"
  proof -
    have "MAX_SAFE_ID = mask 53" by (simp add: MAX_SAFE_ID_def mask_eq_decr_exp)
    then obtain h where "relationship_id i = take_bit 53 h" unfolding relationship_id_def by (metis take_bit_eq_mask)
    then show ?thesis by (simp only: unsigned_take_bit_eq take_bit_nat_less_exp)
  qed
  moreover have "0 \<le> sint (relationship_id i)"
  proof -
    have "uint (relationship_id i) < 2 ^ 53" using b by (metis of_nat_less_iff of_nat_numeral of_nat_power uint_nat)
    then have "signed_take_bit 63 (uint (relationship_id i)) = uint (relationship_id i)" 
      using unsigned_greater_eq [of "relationship_id i", where ?'a = int] by (intro signed_take_bit_int_eq_self; simp; linarith)
    then show ?thesis by (simp add: sint_uint)
  qed
  ultimately show ?thesis by (auto simp: node_element_id_def relationship_element_id_def)
qed

section \<open>Paths\<close>

text \<open>What a client reads off a path: from a node, each pair of indices names a relationship, with its direction, and the node reached.\<close>

fun walk_of :: "node_entity list \<Rightarrow> relationship_entity list \<Rightarrow> int list \<Rightarrow> (relationship_entity \<times> bool \<times> node_entity) list" where
  "walk_of nodes rels (r # n # indices) = (rels ! nat (\<bar>r\<bar> - 1), r > 0, nodes ! nat n) # walk_of nodes rels indices"
| "walk_of nodes rels _ = []"

definition rel_key :: "relationship_entity \<Rightarrow> string \<times> string \<times> string" where
  "rel_key r = (re_type r, re_start r, re_end r)"

definition hop_keys :: "relationship_entity \<times> bool \<times> node_entity \<Rightarrow> (string \<times> string \<times> string) \<times> bool \<times> string" where
  "hop_keys h = (case h of (r, fwd, n) \<Rightarrow> (rel_key r, fwd, ne_key n))"

text \<open>The hops of a path as it was walked.\<close>

fun hops :: "node_entity list \<Rightarrow> relationship_entity list \<Rightarrow> ((string \<times> string \<times> string) \<times> bool \<times> string) list" where
  "hops (a # b # ns) (r # rs) = (rel_key r, re_start r = ne_key a \<and> re_end r = ne_key b, ne_key b) # hops (b # ns) rs"
| "hops _ _ = []"

lemma position_push:
  assumes "position_or_push same items item = (i, items')" "same item item"
  shows "i < length items'" "same (items' ! i) item" "\<exists>post. items' = items @ post" "set items' \<subseteq> insert item (set items)"
    "items' = items \<or> items' = items @ [item] \<and> (\<forall>x\<in>set items. \<not> same x item)"
proof -
  let ?n = "length (takeWhile (\<lambda>x. \<not> same x item) items)"
  have "?n < length items \<Longrightarrow> same (items ! ?n) item" using nth_length_takeWhile [of "\<lambda>x. \<not> same x item" items] by simp
  moreover have "\<not> ?n < length items \<Longrightarrow> \<forall>x\<in>set items. \<not> same x item"
    by (metis length_takeWhile_le le_neq_implies_less takeWhile_eq_all_conv takeWhile_eq_take take_all order_refl)
  ultimately show "i < length items'" "same (items' ! i) item" "\<exists>post. items' = items @ post" "set items' \<subseteq> insert item (set items)"
    "items' = items \<or> items' = items @ [item] \<and> (\<forall>x\<in>set items. \<not> same x item)"
    using assms by (auto simp: position_or_push_def position_def Let_def nth_append split: if_splits)
qed

text \<open>Every pair of indices names a relationship and a node of the lists.\<close>

fun indices_ok :: "nat \<Rightarrow> nat \<Rightarrow> int list \<Rightarrow> bool" where
  "indices_ok n r (i # j # js) \<longleftrightarrow> 1 \<le> \<bar>i\<bar> \<and> \<bar>i\<bar> \<le> int r \<and> 0 \<le> j \<and> j < int n \<and> indices_ok n r js"
| "indices_ok n r [] \<longleftrightarrow> True"
| "indices_ok n r [_] \<longleftrightarrow> False"

lemma path_loop_walk:
  "hop + length rs < length walk \<Longrightarrow> path_loop walk hop rs nodes rels indices = (nodes', rels', indices') \<Longrightarrow>
   \<exists>np rp js. nodes' = nodes @ np \<and> rels' = rels @ rp \<and> indices' = indices @ js \<and>
     map hop_keys (walk_of nodes' rels' js) = hops (drop hop walk) rs \<and> indices_ok (length nodes') (length rels') js \<and>
     (distinct (map ne_key nodes) \<longrightarrow> distinct (map ne_key nodes')) \<and> (distinct (map rel_key rels) \<longrightarrow> distinct (map rel_key rels'))"
proof (induction rs arbitrary: hop nodes rels indices)
  case Nil
  then show ?case by (cases "drop hop walk"; cases "tl (drop hop walk)") auto
next
  case (Cons rel rs)
  let ?a = "walk ! hop" and ?b = "walk ! (hop + 1)"
  have lt: "hop < length walk" "hop + 1 < length walk" "hop + 1 + length rs < length walk" using Cons.prems(1) by simp_all
  have w: "drop hop walk = ?a # ?b # drop (hop + 2) walk" "drop (hop + 1) walk = ?b # drop (hop + 2) walk"
    using lt Cons_nth_drop_Suc [of hop walk] Cons_nth_drop_Suc [of "hop + 1" walk] by simp_all
  obtain r rels1 where r: "position_or_push same_rel rels rel = (r, rels1)" by fastforce
  obtain n nodes1 where n: "position_or_push same_node nodes ?b = (n, nodes1)" by fastforce
  let ?fwd = "re_start rel = ne_key ?a \<and> re_end rel = ne_key ?b"
  let ?i = "if ?fwd then int r + 1 else - (int r + 1)"
  have "path_loop walk (hop + 1) rs nodes1 rels1 (indices @ [?i, int n]) = (nodes', rels', indices')"
    using Cons.prems(2) lt r n by (simp add: Let_def)
  from Cons.IH [OF lt(3) this] obtain np rp js where ih: "nodes' = nodes1 @ np" "rels' = rels1 @ rp" "indices' = (indices @ [?i, int n]) @ js"
    "map hop_keys (walk_of nodes' rels' js) = hops (drop (hop + 1) walk) rs" "indices_ok (length nodes') (length rels') js"
    "distinct (map ne_key nodes1) \<longrightarrow> distinct (map ne_key nodes')" "distinct (map rel_key rels1) \<longrightarrow> distinct (map rel_key rels')" by blast
  note pr = position_push [OF r] and pn = position_push [OF n]
  have at: "rel_key (rels' ! r) = rel_key rel" "ne_key (nodes' ! n) = ne_key ?b" "r < length rels'" "n < length nodes'"
    using pr(1,2) pn(1,2) ih(1,2) by (auto simp: rel_key_def nth_append)
  have d: "distinct (map ne_key nodes) \<longrightarrow> distinct (map ne_key nodes1)" "distinct (map rel_key rels) \<longrightarrow> distinct (map rel_key rels1)"
    using pr(5) pn(5) by (auto simp: rel_key_def) blast+
  have "nat (\<bar>?i\<bar> - 1) = r" "(?i > 0) = ?fwd" by auto
  then have "map hop_keys (walk_of nodes' rels' ([?i, int n] @ js)) = hops (drop hop walk) (rel # rs)"
    using ih(4) at(1,2) w by (simp add: hop_keys_def)
  moreover have "indices_ok (length nodes') (length rels') ([?i, int n] @ js)" using ih(5) at(3,4) by simp
  moreover obtain np1 rp1 where "nodes1 = nodes @ np1" "rels1 = rels @ rp1" using pr(3) pn(3) by auto
  ultimately show ?case using ih(1-3,6,7) d
    by (intro exI [of _ "np1 @ np"] exI [of _ "rp1 @ rp"] exI [of _ "[?i, int n] @ js"]) auto
qed

text \<open>C39: a path reads back as it was walked. The nodes and relationships sent are distinct, every index is in range, the first node is where the
  walk starts, and following the indices gives hop by hop the relationship of the path, whether it was walked along its direction,
  and the node reached.\<close>

theorem path_reads_back:
  assumes "length (pe_nodes path) = length (pe_relationships path) + 1" "path_parts path = (nodes, rels, indices)"
  shows "distinct (map ne_key nodes) \<and> distinct (map rel_key rels) \<and> indices_ok (length nodes) (length rels) indices \<and>
    nodes ! 0 = pe_nodes path ! 0 \<and> map hop_keys (walk_of nodes rels indices) = hops (pe_nodes path) (pe_relationships path)"
proof -
  obtain first others where n: "pe_nodes path = first # others" using assms(1) by (cases "pe_nodes path") auto
  have "path_loop (pe_nodes path) 0 (pe_relationships path) [first] [] [] = (nodes, rels, indices)"
    using assms(2) n by (simp add: path_parts_def)
  from path_loop_walk [OF _ this] assms(1) n show ?thesis by auto
qed

section \<open>Pulling a result\<close>

lemma try_map_ok: "\<forall>x\<in>set xs. f x = Inr (g x) \<Longrightarrow> try_map f xs = Inr (map g xs)"
  by (induction xs) simp_all

lemma try_map_nth: "try_map f xs = Inr ys \<Longrightarrow> length ys = length xs \<and> (\<forall>i<length xs. f (xs ! i) = Inr (ys ! i))"
proof (induction xs arbitrary: ys)
  case (Cons x xs)
  then obtain y zs where "f x = Inr y" "try_map f xs = Inr zs" "ys = y # zs" by (auto simp: and_then_Inr_iff)
  then show ?case using Cons.IH by (auto simp: less_Suc_eq_0_disj)
qed simp

text \<open>Pulling with a sequence of limits: the rows sent, and the cursor after; the first refusal ends it.\<close>

fun pulls :: "version \<Rightarrow> nat option list \<Rightarrow> row_cursor \<Rightarrow> (bolt_error + pack_value list list) \<times> row_cursor" where
  "pulls version [] c = (Inr [], c)"
| "pulls version (limit # limits) c =
     (case rc_take c limit version of
        (Inl err, c) \<Rightarrow> (Inl err, c)
      | (Inr rows, c) \<Rightarrow> (case pulls version limits c of (Inl err, c) \<Rightarrow> (Inl err, c) | (Inr more_rows, c) \<Rightarrow> (Inr (rows @ more_rows), c)))"

abbreviation rc_len :: "row_cursor \<Rightarrow> nat" where "rc_len c \<equiv> length (rs_rows (rc_result c))"

lemma end_of_le: "end_of c limit \<le> rc_len c"
  by (simp add: end_of_def split: option.split)

lemma end_of_ge: "rc_position c \<le> rc_len c \<Longrightarrow> rc_len c \<le> USIZE_MAX \<Longrightarrow> rc_position c \<le> end_of c limit"
  by (simp add: end_of_def split: option.split)

lemma pack_row_position: "pack_row (c \<lparr> rc_position := p \<rparr>) = pack_row c"
proof -
  have "committed_note (c \<lparr> rc_position := p \<rparr>) = committed_note c" by (intro ext) (simp add: committed_note_def split: bolt_error.split)
  then show ?thesis by (intro ext) (simp add: pack_row_def Let_def)
qed

lemma rc_take_rows:
  assumes "rc_take c limit ver = (Inr rows, c')"
  shows "c' = c \<lparr> rc_position := end_of c limit \<rparr>" "try_map (pack_row c ver) [rc_position c..<end_of c limit] = Inr rows"
  using assms by (auto simp: rc_take_def Let_def split: sum.splits)

lemma try_map_append: "try_map f xs = Inr as \<Longrightarrow> try_map f ys = Inr bs \<Longrightarrow> try_map f (xs @ ys) = Inr (as @ bs)"
  by (induction xs arbitrary: as) (auto simp: and_then_Inr_iff)

lemma pulls_rows:
  "pulls ver limits c = (Inr rows, c') \<Longrightarrow> rc_position c \<le> rc_len c \<Longrightarrow> rc_len c \<le> USIZE_MAX \<Longrightarrow>
   rc_result c' = rc_result c \<and> rc_position c \<le> rc_position c' \<and> rc_position c' \<le> rc_len c \<and>
   try_map (pack_row c ver) [rc_position c..<rc_position c'] = Inr rows \<and> (None \<in> set limits \<longrightarrow> rc_position c' = rc_len c)"
proof (induction limits arbitrary: c rows)
  case (Cons limit limits)
  obtain rows1 c1 rows2 where t: "rc_take c limit ver = (Inr rows1, c1)" "pulls ver limits c1 = (Inr rows2, c')" "rows = rows1 @ rows2"
    using Cons.prems(1) by (auto split: prod.splits sum.splits)
  note c1 = rc_take_rows [OF t(1)]
  have p: "rc_position c \<le> end_of c limit" "end_of c limit \<le> rc_len c" using end_of_ge [OF Cons.prems(2,3)] end_of_le by auto
  have ih: "rc_result c' = rc_result c" "end_of c limit \<le> rc_position c'" "rc_position c' \<le> rc_len c"
    "try_map (pack_row c ver) [end_of c limit..<rc_position c'] = Inr rows2" "None \<in> set limits \<longrightarrow> rc_position c' = rc_len c"
    using Cons.IH [OF t(2)] Cons.prems(3) p unfolding c1(1) by (simp_all add: pack_row_position)
  have "[rc_position c..<rc_position c'] = [rc_position c..<end_of c limit] @ [end_of c limit..<rc_position c']"
    using upt_add_eq_append [of "rc_position c" "end_of c limit" "rc_position c' - end_of c limit"] p(1) ih(2) by simp
  moreover have "limit = None \<Longrightarrow> rc_position c' = rc_len c" using ih(2,3) by (simp add: end_of_def)
  ultimately show ?case using ih p(1) t(3) try_map_append [OF c1(2) ih(4)] by auto
qed simp

text \<open>Pulling a result in any batches sends every row once and in order: the rows of the batches, one after the other, are the packed rows
  from the first to the position reached, a pull without a limit reaches the end, and there is more exactly before it. A row that cannot
  be sent is reported and leaves the cursor where it was.\<close>

theorem cursor_streams_rows:
  assumes "length (rs_rows r) \<le> USIZE_MAX" "pulls ver limits (rc_new r is_write bookmark) = (Inr rows, c)"
  shows "(\<forall>i<length rows. pack_row (rc_new r is_write bookmark) ver i = Inr (rows ! i)) \<and>
     length rows = rc_position c \<and> rc_position c \<le> length (rs_rows r) \<and> (rc_has_more c \<longleftrightarrow> length rows < length (rs_rows r)) \<and>
     (None \<in> set limits \<longrightarrow> length rows = length (rs_rows r)) \<and>
     (rc_take c limit ver = (Inl err, c') \<longrightarrow> c' = c)"
proof -
  let ?c = "rc_new r is_write bookmark"
  have "rc_position ?c = 0" "rc_result ?c = r" by (simp_all add: rc_new_def)
  then have p: "rc_result c = r" "rc_position c \<le> length (rs_rows r)" "try_map (pack_row ?c ver) [0..<rc_position c] = Inr rows"
    "None \<in> set limits \<longrightarrow> rc_position c = length (rs_rows r)"
    using pulls_rows [OF assms(2)] assms(1) by simp_all
  have "rc_take c limit ver = (Inl err, c') \<longrightarrow> c' = c" by (auto simp: rc_take_def Let_def split: sum.splits)
  then show ?thesis using try_map_nth [OF p(3)] p by (auto simp: rc_has_more_def)
qed

section \<open>Rows that can be sent\<close>

text \<open>A row is checked one level down, but travels two levels down: in the list of a \<open>RECORD\<close> structure.\<close>

lemma check_row_iff:
  assumes "\<forall>v\<in>set row. utf8_ok v"
  shows "check_row row MAX_PACK_LEN = Inr () \<longleftrightarrow> length row < 2 ^ 32 \<and> (\<forall>v\<in>set row. fits v \<and> nesting v \<le> 127)"
proof -
  have "check_depth v MAX_PACK_LEN 1 = Inr () \<longleftrightarrow> fits v \<and> nesting v \<le> 127" if "v \<in> set row" for v
    using check_depth_iff [of v 1] assms that by (auto simp: PS_MAX_DEPTH_def)
  then show ?thesis unfolding check_row_def pack_len_iff(1) [symmetric] by (auto simp: try_each_ok)
qed

lemma encode_record_iff:
  assumes "\<forall>v\<in>set row. utf8_ok v"
  shows "(\<exists>b. encode_message dbg (Record row) = Inr b) \<longleftrightarrow> length row < 2 ^ 32 \<and> (\<forall>v\<in>set row. fits v \<and> nesting v \<le> 126)"
proof -
  have "(\<exists>b. encode_message dbg (Record row) = Inr b) \<longleftrightarrow> check_depth (to_pack dbg (Record row)) MAX_PACK_LEN 0 = Inr ()"
    by (cases "check_depth (to_pack dbg (Record row)) MAX_PACK_LEN 0")
      (simp_all add: encode_message_def encode_with_limit_def check_encodable_def Let_def)
  also have "\<dots> \<longleftrightarrow> length row < 2 ^ 32 \<and> (\<forall>v\<in>set row. fits v \<and> nesting v \<le> 126)"
  proof -
    have "check_depth v MAX_PACK_LEN 2 = Inr () \<longleftrightarrow> fits v \<and> nesting v \<le> 126" if "v \<in> set row" for v
      using check_depth_iff [of v 2] assms that by (auto simp: PS_MAX_DEPTH_def)
    moreover have "check_depth (to_pack dbg (Record row)) MAX_PACK_LEN 0 = Inr () \<longleftrightarrow>
        length row \<le> MAX_PACK_LEN \<and> (\<forall>v\<in>set row. check_depth v MAX_PACK_LEN 2 = Inr ())"
      by (simp add: check_depth_ok PS_MAX_DEPTH_def MAX_STRUCT_FIELDS_def numeral_2_eq_2)
    ultimately show ?thesis unfolding pack_len_iff(1) [symmetric] by auto
  qed
  finally show ?thesis .
qed

fun nested :: "nat \<Rightarrow> pack_value" where
  "nested 0 = PList []" | "nested (Suc n) = PList [nested n]"

lemma nested_facts: "nesting (nested n) = n" "utf8_ok (nested n)" "fits (nested n)"
  by (induction n) simp_all

text \<open>C40: the check on a row before it is sent lets through exactly one level too much: it accepts rows whose values fit the format and nest at
  most 127 levels, and a \<open>RECORD\<close> of such values is encoded exactly up to 126 levels. A row that nests 127 levels passes the check and
  is then replaced by a failure in the middle of the records; every other row that passes is sent.\<close>

theorem row_check_one_level_short:
  assumes "\<forall>v\<in>set row. utf8_ok v"
  shows "(check_row row MAX_PACK_LEN = Inr () \<longleftrightarrow> length row < 2 ^ 32 \<and> (\<forall>v\<in>set row. fits v \<and> nesting v \<le> 127)) \<and>
     ((\<exists>b. encode_message dbg (Record row) = Inr b) \<longleftrightarrow> length row < 2 ^ 32 \<and> (\<forall>v\<in>set row. fits v \<and> nesting v \<le> 126)) \<and>
     check_row [nested 127] MAX_PACK_LEN = Inr () \<and> (\<nexists>b. encode_message dbg (Record [nested 127]) = Inr b)"
  using check_row_iff [OF assms] encode_record_iff [OF assms, of dbg] check_row_iff [of "[nested 127]"] encode_record_iff [of "[nested 127]" dbg]
  by (simp add: nested_facts)

theorem row_check_one_level_short_witness:
  "check_row [PNull] MAX_PACK_LEN = Inr () \<and> (\<exists>b. encode_message (\<lambda>s. s) (Record [PNull]) = Inr b)"
  using row_check_one_level_short [of "[PNull]" "\<lambda>s. s"] by simp

section \<open>A table and a path to try\<close>

abbreviation try_node :: "string \<Rightarrow> node_entity" where
  "try_node k \<equiv> \<lparr> ne_id = 0, ne_key = k, ne_label = [], ne_properties = [] \<rparr>"

abbreviation try_rel :: "string \<Rightarrow> string \<Rightarrow> relationship_entity" where
  "try_rel a b \<equiv> \<lparr> re_type = ''T'', re_start = a, re_end = b, re_start_id = 0, re_end_id = 0, re_properties = [] \<rparr>"

text \<open>Out along a relationship and back along the same one.\<close>

theorem path_reads_back_witness:
  "let path = \<lparr> pe_nodes = [try_node ''a'', try_node ''b'', try_node ''a''], pe_relationships = [try_rel ''a'' ''b'', try_rel ''a'' ''b''] \<rparr> in
   path_parts path = ([try_node ''a'', try_node ''b''], [try_rel ''a'' ''b''], [1, 1, - 1, 0]) \<and>
   map hop_keys (walk_of [try_node ''a'', try_node ''b''] [try_rel ''a'' ''b''] [1, 1, - 1, 0]) = hops (pe_nodes path) (pe_relationships path)"
proof -
  let ?p = "\<lparr> pe_nodes = [try_node ''a'', try_node ''b'', try_node ''a''], pe_relationships = [try_rel ''a'' ''b'', try_rel ''a'' ''b''] \<rparr>"
  have "path_parts ?p = ([try_node ''a'', try_node ''b''], [try_rel ''a'' ''b''], [1, 1, - 1, 0])"
    by (simp add: path_parts_def nth_opt_def position_or_push_def position_def)
  then show ?thesis using path_reads_back [of ?p] by (simp add: Let_def)
qed

theorem cursor_streams_rows_witness:
  "let r = rs_new [''x''] \<lparr> rs_rows := [[Some (VInt 1)], [None], [Some VNull]] \<rparr>; out = pulls (5, 0) [Some 2, None] (rc_new r False None) in
   fst out = Inr [[PInt 1], [PNull], [PNull]] \<and> \<not> rc_has_more (snd out)"
proof -
  let ?r = "rs_new [''x''] \<lparr> rs_rows := [[Some (VInt 1)], [None], [Some VNull]] \<rparr>"
  let ?c = "rc_new ?r False None"
  have row: "pack_row ?c (5, 0) 0 = Inr [PInt 1]" "pack_row ?c (5, 0) 1 = Inr [PNull]" "pack_row ?c (5, 0) 2 = Inr [PNull]"
    by (simp_all add: pack_row_def Let_def rc_new_def rs_new_def pack_result_cell_def value_entity_tree_def rs_entity_def pack_cell.simps
        value_to_pack.simps map_err_def check_row_def check_depth.simps PS_MAX_DEPTH_def MAX_PACK_LEN_def)
  have "[0..<2] = [0, 1 :: nat]" "[2..<3] = [2 :: nat]" by (simp_all add: upt_rec)
  moreover have "end_of ?c (Some 2) = 2" "end_of (?c \<lparr> rc_position := 2 \<rparr>) None = 3"
    by (simp_all add: end_of_def rc_new_def rs_new_def USIZE_MAX_def)
  ultimately have t: "rc_take ?c (Some 2) (5, 0) = (Inr [[PInt 1], [PNull]], ?c \<lparr> rc_position := 2 \<rparr>)"
    "rc_take (?c \<lparr> rc_position := 2 \<rparr>) None (5, 0) = (Inr [[PNull]], ?c \<lparr> rc_position := 3 \<rparr>)"
    using row by (simp_all add: rc_take_def pack_row_position Let_def) (simp_all add: rc_new_def)
  have p: "pulls (5, 0) [Some 2, None] ?c = (Inr [[PInt 1], [PNull], [PNull]], ?c \<lparr> rc_position := 3 \<rparr>)" by (simp add: t)
  have "length (rs_rows ?r) \<le> USIZE_MAX" by (simp add: USIZE_MAX_def)
  from cursor_streams_rows [OF this p] p show ?thesis by (simp add: Let_def rs_new_def)
qed

section \<open>A row cursor as a source of rows\<close>

text \<open>The rows a cursor still has to send, and when it can send them all; a connection over such a cursor gets the lemmas of the interface.\<close>

definition rows_left :: "version \<Rightarrow> row_cursor \<Rightarrow> pack_value list list" where
  "rows_left v cur = map (\<lambda>i. projr (pack_row cur v i)) [rc_position cur..<rc_len cur]"

definition rows_ready :: "version \<Rightarrow> row_cursor \<Rightarrow> bool" where
  "rows_ready v cur \<longleftrightarrow> rc_position cur \<le> rc_len cur \<and> rc_len cur \<le> USIZE_MAX \<and> (\<forall>i\<in>set [rc_position cur..<rc_len cur]. \<not> isl (pack_row cur v i))"

definition rows_advance :: "nat \<Rightarrow> row_cursor \<Rightarrow> row_cursor" where
  "rows_advance n cur = cur \<lparr> rc_position := rc_position cur + n \<rparr>"

interpretation rc: row_source rc_take rc_has_more rows_advance rows_left rows_ready
proof
  fix v cur n
  assume r: "rows_ready v cur"
  have len: "length (rows_left v cur) = rc_len cur - rc_position cur" by (simp add: rows_left_def)
  have stop: "end_of cur (Some n) = rc_position cur + min n (rc_len cur - rc_position cur)"
    using r by (auto simp: rows_ready_def end_of_def)
  have "\<forall>i\<in>set [rc_position cur..<end_of cur (Some n)]. pack_row cur v i = Inr (projr (pack_row cur v i))"
    using r end_of_le [of cur "Some n"] by (auto simp: rows_ready_def)
  from try_map_ok [OF this] have take: "try_map (pack_row cur v) [rc_position cur..<end_of cur (Some n)] =
      Inr (map (\<lambda>i. projr (pack_row cur v i)) [rc_position cur..<end_of cur (Some n)])" .
  have "take n [rc_position cur..<rc_len cur] = [rc_position cur..<end_of cur (Some n)]"
    using take_upt [of "rc_position cur" n "rc_len cur"] r [unfolded rows_ready_def] by (cases "n \<le> rc_len cur - rc_position cur") (auto simp: stop min_def)
  then show "rc_take cur (Some n) v = (Inr (take n (rows_left v cur)), rows_advance (min n (length (rows_left v cur))) cur)"
    using take by (simp add: rc_take_def Let_def rows_advance_def len) (simp add: rows_left_def take_map stop)
  show "rc_has_more cur \<longleftrightarrow> rows_left v cur \<noteq> []" by (auto simp: rc_has_more_def rows_left_def)
next
  fix v cur n
  assume "rows_ready v cur" "n \<le> length (rows_left v cur)"
  then show "rows_ready v (rows_advance n cur) \<and> rows_left v (rows_advance n cur) = drop n (rows_left v cur)"
    by (auto simp: rows_ready_def rows_left_def rows_advance_def pack_row_position drop_map)
next
  fix m n cur
  show "rows_advance m (rows_advance n cur) = rows_advance (n + m) cur" by (simp add: rows_advance_def add.assoc)
qed

lemma rows_left_eq:
  assumes "\<forall>i<rc_len cur. pack_row cur v i = Inr (R i)"
  shows "rows_left v cur = map R [rc_position cur..<rc_len cur]"
  using assms by (simp add: rows_left_def)

end
