(* ===== verification/Spec2Isabelle.thy ===== *)
theory Spec2Isabelle
  imports Cow_Vec Cow_Map_Bounds Id_Set Hash_Index Id_Map Interner Value_Types Tagged_Text
    Topology_Pack Delta_Layer Traverse Edge_Props Wal Commit_Times Rfc3339 Bolt_Serve Bolt_Results
begin

text \<open>
  mushroomdb is an embedded graph database in Rust. This development models the parts of it that carry its data and its client
  protocol, and proves what they promise. Paths below are relative to \<open>src/\<close>.

  \<^bold>\<open>The program.\<close> The storage crate (\<open>crates/core-storage\<close>) holds a graph in memory: copy-on-write containers (\<open>cow.rs\<close>)
  under a key table (\<open>idmap.rs\<close>), a label table (\<open>interner.rs\<close>), adjacency lists (\<open>topology.rs\<close>), property columns (\<open>columns.rs\<close>) and
  edge properties (\<open>edge_props.rs\<close>). A reader sees a snapshot on disk, the overlay over it and a layer of later commits or of its own
  transaction (\<open>crates/core-api/src/layer.rs\<close>) through the views of \<open>v8/seam.rs\<close>, and a query through the graph view of
  \<open>crates/core-query/src/view.rs\<close>, under a mask of visible nodes (\<open>visible.rs\<close>). Commits are frames of a write-ahead log (\<open>wal.rs\<close>) with a sidecar of commit times (\<open>commit_times.rs\<close>).
  Clients speak Bolt (\<open>crates/bolt\<close>): bytes are framed (\<open>framing.rs\<close>) PackStream values (\<open>packstream.rs\<close>) that are messages
  (\<open>messages/\<close>), which a connection's state machine (\<open>connection.rs\<close>) answers; who a client is comes from the key set of
  \<open>crates/core-api/src/access_keys.rs\<close>. The query engine, the rule engine and the database API are between the two.

  \<^bold>\<open>Theories and sources.\<close>
  \<^item> \<open>Rust_Prelude\<close>: what the source uses of Rust's library (slices, binary search, sorted maps, little-endian integers) and the
    development's collections of rules.
  \<^item> \<open>Cow_Vec\<close>, \<open>Cow_Map\<close>, \<open>Cow_Map_Depth\<close>, \<open>Cow_Map_Bounds\<close>, \<open>Cow_Map_Range\<close>, \<open>Cow_Map_Build\<close>,
    \<open>Cow_Map_Bulk\<close>, \<open>Id_Set\<close>, \<open>Hash_Index\<close>: \<open>cow.rs\<close>. A node is a value: the source shares nodes and copies them before a change, which
    cannot be seen from outside. \<open>Ordered_Map\<close> states the interface of a sorted map as a locale, which is interpreted on the B+tree
    and on sorted lists.
  \<^item> \<open>Id_Map\<close>: \<open>idmap.rs\<close>; \<open>Interner\<close>: \<open>interner.rs\<close>.
  \<^item> \<open>Value_Types\<close>, \<open>Base64\<close>, \<open>Calendar\<close>, \<open>Iso8601\<close>, \<open>Duration\<close>, \<open>Tagged_Text\<close>: \<open>types.rs\<close>,
    values, errors and the texts of values.
  \<^item> \<open>Pack\<close>, \<open>Topology\<close>, \<open>Topology_Pack\<close>: \<open>pack.rs\<close>, \<open>topology.rs\<close>; \<open>Topology_View\<close>, \<open>Edge_Props\<close>:
    \<open>edge_props.rs\<close>, \<open>v8/seam.rs\<close>, \<open>v8/layout.rs\<close>.
  \<^item> \<open>Columns\<close>: \<open>columns.rs\<close>; \<open>Columns_View\<close>: the property reads of \<open>v8/seam.rs\<close>; \<open>Visible_Set\<close>: \<open>visible.rs\<close>; \<open>Bitset\<close> holds what the
    last and the columns share. The stores' contracts are the locales \<open>prop_store\<close> and \<open>id_sets\<close>.
  \<^item> \<open>Graph_View\<close>: \<open>view.rs\<close>, with the contract of a provider of node names as the locale \<open>node_names\<close>, interpreted on the key table and on a
    layer over one; \<open>Traverse\<close>: \<open>traverse.rs\<close>; \<open>Delta_Layer\<close>: \<open>layer.rs\<close> and the views that \<open>crates/core-api/src/reader.rs\<close> builds.
  \<^item> \<open>Wal\<close>: \<open>wal.rs\<close>; \<open>Commit_Times\<close>, \<open>Rfc3339\<close>: \<open>commit_times.rs\<close>.
  \<^item> \<open>Bolt_Framing\<close>, \<open>Packstream\<close>, \<open>Packstream_Decoder\<close>: \<open>framing.rs\<close>, \<open>handshake.rs\<close>, \<open>packstream.rs\<close>.
  \<^item> \<open>Bolt_Messages\<close>, \<open>Bolt_Requests\<close>: \<open>error.rs\<close> and \<open>messages/\<close>; \<open>Access_Keys\<close>: \<open>access_keys.rs\<close> and
    \<open>messages/hello.rs\<close>.
  \<^item> \<open>Bolt_Values\<close>, \<open>Bolt_Results\<close>: \<open>messages/values.rs\<close>, \<open>messages/run.rs\<close>, \<open>messages/graph.rs\<close> and the
    result tables of \<open>crates/core-query/src/result.rs\<close>.
  \<^item> \<open>Bolt_Connection\<close>, \<open>Bolt_Serve\<close>: \<open>connection.rs\<close>; \<open>Bolt_Streams\<close>: what a connection asks of the rows it streams, as the locale
    \<open>row_source\<close>, which \<open>Bolt_Results\<close> interprets on row cursors.

  A struct is a record, an enum a datatype, a map its entries in key order. Errors are the left of a sum; a panic is \<open>None\<close>. Integers that
  wrap are words; elsewhere they are numbers and the ranges are written out. A \<open>str\<close> is the list of its UTF-8 bytes as characters, an
  \<open>f64\<close> its bits.

  \<^bold>\<open>What is shown.\<close> The containers act as vectors, sorted maps and sets after any history, without a panic; the B+tree stays shallow
  enough for its fixed-size paths. The key table never reuses an id. A topology is a set of edges, seen as one set through snapshot, overlay and
  layer, and survives its packed image. Columns hold the properties written to them whatever their types, and every way to read a property through
  snapshot, overlay and layer agrees. The layer of a reader shows the graph its commits make, names, labels, properties and edges, or reports the
  record that does not fit; a neighbourhood is the breadth-first one among visible nodes and its search ends. A log torn at any point recovers exactly the records before the tear. Values print to texts that parse
  back. PackStream values, replies, requests and engine values survive the wire, and the decoder reports every cut. A connection answers every
  request once, never leaks a transaction, reaches the store only when authenticated, rolls back when its key is revoked, and recovers by
  \<open>RESET\<close>; pulling a result gives every row once. Each property stands after a text that names it by its number.

  \<^bold>\<open>Parameters.\<close> \<open>crc32fast\<close>, \<open>bincode\<close>, the keyed hash of the hash index, \<open>blake3\<close> with its hexadecimal form, and the
  escaping of \<open>{:?}\<close> are arguments of the definitions that use them; what a property needs of them is a hypothesis. The transactions,
  cursors and query service of a connection are the record \<open>backend\<close>: in the source they are trait objects and a service over the
  database API.

  \<^bold>\<open>Bounds.\<close> No definition runs on fuel: every loop is a total function with its measure, among them the reader of frames, the scan of the
  message buffer and the decoder, which recurses to the depth the source checks. Sizes of slices are assumed below \<open>2\<^sup>6\<^sup>4\<close> where the source
  adds to a \<open>usize\<close>.

  \<^bold>\<open>Not modelled.\<close> Files, locks and sockets are input and output of the operating system. The snapshot writer, the packed
  form of columns, the full-text and property indexes, the rule engine, the query language and most of the database API are the program's own logic
  and are left out: they are far larger than what is here. The HTTP server, the command line, backups, bindings and test harnesses call the parts above. Sharing of
  memory between threads is not modelled: a connection's flag that another task raises is read at the points where the source reads it.

  \<^bold>\<open>Plan.\<close> Next are the role masks of the database API, the lexer of the query language, the packed columns, the snapshot sections of \<open>v8/\<close>
  and the backup lease.
\<close>

section \<open>Pulling a result over a connection\<close>

text \<open>C14: a client that pulls \<open>n\<close> rows at a time gets the whole result and its connection back. On a connection that streams a row cursor,
  enough \<open>PULL\<close> requests send every remaining row once, in order, close with the summary of the statement and leave the connection
  \<open>Ready\<close>; enough is the number of batches, and for an empty result one.\<close>

theorem pulls_drain_result:
  fixes B :: "('tx, row_cursor, 'w) backend"
  assumes "cur_take B = rc_take" "cur_has_more B = rc_has_more" "cur_summary B = rc_summary t" "0 < sint n"
    and "c_state c = Streaming cur seen" "rc_position cur \<le> rc_len cur" "rc_len cur \<le> USIZE_MAX"
    and "\<forall>i<rc_len cur. pack_row cur (c_version c) i = Inr (R i)" "rc_len cur - rc_position cur \<le> k * nat (sint n)" "0 < k"
  shows "\<exists>out c'. pull_times B [PMap [(''n'', PInt n)]] k c w = (out, c', w) \<and> c_state c' = Ready \<and>
      filter is_record out = map (Record \<circ> R) [rc_position cur..<rc_len cur] \<and>
      last out = Success (rc_summary t (cur \<lparr> rc_position := rc_len cur \<rparr>))"
  using rc.pulls_drain [OF assms(1,2,4,5), of k w] assms(3,6-10)
  by (auto simp: rows_left_eq [OF assms(8)] rows_ready_def rows_advance_def)

definition try_rows :: "(nat, row_cursor, nat) backend" where
  "try_rows = \<lparr> tx_rollback = (\<lambda>_ w. w), tx_commit = (\<lambda>_ w. (Inr 0, w)), cur_fields = rc_fields, cur_take = rc_take,
     cur_discard = rc_discard, cur_has_more = rc_has_more, cur_summary = rc_summary 0, sv_begin = (\<lambda>_ _ w. (Inr 0, w)),
     sv_run_auto_commit = (\<lambda>_ _ w. (Inl (NotSupported []), w)), sv_run_in_tx = (\<lambda>_ tx _ w. (Inl (NotSupported []), tx, w)) \<rparr>"

theorem pulls_drain_result_witness:
  "let cur = rc_new (rs_new [''x''] \<lparr> rs_rows := [[None], [None]] \<rparr>) False None;
       c = (conn_new 60 ''bolt-1'' (5, 0) None True :: (nat, row_cursor) connection) \<lparr> c_state := Streaming cur 0 \<rparr> in
   \<exists>out c'. pull_times try_rows [PMap [(''n'', PInt 1)]] 2 c 0 = (out, c', 0) \<and> c_state c' = Ready \<and>
     filter is_record out = [Record [PNull], Record [PNull]]"
proof -
  let ?cur = "rc_new (rs_new [''x''] \<lparr> rs_rows := [[None], [None]] \<rparr>) False None"
  let ?c = "(conn_new 60 ''bolt-1'' (5, 0) None True :: (nat, row_cursor) connection) \<lparr> c_state := Streaming ?cur 0 \<rparr>"
  have ops: "cur_take try_rows = rc_take" "cur_has_more try_rows = rc_has_more" "cur_summary try_rows = rc_summary 0"
    by (simp_all add: try_rows_def)
  have cur: "rc_position ?cur = 0" "rc_len ?cur = 2" by (simp_all add: rc_new_def rs_new_def)
  have row: "pack_row ?cur (5, 0) i = Inr [PNull]" if "i < 2" for i
  proof -
    have "i = 0 \<or> i = 1" using that by auto
    then show ?thesis
      by (auto simp: pack_row_def Let_def rc_new_def rs_new_def pack_result_cell_def value_entity_tree_def rs_entity_def pack_cell.simps
          map_err_def check_row_def check_depth.simps PS_MAX_DEPTH_def MAX_PACK_LEN_def)
  qed
  have "c_state ?c = Streaming ?cur 0" "c_version ?c = (5, 0)" by (simp_all add: conn_new_def)
  moreover have "0 < sint (1 :: u64)" "nat (sint (1 :: u64)) = 1" by simp_all
  moreover have "[0..<2] = [0, 1 :: nat]" by (simp add: upt_rec)
  ultimately show ?thesis
    using pulls_drain_result [OF ops, of 1 ?c ?cur 0 "\<lambda>_. [PNull]" 2 0] row cur by (auto simp: Let_def USIZE_MAX_def)
qed

end
